(* ===== verification/TM_Prelude.thy ===== *)
theory TM_Prelude
  imports Main "HOL-Library.Word"
begin

text \<open>
  Shared vocabulary of the development: the machine types of the transactional memory
  (\<open>uintptr_t\<close>, \<open>uint64_t\<close> and addresses are 64-bit words, memory is byte addressed), the
  \<open>memcpy\<close>/\<open>memset\<close> primitives of the C library on that memory, the alignment of word
  accesses, and the interface of a word store that the clients of memory rely on.
\<close>

unbundle bit_operations_syntax

named_theorems vlock_simps \<open>what the versioned lock operations do to version and lock bit\<close>
named_theorems store_simps \<open>reads of a byte memory after writes\<close>

type_synonym addr = "64 word"
type_synonym byte = "8 word"
type_synonym bytes = "byte list"
type_synonym memory = "addr \<Rightarrow> byte"

section \<open>Byte memory: memcpy and memset\<close>

definition load_bytes :: "memory \<Rightarrow> addr \<Rightarrow> nat \<Rightarrow> bytes" where
  "load_bytes m a n = map (\<lambda>k. m (a + of_nat k)) [0..<n]"

definition store_bytes :: "memory \<Rightarrow> addr \<Rightarrow> bytes \<Rightarrow> memory" where
  "store_bytes m a bs =
     (\<lambda>x. if unat (x - a) < length bs then bs ! unat (x - a) else m x)"

definition memcpy :: "memory \<Rightarrow> addr \<Rightarrow> addr \<Rightarrow> nat \<Rightarrow> memory" where
  "memcpy m target source n = store_bytes m target (load_bytes m source n)"

definition memset :: "memory \<Rightarrow> addr \<Rightarrow> byte \<Rightarrow> nat \<Rightarrow> memory" where
  "memset m target b n = store_bytes m target (replicate n b)"

lemma length_load_bytes [simp]: "length (load_bytes m a n) = n"
  by (simp add: load_bytes_def)

lemma load_bytes_nth [simp]: "k < n \<Longrightarrow> load_bytes m a n ! k = m (a + of_nat k)"
  by (simp add: load_bytes_def)

lemma store_bytes_Nil [simp]: "store_bytes m a [] = m"
  by (simp add: store_bytes_def)

lemma unat_of_nat_64: "k < 2 ^ 64 \<Longrightarrow> unat (of_nat k :: addr) = k"
  by (simp add: unat_of_nat take_bit_nat_eq_self)

text \<open>A byte offset of a block that wraps around at most once.\<close>

definition in_block :: "addr \<Rightarrow> nat \<Rightarrow> addr \<Rightarrow> bool" where
  "in_block a n x \<longleftrightarrow> unat (x - a) < n"

lemma in_block_offset: "k < n \<Longrightarrow> n \<le> 2 ^ 64 \<Longrightarrow> in_block a n (a + of_nat k)"
  by (simp add: in_block_def unat_of_nat_64)

lemma store_bytes_outside [store_simps]:
  "\<not> in_block a (length bs) x \<Longrightarrow> store_bytes m a bs x = m x"
  by (simp add: store_bytes_def in_block_def)

lemma store_bytes_inside [store_simps]:
  "k < length bs \<Longrightarrow> length bs \<le> 2 ^ 64 \<Longrightarrow> store_bytes m a bs (a + of_nat k) = bs ! k"
  by (simp add: store_bytes_def unat_of_nat_64)

lemma load_store_same [store_simps]:
  "length bs \<le> 2 ^ 64 \<Longrightarrow> n = length bs \<Longrightarrow> load_bytes (store_bytes m a bs) a n = bs"
  by (rule nth_equalityI) (simp_all add: store_simps)

lemma load_store_disjoint [store_simps]:
  assumes "\<And>x. in_block a (length bs) x \<Longrightarrow> \<not> in_block b n x" and "n \<le> 2 ^ 64"
  shows "load_bytes (store_bytes m a bs) b n = load_bytes m b n"
proof (rule nth_equalityI)
  fix k assume "k < length (load_bytes (store_bytes m a bs) b n)"
  hence k: "k < n" by simp
  with assms have "\<not> in_block a (length bs) (b + of_nat k)"
    using in_block_offset by blast
  with k show "load_bytes (store_bytes m a bs) b n ! k = load_bytes m b n ! k"
    by (simp add: store_simps)
qed simp

lemma load_bytes_zero: "(\<And>x. in_block a n x \<Longrightarrow> m x = 0) \<Longrightarrow> n \<le> 2 ^ 64 \<Longrightarrow>
    load_bytes m a n = replicate n 0"
  by (rule nth_equalityI) (simp_all add: in_block_offset)

section \<open>Alignment\<close>

text \<open>
  The alignment of a region is a power of two and the size of its words. Two aligned words
  are equal or share no byte.
\<close>

definition width_ok :: "nat \<Rightarrow> bool" where
  "width_ok w \<longleftrightarrow> 0 < w \<and> w dvd 2 ^ 64"

definition word_aligned :: "nat \<Rightarrow> addr \<Rightarrow> bool" where
  "word_aligned w a \<longleftrightarrow> w dvd unat a"

lemma width_ok_le: "width_ok w \<Longrightarrow> w \<le> 2 ^ 64"
  by (auto simp: width_ok_def intro: dvd_imp_le)

lemma width_ok_power: "k \<le> 64 \<Longrightarrow> width_ok (2 ^ k)"
  unfolding width_ok_def using le_imp_power_dvd [of k 64 "2::nat"] by simp

lemma unat_addr_less: "unat (a :: addr) < 2 ^ 64"
  using unsigned_less [of a] by simp

lemma aligned_block_mod:
  assumes w: "width_ok w" and a: "word_aligned w a" and x: "in_block a w x"
  shows "unat x - unat x mod w = unat a"
proof -
  obtain q where q: "unat a = w * q" using a by (auto simp: word_aligned_def dvd_def)
  obtain r where r: "(2::nat) ^ 64 = w * r" using w by (auto simp: width_ok_def dvd_def)
  let ?d = "unat (x - a)"
  have d: "?d < w" using x by (simp add: in_block_def)
  have "unat x = (unat a + ?d) mod 2 ^ 64"
    using unat_word_ariths(1)[of a "x - a"] by simp
  moreover have "unat a + ?d < 2 ^ 64"
  proof -
    have "unat a < 2 ^ 64" by (rule unat_addr_less)
    hence "w * q < w * r" using q r by simp
    hence "q < r" by simp
    hence "w * (q + 1) \<le> w * r" by (intro mult_le_mono2) simp
    then show ?thesis using q r d by simp
  qed
  ultimately have "unat x = w * q + ?d" using q by simp
  then show ?thesis using d q by simp
qed

lemma aligned_words_disjoint:
  assumes "width_ok w" "word_aligned w a" "word_aligned w b" "a \<noteq> b" "in_block a w x"
  shows "\<not> in_block b w x"
  using aligned_block_mod[of w a x] aligned_block_mod[of w b x] assms
  by (metis unsigned_word_eqI)

section \<open>The interface of a word store\<close>

text \<open>
  What the transactional memory needs of the memory below it: a word read after a write of
  the same address is the word written, and a write changes no other word. The client
  lemmas describe the write-back of a whole write set, in any order.
\<close>

locale word_store =
  fixes ld :: "'m \<Rightarrow> 'a \<Rightarrow> 'v"
    and st :: "'m \<Rightarrow> 'a \<Rightarrow> 'v \<Rightarrow> 'm"
    and okA :: "'a \<Rightarrow> bool"
    and okV :: "'v \<Rightarrow> bool"
  assumes ld_st_same: "okA a \<Longrightarrow> okV v \<Longrightarrow> ld (st m a v) a = v"
    and ld_st_other: "okA a \<Longrightarrow> okA b \<Longrightarrow> okV v \<Longrightarrow> a \<noteq> b \<Longrightarrow> ld (st m a v) b = ld m b"
begin

lemma ld_st: "okA a \<Longrightarrow> okA b \<Longrightarrow> okV v \<Longrightarrow> ld (st m a v) b = (if a = b then v else ld m b)"
  by (simp add: ld_st_same ld_st_other)

lemma ld_fold_st:
  assumes "\<And>a. a \<in> set as \<Longrightarrow> okA a \<and> okV (f a)" and "okA b"
  shows "ld (fold (\<lambda>a m. st m a (f a)) as m) b = (if b \<in> set as then f b else ld m b)"
  using assms by (induction as arbitrary: m) (auto simp: ld_st)

lemma ld_fold_st_order:
  assumes "\<And>a. a \<in> set as \<Longrightarrow> okA a \<and> okV (f a)" and "set bs = set as" and "okA b"
  shows "ld (fold (\<lambda>a m. st m a (f a)) as m) b = ld (fold (\<lambda>a m. st m a (f a)) bs m) b"
proof -
  have bs: "\<And>a. a \<in> set bs \<Longrightarrow> okA a \<and> okV (f a)" using assms(1,2) by blast
  have "ld (fold (\<lambda>a m. st m a (f a)) as m) b = (if b \<in> set as then f b else ld m b)"
    using assms(1,3) by (rule ld_fold_st)
  moreover have "ld (fold (\<lambda>a m. st m a (f a)) bs m) b = (if b \<in> set bs then f b else ld m b)"
    using bs assms(3) by (rule ld_fold_st)
  ultimately show ?thesis using assms(2) by simp
qed

end

text \<open>Byte memory with aligned words of any legal width is a word store.\<close>

interpretation byte_words: word_store
  "\<lambda>m a. load_bytes m a w" "store_bytes"
  "\<lambda>a. width_ok w \<and> word_aligned w a" "\<lambda>v. length v = w" for w
proof unfold_locales
  fix m :: memory and a b :: addr and v :: bytes
  assume a: "width_ok w \<and> word_aligned w a" and v: "length v = w"
  show "load_bytes (store_bytes m a v) a w = v"
    using a v width_ok_le by (auto intro: load_store_same)
  assume b: "width_ok w \<and> word_aligned w b" and "a \<noteq> b"
  show "load_bytes (store_bytes m a v) b w = load_bytes m b w"
    using a b v \<open>a \<noteq> b\<close> width_ok_le aligned_words_disjoint
    by (intro load_store_disjoint) auto
qed

end
