(* ===== verification/Versioned_Lock.thy ===== *)
theory Versioned_Lock
  imports TM_Prelude
begin

text \<open>
  The versioned write lock of \<open>394984/data-structures.cpp\<close>: one atomic 64-bit word that holds
  a 63-bit version above a lock bit. Each member function is a function of the word it loads;
  the functions that store return the word stored. The literal masks of the code are kept at
  the width C++ gives them: \<open>~1\<close> is an \<open>int\<close> and is sign-extended, \<open>~1u\<close> is a 32-bit
  \<open>unsigned\<close> and is zero-extended.
\<close>

section \<open>The lock word\<close>

type_synonym lock_word = "64 word"

definition NUM_LOCKS :: nat where
  "NUM_LOCKS = 10000"

definition vl_new :: lock_word where
  "vl_new = 0"

text \<open>\<open>lock()\<close> loads the word, then attempts one weak compare-and-swap, which may also fail
  spuriously. \<open>vl_expected\<close> and \<open>vl_desired\<close> are its two locals.\<close>

definition vl_expected :: "lock_word \<Rightarrow> lock_word" where
  "vl_expected loaded = loaded AND scast (NOT (1 :: 32 word))"

definition vl_desired :: "lock_word \<Rightarrow> lock_word" where
  "vl_desired expected = expected OR 1"

definition compare_exchange_weak ::
  "bool \<Rightarrow> lock_word \<Rightarrow> lock_word \<Rightarrow> lock_word \<Rightarrow> bool \<times> lock_word" where
  "compare_exchange_weak spurious current expected desired =
     (if current = expected \<and> \<not> spurious then (True, desired) else (False, current))"

text \<open>The whole call when no other thread stores between its load and its swap.\<close>

definition vl_lock :: "bool \<Rightarrow> lock_word \<Rightarrow> bool \<times> lock_word" where
  "vl_lock spurious w =
     (let expected = vl_expected w; desired = vl_desired expected
      in compare_exchange_weak spurious w expected desired)"

definition vl_unlock :: "lock_word \<Rightarrow> lock_word" where
  "vl_unlock w = w AND ucast (NOT (1 :: 32 word))"

definition vl_getVersion :: "lock_word \<Rightarrow> 64 word" where
  "vl_getVersion w = drop_bit 1 w"

definition vl_isLocked :: "lock_word \<Rightarrow> bool" where
  "vl_isLocked w \<longleftrightarrow> w AND 1 \<noteq> 0"

definition vl_setVersion :: "64 word \<Rightarrow> lock_word" where
  "vl_setVersion v = push_bit 1 v OR 0"

text \<open>The stripe that protects an address: \<open>(word)addr % NUM_LOCKS\<close>.\<close>

definition lock_index :: "addr \<Rightarrow> nat" where
  "lock_index a = unat (a mod of_nat NUM_LOCKS)"

section \<open>Bit-level facts\<close>

lemma scast_not_one: "(scast (NOT (1 :: 32 word)) :: lock_word) = NOT 1"
  by simp

lemma ucast_not_one: "(ucast (NOT (1 :: 32 word)) :: lock_word) = 4294967294"
  by simp

lemma vl_expected_eq: "vl_expected w = w AND NOT 1"
  by (simp add: vl_expected_def scast_not_one)

lemma vl_isLocked_bit: "vl_isLocked w \<longleftrightarrow> bit w 0"
  by (simp add: vl_isLocked_def and_one_eq odd_iff_mod_2_eq_one bit_0 one_and_eq)

lemma bit_vl_getVersion: "bit (vl_getVersion w) n \<longleftrightarrow> bit w (Suc n)"
  by (simp only: vl_getVersion_def bit_drop_bit_eq comp_def plus_1_eq_Suc)

lemma bit_vl_setVersion: "bit (vl_setVersion v) n \<longleftrightarrow> 0 < n \<and> n < 64 \<and> bit v (n - 1)"
  by (simp only: vl_setVersion_def bit_or_iff bit_push_bit_iff possible_bit_word bit_0_eq)
    auto

lemma bit_mask_32: "bit (4294967294 :: lock_word) n \<longleftrightarrow> 0 < n \<and> n < 32"
proof -
  have eq: "(4294967294 :: lock_word) = push_bit 1 (mask 31)"
    by (simp add: mask_eq_exp_minus_1)
  have "bit (push_bit 1 (mask 31) :: lock_word) n \<longleftrightarrow> 0 < n \<and> n < 32"
    by (simp only: bit_push_bit_iff bit_mask_iff possible_bit_word) auto
  then show ?thesis by (simp only: eq)
qed

lemma bit_vl_unlock: "bit (vl_unlock w) n \<longleftrightarrow> bit w n \<and> 0 < n \<and> n < 32"
  by (simp only: vl_unlock_def ucast_not_one bit_and_iff bit_mask_32)

section \<open>What the operations do to version and lock bit\<close>

lemma vl_word_eqI:
  assumes "vl_getVersion v = vl_getVersion w" "vl_isLocked v = vl_isLocked w"
  shows "v = w"
proof (rule bit_word_eqI)
  fix n assume "n < LENGTH(64)"
  show "bit v n = bit w n"
  proof (cases n)
    case 0 with assms(2) show ?thesis by (simp add: vl_isLocked_bit)
  next
    case (Suc k) with assms(1) show ?thesis by (metis bit_vl_getVersion)
  qed
qed

lemma vl_new_facts [vlock_simps, simp]: "vl_getVersion vl_new = 0" "\<not> vl_isLocked vl_new"
  by (simp_all add: vl_new_def vl_getVersion_def vl_isLocked_def)

lemma vl_desired_version [vlock_simps]: "vl_getVersion (vl_desired w) = vl_getVersion w"
  by (rule bit_word_eqI) (auto simp: bit_vl_getVersion vl_desired_def bit_simps)

lemma vl_desired_locked [vlock_simps, simp]: "vl_isLocked (vl_desired w)"
  by (simp add: vl_isLocked_bit vl_desired_def bit_simps)

lemma vl_expected_version [vlock_simps]: "vl_getVersion (vl_expected w) = vl_getVersion w"
  by (rule bit_word_eqI) (auto simp: bit_vl_getVersion vl_expected_eq bit_simps
    dest: bit_imp_le_length)

lemma vl_expected_unlocked [vlock_simps, simp]: "\<not> vl_isLocked (vl_expected w)"
  by (simp add: vl_isLocked_bit vl_expected_eq bit_simps)

lemma vl_expected_self [vlock_simps]: "w = vl_expected w \<longleftrightarrow> \<not> vl_isLocked w"
  by (metis vl_expected_unlocked vl_expected_version vl_word_eqI)

lemma unat_vl_getVersion: "unat (vl_getVersion w) = unat w div 2"
  unfolding vl_getVersion_def unat_drop_bit_eq by (simp add: drop_bit_Suc)

lemma unat_vl_getVersion_less: "unat (vl_getVersion w) < 2 ^ 63"
  using unat_addr_less [of w] by (simp add: unat_vl_getVersion)

lemma vl_unlock_version: "vl_getVersion (vl_unlock w) = take_bit 31 (vl_getVersion w)"
  by (rule bit_word_eqI) (auto simp: bit_vl_getVersion bit_vl_unlock bit_simps)

lemma vl_unlock_unlocked [vlock_simps, simp]: "\<not> vl_isLocked (vl_unlock w)"
  by (simp add: vl_isLocked_bit bit_vl_unlock)

lemma unat_vl_unlock_version [vlock_simps]:
  "unat (vl_getVersion (vl_unlock w)) = unat (vl_getVersion w) mod 2 ^ 31"
  unfolding vl_unlock_version unsigned_take_bit_eq by (rule take_bit_eq_mod)

lemma vl_setVersion_version: "vl_getVersion (vl_setVersion v) = take_bit 63 v"
  by (rule bit_word_eqI) (auto simp: bit_vl_getVersion bit_vl_setVersion bit_take_bit_iff)

lemma vl_setVersion_unlocked [vlock_simps, simp]: "\<not> vl_isLocked (vl_setVersion v)"
  by (simp add: vl_isLocked_bit bit_vl_setVersion)

lemma unat_vl_setVersion_version [vlock_simps]:
  "unat (vl_getVersion (vl_setVersion v)) = unat v mod 2 ^ 63"
  unfolding vl_setVersion_version unsigned_take_bit_eq by (rule take_bit_eq_mod)

section \<open>The lock's contract\<close>

text \<open>
  The contract TL2 relies on, for versions within the range the implementation supports:
  acquiring and releasing keep the version, stamping sets it, and a lock word is nothing but
  its version and its lock bit.
\<close>

locale versioned_lock =
  fixes acq :: "'l \<Rightarrow> 'l"
    and rel :: "'l \<Rightarrow> 'l"
    and stamp :: "nat \<Rightarrow> 'l"
    and ver :: "'l \<Rightarrow> nat"
    and locked :: "'l \<Rightarrow> bool"
    and fits :: "nat \<Rightarrow> bool"
  assumes ext: "ver l = ver k \<Longrightarrow> locked l = locked k \<Longrightarrow> l = k"
    and acq_ver: "ver (acq l) = ver l"
    and acq_locked: "locked (acq l)"
    and rel_ver: "fits (ver l) \<Longrightarrow> ver (rel l) = ver l"
    and rel_unlocked: "\<not> locked (rel l)"
    and stamp_ver: "fits v \<Longrightarrow> ver (stamp v) = v"
    and stamp_unlocked: "\<not> locked (stamp v)"
begin

lemma rel_acq: "\<not> locked l \<Longrightarrow> fits (ver l) \<Longrightarrow> rel (acq l) = l"
  by (rule ext) (simp_all add: acq_ver rel_ver rel_unlocked)

lemma stamp_eq: "fits v \<Longrightarrow> \<not> locked l \<Longrightarrow> ver l = v \<Longrightarrow> l = stamp v"
  by (rule ext) (simp_all add: stamp_ver stamp_unlocked)

lemma unlocked_stamp: "\<not> locked l \<Longrightarrow> fits (ver l) \<Longrightarrow> l = stamp (ver l)"
  by (rule stamp_eq) simp_all

end

text \<open>Versions below \<open>2 ^ 31\<close> are the ones every operation of the code keeps.\<close>

definition version_fits :: "nat \<Rightarrow> bool" where
  "version_fits v \<longleftrightarrow> v < 2 ^ 31"

definition lock_version :: "lock_word \<Rightarrow> nat" where
  "lock_version w = unat (vl_getVersion w)"

definition vl_acquired :: "lock_word \<Rightarrow> lock_word" where
  "vl_acquired w = vl_desired (vl_expected w)"

lemma unat_of_nat_fits: "version_fits v \<Longrightarrow> unat (of_nat v :: 64 word) = v"
  by (rule unat_of_nat_64) (simp add: version_fits_def)

interpretation vl: versioned_lock vl_acquired vl_unlock "\<lambda>v. vl_setVersion (of_nat v)"
  lock_version vl_isLocked version_fits
proof unfold_locales
  show "lock_version l = lock_version k \<Longrightarrow> vl_isLocked l = vl_isLocked k \<Longrightarrow> l = k" for l k
    by (rule vl_word_eqI) (simp_all add: lock_version_def word_unat_eq_iff)
  show "lock_version (vl_setVersion (word_of_nat v)) = v" if "version_fits v" for v
    using that unat_of_nat_fits [OF that]
    by (simp add: lock_version_def vlock_simps version_fits_def)
qed (simp_all add: lock_version_def vl_acquired_def vlock_simps version_fits_def)

section \<open>Properties of the lock\<close>

text \<open>A version stored with \<open>setVersion\<close> is read back by \<open>getVersion\<close> modulo \<open>2 ^ 63\<close> (the
  shift drops the top bit), and the lock is free afterwards.\<close>

theorem setVersion_getVersion_roundtrip:
  "unat (vl_getVersion (vl_setVersion v)) = unat v mod 2 ^ 63 \<and> \<not> vl_isLocked (vl_setVersion v)"
  by (simp add: vlock_simps)

lemma vl_acquired_free: "\<not> vl_isLocked w \<Longrightarrow> vl_acquired w = w OR 1"
  using vl_expected_self [of w] by (simp add: vl_acquired_def vl_desired_def)

lemma vl_lock_result:
  "vl_lock spurious w = (if vl_isLocked w \<or> spurious then (False, w) else (True, vl_acquired w))"
  by (simp add: vl_lock_def compare_exchange_weak_def Let_def vl_expected_self vl_acquired_def)

text \<open>\<open>lock()\<close> takes the lock exactly when it is free and the weak compare-and-swap does not
  fail spuriously; on success it sets the lock bit and keeps the version, on failure it leaves
  the word as it is.\<close>

theorem lock_takes_free_lock:
  "vl_lock spurious w =
     (if vl_isLocked w \<or> spurious then (False, w) else (True, w OR 1)) \<and>
   vl_getVersion (snd (vl_lock spurious w)) = vl_getVersion w"
  by (auto simp: vl_lock_result vl_acquired_free)
     (simp_all add: vl_acquired_def vl_desired_version vl_expected_version flip: vl_acquired_free)

text \<open>C19: \<open>unlock()\<close> clears the lock bit but keeps only the low 31 bits of the version, because
  its mask \<open>~1u\<close> is 32 bits wide; the version survives exactly when it is below \<open>2 ^ 31\<close>.\<close>

theorem unlock_truncates_version:
  "\<not> vl_isLocked (vl_unlock w) \<and>
   unat (vl_getVersion (vl_unlock w)) = unat (vl_getVersion w) mod 2 ^ 31 \<and>
   (vl_getVersion (vl_unlock w) = vl_getVersion w \<longleftrightarrow> unat (vl_getVersion w) < 2 ^ 31)"
proof -
  have "vl_getVersion (vl_unlock w) = vl_getVersion w \<longleftrightarrow>
      unat (vl_getVersion w) mod 2 ^ 31 = unat (vl_getVersion w)"
    by (metis unat_vl_unlock_version unsigned_word_eqI)
  also have "\<dots> \<longleftrightarrow> unat (vl_getVersion w) < 2 ^ 31"
    by (metis mod_less mod_less_divisor zero_less_numeral zero_less_power)
  finally show ?thesis by (simp add: vlock_simps)
qed

text \<open>C18: taking a free lock and giving it back on an abort restores the lock word, as long as
  the version is below \<open>2 ^ 31\<close>.\<close>

theorem lock_unlock_roundtrip:
  assumes "vl_lock spurious w = (True, w')" and "lock_version w < 2 ^ 31"
  shows "vl_unlock w' = w"
proof -
  have "\<not> vl_isLocked w" "w' = vl_acquired w"
    using assms(1) by (simp_all add: vl_lock_result split: if_splits)
  then show ?thesis using vl.rel_acq [of w] assms(2) by (simp add: version_fits_def)
qed

theorem lock_unlock_roundtrip_witness:
  "vl_lock False 10 = (True, 11) \<and> lock_version 10 < 2 ^ 31 \<and> vl_unlock 11 = 10"
proof -
  have l: "vl_lock False 10 = (True, 11)"
    by (simp add: vl_lock_def compare_exchange_weak_def vl_expected_eq vl_desired_def)
  have v: "lock_version 10 < 2 ^ 31" by (simp add: lock_version_def unat_vl_getVersion)
  show ?thesis using l v lock_unlock_roundtrip [OF l v] by simp
qed

section \<open>Stripes\<close>

lemma lock_index_mod: "lock_index a = unat a mod NUM_LOCKS"
  by (simp add: lock_index_def NUM_LOCKS_def unat_mod_distrib)

lemma lock_index_less [simp]: "lock_index a < NUM_LOCKS"
  by (simp add: lock_index_mod NUM_LOCKS_def)

text \<open>Every address has a stripe within the lock array, and two addresses less than
  \<open>NUM_LOCKS\<close> bytes apart have different stripes; addresses exactly \<open>NUM_LOCKS\<close> bytes apart
  share one.\<close>

theorem lock_index_window:
  assumes "a \<noteq> b" "unat a \<le> unat b" "unat b - unat a < NUM_LOCKS"
  shows "lock_index a < NUM_LOCKS \<and> lock_index a \<noteq> lock_index b \<and>
    (unat c + NUM_LOCKS < 2 ^ 64 \<longrightarrow> lock_index (c + of_nat NUM_LOCKS) = lock_index c)"
proof -
  have "unat a < unat b" using assms(1,2) by (metis nat_less_le unsigned_word_eqI)
  moreover have "unat a = unat b" if "unat a mod NUM_LOCKS = unat b mod NUM_LOCKS"
  proof -
    have "NUM_LOCKS dvd unat b - unat a"
      using that assms(2) by (metis mod_eq_dvd_iff_nat)
    then show ?thesis using assms(2,3) by (auto dest: dvd_imp_le)
  qed
  moreover have "lock_index (c + of_nat NUM_LOCKS) = lock_index c" if "unat c + NUM_LOCKS < 2 ^ 64"
  proof -
    have "unat (c + of_nat NUM_LOCKS) = unat c + NUM_LOCKS"
      using that by (simp add: unat_word_ariths NUM_LOCKS_def)
    then show ?thesis by (simp add: lock_index_mod)
  qed
  ultimately show ?thesis by (auto simp: lock_index_mod NUM_LOCKS_def)
qed

theorem lock_index_window_witness:
  "lock_index 4096 < NUM_LOCKS \<and> lock_index 4096 \<noteq> lock_index 4104 \<and>
   (unat (4096 :: addr) + NUM_LOCKS < 2 ^ 64 \<and>
    lock_index (4096 + of_nat NUM_LOCKS) = lock_index 4096)"
  using lock_index_window [of 4096 4104 4096] by (simp add: NUM_LOCKS_def)

text \<open>Only one stripe in \<open>gcd(align, NUM_LOCKS)\<close> is ever used: the stripe of an aligned
  address is a multiple of that gcd, so with 8-byte words at most 1250 of the 10000 locks
  protect anything.\<close>

theorem aligned_stripes_bound:
  "{lock_index a | a. word_aligned w a} \<subseteq> {i. i < NUM_LOCKS \<and> gcd w NUM_LOCKS dvd i} \<and>
   card {lock_index a | a. word_aligned 8 a} \<le> 1250"
proof -
  have sub: "{lock_index a | a. word_aligned w a} \<subseteq> {i. i < NUM_LOCKS \<and> gcd w NUM_LOCKS dvd i}" for w
  proof
    fix i assume "i \<in> {lock_index a | a. word_aligned w a}"
    then obtain a where a: "i = lock_index a" "w dvd unat a" by (auto simp: word_aligned_def)
    have "gcd w NUM_LOCKS dvd unat a" using a(2) by (rule dvd_trans [OF gcd_dvd1])
    then have "gcd w NUM_LOCKS dvd unat a mod NUM_LOCKS" by (simp add: dvd_mod)
    then show "i \<in> {i. i < NUM_LOCKS \<and> gcd w NUM_LOCKS dvd i}"
      using a(1) by (simp add: lock_index_mod [symmetric])
  qed
  have "{i. i < NUM_LOCKS \<and> gcd 8 NUM_LOCKS dvd i} \<subseteq> (\<lambda>k. 8 * k) ` {..<1250}"
  proof
    fix i assume i: "i \<in> {i. i < NUM_LOCKS \<and> gcd 8 NUM_LOCKS dvd i}"
    have "gcd 8 (10000 :: nat) = 8" by (simp add: gcd_proj1_iff)
    with i obtain k where "i = 8 * k" "i < 10000" by (auto simp: NUM_LOCKS_def dvd_def)
    then show "i \<in> (\<lambda>k. 8 * k) ` {..<1250}" by auto
  qed
  with sub [of 8] have "{lock_index a | a. word_aligned 8 a} \<subseteq> (\<lambda>k. 8 * k) ` {..<1250}"
    by (rule order_trans)
  then have "card {lock_index a | a. word_aligned 8 a} \<le> card ((\<lambda>k. 8 * k :: nat) ` {..<1250})"
    by (rule card_mono [rotated]) simp
  also have "\<dots> \<le> 1250" using card_image_le [of "{..<1250::nat}" "\<lambda>k. 8 * k"] by simp
  finally show ?thesis using sub by blast
qed

end
