(* ===== verification/TM_Structures.thy ===== *)
theory TM_Structures
  imports Versioned_Lock
begin

text \<open>
  The objects of \<open>394984/data-structures.hpp\<close> and their constructors and destructors: the
  memory region, the transaction and its buffered writes. The C++ heap is explicit: raw blocks
  (\<open>aligned_alloc\<close>/\<open>free\<close>), lock arrays (\<open>new[]\<close>/\<open>delete[]\<close>), regions and transactions
  (\<open>new\<close>/\<open>delete\<close>), each addressed by its pointer, \<open>0\<close> being \<open>nullptr\<close>. What an allocator
  call returns is chosen by its environment: every allocating definition takes the pointer the
  call would return, and an unsuitable pointer counts as failure.
\<close>

section \<open>Records\<close>

text \<open>A buffered write owns a heap copy of one word; it is its contents.\<close>

type_synonym WriteOperation = bytes

type_synonym write_map = "addr \<rightharpoonup> WriteOperation"

record Transaction =
  rv :: "64 word"
  read_set :: "addr set"
  write_set :: write_map
  txn_seg_list :: "addr list"
  is_ro :: bool

record MemoryRegion =
  seg_list :: "addr list"
  region_size :: nat
  align :: nat
  locks :: addr
  start :: addr

text \<open>State every model of the library shares: the global version clock and memory.\<close>

record globals =
  gvc :: "64 word"
  mem :: memory

record heap = globals +
  blocks :: "addr \<rightharpoonup> nat"
  lock_arrays :: "addr \<rightharpoonup> (nat \<Rightarrow> lock_word)"
  regions :: "addr \<rightharpoonup> MemoryRegion"
  txns :: "addr \<rightharpoonup> Transaction"

text \<open>Undefined behaviour of the C++ code is a fault, never a silent result.\<close>

datatype fault = NullWrite | BadFree addr | BadHandle addr

section \<open>The allocator interface\<close>

definition overlaps :: "addr \<Rightarrow> nat \<Rightarrow> addr \<Rightarrow> nat \<Rightarrow> bool" where
  "overlaps p n q k \<longleftrightarrow> unat p < unat q + k \<and> unat q < unat p + n"

definition block_ok :: "heap \<Rightarrow> nat \<Rightarrow> nat \<Rightarrow> addr \<Rightarrow> bool" where
  "block_ok h al n p \<longleftrightarrow> p \<noteq> 0 \<and> word_aligned al p \<and> unat p + n < 2 ^ 64 \<and>
     p \<notin> dom (blocks h) \<and> (\<forall>q k. blocks h q = Some k \<longrightarrow> \<not> overlaps p n q k)"

definition aligned_alloc :: "addr \<Rightarrow> nat \<Rightarrow> nat \<Rightarrow> heap \<Rightarrow> addr \<times> heap" where
  "aligned_alloc p al n h =
     (if block_ok h al n p then (p, h\<lparr>blocks := (blocks h)(p \<mapsto> n)\<rparr>) else (0, h))"

definition free :: "addr \<Rightarrow> heap \<Rightarrow> fault + heap" where
  "free p h =
     (if p = 0 then Inr h
      else if blocks h p = None then Inl (BadFree p)
      else Inr (h\<lparr>blocks := (blocks h)(p := None)\<rparr>))"

fun free_all :: "addr list \<Rightarrow> heap \<Rightarrow> fault + heap" where
  "free_all [] h = Inr h"
| "free_all (seg # segs) h =
     (case free seg h of Inl e \<Rightarrow> Inl e | Inr h' \<Rightarrow> free_all segs h')"

section \<open>Constructors and destructors\<close>

definition new_Transaction :: "64 word \<Rightarrow> bool \<Rightarrow> Transaction" where
  "new_Transaction clock ro =
     \<lparr>rv = clock, read_set = {}, write_set = Map.empty, txn_seg_list = [], is_ro = ro\<rparr>"

definition new_MemoryRegion :: "nat \<Rightarrow> nat \<Rightarrow> MemoryRegion" where
  "new_MemoryRegion sz al =
     \<lparr>seg_list = [], region_size = sz, align = al, locks = 0, start = 0\<rparr>"

text \<open>\<open>new VersionedWriteLock[NUM_LOCKS]\<close>: a fresh array of constructed locks.\<close>

definition new_locks :: "addr \<Rightarrow> heap \<Rightarrow> addr \<times> heap" where
  "new_locks p h =
     (if p \<noteq> 0 \<and> lock_arrays h p = None
      then (p, h\<lparr>lock_arrays := (lock_arrays h)(p \<mapsto> (\<lambda>_. vl_new))\<rparr>) else (0, h))"

definition delete_locks :: "addr \<Rightarrow> heap \<Rightarrow> fault + heap" where
  "delete_locks p h =
     (if p = 0 then Inr h
      else if lock_arrays h p = None then Inl (BadFree p)
      else Inr (h\<lparr>lock_arrays := (lock_arrays h)(p := None)\<rparr>))"

text \<open>\<open>~Transaction\<close>: free the segments the transaction allocated, then the object.\<close>

definition delete_txn :: "addr \<Rightarrow> heap \<Rightarrow> fault + heap" where
  "delete_txn tx h =
     (case txns h tx of None \<Rightarrow> Inl (BadHandle tx)
      | Some txn \<Rightarrow>
          (case free_all (txn_seg_list txn) h of Inl e \<Rightarrow> Inl e
           | Inr h' \<Rightarrow> Inr (h'\<lparr>txns := (txns h')(tx := None)\<rparr>)))"

text \<open>\<open>~MemoryRegion\<close>: free the committed segments, the locks and the first segment.\<close>

definition delete_region :: "addr \<Rightarrow> heap \<Rightarrow> fault + heap" where
  "delete_region shared h =
     (case regions h shared of None \<Rightarrow> Inl (BadHandle shared)
      | Some region \<Rightarrow>
          (case free_all (seg_list region) h of Inl e \<Rightarrow> Inl e
           | Inr h1 \<Rightarrow>
               (case delete_locks (locks region) h1 of Inl e \<Rightarrow> Inl e
                | Inr h2 \<Rightarrow>
                    (case free (start region) h2 of Inl e \<Rightarrow> Inl e
                     | Inr h3 \<Rightarrow> Inr (h3\<lparr>regions := (regions h3)(shared := None)\<rparr>)))))"

section \<open>The write buffer of one tm_write call\<close>

text \<open>
  The loop of \<open>tm_write\<close>: word \<open>i\<close> of the private source goes to \<open>target + i\<close>, the last write
  of an address winning (\<open>insert_or_assign\<close>). \<open>src i\<close> is the word at offset \<open>i\<close> of the source.
  An alignment of zero would never advance the loop; no region has one.
\<close>

function write_loop ::
  "nat \<Rightarrow> addr \<Rightarrow> (nat \<Rightarrow> bytes) \<Rightarrow> nat \<Rightarrow> nat \<Rightarrow> write_map \<Rightarrow> write_map" where
  "write_loop word_size target src sz i ws =
     (if i < sz \<and> 0 < word_size
      then write_loop word_size target src sz (i + word_size) (ws(target + of_nat i \<mapsto> src i))
      else ws)"
  by pat_completeness auto
termination
  by (relation "measure (\<lambda>(w, t, s, sz, i, ws). sz - i)") auto

declare write_loop.simps [simp del]

lemma write_loop_done [simp]: "\<not> i < sz \<Longrightarrow> write_loop w target src sz i ws = ws"
  by (subst write_loop.simps) simp

lemma write_loop_step:
  "i < sz \<Longrightarrow> 0 < w \<Longrightarrow> write_loop w target src sz i ws =
     write_loop w target src sz (i + w) (ws(target + of_nat i \<mapsto> src i))"
  by (subst write_loop.simps) simp

text \<open>The offsets a word loop over \<open>sz\<close> bytes visits, starting at \<open>i\<close>.\<close>

definition offsets_from :: "nat \<Rightarrow> nat \<Rightarrow> nat \<Rightarrow> nat set" where
  "offsets_from w sz i = {k. i \<le> k \<and> k < sz \<and> w dvd k - i}"

lemma offsets_from_step:
  assumes "i < sz" "0 < w"
  shows "offsets_from w sz i = insert i (offsets_from w sz (i + w))"
proof -
  have shift: "w dvd k - (i + w) \<longleftrightarrow> w dvd k - i" if "i + w \<le> k" for k
  proof -
    have "k - i = (k - (i + w)) + w" using that by simp
    then show ?thesis by (simp only: dvd_add_triv_right_iff)
  qed
  have next_word: "i + w \<le> k" if "i \<le> k" "w dvd k - i" "k \<noteq> i" for k
    using that dvd_imp_le [of w "k - i"] by simp
  show ?thesis
  proof (rule set_eqI, rule iffI)
    fix k assume "k \<in> offsets_from w sz i"
    then show "k \<in> insert i (offsets_from w sz (i + w))"
      using next_word [of k] shift [of k] by (cases "k = i") (simp_all add: offsets_from_def)
  next
    fix k assume "k \<in> insert i (offsets_from w sz (i + w))"
    then show "k \<in> offsets_from w sz i"
      using assms shift [of k] by (cases "k = i") (simp_all add: offsets_from_def)
  qed
qed

text \<open>Every property of the buffered words follows from this invariant of the loop.\<close>

lemma write_loop_invariant:
  assumes "P ws"
    and "\<And>ws k. P ws \<Longrightarrow> k \<in> offsets_from w sz i \<Longrightarrow> P (ws(target + of_nat k \<mapsto> src k))"
  shows "P (write_loop w target src sz i ws)"
  using assms
proof (induction w target src sz i ws rule: write_loop.induct)
  case (1 w target src sz i ws)
  show ?case
  proof (cases "i < sz \<and> 0 < w")
    case True
    then have off: "offsets_from w sz i = insert i (offsets_from w sz (i + w))"
      by (simp add: offsets_from_step)
    have "P (write_loop w target src sz (i + w) (ws(target + of_nat i \<mapsto> src i)))"
      using True off "1.prems" by (intro "1.IH") auto
    with True show ?thesis by (simp add: write_loop_step)
  next
    case False
    with "1.prems"(1) show ?thesis by (subst write_loop.simps) auto
  qed
qed

end
