(* ===== verification/TL2_Model.thy ===== *)
theory TL2_Model
  imports TM_Structures
begin

text \<open>
  The concurrent model of \<open>394984/tm.cpp\<close>: any number of threads run transactions on one
  region, and every access to shared state (an atomic load, store, compare-and-swap or
  fetch-and-add of the code, or the \<open>memcpy\<close> of one word) is one step of one thread. The
  program counter names the access the thread performs next; code between two accesses touches
  only the thread's own objects and runs with the access before it. Atomics are sequentially
  consistent, as the code's default memory order makes them, and the copy of one word is one
  step.

  Choices the C++ code leaves open are inputs of a step: which call the client makes, whether a
  weak compare-and-swap fails spuriously, and the iteration order of the unordered containers.
  Allocation (\<open>tm_alloc\<close>) and the region's segment list are not part of this model; the
  sequential model has them.
\<close>

section \<open>State\<close>

text \<open>What a read-write transaction read and wrote, recorded when its commit is decided.\<close>

record commit_rec =
  c_reads :: "(addr \<times> bytes) list"
  c_writes :: write_map

text \<open>
  The shared state: the clock, memory, the lock array and the alignment. \<open>clog\<close> is a history
  variable: the step functions write it and never read it.
\<close>

record shared = globals +
  stripes :: "nat \<Rightarrow> lock_word"
  word_size :: nat
  clog :: "nat \<rightharpoonup> commit_rec"

text \<open>
  Program points. A read is at word \<open>i\<close> of \<open>sz\<close> bytes from \<open>source\<close>; \<open>version\<close> and
  \<open>new_version\<close> are the locals of \<open>tm_read\<close>. In \<open>tm_end\<close> the lists are what is left of each
  loop, \<open>locks_held\<close> the stripes taken so far, \<open>expected\<close> and \<open>current\<close> the locals of
  \<open>lock()\<close> and \<open>unlock()\<close>.
\<close>

datatype pc =
    Idle
  | PreVersion addr nat nat
  | PreLocked addr nat nat "64 word"
  | CopyWord addr nat nat "64 word"
  | PostVersion addr nat nat "64 word"
  | PostLocked addr nat nat "64 word" "64 word"
  | LockLoad "addr list" "nat list"
  | LockCas "addr list" "nat list" lock_word
  | FetchAdd "nat list"
  | ValLocked "addr list" "nat list" "64 word"
  | ValVersion "addr list" "nat list" "64 word"
  | WriteWord "addr list" "64 word"
  | SetVersion "addr list" "64 word"
  | UnlockLoad "nat list"
  | UnlockStore "nat list" lock_word

text \<open>
  A thread: its transaction object, its program point, the iteration order of the write set
  during \<open>tm_end\<close>, the private target buffer of the current \<open>tm_read\<close>, the value returned by
  its last call, and, as a history variable, the words it copied from shared memory.
\<close>

record thread =
  txn :: "Transaction option"
  pc :: pc
  order :: "addr list"
  buf :: "bytes list"
  returned :: bool
  rlog :: "(addr \<times> bytes) list"

record sys =
  sh :: shared
  th :: "nat \<Rightarrow> thread"

text \<open>What happens next in a thread: a call of the client, or the next access of the code.\<close>

datatype act =
    Begin bool
  | Read addr nat
  | Write addr bytes
  | End "addr list"
  | Tau bool "addr list" "nat list"

abbreviation stripe :: "shared \<Rightarrow> addr \<Rightarrow> lock_word" where
  "stripe g a \<equiv> stripes g (lock_index a)"

section \<open>Ends of a transaction\<close>

definition abort :: "thread \<Rightarrow> thread" where
  "abort t = t\<lparr>txn := None, pc := Idle, returned := False\<rparr>"

definition commit :: "thread \<Rightarrow> thread" where
  "commit t = t\<lparr>txn := None, pc := Idle, returned := True\<rparr>"

section \<open>tm_begin and tm_write\<close>

definition tm_begin_step :: "bool \<Rightarrow> shared \<Rightarrow> thread \<Rightarrow> thread option" where
  "tm_begin_step ro g t =
     (if txn t = None \<and> pc t = Idle
      then Some (t\<lparr>txn := Some (new_Transaction (gvc g) ro), rlog := [], buf := [], order := [],
                  returned := True\<rparr>)
      else None)"

definition tm_write_step :: "addr \<Rightarrow> bytes \<Rightarrow> shared \<Rightarrow> thread \<Rightarrow> thread option" where
  "tm_write_step target source g t =
     (case txn t of None \<Rightarrow> None
      | Some x \<Rightarrow>
          if pc t = Idle
          then let w = word_size g;
                   ws = write_loop w target (\<lambda>i. take w (drop i source)) (length source) 0
                          (write_set x)
               in Some (t\<lparr>txn := Some (x\<lparr>write_set := ws\<rparr>), returned := True\<rparr>)
          else None)"

section \<open>tm_read\<close>

definition read_call :: "addr \<Rightarrow> nat \<Rightarrow> thread \<Rightarrow> thread option" where
  "read_call source sz t =
     (if txn t \<noteq> None \<and> pc t = Idle
      then Some (if 0 < sz then t\<lparr>pc := PreVersion source sz 0, buf := []\<rparr>
                 else t\<lparr>buf := [], returned := True\<rparr>)
      else None)"

definition read_next :: "nat \<Rightarrow> addr \<Rightarrow> nat \<Rightarrow> nat \<Rightarrow> thread \<Rightarrow> thread" where
  "read_next w source sz i t =
     (if i + w < sz then t\<lparr>pc := PreVersion source sz (i + w)\<rparr>
      else t\<lparr>pc := Idle, returned := True\<rparr>)"

fun tm_read_step :: "shared \<Rightarrow> Transaction \<Rightarrow> thread \<Rightarrow> pc \<Rightarrow> thread option" where
  "tm_read_step g x t (PreVersion source sz i) =
     Some (t\<lparr>pc := PreLocked source sz i (vl_getVersion (stripe g (source + of_nat i)))\<rparr>)"
| "tm_read_step g x t (PreLocked source sz i version) =
     Some (if vl_isLocked (stripe g (source + of_nat i)) \<or> version > rv x
           then abort t
           else t\<lparr>pc := CopyWord source sz i version\<rparr>)"
| "tm_read_step g x t (CopyWord source sz i version) =
     (let source_addr = source + of_nat i in
      Some (case (if is_ro x then None else write_set x source_addr) of
              Some val \<Rightarrow> t\<lparr>buf := buf t @ [val], pc := PostVersion source sz i version\<rparr>
            | None \<Rightarrow>
                let val = load_bytes (mem g) source_addr (word_size g)
                in t\<lparr>buf := buf t @ [val], rlog := (source_addr, val) # rlog t,
                     pc := PostVersion source sz i version\<rparr>))"
| "tm_read_step g x t (PostVersion source sz i version) =
     Some (t\<lparr>pc := PostLocked source sz i version
                     (vl_getVersion (stripe g (source + of_nat i)))\<rparr>)"
| "tm_read_step g x t (PostLocked source sz i version new_version) =
     (let source_addr = source + of_nat i in
      Some (if is_ro x
            then if vl_isLocked (stripe g source_addr) \<or> new_version \<noteq> version \<or>
                    new_version > rv x
                 then abort t
                 else read_next (word_size g) source sz i t
            else if vl_isLocked (stripe g source_addr) \<or> new_version \<noteq> version
                 then abort t
                 else read_next (word_size g) source sz i
                        (t\<lparr>txn := Some (x\<lparr>read_set := insert source_addr (read_set x)\<rparr>)\<rparr>)))"
| "tm_read_step g x t _ = None"

section \<open>tm_end\<close>

definition end_call :: "addr list \<Rightarrow> thread \<Rightarrow> thread option" where
  "end_call ws_order t =
     (case txn t of None \<Rightarrow> None
      | Some x \<Rightarrow>
          if pc t \<noteq> Idle then None
          else if is_ro x then Some (commit t)
          else if distinct ws_order \<and> set ws_order = dom (write_set x)
          then Some (t\<lparr>order := ws_order,
                       pc := (if ws_order = [] then FetchAdd [] else LockLoad ws_order [])\<rparr>)
          else None)"

text \<open>The cleanup of an abort: unlock every stripe held, in the order of the container.\<close>

definition release_held :: "nat list \<Rightarrow> nat list \<Rightarrow> thread \<Rightarrow> thread option" where
  "release_held held_order locks_held t =
     (if distinct held_order \<and> set held_order = set locks_held
      then Some (if held_order = [] then abort t else t\<lparr>pc := UnlockLoad held_order\<rparr>)
      else None)"

definition write_back :: "addr list \<Rightarrow> 64 word \<Rightarrow> thread \<Rightarrow> thread" where
  "write_back keys wv t = (if keys = [] then commit t else t\<lparr>pc := WriteWord keys wv\<rparr>)"

text \<open>Validation is over: the transaction commits, and goes on to write its write set back.\<close>

definition decide :: "shared \<Rightarrow> Transaction \<Rightarrow> thread \<Rightarrow> 64 word \<Rightarrow> shared \<times> thread" where
  "decide g x t wv =
     (g\<lparr>clog := (clog g)(unat wv \<mapsto> \<lparr>c_reads = rlog t, c_writes = write_set x\<rparr>)\<rparr>,
      write_back (order t) wv t)"

definition val_next ::
  "addr list \<Rightarrow> nat list \<Rightarrow> shared \<Rightarrow> Transaction \<Rightarrow> thread \<Rightarrow> 64 word \<Rightarrow> shared \<times> thread" where
  "val_next reads locks_held g x t wv =
     (if reads = [] then decide g x t wv else (g, t\<lparr>pc := ValLocked reads locks_held wv\<rparr>))"

definition lock_next :: "addr list \<Rightarrow> nat list \<Rightarrow> thread \<Rightarrow> thread" where
  "lock_next keys locks_held t =
     t\<lparr>pc := (if keys = [] then FetchAdd locks_held else LockLoad keys locks_held)\<rparr>"

fun tm_end_step ::
  "bool \<Rightarrow> addr list \<Rightarrow> nat list \<Rightarrow> shared \<Rightarrow> Transaction \<Rightarrow> thread \<Rightarrow> pc \<Rightarrow> (shared \<times> thread) option"
where
  "tm_end_step spurious reads_order held_order g x t (LockLoad (a # keys) locks_held) =
     Some (g, t\<lparr>pc := LockCas (a # keys) locks_held (vl_expected (stripe g a))\<rparr>)"
| "tm_end_step spurious reads_order held_order g x t (LockCas (a # keys) locks_held expected) =
     (let l = lock_index a;
          (success, w) = compare_exchange_weak spurious (stripes g l) expected (vl_desired expected);
          g' = g\<lparr>stripes := (stripes g)(l := w)\<rparr>
      in if \<not> success \<and> l \<notin> set locks_held
         then map_option (Pair g') (release_held held_order locks_held t)
         else Some (g', lock_next keys (List.insert l locks_held) t))"
| "tm_end_step spurious reads_order held_order g x t (FetchAdd locks_held) =
     (let wv = gvc g + 1; g' = g\<lparr>gvc := gvc g + 1\<rparr>
      in if rv x + 1 \<noteq> wv
         then if distinct reads_order \<and> set reads_order = read_set x
              then Some (val_next reads_order locks_held g' x t wv)
              else None
         else Some (decide g' x t wv))"
| "tm_end_step spurious reads_order held_order g x t (ValLocked (a # reads) locks_held wv) =
     (if lock_index a \<in> set locks_held
      then if vl_getVersion (stripe g a) > rv x
           then map_option (Pair g) (release_held held_order locks_held t)
           else Some (val_next reads locks_held g x t wv)
      else if vl_isLocked (stripe g a)
           then map_option (Pair g) (release_held held_order locks_held t)
           else Some (g, t\<lparr>pc := ValVersion (a # reads) locks_held wv\<rparr>))"
| "tm_end_step spurious reads_order held_order g x t (ValVersion (a # reads) locks_held wv) =
     (if vl_getVersion (stripe g a) > rv x
      then map_option (Pair g) (release_held held_order locks_held t)
      else Some (val_next reads locks_held g x t wv))"
| "tm_end_step spurious reads_order held_order g x t (WriteWord (a # keys) wv) =
     Some (g\<lparr>mem := store_bytes (mem g) a (the (write_set x a))\<rparr>,
           t\<lparr>pc := SetVersion (a # keys) wv\<rparr>)"
| "tm_end_step spurious reads_order held_order g x t (SetVersion (a # keys) wv) =
     Some (g\<lparr>stripes := (stripes g)(lock_index a := vl_setVersion wv)\<rparr>, write_back keys wv t)"
| "tm_end_step spurious reads_order held_order g x t (UnlockLoad (l # ls)) =
     Some (g, t\<lparr>pc := UnlockStore (l # ls) (stripes g l)\<rparr>)"
| "tm_end_step spurious reads_order held_order g x t (UnlockStore (l # ls) current) =
     Some (g\<lparr>stripes := (stripes g)(l := vl_unlock current)\<rparr>,
           if ls = [] then abort t else t\<lparr>pc := UnlockLoad ls\<rparr>)"
| "tm_end_step spurious reads_order held_order g x t _ = None"

section \<open>Threads and the system\<close>

fun tstep :: "act \<Rightarrow> shared \<Rightarrow> thread \<Rightarrow> (shared \<times> thread) option" where
  "tstep (Begin ro) g t = map_option (Pair g) (tm_begin_step ro g t)"
| "tstep (Read source sz) g t = map_option (Pair g) (read_call source sz t)"
| "tstep (Write target source) g t = map_option (Pair g) (tm_write_step target source g t)"
| "tstep (End ws_order) g t = map_option (Pair g) (end_call ws_order t)"
| "tstep (Tau spurious reads_order held_order) g t =
     (case txn t of None \<Rightarrow> None
      | Some x \<Rightarrow>
          (case tm_read_step g x t (pc t) of
             Some t' \<Rightarrow> Some (g, t')
           | None \<Rightarrow> tm_end_step spurious reads_order held_order g x t (pc t)))"

text \<open>The documented preconditions of the calls: aligned addresses, sizes in whole words.\<close>

fun call_ok :: "nat \<Rightarrow> act \<Rightarrow> bool" where
  "call_ok w (Read source sz) \<longleftrightarrow> word_aligned w source \<and> w dvd sz \<and> 0 < sz"
| "call_ok w (Write target source) \<longleftrightarrow> word_aligned w target \<and> w dvd length source \<and> source \<noteq> []"
| "call_ok w _ \<longleftrightarrow> True"

definition exec :: "nat \<Rightarrow> act \<Rightarrow> sys \<Rightarrow> sys option" where
  "exec i act s =
     (if call_ok (word_size (sh s)) act
      then map_option (\<lambda>(g, t). s\<lparr>sh := g, th := (th s)(i := t)\<rparr>) (tstep act (sh s) (th s i))
      else None)"

fun run :: "(nat \<times> act) list \<Rightarrow> sys \<Rightarrow> sys option" where
  "run [] s = Some s"
| "run ((i, act) # sched) s = (case exec i act s of None \<Rightarrow> None | Some s' \<Rightarrow> run sched s')"

text \<open>Any thread may move; a run whose states all satisfy \<open>P\<close>.\<close>

inductive sys_step :: "sys \<Rightarrow> sys \<Rightarrow> bool" where
  step: "exec i act s = Some s' \<Longrightarrow> sys_step s s'"

inductive reach :: "(sys \<Rightarrow> bool) \<Rightarrow> sys \<Rightarrow> sys \<Rightarrow> bool" for P s0 where
  start: "P s0 \<Longrightarrow> reach P s0 s0"
| move: "reach P s0 s \<Longrightarrow> sys_step s s' \<Longrightarrow> P s' \<Longrightarrow> reach P s0 s'"

text \<open>A freshly created region: zero locks, a quiescent system, any clock value.\<close>

definition idle_thread :: thread where
  "idle_thread = \<lparr>txn = None, pc = Idle, order = [], buf = [], returned = True, rlog = []\<rparr>"

definition init_sys :: "64 word \<Rightarrow> memory \<Rightarrow> nat \<Rightarrow> sys" where
  "init_sys clock m w =
     \<lparr>sh = \<lparr>gvc = clock, mem = m, stripes = (\<lambda>_. vl_new), word_size = w, clog = Map.empty\<rparr>,
      th = (\<lambda>_. idle_thread)\<rparr>"

end
