(* ===== verification/TL2_Invariant.thy ===== *)
theory TL2_Invariant
  imports TL2_Model
begin

text \<open>
  The invariant of the concurrent model: who holds which stripe, which stamp each committing
  thread has, what memory holds, and what every running transaction may still rely on. The
  theory defines it, shows that it holds initially and that a thread's facts survive the steps
  of the others.
\<close>

section \<open>The protocol view of a thread\<close>

fun held_by :: "pc \<Rightarrow> nat set" where
  "held_by (LockLoad keys locks_held) = set locks_held"
| "held_by (LockCas keys locks_held expected) = set locks_held"
| "held_by (FetchAdd locks_held) = set locks_held"
| "held_by (ValLocked reads locks_held wv) = set locks_held"
| "held_by (ValVersion reads locks_held wv) = set locks_held"
| "held_by (WriteWord keys wv) = lock_index ` set keys"
| "held_by (SetVersion keys wv) = lock_index ` set keys"
| "held_by (UnlockLoad ls) = set ls"
| "held_by (UnlockStore ls current) = set ls"
| "held_by _ = {}"

fun stamp_of :: "pc \<Rightarrow> nat option" where
  "stamp_of (ValLocked reads locks_held wv) = Some (unat wv)"
| "stamp_of (ValVersion reads locks_held wv) = Some (unat wv)"
| "stamp_of (WriteWord keys wv) = Some (unat wv)"
| "stamp_of (SetVersion keys wv) = Some (unat wv)"
| "stamp_of _ = None"

fun decided :: "pc \<Rightarrow> bool" where
  "decided (WriteWord keys wv) = True"
| "decided (SetVersion keys wv) = True"
| "decided _ = False"

text \<open>The word just copied to memory whose stripe is not released yet.\<close>

fun in_flight :: "pc \<Rightarrow> addr option" where
  "in_flight (SetVersion (a # keys) wv) = Some a"
| "in_flight _ = None"

text \<open>The address copied by \<open>tm_read\<close> and not yet in the read set.\<close>

fun being_read :: "pc \<Rightarrow> addr option" where
  "being_read (PostVersion source sz i v) = Some (source + of_nat i)"
| "being_read (PostLocked source sz i v nv) = Some (source + of_nat i)"
| "being_read _ = None"

abbreviation pc_at :: "sys \<Rightarrow> nat \<Rightarrow> pc" where
  "pc_at s i \<equiv> pc (th s i)"

definition gv :: "sys \<Rightarrow> nat" where
  "gv s = unat (gvc (sh s))"

definition ver :: "sys \<Rightarrow> nat \<Rightarrow> nat" where
  "ver s l = lock_version (stripes (sh s) l)"

definition word_at :: "sys \<Rightarrow> addr \<Rightarrow> bytes" where
  "word_at s a = load_bytes (mem (sh s)) a (word_size (sh s))"

lemma decided_stamp: "decided p \<Longrightarrow> \<exists>w. stamp_of p = Some w"
  by (cases p) auto

lemma in_flight_decided: "in_flight p = Some a \<Longrightarrow> decided p \<and> lock_index a \<in> held_by p"
  by (cases p rule: in_flight.cases) auto

section \<open>Memory after the first n commits\<close>

text \<open>
  \<open>snap base log n\<close> is the memory a serial execution of the commits with stamps up to \<open>n\<close>
  would leave, starting from \<open>base\<close>.
\<close>

fun snap :: "(addr \<Rightarrow> bytes) \<Rightarrow> (nat \<rightharpoonup> commit_rec) \<Rightarrow> nat \<Rightarrow> addr \<Rightarrow> bytes" where
  "snap base log 0 a = base a"
| "snap base log (Suc n) a =
     (case log (Suc n) of None \<Rightarrow> snap base log n a
      | Some c \<Rightarrow> (case c_writes c a of None \<Rightarrow> snap base log n a | Some v \<Rightarrow> v))"

definition writes_in :: "(nat \<rightharpoonup> commit_rec) \<Rightarrow> nat \<Rightarrow> addr \<Rightarrow> bool" where
  "writes_in log n a \<longleftrightarrow> (\<exists>c. log n = Some c \<and> c_writes c a \<noteq> None)"

lemma snap_step_other: "\<not> writes_in log (Suc n) a \<Longrightarrow> snap base log (Suc n) a = snap base log n a"
  by (auto simp: writes_in_def split: option.splits)

lemma snap_write: "log n = Some c \<Longrightarrow> c_writes c a = Some v \<Longrightarrow> 0 < n \<Longrightarrow> snap base log n a = v"
  by (cases n) auto

lemma snap_range:
  assumes "m \<le> n" "\<And>k. m < k \<Longrightarrow> k \<le> n \<Longrightarrow> \<not> writes_in log k a"
  shows "snap base log n a = snap base log m a"
  using assms
proof (induction n)
  case (Suc n)
  show ?case
  proof (cases "m = Suc n")
    case False
    with Suc.prems(1) have "m \<le> n" by simp
    moreover have "\<And>k. m < k \<Longrightarrow> k \<le> n \<Longrightarrow> \<not> writes_in log k a" using Suc.prems(2) by simp
    ultimately have "snap base log n a = snap base log m a" by (rule Suc.IH)
    then show ?thesis using Suc.prems(2) [of "Suc n"] \<open>m \<le> n\<close> by (simp add: snap_step_other del: snap.simps)
  qed simp
qed simp

text \<open>Recording a commit changes no earlier snapshot, and no word it does not write.\<close>

lemma snap_update:
  assumes "log w = None" "n < w \<or> c_writes c a = None"
  shows "snap base (log(w \<mapsto> c)) n a = snap base log n a"
  using assms by (induction n) (auto split: option.splits)

section \<open>What a transaction relies on\<close>

text \<open>No other thread holds the stripe with a stamp up to \<open>r\<close>.\<close>

definition clean :: "sys \<Rightarrow> nat \<Rightarrow> nat \<Rightarrow> nat \<Rightarrow> bool" where
  "clean s j r l \<longleftrightarrow>
     (\<forall>k w. k \<noteq> j \<longrightarrow> l \<in> held_by (pc_at s k) \<longrightarrow> stamp_of (pc_at s k) = Some w \<longrightarrow> r < w)"

text \<open>Another thread is writing the stripe back.\<close>

definition taint :: "sys \<Rightarrow> nat \<Rightarrow> nat \<Rightarrow> bool" where
  "taint s j l \<longleftrightarrow> (\<exists>k. k \<noteq> j \<and> decided (pc_at s k) \<and> l \<in> held_by (pc_at s k))"

abbreviation snapshot :: "(addr \<Rightarrow> bytes) \<Rightarrow> sys \<Rightarrow> nat \<Rightarrow> addr \<Rightarrow> bytes" where
  "snapshot base s \<equiv> snap base (clog (sh s))"

text \<open>
  A word read by a transaction with read version \<open>r\<close> is the word of snapshot \<open>r\<close>, unless the
  stripe has moved past \<open>r\<close> or is being moved past it.
\<close>

definition read_ok :: "(addr \<Rightarrow> bytes) \<Rightarrow> sys \<Rightarrow> nat \<Rightarrow> nat \<Rightarrow> addr \<Rightarrow> bytes \<Rightarrow> bool" where
  "read_ok base s j r a v \<longleftrightarrow>
     v = snapshot base s r a \<or> r < ver s (lock_index a) \<or> taint s j (lock_index a)"

text \<open>A validated read: the word before commit \<open>w\<close>, for good.\<close>

definition valid_read :: "(addr \<Rightarrow> bytes) \<Rightarrow> sys \<Rightarrow> nat \<Rightarrow> nat \<Rightarrow> addr \<Rightarrow> bytes \<Rightarrow> bool" where
  "valid_read base s j w a v \<longleftrightarrow>
     v = snapshot base s (w - 1) a \<and> clean s j w (lock_index a)"

definition wf_writes :: "nat \<Rightarrow> write_map \<Rightarrow> bool" where
  "wf_writes w ws \<longleftrightarrow> finite (dom ws) \<and>
     (\<forall>a v. ws a = Some v \<longrightarrow> word_aligned w a \<and> length v = w)"

definition pos_ok :: "nat \<Rightarrow> addr \<Rightarrow> nat \<Rightarrow> bool" where
  "pos_ok w source i \<longleftrightarrow> word_aligned w source \<and> w dvd i"

text \<open>\<open>keys\<close> is what is left of the write set's iteration.\<close>

definition iterating :: "thread \<Rightarrow> Transaction \<Rightarrow> addr list \<Rightarrow> bool" where
  "iterating t x keys \<longleftrightarrow> \<not> is_ro x \<and> distinct (order t) \<and> set (order t) = dom (write_set x) \<and>
     (\<exists>done. order t = done @ keys)"

fun pc_ok :: "(addr \<Rightarrow> bytes) \<Rightarrow> sys \<Rightarrow> nat \<Rightarrow> thread \<Rightarrow> Transaction \<Rightarrow> pc \<Rightarrow> bool" where
  "pc_ok base s j t x Idle \<longleftrightarrow> True"
| "pc_ok base s j t x (PreVersion source sz i) \<longleftrightarrow> pos_ok (word_size (sh s)) source i"
| "pc_ok base s j t x (PreLocked source sz i v) \<longleftrightarrow> pos_ok (word_size (sh s)) source i"
| "pc_ok base s j t x (CopyWord source sz i v) \<longleftrightarrow> pos_ok (word_size (sh s)) source i \<and>
     clean s j (unat (rv x)) (lock_index (source + of_nat i))"
| "pc_ok base s j t x (PostVersion source sz i v) \<longleftrightarrow> pos_ok (word_size (sh s)) source i"
| "pc_ok base s j t x (PostLocked source sz i v nv) \<longleftrightarrow> pos_ok (word_size (sh s)) source i"
| "pc_ok base s j t x (LockLoad keys held) \<longleftrightarrow> keys \<noteq> [] \<and> iterating t x keys \<and>
     set held = lock_index ` (set (order t) - set keys)"
| "pc_ok base s j t x (LockCas keys held e) \<longleftrightarrow> keys \<noteq> [] \<and> iterating t x keys \<and>
     set held = lock_index ` (set (order t) - set keys) \<and> \<not> vl_isLocked e"
| "pc_ok base s j t x (FetchAdd held) \<longleftrightarrow> iterating t x [] \<and> set held = lock_index ` set (order t)"
| "pc_ok base s j t x (ValLocked reads held wv) \<longleftrightarrow> iterating t x [] \<and>
     set held = lock_index ` set (order t) \<and> unat (rv x) < unat wv \<and>
     (\<forall>(a, v) \<in> set (rlog t). a \<in> set reads \<or> valid_read base s j (unat wv) a v)"
| "pc_ok base s j t x (ValVersion reads held wv) \<longleftrightarrow> reads \<noteq> [] \<and> iterating t x [] \<and>
     set held = lock_index ` set (order t) \<and> unat (rv x) < unat wv \<and>
     (\<forall>(a, v) \<in> set (rlog t). a \<in> set reads \<or> valid_read base s j (unat wv) a v) \<and>
     clean s j (unat wv) (lock_index (hd reads)) \<and>
     (\<forall>v. (hd reads, v) \<in> set (rlog t) \<longrightarrow>
        v = snapshot base s (unat (rv x)) (hd reads) \<or> unat (rv x) < ver s (lock_index (hd reads)))"
| "pc_ok base s j t x (WriteWord keys wv) \<longleftrightarrow> iterating t x keys \<and>
     clog (sh s) (unat wv) = Some \<lparr>c_reads = rlog t, c_writes = write_set x\<rparr>"
| "pc_ok base s j t x (SetVersion keys wv) \<longleftrightarrow> keys \<noteq> [] \<and> iterating t x keys \<and>
     clog (sh s) (unat wv) = Some \<lparr>c_reads = rlog t, c_writes = write_set x\<rparr>"
| "pc_ok base s j t x (UnlockLoad ls) \<longleftrightarrow> ls \<noteq> [] \<and> distinct ls"
| "pc_ok base s j t x (UnlockStore ls current) \<longleftrightarrow> ls \<noteq> [] \<and> distinct ls \<and>
     current = stripes (sh s) (hd ls)"

text \<open>The facts about a transaction that do not depend on its program point.\<close>

definition txn_base ::
  "(addr \<Rightarrow> bytes) \<Rightarrow> sys \<Rightarrow> nat \<Rightarrow> (addr \<times> bytes) list \<Rightarrow> Transaction \<Rightarrow> bool" where
  "txn_base base s j log x \<longleftrightarrow>
     unat (rv x) \<le> gv s \<and> wf_writes (word_size (sh s)) (write_set x) \<and> finite (read_set x) \<and>
     (\<forall>(a, v) \<in> set log. word_aligned (word_size (sh s)) a \<and>
        clean s j (unat (rv x)) (lock_index a) \<and> read_ok base s j (unat (rv x)) a v)"

text \<open>Every word copied by a read-write transaction is in its read set, or about to be.\<close>

definition covered :: "thread \<Rightarrow> Transaction \<Rightarrow> bool" where
  "covered t x \<longleftrightarrow>
     \<not> is_ro x \<longrightarrow> fst ` set (rlog t) \<subseteq> read_set x \<union> set_option (being_read (pc t))"

definition txn_ok :: "(addr \<Rightarrow> bytes) \<Rightarrow> sys \<Rightarrow> nat \<Rightarrow> thread \<Rightarrow> Transaction \<Rightarrow> bool" where
  "txn_ok base s j t x \<longleftrightarrow>
     txn_base base s j (rlog t) x \<and> covered t x \<and> pc_ok base s j t x (pc t)"

definition local_ok :: "(addr \<Rightarrow> bytes) \<Rightarrow> sys \<Rightarrow> nat \<Rightarrow> thread \<Rightarrow> bool" where
  "local_ok base s j t \<longleftrightarrow>
     (case txn t of None \<Rightarrow> pc t = Idle | Some x \<Rightarrow> txn_ok base s j t x)"

section \<open>Facts between the threads and the shared state\<close>

definition locks_ok :: "sys \<Rightarrow> bool" where
  "locks_ok s \<longleftrightarrow>
     (\<forall>i j l. l \<in> held_by (pc_at s i) \<longrightarrow> l \<in> held_by (pc_at s j) \<longrightarrow> i = j) \<and>
     (\<forall>l. vl_isLocked (stripes (sh s) l) \<longleftrightarrow> (\<exists>i. l \<in> held_by (pc_at s i))) \<and>
     (\<forall>l. ver s l \<le> gv s)"

definition stamps_ok :: "sys \<Rightarrow> bool" where
  "stamps_ok s \<longleftrightarrow>
     (\<forall>i w. stamp_of (pc_at s i) = Some w \<longrightarrow> 0 < w \<and> w \<le> gv s) \<and>
     (\<forall>i j w. stamp_of (pc_at s i) = Some w \<longrightarrow> stamp_of (pc_at s j) = Some w \<longrightarrow> i = j) \<and>
     (\<forall>i l w. l \<in> held_by (pc_at s i) \<longrightarrow> stamp_of (pc_at s i) = Some w \<longrightarrow> ver s l < w)"

definition log_ok :: "sys \<Rightarrow> bool" where
  "log_ok s \<longleftrightarrow>
     (\<forall>n c. clog (sh s) n = Some c \<longrightarrow> 0 < n \<and> n \<le> gv s) \<and>
     (\<forall>i w. stamp_of (pc_at s i) = Some w \<longrightarrow> \<not> decided (pc_at s i) \<longrightarrow> clog (sh s) w = None) \<and>
     (\<forall>n a. writes_in (clog (sh s)) n a \<longrightarrow> n \<le> ver s (lock_index a) \<or>
        (\<exists>i. decided (pc_at s i) \<and> stamp_of (pc_at s i) = Some n \<and>
             lock_index a \<in> held_by (pc_at s i)))"

definition memory_ok :: "(addr \<Rightarrow> bytes) \<Rightarrow> sys \<Rightarrow> bool" where
  "memory_ok base s \<longleftrightarrow> (\<forall>a. word_aligned (word_size (sh s)) a \<longrightarrow>
     ((\<forall>i. in_flight (pc_at s i) \<noteq> Some a) \<longrightarrow>
        word_at s a = snapshot base s (ver s (lock_index a)) a) \<and>
     (\<forall>i w. in_flight (pc_at s i) = Some a \<longrightarrow> stamp_of (pc_at s i) = Some w \<longrightarrow>
        word_at s a = snapshot base s w a))"

definition serial_ok :: "(addr \<Rightarrow> bytes) \<Rightarrow> sys \<Rightarrow> bool" where
  "serial_ok base s \<longleftrightarrow> (\<forall>n c a v. clog (sh s) n = Some c \<longrightarrow> (a, v) \<in> set (c_reads c) \<longrightarrow>
     v = snapshot base s (n - 1) a \<and>
     (\<forall>k w. stamp_of (pc_at s k) = Some w \<longrightarrow> \<not> decided (pc_at s k) \<longrightarrow> w < n \<longrightarrow>
        lock_index a \<notin> held_by (pc_at s k)))"

lemma serial_okI:
  assumes "\<And>n c a v. clog (sh s) n = Some c \<Longrightarrow> (a, v) \<in> set (c_reads c) \<Longrightarrow>
      v = snapshot base s (n - 1) a"
    and "\<And>n c a v k w. clog (sh s) n = Some c \<Longrightarrow> (a, v) \<in> set (c_reads c) \<Longrightarrow>
      stamp_of (pc_at s k) = Some w \<Longrightarrow> \<not> decided (pc_at s k) \<Longrightarrow> w < n \<Longrightarrow>
      lock_index a \<notin> held_by (pc_at s k)"
  shows "serial_ok base s"
  unfolding serial_ok_def using assms by blast

lemma serial_okD:
  assumes "serial_ok base s" "clog (sh s) n = Some c" "(a, v) \<in> set (c_reads c)"
  shows "v = snapshot base s (n - 1) a"
    and "stamp_of (pc_at s k) = Some w \<Longrightarrow> \<not> decided (pc_at s k) \<Longrightarrow> w < n \<Longrightarrow>
      lock_index a \<notin> held_by (pc_at s k)"
  using assms unfolding serial_ok_def by blast+

lemma log_okD:
  assumes "log_ok s"
  shows "clog (sh s) n = Some c \<Longrightarrow> 0 < n \<and> n \<le> gv s"
    and "stamp_of (pc_at s i) = Some w \<Longrightarrow> \<not> decided (pc_at s i) \<Longrightarrow> clog (sh s) w = None"
    and "writes_in (clog (sh s)) n a \<Longrightarrow> \<not> n \<le> ver s (lock_index a) \<Longrightarrow>
      \<exists>i. decided (pc_at s i) \<and> stamp_of (pc_at s i) = Some n \<and>
        lock_index a \<in> held_by (pc_at s i)"
  using assms unfolding log_ok_def by blast+

lemma log_okI:
  assumes "\<And>n c. clog (sh s) n = Some c \<Longrightarrow> 0 < n \<and> n \<le> gv s"
    and "\<And>i w. stamp_of (pc_at s i) = Some w \<Longrightarrow> \<not> decided (pc_at s i) \<Longrightarrow> clog (sh s) w = None"
    and "\<And>n a. writes_in (clog (sh s)) n a \<Longrightarrow> \<not> n \<le> ver s (lock_index a) \<Longrightarrow>
      \<exists>i. decided (pc_at s i) \<and> stamp_of (pc_at s i) = Some n \<and>
        lock_index a \<in> held_by (pc_at s i)"
  shows "log_ok s"
  unfolding log_ok_def using assms by blast

lemma memory_okI:
  assumes "\<And>a. word_aligned (word_size (sh s)) a \<Longrightarrow> (\<And>i. in_flight (pc_at s i) \<noteq> Some a) \<Longrightarrow>
      word_at s a = snapshot base s (ver s (lock_index a)) a"
    and "\<And>a i w. word_aligned (word_size (sh s)) a \<Longrightarrow> in_flight (pc_at s i) = Some a \<Longrightarrow>
      stamp_of (pc_at s i) = Some w \<Longrightarrow> word_at s a = snapshot base s w a"
  shows "memory_ok base s"
  unfolding memory_ok_def using assms by blast

lemma memory_okD:
  assumes "memory_ok base s" "word_aligned (word_size (sh s)) a"
  shows "(\<And>i. in_flight (pc_at s i) \<noteq> Some a) \<Longrightarrow>
      word_at s a = snapshot base s (ver s (lock_index a)) a"
    and "in_flight (pc_at s i) = Some a \<Longrightarrow> stamp_of (pc_at s i) = Some w \<Longrightarrow>
      word_at s a = snapshot base s w a"
  using assms unfolding memory_ok_def by blast+

definition tl2_inv :: "(addr \<Rightarrow> bytes) \<Rightarrow> sys \<Rightarrow> bool" where
  "tl2_inv base s \<longleftrightarrow> width_ok (word_size (sh s)) \<and> locks_ok s \<and> stamps_ok s \<and> log_ok s \<and>
     memory_ok base s \<and> serial_ok base s \<and> (\<forall>j. local_ok base s j (th s j))"

text \<open>
  The runs the invariant speaks of: the clock stays below \<open>2 ^ 31\<close>, where \<open>unlock()\<close> keeps
  versions, and no transaction writes two words of the same stripe.
\<close>

definition supported :: "sys \<Rightarrow> bool" where
  "supported s \<longleftrightarrow> gv s < 2 ^ 31 \<and>
     (\<forall>i x. txn (th s i) = Some x \<longrightarrow> inj_on lock_index (dom (write_set x)))"

lemma tl2_inv_init:
  assumes "width_ok w"
  shows "tl2_inv (\<lambda>a. load_bytes m a w) (init_sys clock m w)"
  using assms
  by (auto simp: tl2_inv_def init_sys_def idle_thread_def locks_ok_def stamps_ok_def log_ok_def
      memory_ok_def serial_ok_def local_ok_def ver_def lock_version_def writes_in_def word_at_def)

end
