(* ===== verification/TL2_Steps.thy ===== *)
theory TL2_Steps
  imports TL2_Invariant
begin

text \<open>
  Every access of the code keeps the invariant: one lemma per kind of access, each a step from
  the state before it to the state after it, and one lemma that moves the facts of the other
  threads across.
\<close>

section \<open>Updating one thread\<close>

definition upd :: "sys \<Rightarrow> nat \<Rightarrow> shared \<Rightarrow> thread \<Rightarrow> sys" where
  "upd s i g t = s\<lparr>sh := g, th := (th s)(i := t)\<rparr>"

lemma upd_simps [simp]:
  "sh (upd s i g t) = g" "th (upd s i g t) = (th s)(i := t)"
  by (simp_all add: upd_def)

lemma upd_upd [simp]: "upd (upd s i g t) i g' t' = upd s i g' t'"
  by (simp add: upd_def)

lemma clean_mono: "clean s j w l \<Longrightarrow> r \<le> w \<Longrightarrow> clean s j r l"
  unfolding clean_def by fastforce

text \<open>A thread's facts mention only the shared state and the other threads.\<close>

lemma pc_ok_cong:
  assumes "sh s' = sh s" "\<And>k. k \<noteq> j \<Longrightarrow> th s' k = th s k"
  shows "pc_ok base s' j t x p \<longleftrightarrow> pc_ok base s j t x p"
proof -
  have c: "clean s' j r l \<longleftrightarrow> clean s j r l" for r l using assms(2) by (auto simp: clean_def)
  show ?thesis
    by (cases p) (simp_all add: c assms(1) valid_read_def ver_def)
qed

lemma local_ok_cong:
  assumes "sh s' = sh s" "\<And>k. k \<noteq> j \<Longrightarrow> th s' k = th s k"
  shows "local_ok base s' j t \<longleftrightarrow> local_ok base s j t"
proof -
  have "clean s' j r l \<longleftrightarrow> clean s j r l" for r l using assms(2) by (auto simp: clean_def)
  moreover have "read_ok base s' j r a v \<longleftrightarrow> read_ok base s j r a v" for r a v
    using assms by (auto simp: read_ok_def taint_def ver_def)
  ultimately show ?thesis
    using pc_ok_cong [OF assms]
    by (simp add: local_ok_def txn_ok_def txn_base_def gv_def assms(1) split: option.splits)
qed

section \<open>What one thread may assume of the others\<close>

text \<open>
  The part of the rely that keeps the facts about read version \<open>r\<close>: clock and versions grow,
  other holders get stamps only above the old clock, snapshots the thread is clean for stay,
  and a write-back in progress goes on or has raised the version.
\<close>

definition keeps :: "(addr \<Rightarrow> bytes) \<Rightarrow> nat \<Rightarrow> nat \<Rightarrow> sys \<Rightarrow> sys \<Rightarrow> bool" where
  "keeps base j r s s' \<longleftrightarrow>
     gv s \<le> gv s' \<and> (\<forall>l. ver s l \<le> ver s' l) \<and>
     (\<forall>k l w. k \<noteq> j \<longrightarrow> l \<in> held_by (pc_at s' k) \<longrightarrow> stamp_of (pc_at s' k) = Some w \<longrightarrow>
        (l \<in> held_by (pc_at s k) \<and> stamp_of (pc_at s k) = Some w) \<or> gv s < w) \<and>
     (\<forall>a. clean s j r (lock_index a) \<longrightarrow> snapshot base s' r a = snapshot base s r a) \<and>
     (\<forall>k l w. k \<noteq> j \<longrightarrow> decided (pc_at s k) \<longrightarrow> l \<in> held_by (pc_at s k) \<longrightarrow>
        stamp_of (pc_at s k) = Some w \<longrightarrow>
        (decided (pc_at s' k) \<and> l \<in> held_by (pc_at s' k)) \<or> w \<le> ver s' l) \<and>
     word_size (sh s') = word_size (sh s)"

text \<open>The rely of thread \<open>j\<close>: moreover, the stripes it holds and the recorded commits stay.\<close>

definition rely :: "(addr \<Rightarrow> bytes) \<Rightarrow> nat \<Rightarrow> sys \<Rightarrow> sys \<Rightarrow> bool" where
  "rely base j s s' \<longleftrightarrow> (\<forall>r. keeps base j r s s') \<and>
     (\<forall>l \<in> held_by (pc_at s j). stripes (sh s') l = stripes (sh s) l) \<and>
     (\<forall>n c. clog (sh s) n = Some c \<longrightarrow> clog (sh s') n = Some c)"

lemma keepsI:
  assumes "gv s \<le> gv s'" "\<And>l. ver s l \<le> ver s' l"
    and "\<And>k l w. k \<noteq> j \<Longrightarrow> l \<in> held_by (pc_at s' k) \<Longrightarrow> stamp_of (pc_at s' k) = Some w \<Longrightarrow>
        (l \<in> held_by (pc_at s k) \<and> stamp_of (pc_at s k) = Some w) \<or> gv s < w"
    and "\<And>a. clean s j r (lock_index a) \<Longrightarrow> snapshot base s' r a = snapshot base s r a"
    and "\<And>k l w. k \<noteq> j \<Longrightarrow> decided (pc_at s k) \<Longrightarrow> l \<in> held_by (pc_at s k) \<Longrightarrow>
        stamp_of (pc_at s k) = Some w \<Longrightarrow>
        (decided (pc_at s' k) \<and> l \<in> held_by (pc_at s' k)) \<or> w \<le> ver s' l"
    and "word_size (sh s') = word_size (sh s)"
  shows "keeps base j r s s'"
  using assms unfolding keeps_def by blast

lemma relyI:
  assumes "\<And>r. keeps base j r s s'"
    and "\<And>l. l \<in> held_by (pc_at s j) \<Longrightarrow> stripes (sh s') l = stripes (sh s) l"
    and "\<And>n c. clog (sh s) n = Some c \<Longrightarrow> clog (sh s') n = Some c"
  shows "rely base j s s'"
  using assms unfolding rely_def by blast

lemma keeps_clean:
  "keeps base j r s s' \<Longrightarrow> clean s j r l \<Longrightarrow> r \<le> gv s \<Longrightarrow> clean s' j r l"
  unfolding keeps_def clean_def by (meson le_less_trans)

lemma keeps_snapshot:
  "keeps base j n s s' \<Longrightarrow> clean s j n (lock_index a) \<Longrightarrow> snapshot base s' n a = snapshot base s n a"
  by (simp add: keeps_def)

lemma keeps_ver: "keeps base j r s s' \<Longrightarrow> n < ver s l \<Longrightarrow> n < ver s' l"
  by (auto simp: keeps_def intro: less_le_trans)

lemma keeps_taint:
  assumes "keeps base j r s s'" "taint s j l" "clean s j r l"
  shows "taint s' j l \<or> r < ver s' l"
proof -
  from assms(2) obtain k where k: "k \<noteq> j" "decided (pc_at s k)" "l \<in> held_by (pc_at s k)"
    by (auto simp: taint_def)
  then obtain w where w: "stamp_of (pc_at s k) = Some w" using decided_stamp by blast
  with k assms(3) have "r < w" by (auto simp: clean_def)
  moreover from assms(1) k w have "(decided (pc_at s' k) \<and> l \<in> held_by (pc_at s' k)) \<or> w \<le> ver s' l"
    by (auto simp: keeps_def)
  ultimately show ?thesis using k(1) by (auto simp: taint_def)
qed

lemma keeps_read_ok:
  assumes "keeps base j r s s'" "read_ok base s j r a v" "clean s j r (lock_index a)"
  shows "read_ok base s' j r a v"
  using assms keeps_snapshot [OF assms(1,3)] keeps_ver [OF assms(1)] keeps_taint [OF assms(1) _ assms(3)]
  unfolding read_ok_def by metis

lemma keeps_txn_base:
  assumes k: "keeps base j (unat (rv x)) s s'" and ok: "txn_base base s j log x"
  shows "txn_base base s' j log x"
proof -
  have "gv s \<le> gv s'" and ws: "word_size (sh s') = word_size (sh s)" using k by (auto simp: keeps_def)
  moreover have "\<forall>(a, v) \<in> set log. clean s' j (unat (rv x)) (lock_index a) \<and>
      read_ok base s' j (unat (rv x)) a v"
    using ok keeps_clean [OF k] keeps_read_ok [OF k] by (fastforce simp: txn_base_def)
  ultimately show ?thesis using ok unfolding txn_base_def ws by auto
qed

lemma rely_valid_read:
  assumes "rely base j s s'" "valid_read base s j w a v" "w \<le> gv s"
  shows "valid_read base s' j w a v"
  using assms keeps_clean [of base j w s s'] keeps_snapshot [of base j "w - 1" s s' a]
    clean_mono [of s j w _ "w - 1"]
  by (auto simp: valid_read_def rely_def)

lemma pc_ok_stable:
  assumes r: "rely base j s s'" and ok: "pc_ok base s j t x (pc t)" and t: "pc_at s j = pc t"
    and rv: "unat (rv x) \<le> gv s" and st: "\<And>w. stamp_of (pc t) = Some w \<Longrightarrow> w \<le> gv s"
    and log: "\<forall>(a, v) \<in> set (rlog t). clean s j (unat (rv x)) (lock_index a)"
  shows "pc_ok base s' j t x (pc t)"
proof -
  have k: "keeps base j n s s'" for n using r by (simp add: rely_def)
  have ws: "word_size (sh s') = word_size (sh s)" using k by (simp add: keeps_def)
  have clog: "clog (sh s) n = Some c \<Longrightarrow> clog (sh s') n = Some c" for n c
    using r by (simp add: rely_def)
  have own: "l \<in> held_by (pc t) \<Longrightarrow> stripes (sh s') l = stripes (sh s) l" for l
    using r t by (auto simp: rely_def)
  have cl: "clean s j n l \<Longrightarrow> n \<le> gv s \<Longrightarrow> clean s' j n l" for n l
    using keeps_clean [OF k] .
  have va: "valid_read base s j w a v \<Longrightarrow> w \<le> gv s \<Longrightarrow> valid_read base s' j w a v" for w a v
    using rely_valid_read [OF r] .
  have sn: "(a, v) \<in> set (rlog t) \<Longrightarrow>
      snapshot base s' (unat (rv x)) a = snapshot base s (unat (rv x)) a" for a v
    using log by (intro keeps_snapshot [OF k]) auto
  have ve: "n < ver s l \<Longrightarrow> n < ver s' l" for n l using keeps_ver [OF k] .
  show ?thesis
  proof (cases "pc t")
    case (CopyWord source sz i v)
    then show ?thesis using ok cl rv by (simp add: ws)
  next
    case (ValLocked reads held wv)
    then show ?thesis using ok st va by fastforce
  next
    case (ValVersion reads held wv)
    then have wv: "unat wv \<le> gv s" using st by simp
    note ok' = ok [unfolded ValVersion pc_ok.simps]
    have "\<forall>(a, v) \<in> set (rlog t). a \<in> set reads \<or> valid_read base s' j (unat wv) a v"
      using ok' va [OF _ wv] by fastforce
    moreover have "v = snapshot base s' (unat (rv x)) (hd reads) \<or>
        unat (rv x) < ver s' (lock_index (hd reads))" if "(hd reads, v) \<in> set (rlog t)" for v
      using that ok' sn [OF that] ve by auto
    ultimately show ?thesis using ok' cl [OF _ wv] unfolding ValVersion pc_ok.simps by blast
  next
    case (UnlockStore ls c)
    then show ?thesis using ok own by simp
  qed (use ok ws clog in auto)
qed

lemma local_ok_stable:
  assumes r: "rely base j s s'" and ok: "local_ok base s j (th s j)"
    and st: "\<And>w. stamp_of (pc_at s j) = Some w \<Longrightarrow> w \<le> gv s"
  shows "local_ok base s' j (th s j)"
proof (cases "txn (th s j)")
  case None
  then show ?thesis using ok by (simp add: local_ok_def)
next
  case (Some x)
  with ok have tx: "txn_ok base s j (th s j) x" by (simp add: local_ok_def)
  have "pc_ok base s' j (th s j) x (pc_at s j)"
    using tx by (intro pc_ok_stable [OF r _ refl _ st]) (auto simp: txn_ok_def txn_base_def)
  moreover have "txn_base base s' j (rlog (th s j)) x"
    using tx r by (auto simp: txn_ok_def rely_def intro: keeps_txn_base)
  ultimately show ?thesis using tx Some by (simp add: local_ok_def txn_ok_def)
qed

lemma tl2_invD:
  assumes "tl2_inv base s"
  shows "width_ok (word_size (sh s))" "locks_ok s" "stamps_ok s" "log_ok s"
    "memory_ok base s" "serial_ok base s" "local_ok base s j (th s j)"
  using assms by (auto simp: tl2_inv_def)

lemma stamp_le_gv: "stamps_ok s \<Longrightarrow> stamp_of (pc_at s i) = Some w \<Longrightarrow> w \<le> gv s"
  by (auto simp: stamps_ok_def)

lemma holder_unique: "locks_ok s \<Longrightarrow> l \<in> held_by (pc_at s i) \<Longrightarrow> l \<in> held_by (pc_at s j) \<Longrightarrow> i = j"
  unfolding locks_ok_def by blast

lemma tl2_inv_updI:
  assumes inv: "tl2_inv base s" and ws: "word_size g = word_size (sh s)"
    and "locks_ok (upd s i g t)" "stamps_ok (upd s i g t)" "log_ok (upd s i g t)"
    and "memory_ok base (upd s i g t)" "serial_ok base (upd s i g t)"
    and "local_ok base (upd s i g t) i t"
    and "\<And>j. j \<noteq> i \<Longrightarrow> rely base j s (upd s i g t)"
  shows "tl2_inv base (upd s i g t)"
proof -
  have "local_ok base (upd s i g t) j (th (upd s i g t) j)" for j
  proof (cases "j = i")
    case False
    then show ?thesis
      using local_ok_stable [OF assms(9) [OF False] tl2_invD(7) [OF inv]]
        stamp_le_gv [OF tl2_invD(3) [OF inv]] by simp
  qed (simp add: assms(8))
  then show ?thesis using assms tl2_invD(1) [OF inv] by (simp add: tl2_inv_def)
qed

section \<open>Steps that change nothing others see\<close>

text \<open>
  A step on the thread's own objects: the stripes held and the word in flight stay; the stamp
  stays, or is given up by a thread that is not writing back or has nothing left to write.
\<close>

definition same_view :: "pc \<Rightarrow> pc \<Rightarrow> bool" where
  "same_view p q \<longleftrightarrow> held_by q = held_by p \<and> in_flight q = in_flight p \<and>
     (stamp_of q = stamp_of p \<and> decided q = decided p \<or>
      stamp_of q = None \<and> (\<not> decided p \<or> held_by p = {}))"

lemma inv_local:
  assumes inv: "tl2_inv base s" and view: "same_view (pc_at s i) (pc t)"
    and ok: "local_ok base s i t"
  shows "tl2_inv base (upd s i (sh s) t)"
proof -
  let ?s = "upd s i (sh s) t"
  note I = tl2_invD [OF inv]
  have H: "held_by (pc_at ?s k) = held_by (pc_at s k)" and
    M: "in_flight (pc_at ?s k) = in_flight (pc_at s k)" for k
    using view by (auto simp: same_view_def)
  have W: "stamp_of (pc_at s k) = Some w" if "stamp_of (pc_at ?s k) = Some w" for k w
    using that view by (auto simp: same_view_def split: if_splits)
  have U: "\<not> decided (pc_at s k)" if "stamp_of (pc_at ?s k) = Some w" "\<not> decided (pc_at ?s k)" for k w
    using that view by (auto simp: same_view_def split: if_splits)
  have D: "decided (pc_at ?s k) \<and> stamp_of (pc_at ?s k) = Some w"
    if "decided (pc_at s k)" "stamp_of (pc_at s k) = Some w" "l \<in> held_by (pc_at s k)" for k w l
    using that view by (auto simp: same_view_def)
  have gv: "gv ?s = gv s" and ver: "ver ?s = ver s" and wa: "word_at ?s = word_at s"
    by (simp_all add: gv_def ver_def word_at_def fun_eq_iff)
  show ?thesis
  proof (rule tl2_inv_updI [OF inv refl])
    show "locks_ok ?s" using I(2) unfolding locks_ok_def H gv ver by simp
    show "stamps_ok ?s" using I(3) W unfolding stamps_ok_def H gv ver by blast
    have "clog (sh s) w = None" if "stamp_of (pc_at ?s k) = Some w" "\<not> decided (pc_at ?s k)" for k w
      using I(4) W [OF that(1)] U [OF that] unfolding log_ok_def by blast
    moreover have "n \<le> ver s (lock_index a) \<or> (\<exists>k. decided (pc_at ?s k) \<and>
        stamp_of (pc_at ?s k) = Some n \<and> lock_index a \<in> held_by (pc_at s k))"
      if "writes_in (clog (sh s)) n a" for n a
      using I(4) that D unfolding log_ok_def by metis
    ultimately show "log_ok ?s"
      using I(4) unfolding log_ok_def H gv ver upd_simps(1) by blast
    show "memory_ok base ?s" using I(5) W unfolding memory_ok_def M ver wa by (simp del: upd_simps(2))
    show "serial_ok base ?s" using I(6) W U unfolding serial_ok_def H by (simp del: upd_simps(2))
    show "local_ok base ?s i t" using ok by (subst local_ok_cong [where s = s]) simp_all
    have "keeps base j r s ?s" for j r
    proof (rule keepsI, unfold H gv ver)
      show "decided (pc_at ?s k) \<and> l \<in> held_by (pc_at s k) \<or> w \<le> ver s l"
        if "decided (pc_at s k)" "l \<in> held_by (pc_at s k)" "stamp_of (pc_at s k) = Some w" for k l w
        using D [OF that(1,3,2)] that(2) by blast
    qed (use W in simp_all)
    then show "rely base j s ?s" for j by (rule relyI) simp_all
  qed
qed

end
