(* ===== verification/TL2_Effects.thy ===== *)
theory TL2_Effects
  imports TL2_Steps
begin

text \<open>
  The accesses other threads can see, one lemma each: taking and giving back a stripe,
  incrementing the clock, deciding a commit, writing a word back and stamping its stripe.
\<close>

text \<open>The thread goes on with the same transaction and the same reads.\<close>

definition continues :: "thread \<Rightarrow> thread \<Rightarrow> Transaction \<Rightarrow> bool" where
  "continues t0 t x \<longleftrightarrow> txn t0 = Some x \<and> txn t = Some x \<and> rlog t = rlog t0 \<and>
     order t = order t0 \<and> being_read (pc t) = being_read (pc t0)"

lemma local_ok_continues:
  assumes "local_ok base s i (th s i)" "continues (th s i) t x"
    and "keeps base i (unat (rv x)) s s'" "pc_ok base s' i t x (pc t)"
  shows "local_ok base s' i t"
  using assms keeps_txn_base [OF assms(3), of "rlog t"]
  by (auto simp: local_ok_def continues_def txn_ok_def covered_def)

lemma inv_txn_ok:
  "tl2_inv base s \<Longrightarrow> txn (th s i) = Some x \<Longrightarrow> txn_ok base s i (th s i) x"
  using tl2_invD(7) [of base s i] by (simp add: local_ok_def)

lemma inv_pc_ok:
  "tl2_inv base s \<Longrightarrow> txn (th s i) = Some x \<Longrightarrow> pc_ok base s i (th s i) x (pc_at s i)"
  using inv_txn_ok by (simp add: txn_ok_def)

section \<open>Taking a stripe\<close>

lemma inv_acquire:
  assumes inv: "tl2_inv base s" and pc: "pc_at s i = LockCas (a # keys) held e"
    and free: "\<not> vl_isLocked (stripe (sh s) a)"
    and g: "g = (sh s)\<lparr>stripes := (stripes (sh s))(lock_index a := vl_desired (stripe (sh s) a))\<rparr>"
    and t: "held_by (pc t) = insert (lock_index a) (set held)" "stamp_of (pc t) = None"
      "in_flight (pc t) = None" "continues (th s i) t x"
    and ok: "pc_ok base (upd s i g t) i t x (pc t)"
  shows "tl2_inv base (upd s i g t)"
proof -
  let ?l = "lock_index a"
  define s' where "s' = upd s i g t"
  note I = tl2_invD [OF inv]
  have nodec: "\<not> decided (pc t)" using t(2) decided_stamp by force
  have free': "?l \<notin> held_by (pc_at s k)" for k using I(2) free by (auto simp: locks_ok_def)
  have gv: "gv s' = gv s" and ver: "ver s' l = ver s l" and wa: "word_at s' b = word_at s b" for l b
    by (simp_all add: s'_def gv_def ver_def word_at_def g lock_version_def vl_desired_version)
  have H: "m \<in> held_by (pc_at s' k) \<longleftrightarrow> m \<in> held_by (pc_at s k) \<or> k = i \<and> m = ?l" for k m
    using t(1) pc by (auto simp: s'_def)
  have W: "stamp_of (pc_at s' k) = stamp_of (pc_at s k)" and
    D: "decided (pc_at s' k) = decided (pc_at s k)" and
    M: "in_flight (pc_at s' k) = in_flight (pc_at s k)" for k
    using t pc nodec by (simp_all add: s'_def)
  have ni: "stamp_of (pc_at s i) = None" "\<not> decided (pc_at s i)" by (simp_all add: pc)
  have clog: "clog (sh s') = clog (sh s)" and ws: "word_size (sh s') = word_size (sh s)"
    by (simp_all add: s'_def g)
  have ST: "stripes (sh s') k = (if k = ?l then vl_desired (stripes (sh s) k) else stripes (sh s) k)" for k
    by (simp add: s'_def g)
  have keeps: "keeps base j r s s'" for j r
    using ni by (intro keepsI) (auto simp only: gv ver H W D clog ws split: if_splits)
  show ?thesis
  proof (rule tl2_inv_updI [OF inv], fold s'_def)
    show "word_size g = word_size (sh s)" by (simp add: g)
    have "vl_isLocked (stripes (sh s') l) \<longleftrightarrow> (\<exists>k. l \<in> held_by (pc_at s' k))" for l
      using I(2) free' by (auto simp: H ST locks_ok_def)
    moreover have "k = j" if "l \<in> held_by (pc_at s' k)" "l \<in> held_by (pc_at s' j)" for k j l
      using that holder_unique [OF I(2)] free' by (auto simp: H split: if_splits)
    ultimately show "locks_ok s'"
      using I(2) unfolding locks_ok_def gv ver by blast
    show "stamps_ok s'"
      using I(3) ni unfolding stamps_ok_def gv ver H W by (auto split: if_splits)
    show "log_ok s'"
      using I(4) ni unfolding log_ok_def gv ver H W D clog by (fastforce split: if_splits)
    show "memory_ok base s'"
      using I(5) unfolding memory_ok_def ver wa M W clog ws by simp
    show "serial_ok base s'"
      using I(6) ni unfolding serial_ok_def H W D clog by (fastforce split: if_splits)
    show "local_ok base s' i t"
      using I(7) t(4) keeps ok [folded s'_def] by (rule local_ok_continues)
    show "rely base j s s'" for j
      using keeps free' clog by (intro relyI) (auto simp: ST)
  qed
qed

section \<open>Giving a stripe back on an abort\<close>

lemma inv_release:
  assumes inv: "tl2_inv base s" and small: "gv s < 2 ^ 31"
    and pc: "pc_at s i = UnlockStore (l # ls) c" "distinct (l # ls)"
    and g: "g = (sh s)\<lparr>stripes := (stripes (sh s))(l := vl_unlock (stripes (sh s) l))\<rparr>"
    and t: "held_by (pc t) = set ls" "stamp_of (pc t) = None" "in_flight (pc t) = None"
    and ok: "keeps base i r s (upd s i g t) \<Longrightarrow> local_ok base (upd s i g t) i t"
  shows "tl2_inv base (upd s i g t)"
proof -
  define s' where "s' = upd s i g t"
  note I = tl2_invD [OF inv]
  have nodec: "\<not> decided (pc t)" using t(2) decided_stamp by force
  have hl: "l \<in> held_by (pc_at s i)" by (simp add: pc)
  have fits: "ver s l < 2 ^ 31" using I(2) small by (auto simp: locks_ok_def intro: le_less_trans)
  have gv: "gv s' = gv s" and wa: "word_at s' b = word_at s b" for b
    by (simp_all add: s'_def gv_def word_at_def g)
  have ver: "ver s' k = ver s k" for k
    using vl.rel_ver [of "stripes (sh s) l"] fits by (simp add: s'_def ver_def g version_fits_def)
  have H: "m \<in> held_by (pc_at s' k) \<longleftrightarrow> m \<in> held_by (pc_at s k) \<and> (k \<noteq> i \<or> m \<noteq> l)" for k m
    using t(1) pc by (auto simp: s'_def)
  have W: "stamp_of (pc_at s' k) = stamp_of (pc_at s k)" and
    D: "decided (pc_at s' k) = decided (pc_at s k)" and
    M: "in_flight (pc_at s' k) = in_flight (pc_at s k)" for k
    using t pc nodec by (simp_all add: s'_def)
  have ni: "stamp_of (pc_at s i) = None" "\<not> decided (pc_at s i)" by (simp_all add: pc)
  have clog: "clog (sh s') = clog (sh s)" and ws: "word_size (sh s') = word_size (sh s)"
    by (simp_all add: s'_def g)
  have others: "l \<notin> held_by (pc_at s k)" if "k \<noteq> i" for k
    using that hl holder_unique [OF I(2)] by blast
  have ST: "stripes (sh s') k = (if k = l then vl_unlock (stripes (sh s) k) else stripes (sh s) k)" for k
    by (simp add: s'_def g)
  have keeps: "keeps base j r s s'" for j r
    using ni by (intro keepsI) (auto simp only: gv ver H W D clog ws split: if_splits)
  show ?thesis
  proof (rule tl2_inv_updI [OF inv], fold s'_def)
    show "word_size g = word_size (sh s)" by (simp add: g)
    have "vl_isLocked (stripes (sh s') m) \<longleftrightarrow> (\<exists>k. m \<in> held_by (pc_at s' k))" for m
      using I(2) others by (auto simp: H ST locks_ok_def)
    moreover have "k = j" if "m \<in> held_by (pc_at s' k)" "m \<in> held_by (pc_at s' j)" for k j m
      using that holder_unique [OF I(2)] by (auto simp: H split: if_splits)
    ultimately show "locks_ok s'"
      using I(2) unfolding locks_ok_def gv ver by blast
    show "stamps_ok s'"
      using I(3) ni unfolding stamps_ok_def gv ver H W by (auto split: if_splits)
    show "log_ok s'"
      using I(4) ni unfolding log_ok_def gv ver H W D clog by (fastforce split: if_splits)
    show "memory_ok base s'"
      using I(5) unfolding memory_ok_def ver wa M W clog ws by simp
    show "serial_ok base s'"
      using I(6) ni unfolding serial_ok_def H W D clog by (fastforce split: if_splits)
    show "local_ok base s' i t" using keeps ok [folded s'_def] by blast
    show "rely base j s s'" if "j \<noteq> i" for j
      using keeps others that clog by (intro relyI) (auto simp: ST)
  qed
qed

section \<open>Incrementing the clock\<close>

text \<open>
  After the increment every read still has to be validated, or, when nobody else incremented
  since the transaction began, none has to: then all of them are already valid.
\<close>

lemma unvalidated_reads_valid:
  assumes inv: "tl2_inv base s" and x: "txn (th s i) = Some x"
    and last: "unat (rv x) = gv s" and r: "(a, v) \<in> set (rlog (th s i))"
  shows "v = snapshot base s (gv s) a \<and> clean s i n (lock_index a)"
proof -
  note I = tl2_invD [OF inv]
  have tx: "clean s i (gv s) (lock_index a)" "read_ok base s i (gv s) a v"
    using inv_txn_ok [OF inv x] r last by (auto simp: txn_ok_def txn_base_def)
  have le: "stamp_of (pc_at s k) = Some w \<Longrightarrow> w \<le> gv s" for k w using stamp_le_gv [OF I(3)] .
  have none: "\<not> (k \<noteq> i \<and> lock_index a \<in> held_by (pc_at s k) \<and> stamp_of (pc_at s k) = Some w)" for k w
    using tx(1) le unfolding clean_def by fastforce
  then have "\<not> taint s i (lock_index a)" unfolding taint_def using decided_stamp by blast
  moreover have "\<not> gv s < ver s (lock_index a)" using I(2) by (auto simp: locks_ok_def not_less)
  ultimately show ?thesis using tx(2) none by (auto simp: read_ok_def clean_def)
qed

lemma inv_fetch_add:
  assumes inv: "tl2_inv base s" and small: "gv s < 2 ^ 31"
    and pc: "pc_at s i = FetchAdd held" and x: "txn (th s i) = Some x"
    and wv: "wv = gvc (sh s) + 1"
    and g: "g = (sh s)\<lparr>gvc := gvc (sh s) + 1\<rparr>" and t: "t = (th s i)\<lparr>pc := ValLocked reads held wv\<rparr>"
    and reads: "set reads = read_set x \<or> reads = [] \<and> rv x + 1 = wv"
  shows "tl2_inv base (upd s i g t)"
proof -
  define s' where "s' = upd s i g t"
  note I = tl2_invD [OF inv]
  have uwv: "unat wv = gv s + 1"
    using small unfolding wv gv_def by (simp add: unat_word_ariths)
  have gv: "gv s' = gv s + 1" using uwv by (simp add: s'_def gv_def g wv)
  have ver: "ver s' l = ver s l" and wa: "word_at s' b = word_at s b" for l b
    by (simp_all add: s'_def ver_def word_at_def g)
  have H: "held_by (pc_at s' k) = held_by (pc_at s k)" and
    D: "decided (pc_at s' k) = decided (pc_at s k)" and
    M: "in_flight (pc_at s' k) = in_flight (pc_at s k)" for k
    using pc by (simp_all add: s'_def t)
  have W: "stamp_of (pc_at s' k) = (if k = i then Some (gv s + 1) else stamp_of (pc_at s k))" for k
    by (simp add: s'_def t uwv)
  have ni: "stamp_of (pc_at s i) = None" "\<not> decided (pc_at s i)" by (simp_all add: pc)
  have clog: "clog (sh s') = clog (sh s)" and ws: "word_size (sh s') = word_size (sh s)"
    and ST: "stripes (sh s') = stripes (sh s)"
    by (simp_all add: s'_def g)
  have le: "stamp_of (pc_at s k) = Some w \<Longrightarrow> w \<le> gv s" for k w using stamp_le_gv [OF I(3)] .
  have keeps: "keeps base j r s s'" for j r
    using ni by (intro keepsI) (auto simp only: gv ver H W D clog ws split: if_splits)
  have tx: "txn_ok base s i (th s i) x" using inv x by (rule inv_txn_ok)
  have rvle: "unat (rv x) \<le> gv s" using tx by (simp add: txn_ok_def txn_base_def)
  have "\<forall>(a, v) \<in> set (rlog t). a \<in> set reads \<or> valid_read base s' i (unat wv) a v"
    using reads
  proof
    assume "set reads = read_set x"
    moreover have "fst ` set (rlog t) \<subseteq> read_set x"
      using tx pc inv_pc_ok [OF inv x] by (auto simp: txn_ok_def covered_def t iterating_def)
    ultimately show ?thesis by force
  next
    assume "reads = [] \<and> rv x + 1 = wv"
    then have "rv x = gvc (sh s)" by (simp add: wv)
    then have last: "unat (rv x) = gv s" by (simp add: gv_def)
    have "valid_read base s' i (unat wv) a v" if "(a, v) \<in> set (rlog (th s i))" for a v
      using unvalidated_reads_valid [OF inv x last that, of "unat wv"]
      by (auto simp: valid_read_def clog uwv clean_def H W)
    then show ?thesis by (auto simp: t)
  qed
  then have ok: "pc_ok base s' i t x (pc t)"
    using inv_pc_ok [OF inv x] pc rvle by (simp add: t uwv iterating_def)
  show ?thesis
  proof (rule tl2_inv_updI [OF inv], fold s'_def)
    show "word_size g = word_size (sh s)" by (simp add: g)
    show "locks_ok s'" using I(2) unfolding locks_ok_def H ver ST gv by (simp add: le_SucI)
    show "stamps_ok s'" unfolding stamps_ok_def
    proof (intro conjI allI impI)
      fix k w assume "stamp_of (pc_at s' k) = Some w"
      then show "0 < w" "w \<le> gv s'" using I(3) le by (fastforce simp: W gv stamps_ok_def split: if_splits)+
      fix j assume "stamp_of (pc_at s' j) = Some w"
      with \<open>stamp_of (pc_at s' k) = Some w\<close> show "k = j"
        using I(3) le unfolding W stamps_ok_def by (fastforce split: if_splits)
    next
      fix k l w assume "l \<in> held_by (pc_at s' k)" "stamp_of (pc_at s' k) = Some w"
      then show "ver s' l < w"
        using I(2,3) unfolding W H ver stamps_ok_def locks_ok_def
        by (auto split: if_splits simp: less_Suc_eq_le)
    qed
    have "clog (sh s) (Suc (gv s)) = None"
      using I(4) unfolding log_ok_def by (metis Suc_n_not_le_n option.exhaust)
    then show "log_ok s'"
      using I(4) ni unfolding log_ok_def gv ver H W D clog by (fastforce split: if_splits)
    show "memory_ok base s'"
      using I(5) unfolding memory_ok_def ver wa M W clog ws
      by (metis in_flight_decided ni(2))
    show "serial_ok base s'"
    proof (rule serial_okI, unfold clog H D)
      fix n c a v k w
      assume c: "clog (sh s) n = Some c" "(a, v) \<in> set (c_reads c)"
      then show "v = snapshot base s (n - 1) a" using serial_okD(1) [OF I(6)] by blast
      assume k: "stamp_of (pc_at s' k) = Some w" "\<not> decided (pc_at s k)" "w < n"
      have "n \<le> gv s" using log_okD(1) [OF I(4) c(1)] by simp
      with k have "stamp_of (pc_at s k) = Some w" by (auto simp: W split: if_splits)
      then show "lock_index a \<notin> held_by (pc_at s k)" using k serial_okD(2) [OF I(6) c] by blast
    qed
    have "continues (th s i) t x" using x pc by (simp add: continues_def t)
    with I(7) show "local_ok base s' i t" using keeps ok by (rule local_ok_continues)
    show "rely base j s s'" for j
      using keeps clog by (intro relyI) (auto simp: ST)
  qed
qed

section \<open>Deciding a commit\<close>

lemma writes_in_update:
  "log n = None \<Longrightarrow> writes_in (log(n \<mapsto> c)) k a \<longleftrightarrow>
     writes_in log k a \<or> k = n \<and> c_writes c a \<noteq> None"
  by (auto simp: writes_in_def)

lemma inv_decide:
  assumes inv: "tl2_inv base s"
    and pc: "pc_at s i = ValLocked [] held wv" and x: "txn (th s i) = Some x"
    and g: "g = (sh s)\<lparr>clog := (clog (sh s))(unat wv \<mapsto>
        \<lparr>c_reads = rlog (th s i), c_writes = write_set x\<rparr>)\<rparr>"
    and t: "t = (th s i)\<lparr>pc := WriteWord (order (th s i)) wv\<rparr>"
  shows "tl2_inv base (upd s i g t)"
proof -
  define s' where "s' = upd s i g t"
  note I = tl2_invD [OF inv]
  define c where "c = \<lparr>c_reads = rlog (th s i), c_writes = write_set x\<rparr>"
  define n where "n = unat wv"
  have ok0: "iterating (th s i) x []" "set held = lock_index ` set (order (th s i))"
    "unat (rv x) < n" "\<And>a v. (a, v) \<in> set (rlog (th s i)) \<Longrightarrow> valid_read base s i n a v"
    using inv_pc_ok [OF inv x] pc by (auto simp: n_def)
  have Wi: "stamp_of (pc_at s i) = Some n" and ni: "\<not> decided (pc_at s i)" by (simp_all add: pc n_def)
  have n: "0 < n" "n \<le> gv s" using I(3) Wi by (auto simp: stamps_ok_def)
  have new: "clog (sh s) n = None" using log_okD(2) [OF I(4) Wi ni] .
  have gv: "gv s' = gv s" and ver: "ver s' l = ver s l" and wa: "word_at s' b = word_at s b" for l b
    by (simp_all add: s'_def gv_def ver_def word_at_def g)
  have H: "held_by (pc_at s' k) = held_by (pc_at s k)" and
    W: "stamp_of (pc_at s' k) = stamp_of (pc_at s k)" and
    M: "in_flight (pc_at s' k) = in_flight (pc_at s k)" for k
    using pc ok0(2) by (simp_all add: s'_def t)
  have Mi: "in_flight (pc_at s i) = None" by (simp add: pc)
  have D: "decided (pc_at s' k) \<longleftrightarrow> decided (pc_at s k) \<or> k = i" for k
    by (simp add: s'_def t)
  have clog: "clog (sh s') = (clog (sh s))(n \<mapsto> c)" and ws: "word_size (sh s') = word_size (sh s)"
    and ST: "stripes (sh s') = stripes (sh s)"
    by (simp_all add: s'_def g c_def n_def)
  have own: "lock_index a \<in> held_by (pc_at s i)" if "write_set x a \<noteq> None" for a
  proof -
    have "a \<in> set (order (th s i))" using that ok0(1) by (auto simp: iterating_def)
    then show ?thesis using ok0(2) by (simp add: pc)
  qed
  have snapshot: "snapshot base s' k a = snapshot base s k a" if "k < n \<or> write_set x a = None" for k a
    unfolding clog using new that by (intro snap_update) (auto simp: c_def)
  have keeps: "keeps base j r s s'" if "j \<noteq> i \<or> r < n" for j r
  proof (rule keepsI, unfold gv ver H W D ws)
    fix a assume "clean s j r (lock_index a)"
    then show "snapshot base s' r a = snapshot base s r a"
      using that own [of a] Wi by (intro snapshot) (auto simp: clean_def)
  qed auto
  show ?thesis
  proof (rule tl2_inv_updI [OF inv], fold s'_def)
    show "word_size g = word_size (sh s)" by (simp add: g)
    show "locks_ok s'" using I(2) unfolding locks_ok_def gv ver H ST .
    show "stamps_ok s'" using I(3) unfolding stamps_ok_def gv ver H W .
    show "log_ok s'"
    proof (rule log_okI, unfold gv ver H W D)
      show "0 < k \<and> k \<le> gv s" if "clog (sh s') k = Some d" for k d
        using that n log_okD(1) [OF I(4)] by (cases "k = n") (auto simp: clog)
      show "clog (sh s') w = None"
        if "stamp_of (pc_at s k) = Some w" "\<not> (decided (pc_at s k) \<or> k = i)" for k w
        using that I(3) Wi log_okD(2) [OF I(4), of k w] by (auto simp: clog stamps_ok_def)
      show "\<exists>j. (decided (pc_at s j) \<or> j = i) \<and> stamp_of (pc_at s j) = Some k \<and>
          lock_index a \<in> held_by (pc_at s j)"
        if "writes_in (clog (sh s')) k a" "\<not> k \<le> ver s (lock_index a)" for k a
        using that Wi own [of a] log_okD(3) [OF I(4), of k a]
        unfolding clog writes_in_update [where log = "clog (sh s)", OF new] c_def by auto
    qed
    show "memory_ok base s'"
    proof (rule memory_okI, unfold ver M W wa ws)
      fix a assume a: "word_aligned (word_size (sh s)) a"
      show "word_at s a = snapshot base s' (ver s (lock_index a)) a"
        if "\<And>k. in_flight (pc_at s k) \<noteq> Some a"
      proof -
        have "ver s (lock_index a) < n" if "write_set x a \<noteq> None"
          using I(3) Wi own [OF that] by (auto simp: stamps_ok_def)
        then show ?thesis using memory_okD(1) [OF I(5) a that] snapshot by metis
      qed
      show "word_at s a = snapshot base s' w a"
        if k: "in_flight (pc_at s k) = Some a" "stamp_of (pc_at s k) = Some w" for k w
      proof -
        have "k \<noteq> i" using k Mi by auto
        then have "write_set x a = None"
          using in_flight_decided [OF k(1)] own [of a] holder_unique [OF I(2)] by blast
        then show ?thesis using memory_okD(2) [OF I(5) a k] snapshot by simp
      qed
    qed
    show "serial_ok base s'"
    proof (rule serial_okI, unfold H W D)
      fix k d a v
      assume d: "clog (sh s') k = Some d" "(a, v) \<in> set (c_reads d)"
      have new_read: "valid_read base s i n a v" if "k = n"
        using d that by (auto simp: clog c_def intro: ok0(4))
      have old: "clog (sh s) k = Some d" if "k \<noteq> n" using d that by (simp add: clog)
      have unchanged: "k - 1 < n \<or> write_set x a = None" if "k \<noteq> n"
        using serial_okD(2) [OF I(6) old [OF that] d(2) Wi ni] own [of a] that by fastforce
      show "v = snapshot base s' (k - 1) a"
      proof (cases "k = n")
        case True
        then show ?thesis using new_read n(1) snapshot [of "n - 1" a] by (simp add: valid_read_def)
      next
        case False
        show ?thesis
          using serial_okD(1) [OF I(6) old [OF False] d(2)] snapshot [OF unchanged [OF False]] by simp
      qed
      fix j w
      assume j: "stamp_of (pc_at s j) = Some w" "\<not> (decided (pc_at s j) \<or> j = i)" "w < k"
      show "lock_index a \<notin> held_by (pc_at s j)"
      proof (cases "k = n")
        case True
        then show ?thesis using new_read j by (auto simp: valid_read_def clean_def)
      next
        case False
        show ?thesis using serial_okD(2) [OF I(6) old [OF False] d(2)] j by blast
      qed
    qed
    have "continues (th s i) t x" using x pc by (simp add: continues_def t)
    moreover have "pc_ok base s' i t x (pc t)"
      using ok0(1) clog by (simp add: t iterating_def n_def c_def)
    ultimately show "local_ok base s' i t"
      using local_ok_continues [OF I(7)] keeps ok0(3) by blast
    show "rely base j s s'" if "j \<noteq> i" for j
      using keeps that clog new by (intro relyI) (auto simp: ST)
  qed
qed

section \<open>Writing a word back\<close>

lemma inv_write_word:
  assumes inv: "tl2_inv base s"
    and pc: "pc_at s i = WriteWord (a # keys) wv" and x: "txn (th s i) = Some x"
    and g: "g = (sh s)\<lparr>mem := store_bytes (mem (sh s)) a (the (write_set x a))\<rparr>"
    and t: "t = (th s i)\<lparr>pc := SetVersion (a # keys) wv\<rparr>"
  shows "tl2_inv base (upd s i g t)"
proof -
  define s' where "s' = upd s i g t"
  note I = tl2_invD [OF inv]
  have ok0: "iterating (th s i) x (a # keys)"
    "clog (sh s) (unat wv) = Some \<lparr>c_reads = rlog (th s i), c_writes = write_set x\<rparr>"
    using inv_pc_ok [OF inv x] pc by simp_all
  have base: "wf_writes (word_size (sh s)) (write_set x)"
    using inv_txn_ok [OF inv x] by (simp add: txn_ok_def txn_base_def)
  obtain v where v: "write_set x a = Some v" using ok0(1) by (fastforce simp: iterating_def)
  with base have av: "word_aligned (word_size (sh s)) a" "length v = word_size (sh s)"
    by (auto simp: wf_writes_def)
  have gv: "gv s' = gv s" and ver: "ver s' l = ver s l" for l
    by (simp_all add: s'_def gv_def ver_def g)
  have H: "held_by (pc_at s' k) = held_by (pc_at s k)" and
    W: "stamp_of (pc_at s' k) = stamp_of (pc_at s k)" and
    D: "decided (pc_at s' k) = decided (pc_at s k)" for k
    using pc by (simp_all add: s'_def t)
  have M: "in_flight (pc_at s' k) = (if k = i then Some a else in_flight (pc_at s k))" for k
    by (simp add: s'_def t)
  have Mi: "in_flight (pc_at s i) = None" by (simp add: pc)
  have clog: "clog (sh s') = clog (sh s)" and ws: "word_size (sh s') = word_size (sh s)"
    and ST: "stripes (sh s') = stripes (sh s)"
    by (simp_all add: s'_def g)
  have wa: "word_at s' b = (if b = a then v else word_at s b)"
    if "word_aligned (word_size (sh s)) b" for b
    using byte_words.ld_st [of "word_size (sh s)" a b v "mem (sh s)"] I(1) av that v
    by (simp add: word_at_def s'_def g)
  have alone: "in_flight (pc_at s k) \<noteq> Some a" for k
  proof
    assume k: "in_flight (pc_at s k) = Some a"
    have "lock_index a \<in> held_by (pc_at s i)" by (simp add: pc)
    then show False using holder_unique [OF I(2)] in_flight_decided [OF k] k Mi by fastforce
  qed
  have keeps: "keeps base j r s s'" for j r
    by (rule keepsI) (auto simp: gv ver H W D ws clog)
  show ?thesis
  proof (rule tl2_inv_updI [OF inv], fold s'_def)
    show "word_size g = word_size (sh s)" by (simp add: g)
    show "locks_ok s'" using I(2) unfolding locks_ok_def gv ver H ST .
    show "stamps_ok s'" using I(3) unfolding stamps_ok_def gv ver H W .
    show "log_ok s'" using I(4) unfolding log_ok_def gv ver H W D clog .
    show "serial_ok base s'" using I(6) unfolding serial_ok_def H W D clog .
    show "memory_ok base s'"
    proof (rule memory_okI, unfold ver W ws clog)
      fix b assume b: "word_aligned (word_size (sh s)) b"
      show "word_at s' b = snapshot base s (ver s (lock_index b)) b"
        if "\<And>k. in_flight (pc_at s' k) \<noteq> Some b"
      proof -
        have "b \<noteq> a" using that [of i] by (auto simp: M)
        moreover have "in_flight (pc_at s k) \<noteq> Some b" for k
          using that [of k] Mi by (auto simp: M split: if_splits)
        ultimately show ?thesis using memory_okD(1) [OF I(5) b] wa [OF b] by simp
      qed
      show "word_at s' b = snapshot base s w b"
        if k: "in_flight (pc_at s' k) = Some b" "stamp_of (pc_at s k) = Some w" for k w
      proof (cases "k = i")
        case True
        with k have "b = a" "w = unat wv" by (auto simp: M pc)
        moreover have "0 < unat wv" using log_okD(1) [OF I(4) ok0(2)] by simp
        ultimately show ?thesis using wa [OF b] snap_write [where log = "clog (sh s)", OF ok0(2)] v by simp
      next
        case False
        with k have "in_flight (pc_at s k) = Some b" by (simp add: M)
        with alone [of k] show ?thesis
          using memory_okD(2) [OF I(5) b _ k(2)] wa [OF b] by auto
      qed
    qed
    have "continues (th s i) t x" using x pc by (simp add: continues_def t)
    moreover have "pc_ok base s' i t x (pc t)"
      using ok0 clog by (simp add: t iterating_def)
    ultimately show "local_ok base s' i t"
      using local_ok_continues [OF I(7)] keeps by blast
    show "rely base j s s'" for j
      using keeps clog by (intro relyI) (auto simp: ST)
  qed
qed

section \<open>Stamping and releasing a stripe\<close>

lemma inv_set_version:
  assumes inv: "tl2_inv base s" and small: "gv s < 2 ^ 31"
    and pc: "pc_at s i = SetVersion (a # keys) wv" and x: "txn (th s i) = Some x"
    and inj: "inj_on lock_index (dom (write_set x))"
    and g: "g = (sh s)\<lparr>stripes := (stripes (sh s))(lock_index a := vl_setVersion wv)\<rparr>"
    and t: "t = (th s i)\<lparr>pc := WriteWord keys wv\<rparr>"
  shows "tl2_inv base (upd s i g t)"
proof -
  define s' where "s' = upd s i g t"
  let ?l = "lock_index a"
  note I = tl2_invD [OF inv]
  define n where "n = unat wv"
  have ok0: "iterating (th s i) x (a # keys)"
    "clog (sh s) n = Some \<lparr>c_reads = rlog (th s i), c_writes = write_set x\<rparr>"
    using inv_pc_ok [OF inv x] pc by (simp_all add: n_def)
  have keys: "a \<in> dom (write_set x)" "set keys \<subseteq> dom (write_set x)" "a \<notin> set keys"
    using ok0(1) by (fastforce simp: iterating_def)+
  have lk: "lock_index ` set keys = lock_index ` set (a # keys) - {?l}"
    using keys inj by (auto simp: inj_on_def)
  have Wi: "stamp_of (pc_at s i) = Some n" by (simp add: pc n_def)
  have n: "0 < n" "n \<le> gv s" using I(3) Wi by (auto simp: stamps_ok_def)
  have hl: "?l \<in> held_by (pc_at s i)" by (simp add: pc)
  have others: "?l \<notin> held_by (pc_at s k)" if "k \<noteq> i" for k
    using that hl holder_unique [OF I(2)] by blast
  have older: "ver s ?l < n" using I(3) hl Wi by (auto simp: stamps_ok_def)
  have gv: "gv s' = gv s" and wa: "word_at s' b = word_at s b" for b
    by (simp_all add: s'_def gv_def word_at_def g)
  have ST: "stripes (sh s') l = (if l = ?l then vl_setVersion wv else stripes (sh s) l)" for l
    by (simp add: s'_def g)
  have "lock_version (vl_setVersion wv) = n"
    using n(2) small by (simp add: lock_version_def unat_vl_setVersion_version n_def)
  then have ver: "ver s' l = (if l = ?l then n else ver s l)" for l
    by (simp add: ver_def ST)
  have H: "m \<in> held_by (pc_at s' k) \<longleftrightarrow> m \<in> held_by (pc_at s k) \<and> (k \<noteq> i \<or> m \<noteq> ?l)" for k m
    using pc lk by (auto simp: s'_def t)
  have W: "stamp_of (pc_at s' k) = stamp_of (pc_at s k)" and
    D: "decided (pc_at s' k) = decided (pc_at s k)" for k
    using pc by (simp_all add: s'_def t)
  have M: "in_flight (pc_at s' k) = (if k = i then None else in_flight (pc_at s k))" for k
    by (simp add: s'_def t)
  have clog: "clog (sh s') = clog (sh s)" and ws: "word_size (sh s') = word_size (sh s)"
    by (simp_all add: s'_def g)
  have keeps: "keeps base j r s s'" for j r
  proof (rule keepsI, unfold gv H W D ws clog)
    show "ver s l \<le> ver s' l" for l using older by (simp add: ver)
    show "decided (pc_at s k) \<and> l \<in> held_by (pc_at s k) \<and> (k \<noteq> i \<or> l \<noteq> ?l) \<or> w \<le> ver s' l"
      if "decided (pc_at s k)" "l \<in> held_by (pc_at s k)" "stamp_of (pc_at s k) = Some w" for k l w
      using that Wi by (auto simp: ver)
  qed auto
  show ?thesis
  proof (rule tl2_inv_updI [OF inv], fold s'_def)
    show "word_size g = word_size (sh s)" by (simp add: g)
    have "vl_isLocked (stripes (sh s') l) \<longleftrightarrow> (\<exists>k. l \<in> held_by (pc_at s' k))" for l
      using I(2) others by (auto simp: H ST locks_ok_def)
    moreover have "k = j" if "m \<in> held_by (pc_at s' k)" "m \<in> held_by (pc_at s' j)" for k j m
      using that holder_unique [OF I(2)] by (auto simp: H)
    moreover have "ver s' l \<le> gv s'" for l using I(2) n(2) by (auto simp: ver gv locks_ok_def)
    ultimately show "locks_ok s'" unfolding locks_ok_def by blast
    show "stamps_ok s'"
      using I(3) others unfolding stamps_ok_def gv H W ver by auto
    show "log_ok s'"
    proof (rule log_okI, unfold gv H W D clog)
      show "0 < k \<and> k \<le> gv s" if "clog (sh s) k = Some d" for k d
        using log_okD(1) [OF I(4) that] .
      show "clog (sh s) w = None" if "stamp_of (pc_at s k) = Some w" "\<not> decided (pc_at s k)" for k w
        using log_okD(2) [OF I(4) that] .
      fix k b assume wr: "writes_in (clog (sh s)) k b" "\<not> k \<le> ver s' (lock_index b)"
      then have "\<not> k \<le> ver s (lock_index b)" using older by (auto simp: ver split: if_splits)
      then obtain j where j: "decided (pc_at s j)" "stamp_of (pc_at s j) = Some k"
        "lock_index b \<in> held_by (pc_at s j)"
        using log_okD(3) [OF I(4) wr(1)] by blast
      moreover have "j \<noteq> i \<or> lock_index b \<noteq> ?l" using wr(2) j(2) Wi by (auto simp: ver)
      ultimately show "\<exists>j. decided (pc_at s j) \<and> stamp_of (pc_at s j) = Some k \<and>
          lock_index b \<in> held_by (pc_at s j) \<and> (j \<noteq> i \<or> lock_index b \<noteq> ?l)" by blast
    qed
    show "serial_ok base s'"
    proof (rule serial_okI, unfold H W D clog)
      fix k d b v assume d: "clog (sh s) k = Some d" "(b, v) \<in> set (c_reads d)"
      then show "v = snapshot base s (k - 1) b" using serial_okD(1) [OF I(6)] by blast
      fix j w assume "stamp_of (pc_at s j) = Some w" "\<not> decided (pc_at s j)" "w < k"
      then show "\<not> (lock_index b \<in> held_by (pc_at s j) \<and> (j \<noteq> i \<or> lock_index b \<noteq> ?l))"
        using serial_okD(2) [OF I(6) d] by blast
    qed
    show "memory_ok base s'"
    proof (rule memory_okI, unfold W ws clog wa)
      fix b assume b: "word_aligned (word_size (sh s)) b"
      show "word_at s b = snapshot base s w b"
        if "in_flight (pc_at s' k) = Some b" "stamp_of (pc_at s k) = Some w" for k w
        using that memory_okD(2) [OF I(5) b _ that(2)] by (auto simp: M split: if_splits)
      assume nf: "\<And>k. in_flight (pc_at s' k) \<noteq> Some b"
      show "word_at s b = snapshot base s (ver s' (lock_index b)) b"
      proof (cases "b = a")
        case True
        then show ?thesis
          using memory_okD(2) [OF I(5) b, of i n] Wi by (simp add: ver pc n_def)
      next
        case False
        then have "in_flight (pc_at s k) \<noteq> Some b" for k
          using nf [of k] pc by (auto simp: M split: if_splits)
        then have eq: "word_at s b = snapshot base s (ver s (lock_index b)) b"
          using memory_okD(1) [OF I(5) b] by blast
        show ?thesis
        proof (cases "lock_index b = ?l")
          case same: True
          have "\<not> writes_in (clog (sh s)) k b" if k: "ver s ?l < k" "k \<le> n" for k
          proof
            assume wr: "writes_in (clog (sh s)) k b"
            then obtain j where j: "stamp_of (pc_at s j) = Some k" "?l \<in> held_by (pc_at s j)"
              using log_okD(3) [OF I(4) wr] k same by auto
            then have "j = i" using others by blast
            then have "k = n" using j Wi by simp
            then have "b \<in> dom (write_set x)" using wr ok0(2) by (auto simp: writes_in_def)
            then show False using inj keys(1) same False by (auto simp: inj_on_def)
          qed
          then have "snapshot base s n b = snapshot base s (ver s ?l) b"
            using older by (intro snap_range) auto
          then show ?thesis using eq same by (simp add: ver)
        qed (simp add: eq ver)
      qed
    qed
    have "continues (th s i) t x" using x pc by (simp add: continues_def t)
    moreover have "iterating (th s i) x keys"
      using ok0(1) unfolding iterating_def by (metis append.assoc append_Cons append_Nil)
    then have "pc_ok base s' i t x (pc t)"
      using ok0(2) clog by (simp add: t iterating_def n_def)
    ultimately show "local_ok base s' i t"
      using local_ok_continues [OF I(7)] keeps by blast
    show "rely base j s s'" if "j \<noteq> i" for j
      using keeps clog others [OF that] by (intro relyI) (auto simp: ST)
  qed
qed

end
