(* ===== verification/TL2_Preserve.thy ===== *)
theory TL2_Preserve
  imports TL2_Effects
begin

text \<open>
  Every step of every thread keeps the invariant: the step functions of the model, case by
  case, reduced to the accesses of the previous theory.
\<close>

lemma word_aligned_add:
  assumes "width_ok w" "word_aligned w a" "w dvd i"
  shows "word_aligned w (a + of_nat i)"
proof -
  have "unat (a + of_nat i) = (unat a + i mod 2 ^ 64) mod 2 ^ 64"
    by (simp add: unat_word_ariths unat_of_nat take_bit_eq_mod)
  moreover have "w dvd (unat a + i mod 2 ^ 64) mod 2 ^ 64"
    using assms by (auto simp: word_aligned_def width_ok_def intro!: dvd_mod dvd_add)
  ultimately show ?thesis by (simp add: word_aligned_def)
qed

lemma pos_ok_aligned: "width_ok w \<Longrightarrow> pos_ok w source i \<Longrightarrow> word_aligned w (source + of_nat i)"
  by (simp add: pos_ok_def word_aligned_add)

text \<open>Unlocked now means clean for every stamp handed out so far.\<close>

lemma unlocked_clean: "locks_ok s \<Longrightarrow> \<not> vl_isLocked (stripes (sh s) l) \<Longrightarrow> clean s j r l"
  by (auto simp: locks_ok_def clean_def)

lemma unlocked_no_taint: "locks_ok s \<Longrightarrow> \<not> vl_isLocked (stripes (sh s) l) \<Longrightarrow> \<not> taint s j l"
  by (auto simp: locks_ok_def taint_def)

section \<open>Returning\<close>

lemma inv_return:
  assumes inv: "tl2_inv base s" and h: "held_by (pc_at s i) = {}" "in_flight (pc_at s i) = None"
    and t: "txn t = None" "pc t = Idle"
  shows "tl2_inv base (upd s i (sh s) t)"
  using inv
proof (rule inv_local)
  show "same_view (pc_at s i) (pc t)" using h t by (auto simp: same_view_def)
  show "local_ok base s i t" using t by (simp add: local_ok_def)
qed

lemma inv_same_txn:
  assumes inv: "tl2_inv base s" and c: "continues (th s i) t x"
    and view: "same_view (pc_at s i) (pc t)" and ok: "pc_ok base s i t x (pc t)"
  shows "tl2_inv base (upd s i (sh s) t)"
  using inv view
proof (rule inv_local)
  have "keeps base i r s s" for r by (rule keepsI) auto
  then show "local_ok base s i t"
    using local_ok_continues [OF tl2_invD(7) [OF inv] c _ ok] by blast
qed

section \<open>tm_begin, tm_write and the calls\<close>

lemma inv_begin:
  assumes "tl2_inv base s" "tm_begin_step ro (sh s) (th s i) = Some t"
  shows "tl2_inv base (upd s i (sh s) t)"
  using assms(1)
proof (rule inv_local)
  from assms(2) have t: "txn (th s i) = None" "pc_at s i = Idle"
    "t = (th s i)\<lparr>txn := Some (new_Transaction (gvc (sh s)) ro), rlog := [], buf := [], order := [],
      returned := True\<rparr>"
    by (auto simp: tm_begin_step_def split: if_splits)
  show "same_view (pc_at s i) (pc t)" by (simp add: t same_view_def)
  show "local_ok base s i t"
    by (simp add: t local_ok_def txn_ok_def txn_base_def covered_def new_Transaction_def gv_def
        wf_writes_def)
qed

lemma wf_write_loop:
  assumes w: "width_ok w" and "word_aligned w target" "w dvd length source" "wf_writes w ws"
  shows "wf_writes w (write_loop w target (\<lambda>i. take w (drop i source)) (length source) 0 ws)"
proof (rule write_loop_invariant)
  show "wf_writes w ws" by fact
  fix ws k assume ws: "wf_writes w ws" and k: "k \<in> offsets_from w (length source) 0"
  then have "w dvd k" "k < length source" by (auto simp: offsets_from_def)
  then have "w \<le> length source - k" using assms(3) by (auto intro: dvd_imp_le dvd_diff_nat)
  then have "length (take w (drop k source)) = w" by simp
  moreover have "word_aligned w (target + of_nat k)"
    using w assms(2) \<open>w dvd k\<close> by (rule word_aligned_add)
  ultimately show "wf_writes w (ws(target + of_nat k \<mapsto> take w (drop k source)))"
    using ws by (auto simp: wf_writes_def)
qed

lemma inv_write:
  assumes inv: "tl2_inv base s" and ok: "call_ok (word_size (sh s)) (Write target source)"
    and step: "tm_write_step target source (sh s) (th s i) = Some t"
  shows "tl2_inv base (upd s i (sh s) t)"
  using inv
proof (rule inv_local)
  from step obtain x where x: "txn (th s i) = Some x" "pc_at s i = Idle" and
    t: "t = (th s i)\<lparr>txn := Some (x\<lparr>write_set := write_loop (word_size (sh s)) target
        (\<lambda>i. take (word_size (sh s)) (drop i source)) (length source) 0 (write_set x)\<rparr>),
      returned := True\<rparr>"
    by (auto simp: tm_write_step_def Let_def split: option.splits if_splits)
  show "same_view (pc_at s i) (pc t)" by (simp add: t same_view_def)
  have tx: "txn_ok base s i (th s i) x" using inv x(1) by (rule inv_txn_ok)
  then have "wf_writes (word_size (sh s)) (write_loop (word_size (sh s)) target
      (\<lambda>i. take (word_size (sh s)) (drop i source)) (length source) 0 (write_set x))"
    using ok tl2_invD(1) [OF inv] by (intro wf_write_loop) (auto simp: txn_ok_def txn_base_def)
  then show "local_ok base s i t"
    using tx x by (simp add: t local_ok_def txn_ok_def txn_base_def covered_def)
qed

lemma inv_read_call:
  assumes inv: "tl2_inv base s" and ok: "call_ok (word_size (sh s)) (Read source sz)"
    and step: "read_call source sz (th s i) = Some t"
  shows "tl2_inv base (upd s i (sh s) t)"
proof -
  from step obtain x where x: "txn (th s i) = Some x" "pc_at s i = Idle"
    by (auto simp: read_call_def split: if_splits)
  have "t = (th s i)\<lparr>pc := PreVersion source sz 0, buf := []\<rparr>"
    using step ok by (auto simp: read_call_def split: if_splits)
  then show ?thesis
    using x ok by (intro inv_same_txn [OF inv, of i t x]) (simp_all add: continues_def same_view_def pos_ok_def)
qed

lemma inv_end_call:
  assumes inv: "tl2_inv base s" and step: "end_call ks (th s i) = Some t"
  shows "tl2_inv base (upd s i (sh s) t)"
proof -
  from step obtain x where x: "txn (th s i) = Some x" "pc_at s i = Idle"
    by (auto simp: end_call_def split: option.splits if_splits)
  show ?thesis
  proof (cases "is_ro x")
    case True
    then have "t = commit (th s i)" using step x by (simp add: end_call_def)
    then show ?thesis using x by (intro inv_return [OF inv]) (simp_all add: commit_def)
  next
    case False
    let ?p = "if ks = [] then FetchAdd [] else LockLoad ks []"
    from False step x have ks: "distinct ks" "set ks = dom (write_set x)"
      and t: "t = (th s i)\<lparr>order := ks, pc := ?p\<rparr>"
      by (auto simp: end_call_def split: if_splits)
    show ?thesis
      using inv
    proof (rule inv_local)
      show "same_view (pc_at s i) (pc t)" by (simp add: t x same_view_def)
      have "pc_ok base s i t x (pc t)"
        using ks False by (cases "ks = []") (simp_all add: t iterating_def)
      then show "local_ok base s i t"
        using inv_txn_ok [OF inv x(1)] x by (auto simp: t local_ok_def txn_ok_def covered_def)
    qed
  qed
qed

section \<open>tm_read\<close>

lemma copied_word_ok:
  assumes inv: "tl2_inv base s" and a: "word_aligned (word_size (sh s)) a"
    and c: "clean s i r (lock_index a)" and idle: "in_flight (pc_at s i) = None"
    and nd: "\<not> decided (pc_at s i)"
  shows "read_ok base s i r a (word_at s a)"
proof (cases "\<exists>k. in_flight (pc_at s k) = Some a")
  case True
  then obtain k where k: "in_flight (pc_at s k) = Some a" by blast
  then have "k \<noteq> i" using idle by auto
  then show ?thesis using in_flight_decided [OF k] by (auto simp: read_ok_def taint_def)
next
  case False
  note I = tl2_invD [OF inv]
  have eq: "word_at s a = snapshot base s (ver s (lock_index a)) a"
    using False memory_okD(1) [OF I(5) a] by blast
  show ?thesis
  proof (cases "r < ver s (lock_index a) \<or> taint s i (lock_index a)")
    case quiet: False
    have "\<not> writes_in (clog (sh s)) n a" if "ver s (lock_index a) < n" for n
      using log_okD(3) [OF I(4), of n a] that quiet nd by (auto simp: taint_def)
    then have "snapshot base s r a = snapshot base s (ver s (lock_index a)) a"
      using quiet by (intro snap_range) auto
    then show ?thesis using eq by (simp add: read_ok_def)
  qed (auto simp: read_ok_def)
qed

lemma inv_read_next:
  assumes inv: "tl2_inv base s" and x: "txn (th s i) = Some x" "pc_at s i = PostLocked source sz k v nv"
    and t: "t = read_next (word_size (sh s)) source sz k
        (if is_ro x then th s i
         else (th s i)\<lparr>txn := Some (x\<lparr>read_set := insert (source + of_nat k) (read_set x)\<rparr>)\<rparr>)"
  shows "tl2_inv base (upd s i (sh s) t)"
  using inv
proof (rule inv_local)
  have tx: "txn_ok base s i (th s i) x" using inv x(1) by (rule inv_txn_ok)
  then have "pos_ok (word_size (sh s)) source (k + word_size (sh s))"
    by (auto simp: txn_ok_def x pos_ok_def)
  then show "local_ok base s i t"
    using tx x by (auto simp: t read_next_def local_ok_def txn_ok_def txn_base_def covered_def)
  show "same_view (pc_at s i) (pc t)" by (simp add: t x read_next_def same_view_def)
qed

lemma inv_tm_read:
  assumes inv: "tl2_inv base s" and x: "txn (th s i) = Some x"
    and step: "tm_read_step (sh s) x (th s i) (pc_at s i) = Some t"
  shows "tl2_inv base (upd s i (sh s) t)"
proof (cases "pc_at s i")
  case (PreVersion source sz k)
  then show ?thesis
    using step x inv_pc_ok [OF inv x]
    by (intro inv_same_txn [OF inv, of i t x]) (auto simp: continues_def same_view_def)
next
  case (PreLocked source sz k v)
  show ?thesis
  proof (cases "vl_isLocked (stripe (sh s) (source + of_nat k)) \<or> v > rv x")
    case True
    then show ?thesis
      using step by (intro inv_return [OF inv]) (auto simp: PreLocked abort_def)
  next
    case False
    then show ?thesis
      using step x inv_pc_ok [OF inv x] unlocked_clean [OF tl2_invD(2) [OF inv]]
      by (intro inv_same_txn [OF inv, of i t x]) (auto simp: PreLocked continues_def same_view_def)
  qed
next
  case (CopyWord source sz k v)
  let ?a = "source + of_nat k"
  have tx: "txn_ok base s i (th s i) x" using inv x by (rule inv_txn_ok)
  have pos: "pos_ok (word_size (sh s)) source k" and c: "clean s i (unat (rv x)) (lock_index ?a)"
    using inv_pc_ok [OF inv x] by (simp_all add: CopyWord)
  have a: "word_aligned (word_size (sh s)) ?a"
    using pos_ok_aligned [OF tl2_invD(1) [OF inv] pos] .
  have ro: "read_ok base s i (unat (rv x)) ?a (word_at s ?a)"
    using inv a c by (rule copied_word_ok) (simp_all add: CopyWord)
  have cov: "\<not> is_ro x \<Longrightarrow> (b, v) \<in> set (rlog (th s i)) \<Longrightarrow> b \<in> read_set x" for b v
    using tx by (force simp: txn_ok_def covered_def CopyWord)
  show ?thesis
    using inv
  proof (rule inv_local)
    show "same_view (pc_at s i) (pc t)"
      using step by (auto simp: CopyWord same_view_def Let_def split: option.splits if_splits)
    show "local_ok base s i t"
      using step tx pos a c ro x
      by (auto simp: CopyWord Let_def local_ok_def txn_ok_def txn_base_def covered_def
          word_at_def dest: cov split: option.splits if_splits)
  qed
next
  case (PostVersion source sz k v)
  then show ?thesis
    using step x inv_pc_ok [OF inv x]
    by (intro inv_same_txn [OF inv, of i t x]) (auto simp: continues_def same_view_def)
next
  case (PostLocked source sz k v nv)
  show ?thesis
  proof (cases "t = abort (th s i)")
    case True
    then show ?thesis by (intro inv_return [OF inv]) (auto simp: PostLocked abort_def)
  next
    case False
    then show ?thesis
      using step by (intro inv_read_next [OF inv x PostLocked])
        (auto simp: PostLocked Let_def split: if_splits)
  qed
qed (use step in simp_all)

section \<open>tm_end\<close>

lemma inv_release_held:
  assumes inv: "tl2_inv base s" and x: "txn (th s i) = Some x"
    and pc: "held_by (pc_at s i) = set held" "in_flight (pc_at s i) = None"
      "\<not> decided (pc_at s i)" "being_read (pc_at s i) = None"
    and step: "release_held ls held (th s i) = Some t"
  shows "tl2_inv base (upd s i (sh s) t)"
proof (cases "ls = []")
  case True
  then have "t = abort (th s i)" "held = []" using step by (auto simp: release_held_def split: if_splits)
  then show ?thesis using pc by (intro inv_return [OF inv]) (simp_all add: abort_def)
next
  case False
  then have "t = (th s i)\<lparr>pc := UnlockLoad ls\<rparr>" "distinct ls" "set ls = set held"
    using step by (auto simp: release_held_def split: if_splits)
  then show ?thesis
    using pc x False
    by (intro inv_same_txn [OF inv, of i t x]) (auto simp: continues_def same_view_def)
qed

lemma inv_write_back:
  assumes "tl2_inv base (upd s i g (t\<lparr>pc := WriteWord keys wv\<rparr>))"
  shows "tl2_inv base (upd s i g (write_back keys wv t))"
proof (cases "keys = []")
  case True
  then have "tl2_inv base (upd (upd s i g (t\<lparr>pc := WriteWord keys wv\<rparr>)) i
      (sh (upd s i g (t\<lparr>pc := WriteWord keys wv\<rparr>))) (commit t))"
    by (intro inv_return [OF assms]) (simp_all add: commit_def)
  with True show ?thesis by (simp add: write_back_def)
qed (simp add: assms write_back_def)

lemma inv_val_next:
  assumes inv: "tl2_inv base (upd s i g (t\<lparr>pc := ValLocked reads held wv\<rparr>))"
    and x: "txn t = Some x" and step: "val_next reads held g x t wv = (g', t')"
  shows "tl2_inv base (upd s i g' t')"
proof (cases "reads = []")
  case False
  with assms show ?thesis by (simp add: val_next_def)
next
  case True
  define s1 where "s1 = upd s i g (t\<lparr>pc := ValLocked [] held wv\<rparr>)"
  have "tl2_inv base (upd s1 i g' (t\<lparr>pc := WriteWord (order t) wv\<rparr>))"
    using inv x step True
    by (intro inv_decide [where s = s1 and held = held]) (auto simp: s1_def val_next_def decide_def)
  then have "tl2_inv base (upd s i g' (t\<lparr>pc := WriteWord (order t) wv\<rparr>))"
    by (simp add: s1_def)
  then have "tl2_inv base (upd s i g' (write_back (order t) wv t))" by (rule inv_write_back)
  then show ?thesis using step True by (simp add: val_next_def decide_def)
qed

text \<open>The word of a read-set entry that passes validation is the word before the commit.\<close>

lemma checked_read_valid:
  assumes inv: "tl2_inv base s" and x: "txn (th s i) = Some x"
    and st: "stamp_of (pc_at s i) = Some n" "\<not> decided (pc_at s i)" and rv: "unat (rv x) < n"
    and r: "(a, v) \<in> set (rlog (th s i))"
    and c: "clean s i n (lock_index a)"
    and le: "ver s (lock_index a) \<le> unat (rv x)"
    and ok: "v = snapshot base s (unat (rv x)) a \<or> unat (rv x) < ver s (lock_index a)"
  shows "valid_read base s i n a v"
proof -
  note I = tl2_invD [OF inv]
  have "\<not> writes_in (clog (sh s)) k a" if k: "unat (rv x) < k" "k \<le> n - 1" for k
  proof
    assume "writes_in (clog (sh s)) k a"
    then obtain j where j: "decided (pc_at s j)" "stamp_of (pc_at s j) = Some k"
      "lock_index a \<in> held_by (pc_at s j)"
      using log_okD(3) [OF I(4)] le k(1) by (meson le_trans not_less)
    then have "j \<noteq> i" using st by auto
    then have "n < k" using c j by (auto simp: clean_def)
    with k(2) show False by simp
  qed
  then have "snapshot base s (n - 1) a = snapshot base s (unat (rv x)) a"
    using rv by (intro snap_range) auto
  then show ?thesis using ok le c by (auto simp: valid_read_def)
qed

lemma version_gt: "vl_getVersion (stripes (sh s) l) > r \<longleftrightarrow> unat r < ver s l"
  by (simp add: ver_def lock_version_def word_less_nat_alt)

lemma inv_validated:
  assumes inv: "tl2_inv base s" and x: "txn (th s i) = Some x"
    and pc: "pc_at s i = ValLocked (a # reads) held wv \<or> pc_at s i = ValVersion (a # reads) held wv"
    and le: "\<not> vl_getVersion (stripe (sh s) a) > rv x"
    and c: "clean s i (unat wv) (lock_index a)"
    and ok: "\<And>v. (a, v) \<in> set (rlog (th s i)) \<Longrightarrow>
        v = snapshot base s (unat (rv x)) a \<or> unat (rv x) < ver s (lock_index a)"
    and step: "val_next reads held (sh s) x (th s i) wv = (g', t')"
  shows "tl2_inv base (upd s i g' t')"
proof -
  let ?t = "(th s i)\<lparr>pc := ValLocked reads held wv\<rparr>"
  have old: "iterating (th s i) x []" "set held = lock_index ` set (order (th s i))"
    "unat (rv x) < unat wv" "\<And>b v. (b, v) \<in> set (rlog (th s i)) \<Longrightarrow>
       b \<in> set (a # reads) \<or> valid_read base s i (unat wv) b v"
    using inv_pc_ok [OF inv x] pc by auto
  have st: "stamp_of (pc_at s i) = Some (unat wv)" "\<not> decided (pc_at s i)" using pc by auto
  have "valid_read base s i (unat wv) a v" if "(a, v) \<in> set (rlog (th s i))" for v
    using checked_read_valid [OF inv x st old(3) that c _ ok [OF that]] le
    by (simp add: version_gt)
  then have "pc_ok base s i ?t x (pc ?t)"
    using old by (fastforce simp: iterating_def)
  then have "tl2_inv base (upd s i (sh s) ?t)"
    using x pc by (intro inv_same_txn [OF inv, of i ?t x]) (auto simp: continues_def same_view_def)
  then show ?thesis using x step by (rule inv_val_next)
qed

lemma read_not_tainted:
  assumes inv: "tl2_inv base s" and x: "txn (th s i) = Some x"
    and "(a, v) \<in> set (rlog (th s i))" "\<not> taint s i (lock_index a)"
  shows "v = snapshot base s (unat (rv x)) a \<or> unat (rv x) < ver s (lock_index a)"
  using inv_txn_ok [OF inv x] assms(3,4) by (auto simp: txn_ok_def txn_base_def read_ok_def)

lemma inv_tm_end:
  assumes inv: "tl2_inv base s" and sup: "supported s" and x: "txn (th s i) = Some x"
    and step: "tm_end_step sp ro ho (sh s) x (th s i) (pc_at s i) = Some (g, t)"
  shows "tl2_inv base (upd s i g t)"
proof -
  note I = tl2_invD [OF inv]
  have small: "gv s < 2 ^ 31" and inj: "inj_on lock_index (dom (write_set x))"
    using sup x by (auto simp: supported_def)
  note ok = inv_pc_ok [OF inv x]
  show ?thesis
  proof (cases "pc_at s i")
    case (LockLoad keys held)
    then obtain a ks where k: "keys = a # ks" using ok by (cases keys) auto
    have g: "g = sh s" and t: "t = (th s i)\<lparr>pc := LockCas keys held (vl_expected (stripe (sh s) a))\<rparr>"
      using step by (auto simp: LockLoad k)
    have "pc_ok base s i t x (pc t)" using ok by (auto simp: LockLoad t iterating_def)
    then show ?thesis
      unfolding g using x
      by (intro inv_same_txn [OF inv, of i t x]) (simp_all add: t continues_def same_view_def LockLoad)
  next
    case (LockCas keys held e)
    then obtain a ks where k: "keys = a # ks" using ok by (cases keys) auto
    let ?l = "lock_index a" and ?t = "lock_next ks (List.insert (lock_index a) held) (th s i)"
    have e: "\<not> vl_isLocked e" "iterating (th s i) x (a # ks)"
      "set held = lock_index ` (set (order (th s i)) - set (a # ks))"
      using ok by (simp_all add: LockCas k)
    have "set (order (th s i)) - set ks = insert a (set (order (th s i)) - set (a # ks))"
      using e(2) by (auto simp: iterating_def)
    then have held: "insert ?l (set held) = lock_index ` (set (order (th s i)) - set ks)"
      using e(3) by simp
    have it: "iterating ?t x ks"
      using e(2) by (auto simp: iterating_def lock_next_def)
    have t_ok: "pc_ok base s'' i ?t x (pc ?t)" for s''
      using it held by (cases "ks = []") (simp_all add: lock_next_def iterating_def)
    have view: "held_by (pc ?t) = insert ?l (set held)" "stamp_of (pc ?t) = None"
      "in_flight (pc ?t) = None" "\<not> decided (pc ?t)" "continues (th s i) ?t x"
      using x by (simp_all add: lock_next_def continues_def LockCas)
    show ?thesis
    proof (cases "stripes (sh s) ?l = e \<and> \<not> sp")
      case True
      then have g: "g = (sh s)\<lparr>stripes := (stripes (sh s))(?l := vl_desired (stripe (sh s) a))\<rparr>"
        and t: "t = ?t"
        using step by (auto simp: LockCas k compare_exchange_weak_def Let_def)
      show ?thesis
        unfolding t using True e(1) view t_ok LockCas k
        by (intro inv_acquire [OF inv _ _ g]) auto
    next
      case False
      then have same: "(sh s)\<lparr>stripes := (stripes (sh s))(?l := snd
          (compare_exchange_weak sp (stripe (sh s) a) e (vl_desired e)))\<rparr> = sh s"
        by (auto simp: compare_exchange_weak_def)
      show ?thesis
      proof (cases "?l \<in> set held")
        case True
        then have "g = sh s" "t = ?t"
          using step False same by (auto simp: LockCas k compare_exchange_weak_def Let_def)
        then show ?thesis
          using inv_same_txn [OF inv view(5) _ t_ok] view(1-4) True
          by (auto simp: same_view_def LockCas)
      next
        case no: False
        then have "g = sh s" "release_held ho held (th s i) = Some t"
          using step False same by (auto simp: LockCas k compare_exchange_weak_def Let_def)
        then show ?thesis using inv_release_held [OF inv x] by (simp add: LockCas)
      qed
    qed
  next
    case (FetchAdd held)
    let ?wv = "gvc (sh s) + 1" and ?g = "(sh s)\<lparr>gvc := gvc (sh s) + 1\<rparr>"
    let ?reads = "if rv x + 1 \<noteq> ?wv then ro else []"
    have "set ?reads = read_set x \<or> ?reads = [] \<and> rv x + 1 = ?wv" and
      nxt: "val_next ?reads held ?g x (th s i) ?wv = (g, t)"
      using step by (auto simp: FetchAdd Let_def val_next_def split: if_splits)
    then have "tl2_inv base (upd s i ?g ((th s i)\<lparr>pc := ValLocked ?reads held ?wv\<rparr>))"
      using inv_fetch_add [OF inv small FetchAdd x refl refl refl] by blast
    then show ?thesis using x nxt by (rule inv_val_next)
  next
    case (ValLocked reads held wv)
    then obtain a rs where k: "reads = a # rs" using step by (cases reads) auto
    have held: "held_by (pc_at s i) = set held" by (simp add: ValLocked)
    show ?thesis
    proof (cases "release_held ho held (th s i) = Some t \<and> g = sh s")
      case True
      then show ?thesis using inv_release_held [OF inv x held, of ho t] by (simp add: ValLocked)
    next
      case on: False
      show ?thesis
      proof (cases "lock_index a \<in> set held")
        case True
        then have le: "\<not> vl_getVersion (stripe (sh s) a) > rv x"
          and nxt: "val_next rs held (sh s) x (th s i) wv = (g, t)"
          using step on by (auto simp: ValLocked k split: if_splits)
        have only: "lock_index a \<notin> held_by (pc_at s j)" if "j \<noteq> i" for j
          using holder_unique [OF I(2)] True that held by blast
        then have "clean s i (unat wv) (lock_index a)" "\<not> taint s i (lock_index a)"
          by (auto simp: clean_def taint_def)
        then show ?thesis
          using inv_validated [OF inv x _ le _ _ nxt] read_not_tainted [OF inv x] ValLocked k
          by blast
      next
        case False
        then have free: "\<not> vl_isLocked (stripe (sh s) a)" and g: "g = sh s"
          and t: "t = (th s i)\<lparr>pc := ValVersion (a # rs) held wv\<rparr>"
          using step on by (auto simp: ValLocked k split: if_splits)
        have "pc_ok base s i t x (pc t)"
          using ok unlocked_clean [OF I(2) free] read_not_tainted [OF inv x _ unlocked_no_taint [OF I(2) free]]
          by (auto simp: t ValLocked k iterating_def)
        then show ?thesis
          unfolding g using x
          by (intro inv_same_txn [OF inv, of i t x]) (simp_all add: t continues_def same_view_def ValLocked)
      qed
    qed
  next
    case (ValVersion reads held wv)
    then obtain a rs where k: "reads = a # rs" using step by (cases reads) auto
    show ?thesis
    proof (cases "vl_getVersion (stripe (sh s) a) > rv x")
      case True
      then have "g = sh s" "release_held ho held (th s i) = Some t"
        using step by (auto simp: ValVersion k)
      then show ?thesis using inv_release_held [OF inv x] by (simp add: ValVersion)
    next
      case False
      then have "val_next rs held (sh s) x (th s i) wv = (g, t)"
        using step by (auto simp: ValVersion k)
      then show ?thesis
        using inv_validated [OF inv x _ False] ok by (auto simp: ValVersion k)
    qed
  next
    case (WriteWord keys wv)
    then obtain a ks where k: "keys = a # ks" using step by (cases keys) auto
    then have "g = (sh s)\<lparr>mem := store_bytes (mem (sh s)) a (the (write_set x a))\<rparr>"
      "t = (th s i)\<lparr>pc := SetVersion (a # ks) wv\<rparr>"
      using step by (auto simp: WriteWord)
    then show ?thesis using inv_write_word [OF inv _ x] WriteWord k by blast
  next
    case (SetVersion keys wv)
    then obtain a ks where k: "keys = a # ks" using step by (cases keys) auto
    then have g: "g = (sh s)\<lparr>stripes := (stripes (sh s))(lock_index a := vl_setVersion wv)\<rparr>"
      and t: "t = write_back ks wv (th s i)"
      using step by (auto simp: SetVersion)
    have "tl2_inv base (upd s i g ((th s i)\<lparr>pc := WriteWord ks wv\<rparr>))"
      using inv_set_version [OF inv small _ x inj g refl] SetVersion k by blast
    then show ?thesis unfolding t by (rule inv_write_back)
  next
    case (UnlockLoad ls)
    then obtain l ls' where k: "ls = l # ls'" using step by (cases ls) auto
    then have g: "g = sh s" and t: "t = (th s i)\<lparr>pc := UnlockStore ls (stripes (sh s) l)\<rparr>"
      using step by (auto simp: UnlockLoad)
    have "pc_ok base s i t x (pc t)" using ok by (simp add: t UnlockLoad k)
    then show ?thesis
      unfolding g using x
      by (intro inv_same_txn [OF inv, of i t x]) (simp_all add: t continues_def same_view_def UnlockLoad)
  next
    case (UnlockStore ls c)
    then obtain l ls' where k: "ls = l # ls'" using step by (cases ls) auto
    then have c: "c = stripes (sh s) l" "distinct (l # ls')" using ok by (auto simp: UnlockStore)
    then have g: "g = (sh s)\<lparr>stripes := (stripes (sh s))(l := vl_unlock (stripes (sh s) l))\<rparr>"
      and t: "t = (if ls' = [] then abort (th s i) else (th s i)\<lparr>pc := UnlockLoad ls'\<rparr>)"
      using step by (auto simp: UnlockStore k)
    have ls: "pc_at s i = UnlockStore (l # ls') c" by (simp add: UnlockStore k)
    show ?thesis
    proof (rule inv_release [OF inv small ls c(2) g, where r = "unat (rv x)"])
      assume keeps: "keeps base i (unat (rv x)) s (upd s i g t)"
      show "local_ok base (upd s i g t) i t"
      proof (cases "ls' = []")
        case False
        then have "continues (th s i) t x" "pc_ok base (upd s i g t) i t x (pc t)"
          using x c by (simp_all add: t continues_def UnlockStore)
        then show ?thesis
          using local_ok_continues [OF I(7) _ keeps] by blast
      qed (simp add: t abort_def local_ok_def)
    qed (auto simp: t abort_def)
  qed (use step in simp_all)
qed

section \<open>Any step\<close>

theorem exec_inv:
  assumes inv: "tl2_inv base s" and sup: "supported s" and step: "exec i act s = Some s'"
  shows "tl2_inv base s'"
proof -
  from step obtain g t where ok: "call_ok (word_size (sh s)) act"
    and ts: "tstep act (sh s) (th s i) = Some (g, t)" and s': "s' = upd s i g t"
    by (auto simp: exec_def upd_def split: if_splits)
  show ?thesis
  proof (cases act)
    case (Tau sp ro ho)
    then obtain x where x: "txn (th s i) = Some x" using ts by (auto split: option.splits)
    show ?thesis
    proof (cases "tm_read_step (sh s) x (th s i) (pc_at s i)")
      case (Some t')
      then show ?thesis using ts x Tau inv_tm_read [OF inv x] by (simp add: s')
    next
      case None
      then show ?thesis using ts x Tau inv_tm_end [OF inv sup x] by (simp add: s')
    qed
  qed (use ts ok s' inv_begin [OF inv] inv_write [OF inv] inv_read_call [OF inv]
      inv_end_call [OF inv] in auto)
qed

theorem reach_inv:
  assumes "reach supported s0 s" "tl2_inv base s0"
  shows "tl2_inv base s \<and> supported s"
  using assms
proof (induction rule: reach.induct)
  case (move s s')
  then show ?case by (auto elim!: sys_step.cases intro: exec_inv)
qed simp

end
