(* ===== verification/TL2_Runs.thy ===== *)
theory TL2_Runs
  imports TL2_Preserve
begin

text \<open>
  Concrete runs of the concurrent model: how a schedule that evaluates gives a reachable state,
  and a small run of one read-write transaction that the witnesses of the later theories use.
\<close>

section \<open>From schedules to reachable states\<close>

text \<open>Run a schedule as long as every state satisfies \<open>P\<close>.\<close>

fun run_within :: "(sys \<Rightarrow> bool) \<Rightarrow> (nat \<times> act) list \<Rightarrow> sys \<Rightarrow> sys option" where
  "run_within P [] s = (if P s then Some s else None)"
| "run_within P ((i, act) # sched) s =
     (if P s then case exec i act s of None \<Rightarrow> None | Some s' \<Rightarrow> run_within P sched s'
      else None)"

lemma run_within_start: "run_within P sched s = Some s' \<Longrightarrow> P s"
  by (cases sched) (auto split: if_splits)

lemma reach_trans: "reach P s0 s1 \<Longrightarrow> reach P s1 s2 \<Longrightarrow> reach P s0 s2"
  by (rotate_tac, induction rule: reach.induct) (auto intro: reach.move)

lemma run_within_take:
  "run_within P sched s = Some s' \<Longrightarrow> reach P s (the (run (take k sched) s))"
proof (induction P sched s arbitrary: k rule: run_within.induct)
  case (1 P s)
  then show ?case by (simp add: reach.start split: if_splits)
next
  case (2 P i act sched s)
  then obtain s1 where s1: "exec i act s = Some s1" "run_within P sched s1 = Some s'" "P s"
    by (auto split: if_splits option.splits)
  show ?case
  proof (cases k)
    case 0
    with s1 show ?thesis by (simp add: reach.start)
  next
    case (Suc k')
    have "reach P s1 (the (run (take k' sched) s1))"
      using "2.IH" s1 by simp
    moreover have "reach P s s1"
      using s1 run_within_start [OF s1(2)] by (auto intro: reach.start reach.move sys_step.step)
    ultimately have "reach P s (the (run (take k' sched) s1))" by (rule reach_trans [rotated])
    with Suc s1 show ?thesis by simp
  qed
qed

text \<open>\<open>supported\<close> on states given by explicit thread tables.\<close>

definition threads_fit :: "(nat \<Rightarrow> thread) \<Rightarrow> bool" where
  "threads_fit f \<longleftrightarrow> (\<forall>i x. txn (f i) = Some x \<longrightarrow> inj_on lock_index (dom (write_set x)))"

lemma threads_fit_const [simp]: "txn t = None \<Longrightarrow> threads_fit (\<lambda>_. t)"
  by (simp add: threads_fit_def)

lemma threads_fit_upd [simp]:
  "threads_fit f \<Longrightarrow>
    (case txn t of None \<Rightarrow> True | Some x \<Rightarrow> inj_on lock_index (dom (write_set x))) \<Longrightarrow>
    threads_fit (f(i := t))"
  by (auto simp: threads_fit_def)

lemma supported_fit:
  "supported s \<longleftrightarrow> unat (gvc (sh s)) < 2 ^ 31 \<and> threads_fit (th s)"
  by (simp add: supported_def gv_def threads_fit_def)

text \<open>The facts that evaluate one step.\<close>

lemmas exec_simps = exec_def abort_def commit_def tm_begin_step_def tm_write_step_def
  read_call_def read_next_def end_call_def release_held_def write_back_def decide_def
  val_next_def lock_next_def compare_exchange_weak_def vl_expected_def vl_desired_def
  vl_unlock_def vl_getVersion_def vl_isLocked_def vl_setVersion_def lock_index_def
  NUM_LOCKS_def new_Transaction_def vl_new_def write_loop.simps load_bytes_def
  store_bytes_def word_aligned_def Let_def upt_rec

section \<open>A run of one transaction\<close>

abbreviation tau :: act where
  "tau \<equiv> Tau False [] []"

text \<open>One thread reads the word at 0, writes the word at 8 and commits.\<close>

definition demo_sched :: "(nat \<times> act) list" where
  "demo_sched =
     [(0, Begin False), (0, Read 0 8), (0, tau), (0, tau), (0, tau), (0, tau), (0, tau),
      (0, Write 8 (replicate 8 1)), (0, End [8]), (0, tau), (0, tau), (0, tau), (0, tau),
      (0, tau)]"

definition demo :: "nat \<Rightarrow> sys" where
  "demo k = the (run (take k demo_sched) (init_sys 0 (\<lambda>_. 0) 8))"

lemma demo_supported:
  "\<exists>s. run_within supported demo_sched (init_sys 0 (\<lambda>_. 0) 8) = Some s"
  by (simp add: demo_sched_def init_sys_def idle_thread_def exec_simps supported_fit)

lemma demo_reach: "reach supported (init_sys 0 (\<lambda>_. 0) 8) (demo k)"
proof -
  obtain s where "run_within supported demo_sched (init_sys 0 (\<lambda>_. 0) 8) = Some s"
    using demo_supported by blast
  then show ?thesis unfolding demo_def by (rule run_within_take)
qed

lemma demo_within: "supported (demo k)"
  using demo_reach [of k] by (cases rule: reach.cases) auto

lemma width_ok_8: "width_ok 8"
  using width_ok_power [of 3] by simp

lemmas demo_simps = demo_def demo_sched_def init_sys_def idle_thread_def exec_simps

end
