(* ===== verification/TL2_Serializability.thy ===== *)
theory TL2_Serializability
  imports TL2_Runs
begin

text \<open>
  What the invariant gives the users of the transactional memory: the commits replay on an
  atomic memory in the order of their stamps, memory holds committed values only, stripes are
  mutual-exclusion locks, the order of the stamps respects real time, and the words a running
  transaction read belong to one snapshot as long as their stripes have not moved.
\<close>

section \<open>The specification: an atomic memory\<close>

definition install :: "write_map \<Rightarrow> (addr \<Rightarrow> bytes) \<Rightarrow> addr \<Rightarrow> bytes" where
  "install ws m = (\<lambda>a. case ws a of None \<Rightarrow> m a | Some v \<Rightarrow> v)"

text \<open>A whole transaction in one step: it reads the words memory holds, then writes.\<close>

definition atomic_txn :: "commit_rec \<Rightarrow> (addr \<Rightarrow> bytes) \<Rightarrow> (addr \<Rightarrow> bytes) option" where
  "atomic_txn c m =
     (if list_all (\<lambda>(a, v). m a = v) (c_reads c) then Some (install (c_writes c) m) else None)"

fun replay :: "commit_rec list \<Rightarrow> (addr \<Rightarrow> bytes) \<Rightarrow> (addr \<Rightarrow> bytes) option" where
  "replay [] m = Some m"
| "replay (c # cs) m = Option.bind (atomic_txn c m) (replay cs)"

definition history_upto :: "nat \<Rightarrow> sys \<Rightarrow> commit_rec list" where
  "history_upto n s = List.map_filter (clog (sh s)) [1..<Suc n]"

definition history :: "sys \<Rightarrow> commit_rec list" where
  "history s = history_upto (gv s) s"

lemma replay_append:
  "replay (cs @ ds) m = Option.bind (replay cs m) (replay ds)"
  by (induction cs arbitrary: m) (simp_all cong: Option.bind_cong)

lemma history_upto_0 [simp]: "history_upto 0 s = []"
  by (simp add: history_upto_def map_filter_simps)

lemma history_upto_Suc:
  "history_upto (Suc n) s =
     history_upto n s @ (case clog (sh s) (Suc n) of None \<Rightarrow> [] | Some c \<Rightarrow> [c])"
  by (simp add: history_upto_def List.map_filter_def split: option.split)

lemma atomic_txn_ok: "(\<And>a v. (a, v) \<in> set (c_reads c) \<Longrightarrow> m a = v) \<Longrightarrow>
    atomic_txn c m = Some (install (c_writes c) m)"
  by (auto simp: atomic_txn_def list_all_iff)

text \<open>The serial replay of the first \<open>n\<close> commits succeeds and leaves snapshot \<open>n\<close>.\<close>

lemma replay_snapshot:
  assumes "serial_ok base s"
  shows "replay (history_upto n s) base = Some (snapshot base s n)"
proof (induction n)
  case 0
  then show ?case by (simp add: fun_eq_iff)
next
  case (Suc n)
  show ?case
  proof (cases "clog (sh s) (Suc n)")
    case None
    then have "snapshot base s (Suc n) = snapshot base s n" by (simp add: fun_eq_iff)
    with Suc None show ?thesis by (simp add: history_upto_Suc del: snap.simps)
  next
    case (Some c)
    have "atomic_txn c (snapshot base s n) = Some (install (c_writes c) (snapshot base s n))"
      using serial_okD(1) [OF assms Some] by (intro atomic_txn_ok) auto
    moreover have "install (c_writes c) (snapshot base s n) = snapshot base s (Suc n)"
      using Some by (simp add: install_def fun_eq_iff)
    ultimately show ?thesis using Suc Some
      by (simp add: history_upto_Suc replay_append del: snap.simps)
  qed
qed

text \<open>A stripe nobody is writing back holds the newest committed word of its addresses.\<close>

lemma quiet_word:
  assumes "tl2_inv base s" "word_aligned (word_size (sh s)) a"
    and quiet: "\<And>i. decided (pc_at s i) \<Longrightarrow> lock_index a \<notin> held_by (pc_at s i)"
    and n: "ver s (lock_index a) \<le> n"
  shows "word_at s a = snapshot base s n a"
proof -
  have inv: "memory_ok base s" "log_ok s" using assms(1) by (simp_all add: tl2_inv_def)
  have "in_flight (pc_at s i) \<noteq> Some a" for i using quiet [of i] in_flight_decided by blast
  with inv(1) assms(2) have "word_at s a = snapshot base s (ver s (lock_index a)) a"
    by (rule memory_okD(1))
  moreover have "\<not> writes_in (clog (sh s)) k a" if "ver s (lock_index a) < k" for k
    using log_okD(3) [OF inv(2), of k a] that quiet by fastforce
  then have "snapshot base s n a = snapshot base s (ver s (lock_index a)) a"
    using n by (intro snap_range) auto
  ultimately show ?thesis by simp
qed

lemma snap_source:
  "snap base log n a = base a \<or>
   (\<exists>k c. log k = Some c \<and> c_writes c a = Some (snap base log n a))"
  by (induction n) (auto split: option.splits)

text \<open>Memory holds committed words only.\<close>

lemma word_is_snapshot:
  assumes "memory_ok base s" "word_aligned (word_size (sh s)) a"
  shows "\<exists>n. word_at s a = snapshot base s n a"
proof (cases "\<exists>i. in_flight (pc_at s i) = Some a")
  case True
  then obtain i k where "in_flight (pc_at s i) = Some a" "stamp_of (pc_at s i) = Some k"
    using in_flight_decided decided_stamp by blast
  then show ?thesis using memory_okD(2) [OF assms] by blast
next
  case False
  then show ?thesis using memory_okD(1) [OF assms] by blast
qed

section \<open>Runs\<close>

lemma tm_end_word_size:
  "tm_end_step sp r h g x t p = Some (g', t') \<Longrightarrow> word_size g' = word_size g"
  by (cases "(sp, r, h, g, x, t, p)" rule: tm_end_step.cases)
     (auto simp: Let_def decide_def val_next_def split: if_splits prod.splits)

lemma exec_word_size: "exec i act s = Some s' \<Longrightarrow> word_size (sh s') = word_size (sh s)"
  by (cases act) (auto simp: exec_def dest: tm_end_word_size split: if_splits option.splits)

lemma sys_step_word_size: "sys_step s s' \<Longrightarrow> word_size (sh s') = word_size (sh s)"
  by (erule sys_step.cases) (simp add: exec_word_size)

lemma reach_word_size: "reach P s0 s \<Longrightarrow> word_size (sh s) = word_size (sh s0)"
  by (induction rule: reach.induct) (auto dest: sys_step_word_size)

abbreviation initial_words :: "memory \<Rightarrow> nat \<Rightarrow> addr \<Rightarrow> bytes" where
  "initial_words m w \<equiv> \<lambda>a. load_bytes m a w"

text \<open>All the later theorems speak of runs from a fresh region within the supported range.\<close>

lemma reach_init_inv:
  assumes "reach supported (init_sys clock m w) s" "width_ok w"
  shows "tl2_inv (initial_words m w) s" "supported s" "word_size (sh s) = w"
proof -
  have "tl2_inv (initial_words m w) s \<and> supported s"
    using reach_inv [OF assms(1) tl2_inv_init [OF assms(2)]] .
  then show "tl2_inv (initial_words m w) s" "supported s" by auto
  show "word_size (sh s) = w" using reach_word_size [OF assms(1)] by (simp add: init_sys_def)
qed

section \<open>Steps of the shared state\<close>

text \<open>The only accesses that write a stripe.\<close>

lemma tm_end_stripes:
  assumes "tm_end_step sp r h g x t p = Some (g', t')" "stripes g' l \<noteq> stripes g l"
  shows "(\<exists>a keys held e. p = LockCas (a # keys) held e \<and> l = lock_index a \<and> stripes g l = e \<and>
            stripes g' l = vl_desired e) \<or>
     (\<exists>a keys wv. p = SetVersion (a # keys) wv \<and> l = lock_index a \<and>
            stripes g' l = vl_setVersion wv) \<or>
     (\<exists>ls cur. p = UnlockStore (l # ls) cur \<and> stripes g' l = vl_unlock cur)"
  using assms
  by (cases "(sp, r, h, g, x, t, p)" rule: tm_end_step.cases)
     (auto simp: Let_def decide_def val_next_def compare_exchange_weak_def
       split: if_splits prod.splits)

text \<open>The only accesses that write memory: the copy of one word under its stripe.\<close>

lemma tm_end_mem:
  assumes "tm_end_step sp r h g x t p = Some (g', t')" "mem g' \<noteq> mem g"
  shows "\<exists>a keys wv. p = WriteWord (a # keys) wv \<and>
    mem g' = store_bytes (mem g) a (the (write_set x a))"
  using assms
  by (cases "(sp, r, h, g, x, t, p)" rule: tm_end_step.cases)
     (auto simp: Let_def decide_def val_next_def split: if_splits prod.splits)

lemma tm_end_gvc:
  assumes "tm_end_step sp r h g x t p = Some (g', t')"
  shows "gvc g' = gvc g \<or> (\<exists>held. p = FetchAdd held \<and> gvc g' = gvc g + 1)"
  using assms
  by (cases "(sp, r, h, g, x, t, p)" rule: tm_end_step.cases)
     (auto simp: Let_def decide_def val_next_def split: if_splits prod.splits)

lemma exec_cases:
  assumes "exec i act s = Some s'"
  shows "(sh s' = sh s \<and> (\<forall>k. k \<noteq> i \<longrightarrow> th s' k = th s k)) \<or>
    (\<exists>x sp r h. act = Tau sp r h \<and> txn (th s i) = Some x \<and>
       tm_end_step sp r h (sh s) x (th s i) (pc_at s i) = Some (sh s', th s' i) \<and>
       (\<forall>k. k \<noteq> i \<longrightarrow> th s' k = th s k))"
  using assms
  by (cases act) (auto simp: exec_def split: if_splits option.splits)

lemma holder_stamp: "stamps_ok s \<Longrightarrow> l \<in> held_by (pc_at s i) \<Longrightarrow> stamp_of (pc_at s i) = Some w \<Longrightarrow>
    ver s l < w"
  unfolding stamps_ok_def by blast

text \<open>No step lowers the version of a stripe.\<close>

lemma exec_version_mono:
  assumes "tl2_inv base s" "supported s" "exec i act s = Some s'"
  shows "ver s l \<le> ver s' l"
proof (cases "stripes (sh s') l = stripes (sh s) l")
  case False
  then obtain x sp r h where x: "txn (th s i) = Some x"
    and st: "tm_end_step sp r h (sh s) x (th s i) (pc_at s i) = Some (sh s', th s' i)"
    using exec_cases [OF assms(3)] by metis
  have pc: "pc_ok base s i (th s i) x (pc_at s i)"
    using assms(1) x by (auto simp: tl2_inv_def local_ok_def txn_ok_def dest: spec [of _ i])
  have ok: "stamps_ok s" "locks_ok s" using assms(1) by (simp_all add: tl2_inv_def)
  have bound: "lock_version (stripes (sh s) l) < 2 ^ 31" "gv s < 2 ^ 31"
    using ok(2) assms(2) by (auto simp: locks_ok_def supported_def ver_def dest: le_less_trans)
  from tm_end_stripes [OF st False] show ?thesis
  proof (elim disjE exE conjE)
    fix a keys wv
    assume p: "pc_at s i = SetVersion (a # keys) wv" "l = lock_index a" "stripes (sh s') l = vl_setVersion wv"
    then have "ver s l < unat wv" "unat wv \<le> gv s"
      using stamp_le_gv [OF ok(1), of i] holder_stamp [OF ok(1), of l i] by simp_all
    then show ?thesis using bound(2) p(3) by (simp add: lock_version_def vlock_simps ver_def)
  next
    fix ls cur
    assume p: "pc_at s i = UnlockStore (l # ls) cur" "stripes (sh s') l = vl_unlock cur"
    then have "cur = stripes (sh s) l" using pc by simp
    then show ?thesis using bound(1) p(2) by (simp add: ver_def vl.rel_ver version_fits_def)
  qed (simp add: ver_def lock_version_def vlock_simps)
qed (simp add: ver_def)

text \<open>A step that changes an aligned word is the write-back of that word.\<close>

lemma exec_word_change:
  assumes "tl2_inv base s" "exec i act s = Some s'" "word_aligned (word_size (sh s)) a" "word_at s' a \<noteq> word_at s a"
  obtains x keys wv where "txn (th s i) = Some x" "pc_at s i = WriteWord (a # keys) wv"
    "write_set x a = Some (word_at s' a)" "a \<in> set (order (th s i))" "pc_at s' i = SetVersion (a # keys) wv"
proof -
  let ?w = "word_size (sh s)"
  have ws: "word_size (sh s') = ?w" by (rule exec_word_size [OF assms(2)])
  then have ch: "mem (sh s') \<noteq> mem (sh s)" using assms(4) by (auto simp: word_at_def)
  then obtain x sp r h where x: "txn (th s i) = Some x"
    and st: "tm_end_step sp r h (sh s) x (th s i) (pc_at s i) = Some (sh s', th s' i)"
    using exec_cases [OF assms(2)] by metis
  obtain b keys wv where p: "pc_at s i = WriteWord (b # keys) wv"
    and m: "mem (sh s') = store_bytes (mem (sh s)) b (the (write_set x b))"
    using tm_end_mem [OF st] ch by blast
  have "width_ok ?w" "txn_ok base s i (th s i) x"
    using assms(1) x by (auto simp: tl2_inv_def local_ok_def dest: spec [of _ i])
  then have wf: "width_ok ?w" "wf_writes ?w (write_set x)" "b \<in> dom (write_set x)" "b \<in> set (order (th s i))"
    using p by (auto simp: txn_ok_def txn_base_def iterating_def)
  then obtain v where v: "write_set x b = Some v" "word_aligned ?w b" "length v = ?w"
    by (auto simp: wf_writes_def)
  have "word_at s' a = (if b = a then v else word_at s a)"
    using byte_words.ld_st [of ?w b a v "mem (sh s)"] assms(3) v m ws wf(1) by (simp add: word_at_def)
  then have "b = a" "word_at s' a = v" using assms(4) by (auto split: if_splits)
  moreover have "pc_at s' i = SetVersion (b # keys) wv" using st p by (auto dest: sym)
  ultimately show thesis using p v(1) x wf(4) by (intro that [of x keys wv]) simp_all
qed

end
