(* ===== verification/TL2_Theorems.thy ===== *)
theory TL2_Theorems
  imports TL2_Serializability
begin

text \<open>
  The properties of the concurrent model within its supported range (the clock below
  \<open>2 ^ 31\<close>, no transaction with two written words on one stripe), each with a witness on the
  run of one transaction.
\<close>

text \<open>C4: TL2 is serializable. In every state reached from a fresh region (clock below
  \<open>2 ^ 31\<close>, no transaction with two written words on one stripe), the commits recorded so far
  replay one after the other, in the order of their stamps, on an atomic memory, every read of
  every commit returning the value the serial execution has there; and whenever no thread is
  writing back, shared memory is exactly the result of that serial execution.\<close>

theorem tl2_serializable:
  assumes "reach supported (init_sys clock m w) s" "width_ok w"
  shows "\<exists>m'. replay (history s) (initial_words m w) = Some m' \<and>
    ((\<forall>i. \<not> decided (pc_at s i)) \<longrightarrow> (\<forall>a. word_aligned w a \<longrightarrow> word_at s a = m' a))"
proof -
  note inv = reach_init_inv [OF assms]
  have "replay (history s) (initial_words m w) = Some (snapshot (initial_words m w) s (gv s))"
    unfolding history_def using inv(1) by (intro replay_snapshot) (simp add: tl2_inv_def)
  moreover have "word_at s a = snapshot (initial_words m w) s (gv s) a"
    if "\<forall>i. \<not> decided (pc_at s i)" "word_aligned w a" for a
    using inv that by (intro quiet_word [OF inv(1)]) (auto simp: tl2_inv_def locks_ok_def)
  ultimately show ?thesis by blast
qed

theorem tl2_serializable_witness:
  "history (demo 14) = [\<lparr>c_reads = [(0, [0, 0, 0, 0, 0, 0, 0, 0])], c_writes = [8 \<mapsto> replicate 8 1]\<rparr>] \<and>
   (\<exists>m'. replay (history (demo 14)) (initial_words (\<lambda>_. 0) 8) = Some m' \<and>
     word_at (demo 14) 8 = m' 8)"
proof -
  have h: "history (demo 14) = [\<lparr>c_reads = [(0, [0, 0, 0, 0, 0, 0, 0, 0])], c_writes = [8 \<mapsto> replicate 8 1]\<rparr>]"
    by (simp add: history_def history_upto_def gv_def List.map_filter_def demo_simps)
  have q: "\<forall>i. \<not> decided (pc_at (demo 14) i)" by (simp add: demo_simps)
  have "word_aligned 8 8" by (simp add: word_aligned_def)
  with tl2_serializable [OF demo_reach [of 14] width_ok_8] q h show ?thesis by blast
qed

text \<open>Memory never shows a write that did not commit: in every reachable state every
  aligned word is its initial value or a value some recorded commit wrote to it.\<close>

theorem only_committed_writes_visible:
  assumes "reach supported (init_sys clock m w) s" "width_ok w" "word_aligned w a"
  shows "word_at s a = load_bytes m a w \<or>
    (\<exists>n c. clog (sh s) n = Some c \<and> c_writes c a = Some (word_at s a))"
proof -
  note inv = reach_init_inv [OF assms(1,2)]
  have "memory_ok (initial_words m w) s" using inv(1) by (simp add: tl2_inv_def)
  moreover have "word_aligned (word_size (sh s)) a" using assms(3) inv(3) by simp
  ultimately obtain n where "word_at s a = snapshot (initial_words m w) s n a" using word_is_snapshot by blast
  then show ?thesis using snap_source [of "initial_words m w" "clog (sh s)"] by metis
qed

theorem only_committed_writes_visible_witness:
  "word_at (demo 14) 8 = load_bytes (\<lambda>_. 0) 8 8 \<or>
   (\<exists>n c. clog (sh (demo 14)) n = Some c \<and> c_writes c 8 = Some (word_at (demo 14) 8))"
proof -
  have "word_aligned 8 8" by (simp add: word_aligned_def)
  then show ?thesis by (rule only_committed_writes_visible [OF demo_reach width_ok_8])
qed

text \<open>C5: the stripe locks exclude each other. In every reachable state no stripe is held by
  two threads, the lock bit of a stripe is set exactly when some thread holds it, a thread
  outside \<open>tm_end\<close> holds none, and no version is ahead of the clock. Reachable means by \<open>supported\<close>
  states: while the clock is below \<open>2 ^ 31\<close> and no transaction has two written words on one stripe. With
  two such words the first write-back frees the stripe that the thread still counts as its own.\<close>

theorem stripes_mutually_exclusive:
  assumes "reach supported (init_sys clock m w) s" "width_ok w"
  shows "(l \<in> held_by (pc_at s i) \<and> l \<in> held_by (pc_at s j) \<longrightarrow> i = j) \<and>
    (vl_isLocked (stripes (sh s) l) \<longleftrightarrow> (\<exists>k. l \<in> held_by (pc_at s k))) \<and>
    (txn (th s k) = None \<longrightarrow> held_by (pc_at s k) = {}) \<and>
    lock_version (stripes (sh s) l) \<le> unat (gvc (sh s))"
proof -
  have inv: "tl2_inv (initial_words m w) s" by (rule reach_init_inv(1) [OF assms])
  then have "local_ok (initial_words m w) s k (th s k)" "locks_ok s"
    by (simp_all add: tl2_inv_def)
  then show ?thesis by (auto simp: local_ok_def locks_ok_def ver_def gv_def split: option.splits)
qed

theorem stripes_mutually_exclusive_witness:
  "8 \<in> held_by (pc_at (demo 11) 0) \<and> vl_isLocked (stripes (sh (demo 11)) 8) \<and>
   (\<exists>k. 8 \<in> held_by (pc_at (demo 11) k)) \<and> 8 \<notin> held_by (pc_at (demo 11) 1)"
proof -
  have h: "8 \<in> held_by (pc_at (demo 11) 0)" by (simp add: demo_simps)
  have n: "txn (th (demo 11) 1) = None" by (simp add: demo_simps)
  show ?thesis
    using stripes_mutually_exclusive [OF demo_reach [of 11] width_ok_8, of 8 0 0 1] h n by auto
qed

text \<open>C6: the types of the transactions. In every reachable state a thread without a transaction is
  outside all calls; a transaction's read version is not ahead of the clock, its write set is a
  finite map from aligned words to buffers of exactly one word, and what it copied are aligned
  words, those of a read-write transaction in its read set or just copied. From the fetch-and-add to
  the release of its locks it is a read-write transaction that iterates its write set without
  repetition, and until it decides it holds exactly the stripes of the words it wrote. The states are
  those reached by \<open>supported\<close> ones.\<close>

theorem transactions_well_typed:
  assumes "reach supported (init_sys clock m w) s" "width_ok w"
  shows "case txn (th s i) of
      None \<Rightarrow> pc_at s i = Idle
    | Some x \<Rightarrow> rv x \<le> gvc (sh s) \<and> finite (dom (write_set x)) \<and>
        (\<forall>a v. write_set x a = Some v \<longrightarrow> word_aligned w a \<and> length v = w) \<and>
        (\<forall>(a, v) \<in> set (rlog (th s i)). word_aligned w a \<and>
          (is_ro x \<or> a \<in> read_set x \<or> being_read (pc_at s i) = Some a)) \<and>
        (stamp_of (pc_at s i) \<noteq> None \<longrightarrow>
          \<not> is_ro x \<and> distinct (order (th s i)) \<and> set (order (th s i)) = dom (write_set x) \<and>
          (\<not> decided (pc_at s i) \<longrightarrow> held_by (pc_at s i) = lock_index ` dom (write_set x)))"
proof (cases "txn (th s i)")
  case None
  then show ?thesis using tl2_invD(7) [OF reach_init_inv(1) [OF assms], of i] by (simp add: local_ok_def)
next
  case (Some x)
  note ws = reach_init_inv(3) [OF assms]
  have ok: "txn_base (initial_words m w) s i (rlog (th s i)) x" "covered (th s i) x"
    "pc_ok (initial_words m w) s i (th s i) x (pc_at s i)"
    using inv_txn_ok [OF reach_init_inv(1) [OF assms] Some] by (simp_all add: txn_ok_def)
  have "rv x \<le> gvc (sh s)" using ok(1) by (simp add: txn_base_def gv_def word_le_nat_alt)
  moreover have "\<forall>(a, v) \<in> set (rlog (th s i)). word_aligned w a \<and>
      (is_ro x \<or> a \<in> read_set x \<or> being_read (pc_at s i) = Some a)"
    using ok(1,2) ws by (force simp: txn_base_def covered_def)
  moreover have "stamp_of (pc_at s i) \<noteq> None \<longrightarrow>
      \<not> is_ro x \<and> distinct (order (th s i)) \<and> set (order (th s i)) = dom (write_set x) \<and>
      (\<not> decided (pc_at s i) \<longrightarrow> held_by (pc_at s i) = lock_index ` dom (write_set x))"
    using ok(3) by (cases "pc_at s i") (auto simp: iterating_def)
  ultimately show ?thesis using Some ok(1) ws by (simp add: txn_base_def wf_writes_def)
qed

theorem transactions_well_typed_witness:
  "\<exists>x. txn (th (demo 12) 0) = Some x \<and> stamp_of (pc_at (demo 12) 0) = Some 1 \<and>
    order (th (demo 12) 0) = [8] \<and> dom (write_set x) = {8} \<and>
    (\<forall>a v. write_set x a = Some v \<longrightarrow> word_aligned 8 a \<and> length v = 8)"
proof -
  obtain x where x: "txn (th (demo 12) 0) = Some x" by (simp add: demo_simps)
  have "stamp_of (pc_at (demo 12) 0) = Some 1" "order (th (demo 12) 0) = [8]" by (simp_all add: demo_simps)
  then show ?thesis using transactions_well_typed [OF demo_reach [of 12] width_ok_8, of 0] x by auto
qed

text \<open>Versions only grow: no step of any thread lowers the version of a stripe or the clock;
  the clock moves only at a thread's fetch-and-add, by one.\<close>

theorem versions_monotone:
  assumes "reach supported (init_sys clock m w) s" "width_ok w"
    and "exec i act s = Some s'" "supported s'"
  shows "lock_version (stripes (sh s) l) \<le> lock_version (stripes (sh s') l) \<and>
    (gvc (sh s') = gvc (sh s) \<or>
     (\<exists>held. pc_at s i = FetchAdd held \<and> gvc (sh s') = gvc (sh s) + 1))"
proof -
  note inv = reach_init_inv [OF assms(1,2)]
  have "gvc (sh s') = gvc (sh s) \<or> (\<exists>held. pc_at s i = FetchAdd held \<and> gvc (sh s') = gvc (sh s) + 1)"
    using exec_cases [OF assms(3)] tm_end_gvc by metis
  then show ?thesis using exec_version_mono [OF inv(1,2) assms(3), of l] by (simp add: ver_def)
qed

theorem versions_monotone_witness:
  "exec 0 tau (demo 13) = Some (demo 14) \<and>
   lock_version (stripes (sh (demo 13)) 8) \<le> lock_version (stripes (sh (demo 14)) 8) \<and>
   lock_version (stripes (sh (demo 14)) 8) = 1"
proof -
  have e: "exec 0 tau (demo 13) = Some (demo 14)" by (simp add: demo_simps)
  have v: "lock_version (stripes (sh (demo 14)) 8) = 1"
    by (simp add: lock_version_def demo_simps)
  show ?thesis using versions_monotone [OF demo_reach width_ok_8 e demo_within, of 8] e v by simp
qed

text \<open>Memory is written only under the stripe: if a step changes an aligned word, the stepping
  thread has decided to commit, holds the stripe of that word, and the new value is what its
  write set holds for it.\<close>

theorem memory_written_under_lock:
  assumes "reach supported (init_sys clock m w) s" "width_ok w"
    and "exec i act s = Some s'" "word_aligned w a" "word_at s' a \<noteq> word_at s a"
  shows "decided (pc_at s i) \<and> lock_index a \<in> held_by (pc_at s i) \<and>
    (\<exists>x. txn (th s i) = Some x \<and> write_set x a = Some (word_at s' a))"
proof -
  note inv = reach_init_inv [OF assms(1,2)]
  have "word_aligned (word_size (sh s)) a" using assms(4) inv(3) by simp
  then obtain x keys wv where "txn (th s i) = Some x" "pc_at s i = WriteWord (a # keys) wv"
    "write_set x a = Some (word_at s' a)"
    using exec_word_change [OF inv(1) assms(3) _ assms(5)] by blast
  then show ?thesis by simp
qed

theorem memory_written_under_lock_witness:
  "word_at (demo 13) 8 \<noteq> word_at (demo 12) 8 \<and> decided (pc_at (demo 12) 0) \<and>
   lock_index 8 \<in> held_by (pc_at (demo 12) 0)"
proof -
  have e: "exec 0 tau (demo 12) = Some (demo 13)" by (simp add: demo_simps)
  have a: "word_aligned 8 8" by (simp add: word_aligned_def)
  have c: "word_at (demo 13) 8 \<noteq> word_at (demo 12) 8" by (simp add: word_at_def demo_simps)
  show ?thesis using memory_written_under_lock [OF demo_reach width_ok_8 e a c] c by simp
qed

text \<open>C7: the snapshot of a running transaction. A word a running transaction copied from memory
  is the word of the serial execution up to its read version, whenever the stripe is free and
  its version is not past the read version, in every state reached by \<open>supported\<close> states: while the clock
  is below \<open>2 ^ 31\<close> and no transaction has two written words on one stripe. With two such words a
  stripe can be free at the new version while one of its words is still the old one.\<close>

theorem running_reads_snapshot:
  assumes "reach supported (init_sys clock m w) s" "width_ok w"
    and "txn (th s i) = Some x" "(a, v) \<in> set (rlog (th s i))"
    and "\<not> vl_isLocked (stripe (sh s) a)" "vl_getVersion (stripe (sh s) a) \<le> rv x"
  shows "\<exists>m'. replay (history_upto (unat (rv x)) s) (initial_words m w) = Some m' \<and> v = m' a"
proof -
  note inv = reach_init_inv [OF assms(1,2)]
  have "txn_base (initial_words m w) s i (rlog (th s i)) x" "locks_ok s" "serial_ok (initial_words m w) s"
    using inv(1) assms(3) by (auto simp: tl2_inv_def local_ok_def txn_ok_def dest: spec [of _ i])
  moreover from this(2) have "\<not> taint s i (lock_index a)"
    using assms(5) by (rule unlocked_no_taint)
  ultimately have "v = snapshot (initial_words m w) s (unat (rv x)) a"
    using assms(4,6)
    by (auto simp: txn_base_def read_ok_def ver_def lock_version_def word_le_nat_alt)
  then show ?thesis using replay_snapshot [OF \<open>serial_ok (initial_words m w) s\<close>] by blast
qed

theorem running_reads_snapshot_witness:
  "rlog (th (demo 7) 0) = [(0, [0, 0, 0, 0, 0, 0, 0, 0])] \<and>
   (\<exists>m'. replay (history_upto 0 (demo 7)) (initial_words (\<lambda>_. 0) 8) = Some m' \<and>
      [0, 0, 0, 0, 0, 0, 0, 0] = m' 0)"
proof -
  let ?x = "new_Transaction 0 False\<lparr>read_set := {0}\<rparr>"
  have x: "txn (th (demo 7) 0) = Some ?x" by (simp add: demo_simps)
  have r: "rlog (th (demo 7) 0) = [(0, [0, 0, 0, 0, 0, 0, 0, 0])]" by (simp add: demo_simps)
  have v: "(0, [0, 0, 0, 0, 0, 0, 0, 0]) \<in> set (rlog (th (demo 7) 0))" by (simp add: r)
  have l: "\<not> vl_isLocked (stripe (sh (demo 7)) 0)" by (simp add: demo_simps)
  have n: "vl_getVersion (stripe (sh (demo 7)) 0) \<le> rv ?x" by (simp add: demo_simps)
  have z: "unat (rv ?x) = 0" by (simp add: new_Transaction_def)
  show ?thesis
    using running_reads_snapshot [OF demo_reach width_ok_8 x v l n] unfolding z by (simp add: r)
qed

text \<open>A transaction that begins sees every commit recorded before: its read version is the
  clock, and the clock is at least the stamp of every recorded commit.\<close>

theorem begin_after_commits:
  assumes "reach supported (init_sys clock m w) s" "width_ok w"
    and "exec i (Begin ro) s = Some s'"
  shows "\<exists>x. txn (th s' i) = Some x \<and> rv x = gvc (sh s) \<and> is_ro x = ro \<and>
    write_set x = Map.empty \<and> read_set x = {} \<and>
    (\<forall>n \<in> dom (clog (sh s)). n \<le> unat (rv x))"
proof -
  have "log_ok s" using reach_init_inv(1) [OF assms(1,2)] by (simp add: tl2_inv_def)
  then have "\<forall>n \<in> dom (clog (sh s)). n \<le> unat (gvc (sh s))"
    by (auto simp: log_ok_def gv_def)
  then show ?thesis using assms(3)
    by (auto simp: exec_def tm_begin_step_def new_Transaction_def split: if_splits)
qed

theorem begin_after_commits_witness:
  "\<exists>s' x. exec 1 (Begin True) (demo 14) = Some s' \<and> txn (th s' 1) = Some x \<and> rv x = 1 \<and>
     (\<forall>n \<in> dom (clog (sh (demo 14))). n \<le> unat (rv x))"
proof -
  obtain s' where e: "exec 1 (Begin True) (demo 14) = Some s'"
    by (simp add: demo_simps)
  have g: "gvc (sh (demo 14)) = 1" by (simp add: demo_simps)
  show ?thesis using begin_after_commits [OF demo_reach width_ok_8 e] e unfolding g by auto
qed

text \<open>Stamps respect real time. The stamp a transaction draws at its fetch-and-add is past its
  read version and past every commit recorded so far, and the step records at most that one
  commit.\<close>

theorem stamp_after_commits:
  assumes "reach supported (init_sys clock m w) s" "width_ok w"
    and "txn (th s i) = Some x" "pc_at s i = FetchAdd held"
    and "exec i act s = Some s'" "supported s'"
  shows "gv s' = gv s + 1 \<and> unat (rv x) < gv s' \<and> (\<forall>n \<in> dom (clog (sh s)). n < gv s') \<and>
    (\<forall>n. n \<noteq> gv s' \<longrightarrow> clog (sh s') n = clog (sh s) n) \<and>
    (clog (sh s') (gv s') = None \<or> clog (sh s') (gv s') =
       Some \<lparr>c_reads = rlog (th s i), c_writes = write_set x\<rparr>)"
proof -
  note inv = reach_init_inv [OF assms(1,2)]
  have "log_ok s" using inv(1) by (simp add: tl2_inv_def)
  then have logd: "clog (sh s) n = Some c \<Longrightarrow> n \<le> gv s" for n c by (auto simp: log_ok_def)
  have rv: "unat (rv x) \<le> gv s"
    using inv(1) assms(3) by (auto simp: tl2_inv_def local_ok_def txn_ok_def txn_base_def dest: spec [of _ i])
  obtain sp r h where act: "act = Tau sp r h"
    using assms(3-5) by (cases act) (auto simp: exec_def tm_begin_step_def tm_write_step_def
        read_call_def end_call_def split: if_splits)
  have g: "gvc (sh s') = gvc (sh s) + 1"
    using assms(3-5) by (auto simp: act exec_def Let_def decide_def val_next_def split: if_splits)
  have u: "gv s' = gv s + 1"
    using inv(2) by (simp add: gv_def g supported_def unat_word_ariths)
  have "sh s' = (sh s)\<lparr>gvc := gvc (sh s) + 1\<rparr> \<or>
      sh s' = (sh s)\<lparr>gvc := gvc (sh s) + 1, clog := (clog (sh s))(unat (gvc (sh s) + 1) \<mapsto>
         \<lparr>c_reads = rlog (th s i), c_writes = write_set x\<rparr>)\<rparr>"
    using assms(3-5)
    by (auto simp: act exec_def Let_def decide_def val_next_def dest!: arg_cong [where f = sh]
        split: if_splits)
  then have "clog (sh s') = clog (sh s) \<or> clog (sh s') = (clog (sh s))(gv s' \<mapsto>
       \<lparr>c_reads = rlog (th s i), c_writes = write_set x\<rparr>)"
    by (auto simp: gv_def)
  moreover have "clog (sh s) (gv s') = None" using logd [of "gv s'"] u by (cases "clog (sh s) (gv s')") auto
  ultimately show ?thesis using u rv logd by (auto simp: le_imp_less_Suc)
qed

theorem stamp_after_commits_witness:
  "gv (demo 12) = gv (demo 11) + 1 \<and> clog (sh (demo 12)) (gv (demo 12)) \<noteq> None"
proof -
  have e: "exec 0 tau (demo 11) = Some (demo 12)" by (simp add: demo_simps)
  obtain x where x: "txn (th (demo 11) 0) = Some x" by (simp add: demo_simps)
  have p: "pc_at (demo 11) 0 = FetchAdd [8]" by (simp add: demo_simps)
  have c: "clog (sh (demo 12)) (gv (demo 12)) \<noteq> None" by (simp add: gv_def demo_simps)
  show ?thesis using stamp_after_commits [OF demo_reach width_ok_8 x p e demo_within] c by simp
qed

end
