(* ===== verification/TL2_Progress.thy ===== *)
theory TL2_Progress
  imports TL2_Serializability
begin

text \<open>
  Progress of the concurrent model, without any bound on the clock or on the stripes a
  transaction writes: a thread inside a call can always take its next access, every access
  brings it closer to the return of the call whatever the other threads do, and so every call
  returns after a number of its own accesses that is linear in the words it handles. TL2 as
  coded is wait-free per attempt: it never spins.
\<close>

section \<open>What a thread's own steps rely on\<close>

fun live_pc :: "thread \<Rightarrow> pc \<Rightarrow> bool" where
  "live_pc t Idle \<longleftrightarrow> True"
| "live_pc t (PreVersion source sz i) \<longleftrightarrow> i < sz"
| "live_pc t (PreLocked source sz i v) \<longleftrightarrow> i < sz"
| "live_pc t (CopyWord source sz i v) \<longleftrightarrow> i < sz"
| "live_pc t (PostVersion source sz i v) \<longleftrightarrow> i < sz"
| "live_pc t (PostLocked source sz i v nv) \<longleftrightarrow> i < sz"
| "live_pc t (LockLoad keys held) \<longleftrightarrow> keys \<noteq> [] \<and> set keys \<subseteq> set (order t) \<and>
     set held \<subseteq> lock_index ` set (order t)"
| "live_pc t (LockCas keys held e) \<longleftrightarrow> keys \<noteq> [] \<and> set keys \<subseteq> set (order t) \<and>
     set held \<subseteq> lock_index ` set (order t)"
| "live_pc t (FetchAdd held) \<longleftrightarrow> set held \<subseteq> lock_index ` set (order t)"
| "live_pc t (ValLocked reads held wv) \<longleftrightarrow> reads \<noteq> [] \<and> set held \<subseteq> lock_index ` set (order t)"
| "live_pc t (ValVersion reads held wv) \<longleftrightarrow> reads \<noteq> [] \<and> set held \<subseteq> lock_index ` set (order t)"
| "live_pc t (WriteWord keys wv) \<longleftrightarrow> keys \<noteq> []"
| "live_pc t (SetVersion keys wv) \<longleftrightarrow> keys \<noteq> []"
| "live_pc t (UnlockLoad ls) \<longleftrightarrow> ls \<noteq> []"
| "live_pc t (UnlockStore ls current) \<longleftrightarrow> ls \<noteq> []"

definition live_thread :: "thread \<Rightarrow> bool" where
  "live_thread t \<longleftrightarrow>
     (case txn t of None \<Rightarrow> pc t = Idle
      | Some x \<Rightarrow> finite (read_set x) \<and> finite (dom (write_set x)) \<and> live_pc t (pc t))"

section \<open>How far the call is from its return\<close>

text \<open>The words a loop over \<open>sz\<close> bytes still has to visit at offset \<open>i\<close>.\<close>

definition words_left :: "nat \<Rightarrow> nat \<Rightarrow> nat \<Rightarrow> nat" where
  "words_left w sz i = (sz - i + (w - 1)) div w"

lemma words_left_pos: "i < sz \<Longrightarrow> 0 < w \<Longrightarrow> 0 < words_left w sz i"
  by (simp add: words_left_def div_greater_zero_iff)

lemma words_left_next: "i + w < sz \<Longrightarrow> 0 < w \<Longrightarrow> words_left w sz (i + w) < words_left w sz i"
proof -
  assume a: "i + w < sz" "0 < w"
  define d where "d = sz - (i + w) + (w - 1)"
  have "sz - i + (w - 1) = d + w" using a by (simp add: d_def)
  then have "words_left w sz i = (d + w) div w" unfolding words_left_def by (rule arg_cong)
  also have "\<dots> = d div w + 1" using a(2) by (intro div_add_self2) simp
  finally have "words_left w sz i = d div w + 1" .
  moreover have "words_left w sz (i + w) = d div w" by (simp only: words_left_def d_def)
  ultimately show ?thesis by simp
qed

lemma words_left_whole: "0 < w \<Longrightarrow> w dvd sz \<Longrightarrow> words_left w sz 0 = sz div w"
proof -
  assume a: "0 < w" "w dvd sz"
  then obtain k where k: "sz = w * k" by (auto simp: dvd_def)
  have "(w * k + (w - 1)) div w = k + (w - 1) div w" using a(1) by (intro div_mult_self4) simp
  then show ?thesis using a(1) by (simp add: words_left_def k del: add_diff_assoc)
qed

text \<open>An upper bound on the accesses left, with \<open>k\<close> written words and \<open>r\<close> read words.\<close>

fun pc_bound :: "nat \<Rightarrow> nat \<Rightarrow> nat \<Rightarrow> pc \<Rightarrow> nat" where
  "pc_bound w k r Idle = 0"
| "pc_bound w k r (PreVersion source sz i) = 5 * words_left w sz i"
| "pc_bound w k r (PreLocked source sz i v) = 5 * words_left w sz i - 1"
| "pc_bound w k r (CopyWord source sz i v) = 5 * words_left w sz i - 2"
| "pc_bound w k r (PostVersion source sz i v) = 5 * words_left w sz i - 3"
| "pc_bound w k r (PostLocked source sz i v nv) = 5 * words_left w sz i - 4"
| "pc_bound w k r (LockLoad keys held) = 2 * length keys + 2 * k + 2 * r + 1"
| "pc_bound w k r (LockCas keys held e) = 2 * length keys + 2 * k + 2 * r"
| "pc_bound w k r (FetchAdd held) = 2 * k + 2 * r + 1"
| "pc_bound w k r (ValLocked reads held wv) = 2 * k + 2 * length reads"
| "pc_bound w k r (ValVersion reads held wv) = 2 * k + 2 * length reads - 1"
| "pc_bound w k r (WriteWord keys wv) = 2 * length keys"
| "pc_bound w k r (SetVersion keys wv) = 2 * length keys - 1"
| "pc_bound w k r (UnlockLoad ls) = 2 * length ls"
| "pc_bound w k r (UnlockStore ls current) = 2 * length ls - 1"

definition steps_left :: "nat \<Rightarrow> thread \<Rightarrow> nat" where
  "steps_left w t =
     (case txn t of None \<Rightarrow> 0
      | Some x \<Rightarrow> pc_bound w (length (order t)) (card (read_set x)) (pc t))"

lemma live_pc_bound: "live_pc t p \<Longrightarrow> pc_bound w k r p = 0 \<Longrightarrow> 0 < w \<Longrightarrow> p = Idle"
  by (cases p) (auto dest: words_left_pos [where w = w] simp: neq_Nil_conv)

lemma live_bound_zero: "live_thread t \<Longrightarrow> steps_left w t = 0 \<Longrightarrow> 0 < w \<Longrightarrow> pc t = Idle"
  using live_pc_bound by (auto simp: live_thread_def steps_left_def split: option.splits)

section \<open>One access\<close>

lemma live_read_step:
  assumes "live_thread t" "txn t = Some x" "tm_read_step g x t (pc t) = Some t'" "0 < word_size g"
  shows "live_thread t' \<and> steps_left (word_size g) t' < steps_left (word_size g) t"
proof (cases "pc t")
  case (PostLocked source sz i v nv)
  with assms words_left_pos [of i sz "word_size g"] words_left_next [of i "word_size g" sz]
  show ?thesis
    by (auto simp: live_thread_def steps_left_def Let_def abort_def read_next_def
        split: if_splits)
next
  case (CopyWord source sz i v)
  with assms words_left_pos [of i sz "word_size g"] show ?thesis
    by (auto simp: live_thread_def steps_left_def Let_def split: if_splits option.splits)
next
  case (PreLocked source sz i v)
  with assms words_left_pos [of i sz "word_size g"] show ?thesis
    by (auto simp: live_thread_def steps_left_def abort_def split: if_splits)
next
  case (PreVersion source sz i)
  with assms words_left_pos [of i sz "word_size g"] show ?thesis
    by (auto simp: live_thread_def steps_left_def)
next
  case (PostVersion source sz i v)
  with assms words_left_pos [of i sz "word_size g"] show ?thesis
    by (auto simp: live_thread_def steps_left_def)
qed (use assms in auto)

text \<open>Giving up: the stripes to release are no more than the words written.\<close>

lemma live_release:
  assumes "release_held h held t = Some t'" "txn t = Some x" "live_thread t"
    "set held \<subseteq> lock_index ` set (order t)"
  shows "live_thread t' \<and> steps_left w t' \<le> 2 * length (order t)"
proof -
  have "length h \<le> length (order t)" if "distinct h" "set h = set held"
  proof -
    have "length h = card (set held)" using that by (metis distinct_card)
    also have "\<dots> \<le> card (lock_index ` set (order t))" using assms(4) by (rule card_mono [rotated]) simp
    also have "\<dots> \<le> card (set (order t))" by (rule card_image_le) simp
    also have "\<dots> \<le> length (order t)" by (rule card_length)
    finally show ?thesis .
  qed
  with assms show ?thesis
    by (auto simp: release_held_def live_thread_def steps_left_def abort_def split: if_splits)
qed

lemma live_write_back:
  assumes "txn t = Some x" "live_thread t"
  shows "live_thread (write_back keys wv t) \<and> steps_left w (write_back keys wv t) \<le> 2 * length keys"
  using assms by (auto simp: write_back_def live_thread_def steps_left_def commit_def)

lemma live_val_next:
  assumes "txn t = Some x" "live_thread t" "set held \<subseteq> lock_index ` set (order t)"
  shows "live_thread (snd (val_next reads held g x t wv)) \<and>
    steps_left w (snd (val_next reads held g x t wv)) \<le> 2 * length (order t) + 2 * length reads"
proof (cases "reads = []")
  case True
  with live_write_back [OF assms(1,2), of "order t" wv w] show ?thesis
    by (simp add: val_next_def decide_def)
next
  case False
  with assms show ?thesis by (simp add: val_next_def live_thread_def steps_left_def)
qed

lemma live_end_step:
  assumes "live_thread t" "txn t = Some x" "tm_end_step sp r h g x t (pc t) = Some (g', t')"
  shows "live_thread t' \<and> steps_left w t' < steps_left w t"
proof (cases "pc t")
  case (LockLoad keys held)
  with assms show ?thesis
    by (cases keys) (auto simp: live_thread_def steps_left_def)
next
  case (LockCas keys held e)
  with assms obtain a ks where "keys = a # ks" by (cases keys) (auto simp: live_thread_def)
  with LockCas assms show ?thesis
    using live_release [of h held t t' x w]
    by (auto simp: live_thread_def steps_left_def lock_next_def Let_def
        split: if_splits prod.splits)
next
  case (FetchAdd held)
  then have h: "set held \<subseteq> lock_index ` set (order t)" using assms by (simp add: live_thread_def)
  have left: "steps_left w t = 2 * length (order t) + 2 * card (read_set x) + 1"
    using FetchAdd assms(2) by (simp add: steps_left_def)
  have len: "length r = card (read_set x)" if "distinct r" "set r = read_set x"
    using that by (metis distinct_card)
  show ?thesis
  proof (cases "rv x + 1 \<noteq> gvc g + 1")
    case True
    with FetchAdd assms(3) have "distinct r" "set r = read_set x"
      "t' = snd (val_next r held (g\<lparr>gvc := gvc g + 1\<rparr>) x t (gvc g + 1))"
      by (auto simp: Let_def split: if_splits)
    then show ?thesis
      using live_val_next [OF assms(2,1) h, of r "g\<lparr>gvc := gvc g + 1\<rparr>" "gvc g + 1" w] len left by simp
  next
    case False
    with FetchAdd assms(3) have "t' = write_back (order t) (gvc g + 1) t"
      by (auto simp: Let_def decide_def)
    then show ?thesis using live_write_back [OF assms(2,1), of "order t" "gvc g + 1" w] left by simp
  qed
next
  case (ValLocked reads held wv)
  with assms obtain a rs where rs: "reads = a # rs" by (cases reads) (auto simp: live_thread_def)
  have h: "set held \<subseteq> lock_index ` set (order t)" using ValLocked assms by (simp add: live_thread_def)
  show ?thesis
    using ValLocked rs assms h live_release [OF _ assms(2,1) h, of h t' w]
      live_val_next [OF assms(2,1) h, of rs g wv w]
    by (auto simp: steps_left_def [of _ t] split: if_splits) (auto simp: live_thread_def steps_left_def)
next
  case (ValVersion reads held wv)
  with assms obtain a rs where rs: "reads = a # rs" by (cases reads) (auto simp: live_thread_def)
  have h: "set held \<subseteq> lock_index ` set (order t)" using ValVersion assms by (simp add: live_thread_def)
  show ?thesis
    using ValVersion rs assms live_release [OF _ assms(2,1) h, of h t' w]
      live_val_next [OF assms(2,1) h, of rs g wv w]
    by (auto simp: steps_left_def [of _ t] split: if_splits)
next
  case (WriteWord keys wv)
  with assms show ?thesis by (cases keys) (auto simp: live_thread_def steps_left_def)
next
  case (SetVersion keys wv)
  with assms obtain a ks where "keys = a # ks" by (cases keys) (auto simp: live_thread_def)
  with SetVersion assms show ?thesis
    using live_write_back [OF assms(2,1), of ks wv w]
    by (auto simp: steps_left_def [of _ t])
next
  case (UnlockLoad ls)
  with assms show ?thesis by (cases ls) (auto simp: live_thread_def steps_left_def)
next
  case (UnlockStore ls current)
  with assms show ?thesis
    by (cases ls) (auto simp: live_thread_def steps_left_def abort_def)
qed (use assms in auto)

section \<open>All threads\<close>

definition live_sys :: "sys \<Rightarrow> bool" where
  "live_sys s \<longleftrightarrow> 0 < word_size (sh s) \<and> (\<forall>i. live_thread (th s i))"

lemma live_sysD: "live_sys s \<Longrightarrow> live_thread (th s i)" "live_sys s \<Longrightarrow> 0 < word_size (sh s)"
  by (simp_all add: live_sys_def)

lemma live_call:
  assumes "live_thread t" "call_ok (word_size g) act" "tstep act g t = Some (g', t')"
    "\<And>sp r h. act \<noteq> Tau sp r h"
  shows "live_thread t'"
proof (cases act)
  case (Write target source)
  have "finite (dom (write_loop w target src sz i ws))" if "finite (dom ws)" for w src sz i ws
    using that by (intro write_loop_invariant [where P = "\<lambda>ws. finite (dom ws)"]) auto
  with Write assms show ?thesis
    by (auto simp: tm_write_step_def live_thread_def Let_def split: option.splits if_splits)
qed (use assms in \<open>auto simp: tm_begin_step_def new_Transaction_def read_call_def end_call_def
  live_thread_def commit_def split: option.splits if_splits\<close>)

lemma live_tau:
  assumes "live_thread t" "tstep (Tau sp r h) g t = Some (g', t')" "0 < word_size g"
  shows "live_thread t' \<and> steps_left (word_size g) t' < steps_left (word_size g) t"
proof -
  obtain x where x: "txn t = Some x" using assms(2) by (auto split: option.splits)
  show ?thesis
  proof (cases "tm_read_step g x t (pc t)")
    case None
    with assms(2) x have "tm_end_step sp r h g x t (pc t) = Some (g', t')" by simp
    with assms(1) x show ?thesis by (intro live_end_step)
  next
    case (Some t1)
    with assms x show ?thesis using live_read_step [OF assms(1) x] by simp
  qed
qed

lemma live_exec:
  assumes "live_sys s" "exec i act s = Some s'"
  shows "live_sys s'"
proof -
  obtain g t where e: "tstep act (sh s) (th s i) = Some (g, t)" "call_ok (word_size (sh s)) act"
    and s': "s' = s\<lparr>sh := g, th := (th s)(i := t)\<rparr>"
    using assms(2) by (auto simp: exec_def split: if_splits)
  have "live_thread t"
  proof (cases act)
    case (Tau sp r h)
    then show ?thesis using live_tau [OF live_sysD(1) [OF assms(1)]] e assms(1) live_sysD(2) by blast
  qed (use live_call [OF live_sysD(1) [OF assms(1)] e(2,1)] in auto)
  moreover have "word_size g = word_size (sh s)" using exec_word_size [OF assms(2)] s' by simp
  ultimately show ?thesis using assms(1) s' by (auto simp: live_sys_def)
qed

lemma live_init: "0 < w \<Longrightarrow> live_sys (init_sys clock m w)"
  by (simp add: live_sys_def init_sys_def live_thread_def idle_thread_def)

lemma live_reach:
  assumes "reach P (init_sys clock m w) s" "0 < w"
  shows "live_sys s"
  using assms(1)
  by (induction rule: reach.induct) (auto simp: live_init assms(2) elim!: sys_step.cases dest: live_exec)

section \<open>Enabledness\<close>

lemma end_step_enabled:
  assumes "live_thread t" "txn t = Some x" "pc t \<noteq> Idle" "tm_read_step g x t (pc t) = None"
  shows "\<exists>r h. tm_end_step sp r h g x t (pc t) \<noteq> None"
proof -
  obtain r where r: "distinct r" "set r = read_set x"
    using assms(1,2) finite_distinct_list [of "read_set x"] by (auto simp: live_thread_def)
  have "finite (held_by (pc t))" by (cases "pc t") auto
  then obtain h where h: "distinct h" "set h = held_by (pc t)"
    using finite_distinct_list by blast
  show ?thesis
    using assms r h
    by (cases "(sp, r, h, g, x, t, pc t)" rule: tm_end_step.cases)
      (auto simp: live_thread_def Let_def release_held_def split: prod.splits intro!: exI [of _ r] exI [of _ h])
qed

lemma live_enabled:
  assumes "live_sys s" "pc_at s i \<noteq> Idle"
  shows "\<exists>r h s'. exec i (Tau sp r h) s = Some s'"
proof -
  have lt: "live_thread (th s i)" by (rule live_sysD(1) [OF assms(1)])
  then obtain x where x: "txn (th s i) = Some x"
    using assms(2) by (auto simp: live_thread_def split: option.splits)
  show ?thesis
  proof (cases "tm_read_step (sh s) x (th s i) (pc_at s i)")
    case None
    obtain r h where "tm_end_step sp r h (sh s) x (th s i) (pc_at s i) \<noteq> None"
      using end_step_enabled [OF lt x assms(2) None] by blast
    then show ?thesis using x None by (auto simp: exec_def split: prod.splits)
  next
    case (Some t')
    then show ?thesis using x by (simp add: exec_def)
  qed
qed

text \<open>The accesses of one thread in a schedule.\<close>

definition own_steps :: "nat \<Rightarrow> (nat \<times> act) list \<Rightarrow> nat" where
  "own_steps i sched = length (filter (\<lambda>(j, act). j = i) sched)"

fun is_tau :: "act \<Rightarrow> bool" where
  "is_tau (Tau sp r h) \<longleftrightarrow> True"
| "is_tau _ \<longleftrightarrow> False"

lemma exec_steps_left:
  assumes "live_sys s" "exec j act s = Some s'" "j = i \<Longrightarrow> is_tau act"
  shows "(if j = i then 1 else 0) + steps_left (word_size (sh s')) (th s' i)
    \<le> steps_left (word_size (sh s)) (th s i)"
proof -
  obtain g t where e: "tstep act (sh s) (th s j) = Some (g, t)"
    and s': "s' = s\<lparr>sh := g, th := (th s)(j := t)\<rparr>"
    using assms(2) by (auto simp: exec_def split: if_splits)
  have w: "word_size g = word_size (sh s)" using exec_word_size [OF assms(2)] s' by simp
  show ?thesis
  proof (cases "j = i")
    case True
    then obtain sp r h where "act = Tau sp r h" using assms(3) by (cases act) auto
    then show ?thesis
      using live_tau [OF live_sysD(1) [OF assms(1), of j], of sp r h "sh s" g t] e s' w True
        live_sysD(2) [OF assms(1)] by simp
  qed (simp add: s' w)
qed

lemma run_steps_left:
  assumes "live_sys s" "run sched s = Some s'" "\<And>act. (i, act) \<in> set sched \<Longrightarrow> is_tau act"
  shows "own_steps i sched + steps_left (word_size (sh s')) (th s' i)
    \<le> steps_left (word_size (sh s)) (th s i)"
  using assms
proof (induction sched s rule: run.induct)
  case (2 j act sched s)
  then obtain s1 where s1: "exec j act s = Some s1" "run sched s1 = Some s'"
    by (auto split: option.splits)
  have "own_steps i sched + steps_left (word_size (sh s')) (th s' i)
      \<le> steps_left (word_size (sh s1)) (th s1 i)"
    using s1 "2.prems" live_exec [OF "2.prems"(1) s1(1)] by (intro "2.IH") auto
  moreover have "(if j = i then 1 else 0) + steps_left (word_size (sh s1)) (th s1 i)
      \<le> steps_left (word_size (sh s)) (th s i)"
    using "2.prems" by (intro exec_steps_left [OF _ s1(1)]) auto
  ultimately show ?case by (auto simp: own_steps_def)
qed (simp add: own_steps_def)

section \<open>Properties\<close>

text \<open>A thread inside a call is never stuck: whatever the other threads hold, and whether or
  not its compare-and-swap fails spuriously, its next access can be taken. This needs no bound
  on the clock and no condition on the stripes.\<close>

theorem inside_call_enabled:
  assumes "reach P (init_sys clock m w) s" "0 < w" "pc_at s i \<noteq> Idle"
  shows "\<exists>r h s'. exec i (Tau sp r h) s = Some s'"
  by (rule live_enabled [OF live_reach [OF assms(1,2)] assms(3)])

theorem inside_call_enabled_witness:
  "pc_at (demo 10) 0 = LockCas [8] [] 0 \<and> (\<exists>r h s'. exec 0 (Tau True r h) (demo 10) = Some s')"
proof -
  have p: "pc_at (demo 10) 0 = LockCas [8] [] 0" by (simp add: demo_simps)
  have "\<exists>r h s'. exec 0 (Tau True r h) (demo 10) = Some s'"
    by (rule inside_call_enabled [OF demo_reach]) (simp_all add: p)
  then show ?thesis using p by simp
qed

text \<open>C11: every call returns within a bounded number of the thread's own accesses, under any
  interleaving: in a schedule in which thread \<open>i\<close> makes accesses but no new call, their number
  is at most \<open>steps_left\<close>, which only its own accesses lower and which is zero only outside a
  call.\<close>

theorem own_steps_bounded:
  assumes "reach P (init_sys clock m w) s" "0 < w" "run sched s = Some s'"
    and "\<And>act. (i, act) \<in> set sched \<Longrightarrow> is_tau act"
  shows "own_steps i sched + steps_left w (th s' i) \<le> steps_left w (th s i) \<and>
    (steps_left w (th s' i) = 0 \<longrightarrow> pc_at s' i = Idle)"
proof -
  have live: "live_sys s" by (rule live_reach [OF assms(1,2)])
  have "live_sys s' \<and> word_size (sh s') = word_size (sh s)"
    using live assms(3)
  proof (induction sched s rule: run.induct)
    case (2 j act sched s)
    then obtain s1 where s1: "exec j act s = Some s1" "run sched s1 = Some s'"
      by (auto split: option.splits)
    with "2.IH" "2.prems"(1) show ?case using live_exec exec_word_size by metis
  qed simp
  moreover have "word_size (sh s) = w" using reach_word_size [OF assms(1)] by (simp add: init_sys_def)
  ultimately have w: "word_size (sh s) = w" "word_size (sh s') = w" and live': "live_sys s'" by auto
  have lt: "live_thread (th s' i)" by (rule live_sysD(1) [OF live'])
  have "pc_at s' i = Idle" if "steps_left w (th s' i) = 0"
    using live_bound_zero [OF lt that assms(2)] .
  then show ?thesis using run_steps_left [OF live assms(3,4)] w by simp
qed

theorem own_steps_bounded_witness:
  "run [(0, tau), (0, tau)] (demo 12) = Some (demo 14) \<and>
   own_steps 0 [(0, tau), (0, tau)] + steps_left 8 (th (demo 14) 0) \<le> steps_left 8 (th (demo 12) 0) \<and>
   steps_left 8 (th (demo 12) 0) = 2"
proof -
  have r: "run [(0, tau), (0, tau)] (demo 12) = Some (demo 14)" by (simp add: demo_simps)
  have l: "steps_left 8 (th (demo 12) 0) = 2" by (simp add: steps_left_def demo_simps)
  have "own_steps 0 [(0, tau), (0, tau)] + steps_left 8 (th (demo 14) 0) \<le> steps_left 8 (th (demo 12) 0)"
    using own_steps_bounded [OF demo_reach [of 12] _ r, of 0] by (auto simp del: run.simps)
  then show ?thesis using r l by blast
qed

text \<open>The cost of the calls: a \<open>tm_read\<close> of \<open>sz\<close> bytes takes at most five accesses per word,
  and a \<open>tm_end\<close> of a transaction that wrote \<open>k\<close> words and read \<open>r\<close> words takes at most
  \<open>4 * k + 2 * r + 1\<close> accesses; read-only transactions end without any access.\<close>

theorem call_cost:
  assumes "reach P (init_sys clock m w) s" "0 < w" "txn (th s i) = Some x"
  shows "(exec i (Read source sz) s = Some s' \<longrightarrow> steps_left w (th s' i) = 5 * (sz div w)) \<and>
    (exec i (End ws_order) s = Some s' \<longrightarrow>
       steps_left w (th s' i) \<le>
         (if is_ro x then 0 else 4 * card (dom (write_set x)) + 2 * card (read_set x) + 1))"
proof -
  have w: "word_size (sh s) = w" using reach_word_size [OF assms(1)] by (simp add: init_sys_def)
  have "5 * words_left w sz 0 = 5 * (sz div w)" if "w dvd sz"
    using that assms(2) by (simp add: words_left_whole)
  moreover have "length ws_order = card (dom (write_set x))"
    if "distinct ws_order" "set ws_order = dom (write_set x)"
    using that by (metis distinct_card)
  ultimately show ?thesis
    using assms(3) w
    by (auto simp: exec_def read_call_def end_call_def steps_left_def commit_def split: if_splits)
qed

theorem call_cost_witness:
  "exec 0 (Read 0 8) (demo 1) = Some (demo 2) \<and> steps_left 8 (th (demo 2) 0) = 5 \<and>
   exec 0 (End [8]) (demo 8) = Some (demo 9) \<and> steps_left 8 (th (demo 9) 0) \<le> 7"
proof -
  have e1: "exec 0 (Read 0 8) (demo 1) = Some (demo 2)" by (simp add: demo_simps)
  have e2: "exec 0 (End [8]) (demo 8) = Some (demo 9)" by (simp add: demo_simps)
  let ?x = "\<lparr>rv = 0, read_set = {0}, write_set = [8 \<mapsto> replicate 8 1], txn_seg_list = [],
    is_ro = False\<rparr>"
  have x: "txn (th (demo 8) 0) = Some ?x" "txn (th (demo 1) 0) = Some (new_Transaction 0 False)"
    by (simp_all add: demo_simps)
  have z: "0 < (8 :: nat)" by simp
  show ?thesis
    using call_cost [OF demo_reach z x(2), of 0 8 "demo 2"]
      call_cost [OF demo_reach z x(1), of 0 8 "demo 9" "[8]"] e1 e2 by simp
qed

end
