(* ===== verification/TL2_Races.thy ===== *)
theory TL2_Races
  imports TL2_Serializability
begin

text \<open>
  Schedules on which the code does not do what it means to. Each is a run of the concurrent
  model from a fresh region that evaluates step by step.

  The first is a read-only transaction that commits two words of different snapshots: after
  the copy, \<open>tm_read\<close> loads the version before it loads the lock bit, so a whole write-back of
  the word can fall between the copy and the second load. The second is a pair of words
  \<open>NUM_LOCKS\<close> bytes apart: they share a stripe, and \<open>setVersion\<close> after the first write-back
  releases it before the second word is written. The positive theorems exclude the first by
  speaking of read-write commits and of snapshots of quiet stripes, the second by the
  condition \<open>supported\<close>.
\<close>

abbreviation ones :: bytes where
  "ones \<equiv> replicate 8 1"

abbreviation zeros :: bytes where
  "zeros \<equiv> [0, 0, 0, 0, 0, 0, 0, 0]"

section \<open>The order of the loads in the post-validation\<close>

definition torn_read_sched :: "(nat \<times> act) list" where
  "torn_read_sched =
     [(0, Begin True), (0, Read 0 8), (0, tau), (0, tau), (0, tau), (0, tau), (0, tau),
      (1, Begin False), (1, Write 0 ones), (1, Write 8 ones),
      (0, Read 8 8), (0, tau), (0, tau),
      (1, End [0, 8]), (1, tau), (1, tau), (1, tau), (1, tau), (1, tau), (1, tau), (1, tau), (1, tau),
      (0, tau), (0, tau), (1, tau), (0, tau), (0, End [])]"

definition torn :: sys where
  "torn = the (run torn_read_sched (init_sys 0 (\<lambda>_. 0) 8))"

lemma ones_list: "[1, 1, 1, 1, 1, 1, 1, 1] = ones"
  by (simp add: numeral_eq_Suc)

lemma word_order_8: "{0 :: addr, 8} = {8, 0}"
  by (rule insert_commute)

lemmas torn_simps = torn_def torn_read_sched_def init_sys_def idle_thread_def exec_simps word_order_8 ones_list

lemma torn_supported:
  "\<exists>s. run_within supported torn_read_sched (init_sys 0 (\<lambda>_. 0) 8) = Some s"
  by (simp add: torn_simps supported_fit)

lemma torn_reach: "reach supported (init_sys 0 (\<lambda>_. 0) 8) torn"
proof -
  obtain s where "run_within supported torn_read_sched (init_sys 0 (\<lambda>_. 0) 8) = Some s"
    using torn_supported by blast
  from run_within_take [OF this, of "length torn_read_sched"] show ?thesis
    by (simp add: torn_def)
qed

lemma torn_result:
  "run torn_read_sched (init_sys 0 (\<lambda>_. 0) 8) = Some torn"
  "clog (sh torn) = [1 \<mapsto> \<lparr>c_reads = [], c_writes = [0 \<mapsto> ones, 8 \<mapsto> ones]\<rparr>]"
  "txn (th torn 0) = None \<and> returned (th torn 0)"
  "rlog (th torn 0) = [(8, ones), (0, zeros)]"
  by (simp_all add: torn_simps)

lemma snap_single: "snap base [1 \<mapsto> c] n = (if n = 0 then base else install (c_writes c) base)"
  by (induction n) (auto simp: install_def fun_eq_iff split: option.splits)

text \<open>C9: a read-only transaction can commit an inconsistent snapshot. In this run, within the
  supported range, thread 0's read-only transaction returns true having copied the word at 0
  from before a commit and the word at 8 from after it, although both words change in that one
  commit: no prefix of the serial history has both values. In the post-validation
  \<open>getVersion()\<close> runs before \<open>isLocked()\<close>, and the committing transaction stores the new
  version, which releases the lock, between the two loads.\<close>

theorem read_only_torn_snapshot:
  "run torn_read_sched (init_sys 0 (\<lambda>_. 0) 8) = Some torn \<and>
   reach supported (init_sys 0 (\<lambda>_. 0) 8) torn \<and>
   txn (th torn 0) = None \<and> returned (th torn 0) \<and> rlog (th torn 0) = [(8, ones), (0, zeros)] \<and>
   (\<forall>n. \<exists>m'. replay (history_upto n torn) (initial_words (\<lambda>_. 0) 8) = Some m' \<and>
      \<not> (m' 0 = zeros \<and> m' 8 = ones))"
proof -
  let ?base = "initial_words (\<lambda>_. 0) 8"
  have "serial_ok ?base torn"
    using reach_init_inv(1) [OF torn_reach width_ok_8] by (simp add: tl2_inv_def)
  then have "replay (history_upto n torn) ?base = Some (snap ?base (clog (sh torn)) n)" for n
    by (rule replay_snapshot)
  moreover have "\<not> (snap ?base (clog (sh torn)) n 0 = zeros \<and> snap ?base (clog (sh torn)) n 8 = ones)" for n
    unfolding torn_result(2) snap_single by (simp add: install_def load_bytes_def upt_rec numeral_eq_Suc)
  ultimately show ?thesis using torn_result torn_reach by blast
qed

section \<open>Two written words on one stripe\<close>

definition collision_sched :: "(nat \<times> act) list" where
  "collision_sched =
     [(1, Begin False), (1, Write 0 ones), (1, Write 10000 ones), (1, End [0, 10000]),
      (1, tau), (1, tau), (1, tau), (1, tau), (1, tau), (1, tau), (1, tau),
      (0, Begin False), (0, Read 0 8), (0, tau), (0, tau), (0, tau), (0, tau), (0, tau),
      (0, Read 10000 8), (0, tau), (0, tau), (0, tau), (0, tau), (0, tau),
      (0, Write 16 ones), (0, End [16]), (0, tau), (0, tau), (0, tau), (0, tau), (0, tau),
      (1, tau), (1, tau)]"

definition collision :: sys where
  "collision = the (run collision_sched (init_sys 0 (\<lambda>_. 0) 8))"

lemma word_order_10000: "{0 :: addr, 10000} = {10000, 0}"
  by (rule insert_commute)

lemmas collision_simps =
  collision_def collision_sched_def init_sys_def idle_thread_def exec_simps word_order_10000
  ones_list

abbreviation "writer_commit \<equiv> \<lparr>c_reads = [], c_writes = [0 \<mapsto> ones, 10000 \<mapsto> ones]\<rparr>"
abbreviation "reader_commit \<equiv> \<lparr>c_reads = [(10000, zeros), (0, ones)], c_writes = [16 \<mapsto> ones]\<rparr>"

lemma collision_result:
  "run collision_sched (init_sys 0 (\<lambda>_. 0) 8) = Some collision"
  "clog (sh collision) = [1 \<mapsto> writer_commit, 2 \<mapsto> reader_commit]"
  "gvc (sh collision) = 2"
  "txn (th collision 0) = None \<and> returned (th collision 0)"
  "txn (th collision 1) = None \<and> returned (th collision 1)"
  by (simp_all add: collision_simps)

text \<open>C10: two words that share a stripe break serializability. The writer writes the words at 0 and
  10000, whose stripe is the same; storing the version after the first write-back releases the
  stripe while the second word is still old. The reader starts there, reads one new and one
  old word, passes every check and commits. Both transactions return true, and the two commits
  replay in neither order.\<close>

theorem shared_stripe_not_serializable:
  "run collision_sched (init_sys 0 (\<lambda>_. 0) 8) = Some collision \<and>
   returned (th collision 0) \<and> returned (th collision 1) \<and>
   lock_index 0 = lock_index 10000 \<and>
   history collision = [writer_commit, reader_commit] \<and>
   replay [writer_commit, reader_commit] (initial_words (\<lambda>_. 0) 8) = None \<and>
   replay [reader_commit, writer_commit] (initial_words (\<lambda>_. 0) 8) = None"
proof -
  have "history collision = [writer_commit, reader_commit]"
    by (simp add: history_def history_upto_def gv_def collision_result(2,3) List.map_filter_def upt_rec)
  moreover have "replay [writer_commit, reader_commit] (initial_words (\<lambda>_. 0) 8) = None"
    by (simp add: atomic_txn_def install_def numeral_eq_Suc)
  moreover have "replay [reader_commit, writer_commit] (initial_words (\<lambda>_. 0) 8) = None"
    by (simp add: atomic_txn_def load_bytes_def upt_rec numeral_eq_Suc)
  moreover have "lock_index 0 = lock_index 10000" by (simp add: lock_index_def NUM_LOCKS_def)
  ultimately show ?thesis using collision_result by blast
qed

end
