(* ===== verification/TM_Library.thy ===== *)
theory TM_Library
  imports TM_Structures
begin

text \<open>
  The library calls of \<open>394984/tm.cpp\<close> as whole functions, for a client that makes one call at
  a time: every branch, every allocation and the lists of segments are here, the interleaving
  of accesses is not (the concurrent model has it). A call takes the heap and returns the new
  heap, or a fault where the C++ behaviour is undefined. Inputs chosen by the environment come
  first: the pointers the allocator returns, whether the buffer of a write can be allocated,
  whether a weak compare-and-swap fails spuriously, and the iteration order of a container.
\<close>

section \<open>Sequencing\<close>

definition and_then :: "fault + 'a \<Rightarrow> ('a \<Rightarrow> fault + 'b) \<Rightarrow> fault + 'b" where
  "and_then r f = (case r of Inl e \<Rightarrow> Inl e | Inr x \<Rightarrow> f x)"

lemma and_then_simps [simp]:
  "and_then (Inl e) f = Inl e" "and_then (Inr x) f = f x"
  by (simp_all add: and_then_def)

lemma and_then_Inr: "and_then r f = Inr y \<longleftrightarrow> (\<exists>x. r = Inr x \<and> f x = Inr y)"
  by (cases r) simp_all

definition the_region :: "heap \<Rightarrow> addr \<Rightarrow> fault + MemoryRegion" where
  "the_region h shared =
     (case regions h shared of None \<Rightarrow> Inl (BadHandle shared) | Some region \<Rightarrow> Inr region)"

definition the_txn :: "heap \<Rightarrow> addr \<Rightarrow> fault + Transaction" where
  "the_txn h tx = (case txns h tx of None \<Rightarrow> Inl (BadHandle tx) | Some txn \<Rightarrow> Inr txn)"

definition the_locks :: "heap \<Rightarrow> MemoryRegion \<Rightarrow> fault + (nat \<Rightarrow> lock_word)" where
  "the_locks h region =
     (case lock_arrays h (locks region) of None \<Rightarrow> Inl (BadHandle (locks region)) | Some ls \<Rightarrow> Inr ls)"

section \<open>Regions\<close>

definition put_region :: "addr \<Rightarrow> MemoryRegion \<Rightarrow> heap \<Rightarrow> heap" where
  "put_region shared region h = h\<lparr>regions := (regions h)(shared \<mapsto> region)\<rparr>"

definition new_region :: "addr \<Rightarrow> MemoryRegion \<Rightarrow> heap \<Rightarrow> addr \<times> heap" where
  "new_region p region h =
     (if p \<noteq> 0 \<and> regions h p = None then (p, put_region p region h) else (0, h))"

text \<open>\<open>p_region\<close>, \<open>p_locks\<close> and \<open>p_start\<close> are what the three allocations return.\<close>

definition tm_create ::
  "addr \<Rightarrow> addr \<Rightarrow> addr \<Rightarrow> nat \<Rightarrow> nat \<Rightarrow> heap \<Rightarrow> fault + (addr \<times> heap)" where
  "tm_create p_region p_locks p_start sz al h =
     (let region = new_MemoryRegion sz al;
          (shared, h1) = new_region p_region region h
      in if shared = 0 then Inr (0, h1)
         else
           let (ls, h2) = new_locks p_locks h1;
               region = region\<lparr>locks := ls\<rparr>;
               h2 = put_region shared region h2
           in if ls = 0
              then and_then (delete_region shared h2) (\<lambda>h3. Inr (0, h3))
              else
                let (st, h3) = aligned_alloc p_start al sz h2;
                    region = region\<lparr>start := st\<rparr>;
                    h3 = put_region shared region h3
                in if st = 0
                   then and_then (delete_locks ls h3) (\<lambda>h4.
                        and_then (delete_region shared h4) (\<lambda>h5. Inr (0, h5)))
                   else Inr (shared, h3\<lparr>mem := memset (mem h3) st 0 sz\<rparr>))"

definition tm_destroy :: "addr \<Rightarrow> heap \<Rightarrow> fault + heap" where
  "tm_destroy shared h = delete_region shared h"

definition tm_start :: "addr \<Rightarrow> heap \<Rightarrow> fault + addr" where
  "tm_start shared h = and_then (the_region h shared) (\<lambda>region. Inr (start region))"

definition tm_size :: "addr \<Rightarrow> heap \<Rightarrow> fault + nat" where
  "tm_size shared h = and_then (the_region h shared) (\<lambda>region. Inr (region_size region))"

definition tm_align :: "addr \<Rightarrow> heap \<Rightarrow> fault + nat" where
  "tm_align shared h = and_then (the_region h shared) (\<lambda>region. Inr (align region))"

section \<open>Transactions\<close>

definition put_txn :: "addr \<Rightarrow> Transaction \<Rightarrow> heap \<Rightarrow> heap" where
  "put_txn tx txn h = h\<lparr>txns := (txns h)(tx \<mapsto> txn)\<rparr>"

text \<open>\<open>invalid_tx\<close> is \<open>~(tx_t(0))\<close>; no object is allocated there.\<close>

definition invalid_tx :: addr where
  "invalid_tx = NOT 0"

definition tm_begin :: "addr \<Rightarrow> addr \<Rightarrow> bool \<Rightarrow> heap \<Rightarrow> addr \<times> heap" where
  "tm_begin p_txn shared ro h =
     (if p_txn \<noteq> 0 \<and> p_txn \<noteq> invalid_tx \<and> txns h p_txn = None
      then (p_txn, put_txn p_txn (new_Transaction (gvc h) ro) h) else (invalid_tx, h))"

text \<open>Give up the transaction: \<open>delete txn; return false\<close>.\<close>

definition give_up :: "addr \<Rightarrow> heap \<Rightarrow> fault + (bool \<times> heap)" where
  "give_up tx h = and_then (delete_txn tx h) (\<lambda>h'. Inr (False, h'))"

subsection \<open>tm_read\<close>

text \<open>
  The two loops of \<open>tm_read\<close>. They return whether every word passed its checks, the read set
  and memory; the locks do not change under the loop.
\<close>

function read_ro_loop ::
  "nat \<Rightarrow> (nat \<Rightarrow> lock_word) \<Rightarrow> Transaction \<Rightarrow> addr \<Rightarrow> addr \<Rightarrow> nat \<Rightarrow> nat \<Rightarrow> memory \<Rightarrow>
   bool \<times> Transaction \<times> memory" where
  "read_ro_loop word_size ls txn source target sz i m =
     (if i < sz \<and> 0 < word_size
      then
        let source_addr = source + of_nat i; target_addr = target + of_nat i;
            lock = ls (lock_index source_addr); version = vl_getVersion lock
        in if vl_isLocked lock \<or> version > rv txn then (False, txn, m)
           else
             let m = memcpy m target_addr source_addr word_size;
                 new_version = vl_getVersion lock
             in if vl_isLocked lock \<or> new_version \<noteq> version \<or> new_version > rv txn
                then (False, txn, m)
                else read_ro_loop word_size ls txn source target sz (i + word_size) m
      else (True, txn, m))"
  by pat_completeness auto
termination
  by (relation "measure (\<lambda>(w, ls, x, s, t, sz, i, m). sz - i)") auto

function read_rw_loop ::
  "nat \<Rightarrow> (nat \<Rightarrow> lock_word) \<Rightarrow> Transaction \<Rightarrow> addr \<Rightarrow> addr \<Rightarrow> nat \<Rightarrow> nat \<Rightarrow> memory \<Rightarrow>
   bool \<times> Transaction \<times> memory" where
  "read_rw_loop word_size ls txn source target sz i m =
     (if i < sz \<and> 0 < word_size
      then
        let source_addr = source + of_nat i; target_addr = target + of_nat i;
            lock = ls (lock_index source_addr); version = vl_getVersion lock
        in if vl_isLocked lock \<or> version > rv txn then (False, txn, m)
           else
             let m = (case write_set txn source_addr of
                        Some val \<Rightarrow> store_bytes m target_addr val
                      | None \<Rightarrow> memcpy m target_addr source_addr word_size);
                 new_version = vl_getVersion lock
             in if vl_isLocked lock \<or> new_version \<noteq> version then (False, txn, m)
                else read_rw_loop word_size ls
                       (txn\<lparr>read_set := insert source_addr (read_set txn)\<rparr>)
                       source target sz (i + word_size) m
      else (True, txn, m))"
  by pat_completeness auto
termination
  by (relation "measure (\<lambda>(w, ls, x, s, t, sz, i, m). sz - i)") auto

declare read_ro_loop.simps [simp del] read_rw_loop.simps [simp del]

definition tm_read ::
  "addr \<Rightarrow> addr \<Rightarrow> addr \<Rightarrow> nat \<Rightarrow> addr \<Rightarrow> heap \<Rightarrow> fault + (bool \<times> heap)" where
  "tm_read shared tx source sz target h =
     and_then (the_txn h tx) (\<lambda>txn.
     and_then (the_region h shared) (\<lambda>region.
     and_then (the_locks h region) (\<lambda>ls.
       let loop = (if is_ro txn then read_ro_loop else read_rw_loop);
           (ok, txn', m) = loop (align region) ls txn source target sz 0 (mem h);
           h' = put_txn tx txn' (h\<lparr>mem := m\<rparr>)
       in if ok then Inr (True, h') else give_up tx h')))"

subsection \<open>tm_write\<close>

text \<open>
  \<open>WriteOperation\<close>'s constructor copies the word into a buffer from \<open>aligned_alloc\<close> without
  looking at the result: when the allocation fails the copy writes through \<open>nullptr\<close>.
\<close>

definition new_WriteOperation :: "bool \<Rightarrow> bytes \<Rightarrow> fault + WriteOperation" where
  "new_WriteOperation alloc_ok data = (if alloc_ok then Inr data else Inl NullWrite)"

function write_words ::
  "(nat \<Rightarrow> bool) \<Rightarrow> memory \<Rightarrow> nat \<Rightarrow> addr \<Rightarrow> addr \<Rightarrow> nat \<Rightarrow> nat \<Rightarrow> write_map \<Rightarrow> fault + write_map" where
  "write_words alloc_ok m word_size source target sz i ws =
     (if i < sz \<and> 0 < word_size
      then and_then (new_WriteOperation (alloc_ok i) (load_bytes m (source + of_nat i) word_size))
             (\<lambda>val. write_words alloc_ok m word_size source target sz (i + word_size)
                      (ws(target + of_nat i \<mapsto> val)))
      else Inr ws)"
  by pat_completeness auto
termination
  by (relation "measure (\<lambda>(ok, m, w, s, t, sz, i, ws). sz - i)") auto

declare write_words.simps [simp del]

definition tm_write ::
  "(nat \<Rightarrow> bool) \<Rightarrow> addr \<Rightarrow> addr \<Rightarrow> addr \<Rightarrow> nat \<Rightarrow> addr \<Rightarrow> heap \<Rightarrow> fault + (bool \<times> heap)" where
  "tm_write alloc_ok shared tx source sz target h =
     and_then (the_txn h tx) (\<lambda>txn.
     and_then (tm_align shared h) (\<lambda>word_size.
     and_then (write_words alloc_ok (mem h) word_size source target sz 0 (write_set txn)) (\<lambda>ws.
       Inr (True, put_txn tx (txn\<lparr>write_set := ws\<rparr>) h))))"

subsection \<open>tm_alloc and tm_free\<close>

datatype Alloc = success | abort_alloc | nomem

definition tm_alloc ::
  "addr \<Rightarrow> addr \<Rightarrow> addr \<Rightarrow> nat \<Rightarrow> heap \<Rightarrow> fault + (Alloc \<times> addr option \<times> heap)" where
  "tm_alloc p_seg shared tx sz h =
     and_then (the_txn h tx) (\<lambda>txn.
     and_then (tm_align shared h) (\<lambda>al.
       let (new_seg, h1) = aligned_alloc p_seg al sz h
       in if new_seg = 0 then Inr (nomem, None, h1)
          else Inr (success, Some new_seg,
                 put_txn tx (txn\<lparr>txn_seg_list := txn_seg_list txn @ [new_seg]\<rparr>)
                   (h1\<lparr>mem := memset (mem h1) new_seg 0 sz\<rparr>))))"

definition tm_free :: "addr \<Rightarrow> addr \<Rightarrow> addr \<Rightarrow> heap \<Rightarrow> bool \<times> heap" where
  "tm_free shared tx target h = (True, h)"

subsection \<open>tm_end\<close>

text \<open>Step (3): lock the write set in iteration order; stop at the first stripe not taken.\<close>

fun lock_write_set ::
  "(addr \<Rightarrow> bool) \<Rightarrow> addr list \<Rightarrow> (nat \<Rightarrow> lock_word) \<Rightarrow> nat list \<Rightarrow> bool \<times> (nat \<Rightarrow> lock_word) \<times> nat list"
where
  "lock_write_set spurious [] ls locks_held = (True, ls, locks_held)"
| "lock_write_set spurious (target_addr # keys) ls locks_held =
     (let l = lock_index target_addr; (taken, w) = vl_lock (spurious target_addr) (ls l);
          ls = ls(l := w)
      in if \<not> taken \<and> l \<notin> set locks_held then (False, ls, locks_held)
         else lock_write_set spurious keys ls (List.insert l locks_held))"

fun unlock_all :: "nat list \<Rightarrow> (nat \<Rightarrow> lock_word) \<Rightarrow> nat \<Rightarrow> lock_word" where
  "unlock_all [] ls = ls"
| "unlock_all (l # held) ls = unlock_all held (ls(l := vl_unlock (ls l)))"

text \<open>Step (5): every read stripe is held by us or free, and not newer than \<open>rv\<close>.\<close>

definition validate :: "addr list \<Rightarrow> (nat \<Rightarrow> lock_word) \<Rightarrow> nat list \<Rightarrow> 64 word \<Rightarrow> bool" where
  "validate reads ls locks_held r =
     list_all (\<lambda>read. let lock = ls (lock_index read); lock_owned = lock_index read \<in> set locks_held
        in \<not> ((\<not> lock_owned \<and> vl_isLocked lock) \<or> vl_getVersion lock > r)) reads"

text \<open>Step (6): write back and stamp, word by word.\<close>

fun write_back_all ::
  "write_map \<Rightarrow> 64 word \<Rightarrow> addr list \<Rightarrow> memory \<Rightarrow> (nat \<Rightarrow> lock_word) \<Rightarrow> memory \<times> (nat \<Rightarrow> lock_word)"
where
  "write_back_all ws wv [] m ls = (m, ls)"
| "write_back_all ws wv (target_addr # keys) m ls =
     write_back_all ws wv keys (store_bytes m target_addr (the (ws target_addr)))
       (ls(lock_index target_addr := vl_setVersion wv))"

definition put_locks :: "MemoryRegion \<Rightarrow> (nat \<Rightarrow> lock_word) \<Rightarrow> heap \<Rightarrow> heap" where
  "put_locks region ls h = h\<lparr>lock_arrays := (lock_arrays h)(locks region \<mapsto> ls)\<rparr>"

text \<open>The last lines of every \<open>tm_end\<close> that commits: \<open>delete txn; return true\<close>.\<close>

definition finish :: "addr \<Rightarrow> heap \<Rightarrow> fault + (bool \<times> heap)" where
  "finish tx h = and_then (delete_txn tx h) (\<lambda>h'. Inr (True, h'))"

definition tm_end ::
  "(addr \<Rightarrow> bool) \<Rightarrow> addr list \<Rightarrow> addr list \<Rightarrow> addr \<Rightarrow> addr \<Rightarrow> heap \<Rightarrow> fault + (bool \<times> heap)" where
  "tm_end spurious ws_order rs_order shared tx h =
     and_then (the_txn h tx) (\<lambda>txn.
     and_then (the_region h shared) (\<lambda>region.
     and_then (the_locks h region) (\<lambda>ls0.
       if is_ro txn then finish tx h
       else
         let (locked, ls, locks_held) = lock_write_set spurious ws_order ls0 []
         in if \<not> locked then give_up tx (put_locks region (unlock_all locks_held ls) h)
            else
              let wv = gvc h + 1; h1 = h\<lparr>gvc := gvc h + 1\<rparr>
              in if rv txn + 1 \<noteq> wv \<and> \<not> validate rs_order ls locks_held (rv txn)
                 then give_up tx (put_locks region (unlock_all locks_held ls) h1)
                 else
                   let (m, ls') = write_back_all (write_set txn) wv ws_order (mem h1) ls;
                       h2 = put_locks region ls' (h1\<lparr>mem := m\<rparr>);
                       h3 = put_region shared
                              (region\<lparr>seg_list := seg_list region @ txn_seg_list txn\<rparr>) h2;
                       h4 = put_txn tx (txn\<lparr>txn_seg_list := []\<rparr>) h3
                   in finish tx h4)))"

end
