(* ===== verification/TM_Ownership.thy ===== *)
theory TM_Ownership
  imports TM_Library
begin

text \<open>
  Ownership of the C++ heap: every raw block has exactly one owner, a region or a running
  transaction, and every lock array belongs to one region. Every call of the library that ends
  keeps this, so no block is leaked and none is freed twice; the calls that do not end are those
  in which one of two allocations fails, the last one of \<open>tm_create\<close> or that of a written word.
\<close>

section \<open>Exclusive ownership of a set of blocks\<close>

datatype owner = RegionOwner addr | TxnOwner addr

definition owns :: "('o \<Rightarrow> 'p list) \<Rightarrow> 'p set \<Rightarrow> bool" where
  "owns f B \<longleftrightarrow> (\<forall>i. distinct (f i)) \<and> (\<forall>i j p. p \<in> set (f i) \<longrightarrow> p \<in> set (f j) \<longrightarrow> i = j) \<and>
     B = (\<Union>i. set (f i))"

lemma ownsI:
  assumes "\<And>i. distinct (f i)" "\<And>i j p. p \<in> set (f i) \<Longrightarrow> p \<in> set (f j) \<Longrightarrow> i = j"
    "\<And>p. p \<in> B \<longleftrightarrow> (\<exists>i. p \<in> set (f i))"
  shows "owns f B"
proof -
  have "B = (\<Union>i. set (f i))" using assms(3) by auto
  then show ?thesis unfolding owns_def using assms(1,2) by simp
qed

lemma ownsD:
  assumes "owns f B"
  shows "distinct (f i)" "p \<in> set (f i) \<Longrightarrow> p \<in> set (f j) \<Longrightarrow> i = j" "p \<in> B \<longleftrightarrow> (\<exists>i. p \<in> set (f i))"
proof -
  show "distinct (f i)" using assms by (simp add: owns_def)
  show "p \<in> set (f i) \<Longrightarrow> p \<in> set (f j) \<Longrightarrow> i = j"
    using assms by (simp add: owns_def)
  show "p \<in> B \<longleftrightarrow> (\<exists>i. p \<in> set (f i))" using assms by (simp add: owns_def)
qed

lemma owns_subset: "owns f B \<Longrightarrow> set (f i) \<subseteq> B"
  unfolding owns_def by blast

lemma owns_drop:
  assumes "owns f B"
  shows "owns (f(i := [])) (B - set (f i))"
proof (rule ownsI)
  show "distinct ((f(i := [])) j)" for j using assms by (simp add: ownsD(1))
  show "j = k" if "q \<in> set ((f(i := [])) j)" "q \<in> set ((f(i := [])) k)" for j k q
    using that ownsD(2) [OF assms] by (auto split: if_splits)
  have "q \<in> set (f j) \<Longrightarrow> q \<in> set (f i) \<longleftrightarrow> j = i" for q j using ownsD(2) [OF assms] by blast
  then show "q \<in> B - set (f i) \<longleftrightarrow> (\<exists>j. q \<in> set ((f(i := [])) j))" for q
    unfolding Diff_iff ownsD(3) [OF assms] by auto
qed

lemma owns_set:
  assumes "owns f B" "p \<notin> B" "distinct ps" "set ps = insert p (set (f i))"
  shows "owns (f(i := ps)) (insert p B)"
proof (rule ownsI)
  show "distinct ((f(i := ps)) j)" for j using assms(1,3) by (simp add: ownsD(1))
  have fresh: "p \<notin> set (f j)" for j using assms(1,2) ownsD(3) by metis
  show "j = k" if "q \<in> set ((f(i := ps)) j)" "q \<in> set ((f(i := ps)) k)" for j k q
    using that assms(4) fresh ownsD(2) [OF assms(1)] by (auto split: if_splits)
  show "q \<in> insert p B \<longleftrightarrow> (\<exists>j. q \<in> set ((f(i := ps)) j))" for q
    unfolding insert_iff ownsD(3) [OF assms(1)] fun_upd_apply
    using assms(4) by (metis insert_iff)
qed

lemma owns_move:
  assumes "owns f B" "i \<noteq> j"
  shows "owns (f(i := f i @ f j, j := [])) B"
proof (rule ownsI)
  show "distinct ((f(i := f i @ f j, j := [])) k)" for k
    using assms by (auto simp: ownsD(1) dest: ownsD(2))
  show "k = l" if "q \<in> set ((f(i := f i @ f j, j := [])) k)" "q \<in> set ((f(i := f i @ f j, j := [])) l)"
    for k l q
    using that assms(2) ownsD(2) [OF assms(1)] by (auto split: if_splits)
  show "q \<in> B \<longleftrightarrow> (\<exists>k. q \<in> set ((f(i := f i @ f j, j := [])) k))" for q
  proof
    assume "q \<in> B"
    then obtain k where "q \<in> set (f k)" unfolding ownsD(3) [OF assms(1)] by blast
    then show "\<exists>k. q \<in> set ((f(i := f i @ f j, j := [])) k)"
      using assms(2) by (cases "k = j") (auto intro: exI [of _ i] exI [of _ k])
  qed (auto simp: ownsD(3) [OF assms(1)] split: if_splits)
qed

section \<open>The invariant of the heap\<close>

fun segs :: "heap \<Rightarrow> owner \<Rightarrow> addr list" where
  "segs h (RegionOwner shared) =
     (case regions h shared of None \<Rightarrow> [] | Some region \<Rightarrow> start region # seg_list region)"
| "segs h (TxnOwner tx) = (case txns h tx of None \<Rightarrow> [] | Some txn \<Rightarrow> txn_seg_list txn)"

definition region_locks :: "heap \<Rightarrow> addr \<Rightarrow> addr list" where
  "region_locks h shared = (case regions h shared of None \<Rightarrow> [] | Some region \<Rightarrow> [locks region])"

definition blocks_apart :: "(addr \<rightharpoonup> nat) \<Rightarrow> bool" where
  "blocks_apart bs \<longleftrightarrow> (\<forall>p n. bs p = Some n \<longrightarrow> unat p + n < 2 ^ 64) \<and>
     (\<forall>p n q k. bs p = Some n \<longrightarrow> bs q = Some k \<longrightarrow> p \<noteq> q \<longrightarrow> \<not> overlaps p n q k)"

definition heap_ok :: "heap \<Rightarrow> bool" where
  "heap_ok h \<longleftrightarrow> 0 \<notin> dom (blocks h) \<and> 0 \<notin> dom (lock_arrays h) \<and>
     owns (segs h) (dom (blocks h)) \<and> owns (region_locks h) (dom (lock_arrays h)) \<and>
     blocks_apart (blocks h)"

lemma heap_okD:
  assumes "heap_ok h"
  shows "owns (segs h) (dom (blocks h))" "owns (region_locks h) (dom (lock_arrays h))"
    "blocks h 0 = None" "lock_arrays h 0 = None" "blocks_apart (blocks h)"
  using assms by (auto simp: heap_ok_def)

lemma heap_okI:
  assumes "blocks h 0 = None" "lock_arrays h 0 = None"
    "owns (segs h) (dom (blocks h))" "owns (region_locks h) (dom (lock_arrays h))"
    "blocks_apart (blocks h)"
  shows "heap_ok h"
  using assms by (auto simp: heap_ok_def)

lemma blocks_apart_restrict: "blocks_apart bs \<Longrightarrow> blocks_apart (bs |` A)"
  by (auto simp: blocks_apart_def restrict_map_def split: if_splits)

lemma restrict_None [simp]: "m x = None \<Longrightarrow> (m |` A) x = None"
  by (simp add: restrict_map_def)

lemma overlaps_sym: "overlaps p n q k \<longleftrightarrow> overlaps q k p n"
  by (auto simp: overlaps_def)

lemma blocks_apart_alloc:
  "blocks_apart (blocks h) \<Longrightarrow> block_ok h al n p \<Longrightarrow> blocks_apart ((blocks h)(p \<mapsto> n))"
  by (auto simp: blocks_apart_def block_ok_def dest: overlaps_sym [THEN iffD1] split: if_splits)

text \<open>Calls that change neither owners nor blocks keep the invariant.\<close>

lemma heap_ok_same:
  assumes "heap_ok h" "blocks h' = blocks h" "dom (lock_arrays h') = dom (lock_arrays h)"
    "segs h' = segs h" "region_locks h' = region_locks h"
  shows "heap_ok h'"
  using assms by (simp add: heap_ok_def)

lemma heap_ok_put_txn:
  assumes "heap_ok h" "txns h tx = Some txn" "txn_seg_list txn' = txn_seg_list txn"
  shows "heap_ok (put_txn tx txn' (h\<lparr>gvc := c, mem := m\<rparr>))"
proof (rule heap_ok_same [OF assms(1)])
  show "segs (put_txn tx txn' (h\<lparr>gvc := c, mem := m\<rparr>)) = segs h"
  proof
    fix i show "segs (put_txn tx txn' (h\<lparr>gvc := c, mem := m\<rparr>)) i = segs h i"
      using assms(2,3) by (cases i) (simp_all add: put_txn_def)
  qed
qed (simp_all add: put_txn_def region_locks_def fun_eq_iff)

section \<open>Freeing\<close>

lemma free_all_ok:
  assumes "distinct ps" "set ps \<subseteq> dom (blocks h)" "blocks h 0 = None"
  shows "free_all ps h = Inr (h\<lparr>blocks := blocks h |` (- set ps)\<rparr>)"
  using assms
proof (induction ps arbitrary: h)
  case Nil
  then show ?case by simp
next
  case (Cons p ps)
  have "p \<noteq> 0" using Cons.prems by auto
  moreover have "blocks h p \<noteq> None" using Cons.prems by auto
  ultimately have "free p h = Inr (h\<lparr>blocks := (blocks h)(p := None)\<rparr>)" by (simp add: free_def)
  moreover have "set ps \<subseteq> dom ((blocks h)(p := None))" using Cons.prems(1,2) by auto
  then have "free_all ps (h\<lparr>blocks := (blocks h)(p := None)\<rparr>)
      = Inr (h\<lparr>blocks := (blocks h)(p := None) |` (- set ps)\<rparr>)"
    using Cons.prems by (subst Cons.IH) simp_all
  moreover have "(blocks h)(p := None) |` (- set ps) = blocks h |` (- set (p # ps))"
    by (auto simp: restrict_map_def fun_eq_iff)
  ultimately show ?case by (simp del: fun_upd_restrict)
qed

text \<open>\<open>delete txn\<close> frees exactly what the transaction owns.\<close>

definition txn_deleted :: "addr \<Rightarrow> Transaction \<Rightarrow> heap \<Rightarrow> heap" where
  "txn_deleted tx txn h =
     h\<lparr>blocks := blocks h |` (- set (txn_seg_list txn)), txns := (txns h)(tx := None)\<rparr>"

lemma delete_txn_ok:
  assumes "heap_ok h" "txns h tx = Some txn"
  shows "delete_txn tx h = Inr (txn_deleted tx txn h)" "heap_ok (txn_deleted tx txn h)"
proof -
  note own = heap_okD(1) [OF assms(1)]
  have s: "segs h (TxnOwner tx) = txn_seg_list txn" using assms(2) by simp
  then have "distinct (txn_seg_list txn)" "set (txn_seg_list txn) \<subseteq> dom (blocks h)"
    using ownsD(1) [OF own] owns_subset [OF own] by metis+
  then show "delete_txn tx h = Inr (txn_deleted tx txn h)"
    using assms by (simp add: delete_txn_def txn_deleted_def free_all_ok heap_okD(3))
  have "segs (txn_deleted tx txn h) = (segs h)(TxnOwner tx := [])"
  proof
    fix i show "segs (txn_deleted tx txn h) i = ((segs h)(TxnOwner tx := [])) i"
      by (cases i) (simp_all add: txn_deleted_def)
  qed
  moreover have "dom (blocks (txn_deleted tx txn h)) = dom (blocks h) - set (segs h (TxnOwner tx))"
    using s by (auto simp: txn_deleted_def restrict_map_def split: if_splits)
  ultimately have "owns (segs (txn_deleted tx txn h)) (dom (blocks (txn_deleted tx txn h)))"
    using owns_drop [OF own] by metis
  moreover have "region_locks (txn_deleted tx txn h) = region_locks h"
    by (simp add: region_locks_def txn_deleted_def fun_eq_iff)
  ultimately show "heap_ok (txn_deleted tx txn h)"
    using heap_okD [OF assms(1)]
    by (intro heap_okI) (simp_all add: txn_deleted_def blocks_apart_restrict)
qed

lemma give_up_ok:
  assumes "heap_ok h" "txns h tx = Some txn"
  shows "give_up tx h = Inr (False, txn_deleted tx txn h)"
  by (simp add: give_up_def delete_txn_ok [OF assms])

lemma finish_ok:
  assumes "heap_ok h" "txns h tx = Some txn"
  shows "finish tx h = Inr (True, txn_deleted tx txn h)"
  by (simp add: finish_def delete_txn_ok [OF assms])

definition region_deleted :: "addr \<Rightarrow> MemoryRegion \<Rightarrow> heap \<Rightarrow> heap" where
  "region_deleted shared region h =
     h\<lparr>blocks := blocks h |` (- set (start region # seg_list region)),
       lock_arrays := (lock_arrays h)(locks region := None), regions := (regions h)(shared := None)\<rparr>"

lemma delete_region_ok:
  assumes "heap_ok h" "regions h shared = Some region"
  shows "delete_region shared h = Inr (region_deleted shared region h)"
    "heap_ok (region_deleted shared region h)"
proof -
  note own = heap_okD(1) [OF assms(1)] and lown = heap_okD(2) [OF assms(1)]
  have s: "segs h (RegionOwner shared) = start region # seg_list region"
    and l: "region_locks h shared = [locks region]"
    using assms(2) by (simp_all add: region_locks_def)
  have d: "distinct (start region # seg_list region)"
    "set (start region # seg_list region) \<subseteq> dom (blocks h)"
    using ownsD(1) [OF own] owns_subset [OF own] s by metis+
  have nz: "locks region \<noteq> 0" "lock_arrays h (locks region) \<noteq> None"
    using owns_subset [OF lown, of shared] l heap_okD(4) [OF assms(1)] by auto
  have st: "start region \<noteq> 0" using d(2) heap_okD(3) [OF assms(1)] by auto
  have "free_all (seg_list region) h = Inr (h\<lparr>blocks := blocks h |` (- set (seg_list region))\<rparr>)"
    using d heap_okD(3) [OF assms(1)] by (intro free_all_ok) auto
  moreover have "(blocks h |` (- set (seg_list region))) (start region) \<noteq> None" using d by auto
  moreover have "(blocks h |` (- set (seg_list region)))(start region := None)
      = blocks h |` (- set (start region # seg_list region))"
    by (auto simp: restrict_map_def fun_eq_iff)
  ultimately show "delete_region shared h = Inr (region_deleted shared region h)"
    using assms(2) nz st
    by (simp add: delete_region_def delete_locks_def free_def region_deleted_def)
  let ?h = "region_deleted shared region h"
  have "segs ?h = (segs h)(RegionOwner shared := [])"
  proof
    fix i show "segs ?h i = ((segs h)(RegionOwner shared := [])) i"
      by (cases i) (simp_all add: region_deleted_def)
  qed
  moreover have "dom (blocks ?h) = dom (blocks h) - set (segs h (RegionOwner shared))"
    unfolding s by (auto simp: region_deleted_def restrict_map_def split: if_splits)
  ultimately have o1: "owns (segs ?h) (dom (blocks ?h))" using owns_drop [OF own] by metis
  have "region_locks ?h = (region_locks h)(shared := [])"
    by (auto simp: region_locks_def region_deleted_def)
  moreover have "dom (lock_arrays ?h) = dom (lock_arrays h) - set (region_locks h shared)"
    unfolding l by (auto simp: region_deleted_def split: if_splits)
  ultimately have "owns (region_locks ?h) (dom (lock_arrays ?h))" using owns_drop [OF lown] by metis
  with o1 show "heap_ok ?h"
    using heap_okD [OF assms(1)]
    by (intro heap_okI) (simp_all add: region_deleted_def blocks_apart_restrict)
qed

section \<open>The calls keep ownership\<close>

lemma tm_begin_ok:
  assumes "heap_ok h" "tm_begin p shared ro h = (tx, h')"
  shows "heap_ok h'"
proof (cases "p \<noteq> 0 \<and> p \<noteq> invalid_tx \<and> txns h p = None")
  case True
  then have h': "h' = put_txn p (new_Transaction (gvc h) ro) h"
    using assms(2) by (auto simp: tm_begin_def)
  have "segs h' = segs h"
  proof
    fix i show "segs h' i = segs h i"
      using True by (cases i) (simp_all add: h' put_txn_def new_Transaction_def)
  qed
  then show ?thesis
    by (intro heap_ok_same [OF assms(1)]) (simp_all add: h' put_txn_def region_locks_def fun_eq_iff)
qed (use assms in \<open>auto simp: tm_begin_def\<close>)

lemma alloc_segs:
  assumes "heap_ok h" "txns h tx = Some txn" "block_ok h al sz p"
  shows "heap_ok (put_txn tx (txn\<lparr>txn_seg_list := txn_seg_list txn @ [p]\<rparr>)
    (h\<lparr>blocks := (blocks h)(p \<mapsto> sz), mem := m\<rparr>))" (is "heap_ok ?h")
proof -
  note own = heap_okD(1) [OF assms(1)]
  have p: "p \<notin> dom (blocks h)" "p \<noteq> 0" using assms(3) by (simp_all add: block_ok_def)
  have s: "segs h (TxnOwner tx) = txn_seg_list txn" using assms(2) by simp
  then have "p \<notin> set (txn_seg_list txn)" using p(1) owns_subset [OF own, of "TxnOwner tx"] by auto
  then have "owns ((segs h)(TxnOwner tx := txn_seg_list txn @ [p])) (insert p (dom (blocks h)))"
    using p own ownsD(1) [OF own, of "TxnOwner tx"] s by (intro owns_set) auto
  moreover have "segs ?h = (segs h)(TxnOwner tx := txn_seg_list txn @ [p])"
  proof
    fix i show "segs ?h i = ((segs h)(TxnOwner tx := txn_seg_list txn @ [p])) i"
      by (cases i) (simp_all add: put_txn_def)
  qed
  moreover have "region_locks ?h = region_locks h"
    by (simp add: region_locks_def put_txn_def fun_eq_iff)
  ultimately show ?thesis
    using heap_okD [OF assms(1)] p(2) blocks_apart_alloc [OF _ assms(3)]
    by (intro heap_okI) (simp_all add: put_txn_def)
qed

lemma tm_alloc_ok:
  assumes "heap_ok h" "txns h tx = Some txn" "regions h shared = Some region"
  shows "\<exists>r seg h'. tm_alloc p shared tx sz h = Inr (r, seg, h') \<and> heap_ok h'"
proof (cases "block_ok h (align region) sz p")
  case True
  then have "p \<noteq> 0" by (simp add: block_ok_def)
  with True show ?thesis
    using assms alloc_segs [OF assms(1,2) True]
    by (simp add: tm_alloc_def the_txn_def tm_align_def the_region_def aligned_alloc_def)
qed (use assms in \<open>simp add: tm_alloc_def the_txn_def tm_align_def the_region_def aligned_alloc_def\<close>)

text \<open>Some word of a write, from offset \<open>i\<close> on, gets no buffer.\<close>

definition unwritten_words :: "(nat \<Rightarrow> bool) \<Rightarrow> nat \<Rightarrow> nat \<Rightarrow> nat \<Rightarrow> bool" where
  "unwritten_words ok w sz i \<longleftrightarrow> 0 < w \<and> (\<exists>k. i + k * w < sz \<and> \<not> ok (i + k * w))"

lemma unwritten_words_step:
  "unwritten_words ok w sz i \<longleftrightarrow> 0 < w \<and> i < sz \<and> (\<not> ok i \<or> unwritten_words ok w sz (i + w))"
proof
  assume u: "unwritten_words ok w sz i"
  then obtain k where k: "0 < w" "i + k * w < sz" "\<not> ok (i + k * w)" by (auto simp: unwritten_words_def)
  show "0 < w \<and> i < sz \<and> (\<not> ok i \<or> unwritten_words ok w sz (i + w))"
  proof (cases k)
    case (Suc j)
    then have "i + w + j * w < sz" "\<not> ok (i + w + j * w)" using k by (simp_all add: algebra_simps)
    then show ?thesis using k(1,2) unfolding unwritten_words_def by (intro conjI disjI2 exI [of _ j]) simp_all
  qed (use k in simp)
next
  assume a: "0 < w \<and> i < sz \<and> (\<not> ok i \<or> unwritten_words ok w sz (i + w))"
  then consider "0 < w" "i < sz" "\<not> ok i" | j where "0 < w" "i + w + j * w < sz" "\<not> ok (i + w + j * w)"
    by (auto simp: unwritten_words_def)
  then show "unwritten_words ok w sz i"
  proof cases
    case 1
    then show ?thesis unfolding unwritten_words_def by (intro conjI exI [of _ 0]) simp_all
  next
    case (2 j)
    then show ?thesis unfolding unwritten_words_def by (intro conjI exI [of _ "Suc j"]) (simp_all add: algebra_simps)
  qed
qed

lemma write_words_outcome:
  "if unwritten_words ok w sz i then write_words ok m w source target sz i ws = Inl NullWrite
   else \<exists>ws'. write_words ok m w source target sz i ws = Inr ws'"
proof (induction ok m w source target sz i ws rule: write_words.induct)
  case (1 ok m w source target sz i ws)
  show ?case
  proof (cases "i < sz \<and> 0 < w")
    case True
    then have "write_words ok m w source target sz i ws =
        (if ok i then write_words ok m w source target sz (i + w)
           (ws(target + of_nat i \<mapsto> load_bytes m (source + of_nat i) w)) else Inl NullWrite)"
      by (subst write_words.simps) (simp add: new_WriteOperation_def del: fun_upd_apply)
    then show ?thesis using "1.IH" [OF True] True unwritten_words_step [of ok w sz i] by auto
  next
    case False
    then have "write_words ok m w source target sz i ws = Inr ws" by (subst write_words.simps) auto
    then show ?thesis using False unwritten_words_step [of ok w sz i] by auto
  qed
qed

lemma read_loops_segs:
  "txn_seg_list (fst (snd (read_ro_loop w ls txn source target sz i m))) = txn_seg_list txn"
  "txn_seg_list (fst (snd (read_rw_loop w ls txn source target sz i m))) = txn_seg_list txn"
proof -
  show "txn_seg_list (fst (snd (read_ro_loop w ls txn source target sz i m))) = txn_seg_list txn"
  proof (induction w ls txn source target sz i m rule: read_ro_loop.induct)
    case (1 w ls txn source target sz i m)
    then show ?case by (subst read_ro_loop.simps) (auto simp: Let_def)
  qed
  show "txn_seg_list (fst (snd (read_rw_loop w ls txn source target sz i m))) = txn_seg_list txn"
  proof (induction w ls txn source target sz i m rule: read_rw_loop.induct)
    case (1 w ls txn source target sz i m)
    then show ?case by (subst read_rw_loop.simps) (auto simp: Let_def)
  qed
qed

lemma region_locks_present:
  assumes "heap_ok h" "regions h shared = Some region"
  shows "\<exists>ls. lock_arrays h (locks region) = Some ls"
proof -
  have "locks region \<in> set (region_locks h shared)" using assms(2) by (simp add: region_locks_def)
  then show ?thesis using owns_subset [OF heap_okD(2) [OF assms(1)], of shared] by auto
qed

lemma tm_read_ok:
  assumes "heap_ok h" "txns h tx = Some txn" "regions h shared = Some region"
  shows "\<exists>b h'. tm_read shared tx source sz target h = Inr (b, h') \<and> heap_ok h'"
proof -
  obtain ls where ls: "lock_arrays h (locks region) = Some ls"
    using region_locks_present [OF assms(1,3)] by blast
  let ?loop = "if is_ro txn then read_ro_loop else read_rw_loop"
  obtain ok txn' m where l: "?loop (align region) ls txn source target sz 0 (mem h) = (ok, txn', m)"
    by (metis prod_cases3)
  then have "txn_seg_list txn' = txn_seg_list txn"
    using read_loops_segs [of "align region" ls txn source target sz 0 "mem h"]
    by (auto split: if_splits)
  then have hok: "heap_ok (put_txn tx txn' (h\<lparr>mem := m\<rparr>))"
    using heap_ok_put_txn [OF assms(1,2), where txn' = txn' and m = m and c = "gvc h"] by simp
  moreover have t: "txns (put_txn tx txn' (h\<lparr>mem := m\<rparr>)) tx = Some txn'" by (simp add: put_txn_def)
  ultimately show ?thesis
    using assms l ls give_up_ok [OF hok t] delete_txn_ok(2) [OF hok t]
    by (cases ok) (auto simp: tm_read_def the_txn_def the_region_def the_locks_def split: if_splits)
qed

lemma tm_write_ok:
  assumes "heap_ok h" "txns h tx = Some txn" "regions h shared = Some region" "\<not> unwritten_words ok (align region) sz 0"
  shows "\<exists>h'. tm_write ok shared tx source sz target h = Inr (True, h') \<and> heap_ok h'"
proof -
  obtain ws where "write_words ok (mem h) (align region) source target sz 0 (write_set txn) = Inr ws"
    using write_words_outcome [of ok "align region" sz 0 "mem h" source target "write_set txn"] assms(4) by auto
  then show ?thesis
    using assms heap_ok_put_txn [OF assms(1,2), where txn' = "txn\<lparr>write_set := ws\<rparr>" and m = "mem h" and c = "gvc h"]
    by (simp add: tm_write_def the_txn_def tm_align_def the_region_def)
qed

lemma heap_ok_put_locks:
  assumes "heap_ok h" "lock_arrays h (locks region) = Some ls0"
  shows "heap_ok (put_locks region ls h)"
proof (rule heap_ok_same [OF assms(1)])
  show "segs (put_locks region ls h) = segs h"
  proof
    fix i show "segs (put_locks region ls h) i = segs h i"
      by (cases i) (simp_all add: put_locks_def)
  qed
qed (use assms(2) in \<open>auto simp: put_locks_def region_locks_def fun_eq_iff\<close>)

text \<open>The splice of \<open>tm_end\<close>: the region takes over the segments of the transaction.\<close>

lemma heap_ok_splice:
  assumes "heap_ok h" "txns h tx = Some txn" "regions h shared = Some region"
  shows "heap_ok (put_txn tx (txn\<lparr>txn_seg_list := []\<rparr>)
    (put_region shared (region\<lparr>seg_list := seg_list region @ txn_seg_list txn\<rparr>) h))"
    (is "heap_ok ?h")
proof -
  have "segs ?h = (segs h)(RegionOwner shared := segs h (RegionOwner shared) @ segs h (TxnOwner tx),
      TxnOwner tx := [])" (is "_ = ?f")
  proof
    fix i show "segs ?h i = ?f i" using assms(2,3) by (cases i) (simp_all add: put_txn_def put_region_def)
  qed
  moreover have "region_locks ?h = region_locks h"
    using assms(3) by (simp add: region_locks_def put_txn_def put_region_def fun_eq_iff)
  ultimately show ?thesis
    using heap_okD [OF assms(1)] owns_move [OF heap_okD(1) [OF assms(1)], of "RegionOwner shared" "TxnOwner tx"]
    by (intro heap_okI) (simp_all add: put_txn_def put_region_def)
qed

lemma finish_heap_ok:
  assumes "heap_ok h" "txns h tx = Some txn"
  shows "\<exists>b h'. finish tx h = Inr (b, h') \<and> heap_ok h'" "\<exists>b h'. give_up tx h = Inr (b, h') \<and> heap_ok h'"
  using finish_ok [OF assms] give_up_ok [OF assms] delete_txn_ok(2) [OF assms] by blast+

lemma tm_end_ok:
  assumes "heap_ok h" "txns h tx = Some txn" "regions h shared = Some region"
  shows "\<exists>b h'. tm_end sp ws_order rs_order shared tx h = Inr (b, h') \<and> heap_ok h'"
proof -
  obtain ls0 where ls0: "lock_arrays h (locks region) = Some ls0"
    using region_locks_present [OF assms(1,3)] by blast
  obtain locked ls held where l: "lock_write_set sp ws_order ls0 [] = (locked, ls, held)"
    by (metis prod_cases3)
  obtain m ls' where wb: "write_back_all (write_set txn) (gvc h + 1) ws_order (mem h) ls = (m, ls')"
    by (metis surj_pair)
  let ?h1 = "h\<lparr>gvc := gvc h + 1, mem := m\<rparr>"
  have same: "heap_ok (h\<lparr>gvc := c, mem := m'\<rparr>)" for m' c
    using heap_ok_put_txn [OF assms(1,2), where txn' = txn and m = m' and c = c] assms(2) by (simp add: put_txn_def fun_upd_idem)
  have abort: "\<exists>b h'. give_up tx (put_locks region ls'' (h\<lparr>gvc := c\<rparr>)) = Inr (b, h') \<and> heap_ok h'" for ls'' c
    using same [where m' = "mem h" and c = c] heap_ok_put_locks [of "h\<lparr>gvc := c\<rparr>" region ls0 ls''] ls0 assms(2)
    by (intro finish_heap_ok(2) [of _ _ txn]) (simp_all add: put_locks_def)
  have "heap_ok (put_locks region ls' ?h1)"
    using same ls0 by (intro heap_ok_put_locks) simp_all
  then have "heap_ok (put_txn tx (txn\<lparr>txn_seg_list := []\<rparr>) (put_region shared
      (region\<lparr>seg_list := seg_list region @ txn_seg_list txn\<rparr>) (put_locks region ls' ?h1)))"
    using assms(2,3) by (intro heap_ok_splice) (simp_all add: put_locks_def)
  then have commit: "\<exists>b h'. finish tx (put_txn tx (txn\<lparr>txn_seg_list := []\<rparr>) (put_region shared
      (region\<lparr>seg_list := seg_list region @ txn_seg_list txn\<rparr>) (put_locks region ls' ?h1)))
      = Inr (b, h') \<and> heap_ok h'"
    by (rule finish_heap_ok(1) [of _ _ "txn\<lparr>txn_seg_list := []\<rparr>"]) (simp add: put_txn_def)
  show ?thesis
    using assms ls0 l wb abort [of _ "gvc h"] abort [of _ "gvc h + 1"] commit
      finish_heap_ok(1) [OF assms(1,2)]
    by (simp add: tm_end_def the_txn_def the_region_def the_locks_def Let_def)
qed

text \<open>A new region that got all its allocations.\<close>

lemma create_ok:
  assumes "heap_ok h" "p_region \<noteq> 0" "regions h p_region = None" "p_locks \<noteq> 0"
    "lock_arrays h p_locks = None" "block_ok h al sz p_start"
  defines "R \<equiv> \<lparr>seg_list = [], region_size = sz, align = al, locks = p_locks, start = p_start\<rparr>"
  shows "tm_create p_region p_locks p_start sz al h = Inr (p_region, put_region p_region R
      (h\<lparr>blocks := (blocks h)(p_start \<mapsto> sz), mem := memset (mem h) p_start 0 sz,
        lock_arrays := (lock_arrays h)(p_locks \<mapsto> (\<lambda>_. vl_new))\<rparr>))"
    "heap_ok (put_region p_region R
      (h\<lparr>blocks := (blocks h)(p_start \<mapsto> sz), mem := m,
        lock_arrays := (lock_arrays h)(p_locks \<mapsto> (\<lambda>_. vl_new))\<rparr>))" (is "heap_ok ?h")
proof -
  have p: "p_start \<noteq> 0" "p_start \<notin> dom (blocks h)" using assms(6) by (simp_all add: block_ok_def)
  have b: "block_ok (put_region p_region r (put_region p_region r' (h\<lparr>lock_arrays := la\<rparr>))) al sz p_start
      = block_ok h al sz p_start" for r r' la
    by (simp add: block_ok_def put_region_def)
  show "tm_create p_region p_locks p_start sz al h = Inr (p_region, put_region p_region R
      (h\<lparr>blocks := (blocks h)(p_start \<mapsto> sz), mem := memset (mem h) p_start 0 sz,
        lock_arrays := (lock_arrays h)(p_locks \<mapsto> (\<lambda>_. vl_new))\<rparr>))"
    using assms(2-6) p
    by (simp add: tm_create_def new_region_def new_locks_def aligned_alloc_def Let_def
        new_MemoryRegion_def R_def put_region_def block_ok_def)
  have "segs ?h = (segs h)(RegionOwner p_region := [p_start])" (is "_ = ?f")
  proof
    fix i show "segs ?h i = ?f i" by (cases i) (simp_all add: put_region_def R_def)
  qed
  moreover have "owns ?f (insert p_start (dom (blocks h)))"
    using heap_okD(1) [OF assms(1)] p(2) assms(3) by (intro owns_set) simp_all
  moreover have "region_locks ?h = (region_locks h)(p_region := [p_locks])"
    by (auto simp: region_locks_def put_region_def R_def)
  moreover have "owns ((region_locks h)(p_region := [p_locks])) (insert p_locks (dom (lock_arrays h)))"
    using heap_okD(2) [OF assms(1)] assms(3,5) by (intro owns_set) (auto simp: region_locks_def)
  ultimately show "heap_ok ?h"
    using heap_okD [OF assms(1)] p(1) assms(4) blocks_apart_alloc [OF _ assms(6)]
    by (intro heap_okI) (simp_all add: put_region_def)
qed

section \<open>Clients: any sequence of calls\<close>

text \<open>The calls of the interface \<open>include/tm.hpp\<close>, with the allocator's choices.\<close>

datatype api_call =
    CallCreate addr addr addr nat nat
  | CallDestroy addr
  | CallBegin addr addr bool
  | CallEnd "addr \<Rightarrow> bool" "addr list" "addr list" addr addr
  | CallRead addr addr addr nat addr
  | CallWrite "nat \<Rightarrow> bool" addr addr addr nat addr
  | CallAlloc addr addr addr nat
  | CallFree addr addr addr

fun do_call :: "api_call \<Rightarrow> heap \<Rightarrow> fault + heap" where
  "do_call (CallCreate pr pl ps sz al) h = map_sum id snd (tm_create pr pl ps sz al h)"
| "do_call (CallDestroy shared) h = tm_destroy shared h"
| "do_call (CallBegin p shared ro) h = Inr (snd (tm_begin p shared ro h))"
| "do_call (CallEnd sp ws rs shared tx) h = map_sum id snd (tm_end sp ws rs shared tx h)"
| "do_call (CallRead shared tx source sz target) h =
     map_sum id snd (tm_read shared tx source sz target h)"
| "do_call (CallWrite ok shared tx source sz target) h =
     map_sum id snd (tm_write ok shared tx source sz target h)"
| "do_call (CallAlloc p shared tx sz) h = map_sum id (snd \<circ> snd) (tm_alloc p shared tx sz h)"
| "do_call (CallFree shared tx target) h = Inr (snd (tm_free shared tx target h))"

text \<open>What a client must respect: the handles it passes are live. What the allocator does is left open.\<close>

fun call_valid :: "heap \<Rightarrow> api_call \<Rightarrow> bool" where
  "call_valid h (CallCreate pr pl ps sz al) \<longleftrightarrow> True"
| "call_valid h (CallDestroy shared) \<longleftrightarrow> regions h shared \<noteq> None"
| "call_valid h (CallBegin p shared ro) \<longleftrightarrow> True"
| "call_valid h (CallEnd sp ws rs shared tx) \<longleftrightarrow> regions h shared \<noteq> None \<and> txns h tx \<noteq> None"
| "call_valid h (CallRead shared tx source sz target) \<longleftrightarrow> regions h shared \<noteq> None \<and> txns h tx \<noteq> None"
| "call_valid h (CallWrite ok shared tx source sz target) \<longleftrightarrow>
     regions h shared \<noteq> None \<and> txns h tx \<noteq> None"
| "call_valid h (CallAlloc p shared tx sz) \<longleftrightarrow> regions h shared \<noteq> None \<and> txns h tx \<noteq> None"
| "call_valid h (CallFree shared tx target) \<longleftrightarrow> True"

text \<open>
  The allocations whose failure the library does not survive: the last one of \<open>tm_create\<close>, after which
  it deletes the array of locks twice, and the buffer of a written word, which the constructor of
  \<open>WriteOperation\<close> fills without a look at the pointer.
\<close>

fun call_faults :: "heap \<Rightarrow> api_call \<Rightarrow> fault option" where
  "call_faults h (CallCreate pr pl ps sz al) =
     (if pr \<noteq> 0 \<and> regions h pr = None \<and> pl \<noteq> 0 \<and> lock_arrays h pl = None \<and> \<not> block_ok h al sz ps
      then Some (BadFree pl) else None)"
| "call_faults h (CallWrite ok shared tx source sz target) =
     (case regions h shared of None \<Rightarrow> None
      | Some region \<Rightarrow> if unwritten_words ok (align region) sz 0 then Some NullWrite else None)"
| "call_faults h c = None"

lemma create_fail_region:
  "pr = 0 \<or> regions h pr \<noteq> None \<Longrightarrow> tm_create pr pl ps sz al h = Inr (0, h)"
  by (auto simp: tm_create_def new_region_def Let_def)

lemma create_fail_locks:
  assumes "pr \<noteq> 0" "regions h pr = None" "pl = 0 \<or> lock_arrays h pl \<noteq> None"
  shows "tm_create pr pl ps sz al h = Inr (0, h)"
proof -
  have "(regions h)(pr := None) = regions h" using assms(2) by (simp add: fun_upd_idem)
  then show ?thesis
    using assms
    by (auto simp: tm_create_def new_region_def new_locks_def Let_def put_region_def
        delete_region_def new_MemoryRegion_def delete_locks_def free_def)
qed

text \<open>When the last allocation of \<open>tm_create\<close> fails, the call deletes the lock array and then
  deletes the region, whose destructor deletes the same array again: a double delete.\<close>

lemma create_double_delete:
  assumes "p_region \<noteq> 0" "regions h p_region = None" "p_locks \<noteq> 0" "lock_arrays h p_locks = None"
    and "\<not> block_ok h al sz p_start"
  shows "tm_create p_region p_locks p_start sz al h = Inl (BadFree p_locks)"
  using assms
  by (simp add: tm_create_def new_region_def new_locks_def Let_def put_region_def aligned_alloc_def
      block_ok_def delete_region_def new_MemoryRegion_def delete_locks_def)

lemma write_null_buffer:
  assumes "txns h tx = Some txn" "regions h shared = Some region" "unwritten_words ok (align region) sz 0"
  shows "tm_write ok shared tx source sz target h = Inl NullWrite"
  using assms write_words_outcome [of ok "align region" sz 0 "mem h" source target "write_set txn"]
  by (simp add: tm_write_def the_txn_def tm_align_def the_region_def)

lemma do_call_outcome:
  assumes "heap_ok h" "call_valid h c"
  shows "case call_faults h c of Some e \<Rightarrow> do_call c h = Inl e | None \<Rightarrow> \<exists>h'. do_call c h = Inr h' \<and> heap_ok h'"
proof (cases c)
  case (CallCreate pr pl ps sz al)
  consider "pr = 0 \<or> regions h pr \<noteq> None"
    | "pr \<noteq> 0" "regions h pr = None" "pl = 0 \<or> lock_arrays h pl \<noteq> None"
    | "pr \<noteq> 0" "regions h pr = None" "pl \<noteq> 0" "lock_arrays h pl = None" "block_ok h al sz ps"
    | "pr \<noteq> 0" "regions h pr = None" "pl \<noteq> 0" "lock_arrays h pl = None" "\<not> block_ok h al sz ps"
    by blast
  then show ?thesis
  proof cases
    case 3
    then show ?thesis
      using CallCreate create_ok(1) [OF assms(1) 3]
        create_ok(2) [OF assms(1) 3, where m = "memset (mem h) ps 0 sz"] by simp
  next
    case 4
    then show ?thesis using CallCreate create_double_delete [OF 4] by simp
  qed (use CallCreate create_fail_region create_fail_locks assms(1) in \<open>auto\<close>)
next
  case (CallDestroy shared)
  then show ?thesis using assms delete_region_ok [OF assms(1)] by (auto simp: tm_destroy_def)
next
  case (CallBegin p shared ro)
  then show ?thesis using tm_begin_ok [OF assms(1)] by (simp add: prod_eq_iff)
next
  case (CallEnd sp ws rs shared tx)
  then show ?thesis using assms tm_end_ok [OF assms(1), of tx _ shared _ sp ws rs] by fastforce
next
  case (CallRead shared tx source sz target)
  then show ?thesis using assms tm_read_ok [OF assms(1), of tx _ shared _ source sz target] by fastforce
next
  case (CallWrite ok shared tx source sz target)
  then obtain txn region where "txns h tx = Some txn" "regions h shared = Some region" using assms(2) by auto
  then show ?thesis
    using CallWrite tm_write_ok [OF assms(1), of tx txn shared region ok sz source target]
      write_null_buffer [of h tx txn shared region ok sz source target] by auto
next
  case (CallAlloc p shared tx sz)
  then show ?thesis using assms tm_alloc_ok [OF assms(1), of tx _ shared _ p sz] by fastforce
qed (use assms in \<open>simp add: tm_free_def\<close>)

definition empty_heap :: "memory \<Rightarrow> heap" where
  "empty_heap m = \<lparr>gvc = 0, mem = m, blocks = Map.empty, lock_arrays = Map.empty,
     regions = Map.empty, txns = Map.empty\<rparr>"

inductive client_heap :: "memory \<Rightarrow> heap \<Rightarrow> bool" for m where
  initial: "client_heap m (empty_heap m)"
| call: "client_heap m h \<Longrightarrow> call_valid h c \<Longrightarrow> do_call c h = Inr h' \<Longrightarrow> client_heap m h'"

lemma empty_heap_ok: "heap_ok (empty_heap m)"
proof -
  have "segs (empty_heap m) i = []" for i by (cases i) (simp_all add: empty_heap_def)
  then show ?thesis
    by (auto simp: heap_ok_def owns_def region_locks_def blocks_apart_def empty_heap_def)
qed

lemma client_heap_ok: "client_heap m h \<Longrightarrow> heap_ok h"
proof (induction rule: client_heap.induct)
  case (call h c h')
  then show ?case using do_call_outcome [OF call.IH call.hyps(2)] by (auto split: option.splits)
qed (rule empty_heap_ok)

section \<open>A heap with one region\<close>

definition demo_heap :: heap where
  "demo_heap = put_region 16
     \<lparr>seg_list = [], region_size = 64, align = 8, locks = 32, start = 4096\<rparr>
     (empty_heap (\<lambda>_. 7)\<lparr>blocks := [4096 \<mapsto> 64], mem := memset (\<lambda>_. 7) 4096 0 64,
        lock_arrays := [32 \<mapsto> (\<lambda>_. vl_new)]\<rparr>)"

lemma demo_create:
  "tm_create 16 32 4096 64 8 (empty_heap (\<lambda>_. 7)) = Inr (16, demo_heap)"
proof -
  have "block_ok (empty_heap (\<lambda>_. 7)) 8 64 4096"
    by (simp add: block_ok_def empty_heap_def word_aligned_def)
  then show ?thesis
    using create_ok(1) [OF empty_heap_ok [of "\<lambda>_. 7"], of 16 32 8 64 4096]
    by (simp add: demo_heap_def empty_heap_def)
qed

lemma demo_client_heap: "client_heap (\<lambda>_. 7) demo_heap"
proof (rule client_heap.call [OF client_heap.initial])
  show "do_call (CallCreate 16 32 4096 64 8) (empty_heap (\<lambda>_. 7)) = Inr demo_heap"
    by (simp add: demo_create)
  show "call_valid (empty_heap (\<lambda>_. 7)) (CallCreate 16 32 4096 64 8)"
    by (simp add: block_ok_def empty_heap_def word_aligned_def)
qed

lemma demo_heap_simps [simp]:
  "regions demo_heap = [16 \<mapsto> \<lparr>seg_list = [], region_size = 64, align = 8, locks = 32, start = 4096\<rparr>]"
  "txns demo_heap = Map.empty" "blocks demo_heap = [4096 \<mapsto> 64]"
  "lock_arrays demo_heap = [32 \<mapsto> (\<lambda>_. vl_new)]" "gvc demo_heap = 0"
  "mem demo_heap = memset (\<lambda>_. 7) 4096 0 64"
  by (simp_all add: demo_heap_def put_region_def empty_heap_def)

section \<open>Properties\<close>



text \<open>C17: no leak and no sharing: in every heap a client reaches, each raw block belongs to exactly
  one region or running transaction, blocks do not overlap, and when no region and no
  transaction is left no block and no lock array is left either.\<close>

theorem every_block_owned_once:
  assumes "client_heap m h"
  shows "(blocks h p \<noteq> None \<longleftrightarrow> (\<exists>!i. p \<in> set (segs h i))) \<and> distinct (segs h i) \<and>
    (blocks h p = Some n \<and> blocks h q = Some k \<and> p \<noteq> q \<longrightarrow> \<not> overlaps p n q k) \<and>
    (regions h = Map.empty \<and> txns h = Map.empty \<longrightarrow>
       blocks h = Map.empty \<and> lock_arrays h = Map.empty)"
proof -
  have ok: "heap_ok h" by (rule client_heap_ok [OF assms])
  note own = heap_okD(1) [OF ok]
  have "blocks h p \<noteq> None \<longleftrightarrow> (\<exists>i. p \<in> set (segs h i))"
    using ownsD(3) [OF own, of p] by blast
  then have "blocks h p \<noteq> None \<longleftrightarrow> (\<exists>!i. p \<in> set (segs h i))" using ownsD(2) [OF own] by blast
  moreover have "blocks h = Map.empty \<and> lock_arrays h = Map.empty"
    if e: "regions h = Map.empty" "txns h = Map.empty"
  proof -
    have "segs h i = []" for i using e by (cases i) simp_all
    then have "dom (blocks h) = {}" using ownsD(3) [OF own] by auto
    moreover have "dom (lock_arrays h) = {}"
      using ownsD(3) [OF heap_okD(2) [OF ok]] e by (auto simp: region_locks_def)
    ultimately show ?thesis by simp
  qed
  ultimately show ?thesis
    using ownsD(1) [OF own] heap_okD(5) [OF ok] unfolding blocks_apart_def by blast
qed

theorem every_block_owned_once_witness:
  "blocks demo_heap 4096 \<noteq> None \<and> (\<exists>!i. 4096 \<in> set (segs demo_heap i))"
proof -
  have "blocks demo_heap 4096 \<noteq> None" by simp
  with every_block_owned_once [OF demo_client_heap, of 4096] show ?thesis by blast
qed

end
