(* ===== verification/TM_Semantics.thy ===== *)
theory TM_Semantics
  imports TM_Ownership
begin

text \<open>
  What the calls mean to a client: a transaction sees memory with its own writes on top, reads
  return that view word by word, writes update it, a committing \<open>tm_end\<close> makes it the memory
  and stamps the stripes, and an aborting one leaves memory and locks as they were.
\<close>

section \<open>The view of a transaction\<close>

definition view :: "nat \<Rightarrow> memory \<Rightarrow> write_map \<Rightarrow> addr \<Rightarrow> bytes" where
  "view w m ws a = (case ws a of None \<Rightarrow> load_bytes m a w | Some v \<Rightarrow> v)"

lemma view_cong: "load_bytes m a w = load_bytes m' a w \<Longrightarrow> view w m ws a = view w m' ws a"
  by (simp add: view_def split: option.split)

text \<open>Blocks that do not wrap around the address space.\<close>

definition buffer :: "addr \<Rightarrow> nat \<Rightarrow> bool" where
  "buffer a n \<longleftrightarrow> unat a + n \<le> 2 ^ 64"

lemma unat_add_small: "unat a + k < 2 ^ 64 \<Longrightarrow> unat (a + of_nat k :: addr) = unat a + k"
proof -
  assume a: "unat a + k < 2 ^ 64"
  then have "unat (of_nat k :: addr) = k" by (intro unat_of_nat_64) simp
  with a show ?thesis using unat_word_ariths(1) [of a "of_nat k"] by simp
qed

lemma in_block_buffer:
  assumes "buffer a n"
  shows "in_block a n x \<longleftrightarrow> unat a \<le> unat x \<and> unat x < unat a + n"
proof -
  have x: "unat x < 2 ^ 64" "unat a < 2 ^ 64" by (rule unat_addr_less)+
  show ?thesis
  proof (cases "unat a \<le> unat x")
    case True
    then have "unat (x - a) = unat x - unat a" by (simp add: unat_sub_if')
    with True show ?thesis by (auto simp: in_block_def)
  next
    case False
    then have "unat (x - a) = unat x + 2 ^ 64 - unat a" by (simp add: unat_sub_if')
    with False assms x show ?thesis by (simp add: in_block_def buffer_def)
  qed
qed

lemma buffer_part:
  assumes "buffer a n" "k + j \<le> n" "0 < j"
  shows "buffer (a + of_nat k) j"
    and "in_block (a + of_nat k) j x \<longleftrightarrow> unat a + k \<le> unat x \<and> unat x < unat a + k + j"
proof -
  have "unat (a + of_nat k) = unat a + k" using assms by (intro unat_add_small) (simp add: buffer_def)
  moreover from this show b: "buffer (a + of_nat k) j" using assms by (simp add: buffer_def)
  ultimately show "in_block (a + of_nat k) j x \<longleftrightarrow> unat a + k \<le> unat x \<and> unat x < unat a + k + j"
    by (simp add: in_block_buffer)
qed

lemma restrict_UNIV [simp]: "m |` UNIV = m"
  by (simp add: restrict_map_def)

section \<open>Word-by-word copies\<close>

text \<open>Both loops of \<open>tm_read\<close> copy the view, if no check fails.\<close>

function copy_view ::
  "nat \<Rightarrow> write_map \<Rightarrow> addr \<Rightarrow> addr \<Rightarrow> nat \<Rightarrow> nat \<Rightarrow> memory \<Rightarrow> memory" where
  "copy_view w ws source target sz i m =
     (if i < sz \<and> 0 < w
      then copy_view w ws source target sz (i + w)
             (store_bytes m (target + of_nat i) (view w m ws (source + of_nat i)))
      else m)"
  by pat_completeness auto
termination
  by (relation "measure (\<lambda>(w, ws, s, t, sz, i, m). sz - i)") auto

declare copy_view.simps [simp del]

text \<open>Every stripe under the source is free and not newer than the read version.\<close>

definition readable :: "(nat \<Rightarrow> lock_word) \<Rightarrow> 64 word \<Rightarrow> addr \<Rightarrow> bool" where
  "readable ls r a \<longleftrightarrow> \<not> vl_isLocked (ls (lock_index a)) \<and> vl_getVersion (ls (lock_index a)) \<le> r"

lemma read_ro_loop_copy:
  assumes "\<And>k. k \<in> offsets_from w sz i \<Longrightarrow> readable ls (rv x) (source + of_nat k)"
  shows "read_ro_loop w ls x source target sz i m =
    (True, x, copy_view w Map.empty source target sz i m)"
  using assms
proof (induction w ls x source target sz i m rule: read_ro_loop.induct)
  case (1 w ls x source target sz i m)
  show ?case
  proof (cases "i < sz \<and> 0 < w")
    case True
    then have off: "offsets_from w sz i = insert i (offsets_from w sz (i + w))"
      by (simp add: offsets_from_step)
    have "readable ls (rv x) (source + of_nat i)" using 1 off by blast
    then have r: "\<not> vl_isLocked (ls (lock_index (source + of_nat i)))"
      "\<not> vl_getVersion (ls (lock_index (source + of_nat i))) > rv x"
      by (auto simp: readable_def not_less)
    from True r "1.IH" [OF True refl refl refl refl _ refl refl] "1.prems" off show ?thesis
      by (subst read_ro_loop.simps, subst copy_view.simps)
         (simp add: Let_def memcpy_def view_def)
  next
    case False
    then show ?thesis by (subst read_ro_loop.simps, subst copy_view.simps) auto
  qed
qed

lemma read_rw_loop_copy:
  assumes "\<And>k. k \<in> offsets_from w sz i \<Longrightarrow> readable ls (rv x) (source + of_nat k)"
  shows "read_rw_loop w ls x source target sz i m =
    (True,
     x\<lparr>read_set := read_set x \<union> (\<lambda>k. source + of_nat k) ` (if 0 < w then offsets_from w sz i else {})\<rparr>,
     copy_view w (write_set x) source target sz i m)"
  using assms
proof (induction w ls x source target sz i m rule: read_rw_loop.induct)
  case (1 w ls x source target sz i m)
  show ?case
  proof (cases "i < sz \<and> 0 < w")
    case True
    then have off: "offsets_from w sz i = insert i (offsets_from w sz (i + w))"
      by (simp add: offsets_from_step)
    have "readable ls (rv x) (source + of_nat i)" using 1 off by blast
    then have r: "\<not> vl_isLocked (ls (lock_index (source + of_nat i)))"
      "\<not> vl_getVersion (ls (lock_index (source + of_nat i))) > rv x"
      by (auto simp: readable_def not_less)
    have s: "(case write_set x (source + of_nat i) of
        Some val \<Rightarrow> store_bytes m (target + of_nat i) val
      | None \<Rightarrow> memcpy m (target + of_nat i) (source + of_nat i) w)
      = store_bytes m (target + of_nat i) (view w m (write_set x) (source + of_nat i))"
      by (simp add: view_def memcpy_def split: option.split)
    from True r "1.IH" [OF True refl refl refl refl _ refl refl] "1.prems" off s show ?thesis
      by (subst read_rw_loop.simps, subst copy_view.simps) (simp add: Let_def)
  next
    case False
    then have "offsets_from w sz i = {} \<or> w = 0" by (auto simp: offsets_from_def)
    with False show ?thesis by (subst read_rw_loop.simps, subst copy_view.simps) auto
  qed
qed

lemma offset_fits:
  assumes "k \<in> offsets_from w sz i" "w dvd sz" "w dvd i"
  shows "i \<le> k" "w dvd k" "k + w \<le> sz"
proof -
  have k: "i \<le> k" "k < sz" "w dvd k - i" using assms(1) by (auto simp: offsets_from_def)
  then show "i \<le> k" by simp
  show "w dvd k" using k(1,3) assms(3) dvd_diffD1 dvd_diffD by blast
  then have "w dvd sz - k" using assms(2) k(2) by (intro dvd_diff_nat)
  then have "w \<le> sz - k" using k(2) by (intro dvd_imp_le) simp_all
  then show "k + w \<le> sz" using k(2) by simp
qed

lemma view_length:
  "(\<And>a v. ws a = Some v \<Longrightarrow> length v = w) \<Longrightarrow> length (view w m ws a) = w"
  by (simp add: view_def split: option.split)

lemma copy_view_outside:
  assumes "0 < w" "w dvd sz" "w dvd i" "buffer target sz"
    and len: "\<And>a v. ws a = Some v \<Longrightarrow> length v = w"
    and "unat y < unat target + i \<or> unat target + sz \<le> unat y"
  shows "copy_view w ws source target sz i m y = m y"
  using assms
proof (induction w ws source target sz i m rule: copy_view.induct)
  case (1 w ws source target sz i m)
  show ?case
  proof (cases "i < sz")
    case True
    have fit: "i + w \<le> sz"
      using True "1.prems" by (intro offset_fits(3) [of i w sz 0]) (auto simp: offsets_from_def)
    have len: "length (view w m ws (source + of_nat i)) = w" using "1.prems"(5) by (rule view_length)
    have "copy_view w ws source target sz i m y = store_bytes m (target + of_nat i)
        (view w m ws (source + of_nat i)) y"
      using True "1.prems" by (subst copy_view.simps) (auto intro!: "1.IH")
    also have "\<dots> = m y"
      using "1.prems"(6) buffer_part(2) [OF "1.prems"(4) fit "1.prems"(1)] len fit
      by (intro store_bytes_outside) auto
    finally show ?thesis .
  next
    case False
    then show ?thesis by (subst copy_view.simps) simp
  qed
qed

text \<open>The target receives, word for word, what the transaction sees at the source.\<close>

lemma copy_view_words:
  assumes "0 < w" "w dvd sz" "w dvd i" "buffer target sz" "buffer source sz"
    and "\<And>x. in_block target sz x \<Longrightarrow> \<not> in_block source sz x"
    and "\<And>a v. ws a = Some v \<Longrightarrow> length v = w"
    and "k \<in> offsets_from w sz i"
  shows "load_bytes (copy_view w ws source target sz i m) (target + of_nat k) w
    = view w m ws (source + of_nat k)"
  using assms
proof (induction w ws source target sz i m rule: copy_view.induct)
  case (1 w ws source target sz i m)
  have i: "i < sz" using "1.prems"(8) by (auto simp: offsets_from_def)
  have fit: "i + w \<le> sz"
    using i "1.prems" by (intro offset_fits(3) [of i w sz 0]) (auto simp: offsets_from_def)
  have kfit: "i \<le> k" "w dvd k" "k + w \<le> sz" using offset_fits "1.prems"(2,3,8) by blast+
  let ?v = "view w m ws (source + of_nat i)"
  let ?m = "store_bytes m (target + of_nat i) ?v"
  have len: "length ?v = w" using "1.prems"(7) by (rule view_length)
  have step: "copy_view w ws source target sz i m = copy_view w ws source target sz (i + w) ?m"
    using i "1.prems"(1) by (subst copy_view.simps) simp
  have w64: "w \<le> 2 ^ 64" using fit "1.prems"(4) by (simp add: buffer_def)
  show ?case
  proof (cases "k = i")
    case True
    have "copy_view w ws source target sz (i + w) ?m y = ?m y" if "in_block (target + of_nat i) w y" for y
      using that buffer_part(2) [OF "1.prems"(4) fit "1.prems"(1)] "1.prems"
      by (intro copy_view_outside) auto
    then have "load_bytes (copy_view w ws source target sz (i + w) ?m) (target + of_nat i) w
        = load_bytes ?m (target + of_nat i) w"
      using w64 by (intro nth_equalityI) (simp_all add: in_block_offset)
    also have "\<dots> = ?v" using len w64 by (intro load_store_same) simp_all
    finally show ?thesis using step True by simp
  next
    case False
    then have k: "k \<in> offsets_from w sz (i + w)"
      using "1.prems"(8) offsets_from_step [OF i "1.prems"(1)] by blast
    have "load_bytes (copy_view w ws source target sz (i + w) ?m) (target + of_nat k) w
        = view w ?m ws (source + of_nat k)"
      using i "1.prems" k by (intro "1.IH") auto
    also have "\<dots> = view w m ws (source + of_nat k)"
    proof -
      have "load_bytes ?m (source + of_nat k) w = load_bytes m (source + of_nat k) w"
      proof (rule load_store_disjoint)
        fix x assume "in_block (target + of_nat i) (length ?v) x"
        then have "in_block target sz x"
          using buffer_part(2) [OF "1.prems"(4) fit "1.prems"(1)] len fit
            in_block_buffer [OF "1.prems"(4)] by simp
        then have "\<not> in_block source sz x" by (rule "1.prems"(6))
        then show "\<not> in_block (source + of_nat k) w x"
          using buffer_part(2) [OF "1.prems"(5) kfit(3) "1.prems"(1)]
            in_block_buffer [OF "1.prems"(5)] kfit(3) by auto
      qed (rule w64)
      then show ?thesis by (rule view_cong)
    qed
    finally show ?thesis using step by simp
  qed
qed

text \<open>A loop succeeds exactly when every word it visits is readable.\<close>

lemma read_ro_loop_true:
  "fst (read_ro_loop w ls x source target sz i m) \<longleftrightarrow>
    0 < w \<longrightarrow> (\<forall>k \<in> offsets_from w sz i. readable ls (rv x) (source + of_nat k))"
proof (induction w ls x source target sz i m rule: read_ro_loop.induct)
  case (1 w ls x source target sz i m)
  show ?case
  proof (cases "i < sz \<and> 0 < w")
    case True
    then have off: "offsets_from w sz i = insert i (offsets_from w sz (i + w))"
      by (simp add: offsets_from_step)
    show ?thesis
    proof (cases "readable ls (rv x) (source + of_nat i)")
      case r: True
      then have "\<not> vl_isLocked (ls (lock_index (source + of_nat i)))"
        "\<not> vl_getVersion (ls (lock_index (source + of_nat i))) > rv x"
        by (auto simp: readable_def not_less)
      with True r off "1.IH" [OF True refl refl refl refl _ refl refl] show ?thesis
        by (subst read_ro_loop.simps) (simp add: Let_def)
    next
      case False
      with True off show ?thesis
        by (subst read_ro_loop.simps) (auto simp: Let_def readable_def not_le)
    qed
  next
    case False
    then have "offsets_from w sz i = {} \<or> w = 0" by (auto simp: offsets_from_def)
    with False show ?thesis by (subst read_ro_loop.simps) auto
  qed
qed

lemma read_rw_loop_true:
  "fst (read_rw_loop w ls x source target sz i m) \<longleftrightarrow>
    0 < w \<longrightarrow> (\<forall>k \<in> offsets_from w sz i. readable ls (rv x) (source + of_nat k))"
proof (induction w ls x source target sz i m rule: read_rw_loop.induct)
  case (1 w ls x source target sz i m)
  show ?case
  proof (cases "i < sz \<and> 0 < w")
    case True
    then have off: "offsets_from w sz i = insert i (offsets_from w sz (i + w))"
      by (simp add: offsets_from_step)
    show ?thesis
    proof (cases "readable ls (rv x) (source + of_nat i)")
      case r: True
      then have "\<not> vl_isLocked (ls (lock_index (source + of_nat i)))"
        "\<not> vl_getVersion (ls (lock_index (source + of_nat i))) > rv x"
        by (auto simp: readable_def not_less)
      with True r off "1.IH" [OF True refl refl refl refl _ refl refl] show ?thesis
        by (subst read_rw_loop.simps) (simp add: Let_def)
    next
      case False
      with True off show ?thesis
        by (subst read_rw_loop.simps) (auto simp: Let_def readable_def not_le)
    qed
  next
    case False
    then have "offsets_from w sz i = {} \<or> w = 0" by (auto simp: offsets_from_def)
    with False show ?thesis by (subst read_rw_loop.simps) auto
  qed
qed

section \<open>tm_read and tm_write\<close>

text \<open>A live transaction on a live region, with the region's lock words.\<close>

definition live_in :: "heap \<Rightarrow> addr \<Rightarrow> addr \<Rightarrow> MemoryRegion \<Rightarrow> (nat \<Rightarrow> lock_word) \<Rightarrow> Transaction \<Rightarrow> bool" where
  "live_in h shared tx region ls x \<longleftrightarrow> heap_ok h \<and> txns h tx = Some x \<and>
     regions h shared = Some region \<and> lock_arrays h (locks region) = Some ls"

definition visible :: "Transaction \<Rightarrow> write_map" where
  "visible x = (if is_ro x then Map.empty else write_set x)"

text \<open>What \<open>tm_read\<close> needs of its arguments: whole words, and buffers that do not overlap.\<close>

definition read_args :: "nat \<Rightarrow> Transaction \<Rightarrow> addr \<Rightarrow> nat \<Rightarrow> addr \<Rightarrow> bool" where
  "read_args w x source sz target \<longleftrightarrow> 0 < w \<and> w dvd sz \<and> buffer source sz \<and> buffer target sz \<and>
     (\<forall>y. in_block target sz y \<longrightarrow> \<not> in_block source sz y) \<and>
     (\<forall>a v. write_set x a = Some v \<longrightarrow> length v = w)"

text \<open>A transaction on the region of \<open>demo_heap\<close>, for the witnesses.\<close>

abbreviation "demo_region \<equiv>
  \<lparr>seg_list = [], region_size = 64, align = 8, locks = 32, start = 4096\<rparr>"

definition demo_txn :: heap where
  "demo_txn = put_txn 48 (new_Transaction 0 False) demo_heap"

definition demo_wrote :: heap where
  "demo_wrote = put_txn 48
     (new_Transaction 0 False\<lparr>write_set := [4096 \<mapsto> replicate 8 7], read_set := {4104}\<rparr>) demo_heap"

lemma demo_begin: "tm_begin 48 16 False demo_heap = (48, demo_txn)"
  by (simp add: tm_begin_def demo_txn_def invalid_tx_def)

lemma demo_txn_live: "live_in demo_txn 16 48 demo_region (\<lambda>_. vl_new) (new_Transaction 0 False)"
proof -
  have "heap_ok demo_txn" by (rule tm_begin_ok [OF client_heap_ok [OF demo_client_heap] demo_begin])
  then show ?thesis by (simp add: live_in_def demo_txn_def put_txn_def)
qed

lemma demo_wrote_live:
  "live_in demo_wrote 16 48 demo_region (\<lambda>_. vl_new)
     (new_Transaction 0 False\<lparr>write_set := [4096 \<mapsto> replicate 8 7], read_set := {4104}\<rparr>)"
proof -
  have "heap_ok demo_txn" "txns demo_txn 48 = Some (new_Transaction 0 False)"
    using demo_txn_live by (simp_all add: live_in_def)
  then have "heap_ok (put_txn 48
      (new_Transaction 0 False\<lparr>write_set := [4096 \<mapsto> replicate 8 7], read_set := {4104}\<rparr>)
      (demo_txn\<lparr>gvc := 0, mem := mem demo_heap\<rparr>))"
    by (rule heap_ok_put_txn) simp
  moreover have "put_txn 48 (new_Transaction 0 False\<lparr>write_set := [4096 \<mapsto> replicate 8 7], read_set := {4104}\<rparr>)
      (demo_txn\<lparr>gvc := 0, mem := mem demo_heap\<rparr>) = demo_wrote"
    by (simp add: demo_wrote_def demo_txn_def put_txn_def demo_heap_def put_region_def empty_heap_def)
  ultimately show ?thesis by (simp add: live_in_def demo_wrote_def put_txn_def)
qed

lemma demo_readable: "readable (\<lambda>_. vl_new) r a"
  by (simp add: readable_def)

text \<open>\<open>tm_read\<close> in one equation: the transaction it leaves, and the bytes its target receives.\<close>

definition after_read :: "nat \<Rightarrow> addr \<Rightarrow> nat \<Rightarrow> Transaction \<Rightarrow> Transaction" where
  "after_read w source sz x =
     (if is_ro x then x
      else x\<lparr>read_set := read_set x \<union> (\<lambda>k. source + of_nat k) ` offsets_from w sz 0\<rparr>)"

abbreviation all_readable :: "nat \<Rightarrow> (nat \<Rightarrow> lock_word) \<Rightarrow> Transaction \<Rightarrow> addr \<Rightarrow> nat \<Rightarrow> bool" where
  "all_readable w ls x source sz \<equiv> (\<forall>k \<in> offsets_from w sz 0. readable ls (rv x) (source + of_nat k))"

lemma tm_read_result:
  assumes "live_in h shared tx region ls x" "0 < align region"
  defines "w \<equiv> align region"
  shows "if all_readable w ls x source sz
    then tm_read shared tx source sz target h =
      Inr (True, put_txn tx (after_read w source sz x) (h\<lparr>mem := copy_view w (visible x) source target sz 0 (mem h)\<rparr>))
    else \<exists>h'. tm_read shared tx source sz target h = Inr (False, h') \<and> txns h' tx = None"
proof -
  let ?loop = "if is_ro x then read_ro_loop else read_rw_loop"
  have h: "heap_ok h" "txns h tx = Some x" "regions h shared = Some region"
    "lock_arrays h (locks region) = Some ls" using assms(1) by (simp_all add: live_in_def)
  obtain b x' m where l: "?loop w ls x source target sz 0 (mem h) = (b, x', m)" by (metis prod_cases3)
  have b: "b \<longleftrightarrow> all_readable w ls x source sz"
    using l read_ro_loop_true [of w ls x source target sz 0 "mem h"]
      read_rw_loop_true [of w ls x source target sz 0 "mem h"] assms(2)
    by (auto simp: w_def split: if_splits)
  let ?h = "put_txn tx x' (h\<lparr>mem := m\<rparr>)"
  have r: "tm_read shared tx source sz target h = (if b then Inr (True, ?h) else give_up tx ?h)"
    using h l by (simp add: tm_read_def the_txn_def the_region_def the_locks_def w_def split: if_splits)
  show ?thesis
  proof (cases b)
    case False
    have "txn_seg_list x' = txn_seg_list x"
      using l read_loops_segs [of w ls x source target sz 0 "mem h"] by (auto split: if_splits)
    then have "heap_ok ?h" using heap_ok_put_txn [OF h(1,2), where m = m and c = "gvc h"] by simp
    then have "give_up tx ?h = Inr (False, txn_deleted tx x' ?h)"
      by (rule give_up_ok) (simp add: put_txn_def)
    with False r b show ?thesis by (auto simp: txn_deleted_def)
  next
    case True
    then have "x' = after_read w source sz x" "m = copy_view w (visible x) source target sz 0 (mem h)"
      using l b assms(2) read_ro_loop_copy [of w sz 0 ls x source target "mem h"]
        read_rw_loop_copy [of w sz 0 ls x source target "mem h"]
      by (auto simp: visible_def after_read_def w_def split: if_splits)
    with True r b show ?thesis by simp
  qed
qed

lemma read_args_copy:
  assumes "read_args w x source sz target"
  shows "k \<in> offsets_from w sz 0 \<Longrightarrow>
      load_bytes (copy_view w (visible x) source target sz 0 m) (target + of_nat k) w
        = view w m (visible x) (source + of_nat k)"
    and "\<not> in_block target sz y \<Longrightarrow> copy_view w (visible x) source target sz 0 m y = m y"
proof -
  have a: "0 < w" "w dvd sz" "buffer source sz" "buffer target sz"
    "\<And>y. in_block target sz y \<Longrightarrow> \<not> in_block source sz y"
    "\<And>a v. visible x a = Some v \<Longrightarrow> length v = w"
    using assms by (auto simp: read_args_def visible_def split: if_splits)
  show "k \<in> offsets_from w sz 0 \<Longrightarrow>
      load_bytes (copy_view w (visible x) source target sz 0 m) (target + of_nat k) w
        = view w m (visible x) (source + of_nat k)"
    using a by (intro copy_view_words) auto
  show "\<not> in_block target sz y \<Longrightarrow> copy_view w (visible x) source target sz 0 m y = m y"
    using a by (intro copy_view_outside) (auto simp: in_block_buffer)
qed

text \<open>\<open>tm_read\<close> is a snapshot read. It returns true exactly when every stripe under the source
  is free and not newer than the transaction's read version; then the target holds, word for
  word, what the transaction sees at the source (its own buffered write, else memory), no other
  byte has changed, and a read-write transaction has every word in its read set. Otherwise it
  returns false and the transaction is gone.\<close>

theorem tm_read_returns_view:
  assumes "live_in h shared tx region ls x" "read_args (align region) x source sz target"
  defines "w \<equiv> align region"
  defines "ok \<equiv> (\<forall>k \<in> offsets_from w sz 0. readable ls (rv x) (source + of_nat k))"
  shows "\<exists>h'. tm_read shared tx source sz target h = Inr (ok, h') \<and>
    (\<not> ok \<longrightarrow> txns h' tx = None) \<and>
    (ok \<longrightarrow>
      (\<forall>k \<in> offsets_from w sz 0. load_bytes (mem h') (target + of_nat k) w
         = view w (mem h) (visible x) (source + of_nat k)) \<and>
      (\<forall>y. \<not> in_block target sz y \<longrightarrow> mem h' y = mem h y) \<and>
      (\<exists>x'. txns h' tx = Some x' \<and> write_set x' = write_set x \<and> rv x' = rv x \<and>
         read_set x' = (if is_ro x then read_set x
           else read_set x \<union> (\<lambda>k. source + of_nat k) ` offsets_from w sz 0)))"
proof -
  have w: "0 < align region" using assms(2) by (simp add: read_args_def)
  note r = tm_read_result [OF assms(1) w, where source = source and sz = sz and target = target, folded w_def]
  note c = read_args_copy [OF assms(2), folded w_def]
  show ?thesis
  proof (cases ok)
    case False
    then have "\<not> all_readable w ls x source sz" by (simp only: ok_def) simp
    with r False show ?thesis by (simp only: if_False simp_thms)
  next
    case True
    then have "tm_read shared tx source sz target h = Inr (True, put_txn tx (after_read w source sz x)
        (h\<lparr>mem := copy_view w (visible x) source target sz 0 (mem h)\<rparr>))"
      using r by (simp add: ok_def)
    then show ?thesis using True c by (simp add: put_txn_def after_read_def)
  qed
qed

theorem tm_read_returns_view_witness:
  "\<exists>h'. tm_read 16 48 4096 16 8192 demo_txn = Inr (True, h') \<and>
     load_bytes (mem h') 8200 8 = replicate 8 0"
proof -
  have args: "read_args (align demo_region) (new_Transaction 0 False) 4096 16 8192"
    by (auto simp: read_args_def buffer_def in_block_buffer new_Transaction_def)
  have off: "8 \<in> offsets_from 8 16 0" by (simp add: offsets_from_def)
  have "mem demo_txn y = 0" if "in_block 4104 8 y" for y
  proof -
    have "in_block 4096 64 y" using that by (simp add: in_block_buffer buffer_def)
    then show ?thesis by (simp add: demo_txn_def put_txn_def memset_def store_bytes_def in_block_def)
  qed
  then have "load_bytes (mem demo_txn) 4104 8 = replicate 8 0" by (intro load_bytes_zero) simp_all
  then have v: "view 8 (mem demo_txn) (visible (new_Transaction 0 False)) 4104 = replicate 8 0"
    by (simp add: view_def visible_def new_Transaction_def)
  obtain h' where "tm_read 16 48 4096 16 8192 demo_txn = Inr (True, h')"
    "\<forall>k \<in> offsets_from 8 16 0. load_bytes (mem h') (8192 + of_nat k) 8
       = view 8 (mem demo_txn) (visible (new_Transaction 0 False)) (4096 + of_nat k)"
    using tm_read_returns_view [OF demo_txn_live args] by (auto simp: demo_readable)
  with bspec [OF this(2) off] v show ?thesis by simp
qed

text \<open>With every buffer allocated, the loop of \<open>tm_write\<close> is the loop of the concurrent model.\<close>

lemma write_words_loop:
  assumes "\<And>k. k \<in> offsets_from w sz i \<Longrightarrow> ok k"
  shows "write_words ok m w source target sz i ws =
    Inr (write_loop w target (\<lambda>k. load_bytes m (source + of_nat k) w) sz i ws)"
  using assms
proof (induction ok m w source target sz i ws rule: write_words.induct)
  case (1 ok m w source target sz i ws)
  let ?src = "\<lambda>k. load_bytes m (source + of_nat k) w"
  show ?case
  proof (cases "i < sz \<and> 0 < w")
    case True
    define ws' where "ws' = ws(target + of_nat i \<mapsto> ?src i)"
    have off: "offsets_from w sz i = insert i (offsets_from w sz (i + w))"
      using True by (simp add: offsets_from_step)
    then have ok: "ok i" using "1.prems" by blast
    have "write_words ok m w source target sz (i + w) ws' = Inr (write_loop w target ?src sz (i + w) ws')"
      unfolding ws'_def using True off "1.prems" by (intro "1.IH") auto
    moreover have "write_words ok m w source target sz i ws = write_words ok m w source target sz (i + w) ws'"
      using True ok by (subst write_words.simps) (simp add: new_WriteOperation_def ws'_def del: fun_upd_apply)
    moreover have "write_loop w target ?src sz i ws = write_loop w target ?src sz (i + w) ws'"
      using True unfolding ws'_def by (intro write_loop_step) simp_all
    ultimately show ?thesis by simp
  next
    case False
    then show ?thesis by (subst write_words.simps, subst write_loop.simps) auto
  qed
qed

lemma offset_inj:
  assumes "buffer target sz" "k < sz" "j < sz" "target + of_nat k = target + of_nat j"
  shows "k = j"
proof -
  have "unat (target + of_nat k) = unat target + k" "unat (target + of_nat j) = unat target + j"
    using assms(1-3) by (auto intro!: unat_add_small simp: buffer_def)
  then show ?thesis using assms(4) by (metis add_left_cancel)
qed

lemma write_loop_result:
  assumes "0 < w" "buffer target sz"
  shows "(k \<in> offsets_from w sz i \<longrightarrow>
      write_loop w target src sz i ws (target + of_nat k) = Some (src k)) \<and>
    ((\<forall>k \<in> offsets_from w sz i. a \<noteq> target + of_nat k) \<longrightarrow>
      write_loop w target src sz i ws a = ws a)"
  using assms
proof (induction w target src sz i ws arbitrary: k a rule: write_loop.induct)
  case (1 w target src sz i ws)
  show ?case
  proof (cases "i < sz")
    case True
    then have off: "offsets_from w sz i = insert i (offsets_from w sz (i + w))"
      using "1.prems" by (simp add: offsets_from_step)
    define ws' where "ws' = ws(target + of_nat i \<mapsto> src i)"
    have step: "write_loop w target src sz i ws = write_loop w target src sz (i + w) ws'"
      unfolding ws'_def using True "1.prems" by (intro write_loop_step)
    note IH = "1.IH" [OF conjI [OF True "1.prems"(1)] "1.prems", folded ws'_def]
    have later: "target + of_nat i \<noteq> target + of_nat j" if "j \<in> offsets_from w sz (i + w)" for j
      using offset_inj [OF "1.prems"(2), of i j] that True "1.prems"(1) by (auto simp: offsets_from_def)
    have "\<forall>j \<in> offsets_from w sz (i + w). target + of_nat i \<noteq> target + of_nat j"
      using later by blast
    then have "write_loop w target src sz (i + w) ws' (target + of_nat i) = ws' (target + of_nat i)"
      using IH [of i "target + of_nat i"] by blast
    then have first: "write_loop w target src sz i ws (target + of_nat i) = Some (src i)"
      by (simp add: step ws'_def)
    show ?thesis
    proof (intro conjI impI)
      assume k: "k \<in> offsets_from w sz i"
      show "write_loop w target src sz i ws (target + of_nat k) = Some (src k)"
      proof (cases "k = i")
        case False
        then have "k \<in> offsets_from w sz (i + w)" using k off by blast
        then show ?thesis unfolding step using IH [of k a] by blast
      qed (simp add: first)
    next
      assume a: "\<forall>k \<in> offsets_from w sz i. a \<noteq> target + of_nat k"
      then have "write_loop w target src sz (i + w) ws' a = ws' a" using IH [of k a] off by blast
      then show "write_loop w target src sz i ws a = ws a" using a off by (simp add: step ws'_def)
    qed
  next
    case False
    then have "offsets_from w sz i = {}" by (auto simp: offsets_from_def)
    with False show ?thesis by simp
  qed
qed

text \<open>\<open>tm_write\<close> buffers. When its buffers can be allocated it returns true and changes
  nothing but the write set; afterwards the transaction sees, word for word, the source at the
  target, and everything else as before. Memory itself is untouched.\<close>

theorem tm_write_updates_view:
  assumes "live_in h shared tx region ls x" "0 < align region" "buffer target sz"
    and "\<And>k. k \<in> offsets_from (align region) sz 0 \<Longrightarrow> ok k"
  defines "w \<equiv> align region"
  shows "\<exists>ws. tm_write ok shared tx source sz target h =
      Inr (True, put_txn tx (x\<lparr>write_set := ws\<rparr>) h) \<and>
    (\<forall>k \<in> offsets_from w sz 0.
       view w (mem h) ws (target + of_nat k) = load_bytes (mem h) (source + of_nat k) w) \<and>
    (\<forall>a. (\<forall>k \<in> offsets_from w sz 0. a \<noteq> target + of_nat k) \<longrightarrow>
       view w (mem h) ws a = view w (mem h) (write_set x) a)"
proof -
  define ws where "ws = write_loop w target (\<lambda>k. load_bytes (mem h) (source + of_nat k) w) sz 0 (write_set x)"
  have h: "txns h tx = Some x" "regions h shared = Some region" using assms(1) by (simp_all add: live_in_def)
  have "write_words ok (mem h) w source target sz 0 (write_set x) = Inr ws"
    unfolding ws_def using assms(4) by (intro write_words_loop) (simp add: w_def)
  then have "tm_write ok shared tx source sz target h = Inr (True, put_txn tx (x\<lparr>write_set := ws\<rparr>) h)"
    using h by (simp add: tm_write_def the_txn_def tm_align_def the_region_def w_def)
  moreover have "view w (mem h) ws (target + of_nat k) = load_bytes (mem h) (source + of_nat k) w"
    if "k \<in> offsets_from w sz 0" for k
    unfolding ws_def view_def
    using write_loop_result [OF assms(2,3), where i = 0 and k = k] that by (simp add: w_def)
  moreover have "view w (mem h) ws a = view w (mem h) (write_set x) a"
    if "\<forall>k \<in> offsets_from w sz 0. a \<noteq> target + of_nat k" for a
    unfolding ws_def view_def
    using write_loop_result [OF assms(2,3), where i = 0 and a = a] that by (simp add: w_def)
  ultimately show ?thesis by blast
qed

theorem tm_write_updates_view_witness:
  "\<exists>ws. tm_write (\<lambda>_. True) 16 48 8192 8 4096 demo_txn =
      Inr (True, put_txn 48 (new_Transaction 0 False\<lparr>write_set := ws\<rparr>) demo_txn) \<and>
    view 8 (mem demo_txn) ws 4096 = load_bytes (mem demo_txn) 8192 8"
proof -
  have b: "buffer (4096 :: addr) 8" by (simp add: buffer_def)
  have off: "0 \<in> offsets_from 8 8 0" by (simp add: offsets_from_def)
  show ?thesis
    using tm_write_updates_view [OF demo_txn_live _ b, of "\<lambda>_. True" 8192] off by fastforce
qed

text \<open>A missing allocation check. When the buffer of the first word cannot be allocated,
  \<open>tm_write\<close> does not report it: the constructor of \<open>WriteOperation\<close> copies the word to a
  null pointer.\<close>

theorem tm_write_null_buffer:
  assumes "live_in h shared tx region ls x" "0 < align region" "0 < sz" "\<not> ok 0"
  shows "tm_write ok shared tx source sz target h = Inl NullWrite"
proof -
  have "write_words ok (mem h) (align region) source target sz 0 (write_set x) = Inl NullWrite"
    using assms(2-4) by (subst write_words.simps) (simp add: new_WriteOperation_def)
  then show ?thesis
    using assms(1) by (simp add: live_in_def tm_write_def the_txn_def tm_align_def the_region_def)
qed

theorem tm_write_null_buffer_witness:
  "tm_write (\<lambda>_. False) 16 48 8192 8 4096 demo_txn = Inl NullWrite"
  by (rule tm_write_null_buffer [OF demo_txn_live]) simp_all

section \<open>tm_alloc\<close>

lemma memset_block:
  assumes "unat p + sz < 2 ^ 64"
  shows "load_bytes (memset m p b sz) p sz = replicate sz b"
    "\<not> in_block p sz y \<Longrightarrow> memset m p b sz y = m y"
  using assms by (simp_all add: memset_def load_store_same store_bytes_outside)

text \<open>\<open>tm_alloc\<close> either reports \<open>nomem\<close> and changes nothing, or returns a zeroed segment that
  overlaps no block in use, leaves the bytes of every other block alone and is recorded in the
  transaction, so that it is freed if the transaction aborts and handed to the region if it
  commits.\<close>

theorem tm_alloc_fresh_segment:
  assumes "live_in h shared tx region ls x"
  shows "(\<not> block_ok h (align region) sz p \<longrightarrow> tm_alloc p shared tx sz h = Inr (nomem, None, h)) \<and>
    (block_ok h (align region) sz p \<longrightarrow>
      (\<exists>h'. tm_alloc p shared tx sz h = Inr (success, Some p, h') \<and> word_aligned (align region) p \<and>
        load_bytes (mem h') p sz = replicate sz 0 \<and>
        (\<forall>q n y. blocks h q = Some n \<longrightarrow> in_block q n y \<longrightarrow> mem h' y = mem h y) \<and>
        txns h' tx = Some (x\<lparr>txn_seg_list := txn_seg_list x @ [p]\<rparr>) \<and> blocks h' p = Some sz))"
proof -
  have h: "heap_ok h" "txns h tx = Some x" "regions h shared = Some region"
    using assms by (simp_all add: live_in_def)
  have "\<exists>h'. tm_alloc p shared tx sz h = Inr (success, Some p, h') \<and> word_aligned (align region) p \<and>
        load_bytes (mem h') p sz = replicate sz 0 \<and>
        (\<forall>q n y. blocks h q = Some n \<longrightarrow> in_block q n y \<longrightarrow> mem h' y = mem h y) \<and>
        txns h' tx = Some (x\<lparr>txn_seg_list := txn_seg_list x @ [p]\<rparr>) \<and> blocks h' p = Some sz"
    if b: "block_ok h (align region) sz p"
  proof -
    have p: "p \<noteq> 0" "word_aligned (align region) p" "unat p + sz < 2 ^ 64"
      using b by (simp_all add: block_ok_def)
    have apart: "\<not> in_block p sz y" if q: "blocks h q = Some n" "in_block q n y" for q n y
    proof -
      have "buffer q n" using heap_okD(5) [OF h(1)] q(1) by (auto simp: blocks_apart_def buffer_def intro: less_imp_le)
      moreover have "buffer p sz" using p(3) by (simp add: buffer_def)
      moreover have "\<not> overlaps p sz q n" using b q(1) by (auto simp: block_ok_def)
      ultimately show ?thesis using q(2) by (auto simp: in_block_buffer overlaps_def)
    qed
    show ?thesis
      using h b p memset_block [OF p(3)] apart
      by (auto simp: tm_alloc_def the_txn_def tm_align_def the_region_def aligned_alloc_def put_txn_def)
  qed
  then show ?thesis
    using h by (auto simp: tm_alloc_def the_txn_def tm_align_def the_region_def aligned_alloc_def)
qed

theorem tm_alloc_fresh_segment_witness:
  "\<exists>h'. tm_alloc 8192 16 48 32 demo_txn = Inr (success, Some 8192, h') \<and>
     load_bytes (mem h') 8192 32 = replicate 32 0 \<and> blocks h' 8192 = Some 32"
proof -
  have "block_ok demo_txn (align demo_region) 32 8192"
    by (auto simp: block_ok_def demo_txn_def put_txn_def word_aligned_def overlaps_def split: if_splits)
  with tm_alloc_fresh_segment [OF demo_txn_live, of 32 8192] show ?thesis by blast
qed

section \<open>tm_end\<close>

text \<open>The lock words while \<open>held\<close> stripes are taken.\<close>

definition taking :: "nat list \<Rightarrow> (nat \<Rightarrow> lock_word) \<Rightarrow> nat \<Rightarrow> lock_word" where
  "taking held ls = (\<lambda>l. if l \<in> set held then vl_acquired (ls l) else ls l)"

lemma taking_upd: "(taking held ls)(l := vl_acquired (ls l)) = taking (List.insert l held) ls"
  by (auto simp: taking_def)

lemma vl_acquired_facts: "vl_isLocked (vl_acquired w)" "vl_getVersion (vl_acquired w) = vl_getVersion w"
  by (simp_all add: vl_acquired_def vl_desired_version vl_expected_version)

lemma vl_lock_free: "\<not> vl_isLocked w \<Longrightarrow> vl_lock sp w = (if sp then (False, w) else (True, vl_acquired w))"
  by (simp add: vl_lock_result)

lemma vl_lock_taken: "vl_isLocked w \<Longrightarrow> vl_lock sp w = (False, w)"
  by (simp add: vl_lock_result)

lemma lock_write_set_result:
  assumes "\<And>l. \<not> vl_isLocked (ls l)" "distinct held"
    and "lock_write_set sp keys (taking held ls) held = (b, ls', held')"
  shows "ls' = taking held' ls \<and> distinct held' \<and>
    (b \<longrightarrow> set held' = set held \<union> lock_index ` set keys) \<and>
    ((\<forall>a \<in> set keys. \<not> sp a) \<longrightarrow> b)"
  using assms(2,3)
proof (induction keys arbitrary: held)
  case (Cons a keys)
  let ?l = "lock_index a"
  have upd: "(taking held ls)(?l := taking held ls ?l) = taking held ls" by simp
  show ?case
  proof (cases "?l \<in> set held")
    case True
    then have "vl_lock (sp a) (taking held ls ?l) = (False, taking held ls ?l)"
      by (intro vl_lock_taken) (simp add: taking_def vl_acquired_facts)
    then have "lock_write_set sp keys (taking held ls) held = (b, ls', held')"
      using Cons.prems(2) True by (simp add: Let_def upd)
    from Cons.IH [OF Cons.prems(1) this] True show ?thesis by auto
  next
    case False
    then have t: "taking held ls ?l = ls ?l" by (simp add: taking_def)
    show ?thesis
    proof (cases "sp a")
      case True
      then have "(False, taking held ls, held) = (b, ls', held')"
        using Cons.prems(2) False t assms(1) by (auto simp: Let_def vl_lock_free upd fun_upd_idem)
      then have "b = False" "ls' = taking held ls" "held' = held" by auto
      with True Cons.prems(1) show ?thesis by auto
    next
      case sp: False
      then have "lock_write_set sp keys (taking (List.insert ?l held) ls) (List.insert ?l held) = (b, ls', held')"
        using Cons.prems(2) False t assms(1) by (simp add: Let_def vl_lock_free taking_upd)
      from Cons.IH [OF _ this] Cons.prems(1) sp show ?thesis by auto
    qed
  qed
qed simp

lemma unlock_all_result:
  "distinct held \<Longrightarrow> unlock_all held ls = (\<lambda>l. if l \<in> set held then vl_unlock (ls l) else ls l)"
  by (induction held arbitrary: ls) (auto simp: fun_eq_iff)

lemma validate_taking:
  assumes "\<And>l. \<not> vl_isLocked (ls l)"
  shows "validate rs (taking held ls) held r \<longleftrightarrow> (\<forall>a \<in> set rs. vl_getVersion (ls (lock_index a)) \<le> r)"
  using assms by (auto simp: validate_def list_all_iff Let_def taking_def vl_acquired_facts not_less)

lemma write_back_all_result:
  "write_back_all ws wv keys m ls =
    (fold (\<lambda>a m. store_bytes m a (the (ws a))) keys m,
     \<lambda>l. if l \<in> lock_index ` set keys then vl_setVersion wv else ls l)"
  by (induction keys arbitrary: m ls) (auto simp: fun_eq_iff)

text \<open>A region no call is working on: its stripes are free and not newer than the clock.\<close>

definition quiet :: "(nat \<Rightarrow> lock_word) \<Rightarrow> 64 word \<Rightarrow> bool" where
  "quiet ls c \<longleftrightarrow> (\<forall>l. \<not> vl_isLocked (ls l) \<and> lock_version (ls l) \<le> unat c)"

text \<open>The iteration orders are orders of the containers.\<close>

definition orders_ok :: "Transaction \<Rightarrow> addr list \<Rightarrow> addr list \<Rightarrow> bool" where
  "orders_ok x ws_order rs_order \<longleftrightarrow>
     distinct ws_order \<and> set ws_order = dom (write_set x) \<and> set rs_order = read_set x"

text \<open>The three ways through \<open>tm_end\<close> of a read-write transaction on a quiet region.\<close>

lemma tm_end_cases:
  assumes "live_in h shared tx region ls x" "\<not> is_ro x" "\<And>l. \<not> vl_isLocked (ls l)"
    and "lock_write_set sp ws_order ls [] = (b, ls1, held)"
  shows "tm_end sp ws_order rs_order shared tx h =
    (if \<not> b then give_up tx (put_locks region (unlock_all held (taking held ls)) h)
     else if rv x + 1 \<noteq> gvc h + 1 \<and> \<not> (\<forall>a \<in> set rs_order. vl_getVersion (ls (lock_index a)) \<le> rv x)
     then give_up tx (put_locks region (unlock_all held (taking held ls)) (h\<lparr>gvc := gvc h + 1\<rparr>))
     else finish tx (put_txn tx (x\<lparr>txn_seg_list := []\<rparr>)
       (put_region shared (region\<lparr>seg_list := seg_list region @ txn_seg_list x\<rparr>)
         (put_locks region
           (\<lambda>l. if l \<in> lock_index ` set ws_order then vl_setVersion (gvc h + 1) else taking held ls l)
           (h\<lparr>gvc := gvc h + 1,
              mem := fold (\<lambda>a m. store_bytes m a (the (write_set x a))) ws_order (mem h)\<rparr>)))))"
proof -
  have h: "txns h tx = Some x" "regions h shared = Some region" "lock_arrays h (locks region) = Some ls"
    using assms(1) by (simp_all add: live_in_def)
  have "lock_write_set sp ws_order (taking [] ls) [] = (b, ls1, held)"
    using assms(4) by (simp add: taking_def)
  from lock_write_set_result [OF assms(3) _ this] have "ls1 = taking held ls" by simp
  then show ?thesis
    using h assms(2,4) validate_taking [OF assms(3), where rs = rs_order and held = held and r = "rv x"]
    by (simp add: tm_end_def the_txn_def the_region_def the_locks_def write_back_all_result Let_def
        del: add_right_cancel)
qed

text \<open>The words of memory after a write-back, and the heap after a commit.\<close>

lemma write_back_view:
  assumes "width_ok w" "word_aligned w b" "set ws = dom f" "\<And>a v. f a = Some v \<Longrightarrow> word_aligned w a \<and> length v = w"
  shows "load_bytes (fold (\<lambda>a m. store_bytes m a (the (f a))) ws m) b w = view w m f b"
proof -
  have "load_bytes (fold (\<lambda>a m. store_bytes m a (the (f a))) ws m) b w = (if b \<in> set ws then the (f b) else load_bytes m b w)"
    using assms by (intro byte_words.ld_fold_st) auto
  then show ?thesis using assms(3) by (auto simp: view_def split: option.splits)
qed

definition committed_heap ::
  "addr \<Rightarrow> addr \<Rightarrow> MemoryRegion \<Rightarrow> (nat \<Rightarrow> lock_word) \<Rightarrow> memory \<Rightarrow> Transaction \<Rightarrow> heap \<Rightarrow> heap" where
  "committed_heap shared tx region ls m x h =
     txn_deleted tx (x\<lparr>txn_seg_list := []\<rparr>) (put_txn tx (x\<lparr>txn_seg_list := []\<rparr>)
       (put_region shared (region\<lparr>seg_list := seg_list region @ txn_seg_list x\<rparr>)
         (put_locks region ls (h\<lparr>gvc := gvc h + 1, mem := m\<rparr>))))"

lemma tm_end_commits_heap:
  assumes "live_in h shared tx region ls x" "\<not> is_ro x" "\<And>l. \<not> vl_isLocked (ls l)"
    and "orders_ok x ws_order rs_order" "\<And>a. a \<in> set ws_order \<Longrightarrow> \<not> sp a"
    and "\<And>a. a \<in> read_set x \<Longrightarrow> vl_getVersion (ls (lock_index a)) \<le> rv x"
  shows "tm_end sp ws_order rs_order shared tx h = Inr (True, committed_heap shared tx region
    (\<lambda>l. if l \<in> lock_index ` dom (write_set x) then vl_setVersion (gvc h + 1) else ls l)
    (fold (\<lambda>a m. store_bytes m a (the (write_set x a))) ws_order (mem h)) x h)"
proof -
  have ok: "heap_ok h" "txns h tx = Some x" "regions h shared = Some region"
    "lock_arrays h (locks region) = Some ls" using assms(1) by (simp_all add: live_in_def)
  have ord: "set ws_order = dom (write_set x)" "set rs_order = read_set x"
    using assms(4) by (simp_all add: orders_ok_def)
  obtain b ls1 held where l: "lock_write_set sp ws_order ls [] = (b, ls1, held)" by (metis prod_cases3)
  then have "lock_write_set sp ws_order (taking [] ls) [] = (b, ls1, held)" by (simp add: taking_def)
  from lock_write_set_result [OF assms(3) _ this] assms(5)
  have b: "b" and held: "set held = lock_index ` dom (write_set x)" by (auto simp: ord)
  let ?m = "fold (\<lambda>a m. store_bytes m a (the (write_set x a))) ws_order (mem h)"
  let ?ls = "\<lambda>l. if l \<in> lock_index ` set ws_order then vl_setVersion (gvc h + 1) else taking held ls l"
  let ?h1 = "put_locks region ?ls (h\<lparr>gvc := gvc h + 1, mem := ?m\<rparr>)"
  let ?h = "put_txn tx (x\<lparr>txn_seg_list := []\<rparr>)
    (put_region shared (region\<lparr>seg_list := seg_list region @ txn_seg_list x\<rparr>) ?h1)"
  have "heap_ok (put_txn tx x (h\<lparr>gvc := gvc h + 1, mem := ?m\<rparr>))"
    using ok(1,2) by (rule heap_ok_put_txn) simp
  then have "heap_ok (h\<lparr>gvc := gvc h + 1, mem := ?m\<rparr>)"
    using ok(2) by (simp add: put_txn_def fun_upd_idem)
  then have "heap_ok ?h1" by (rule heap_ok_put_locks) (simp add: ok(4))
  then have "heap_ok ?h" using ok by (intro heap_ok_splice) (simp_all add: put_locks_def)
  then have "finish tx ?h = Inr (True, txn_deleted tx (x\<lparr>txn_seg_list := []\<rparr>) ?h)"
    by (rule finish_ok) (simp add: put_txn_def)
  moreover have "\<forall>a \<in> set rs_order. vl_getVersion (ls (lock_index a)) \<le> rv x"
    using assms(6) ord by simp
  moreover have "?ls = (\<lambda>l. if l \<in> lock_index ` dom (write_set x) then vl_setVersion (gvc h + 1) else ls l)"
    using held by (auto simp: ord(1) taking_def fun_eq_iff)
  ultimately show ?thesis
    using tm_end_cases [OF assms(1,2,3) l, of rs_order] b by (simp add: committed_heap_def)
qed

text \<open>C14: a commit installs the write set. On a quiet region, when no compare-and-swap fails
  spuriously and no stripe of the read set is newer than the read version, \<open>tm_end\<close> returns
  true; every aligned word of memory is then what the transaction saw, in whatever order the
  write set was iterated; the clock has advanced by one; exactly the stripes written carry the
  new version and all are free again; the segments allocated belong to the region.\<close>

theorem tm_end_commits:
  assumes "live_in h shared tx region ls x" "\<not> is_ro x" "quiet ls (gvc h)" "unat (gvc h) + 1 < 2 ^ 31"
    and "orders_ok x ws_order rs_order" "\<And>a. a \<in> set ws_order \<Longrightarrow> \<not> sp a"
    and "\<And>a. a \<in> read_set x \<Longrightarrow> vl_getVersion (ls (lock_index a)) \<le> rv x"
    and "width_ok (align region)"
    and "\<And>a v. write_set x a = Some v \<Longrightarrow> word_aligned (align region) a \<and> length v = align region"
  shows "\<exists>h' ls'. tm_end sp ws_order rs_order shared tx h = Inr (True, h') \<and>
    (\<forall>a. word_aligned (align region) a \<longrightarrow>
       load_bytes (mem h') a (align region) = view (align region) (mem h) (write_set x) a) \<and>
    gvc h' = gvc h + 1 \<and> lock_arrays h' (locks region) = Some ls' \<and>
    (\<forall>l. \<not> vl_isLocked (ls' l) \<and> lock_version (ls' l) =
       (if l \<in> lock_index ` dom (write_set x) then unat (gvc h') else lock_version (ls l))) \<and>
    regions h' shared = Some (region\<lparr>seg_list := seg_list region @ txn_seg_list x\<rparr>) \<and>
    blocks h' = blocks h \<and> txns h' tx = None"
proof -
  let ?w = "align region" and ?m = "fold (\<lambda>a m. store_bytes m a (the (write_set x a))) ws_order (mem h)"
  let ?ls = "\<lambda>l. if l \<in> lock_index ` dom (write_set x) then vl_setVersion (gvc h + 1) else ls l"
  have free: "\<And>l. \<not> vl_isLocked (ls l)" using assms(3) by (simp add: quiet_def)
  have live: "regions h shared = Some region" using assms(1) by (simp add: live_in_def)
  note r = tm_end_commits_heap [OF assms(1,2) free assms(5-7)]
  have mem: "load_bytes ?m a ?w = view ?w (mem h) (write_set x) a" if "word_aligned ?w a" for a
    using assms(5,8,9) that by (intro write_back_view) (auto simp: orders_ok_def)
  have "unat (gvc h + 1) = unat (gvc h) + 1" using assms(4) by (simp add: unat_word_ariths)
  then have "lock_version (vl_setVersion (gvc h + 1)) = unat (gvc h + 1)"
    using assms(4) by (simp add: lock_version_def vlock_simps)
  with free have ls: "\<not> vl_isLocked (?ls l) \<and> lock_version (?ls l) =
      (if l \<in> lock_index ` dom (write_set x) then unat (gvc h + 1) else lock_version (ls l))" for l
    by auto
  show ?thesis
    by (rule exI [of _ "committed_heap shared tx region ?ls ?m x h"], rule exI [of _ ?ls])
       (use r mem ls live in \<open>simp add: committed_heap_def txn_deleted_def put_txn_def put_region_def put_locks_def\<close>)
qed

theorem tm_end_commits_witness:
  "\<exists>h'. tm_end (\<lambda>_. False) [4096] [4104] 16 48 demo_wrote = Inr (True, h') \<and>
     load_bytes (mem h') 4096 8 = replicate 8 7 \<and> txns h' 48 = None"
proof -
  let ?x = "new_Transaction 0 False\<lparr>write_set := [4096 \<mapsto> replicate 8 7], read_set := {4104}\<rparr>"
  have ro: "\<not> is_ro ?x" by (simp add: new_Transaction_def)
  have q: "quiet (\<lambda>_. vl_new) (gvc demo_wrote)" by (simp add: quiet_def lock_version_def)
  have g: "unat (gvc demo_wrote) + 1 < 2 ^ 31" by (simp add: demo_wrote_def put_txn_def)
  have o: "orders_ok ?x [4096] [4104]" by (simp add: orders_ok_def)
  have w: "width_ok (align demo_region)" using width_ok_power [of 3] by simp
  have a: "word_aligned 8 4096" by (simp add: word_aligned_def)
  have wf: "\<And>a v. write_set ?x a = Some v \<Longrightarrow>
      word_aligned (align demo_region) a \<and> length v = align demo_region"
    using a by (auto split: if_splits)
  obtain h' where "tm_end (\<lambda>_. False) [4096] [4104] 16 48 demo_wrote = Inr (True, h')"
    "\<forall>b. word_aligned 8 b \<longrightarrow> load_bytes (mem h') b 8 = view 8 (mem demo_wrote) (write_set ?x) b"
    "txns h' 48 = None"
    using tm_end_commits [OF demo_wrote_live ro q g o _ _ w wf, of "\<lambda>_. False"] by auto
  then show ?thesis using a by (auto simp: view_def)
qed

text \<open>Acquiring and releasing stripes when some are in the hands of others.\<close>

lemma lock_write_set_taking:
  assumes "distinct held" "\<forall>l \<in> set held. \<not> vl_isLocked (ls l)"
    and "lock_write_set sp keys (taking held ls) held = (b, ls', held')"
  shows "ls' = taking held' ls \<and> distinct held' \<and> (\<forall>l \<in> set held'. \<not> vl_isLocked (ls l))"
  using assms
proof (induction keys arbitrary: held)
  case (Cons a keys)
  let ?l = "lock_index a"
  have upd: "(taking held ls)(?l := taking held ls ?l) = taking held ls" by simp
  consider "?l \<in> set held" | "?l \<notin> set held" "vl_isLocked (ls ?l) \<or> sp a" | "?l \<notin> set held" "\<not> vl_isLocked (ls ?l)" "\<not> sp a"
    by blast
  then show ?case
  proof cases
    case 1
    then have "vl_lock (sp a) (taking held ls ?l) = (False, taking held ls ?l)"
      by (intro vl_lock_taken) (simp add: taking_def vl_acquired_facts)
    then have "lock_write_set sp keys (taking held ls) held = (b, ls', held')"
      using Cons.prems(3) 1 by (simp add: Let_def upd)
    from Cons.IH [OF Cons.prems(1,2) this] show ?thesis .
  next
    case 2
    then have "vl_lock (sp a) (taking held ls ?l) = (False, taking held ls ?l)"
      by (auto simp: taking_def vl_lock_result)
    then have "(b, ls', held') = (False, taking held ls, held)" using Cons.prems(3) 2 by (auto simp: Let_def upd)
    then show ?thesis using Cons.prems(1,2) by auto
  next
    case 3
    then have t: "taking held ls ?l = ls ?l" by (simp add: taking_def)
    with 3 have "lock_write_set sp keys (taking (List.insert ?l held) ls) (List.insert ?l held) = (b, ls', held')"
      using Cons.prems(3) by (simp add: Let_def vl_lock_free taking_upd)
    from Cons.IH [OF _ _ this] Cons.prems(1,2) 3 show ?thesis by auto
  qed
qed simp

lemma unlock_taken:
  assumes "distinct held" "\<forall>l \<in> set held. \<not> vl_isLocked (ls l) \<and> version_fits (lock_version (ls l))"
  shows "unlock_all held (taking held ls) = ls"
  using assms vl.rel_acq by (auto simp: unlock_all_result taking_def fun_eq_iff)

text \<open>C15: an abort leaves no trace. As long as no free stripe has a version of \<open>2 ^ 31\<close> or more, which
  \<open>unlock\<close> would cut off, whenever \<open>tm_end\<close> returns false, because a stripe is held by another
  transaction, a compare-and-swap fails spuriously or the validation fails, memory and every lock
  word are as before, the transaction is gone and exactly the segments it allocated are freed.\<close>

theorem tm_end_abort_restores:
  assumes "live_in h shared tx region ls x" "\<And>l. \<not> vl_isLocked (ls l) \<Longrightarrow> lock_version (ls l) < 2 ^ 31"
    and "tm_end sp ws_order rs_order shared tx h = Inr (False, h')"
  shows "mem h' = mem h \<and> lock_arrays h' = lock_arrays h \<and> regions h' = regions h \<and>
    txns h' = (txns h)(tx := None) \<and> blocks h' = blocks h |` (- set (txn_seg_list x)) \<and>
    (gvc h' = gvc h \<or> gvc h' = gvc h + 1)"
proof -
  have ok: "heap_ok h" "txns h tx = Some x" "regions h shared = Some region" "lock_arrays h (locks region) = Some ls"
    using assms(1) by (simp_all add: live_in_def)
  obtain b ls1 held where l: "lock_write_set sp ws_order ls [] = (b, ls1, held)" by (metis prod_cases3)
  then have "lock_write_set sp ws_order (taking [] ls) [] = (b, ls1, held)" by (simp add: taking_def)
  from lock_write_set_taking [OF _ _ this]
  have ls1: "ls1 = taking held ls" "distinct held" "\<forall>l \<in> set held. \<not> vl_isLocked (ls l)" by simp_all
  then have u: "unlock_all held ls1 = ls" using unlock_taken [of held ls] assms(2) by (simp add: version_fits_def)
  have p: "put_locks region ls (h\<lparr>gvc := c\<rparr>) = h\<lparr>gvc := c\<rparr>" for c
    using ok(4) by (simp add: put_locks_def fun_upd_idem)
  have hok: "heap_ok (h\<lparr>gvc := c\<rparr>)" for c
    using heap_ok_put_txn [OF ok(1,2) refl, where c = c and m = "mem h"] ok(2)
    by (simp add: put_txn_def fun_upd_idem)
  have g: "give_up tx (h\<lparr>gvc := c\<rparr>) = Inr (False, txn_deleted tx x (h\<lparr>gvc := c\<rparr>))" for c
    using hok ok(2) by (intro give_up_ok) simp_all
  have fin: "finish tx k \<noteq> Inr (False, h')" for k by (simp add: finish_def and_then_Inr)
  have "h' = txn_deleted tx x h \<or> h' = txn_deleted tx x (h\<lparr>gvc := gvc h + 1\<rparr>)"
    using assms(3) ok l u p [of "gvc h"] p [of "gvc h + 1"] g [of "gvc h"] g [of "gvc h + 1"] fin
    by (auto simp: tm_end_def the_txn_def the_region_def the_locks_def Let_def split: if_splits prod.splits)
  then show ?thesis by (auto simp: txn_deleted_def)
qed

text \<open>The stripes of the region are in the hands of another transaction.\<close>

theorem tm_end_abort_restores_witness:
  "\<exists>h h'. lock_arrays h = [32 \<mapsto> (\<lambda>_. vl_acquired vl_new)] \<and> tm_end (\<lambda>_. False) [4096] [4104] 16 48 h = Inr (False, h') \<and>
     mem h' = mem demo_wrote \<and> lock_arrays h' = lock_arrays h \<and> txns h' 48 = None"
proof -
  let ?x = "new_Transaction 0 False\<lparr>write_set := [4096 \<mapsto> replicate 8 7], read_set := {4104}\<rparr>"
  let ?ls = "\<lambda>_ :: nat. vl_acquired vl_new"
  let ?h = "put_locks demo_region ?ls demo_wrote"
  have ok: "heap_ok demo_wrote" "txns demo_wrote 48 = Some ?x" "regions demo_wrote 16 = Some demo_region"
    "lock_arrays demo_wrote (locks demo_region) = Some (\<lambda>_. vl_new)"
    using demo_wrote_live by (simp_all add: live_in_def)
  have hok: "heap_ok ?h" by (rule heap_ok_put_locks [OF ok(1,4)])
  then have live: "live_in ?h 16 48 demo_region ?ls ?x" using demo_wrote_live by (simp add: live_in_def put_locks_def)
  have arr: "lock_arrays ?h = [32 \<mapsto> ?ls]" by (simp add: put_locks_def demo_wrote_def put_txn_def)
  have l: "lock_write_set (\<lambda>_. False) [4096] ?ls [] = (False, ?ls, [])"
    by (simp add: Let_def vl_lock_taken vl_acquired_facts fun_upd_idem)
  have t: "txns ?h 48 = Some ?x" "regions ?h 16 = Some demo_region" "lock_arrays ?h (locks demo_region) = Some ?ls"
    using live by (simp_all add: live_in_def)
  have "put_locks demo_region ?ls ?h = ?h" by (simp add: put_locks_def)
  then have e: "tm_end (\<lambda>_. False) [4096] [4104] 16 48 ?h = Inr (False, txn_deleted 48 ?x ?h)"
    using t l give_up_ok [OF hok t(1)]
    by (simp add: tm_end_def the_txn_def the_region_def the_locks_def new_Transaction_def del: lock_write_set.simps)
  define h' where "h' = txn_deleted 48 ?x ?h"
  note e = e [folded h'_def]
  from tm_end_abort_restores [OF live _ e]
  have "mem h' = mem ?h" "lock_arrays h' = lock_arrays ?h" "txns h' 48 = None" by (simp_all add: vl_acquired_facts)
  with e arr show ?thesis by (intro exI [of _ ?h] exI [of _ h']) (simp add: put_locks_def)
qed

end
