(* ===== verification/TM_Client.thy ===== *)
theory TM_Client
  imports TM_Semantics
begin

text \<open>
  The C++ client layer of \<open>grading/transactional.hpp\<close>: a library as a record of functions, the
  \<open>Transaction\<close> object with its exceptions and its committing destructor, the word-sized
  \<open>Shared\<close> accesses and the retry loop \<open>transactional\<close>. Transaction bodies are programs over
  these accesses. The library works on any world \<open>'s\<close>; what a client may rely on is the locale
  \<open>atomic_memory\<close>, whose client lemma says that a committed body ran atomically.
\<close>

section \<open>Little-endian words\<close>

text \<open>All objects of the workloads (\<open>size_t\<close>, \<open>Balance\<close>, pointers) are eight bytes wide.\<close>

definition encode :: "64 word \<Rightarrow> bytes" where
  "encode v = map (\<lambda>k. ucast (drop_bit (8 * k) v)) [0..<8]"

fun decode :: "bytes \<Rightarrow> 64 word" where
  "decode [] = 0"
| "decode (b # bs) = ucast b OR push_bit 8 (decode bs)"

lemma length_encode [simp]: "length (encode v) = 8"
  by (simp add: encode_def)

lemma bit_byte: "bit (b :: byte) n \<Longrightarrow> n < 8"
  using bit_imp_le_length [of b n] by simp

lemma bit_decode:
  "bit (decode bs) n \<longleftrightarrow> n < 64 \<and> n < 8 * length bs \<and> bit (bs ! (n div 8)) (n mod 8)"
proof (induction bs arbitrary: n)
  case (Cons b bs)
  show ?case
  proof (cases "n < 8")
    case True
    then show ?thesis by (simp add: bit_or_iff bit_push_bit_iff bit_ucast_iff)
  next
    case False
    then have "\<not> bit b n" using bit_byte by blast
    moreover have "n div 8 = Suc ((n - 8) div 8)" "n mod 8 = (n - 8) mod 8"
      using False by (simp_all add: le_div_geq le_mod_geq)
    ultimately show ?thesis
      using False Cons.IH [of "n - 8"]
      by (auto simp: bit_or_iff bit_push_bit_iff bit_ucast_iff)
  qed
qed simp

lemma decode_encode [simp]: "decode (encode v) = v"
proof (rule bit_word_eqI)
  fix n assume n: "n < LENGTH(64)"
  then have "n div 8 < 8" by simp
  then have "encode v ! (n div 8) = ucast (drop_bit (8 * (n div 8)) v)"
    unfolding encode_def by (subst nth_map) simp_all
  then show "bit (decode (encode v)) n = bit v n"
    using n by (simp add: bit_decode bit_ucast_iff bit_drop_bit_eq)
qed

section \<open>Exceptions\<close>

datatype exn =
    BoundedOverrun
  | PathResolve | ModuleLoading | ModuleSymbol
  | TransactionAlign | TransactionReadOnly | TransactionCreate | TransactionBegin
  | TransactionAlloc | TransactionRetry | TransactionNotLastSegment
  | SharedAlign | SharedOverflow | SharedDoubleAlloc | SharedDoubleFree

text \<open>The safety checks are compiled out.\<close>

definition assert_mode :: bool where
  "assert_mode = False"

text \<open>How a statement of the client ends; \<open>Terminated\<close> is a call of \<open>std::terminate\<close>.\<close>

datatype 'a outcome = Returned 'a | Thrown exn | Terminated

text \<open>
  \<open>bounded_run\<close>: the function runs in a thread of its own. An exception there has no handler and
  terminates the program. When the time is up (\<open>in_time\<close> is \<open>False\<close>) the thread is detached; the
  state returned is the one it leaves when it is through. A wake-up before its end is harmless:
  the caller then joins the thread.
\<close>

definition bounded_run :: "bool \<Rightarrow> ('s \<Rightarrow> (exn + 'a) \<times> 's) \<Rightarrow> 's \<Rightarrow> 'a outcome \<times> 's" where
  "bounded_run in_time func s =
     (case func s of
        (Inl e, s') \<Rightarrow> (Terminated, s')
      | (Inr v, s') \<Rightarrow> if \<not> in_time then (Thrown BoundedOverrun, s') else (Returned v, s'))"

section \<open>The library and the memory it is bound to\<close>

text \<open>
  The function pointers of \<open>TransactionalLibrary\<close> that a bound memory uses. Private buffers are
  values: a read returns the bytes its target holds afterwards, a write is given the bytes of
  its source. A creation of undefined behaviour is \<open>None\<close>.
\<close>

record 's TransactionalLibrary =
  fn_create :: "nat \<Rightarrow> nat \<Rightarrow> 's \<Rightarrow> (addr \<times> 's) option"
  fn_destroy :: "addr \<Rightarrow> 's \<Rightarrow> 's"
  fn_start :: "addr \<Rightarrow> 's \<Rightarrow> addr"
  fn_size :: "addr \<Rightarrow> 's \<Rightarrow> nat"
  fn_align :: "addr \<Rightarrow> 's \<Rightarrow> nat"
  fn_begin :: "addr \<Rightarrow> bool \<Rightarrow> 's \<Rightarrow> addr \<times> 's"
  fn_end :: "addr \<Rightarrow> addr \<Rightarrow> 's \<Rightarrow> bool \<times> 's"
  fn_read :: "addr \<Rightarrow> addr \<Rightarrow> addr \<Rightarrow> nat \<Rightarrow> 's \<Rightarrow> bool \<times> bytes \<times> 's"
  fn_write :: "addr \<Rightarrow> addr \<Rightarrow> bytes \<Rightarrow> nat \<Rightarrow> addr \<Rightarrow> 's \<Rightarrow> bool \<times> 's"
  fn_alloc :: "addr \<Rightarrow> addr \<Rightarrow> nat \<Rightarrow> 's \<Rightarrow> Alloc \<times> addr \<times> 's"
  fn_free :: "addr \<Rightarrow> addr \<Rightarrow> addr \<Rightarrow> 's \<Rightarrow> bool \<times> 's"

text \<open>
  The loader: the path is resolved, the module opened and the symbols bound one by one.
  \<open>realpath\<close>, \<open>dlopen\<close> and \<open>dlsym\<close> belong to the operating system and are parameters.
\<close>

definition solve :: "('m \<Rightarrow> string \<Rightarrow> 'f option) \<Rightarrow> 'm \<Rightarrow> string \<Rightarrow> exn + 'f" where
  "solve dlsym module name =
     (case dlsym module name of None \<Rightarrow> Inl ModuleSymbol | Some f \<Rightarrow> Inr f)"

fun solve_all :: "('m \<Rightarrow> string \<Rightarrow> 'f option) \<Rightarrow> 'm \<Rightarrow> string list \<Rightarrow> exn + 'f list" where
  "solve_all dlsym module [] = Inr []"
| "solve_all dlsym module (name # names) =
     (case solve dlsym module name of
        Inl e \<Rightarrow> Inl e
      | Inr f \<Rightarrow> (case solve_all dlsym module names of Inl e \<Rightarrow> Inl e | Inr fs \<Rightarrow> Inr (f # fs)))"

definition tm_symbols :: "string list" where
  "tm_symbols = [''tm_create'', ''tm_destroy'', ''tm_start'', ''tm_size'', ''tm_align'',
     ''tm_begin'', ''tm_end'', ''tm_read'', ''tm_write'', ''tm_alloc'', ''tm_free'']"

definition load_library ::
  "(string \<Rightarrow> string option) \<Rightarrow> (string \<Rightarrow> 'm option) \<Rightarrow> ('m \<Rightarrow> string \<Rightarrow> 'f option) \<Rightarrow> string \<Rightarrow>
   exn + 'm \<times> 'f list" where
  "load_library realpath dlopen dlsym path =
     (case realpath path of
        None \<Rightarrow> Inl PathResolve
      | Some resolved \<Rightarrow>
          (case dlopen resolved of
             None \<Rightarrow> Inl ModuleLoading
           | Some module \<Rightarrow>
               (case solve_all dlsym module tm_symbols of
                  Inl e \<Rightarrow> Inl e | Inr fs \<Rightarrow> Inr (module, fs))))"

lemma solve_all_Inr:
  "solve_all dlsym m names = Inr fs \<longleftrightarrow> map (dlsym m) names = map Some fs"
proof (induction names arbitrary: fs)
  case (Cons name names)
  show ?case
  proof (cases "dlsym m name")
    case (Some f)
    then show ?thesis
      using Cons.IH by (cases fs; cases "solve_all dlsym m names") (auto simp: solve_def)
  qed (auto simp: solve_def)
qed auto

lemma solve_all_Inl: "solve_all dlsym m names = Inl e \<Longrightarrow> e = ModuleSymbol"
  by (induction names) (auto simp: solve_def split: option.splits sum.splits)

text \<open>A library is loaded exactly when the path resolves, the module opens and no symbol is missing.\<close>

lemma load_library_Inr:
  "load_library rp op look path = Inr (m, fs) \<longleftrightarrow>
     (\<exists>q. rp path = Some q \<and> op q = Some m \<and> map (look m) tm_symbols = map Some fs)"
  by (auto simp: load_library_def simp flip: solve_all_Inr split: option.splits sum.splits)

text \<open>One shared region, bound to its library.\<close>

definition is_power_of_two :: "64 word \<Rightarrow> bool" where
  "is_power_of_two al \<longleftrightarrow> al \<noteq> 0 \<and> al AND (al - 1) = 0"

record 's TransactionalMemory =
  tl :: "'s TransactionalLibrary"
  shared :: addr
  start_addr :: addr
  start_size :: nat
  alignment :: nat

definition invalid_shared :: addr where
  "invalid_shared = 0"

text \<open>
  The constructor creates the region in \<open>bounded_run\<close>; its exception for a failed creation is
  thrown in that thread. \<open>None\<close> is undefined behaviour of the library.
\<close>

definition mem_construct ::
  "'s TransactionalLibrary \<Rightarrow> nat \<Rightarrow> nat \<Rightarrow> bool \<Rightarrow> 's \<Rightarrow> ('s TransactionalMemory outcome \<times> 's) option" where
  "mem_construct lib al sz in_time s =
     (if assert_mode \<and> (\<not> is_power_of_two (of_nat al) \<or> sz mod al \<noteq> 0)
      then Some (Thrown TransactionAlign, s)
      else case fn_create lib sz al s of
             None \<Rightarrow> None
           | Some (sh, s1) \<Rightarrow>
               Some (bounded_run in_time
                 (\<lambda>s. if sh = invalid_shared then (Inl TransactionCreate, s1)
                      else (Inr \<lparr>tl = lib, shared = sh, start_addr = fn_start lib sh s1,
                              start_size = sz, alignment = al\<rparr>, s1)) s))"

text \<open>The destructor is \<open>noexcept\<close>: an overrun terminates.\<close>

definition mem_destroy :: "'s TransactionalMemory \<Rightarrow> bool \<Rightarrow> 's \<Rightarrow> unit outcome \<times> 's" where
  "mem_destroy tm in_time s =
     (case bounded_run in_time (\<lambda>s. (Inr (), fn_destroy (tl tm) (shared tm) s)) s of
        (Returned u, s') \<Rightarrow> (Returned u, s') | (_, s') \<Rightarrow> (Terminated, s'))"

text \<open>The member functions hand the region to the library.\<close>

definition mem_begin :: "'s TransactionalMemory \<Rightarrow> bool \<Rightarrow> 's \<Rightarrow> addr \<times> 's" where
  [simp]: "mem_begin tm ro = fn_begin (tl tm) (shared tm) ro"

definition mem_end :: "'s TransactionalMemory \<Rightarrow> addr \<Rightarrow> 's \<Rightarrow> bool \<times> 's" where
  [simp]: "mem_end tm tx = fn_end (tl tm) (shared tm) tx"

definition mem_read :: "'s TransactionalMemory \<Rightarrow> addr \<Rightarrow> addr \<Rightarrow> nat \<Rightarrow> 's \<Rightarrow> bool \<times> bytes \<times> 's" where
  [simp]: "mem_read tm tx source sz = fn_read (tl tm) (shared tm) tx source sz"

definition mem_write ::
  "'s TransactionalMemory \<Rightarrow> addr \<Rightarrow> bytes \<Rightarrow> nat \<Rightarrow> addr \<Rightarrow> 's \<Rightarrow> bool \<times> 's" where
  [simp]: "mem_write tm tx source sz target = fn_write (tl tm) (shared tm) tx source sz target"

definition mem_alloc :: "'s TransactionalMemory \<Rightarrow> addr \<Rightarrow> nat \<Rightarrow> 's \<Rightarrow> Alloc \<times> addr \<times> 's" where
  [simp]: "mem_alloc tm tx sz = fn_alloc (tl tm) (shared tm) tx sz"

definition mem_free :: "'s TransactionalMemory \<Rightarrow> addr \<Rightarrow> addr \<Rightarrow> 's \<Rightarrow> bool \<times> 's" where
  [simp]: "mem_free tm tx target = fn_free (tl tm) (shared tm) tx target"

text \<open>A \<open>Transaction\<close> object.\<close>

record tx_obj =
  handle :: addr
  aborted :: bool
  tx_ro :: bool

definition tx_construct ::
  "'s TransactionalMemory \<Rightarrow> bool \<Rightarrow> 's \<Rightarrow> (exn + tx_obj) \<times> 's" where
  "tx_construct tm ro s =
     (let (tx, s') = mem_begin tm ro s
      in if tx = invalid_tx then (Inl TransactionBegin, s')
         else (Inr \<lparr>handle = tx, aborted = False, tx_ro = ro\<rparr>, s'))"

text \<open>The destructor ends a transaction that was not aborted; \<open>False\<close> is its exception.\<close>

definition tx_destroy :: "'s TransactionalMemory \<Rightarrow> tx_obj \<Rightarrow> 's \<Rightarrow> bool \<times> 's" where
  "tx_destroy tm tx s =
     (if \<not> aborted tx then mem_end tm (handle tx) s else (True, s))"

definition tx_read ::
  "'s TransactionalMemory \<Rightarrow> tx_obj \<Rightarrow> addr \<Rightarrow> nat \<Rightarrow> 's \<Rightarrow> (exn + bytes) \<times> tx_obj \<times> 's" where
  "tx_read tm tx source sz s =
     (let (ok, bs, s') = mem_read tm (handle tx) source sz s
      in if \<not> ok then (Inl TransactionRetry, tx\<lparr>aborted := True\<rparr>, s') else (Inr bs, tx, s'))"

definition tx_write ::
  "'s TransactionalMemory \<Rightarrow> tx_obj \<Rightarrow> bytes \<Rightarrow> nat \<Rightarrow> addr \<Rightarrow> 's \<Rightarrow> (exn + unit) \<times> tx_obj \<times> 's" where
  "tx_write tm tx source sz target s =
     (if assert_mode \<and> tx_ro tx then (Inl TransactionReadOnly, tx, s)
      else
        let (ok, s') = mem_write tm (handle tx) source sz target s
        in if \<not> ok then (Inl TransactionRetry, tx\<lparr>aborted := True\<rparr>, s') else (Inr (), tx, s'))"

definition tx_alloc ::
  "'s TransactionalMemory \<Rightarrow> tx_obj \<Rightarrow> nat \<Rightarrow> 's \<Rightarrow> (exn + addr) \<times> tx_obj \<times> 's" where
  "tx_alloc tm tx sz s =
     (if assert_mode \<and> tx_ro tx then (Inl TransactionReadOnly, tx, s)
      else
        let (r, target, s') = mem_alloc tm (handle tx) sz s
        in case r of
             success \<Rightarrow> (Inr target, tx, s')
           | nomem \<Rightarrow> (Inl TransactionAlloc, tx, s')
           | abort_alloc \<Rightarrow> (Inl TransactionRetry, tx\<lparr>aborted := True\<rparr>, s'))"

definition tx_free ::
  "'s TransactionalMemory \<Rightarrow> tx_obj \<Rightarrow> addr \<Rightarrow> 's \<Rightarrow> (exn + unit) \<times> tx_obj \<times> 's" where
  "tx_free tm tx target s =
     (if assert_mode \<and> tx_ro tx then (Inl TransactionReadOnly, tx, s)
      else
        let (ok, s') = mem_free tm (handle tx) target s
        in if \<not> ok then (Inl TransactionRetry, tx\<lparr>aborted := True\<rparr>, s') else (Inr (), tx, s'))"

section \<open>Transaction bodies\<close>

text \<open>
  A closure given to \<open>transactional\<close>: it returns, throws, or makes the next access through a
  \<open>Shared\<close> object, a word wide, and goes on with the word it got.
\<close>

datatype 'a prog =
    Done 'a
  | Throw exn
  | ReadWord addr "64 word \<Rightarrow> 'a prog"
  | WriteWord addr "64 word" "'a prog"
  | AllocSeg nat "addr \<Rightarrow> 'a prog"
  | FreeSeg addr "'a prog"

text \<open>
  \<open>Shared\<close> objects are addresses. Binding one checks the alignment in assert mode; \<open>al\<close> is the
  alignment of the memory.
\<close>

definition shared_bind :: "nat \<Rightarrow> addr \<Rightarrow> 'a prog \<Rightarrow> 'a prog" where
  "shared_bind al address k =
     (if assert_mode \<and> unat address mod al \<noteq> 0 then Throw SharedAlign
      else if assert_mode \<and> unat address mod 8 \<noteq> 0 then Throw SharedAlign else k)"

definition shared_read :: "addr \<Rightarrow> (64 word \<Rightarrow> 'a prog) \<Rightarrow> 'a prog" where
  [simp]: "shared_read address k = ReadWord address k"

definition shared_write :: "addr \<Rightarrow> 64 word \<Rightarrow> 'a prog \<Rightarrow> 'a prog" where
  [simp]: "shared_write address source k = WriteWord address source k"

definition shared_after :: "addr \<Rightarrow> addr" where
  [simp]: "shared_after address = address + 8"

definition shared_alloc :: "nat \<Rightarrow> addr \<Rightarrow> nat \<Rightarrow> (addr \<Rightarrow> 'a prog) \<Rightarrow> 'a prog" where
  "shared_alloc type_size address sz k =
     (let body = AllocSeg (if sz > 0 then sz else type_size) (\<lambda>p. shared_write address p (k p))
      in if assert_mode
         then shared_read address (\<lambda>p. if p \<noteq> 0 then Throw SharedDoubleAlloc else body)
         else body)"

definition shared_free :: "addr \<Rightarrow> 'a prog \<Rightarrow> 'a prog" where
  "shared_free address k =
     (let body = shared_read address (\<lambda>p. FreeSeg p (shared_write address 0 k))
      in if assert_mode
         then shared_read address (\<lambda>p. if p = 0 then Throw SharedDoubleFree else body)
         else body)"

text \<open>Arrays of words; the bounded array checks its index in assert mode.\<close>

definition array_cell :: "addr \<Rightarrow> 64 word \<Rightarrow> addr" where
  "array_cell address index = address + 8 * index"

definition array_read :: "addr \<Rightarrow> 64 word \<Rightarrow> (64 word \<Rightarrow> 'a prog) \<Rightarrow> 'a prog" where
  [simp]: "array_read address index k = ReadWord (array_cell address index) k"

definition array_after :: "addr \<Rightarrow> 64 word \<Rightarrow> addr" where
  "array_after address len = address + 8 * len"

definition bounded_cell :: "64 word \<Rightarrow> addr \<Rightarrow> 64 word \<Rightarrow> (addr \<Rightarrow> 'a prog) \<Rightarrow> 'a prog" where
  "bounded_cell n address index k =
     (if assert_mode \<and> index \<ge> n then Throw SharedOverflow else k (array_cell address index))"

definition bounded_read :: "64 word \<Rightarrow> addr \<Rightarrow> 64 word \<Rightarrow> (64 word \<Rightarrow> 'a prog) \<Rightarrow> 'a prog" where
  "bounded_read n address index k =
     (if assert_mode \<and> index \<ge> n then Throw SharedOverflow
      else ReadWord (array_cell address index) k)"

lemma shared_ops [simp]:
  "shared_bind al address k = k"
  "shared_alloc tsz address sz kp = AllocSeg (if sz > 0 then sz else tsz) (\<lambda>p. WriteWord address p (kp p))"
  "shared_free address k = ReadWord address (\<lambda>p. FreeSeg p (WriteWord address 0 k))"
  by (simp_all add: shared_bind_def shared_alloc_def shared_free_def assert_mode_def Let_def)

text \<open>Running a body: the first exception ends it.\<close>

primrec run_body ::
  "'s TransactionalMemory \<Rightarrow> 'a prog \<Rightarrow> tx_obj \<Rightarrow> 's \<Rightarrow> (exn + 'a) \<times> tx_obj \<times> 's" where
  "run_body tm (Done v) tx s = (Inr v, tx, s)"
| "run_body tm (Throw e) tx s = (Inl e, tx, s)"
| "run_body tm (ReadWord a k) tx s =
     (case tx_read tm tx a 8 s of
        (Inl e, tx', s') \<Rightarrow> (Inl e, tx', s')
      | (Inr bs, tx', s') \<Rightarrow> run_body tm (k (decode bs)) tx' s')"
| "run_body tm (WriteWord a v k) tx s =
     (case tx_write tm tx (encode v) 8 a s of
        (Inl e, tx', s') \<Rightarrow> (Inl e, tx', s')
      | (Inr _, tx', s') \<Rightarrow> run_body tm k tx' s')"
| "run_body tm (AllocSeg sz k) tx s =
     (case tx_alloc tm tx sz s of
        (Inl e, tx', s') \<Rightarrow> (Inl e, tx', s')
      | (Inr p, tx', s') \<Rightarrow> run_body tm (k p) tx' s')"
| "run_body tm (FreeSeg p k) tx s =
     (case tx_free tm tx p s of
        (Inl e, tx', s') \<Rightarrow> (Inl e, tx', s')
      | (Inr _, tx', s') \<Rightarrow> run_body tm k tx' s')"

text \<open>What a body that has come to its end returns or throws.\<close>

fun body_result :: "'a prog \<Rightarrow> (exn + 'a) option" where
  "body_result (Done v) = Some (Inr v)"
| "body_result (Throw e) = Some (Inl e)"
| "body_result p = None"

section \<open>One attempt and the retry loop\<close>

text \<open>
  The body of the \<open>try\<close> block. The destructor runs when the body returns and when it throws; an
  exception of the destructor during unwinding terminates the program.
\<close>

definition attempt :: "'s TransactionalMemory \<Rightarrow> bool \<Rightarrow> 'a prog \<Rightarrow> 's \<Rightarrow> 'a outcome \<times> 's" where
  "attempt tm ro func s =
     (case tx_construct tm ro s of
        (Inl e, s1) \<Rightarrow> (Thrown e, s1)
      | (Inr tx, s1) \<Rightarrow>
          (let (r, tx', s2) = run_body tm func tx s1; (ended, s3) = tx_destroy tm tx' s2
           in case r of
                Inr v \<Rightarrow> (if ended then Returned v else Thrown TransactionRetry, s3)
              | Inl e \<Rightarrow> (if ended then Thrown e else Terminated, s3)))"

definition is_retry :: "'a outcome \<Rightarrow> bool" where
  "is_retry r = (case r of Thrown TransactionRetry \<Rightarrow> True | _ \<Rightarrow> False)"

text \<open>\<open>transactional\<close>: \<open>None\<close> when every attempt is retried for ever.\<close>

partial_function (option) transactional ::
  "'s TransactionalMemory \<Rightarrow> bool \<Rightarrow> 'a prog \<Rightarrow> 's \<Rightarrow> ('a outcome \<times> 's) option" where
  "transactional tm ro func s =
     (let (r, s') = attempt tm ro func s
      in if is_retry r then transactional tm ro func s' else Some (r, s'))"

text \<open>The words a body has read when it comes to its end or is aborted.\<close>

primrec body_words :: "'s TransactionalMemory \<Rightarrow> 'a prog \<Rightarrow> tx_obj \<Rightarrow> 's \<Rightarrow> 64 word list" where
  "body_words tm (Done v) tx s = []"
| "body_words tm (Throw e) tx s = []"
| "body_words tm (ReadWord a k) tx s =
     (case tx_read tm tx a 8 s of
        (Inl e, tx', s') \<Rightarrow> []
      | (Inr bs, tx', s') \<Rightarrow> decode bs # body_words tm (k (decode bs)) tx' s')"
| "body_words tm (WriteWord a v k) tx s =
     (case tx_write tm tx (encode v) 8 a s of
        (Inl e, tx', s') \<Rightarrow> [] | (Inr _, tx', s') \<Rightarrow> body_words tm k tx' s')"
| "body_words tm (AllocSeg sz k) tx s =
     (case tx_alloc tm tx sz s of
        (Inl e, tx', s') \<Rightarrow> [] | (Inr p, tx', s') \<Rightarrow> body_words tm (k p) tx' s')"
| "body_words tm (FreeSeg p k) tx s =
     (case tx_free tm tx p s of
        (Inl e, tx', s') \<Rightarrow> [] | (Inr _, tx', s') \<Rightarrow> body_words tm k tx' s')"

definition words_read :: "'s TransactionalMemory \<Rightarrow> bool \<Rightarrow> 'a prog \<Rightarrow> 's \<Rightarrow> 64 word list" where
  "words_read tm ro func s =
     (case tx_construct tm ro s of (Inl e, s1) \<Rightarrow> [] | (Inr tx, s1) \<Rightarrow> body_words tm func tx s1)"

text \<open>
  \<open>transactional\<close> with a closure that changes variables it captured by reference: \<open>func c\<close> is its
  body when they hold \<open>c\<close>, and \<open>leave c vs\<close> what an attempt that read the words \<open>vs\<close> leaves in them.
\<close>

partial_function (option) transactional_with ::
  "'s TransactionalMemory \<Rightarrow> bool \<Rightarrow> ('c \<Rightarrow> 'a prog) \<Rightarrow> ('c \<Rightarrow> 64 word list \<Rightarrow> 'c) \<Rightarrow> 'c \<Rightarrow> 's \<Rightarrow>
   ('a outcome \<times> 's) option" where
  "transactional_with tm ro func leave c s =
     (let (r, s') = attempt tm ro (func c) s
      in if is_retry r
         then transactional_with tm ro func leave (leave c (words_read tm ro (func c) s)) s'
         else Some (r, s'))"

section \<open>Atomic execution\<close>

text \<open>
  The specification: a set of valid words and their contents; words outside the set read as 0.
  \<open>atomically\<close> runs a body in one go; an allocation takes a fresh zeroed segment or fails, and a
  freed segment stays valid (this library never reuses one before the end).
\<close>

type_synonym store = "addr set \<times> (addr \<Rightarrow> 64 word)"

definition seg_words :: "addr \<Rightarrow> nat \<Rightarrow> addr set" where
  "seg_words p sz = (\<lambda>k. p + of_nat (8 * k)) ` {..<sz div 8}"

definition add_segment :: "addr \<Rightarrow> nat \<Rightarrow> store \<Rightarrow> store" where
  "add_segment p sz \<sigma> =
     (fst \<sigma> \<union> seg_words p sz, \<lambda>a. if a \<in> seg_words p sz then 0 else snd \<sigma> a)"

definition set_word :: "addr \<Rightarrow> 64 word \<Rightarrow> store \<Rightarrow> store" where
  "set_word a v \<sigma> = (fst \<sigma>, (snd \<sigma>)(a := v))"

definition fresh_segment :: "addr \<Rightarrow> nat \<Rightarrow> store \<Rightarrow> bool" where
  "fresh_segment p sz \<sigma> \<longleftrightarrow>
     p \<noteq> 0 \<and> 0 \<notin> seg_words p sz \<and> seg_words p sz \<inter> fst \<sigma> = {}"

inductive atomically :: "'a prog \<Rightarrow> store \<Rightarrow> exn + 'a \<Rightarrow> store \<Rightarrow> bool" where
  at_done: "atomically (Done v) \<sigma> (Inr v) \<sigma>"
| at_throw: "atomically (Throw e) \<sigma> (Inl e) \<sigma>"
| at_read: "atomically (k (snd \<sigma> a)) \<sigma> r \<sigma>' \<Longrightarrow> atomically (ReadWord a k) \<sigma> r \<sigma>'"
| at_write: "atomically k (set_word a v \<sigma>) r \<sigma>' \<Longrightarrow> atomically (WriteWord a v k) \<sigma> r \<sigma>'"
| at_alloc: "fresh_segment p sz \<sigma> \<Longrightarrow> atomically (k p) (add_segment p sz \<sigma>) r \<sigma>' \<Longrightarrow>
    atomically (AllocSeg sz k) \<sigma> r \<sigma>'"
| at_nomem: "atomically (AllocSeg sz k) \<sigma> (Inl TransactionAlloc) \<sigma>"
| at_free: "atomically k \<sigma> r \<sigma>' \<Longrightarrow> atomically (FreeSeg p k) \<sigma> r \<sigma>'"

inductive_cases atomically_DoneE: "atomically (Done v) \<sigma> r \<sigma>'"
inductive_cases atomically_ThrowE: "atomically (Throw e) \<sigma> r \<sigma>'"
inductive_cases atomically_AllocE: "atomically (AllocSeg sz k) \<sigma> r \<sigma>'"
inductive_simps atomically_simps [simp]:
  "atomically (Done v) \<sigma> r \<sigma>'"
  "atomically (Throw e) \<sigma> r \<sigma>'"
  "atomically (ReadWord a k) \<sigma> r \<sigma>'"
  "atomically (WriteWord a v p) \<sigma> r \<sigma>'"
  "atomically (FreeSeg a p) \<sigma> r \<sigma>'"

text \<open>A body that touches valid words only.\<close>

primrec safe :: "'a prog \<Rightarrow> store \<Rightarrow> bool" where
  "safe (Done v) \<sigma> \<longleftrightarrow> True"
| "safe (Throw e) \<sigma> \<longleftrightarrow> e \<noteq> TransactionRetry"
| "safe (ReadWord a k) \<sigma> \<longleftrightarrow> a \<in> fst \<sigma> \<and> safe (k (snd \<sigma> a)) \<sigma>"
| "safe (WriteWord a v k) \<sigma> \<longleftrightarrow> a \<in> fst \<sigma> \<and> safe k (set_word a v \<sigma>)"
| "safe (AllocSeg sz k) \<sigma> \<longleftrightarrow>
     (\<forall>p. fresh_segment p sz \<sigma> \<longrightarrow> safe (k p) (add_segment p sz \<sigma>))"
| "safe (FreeSeg p k) \<sigma> \<longleftrightarrow> safe k \<sigma>"

text \<open>A body for a read-only transaction.\<close>

primrec reads_only :: "'a prog \<Rightarrow> bool" where
  "reads_only (Done v) \<longleftrightarrow> True"
| "reads_only (Throw e) \<longleftrightarrow> True"
| "reads_only (ReadWord a k) \<longleftrightarrow> (\<forall>v. reads_only (k v))"
| "reads_only (WriteWord a v k) \<longleftrightarrow> False"
| "reads_only (AllocSeg sz k) \<longleftrightarrow> False"
| "reads_only (FreeSeg p k) \<longleftrightarrow> False"

text \<open>
  Weakest preconditions: \<open>wp p Q \<sigma>\<close> says that \<open>p\<close> touches valid words only and that \<open>Q\<close> holds of
  every way it can end.
\<close>

primrec wp :: "'a prog \<Rightarrow> (exn + 'a \<Rightarrow> store \<Rightarrow> bool) \<Rightarrow> store \<Rightarrow> bool" where
  "wp (Done v) Q \<sigma> \<longleftrightarrow> Q (Inr v) \<sigma>"
| "wp (Throw e) Q \<sigma> \<longleftrightarrow> e \<noteq> TransactionRetry \<and> Q (Inl e) \<sigma>"
| "wp (ReadWord a k) Q \<sigma> \<longleftrightarrow> a \<in> fst \<sigma> \<and> wp (k (snd \<sigma> a)) Q \<sigma>"
| "wp (WriteWord a v k) Q \<sigma> \<longleftrightarrow> a \<in> fst \<sigma> \<and> wp k Q (set_word a v \<sigma>)"
| "wp (AllocSeg sz k) Q \<sigma> \<longleftrightarrow> Q (Inl TransactionAlloc) \<sigma> \<and>
     (\<forall>p. fresh_segment p sz \<sigma> \<longrightarrow> wp (k p) Q (add_segment p sz \<sigma>))"
| "wp (FreeSeg p k) Q \<sigma> \<longleftrightarrow> wp k Q \<sigma>"

lemma wp_atomically: "atomically p \<sigma> r \<sigma>' \<Longrightarrow> wp p Q \<sigma> \<Longrightarrow> Q r \<sigma>'"
  by (induction rule: atomically.induct) auto

lemma wp_safe: "wp p Q \<sigma> \<Longrightarrow> safe p \<sigma>"
  by (induction p arbitrary: \<sigma>) auto

lemma wp_mono: "wp p Q \<sigma> \<Longrightarrow> (\<And>r \<sigma>. Q r \<sigma> \<Longrightarrow> Q' r \<sigma>) \<Longrightarrow> wp p Q' \<sigma>"
  by (induction p arbitrary: \<sigma>) auto

section \<open>The contract of a transactional memory\<close>

text \<open>
  \<open>ready\<close>: the client has no transaction; \<open>live\<close>: it runs one, in read-only mode or not; \<open>store\<close> is
  the committed memory, \<open>tview\<close> what the transaction sees. Any call may abort the transaction,
  leaving the committed memory alone; \<open>tm_end\<close> turns the view into the committed memory.
\<close>

locale atomic_memory =
  fixes tm :: "'s TransactionalMemory"
    and ready :: "'s \<Rightarrow> bool"
    and live :: "addr \<Rightarrow> bool \<Rightarrow> 's \<Rightarrow> bool"
    and committed :: "'s \<Rightarrow> store"
    and tview :: "addr \<Rightarrow> 's \<Rightarrow> store"
  assumes begin_law: "ready s \<Longrightarrow> fn_begin (tl tm) (shared tm) ro s = (t, s') \<Longrightarrow>
      committed s' = committed s \<and>
      (if t = invalid_tx then ready s' else live t ro s' \<and> tview t s' = committed s)"
    and read_law: "live t ro s \<Longrightarrow> a \<in> fst (tview t s) \<Longrightarrow>
      fn_read (tl tm) (shared tm) t a 8 s = (ok, bs, s') \<Longrightarrow> committed s' = committed s \<and>
      (if ok then live t ro s' \<and> tview t s' = tview t s \<and> decode bs = snd (tview t s) a else ready s')"
    and write_law: "live t False s \<Longrightarrow> a \<in> fst (tview t s) \<Longrightarrow>
      fn_write (tl tm) (shared tm) t (encode v) 8 a s = (ok, s') \<Longrightarrow> committed s' = committed s \<and>
      (if ok then live t False s' \<and> tview t s' = set_word a v (tview t s) else ready s')"
    and alloc_law: "live t False s \<Longrightarrow> fn_alloc (tl tm) (shared tm) t sz s = (r, p, s') \<Longrightarrow>
      committed s' = committed s \<and>
      (case r of
         success \<Rightarrow> live t False s' \<and> fresh_segment p sz (tview t s) \<and>
           tview t s' = add_segment p sz (tview t s)
       | nomem \<Rightarrow> live t False s' \<and> tview t s' = tview t s
       | abort_alloc \<Rightarrow> ready s')"
    and free_law: "live t False s \<Longrightarrow> fn_free (tl tm) (shared tm) t p s = (ok, s') \<Longrightarrow>
      committed s' = committed s \<and>
      (if ok then live t False s' \<and> tview t s' = tview t s else ready s')"
    and end_law: "live t ro s \<Longrightarrow> fn_end (tl tm) (shared tm) t s = (ok, s') \<Longrightarrow>
      ready s' \<and> committed s' = (if ok then tview t s else committed s)"
begin

lemma run_body_atomic:
  assumes "live (handle tx) ro s" "\<not> aborted tx" "ro \<longrightarrow> reads_only p" "safe p (tview (handle tx) s)"
    "run_body tm p tx s = (r, tx', s')"
  shows "handle tx' = handle tx \<and> committed s' = committed s \<and>
    (if aborted tx' then r = Inl TransactionRetry \<and> ready s'
     else live (handle tx) ro s' \<and> r \<noteq> Inl TransactionRetry \<and>
       atomically p (tview (handle tx) s) r (tview (handle tx) s'))"
  using assms
proof (induction p arbitrary: tx s r tx' s')
  case (ReadWord a k)
  obtain ok bs s1 where rd: "fn_read (tl tm) (shared tm) (handle tx) a 8 s = (ok, bs, s1)" by (metis prod_cases3)
  note law = read_law [OF ReadWord.prems(1) _ rd]
  show ?case
  proof (cases ok)
    case True
    then have "run_body tm (k (decode bs)) tx s1 = (r, tx', s')"
      using ReadWord.prems(5) rd by (simp add: tx_read_def)
    with True law ReadWord.prems ReadWord.IH [OF rangeI, of tx s1 "decode bs" r tx' s'] show ?thesis by auto
  next
    case False
    with law ReadWord.prems rd show ?thesis by (auto simp: tx_read_def)
  qed
next
  case (WriteWord a v k)
  have ro: "\<not> ro" using WriteWord.prems(3) by auto
  obtain ok s1 where wr: "fn_write (tl tm) (shared tm) (handle tx) (encode v) 8 a s = (ok, s1)" by (metis surj_pair)
  note law = write_law [OF _ _ wr]
  show ?case
  proof (cases ok)
    case True
    then have "run_body tm k tx s1 = (r, tx', s')"
      using WriteWord.prems(5) wr by (simp add: tx_write_def assert_mode_def)
    with True law WriteWord.prems WriteWord.IH [of tx s1 r tx' s'] ro show ?thesis by auto
  next
    case False
    with law WriteWord.prems wr ro show ?thesis by (auto simp: tx_write_def assert_mode_def)
  qed
next
  case (AllocSeg sz k)
  have ro: "\<not> ro" using AllocSeg.prems(3) by auto
  obtain q p s1 where al: "fn_alloc (tl tm) (shared tm) (handle tx) sz s = (q, p, s1)" by (metis prod_cases3)
  note law = alloc_law [OF _ al]
  show ?case
  proof (cases q)
    case success
    then have "run_body tm (k p) tx s1 = (r, tx', s')"
      using AllocSeg.prems(5) al by (simp add: tx_alloc_def assert_mode_def)
    with success law AllocSeg.prems AllocSeg.IH [OF rangeI, of tx s1 p r tx' s'] ro show ?thesis
      by (auto intro: at_alloc)
  qed (use law AllocSeg.prems al ro in \<open>auto simp: tx_alloc_def assert_mode_def intro: at_nomem\<close>)
next
  case (FreeSeg p k)
  have ro: "\<not> ro" using FreeSeg.prems(3) by auto
  obtain ok s1 where fr: "fn_free (tl tm) (shared tm) (handle tx) p s = (ok, s1)" by (metis surj_pair)
  note law = free_law [OF _ fr]
  show ?case
  proof (cases ok)
    case True
    then have "run_body tm k tx s1 = (r, tx', s')"
      using FreeSeg.prems(5) fr by (simp add: tx_free_def assert_mode_def)
    with True law FreeSeg.prems FreeSeg.IH [of tx s1 r tx' s'] ro show ?thesis by auto
  next
    case False
    with law FreeSeg.prems fr ro show ?thesis by (auto simp: tx_free_def assert_mode_def)
  qed
qed auto

text \<open>How one attempt relates the committed memory before and after.\<close>

definition attempted :: "'a prog \<Rightarrow> 's \<Rightarrow> 'a outcome \<Rightarrow> 's \<Rightarrow> bool" where
  "attempted p s r s' \<longleftrightarrow> ready s' \<and>
     (case r of
        Returned v \<Rightarrow> atomically p (committed s) (Inr v) (committed s')
      | Thrown e \<Rightarrow> (e \<in> {TransactionRetry, TransactionBegin} \<and> committed s' = committed s) \<or>
          (e \<noteq> TransactionRetry \<and> atomically p (committed s) (Inl e) (committed s'))
      | Terminated \<Rightarrow> committed s' = committed s)"

lemma attempt_atomic:
  assumes "ready s" "ro \<longrightarrow> reads_only p" "safe p (committed s)" "attempt tm ro p s = (r, s')"
  shows "attempted p s r s'"
proof -
  obtain t s1 where b: "fn_begin (tl tm) (shared tm) ro s = (t, s1)" by (metis surj_pair)
  note law = begin_law [OF assms(1) b]
  show ?thesis
  proof (cases "t = invalid_tx")
    case True
    with assms(4) b law show ?thesis by (auto simp: attempt_def tx_construct_def attempted_def)
  next
    case False
    let ?tx = "\<lparr>handle = t, aborted = False, tx_ro = ro\<rparr>"
    obtain q tx' s2 where body: "run_body tm p ?tx s1 = (q, tx', s2)" by (metis prod_cases3)
    obtain ended s3 where d: "tx_destroy tm tx' s2 = (ended, s3)" by (metis surj_pair)
    have b': "handle tx' = t" "committed s2 = committed s"
      "if aborted tx' then q = Inl TransactionRetry \<and> ready s2
       else live t ro s2 \<and> q \<noteq> Inl TransactionRetry \<and> atomically p (committed s) q (tview t s2)"
      using run_body_atomic [of ?tx ro s1 p q tx' s2] law False assms(2,3) body by auto
    have r: "s' = s3" "r = (case q of Inr v \<Rightarrow> if ended then Returned v else Thrown TransactionRetry
        | Inl e \<Rightarrow> if ended then Thrown e else Terminated)"
      using assms(4) b False body d by (auto simp: attempt_def tx_construct_def split: sum.splits)
    show ?thesis
    proof (cases "aborted tx'")
      case True
      with b' d r show ?thesis by (auto simp: tx_destroy_def attempted_def)
    next
      case nab: False
      then have "fn_end (tl tm) (shared tm) t s2 = (ended, s3)" using d b'(1) by (simp add: tx_destroy_def)
      from end_law [OF _ this] nab b' r show ?thesis
        by (cases q; cases ended) (auto simp: attempted_def)
    qed
  qed
qed

lemma retry_committed: "attempted p s r s' \<Longrightarrow> is_retry r \<Longrightarrow> ready s' \<and> committed s' = committed s"
  by (auto simp: attempted_def is_retry_def split: outcome.splits exn.splits)

lemma attempted_cong: "committed s1 = committed s \<Longrightarrow> attempted p s1 r s' \<Longrightarrow> attempted p s r s'"
  by (simp add: attempted_def split: outcome.splits)

text \<open>The retry loop: however many attempts abort, the body takes effect once, atomically.\<close>

lemma transactional_atomic:
  assumes "transactional tm ro p s = Some (r, s')" "ready s" "ro \<longrightarrow> reads_only p"
    "safe p (committed s)"
  shows "attempted p s r s' \<and> \<not> is_retry r"
proof -
  let ?P = "\<lambda>tm' ro' p' s y. tm' = tm \<longrightarrow> ro' = ro \<longrightarrow> p' = p \<longrightarrow> ready s \<longrightarrow> safe p (committed s) \<longrightarrow>
      attempted p s (fst y) (snd y) \<and> \<not> is_retry (fst y)"
  have "?P tm ro p s (r, s')"
  proof (rule transactional.raw_induct [where P = ?P, OF _ assms(1)], intro impI)
    fix rec tm' ro' p' s y
    assume IH: "\<And>tm' ro' p' s y. rec tm' ro' p' s = Some y \<Longrightarrow> ?P tm' ro' p' s y"
      and step: "(let (r, s') = attempt tm' ro' p' s
        in if is_retry r then rec tm' ro' p' s' else Some (r, s')) = Some y"
      and eq: "tm' = tm" "ro' = ro" "p' = p" and pre: "ready s" "safe p (committed s)"
    obtain q s1 where at: "attempt tm ro p s = (q, s1)" by (metis surj_pair)
    have once: "attempted p s q s1" by (rule attempt_atomic [OF pre(1) assms(3) pre(2) at])
    show "attempted p s (fst y) (snd y) \<and> \<not> is_retry (fst y)"
    proof (cases "is_retry q")
      case True
      then have "rec tm ro p s1 = Some y" using step eq at by simp
      moreover have "ready s1" "committed s1 = committed s"
        using retry_committed [OF once True] by simp_all
      ultimately show ?thesis
        using IH [of tm ro p s1 y] pre(2) attempted_cong [of s1 s p "fst y" "snd y"] by simp
    next
      case False
      then have "y = (q, s1)" using step eq at by simp
      with once False show ?thesis by simp
    qed
  qed
  then show ?thesis using assms(2,4) by simp
qed

text \<open>The same for closures with captured variables: the body takes effect once, for some value of
  them.\<close>

lemma transactional_with_atomic:
  assumes "transactional_with tm ro func leave c s = Some (r, s')" "ready s" "\<And>c. ro \<longrightarrow> reads_only (func c)"
    "\<And>c. safe (func c) (committed s)"
  shows "(\<exists>c'. attempted (func c') s r s') \<and> \<not> is_retry r"
proof -
  let ?P = "\<lambda>tm' ro' func' leave' c s y. tm' = tm \<longrightarrow> ro' = ro \<longrightarrow> func' = func \<longrightarrow> ready s \<longrightarrow>
      (\<forall>c. safe (func c) (committed s)) \<longrightarrow> (\<exists>c'. attempted (func c') s (fst y) (snd y)) \<and> \<not> is_retry (fst y)"
  have "?P tm ro func leave c s (r, s')"
  proof (rule transactional_with.raw_induct [where P = ?P, OF _ assms(1)], intro impI)
    fix rec tm' ro' func' leave' c s y
    assume IH: "\<And>tm' ro' func' leave' c s y. rec tm' ro' func' leave' c s = Some y \<Longrightarrow> ?P tm' ro' func' leave' c s y"
      and step: "(let (r, s') = attempt tm' ro' (func' c) s
        in if is_retry r then rec tm' ro' func' leave' (leave' c (words_read tm' ro' (func' c) s)) s'
           else Some (r, s')) = Some y"
      and eq: "tm' = tm" "ro' = ro" "func' = func" and pre: "ready s" "\<forall>c. safe (func c) (committed s)"
    obtain q s1 where at: "attempt tm ro (func c) s = (q, s1)" by (metis surj_pair)
    have once: "attempted (func c) s q s1" by (rule attempt_atomic [OF pre(1) assms(3) _ at]) (use pre(2) in simp)
    show "(\<exists>c'. attempted (func c') s (fst y) (snd y)) \<and> \<not> is_retry (fst y)"
    proof (cases "is_retry q")
      case True
      then have "rec tm ro func leave' (leave' c (words_read tm ro (func c) s)) s1 = Some y" using step eq at by simp
      moreover have "ready s1" "committed s1 = committed s"
        using retry_committed [OF once True] by simp_all
      ultimately show ?thesis
        using IH [of tm ro func leave' _ s1 y] pre(2) attempted_cong [of s1 s] by fastforce
    next
      case False
      then have "y = (q, s1)" using step eq at by simp
      with once False show ?thesis by auto
    qed
  qed
  then show ?thesis using assms(2,4) by simp
qed

end

section \<open>A memory without contention\<close>

text \<open>
  Nothing obliges a library to ever let a transaction commit. This one does when no other client
  interferes: \<open>calm n\<close> says so for the next \<open>n\<close> commits, \<open>fresh n t\<close> that the running transaction
  \<open>t\<close> is up to date. The client lemma: the first attempt of the retry loop is the last.
\<close>

locale calm_memory = atomic_memory +
  fixes calm :: "nat \<Rightarrow> 'a \<Rightarrow> bool"
    and fresh :: "nat \<Rightarrow> addr \<Rightarrow> 'a \<Rightarrow> bool"
  assumes begin_calm: "ready s \<Longrightarrow> calm n s \<Longrightarrow> fn_begin (tl tm) (shared tm) ro s = (t, s') \<Longrightarrow>
      if t = invalid_tx then calm n s' else fresh n t s'"
    and read_calm: "live t ro s \<Longrightarrow> fresh n t s \<Longrightarrow> a \<in> fst (tview t s) \<Longrightarrow>
      fn_read (tl tm) (shared tm) t a 8 s = (ok, bs, s') \<Longrightarrow> ok \<and> fresh n t s'"
    and write_calm: "live t False s \<Longrightarrow> fresh n t s \<Longrightarrow> a \<in> fst (tview t s) \<Longrightarrow>
      fn_write (tl tm) (shared tm) t (encode v) 8 a s = (ok, s') \<Longrightarrow> ok \<and> fresh n t s'"
    and alloc_calm: "live t False s \<Longrightarrow> fresh n t s \<Longrightarrow>
      fn_alloc (tl tm) (shared tm) t sz s = (r, p, s') \<Longrightarrow> r \<noteq> abort_alloc \<and> fresh n t s'"
    and free_calm: "live t False s \<Longrightarrow> fresh n t s \<Longrightarrow>
      fn_free (tl tm) (shared tm) t p s = (ok, s') \<Longrightarrow> ok \<and> fresh n t s'"
    and end_calm: "live t ro s \<Longrightarrow> fresh (Suc n) t s \<Longrightarrow>
      fn_end (tl tm) (shared tm) t s = (ok, s') \<Longrightarrow> ok \<and> calm n s'"
begin

lemma run_body_calm:
  assumes "live (handle tx) ro s" "fresh n (handle tx) s" "\<not> aborted tx" "ro \<longrightarrow> reads_only p"
    "safe p (tview (handle tx) s)" "run_body tm p tx s = (r, tx', s')"
  shows "\<not> aborted tx' \<and> fresh n (handle tx) s'"
  using assms
proof (induction p arbitrary: tx s r tx' s')
  case (ReadWord a k)
  obtain ok bs s1 where rd: "fn_read (tl tm) (shared tm) (handle tx) a 8 s = (ok, bs, s1)" by (metis prod_cases3)
  note law = read_law [OF ReadWord.prems(1) _ rd] and c = read_calm [OF ReadWord.prems(1,2) _ rd]
  then have "run_body tm (k (decode bs)) tx s1 = (r, tx', s')"
    using ReadWord.prems(5,6) rd by (simp add: tx_read_def)
  with law c ReadWord.prems ReadWord.IH [OF rangeI, of tx s1 "decode bs" r tx' s'] show ?case by auto
next
  case (WriteWord a v k)
  then have l: "live (handle tx) False s" by auto
  obtain ok s1 where wr: "fn_write (tl tm) (shared tm) (handle tx) (encode v) 8 a s = (ok, s1)" by (metis surj_pair)
  note law = write_law [OF l _ wr] and c = write_calm [OF l WriteWord.prems(2) _ wr]
  then have "run_body tm k tx s1 = (r, tx', s')"
    using WriteWord.prems(5,6) wr by (simp add: tx_write_def assert_mode_def)
  with law c WriteWord.prems WriteWord.IH [of tx s1 r tx' s'] show ?case by auto
next
  case (AllocSeg sz k)
  then have l: "live (handle tx) False s" by auto
  obtain q p s1 where al: "fn_alloc (tl tm) (shared tm) (handle tx) sz s = (q, p, s1)" by (metis prod_cases3)
  note law = alloc_law [OF l al] and c = alloc_calm [OF l AllocSeg.prems(2) al]
  show ?case
  proof (cases q)
    case success
    then have "run_body tm (k p) tx s1 = (r, tx', s')"
      using AllocSeg.prems(6) al by (simp add: tx_alloc_def assert_mode_def)
    with success law c AllocSeg.prems AllocSeg.IH [OF rangeI, of tx s1 p r tx' s'] show ?thesis by auto
  qed (use c AllocSeg.prems al in \<open>auto simp: tx_alloc_def assert_mode_def\<close>)
next
  case (FreeSeg p k)
  then have l: "live (handle tx) False s" by auto
  obtain ok s1 where fr: "fn_free (tl tm) (shared tm) (handle tx) p s = (ok, s1)" by (metis surj_pair)
  note law = free_law [OF l fr] and c = free_calm [OF l FreeSeg.prems(2) fr]
  then have "run_body tm k tx s1 = (r, tx', s')"
    using FreeSeg.prems(6) fr by (simp add: tx_free_def assert_mode_def)
  with law c FreeSeg.prems FreeSeg.IH [of tx s1 r tx' s'] show ?case by auto
qed auto

lemma attempt_begun:
  assumes "ready s" "calm (Suc n) s" "ro \<longrightarrow> reads_only p" "safe p (committed s)"
    "fn_begin (tl tm) (shared tm) ro s = (t, s1)" "t \<noteq> invalid_tx" "attempt tm ro p s = (r, s')"
  shows "calm n s' \<and> (\<exists>q. atomically p (committed s) q (committed s') \<and>
      r = (case q of Inr v \<Rightarrow> Returned v | Inl e \<Rightarrow> Thrown e))"
proof -
  note law = begin_law [OF assms(1,5)] and c = begin_calm [OF assms(1,2,5)]
  let ?tx = "\<lparr>handle = t, aborted = False, tx_ro = ro\<rparr>"
  obtain q tx' s2 where body: "run_body tm p ?tx s1 = (q, tx', s2)" by (metis prod_cases3)
  obtain ended s3 where d: "tx_destroy tm tx' s2 = (ended, s3)" by (metis surj_pair)
  have calm': "\<not> aborted tx'" "fresh (Suc n) t s2"
    using run_body_calm [of ?tx ro s1 "Suc n" p q tx' s2] law c assms(3,4,6) body by auto
  have b': "handle tx' = t" "live t ro s2" "atomically p (committed s) q (tview t s2)"
    using run_body_atomic [of ?tx ro s1 p q tx' s2] law assms(3,4,6) body calm'(1) by auto
  have "fn_end (tl tm) (shared tm) t s2 = (ended, s3)" using d b'(1) calm'(1) by (simp add: tx_destroy_def)
  with end_law [OF b'(2) this] end_calm [OF b'(2) calm'(2) this]
  have e: "ended" "calm n s3" "committed s3 = tview t s2" by simp_all
  have "s' = s3" "r = (case q of Inr v \<Rightarrow> Returned v | Inl e \<Rightarrow> Thrown e)"
    using assms(5-7) body d e(1) by (auto simp: attempt_def tx_construct_def split: sum.splits)
  then show ?thesis using e b'(3) by metis
qed

lemma attempt_calm:
  assumes "ready s" "calm (Suc n) s" "ro \<longrightarrow> reads_only p" "safe p (committed s)"
    "attempt tm ro p s = (r, s')"
  shows "r = Thrown TransactionBegin \<and> calm (Suc n) s' \<and> committed s' = committed s \<or>
    calm n s' \<and> (\<exists>q. atomically p (committed s) q (committed s') \<and>
      r = (case q of Inr v \<Rightarrow> Returned v | Inl e \<Rightarrow> Thrown e))"
proof -
  obtain t s1 where b: "fn_begin (tl tm) (shared tm) ro s = (t, s1)" by (metis surj_pair)
  show ?thesis
  proof (cases "t = invalid_tx")
    case True
    with assms(5) b begin_law [OF assms(1) b] begin_calm [OF assms(1,2) b]
    show ?thesis by (auto simp: attempt_def tx_construct_def)
  qed (use attempt_begun [OF assms(1-4) b _ assms(5)] in blast)
qed

lemma atomically_no_retry:
  "atomically p \<sigma> r \<sigma>' \<Longrightarrow> safe p \<sigma> \<Longrightarrow> r \<noteq> Inl TransactionRetry"
  by (induction rule: atomically.induct) auto

lemma result_no_retry:
  assumes "atomically p \<sigma> q \<sigma>'" "safe p \<sigma>" "r = (case q of Inr v \<Rightarrow> Returned v | Inl e \<Rightarrow> Thrown e)"
  shows "\<not> is_retry r"
proof -
  have "q \<noteq> Inl TransactionRetry" by (rule atomically_no_retry [OF assms(1,2)])
  then show ?thesis using assms(3) by (cases q) (auto simp: is_retry_def split: exn.splits)
qed

text \<open>Without contention \<open>transactional\<close> returns, and its first attempt took effect.\<close>

lemma attempt_settles:
  assumes "ready s" "calm (Suc n) s" "ro \<longrightarrow> reads_only p" "safe p (committed s)"
  shows "\<exists>r s'. attempt tm ro p s = (r, s') \<and> \<not> is_retry r \<and> ready s' \<and>
    (r = Thrown TransactionBegin \<and> calm (Suc n) s' \<and> committed s' = committed s \<or>
     calm n s' \<and> (\<exists>q. atomically p (committed s) q (committed s') \<and>
       r = (case q of Inr v \<Rightarrow> Returned v | Inl e \<Rightarrow> Thrown e)))"
proof -
  obtain r s' where at: "attempt tm ro p s = (r, s')" by (metis surj_pair)
  have once: "attempted p s r s'" by (rule attempt_atomic [OF assms(1,3,4) at])
  note c = attempt_calm [OF assms at]
  then have "\<not> is_retry r" using result_no_retry [OF _ assms(4), of _ "committed s'" r] by (auto simp: is_retry_def)
  moreover have "ready s'" using once by (simp add: attempted_def)
  ultimately show ?thesis using at c by blast
qed

lemma transactional_calm:
  assumes "ready s" "calm (Suc n) s" "ro \<longrightarrow> reads_only p" "safe p (committed s)"
  shows "\<exists>r s'. transactional tm ro p s = Some (r, s') \<and> ready s' \<and>
    (r = Thrown TransactionBegin \<and> calm (Suc n) s' \<and> committed s' = committed s \<or>
     calm n s' \<and> (\<exists>q. atomically p (committed s) q (committed s') \<and>
       r = (case q of Inr v \<Rightarrow> Returned v | Inl e \<Rightarrow> Thrown e)))"
  using attempt_settles [OF assms] by (subst transactional.simps) auto

lemma transactional_with_calm:
  assumes "ready s" "calm (Suc n) s" "ro \<longrightarrow> reads_only (func c)" "safe (func c) (committed s)"
  shows "\<exists>r s'. transactional_with tm ro func leave c s = Some (r, s') \<and> ready s' \<and>
    (r = Thrown TransactionBegin \<and> calm (Suc n) s' \<and> committed s' = committed s \<or>
     calm n s' \<and> (\<exists>q. atomically (func c) (committed s) q (committed s') \<and>
       r = (case q of Inr v \<Rightarrow> Returned v | Inl e \<Rightarrow> Thrown e)))"
  using attempt_settles [OF assms] by (subst transactional_with.simps) auto

lemma transactional_begun:
  assumes "ready s" "calm (Suc n) s" "ro \<longrightarrow> reads_only p" "safe p (committed s)"
    "fst (fn_begin (tl tm) (shared tm) ro s) \<noteq> invalid_tx"
  shows "\<exists>r s'. transactional tm ro p s = Some (r, s') \<and> calm n s' \<and>
    (\<exists>q. atomically p (committed s) q (committed s') \<and>
       r = (case q of Inr v \<Rightarrow> Returned v | Inl e \<Rightarrow> Thrown e))"
proof -
  obtain t s1 where b: "fn_begin (tl tm) (shared tm) ro s = (t, s1)" by (metis surj_pair)
  obtain r s' where at: "attempt tm ro p s = (r, s')" by (metis surj_pair)
  have "t \<noteq> invalid_tx" using assms(5) b by simp
  note c = attempt_begun [OF assms(1-4) b this at]
  then have "\<not> is_retry r" using result_no_retry [OF _ assms(4), of _ "committed s'" r] by auto
  then have "transactional tm ro p s = Some (r, s')"
    by (subst transactional.simps) (simp add: at)
  then show ?thesis using c by blast
qed

end

end
