(* ===== verification/Seq_Client.thy ===== *)
theory Seq_Client
  imports TM_Client
begin

text \<open>
  The library of \<open>394984/tm.cpp\<close>, called by one client at a time, is an atomic memory: the
  contract of \<open>TM_Client\<close> holds of the whole-call model, whatever the allocator returns, in
  whatever order the containers are iterated and whichever compare-and-swap fails spuriously.
\<close>

section \<open>The library as a record of functions\<close>

text \<open>
  The environment: what allocations return, spurious failures, an order for each container and
  the address of the private word through which the client reads and writes. A fault of
  \<open>tm_create\<close>, whose behaviour C++ leaves undefined, is \<open>None\<close>. The buffer of a written word can always
  be allocated here: when it cannot, the call is undefined (\<open>TM_Ownership\<close>) and nothing is claimed of
  the client. The other calls have no fault on live handles, and the laws below are proved by
  showing that a client of \<open>transactional()\<close> passes no other, so it does not matter what the record
  answers for a dead one.
\<close>

record environment =
  pick_region :: "heap \<Rightarrow> addr"
  pick_locks :: "heap \<Rightarrow> addr"
  pick_txn :: "heap \<Rightarrow> addr"
  pick_seg :: "heap \<Rightarrow> nat \<Rightarrow> addr"
  spurious_at :: "heap \<Rightarrow> addr \<Rightarrow> bool"
  order_of :: "addr set \<Rightarrow> addr list"
  stack_word :: addr

definition enumerate_set :: "environment \<Rightarrow> addr set \<Rightarrow> addr list" where
  "enumerate_set env S =
     (let xs = order_of env S
      in if distinct xs \<and> set xs = S then xs else sorted_list_of_set S)"

text \<open>An allocator never returns memory of the client's stack.\<close>

definition heap_pointer :: "environment \<Rightarrow> heap \<Rightarrow> nat \<Rightarrow> addr" where
  "heap_pointer env h sz =
     (let p = pick_seg env h sz in if overlaps p sz (stack_word env) 8 then 0 else p)"

definition seq_library :: "environment \<Rightarrow> heap TransactionalLibrary" where
  "seq_library env =
     \<lparr>fn_create = (\<lambda>sz al h.
        case tm_create (pick_region env h) (pick_locks env h) (heap_pointer env h sz) sz al h of
          Inl e \<Rightarrow> None | Inr r \<Rightarrow> Some r),
      fn_destroy = (\<lambda>shared h. case tm_destroy shared h of Inl e \<Rightarrow> h | Inr h' \<Rightarrow> h'),
      fn_start = (\<lambda>shared h. case tm_start shared h of Inl e \<Rightarrow> 0 | Inr p \<Rightarrow> p),
      fn_size = (\<lambda>shared h. case tm_size shared h of Inl e \<Rightarrow> 0 | Inr n \<Rightarrow> n),
      fn_align = (\<lambda>shared h. case tm_align shared h of Inl e \<Rightarrow> 0 | Inr n \<Rightarrow> n),
      fn_begin = (\<lambda>shared ro h. tm_begin (pick_txn env h) shared ro h),
      fn_end = (\<lambda>shared tx h.
        case txns h tx of None \<Rightarrow> (False, h)
        | Some x \<Rightarrow>
            (case tm_end (spurious_at env h) (enumerate_set env (dom (write_set x)))
                    (enumerate_set env (read_set x)) shared tx h of
               Inl e \<Rightarrow> (False, h) | Inr r \<Rightarrow> r)),
      fn_read = (\<lambda>shared tx source sz h.
        case tm_read shared tx source sz (stack_word env) h of
          Inl e \<Rightarrow> (False, [], h)
        | Inr (ok, h') \<Rightarrow> (ok, load_bytes (mem h') (stack_word env) sz, h')),
      fn_write = (\<lambda>shared tx source sz target h.
        case tm_write (\<lambda>_. True) shared tx (stack_word env) sz target
               (h\<lparr>mem := store_bytes (mem h) (stack_word env) source\<rparr>) of
          Inl e \<Rightarrow> (False, h) | Inr r \<Rightarrow> r),
      fn_alloc = (\<lambda>shared tx sz h.
        case tm_alloc (heap_pointer env h sz) shared tx sz h of
          Inl e \<Rightarrow> (abort_alloc, 0, h)
        | Inr (r, target, h') \<Rightarrow> (r, (case target of None \<Rightarrow> 0 | Some p \<Rightarrow> p), h')),
      fn_free = (\<lambda>shared tx target h. tm_free shared tx target h)\<rparr>"

definition seq_memory :: "environment \<Rightarrow> addr \<Rightarrow> addr \<Rightarrow> nat \<Rightarrow> heap TransactionalMemory" where
  "seq_memory env sh st n = \<lparr>tl = seq_library env, shared = sh, start_addr = st, start_size = n, alignment = 8\<rparr>"

lemma enumerate_set_orders:
  "finite S \<Longrightarrow> distinct (enumerate_set env S)" "finite S \<Longrightarrow> set (enumerate_set env S) = S"
  by (simp_all add: enumerate_set_def Let_def)

section \<open>The words of a region and of a transaction\<close>

definition words_of :: "heap \<Rightarrow> addr set \<Rightarrow> addr set" where
  "words_of h ps = (\<Union>p \<in> ps. case blocks h p of None \<Rightarrow> {} | Some n \<Rightarrow> seg_words p n)"

text \<open>Blocks for words of eight bytes, away from the client's private word.\<close>

definition word_blocks :: "environment \<Rightarrow> heap \<Rightarrow> addr set \<Rightarrow> bool" where
  "word_blocks env h ps \<longleftrightarrow> (\<forall>p \<in> ps. \<forall>n. blocks h p = Some n \<longrightarrow>
     word_aligned 8 p \<and> unat p + n < 2 ^ 64 \<and> \<not> overlaps p n (stack_word env) 8)"

definition contents :: "addr set \<Rightarrow> (addr \<Rightarrow> bytes) \<Rightarrow> store" where
  "contents A f = (A, \<lambda>a. if a \<in> A then decode (f a) else 0)"

lemma seg_words_range:
  assumes "a \<in> seg_words p n" "unat p + n < 2 ^ 64"
  shows "unat p \<le> unat a" "unat a + 8 \<le> unat p + n" "8 dvd unat a - unat p"
proof -
  obtain k where k: "k < n div 8" "a = p + of_nat (8 * k)"
    using assms(1) by (auto simp: seg_words_def)
  then have n: "8 * k + 8 \<le> n" by simp
  have "unat a = unat p + 8 * k" unfolding k(2) using n assms(2) by (intro unat_add_small) simp
  then show "unat p \<le> unat a" "unat a + 8 \<le> unat p + n" "8 dvd unat a - unat p" using n by simp_all
qed

lemma seg_words_pos: "p \<noteq> 0 \<Longrightarrow> unat p + n < 2 ^ 64 \<Longrightarrow> 0 \<notin> seg_words p n"
  using seg_words_range(1) [of 0 p n] by (auto simp: unat_eq_0)

lemma words_of_facts:
  assumes "a \<in> words_of h ps" "word_blocks env h ps"
  shows "word_aligned 8 a" "buffer a 8"
    "in_block a 8 y \<Longrightarrow> unat (stack_word env) + 8 \<le> 2 ^ 64 \<Longrightarrow> \<not> in_block (stack_word env) 8 y"
proof -
  obtain p n where p: "p \<in> ps" "blocks h p = Some n" "a \<in> seg_words p n"
    using assms(1) by (auto simp: words_of_def split: option.splits)
  then have b: "word_aligned 8 p" "unat p + n < 2 ^ 64" "\<not> overlaps p n (stack_word env) 8"
    using assms(2) by (auto simp: word_blocks_def)
  note r = seg_words_range [OF p(3) b(2)]
  have "8 dvd unat p + (unat a - unat p)" using b(1) r(3) by (simp add: word_aligned_def)
  then show "word_aligned 8 a" using r(1) by (simp add: word_aligned_def)
  show buf: "buffer a 8" using r b(2) by (simp add: buffer_def)
  show "\<not> in_block (stack_word env) 8 y" if "in_block a 8 y" "unat (stack_word env) + 8 \<le> 2 ^ 64"
    using that buf b(3) r by (auto simp: in_block_buffer buffer_def overlaps_def)
qed

lemma load_stack_store:
  assumes "a \<in> words_of h ps" "word_blocks env h ps" "unat (stack_word env) + 8 \<le> 2 ^ 64"
    "length v = 8"
  shows "load_bytes (store_bytes m (stack_word env) v) a 8 = load_bytes m a 8"
proof (rule load_store_disjoint)
  show "\<not> in_block a 8 x" if "in_block (stack_word env) (length v) x" for x
    using words_of_facts(3) [OF assms(1,2) _ assms(3), of x] that assms(4) by auto
qed simp

lemma contents_cong: "(\<And>a. a \<in> A \<Longrightarrow> f a = g a) \<Longrightarrow> contents A f = contents A g"
  by (auto simp: contents_def)

lemma words_of_cong: "(\<And>p. p \<in> ps \<Longrightarrow> blocks h' p = blocks h p) \<Longrightarrow> words_of h' ps = words_of h ps"
  by (simp add: words_of_def)

lemma word_blocks_cong:
  "(\<And>p. p \<in> ps \<Longrightarrow> blocks h' p = blocks h p) \<Longrightarrow> word_blocks env h' ps = word_blocks env h ps"
  by (simp add: word_blocks_def)

lemma words_of_Un: "words_of h (ps \<union> qs) = words_of h ps \<union> words_of h qs"
  by (simp add: words_of_def)

lemma word_blocks_Un: "word_blocks env h (ps \<union> qs) \<longleftrightarrow> word_blocks env h ps \<and> word_blocks env h qs"
  by (auto simp: word_blocks_def)

section \<open>States of the client\<close>

abbreviation region_segs :: "addr \<Rightarrow> heap \<Rightarrow> addr set" where
  "region_segs sh h \<equiv> set (segs h (RegionOwner sh))"

abbreviation txn_segs :: "addr \<Rightarrow> heap \<Rightarrow> addr set" where
  "txn_segs t h \<equiv> set (segs h (TxnOwner t))"

definition unlocked_region :: "addr \<Rightarrow> heap \<Rightarrow> bool" where
  "unlocked_region sh h \<longleftrightarrow>
     (\<exists>region ls. regions h sh = Some region \<and> align region = 8 \<and>
        lock_arrays h (locks region) = Some ls \<and> (\<forall>l. \<not> vl_isLocked (ls l)))"

definition region_ready :: "environment \<Rightarrow> addr \<Rightarrow> heap \<Rightarrow> bool" where
  "region_ready env sh h \<longleftrightarrow> heap_ok h \<and> unat (stack_word env) + 8 \<le> 2 ^ 64 \<and>
     word_blocks env h (region_segs sh h) \<and> unlocked_region sh h"

definition txn_words :: "addr \<Rightarrow> addr \<Rightarrow> heap \<Rightarrow> addr set" where
  "txn_words sh t h = words_of h (region_segs sh h \<union> txn_segs t h)"

definition txn_fits :: "addr \<Rightarrow> addr \<Rightarrow> bool \<Rightarrow> heap \<Rightarrow> Transaction \<Rightarrow> bool" where
  "txn_fits sh t ro h x \<longleftrightarrow> is_ro x = ro \<and> finite (dom (write_set x)) \<and> finite (read_set x) \<and>
     (\<forall>a v. write_set x a = Some v \<longrightarrow> length v = 8 \<and> a \<in> txn_words sh t h) \<and>
     (ro \<longrightarrow> write_set x = Map.empty \<and> txn_seg_list x = [])"

definition txn_live :: "environment \<Rightarrow> addr \<Rightarrow> addr \<Rightarrow> bool \<Rightarrow> heap \<Rightarrow> bool" where
  "txn_live env sh t ro h \<longleftrightarrow> region_ready env sh h \<and> word_blocks env h (txn_segs t h) \<and>
     (\<exists>x. txns h t = Some x \<and> txn_fits sh t ro h x)"

definition seq_committed :: "addr \<Rightarrow> heap \<Rightarrow> store" where
  "seq_committed sh h = contents (words_of h (region_segs sh h)) (\<lambda>a. load_bytes (mem h) a 8)"

definition seq_view :: "addr \<Rightarrow> addr \<Rightarrow> heap \<Rightarrow> store" where
  "seq_view sh t h = contents (txn_words sh t h)
     (view 8 (mem h) (case txns h t of None \<Rightarrow> Map.empty | Some x \<Rightarrow> visible x))"

text \<open>Updating the transaction object and the private word keeps the client's state.\<close>

lemma segs_put_txn:
  assumes "txns h t = Some x" "txn_seg_list x' = txn_seg_list x"
  shows "segs (put_txn t x' (h\<lparr>mem := m\<rparr>)) = segs h"
proof
  fix i show "segs (put_txn t x' (h\<lparr>mem := m\<rparr>)) i = segs h i"
    using assms by (cases i) (simp_all add: put_txn_def)
qed

lemma put_txn_ready:
  assumes "region_ready env sh h" "txns h t = Some x" "txn_seg_list x' = txn_seg_list x"
  shows "region_ready env sh (put_txn t x' (h\<lparr>mem := m\<rparr>))"
proof -
  have "heap_ok (put_txn t x' (h\<lparr>gvc := gvc h, mem := m\<rparr>))"
    using assms by (intro heap_ok_put_txn) (simp_all add: region_ready_def)
  moreover have "blocks (put_txn t x' (h\<lparr>mem := m\<rparr>)) = blocks h" by (simp add: put_txn_def)
  ultimately show ?thesis
    using assms segs_put_txn [OF assms(2,3), of m] word_blocks_cong [of _ "put_txn t x' (h\<lparr>mem := m\<rparr>)" h env]
    by (simp add: region_ready_def unlocked_region_def) (simp add: put_txn_def)
qed

lemma put_txn_words:
  assumes "txns h t = Some x" "txn_seg_list x' = txn_seg_list x"
  shows "txn_words sh t (put_txn t x' (h\<lparr>mem := m\<rparr>)) = txn_words sh t h"
    "words_of (put_txn t x' (h\<lparr>mem := m\<rparr>)) (region_segs sh (put_txn t x' (h\<lparr>mem := m\<rparr>)))
      = words_of h (region_segs sh h)"
  unfolding txn_words_def segs_put_txn [OF assms] by (rule words_of_cong; simp add: put_txn_def)+

lemma put_txn_live:
  assumes "txn_live env sh t ro h" "txns h t = Some x" "txn_seg_list x' = txn_seg_list x"
    and "txn_fits sh t ro h x'"
  shows "txn_live env sh t ro (put_txn t x' (h\<lparr>mem := m\<rparr>))"
proof -
  have "word_blocks env (put_txn t x' (h\<lparr>mem := m\<rparr>)) (txn_segs t h)"
    using assms(1) word_blocks_cong [of "txn_segs t h" "put_txn t x' (h\<lparr>mem := m\<rparr>)" h env]
    by (simp add: txn_live_def) (simp add: put_txn_def)
  moreover have "txn_fits sh t ro (put_txn t x' (h\<lparr>mem := m\<rparr>)) x'"
    using assms(4) put_txn_words(1) [OF assms(2,3), of sh m] by (simp add: txn_fits_def)
  ultimately show ?thesis
    using assms put_txn_ready [OF _ assms(2,3)] segs_put_txn [OF assms(2,3), of m]
    by (simp add: txn_live_def) (simp add: put_txn_def)
qed

text \<open>Deleting the transaction leaves the region and its words.\<close>

lemma deleted_ready:
  assumes "region_ready env sh h" "txns h t = Some x"
  shows "region_ready env sh (txn_deleted t x h)"
    "words_of (txn_deleted t x h) (region_segs sh (txn_deleted t x h)) = words_of h (region_segs sh h)"
    "region_segs sh (txn_deleted t x h) = region_segs sh h"
proof -
  have hok: "heap_ok h" using assms(1) by (simp add: region_ready_def)
  have seg: "region_segs sh (txn_deleted t x h) = region_segs sh h" by (simp add: txn_deleted_def)
  then show "region_segs sh (txn_deleted t x h) = region_segs sh h" .
  have "p \<notin> set (txn_seg_list x)" if "p \<in> region_segs sh h" for p
    using ownsD(2) [OF heap_okD(1) [OF hok], of p "RegionOwner sh" "TxnOwner t"] that assms(2) by auto
  then have same: "blocks (txn_deleted t x h) p = blocks h p" if "p \<in> region_segs sh h" for p
    using that by (simp add: txn_deleted_def)
  show "words_of (txn_deleted t x h) (region_segs sh (txn_deleted t x h)) = words_of h (region_segs sh h)"
    unfolding seg by (rule words_of_cong) (rule same)
  have "word_blocks env (txn_deleted t x h) (region_segs sh h)"
    using assms(1) word_blocks_cong [of "region_segs sh h" "txn_deleted t x h" h env] same
    by (simp add: region_ready_def del: segs.simps)
  then show "region_ready env sh (txn_deleted t x h)"
    using assms(1) delete_txn_ok(2) [OF hok assms(2)] seg
    by (simp add: region_ready_def unlocked_region_def del: segs.simps) (simp add: txn_deleted_def)
qed

section \<open>The laws, call by call\<close>

lemma live_unpack:
  assumes "txn_live env sh t ro h"
  obtains x region ls where "live_in h sh t region ls x" "align region = 8"
    "\<And>l. \<not> vl_isLocked (ls l)" "txn_fits sh t ro h x" "region_ready env sh h" "txns h t = Some x"
    "word_blocks env h (region_segs sh h \<union> txn_segs t h)" "unat (stack_word env) + 8 \<le> 2 ^ 64"
  using assms that
  by (auto simp: txn_live_def region_ready_def unlocked_region_def live_in_def word_blocks_Un simp del: segs.simps)

lemma seq_begin_law:
  assumes "region_ready env sh h" "tm_begin p sh ro h = (t, h')"
  shows "seq_committed sh h' = seq_committed sh h \<and>
    (if t = invalid_tx then region_ready env sh h'
     else txn_live env sh t ro h' \<and> seq_view sh t h' = seq_committed sh h)"
proof (cases "p \<noteq> 0 \<and> p \<noteq> invalid_tx \<and> txns h p = None")
  case True
  then have t: "t = p" and h': "h' = put_txn p (new_Transaction (gvc h) ro) h"
    using assms(2) by (auto simp: tm_begin_def)
  have hok: "heap_ok h'"
    using tm_begin_ok [of h p sh ro t h'] assms by (simp add: region_ready_def)
  have segs: "segs h' = segs h"
  proof
    fix i show "segs h' i = segs h i"
      using True by (cases i) (simp_all add: h' put_txn_def new_Transaction_def)
  qed
  have bl: "blocks h' = blocks h" "mem h' = mem h" "regions h' = regions h" "lock_arrays h' = lock_arrays h"
    "txns h' t = Some (new_Transaction (gvc h) ro)"
    by (simp_all add: h' put_txn_def t)
  have none: "txn_segs t h = {}" using True t by simp
  have w: "words_of h' ps = words_of h ps" "word_blocks env h' ps = word_blocks env h ps" for ps
    by (simp_all add: words_of_def word_blocks_def bl)
  have ready: "region_ready env sh h'"
    using assms(1) hok by (simp add: region_ready_def unlocked_region_def segs bl w del: segs.simps)
  have "txn_fits sh t ro h' (new_Transaction (gvc h) ro)"
    by (simp add: txn_fits_def new_Transaction_def)
  then have "txn_live env sh t ro h'"
    using ready none by (simp add: txn_live_def bl segs w word_blocks_def del: segs.simps)
  moreover have "seq_committed sh h' = seq_committed sh h"
    by (simp add: seq_committed_def segs w bl del: segs.simps)
  moreover have "seq_view sh t h' = seq_committed sh h"
    using none unfolding seq_view_def seq_committed_def txn_words_def segs w bl
    by (intro contents_cong arg_cong2 [where f = contents])
       (auto simp: view_def visible_def new_Transaction_def fun_eq_iff simp del: segs.simps)
  moreover have "t \<noteq> invalid_tx" using True t by simp
  ultimately show ?thesis by simp
qed (use assms in \<open>auto simp: tm_begin_def\<close>)

lemma txn_words_Un: "txn_words sh t h = words_of h (region_segs sh h) \<union> words_of h (txn_segs t h)"
  by (simp add: txn_words_def words_of_Un)

text \<open>Writing the private word changes neither the committed memory nor the view.\<close>

lemma put_txn_stores:
  assumes "txn_live env sh t ro h" "txns h t = Some x" "txn_seg_list x' = txn_seg_list x"
    "length v = 8"
  shows "seq_committed sh (put_txn t x' (h\<lparr>mem := store_bytes (mem h) (stack_word env) v\<rparr>)) = seq_committed sh h"
    and "seq_view sh t (put_txn t x' (h\<lparr>mem := store_bytes (mem h) (stack_word env) v\<rparr>))
      = contents (txn_words sh t h) (view 8 (mem h) (visible x'))"
proof -
  let ?h = "put_txn t x' (h\<lparr>mem := store_bytes (mem h) (stack_word env) v\<rparr>)"
  have wb: "word_blocks env h (region_segs sh h \<union> txn_segs t h)" "unat (stack_word env) + 8 \<le> 2 ^ 64"
    using assms(1) by (simp_all add: txn_live_def region_ready_def word_blocks_Un del: segs.simps)
  have m: "mem ?h = store_bytes (mem h) (stack_word env) v" by (simp add: put_txn_def)
  have ld: "load_bytes (mem ?h) a 8 = load_bytes (mem h) a 8" if "a \<in> txn_words sh t h" for a
    unfolding m using that by (intro load_stack_store [OF _ wb assms(4)]) (simp add: txn_words_def)
  have "load_bytes (mem ?h) a 8 = load_bytes (mem h) a 8" if "a \<in> words_of h (region_segs sh h)" for a
    using that by (intro ld) (simp add: txn_words_Un del: segs.simps)
  then show "seq_committed sh ?h = seq_committed sh h"
    unfolding seq_committed_def put_txn_words(2) [OF assms(2,3)] by (rule contents_cong)
  have "txns ?h t = Some x'" by (simp add: put_txn_def)
  then show "seq_view sh t ?h = contents (txn_words sh t h) (view 8 (mem h) (visible x'))"
    unfolding seq_view_def put_txn_words(1) [OF assms(2,3)]
    using ld by (auto intro!: contents_cong view_cong)
qed

lemma deleted_committed:
  assumes "region_ready env sh h" "txns h t = Some x"
  shows "seq_committed sh (txn_deleted t x h) = seq_committed sh h"
  unfolding seq_committed_def deleted_ready(2) [OF assms] by (simp add: txn_deleted_def)

text \<open>\<open>tm_read\<close> of one word.\<close>

lemma tm_read_word:
  assumes "live_in h sh t region ls x" "align region = 8"
  shows "tm_read sh t a 8 st h =
    (if readable ls (rv x) a
     then Inr (True, put_txn t (if is_ro x then x else x\<lparr>read_set := insert a (read_set x)\<rparr>)
            (h\<lparr>mem := store_bytes (mem h) st (view 8 (mem h) (visible x) a)\<rparr>))
     else give_up t h)"
proof -
  have h: "txns h t = Some x" "regions h sh = Some region" "lock_arrays h (locks region) = Some ls"
    using assms(1) by (simp_all add: live_in_def)
  have z: "put_txn t x h = h" using h(1) by (simp add: put_txn_def fun_upd_idem)
  have ro: "read_ro_loop 8 ls x a st 8 0 (mem h) =
      (if readable ls (rv x) a then (True, x, store_bytes (mem h) st (load_bytes (mem h) a 8))
       else (False, x, mem h))"
    by (subst read_ro_loop.simps, subst read_ro_loop.simps)
       (auto simp: Let_def readable_def not_less not_le memcpy_def)
  have rw: "read_rw_loop 8 ls x a st 8 0 (mem h) =
      (if readable ls (rv x) a
       then (True, x\<lparr>read_set := insert a (read_set x)\<rparr>, store_bytes (mem h) st (view 8 (mem h) (write_set x) a))
       else (False, x, mem h))"
    by (subst read_rw_loop.simps, subst read_rw_loop.simps)
       (auto simp: Let_def readable_def not_less not_le memcpy_def view_def split: option.split)
  show ?thesis
    using h ro rw z assms(2)
    by (simp add: tm_read_def the_txn_def the_region_def the_locks_def visible_def view_def)
qed

lemma seq_read_law:
  assumes "txn_live env sh t ro h" "a \<in> fst (seq_view sh t h)"
    and "fn_read (seq_library env) sh t a 8 h = (ok, bs, h')"
  shows "seq_committed sh h' = seq_committed sh h \<and>
    (if ok then txn_live env sh t ro h' \<and> seq_view sh t h' = seq_view sh t h \<and>
       decode bs = snd (seq_view sh t h) a
     else region_ready env sh h')"
proof -
  obtain x region ls where l: "live_in h sh t region ls x" "align region = 8" "txn_fits sh t ro h x"
    "region_ready env sh h" "txns h t = Some x" "unat (stack_word env) + 8 \<le> 2 ^ 64"
    using live_unpack [OF assms(1)] by metis
  let ?v = "view 8 (mem h) (visible x) a"
  let ?x = "if is_ro x then x else x\<lparr>read_set := insert a (read_set x)\<rparr>"
  have v: "length ?v = 8"
    using l(3) by (intro view_length) (auto simp: txn_fits_def visible_def split: if_splits)
  have hok: "heap_ok h" using l(4) by (simp add: region_ready_def)
  have view: "seq_view sh t h = contents (txn_words sh t h) (view 8 (mem h) (visible x))"
    using l(5) by (simp add: seq_view_def)
  show ?thesis
  proof (cases "readable ls (rv x) a")
    case True
    let ?h = "put_txn t ?x (h\<lparr>mem := store_bytes (mem h) (stack_word env) ?v\<rparr>)"
    have "mem ?h = store_bytes (mem h) (stack_word env) ?v" by (simp add: put_txn_def)
    then have "load_bytes (mem ?h) (stack_word env) 8 = ?v" using v by (simp add: load_store_same)
    then have r: "ok = True" "bs = ?v" "h' = ?h"
      using assms(3) tm_read_word [OF l(1,2), of a "stack_word env"] True by (auto simp: seq_library_def)
    have s: "txn_seg_list ?x = txn_seg_list x" "visible ?x = visible x" by (simp_all add: visible_def)
    have "txn_fits sh t ro h ?x" using l(3) by (auto simp: txn_fits_def)
    then have "txn_live env sh t ro ?h" by (rule put_txn_live [OF assms(1) l(5) s(1)])
    moreover have "seq_view sh t ?h = seq_view sh t h"
      using put_txn_stores(2) [OF assms(1) l(5) s(1) v] s(2) view by simp
    moreover have "decode ?v = snd (seq_view sh t h) a"
      using assms(2) by (simp add: view contents_def)
    ultimately show ?thesis using r put_txn_stores(1) [OF assms(1) l(5) s(1) v] by simp
  next
    case False
    have "give_up t h = Inr (False, txn_deleted t x h)" by (rule give_up_ok [OF hok l(5)])
    then have "ok = False" "h' = txn_deleted t x h"
      using assms(3) tm_read_word [OF l(1,2), of a "stack_word env"] False by (simp_all add: seq_library_def)
    then show ?thesis using deleted_ready(1) [OF l(4,5)] deleted_committed [OF l(4,5)] by simp
  qed
qed

lemma word_blocks_live: "txn_live env sh t ro h \<Longrightarrow> word_blocks env h (region_segs sh h \<union> txn_segs t h)"
  by (simp add: txn_live_def region_ready_def word_blocks_Un del: segs.simps)

text \<open>\<open>tm_write\<close> of one word, its source being the client's private word.\<close>

lemma tm_write_word:
  assumes "txns h t = Some x" "regions h sh = Some region" "align region = 8" "length v = 8"
  shows "tm_write (\<lambda>_. True) sh t st 8 a (h\<lparr>mem := store_bytes (mem h) st v\<rparr>) =
    Inr (True, put_txn t (x\<lparr>write_set := (write_set x)(a \<mapsto> v)\<rparr>) (h\<lparr>mem := store_bytes (mem h) st v\<rparr>))"
proof -
  let ?m = "store_bytes (mem h) st v"
  have ld: "load_bytes ?m st 8 = v" using assms(4) by (simp add: load_store_same)
  have "write_words (\<lambda>_. True) ?m 8 st a 8 0 (write_set x) = Inr ((write_set x)(a \<mapsto> v))"
    by (subst write_words.simps, subst write_words.simps) (simp add: new_WriteOperation_def ld)
  then show ?thesis
    using assms(1-3) by (simp add: tm_write_def the_txn_def tm_align_def the_region_def)
qed

lemma seq_write_law:
  assumes "txn_live env sh t False h" "a \<in> fst (seq_view sh t h)"
    and "fn_write (seq_library env) sh t (encode v) 8 a h = (ok, h')"
  shows "seq_committed sh h' = seq_committed sh h \<and>
    (if ok then txn_live env sh t False h' \<and> seq_view sh t h' = set_word a v (seq_view sh t h)
     else region_ready env sh h')"
proof -
  obtain x region ls where l: "live_in h sh t region ls x" "align region = 8" "txn_fits sh t False h x"
    "txns h t = Some x"
    using live_unpack [OF assms(1)] by metis
  let ?x = "x\<lparr>write_set := (write_set x)(a \<mapsto> encode v)\<rparr>"
  let ?h = "put_txn t ?x (h\<lparr>mem := store_bytes (mem h) (stack_word env) (encode v)\<rparr>)"
  have a: "a \<in> txn_words sh t h" using assms(2) by (simp add: seq_view_def contents_def)
  have "regions h sh = Some region" using l(1) by (simp add: live_in_def)
  then have r: "ok = True" "h' = ?h"
    using assms(3) tm_write_word [OF l(4) _ l(2), of sh "encode v" "stack_word env" a]
    by (auto simp: seq_library_def)
  have s: "txn_seg_list ?x = txn_seg_list x" by simp
  have "txn_fits sh t False h ?x" using l(3) a by (auto simp: txn_fits_def)
  then have "txn_live env sh t False ?h" by (rule put_txn_live [OF assms(1) l(4) s])
  moreover have "contents (txn_words sh t h) (view 8 (mem h) (visible ?x))
      = set_word a v (contents (txn_words sh t h) (view 8 (mem h) (visible x)))"
    using a l(3) by (auto simp: contents_def set_word_def view_def visible_def txn_fits_def)
  ultimately show ?thesis
    using r put_txn_stores [OF assms(1) l(4) s, of "encode v"] l(4) by (simp add: seq_view_def)
qed

lemma fresh_words:
  assumes "block_ok h 8 sz p" "word_blocks env h ps" "\<And>q. q \<in> ps \<Longrightarrow> blocks h q \<noteq> None"
  shows "seg_words p sz \<inter> words_of h ps = {}"
proof -
  have False if a: "a \<in> seg_words p sz" "q \<in> ps" "blocks h q = Some n" "a \<in> seg_words q n" for a q n
  proof -
    have p: "unat p + sz < 2 ^ 64" "\<not> overlaps p sz q n" using assms(1) a(3) by (auto simp: block_ok_def)
    have q: "unat q + n < 2 ^ 64" using assms(2) a(2,3) by (auto simp: word_blocks_def)
    show False
      using seg_words_range [OF a(1) p(1)] seg_words_range [OF a(4) q] p(2) by (auto simp: overlaps_def)
  qed
  then show ?thesis by (fastforce simp: words_of_def split: option.splits)
qed

text \<open>A fresh zeroed segment: no word in use changes.\<close>

lemma memset_outside:
  assumes "block_ok h 8 sz p" "word_blocks env h ps" "a \<in> words_of h ps"
  shows "load_bytes (memset m p 0 sz) a 8 = load_bytes m a 8"
proof -
  obtain q n where q: "q \<in> ps" "blocks h q = Some n" "a \<in> seg_words q n"
    using assms(3) by (auto simp: words_of_def split: option.splits)
  have b: "unat p + sz < 2 ^ 64" "\<not> overlaps p sz q n" "unat q + n < 2 ^ 64"
    using assms(1,2) q by (auto simp: block_ok_def word_blocks_def)
  note r = seg_words_range [OF q(3) b(3)]
  show ?thesis
    unfolding memset_def
  proof (rule load_store_disjoint)
    fix y assume "in_block p (length (replicate sz (0 :: byte))) y"
    then show "\<not> in_block a 8 y"
      using b r by (auto simp: in_block_buffer buffer_def overlaps_def)
  qed simp
qed

lemma memset_inside:
  assumes "unat p + sz < 2 ^ 64" "a \<in> seg_words p sz"
  shows "decode (load_bytes (memset m p 0 sz) a 8) = 0"
proof -
  note r = seg_words_range [OF assms(2,1)]
  have "memset m p 0 sz y = 0" if "in_block a 8 y" for y
  proof -
    have "in_block p sz y"
      using that r assms(1) by (auto simp: in_block_buffer buffer_def)
    then show ?thesis by (simp add: memset_def store_bytes_def in_block_def)
  qed
  then have "load_bytes (memset m p 0 sz) a 8 = replicate 8 0" by (intro load_bytes_zero) simp_all
  moreover have "decode (replicate n 0) = 0" for n by (induction n) simp_all
  ultimately show ?thesis by simp
qed

lemma live_blocks:
  assumes "heap_ok h" "p \<in> set (segs h i)"
  shows "blocks h p \<noteq> None"
  using owns_subset [OF heap_okD(1) [OF assms(1)], of i] assms(2) by auto

lemma seq_alloc_law:
  assumes "txn_live env sh t False h"
    and "fn_alloc (seq_library env) sh t sz h = (r, p, h')"
  shows "seq_committed sh h' = seq_committed sh h \<and>
    (case r of
       success \<Rightarrow> txn_live env sh t False h' \<and> fresh_segment p sz (seq_view sh t h) \<and>
         seq_view sh t h' = add_segment p sz (seq_view sh t h)
     | nomem \<Rightarrow> txn_live env sh t False h' \<and> seq_view sh t h' = seq_view sh t h
     | abort_alloc \<Rightarrow> region_ready env sh h')"
proof -
  obtain x region ls where l: "live_in h sh t region ls x" "align region = 8" "txn_fits sh t False h x"
    "region_ready env sh h" "txns h t = Some x"
    using live_unpack [OF assms(1)] by metis
  have hok: "heap_ok h" and reg: "regions h sh = Some region" using l(1) by (simp_all add: live_in_def)
  note wb = word_blocks_live [OF assms(1)]
  let ?q = "heap_pointer env h sz" and ?old = "region_segs sh h \<union> txn_segs t h"
  have old: "blocks h q \<noteq> None" if "q \<in> ?old" for q using that live_blocks [OF hok] by blast
  show ?thesis
  proof (cases "block_ok h 8 sz ?q")
    case False
    then have "(r, p, h') = (nomem, 0, h)"
      using assms(2) reg l(2,5)
      by (simp add: seq_library_def tm_alloc_def the_txn_def tm_align_def the_region_def aligned_alloc_def)
    then show ?thesis using assms(1) by simp
  next
    case True
    let ?x = "x\<lparr>txn_seg_list := txn_seg_list x @ [?q]\<rparr>"
    let ?h = "put_txn t ?x (h\<lparr>blocks := (blocks h)(?q \<mapsto> sz), mem := memset (mem h) ?q 0 sz\<rparr>)"
    have q: "?q \<noteq> 0" "unat ?q + sz < 2 ^ 64" "word_aligned 8 ?q" "blocks h ?q = None"
      using True by (auto simp: block_ok_def)
    then have "\<not> overlaps ?q sz (stack_word env) 8" by (auto simp: heap_pointer_def Let_def split: if_splits)
    then have wbq: "word_blocks env ?h {?q}" using q by (simp add: word_blocks_def put_txn_def)
    have r: "r = success" "p = ?q" "h' = ?h"
      using assms(2) reg l(2,5) True q(1)
      by (auto simp: seq_library_def tm_alloc_def the_txn_def tm_align_def the_region_def aligned_alloc_def)
    have segs: "segs ?h = (segs h)(TxnOwner t := txn_seg_list x @ [?q])"
    proof
      fix i show "segs ?h i = ((segs h)(TxnOwner t := txn_seg_list x @ [?q])) i"
        by (cases i) (simp_all add: put_txn_def)
    qed
    have tx: "segs h (TxnOwner t) = txn_seg_list x" using l(5) by simp
    have bl: "blocks ?h q = blocks h q" if "q \<in> ?old" for q
      using old [OF that] q(4) by (auto simp: put_txn_def)
    have same: "words_of ?h ps = words_of h ps" "word_blocks env ?h ps = word_blocks env h ps"
      if "ps \<subseteq> ?old" for ps
      using that bl by (intro words_of_cong word_blocks_cong; blast)+
    have qw: "words_of ?h {?q} = seg_words ?q sz" by (simp add: words_of_def put_txn_def)
    have ready: "region_ready env sh ?h"
      using l(4) alloc_segs [OF hok l(5) True, of "memset (mem h) ?q 0 sz"] same(2) [of "region_segs sh h"]
      by (simp add: region_ready_def segs unlocked_region_def del: segs.simps) (simp add: put_txn_def)
    have ts: "region_segs sh ?h = region_segs sh h" "txn_segs t ?h = txn_segs t h \<union> {?q}"
      unfolding segs using tx by (simp_all del: segs.simps)
    have wnew: "txn_words sh t ?h = txn_words sh t h \<union> seg_words ?q sz"
      unfolding txn_words_Un ts words_of_Un qw using same(1) [of "region_segs sh h"]
        same(1) [of "txn_segs t h"] by blast
    have wtx: "word_blocks env ?h (txn_segs t ?h)"
      unfolding ts word_blocks_Un using same(2) [of "txn_segs t h"] wbq wb by (simp add: word_blocks_Un)
    have fits: "txn_fits sh t False ?h ?x" using l(3) wnew by (auto simp: txn_fits_def)
    have live: "txn_live env sh t False ?h"
      using ready wtx fits by (simp add: txn_live_def del: segs.simps) (simp add: put_txn_def)
    have disj: "seg_words ?q sz \<inter> txn_words sh t h = {}"
      unfolding txn_words_def by (rule fresh_words [OF True wb old])
    have m: "mem ?h = memset (mem h) ?q 0 sz" by (simp add: put_txn_def)
    have ld: "load_bytes (mem ?h) a 8 = load_bytes (mem h) a 8" if "a \<in> txn_words sh t h" for a
      unfolding m using that by (intro memset_outside [OF True wb]) (simp add: txn_words_def)
    have "seq_committed sh ?h = seq_committed sh h"
      using ld same(1) [of "region_segs sh h"]
      unfolding seq_committed_def segs by (auto intro!: contents_cong simp: txn_words_Un simp del: segs.simps)
    moreover have "seq_view sh t ?h = add_segment ?q sz (seq_view sh t h)"
    proof -
      have tx': "txns ?h t = Some ?x" by (simp add: put_txn_def)
      have none: "write_set x a = None" if "a \<in> seg_words ?q sz" for a
        using that disj l(3) by (cases "write_set x a") (auto simp: txn_fits_def)
      have z: "decode (view 8 (mem ?h) (visible ?x) a) = 0" if "a \<in> seg_words ?q sz" for a
        using memset_inside [OF q(2) that, of "mem h"] none [OF that] m by (simp add: view_def visible_def)
      have o: "view 8 (mem ?h) (visible ?x) a = view 8 (mem h) (visible x) a" if "a \<in> txn_words sh t h" for a
        using view_cong [OF ld [OF that], of "visible x"] by (simp add: visible_def split: if_splits)
      show ?thesis
        using z o disj l(5)
        by (auto simp: seq_view_def tx' wnew contents_def add_segment_def fun_eq_iff)
    qed
    moreover have "fresh_segment ?q sz (seq_view sh t h)"
      using q(1) disj seg_words_pos [OF q(1,2)]
      by (simp add: fresh_segment_def seq_view_def contents_def)
    ultimately show ?thesis using r live by simp
  qed
qed

text \<open>Taking, stamping or releasing stripes, and the clock, are invisible to the client.\<close>

lemma put_locks_state:
  assumes "region_ready env sh h" "regions h sh = Some region" "lock_arrays h (locks region) = Some ls0"
    and "\<And>l. \<not> vl_isLocked (ls l)"
  shows "region_ready env sh (put_locks region ls (h\<lparr>gvc := c, mem := m\<rparr>))"
    "segs (put_locks region ls (h\<lparr>gvc := c, mem := m\<rparr>)) = segs h"
    "words_of (put_locks region ls (h\<lparr>gvc := c, mem := m\<rparr>)) ps = words_of h ps"
proof -
  let ?h = "put_locks region ls (h\<lparr>gvc := c, mem := m\<rparr>)"
  have hok: "heap_ok h" using assms(1) by (simp add: region_ready_def)
  have "heap_ok (h\<lparr>gvc := c, mem := m\<rparr>)"
  proof (rule heap_ok_same [OF hok])
    show "segs (h\<lparr>gvc := c, mem := m\<rparr>) = segs h"
    proof
      fix i show "segs (h\<lparr>gvc := c, mem := m\<rparr>) i = segs h i" by (cases i) simp_all
    qed
  qed (simp_all add: region_locks_def fun_eq_iff)
  then have "heap_ok ?h" by (rule heap_ok_put_locks) (simp add: assms(3))
  moreover show segs: "segs ?h = segs h"
  proof
    fix i show "segs ?h i = segs h i" by (cases i) (simp_all add: put_locks_def)
  qed
  moreover have "word_blocks env ?h ps = word_blocks env h ps" for ps
    by (simp add: word_blocks_def put_locks_def)
  moreover show "words_of ?h ps = words_of h ps" by (simp add: words_of_def put_locks_def)
  ultimately show "region_ready env sh ?h"
    using assms by (auto simp: region_ready_def unlocked_region_def put_locks_def simp del: segs.simps)
qed

lemma give_up_state:
  assumes "region_ready env sh h" "regions h sh = Some region" "lock_arrays h (locks region) = Some ls0"
    and "\<And>l. \<not> vl_isLocked (ls l)" "txns h t = Some x"
    and "give_up t (put_locks region ls (h\<lparr>gvc := c\<rparr>)) = Inr (ok, h')"
  shows "ok = False \<and> region_ready env sh h' \<and> seq_committed sh h' = seq_committed sh h"
proof -
  let ?h = "put_locks region ls (h\<lparr>gvc := c, mem := mem h\<rparr>)"
  note st = put_locks_state [OF assms(1-4), where c = c and m = "mem h"]
  have e: "?h = put_locks region ls (h\<lparr>gvc := c\<rparr>)" by simp
  have tx: "txns ?h t = Some x" "mem ?h = mem h" using assms(5) by (simp_all add: put_locks_def)
  have "heap_ok ?h" using st(1) by (simp add: region_ready_def)
  from give_up_ok [OF this tx(1)] assms(6) have h': "ok = False" "h' = txn_deleted t x ?h"
    by (simp_all add: e)
  have "seq_committed sh ?h = seq_committed sh h"
    unfolding seq_committed_def st(2,3) tx(2) ..
  then show ?thesis
    using h' deleted_ready(1) [OF st(1) tx(1)] deleted_committed [OF st(1) tx(1)] by simp
qed

text \<open>The commit of a read-write transaction.\<close>

definition committing :: "addr \<Rightarrow> addr \<Rightarrow> MemoryRegion \<Rightarrow> Transaction \<Rightarrow> heap \<Rightarrow> heap" where
  "committing sh t region x h = put_txn t (x\<lparr>txn_seg_list := []\<rparr>)
     (put_region sh (region\<lparr>seg_list := seg_list region @ txn_seg_list x\<rparr>) h)"

lemma commit_heap:
  assumes "region_ready env sh h" "txns h t = Some x" "regions h sh = Some region"
    "lock_arrays h (locks region) = Some ls0" "\<And>l. \<not> vl_isLocked (ls l)"
    and "finish t (committing sh t region x (put_locks region ls (h\<lparr>gvc := c, mem := m\<rparr>))) = Inr (ok, h')"
  shows "ok = True" "heap_ok h'" "h' = txn_deleted t (x\<lparr>txn_seg_list := []\<rparr>)
      (committing sh t region x (put_locks region ls (h\<lparr>gvc := c, mem := m\<rparr>)))"
proof -
  let ?h0 = "put_locks region ls (h\<lparr>gvc := c, mem := m\<rparr>)"
  let ?h1 = "committing sh t region x ?h0"
  note st = put_locks_state [OF assms(1,3-5), where c = c and m = m]
  have h0: "heap_ok ?h0" "txns ?h0 t = Some x" "regions ?h0 sh = Some region"
    using st(1) assms(2,3) by (simp_all add: region_ready_def put_locks_def)
  have hok1: "heap_ok ?h1" unfolding committing_def by (rule heap_ok_splice [OF h0])
  have tx1: "txns ?h1 t = Some (x\<lparr>txn_seg_list := []\<rparr>)" by (simp add: committing_def put_txn_def)
  show h': "ok = True" "h' = txn_deleted t (x\<lparr>txn_seg_list := []\<rparr>) ?h1"
    using finish_ok [OF hok1 tx1] assms(6) by simp_all
  show "heap_ok h'" using delete_txn_ok(2) [OF hok1 tx1] h'(2) by simp
qed

lemma commit_state:
  assumes "txn_live env sh t False h" "txns h t = Some x" "regions h sh = Some region"
    "lock_arrays h (locks region) = Some ls0" "\<And>l. \<not> vl_isLocked (ls l)"
    and keys: "set keys = dom (write_set x)"
    and fin: "finish t (committing sh t region x (put_locks region ls (h\<lparr>gvc := c,
         mem := fold (\<lambda>a m. store_bytes m a (the (write_set x a))) keys (mem h)\<rparr>))) = Inr (ok, h')"
  shows "ok \<and> region_ready env sh h' \<and> seq_committed sh h' = seq_view sh t h"
proof -
  define m where "m = fold (\<lambda>a m. store_bytes m a (the (write_set x a))) keys (mem h)"
  let ?h1 = "committing sh t region x (put_locks region ls (h\<lparr>gvc := c, mem := m\<rparr>))"
  have live: "region_ready env sh h" "txn_fits sh t False h x"
    using assms(1,2) by (auto simp: txn_live_def)
  note wb = word_blocks_live [OF assms(1)]
  note hk = commit_heap [OF live(1) assms(2-5) fin, folded m_def]
  have h': "ok = True" "h' = txn_deleted t (x\<lparr>txn_seg_list := []\<rparr>) ?h1" by (rule hk)+
  have hok': "heap_ok h'" by (rule hk)
  have bl: "blocks h' = blocks h" "mem h' = m"
    by (simp_all add: h'(2) txn_deleted_def committing_def put_txn_def put_region_def put_locks_def)
  have reg: "regions h' sh = Some (region\<lparr>seg_list := seg_list region @ txn_seg_list x\<rparr>)"
    "lock_arrays h' (locks region) = Some ls"
    by (simp_all add: h'(2) txn_deleted_def committing_def put_txn_def put_region_def put_locks_def)
  have segs: "region_segs sh h' = region_segs sh h \<union> txn_segs t h"
    using assms(2,3) reg(1) by auto
  have w: "words_of h' (region_segs sh h') = txn_words sh t h"
    unfolding segs txn_words_def by (rule words_of_cong) (simp add: bl)
  have "word_blocks env h' (region_segs sh h')"
    unfolding segs using wb by (simp add: word_blocks_def bl del: segs.simps)
  moreover have "align region = 8"
    using live(1) assms(3) by (auto simp: region_ready_def unlocked_region_def)
  ultimately have "region_ready env sh h'"
    using hok' live(1) reg assms(5)
    by (auto simp: region_ready_def unlocked_region_def simp del: segs.simps)
  moreover have "load_bytes m a 8 = view 8 (mem h) (visible x) a" if a: "a \<in> txn_words sh t h" for a
  proof -
    have al: "width_ok 8 \<and> word_aligned 8 b" if "b \<in> txn_words sh t h" for b
      using that words_of_facts(1) [OF _ wb, of b] width_ok_power [of 3] by (simp add: txn_words_def)
    have "visible x = write_set x" using live(2) by (auto simp: visible_def txn_fits_def)
    then show ?thesis
      unfolding m_def using write_back_view [of 8 a keys "write_set x" "mem h"] live(2) al keys a by (auto simp: txn_fits_def)
  qed
  then have "seq_committed sh h' = seq_view sh t h"
    unfolding seq_committed_def seq_view_def w bl by (intro contents_cong) (simp add: assms(2))
  ultimately show ?thesis using h'(1) by simp
qed

lemma view_empty: "view w m Map.empty = (\<lambda>a. load_bytes m a w)"
  by (simp add: view_def fun_eq_iff)

lemma seq_end_law:
  assumes "txn_live env sh t ro h" "fn_end (seq_library env) sh t h = (ok, h')"
  shows "region_ready env sh h' \<and>
    seq_committed sh h' = (if ok then seq_view sh t h else seq_committed sh h)"
proof -
  obtain x region ls where l: "live_in h sh t region ls x" "\<And>l. \<not> vl_isLocked (ls l)"
    "txn_fits sh t ro h x" "region_ready env sh h" "txns h t = Some x"
    using live_unpack [OF assms(1)] by metis
  have reg: "regions h sh = Some region" "lock_arrays h (locks region) = Some ls" "heap_ok h"
    using l(1) by (simp_all add: live_in_def)
  let ?ws = "enumerate_set env (dom (write_set x))" and ?rs = "enumerate_set env (read_set x)"
  have ws: "distinct ?ws" "set ?ws = dom (write_set x)"
    using l(3) enumerate_set_orders [of "dom (write_set x)" env] by (simp_all add: txn_fits_def)
  obtain r where "tm_end (spurious_at env h) ?ws ?rs sh t h = Inr r"
    using tm_end_ok [OF reg(3) l(5) reg(1), of "spurious_at env h" ?ws ?rs] by blast
  with assms(2) l(5) have e: "tm_end (spurious_at env h) ?ws ?rs sh t h = Inr (ok, h')"
    by (simp add: seq_library_def)
  show ?thesis
  proof (cases "is_ro x")
    case True
    then have "finish t h = Inr (ok, h')" using e l(5) reg
      by (simp add: tm_end_def the_txn_def the_region_def the_locks_def)
    then have h': "ok = True" "h' = txn_deleted t x h" using finish_ok [OF reg(3) l(5)] by simp_all
    have "txn_seg_list x = []" "visible x = Map.empty"
      using l(3) True by (simp_all add: txn_fits_def visible_def)
    then have "seq_view sh t h = seq_committed sh h"
      using l(5) view_empty by (simp add: seq_view_def seq_committed_def txn_words_def)
    then show ?thesis using h' deleted_ready(1) [OF l(4,5)] deleted_committed [OF l(4,5)] by simp
  next
    case False
    obtain b ls1 held where k: "lock_write_set (spurious_at env h) ?ws ls [] = (b, ls1, held)"
      by (metis prod_cases3)
    then have "lock_write_set (spurious_at env h) ?ws (taking [] ls) [] = (b, ls1, held)"
      by (simp add: taking_def)
    from lock_write_set_result [OF l(2) _ this]
    have held: "distinct held" "b \<Longrightarrow> set held = lock_index ` dom (write_set x)" by (auto simp: ws(2))
    have u: "\<not> vl_isLocked (unlock_all held (taking held ls) l)" for l
      using l(2) by (simp add: unlock_all_result [OF held(1)] taking_def)
    have s: "\<not> vl_isLocked (if l \<in> lock_index ` set ?ws then vl_setVersion (gvc h + 1) else taking held ls l)"
      if b for l
      using that l(2) held(2) ws(2) by (auto simp: taking_def)
    have ro: "ro = False" using False l(3) by (simp add: txn_fits_def)
    consider (early) "give_up t (put_locks region (unlock_all held (taking held ls)) (h\<lparr>gvc := gvc h\<rparr>)) = Inr (ok, h')"
      | (late) "give_up t (put_locks region (unlock_all held (taking held ls)) (h\<lparr>gvc := gvc h + 1\<rparr>)) = Inr (ok, h')"
      | (commit) "b" "finish t (put_txn t (x\<lparr>txn_seg_list := []\<rparr>)
       (put_region sh (region\<lparr>seg_list := seg_list region @ txn_seg_list x\<rparr>)
         (put_locks region
           (\<lambda>l. if l \<in> lock_index ` set ?ws then vl_setVersion (gvc h + 1) else taking held ls l)
           (h\<lparr>gvc := gvc h + 1,
              mem := fold (\<lambda>a m. store_bytes m a (the (write_set x a))) ?ws (mem h)\<rparr>)))) = Inr (ok, h')"
      using e tm_end_cases [OF l(1) False l(2) k, of ?rs] by (auto split: if_splits)
    then show ?thesis
    proof cases
      case early
      from give_up_state [OF l(4) reg(1,2) u l(5) this] show ?thesis by simp
    next
      case late
      from give_up_state [OF l(4) reg(1,2) u l(5) this] show ?thesis by simp
    next
      case commit
      from commit_state [OF assms(1) [unfolded ro] l(5) reg(1,2) s ws(2) commit(2) [folded committing_def]] commit(1)
      show ?thesis by simp
    qed
  qed
qed

section \<open>The contract holds\<close>

interpretation seq: atomic_memory "seq_memory env sh st len" "region_ready env sh" "txn_live env sh"
  "seq_committed sh" "seq_view sh" for env sh st len
proof unfold_locales
  fix s s' :: heap and ro t
  assume "region_ready env sh s"
    and "fn_begin (tl (seq_memory env sh st len)) (shared (seq_memory env sh st len)) ro s = (t, s')"
  then show "seq_committed sh s' = seq_committed sh s \<and>
      (if t = invalid_tx then region_ready env sh s'
       else txn_live env sh t ro s' \<and> seq_view sh t s' = seq_committed sh s)"
    using seq_begin_law [of env sh s "pick_txn env s" ro t s'] by (simp add: seq_memory_def seq_library_def)
next
  fix t ro s a ok bs s'
  assume "txn_live env sh t ro s" "a \<in> fst (seq_view sh t s)"
    and "fn_read (tl (seq_memory env sh st len)) (shared (seq_memory env sh st len)) t a 8 s = (ok, bs, s')"
  then show "seq_committed sh s' = seq_committed sh s \<and>
      (if ok then txn_live env sh t ro s' \<and> seq_view sh t s' = seq_view sh t s \<and>
         decode bs = snd (seq_view sh t s) a
       else region_ready env sh s')"
    by (intro seq_read_law) (simp_all add: seq_memory_def)
next
  fix t s a v ok s'
  assume "txn_live env sh t False s" "a \<in> fst (seq_view sh t s)"
    and "fn_write (tl (seq_memory env sh st len)) (shared (seq_memory env sh st len)) t (encode v) 8 a s = (ok, s')"
  then show "seq_committed sh s' = seq_committed sh s \<and>
      (if ok then txn_live env sh t False s' \<and> seq_view sh t s' = set_word a v (seq_view sh t s)
       else region_ready env sh s')"
    by (intro seq_write_law) (simp_all add: seq_memory_def)
next
  fix t s sz r p s'
  assume "txn_live env sh t False s"
    and "fn_alloc (tl (seq_memory env sh st len)) (shared (seq_memory env sh st len)) t sz s = (r, p, s')"
  then show "seq_committed sh s' = seq_committed sh s \<and>
      (case r of
         success \<Rightarrow> txn_live env sh t False s' \<and> fresh_segment p sz (seq_view sh t s) \<and>
           seq_view sh t s' = add_segment p sz (seq_view sh t s)
       | abort_alloc \<Rightarrow> region_ready env sh s'
       | nomem \<Rightarrow> txn_live env sh t False s' \<and> seq_view sh t s' = seq_view sh t s)"
    by (intro seq_alloc_law) (simp_all add: seq_memory_def)
next
  fix t s p ok s'
  assume "txn_live env sh t False s"
    and "fn_free (tl (seq_memory env sh st len)) (shared (seq_memory env sh st len)) t p s = (ok, s')"
  then show "seq_committed sh s' = seq_committed sh s \<and>
      (if ok then txn_live env sh t False s' \<and> seq_view sh t s' = seq_view sh t s else region_ready env sh s')"
    by (auto simp: seq_memory_def seq_library_def tm_free_def)
next
  fix t ro s ok s'
  assume "txn_live env sh t ro s"
    and "fn_end (tl (seq_memory env sh st len)) (shared (seq_memory env sh st len)) t s = (ok, s')"
  then show "region_ready env sh s' \<and>
      seq_committed sh s' = (if ok then seq_view sh t s else seq_committed sh s)"
    by (intro seq_end_law) (simp_all add: seq_memory_def)
qed

section \<open>No contention, no abort\<close>

text \<open>
  \<open>calm n\<close>: no stripe is newer than the clock, there is room for \<open>n\<close> more versions and no
  compare-and-swap fails spuriously.
\<close>

definition seq_calm :: "environment \<Rightarrow> addr \<Rightarrow> nat \<Rightarrow> heap \<Rightarrow> bool" where
  "seq_calm env sh n h \<longleftrightarrow> (\<forall>h a. \<not> spurious_at env h a) \<and> unat (gvc h) + n < 2 ^ 63 \<and>
     (\<forall>region ls. regions h sh = Some region \<longrightarrow> lock_arrays h (locks region) = Some ls \<longrightarrow>
        quiet ls (gvc h))"

definition seq_fresh :: "environment \<Rightarrow> addr \<Rightarrow> nat \<Rightarrow> addr \<Rightarrow> heap \<Rightarrow> bool" where
  "seq_fresh env sh n t h \<longleftrightarrow> seq_calm env sh n h \<and>
     (\<forall>x. txns h t = Some x \<longrightarrow> rv x = gvc h)"

lemma fresh_put_txn:
  assumes "seq_fresh env sh n t h" "txns h t = Some x" "rv x' = rv x"
    and "gvc h' = gvc h" "regions h' = regions h" "lock_arrays h' = lock_arrays h"
  shows "seq_fresh env sh n t (put_txn t x' h')"
  using assms by (simp add: seq_fresh_def seq_calm_def put_txn_def)

lemma fresh_readable:
  assumes "seq_fresh env sh n t h" "live_in h sh t region ls x"
  shows "readable ls (rv x) a"
  using assms
  by (auto simp: seq_fresh_def seq_calm_def live_in_def readable_def quiet_def lock_version_def word_le_nat_alt)

lemma seq_read_calm:
  assumes "txn_live env sh t ro h" "seq_fresh env sh n t h"
    and "fn_read (seq_library env) sh t a 8 h = (ok, bs, h')"
  shows "ok \<and> seq_fresh env sh n t h'"
proof -
  obtain x region ls where l: "live_in h sh t region ls x" "align region = 8" "txns h t = Some x"
    using live_unpack [OF assms(1)] by metis
  have r: "ok = True" "h' = put_txn t (if is_ro x then x else x\<lparr>read_set := insert a (read_set x)\<rparr>)
      (h\<lparr>mem := store_bytes (mem h) (stack_word env) (view 8 (mem h) (visible x) a)\<rparr>)"
    using assms(3) tm_read_word [OF l(1,2), of a "stack_word env"] fresh_readable [OF assms(2) l(1), of a]
    by (auto simp: seq_library_def)
  show ?thesis unfolding r(2) using r(1) by (auto intro!: fresh_put_txn [OF assms(2) l(3)])
qed

lemma seq_write_calm:
  assumes "txn_live env sh t False h" "seq_fresh env sh n t h"
    and "fn_write (seq_library env) sh t (encode v) 8 a h = (ok, h')"
  shows "ok \<and> seq_fresh env sh n t h'"
proof -
  obtain x region ls where l: "live_in h sh t region ls x" "align region = 8" "txns h t = Some x"
    using live_unpack [OF assms(1)] by metis
  have "regions h sh = Some region" using l(1) by (simp add: live_in_def)
  then have r: "ok = True" "h' = put_txn t (x\<lparr>write_set := (write_set x)(a \<mapsto> encode v)\<rparr>)
      (h\<lparr>mem := store_bytes (mem h) (stack_word env) (encode v)\<rparr>)"
    using assms(3) tm_write_word [OF l(3) _ l(2), of sh "encode v" "stack_word env" a]
    by (auto simp: seq_library_def)
  show ?thesis unfolding r(2) using r(1) by (auto intro!: fresh_put_txn [OF assms(2) l(3)])
qed

lemma seq_alloc_calm:
  assumes "txn_live env sh t False h" "seq_fresh env sh n t h"
    and "fn_alloc (seq_library env) sh t sz h = (r, p, h')"
  shows "r \<noteq> abort_alloc \<and> seq_fresh env sh n t h'"
proof -
  obtain x region ls where l: "live_in h sh t region ls x" "align region = 8" "txns h t = Some x"
    using live_unpack [OF assms(1)] by metis
  have "regions h sh = Some region" using l(1) by (simp add: live_in_def)
  then show ?thesis
    using assms(2,3) l(2,3)
    by (auto simp: seq_library_def tm_alloc_def the_txn_def tm_align_def the_region_def
        aligned_alloc_def seq_fresh_def seq_calm_def put_txn_def split: if_splits)
qed

text \<open>Versions written by \<open>setVersion\<close> are within the clock.\<close>

lemma quiet_stamped:
  assumes "quiet ls c" "unat c + 1 < 2 ^ 63" "\<And>l. l \<notin> S \<Longrightarrow> l \<notin> set held"
  shows "quiet (\<lambda>l. if l \<in> S then vl_setVersion (c + 1) else taking held ls l) (c + 1)"
proof -
  have c: "unat (c + 1) = unat c + 1" using assms(2) by (simp add: unat_word_ariths)
  then have "lock_version (vl_setVersion (c + 1)) = unat (c + 1)"
    using assms(2) by (simp add: lock_version_def vlock_simps)
  then show ?thesis using assms(1,3) c by (auto simp: quiet_def taking_def le_SucI)
qed

lemma finish_calm:
  assumes "heap_ok h" "txns h t = Some x" "finish t h = Inr (ok, h')"
  shows "ok \<and> (seq_calm env sh n h \<longrightarrow> seq_calm env sh n h')"
  using finish_ok [OF assms(1,2)] assms(3) by (auto simp: txn_deleted_def seq_calm_def)

lemma seq_end_calm:
  assumes "txn_live env sh t ro h" "seq_fresh env sh (Suc n) t h"
    and "fn_end (seq_library env) sh t h = (ok, h')"
  shows "ok \<and> seq_calm env sh n h'"
proof -
  obtain x region ls where l: "live_in h sh t region ls x" "\<And>l. \<not> vl_isLocked (ls l)"
    "txn_fits sh t ro h x" "region_ready env sh h" "txns h t = Some x"
    using live_unpack [OF assms(1)] by metis
  have reg: "regions h sh = Some region" "lock_arrays h (locks region) = Some ls" "heap_ok h"
    using l(1) by (simp_all add: live_in_def)
  have calm: "seq_calm env sh (Suc n) h" "rv x = gvc h" using assms(2) l(5) by (simp_all add: seq_fresh_def)
  then have q: "quiet ls (gvc h)" "unat (gvc h) + Suc n < 2 ^ 63" "\<And>h a. \<not> spurious_at env h a"
    using reg by (simp_all add: seq_calm_def)
  let ?ws = "enumerate_set env (dom (write_set x))" and ?rs = "enumerate_set env (read_set x)"
  obtain r where "tm_end (spurious_at env h) ?ws ?rs sh t h = Inr r"
    using tm_end_ok [OF reg(3) l(5) reg(1), of "spurious_at env h" ?ws ?rs] by blast
  with assms(3) l(5) have e: "tm_end (spurious_at env h) ?ws ?rs sh t h = Inr (ok, h')"
    by (simp add: seq_library_def)
  show ?thesis
  proof (cases "is_ro x")
    case True
    then have "finish t h = Inr (ok, h')" using e l(5) reg
      by (simp add: tm_end_def the_txn_def the_region_def the_locks_def)
    from finish_calm [OF reg(3) l(5) this, of env sh n] calm(1) show ?thesis
      by (simp add: seq_calm_def)
  next
    case False
    obtain b ls1 held where k: "lock_write_set (spurious_at env h) ?ws ls [] = (b, ls1, held)"
      by (metis prod_cases3)
    then have "lock_write_set (spurious_at env h) ?ws (taking [] ls) [] = (b, ls1, held)"
      by (simp add: taking_def)
    from lock_write_set_result [OF l(2) _ this]
    have b: "b" and held: "set held = lock_index ` set ?ws" using q(3) by auto
    define ls2 where "ls2 = (\<lambda>l. if l \<in> lock_index ` set ?ws then vl_setVersion (gvc h + 1) else taking held ls l)"
    have q2: "quiet ls2 (gvc h + 1)"
      unfolding ls2_def using q(1,2) held by (intro quiet_stamped) simp_all
    then have u: "\<not> vl_isLocked (ls2 l)" for l by (simp add: quiet_def)
    define m where "m = fold (\<lambda>a m. store_bytes m a (the (write_set x a))) ?ws (mem h)"
    have "finish t (committing sh t region x (put_locks region ls2 (h\<lparr>gvc := gvc h + 1, mem := m\<rparr>)))
        = Inr (ok, h')"
      using e tm_end_cases [OF l(1) False l(2) k, of ?rs, folded committing_def ls2_def m_def] b calm(2)
      by simp
    note c = commit_heap [OF l(4,5) reg(1,2) u this]
    have "unat (gvc h + 1) + n < 2 ^ 63" using q(2) by (simp add: unat_word_ariths)
    then show ?thesis
      using c(1) q q2 by (simp add: c(3) seq_calm_def txn_deleted_def committing_def put_txn_def put_region_def put_locks_def)
  qed
qed

interpretation calm_seq: calm_memory "seq_memory env sh st len" "region_ready env sh" "txn_live env sh"
  "seq_committed sh" "seq_view sh" "seq_calm env sh" "seq_fresh env sh" for env sh st len
proof unfold_locales
  fix s s' :: heap and n ro t
  assume "region_ready env sh s" "seq_calm env sh n s"
    and "fn_begin (tl (seq_memory env sh st len)) (shared (seq_memory env sh st len)) ro s = (t, s')"
  then show "if t = invalid_tx then seq_calm env sh n s' else seq_fresh env sh n t s'"
    by (auto simp: seq_memory_def seq_library_def tm_begin_def seq_fresh_def seq_calm_def put_txn_def
        new_Transaction_def split: if_splits)
next
  fix t ro s n a ok bs s'
  assume "txn_live env sh t ro s" "seq_fresh env sh n t s"
    and "fn_read (tl (seq_memory env sh st len)) (shared (seq_memory env sh st len)) t a 8 s = (ok, bs, s')"
  then show "ok \<and> seq_fresh env sh n t s'" by (intro seq_read_calm) (simp_all add: seq_memory_def)
next
  fix t s n a v ok s'
  assume "txn_live env sh t False s" "seq_fresh env sh n t s"
    and "fn_write (tl (seq_memory env sh st len)) (shared (seq_memory env sh st len)) t (encode v) 8 a s = (ok, s')"
  then show "ok \<and> seq_fresh env sh n t s'" by (intro seq_write_calm) (simp_all add: seq_memory_def)
next
  fix t s n sz r p s'
  assume "txn_live env sh t False s" "seq_fresh env sh n t s"
    and "fn_alloc (tl (seq_memory env sh st len)) (shared (seq_memory env sh st len)) t sz s = (r, p, s')"
  then show "r \<noteq> abort_alloc \<and> seq_fresh env sh n t s'" by (intro seq_alloc_calm) (simp_all add: seq_memory_def)
next
  fix t s n p ok s'
  assume "txn_live env sh t False s" "seq_fresh env sh n t s"
    and "fn_free (tl (seq_memory env sh st len)) (shared (seq_memory env sh st len)) t p s = (ok, s')"
  then show "ok \<and> seq_fresh env sh n t s'" by (auto simp: seq_memory_def seq_library_def tm_free_def)
next
  fix t ro s n ok s'
  assume "txn_live env sh t ro s" "seq_fresh env sh (Suc n) t s"
    and "fn_end (tl (seq_memory env sh st len)) (shared (seq_memory env sh st len)) t s = (ok, s')"
  then show "ok \<and> seq_calm env sh n s'" by (intro seq_end_calm) (simp_all add: seq_memory_def)
qed

end
