(* ===== verification/TL2_Clients.thy ===== *)
theory TL2_Clients
  imports Seq_Client TL2_Serializability
begin

text \<open>
  The transactional wrapper over the concurrent model: every thread runs client code whose
  transactions go through \<open>transactional()\<close> of \<open>grading/transactional.hpp\<close> to the library of
  \<open>394984/tm.cpp\<close>, one shared access per step. The theory holds the composed system, the atomic
  system it is to be compared with, and the relation between a body and the accesses it made.
\<close>

section \<open>Client code\<close>

text \<open>
  The rest of a thread is a state of its own: in some of its states it calls \<open>transactional\<close> with
  a mode and a body and goes on with what the call returned or threw. Outside the transactions it makes
  steps that do not concern the memory, alone or together with other threads, as at a barrier: a step
  of the threads in \<open>D\<close> takes their states \<open>f\<close> to \<open>g\<close>. Such a step may also come at the head of the
  retry loop, for what an aborted attempt left in the variables its closure captured.
\<close>

record ('l, 'a) client_code =
  next_call :: "nat \<Rightarrow> 'l \<Rightarrow> (bool \<times> 'a prog) option"
  got :: "nat \<Rightarrow> 'l \<Rightarrow> exn + 'a \<Rightarrow> 'l"
  other_step :: "nat set \<Rightarrow> (nat \<Rightarrow> 'l) \<Rightarrow> (nat \<Rightarrow> 'l) \<Rightarrow> bool"

section \<open>The composed system\<close>

text \<open>
  Where a thread is in \<open>transactional\<close>: outside, or at the head of the loop; in the body; in a
  \<open>tm_read\<close> of it, with the rest of the body; in the destructor, with what the body returned or
  threw. The number in \<open>Ending\<close> is a history variable: the stamp drawn there, 0 before.
\<close>

datatype 'a call =
    Outside
  | Body "'a prog"
  | Reading "64 word \<Rightarrow> 'a prog"
  | Ending "exn + 'a" nat

type_synonym segments = "(addr \<times> nat) list"

text \<open>
  The library's state, the threads, the region's first segment and segment list, the segment
  list of each transaction, and whether \<open>std::terminate\<close> was called. History variables: the body,
  result and segments of the call that drew a stamp, and the word each thread saw in memory when its last
  pre-validation succeeded.
\<close>

record ('l, 'a) world =
  tm :: sys
  local_state :: "nat \<Rightarrow> 'l"
  calls :: "nat \<Rightarrow> 'a call"
  first_words :: "addr set"
  shared_segs :: segments
  tx_segs :: "nat \<Rightarrow> segments"
  terminated :: bool
  drawn :: "nat \<rightharpoonup> 'a prog \<times> (exn + 'a) \<times> segments"
  seen :: "nat \<Rightarrow> bytes"

text \<open>What the environment decides in a step: go on, with the choices of the concurrent model; refuse
  an allocation; or serve one.\<close>

datatype input = Go bool "addr list" "nat list" | Refuse | Segment addr

definition seg_union :: "segments \<Rightarrow> addr set" where
  "seg_union ss = (\<Union>(p, sz) \<in> set ss. seg_words p sz)"

definition all_words :: "('l, 'a) world \<Rightarrow> addr set" where
  "all_words w = first_words w \<union> seg_union (shared_segs w) \<union> (\<Union>i. seg_union (tx_segs w i))"

text \<open>\<open>aligned_alloc\<close> returns an aligned block that overlaps no block in use.\<close>

definition can_allocate :: "addr \<Rightarrow> nat \<Rightarrow> ('l, 'a) world \<Rightarrow> bool" where
  "can_allocate p sz w \<longleftrightarrow> p \<noteq> 0 \<and> word_aligned 8 p \<and> 8 dvd sz \<and> unat p + sz < 2 ^ 64 \<and>
     seg_words p sz \<inter> all_words w = {}"

definition enter :: "nat \<Rightarrow> 'a call \<Rightarrow> ('l, 'a) world \<Rightarrow> sys \<Rightarrow> ('l, 'a) world" where
  "enter i c w s = w\<lparr>tm := s, calls := (calls w)(i := c)\<rparr>"

text \<open>Back at the head of the loop; the destructor of the library's transaction freed its segments.\<close>

definition retry :: "nat \<Rightarrow> ('l, 'a) world \<Rightarrow> ('l, 'a) world" where
  "retry i w = w\<lparr>calls := (calls w)(i := Outside), tx_segs := (tx_segs w)(i := [])\<rparr>"

definition hand_back ::
  "('l, 'a) client_code \<Rightarrow> nat \<Rightarrow> exn + 'a \<Rightarrow> ('l, 'a) world \<Rightarrow> ('l, 'a) world" where
  "hand_back C i r w =
     (case r of
        Inl TransactionRetry \<Rightarrow> retry i w
      | _ \<Rightarrow> (retry i w)\<lparr>local_state := (local_state w)(i := got C i (local_state w i) r)\<rparr>)"

text \<open>The end of a committed read-write transaction: its segments go to the region, under the mutex.\<close>

definition splice :: "bool \<Rightarrow> nat \<Rightarrow> ('l, 'a) world \<Rightarrow> ('l, 'a) world" where
  "splice ro i w = (if ro then w else w\<lparr>shared_segs := shared_segs w @ tx_segs w i\<rparr>)"

text \<open>An access inside a call of the library, with the history variables.\<close>

fun note_seen :: "pc \<Rightarrow> sys \<Rightarrow> bytes \<Rightarrow> bytes" where
  "note_seen (PreLocked source sz i version) s v = word_at s (source + of_nat i)"
| "note_seen point s v = v"

fun note_stamp :: "pc \<Rightarrow> sys \<Rightarrow> nat \<Rightarrow> nat" where
  "note_stamp (FetchAdd locks_held) s n = gv s + 1"
| "note_stamp point s n = n"

fun note_drawn :: "pc \<Rightarrow> sys \<Rightarrow> 'd \<Rightarrow> (nat \<rightharpoonup> 'd) \<Rightarrow> (nat \<rightharpoonup> 'd)" where
  "note_drawn (FetchAdd locks_held) s d f = f(gv s + 1 \<mapsto> d)"
| "note_drawn point s d f = f"

definition read_access :: "nat \<Rightarrow> act \<Rightarrow> ('l, 'a) world \<Rightarrow> ('l, 'a) world option" where
  "read_access i act w =
     map_option (\<lambda>s. w\<lparr>tm := s, seen := (seen w)(i := note_seen (pc_at (tm w) i) (tm w) (seen w i))\<rparr>)
       (exec i act (tm w))"

definition end_access ::
  "nat \<Rightarrow> act \<Rightarrow> 'a prog \<Rightarrow> exn + 'a \<Rightarrow> nat \<Rightarrow> ('l, 'a) world \<Rightarrow> ('l, 'a) world option" where
  "end_access i act p r n w =
     map_option (\<lambda>s. w\<lparr>tm := s,
         calls := (calls w)(i := Ending r (note_stamp (pc_at (tm w) i) (tm w) n)),
         drawn := note_drawn (pc_at (tm w) i) (tm w) (p, r, tx_segs w i) (drawn w)\<rparr>)
       (exec i act (tm w))"

text \<open>One step of a body.\<close>

fun body_access :: "nat \<Rightarrow> input \<Rightarrow> 'a prog \<Rightarrow> ('l, 'a) world \<Rightarrow> ('l, 'a) world option" where
  "body_access i inp (ReadWord a k) w = map_option (enter i (Reading k) w) (exec i (Read a 8) (tm w))"
| "body_access i inp (prog.WriteWord a v q) w =
     map_option (enter i (Body q) w) (exec i (Write a (encode v)) (tm w))"
| "body_access i (Segment p) (AllocSeg sz k) w =
     (if can_allocate p sz w
      then Some (enter i (Body (k p)) (w\<lparr>tx_segs := (tx_segs w)(i := tx_segs w i @ [(p, sz)])\<rparr>)
             ((tm w)\<lparr>sh := (sh (tm w))\<lparr>mem := memset (mem (sh (tm w))) p 0 sz\<rparr>\<rparr>))
      else None)"
| "body_access i Refuse (AllocSeg sz k) w = Some (enter i (Body (Throw TransactionAlloc)) w (tm w))"
| "body_access i inp (FreeSeg p q) w = Some (enter i (Body q) w (tm w))"
| "body_access i (Go sp ws_order h) (Done v) w =
     map_option (enter i (Ending (Inr v) 0) w) (exec i (End ws_order) (tm w))"
| "body_access i (Go sp ws_order h) (Throw e) w =
     map_option (enter i (Ending (Inl e) 0) w) (exec i (End ws_order) (tm w))"
| "body_access i inp q w = None"

text \<open>One step of a thread in a call with the body \<open>p\<close>: a call of the library, an access in it, or
  what follows its return.\<close>

fun call_step ::
  "('l, 'a) client_code \<Rightarrow> nat \<Rightarrow> input \<Rightarrow> bool \<Rightarrow> 'a prog \<Rightarrow> 'a call \<Rightarrow> ('l, 'a) world \<Rightarrow>
   ('l, 'a) world option" where
  "call_step C i inp ro p Outside w =
     (if inp = Refuse then Some (hand_back C i (Inl TransactionBegin) w)
      else map_option (enter i (Body p) w) (exec i (Begin ro) (tm w)))"
| "call_step C i inp ro p (Body q) w = body_access i inp q w"
| "call_step C i inp ro p (Reading k) w =
     (let t = th (tm w) i in
      if txn t = None then Some (retry i w)
      else if pc t = Idle then Some (enter i (Body (k (decode (concat (buf t))))) w (tm w))
      else case inp of Go sp rs hs \<Rightarrow> read_access i (Tau sp rs hs) w | _ \<Rightarrow> None)"
| "call_step C i inp ro p (Ending r n) w =
     (let t = th (tm w) i in
      if txn t = None
      then Some (if returned t then hand_back C i r (splice ro i w)
                 else case r of Inr v \<Rightarrow> retry i w | Inl e \<Rightarrow> w\<lparr>terminated := True\<rparr>)
      else case inp of Go sp rs hs \<Rightarrow> end_access i (Tau sp rs hs) p r n w | _ \<Rightarrow> None)"

definition thread_step ::
  "('l, 'a) client_code \<Rightarrow> nat \<Rightarrow> input \<Rightarrow> ('l, 'a) world \<Rightarrow> ('l, 'a) world option" where
  "thread_step C i inp w =
     (case next_call C i (local_state w i) of
        None \<Rightarrow> None
      | Some (ro, p) \<Rightarrow> if terminated w then None else call_step C i inp ro p (calls w i) w)"

inductive world_step :: "('l, 'a) client_code \<Rightarrow> ('l, 'a) world \<Rightarrow> ('l, 'a) world \<Rightarrow> bool" for C where
  step_thread: "thread_step C i inp w = Some w' \<Longrightarrow> world_step C w w'"
| step_other: "\<not> terminated w \<Longrightarrow> other_step C D f g \<Longrightarrow>
    (\<And>j. j \<in> D \<Longrightarrow> local_state w j = f j \<and> calls w j = Outside) \<Longrightarrow>
    world_step C w (w\<lparr>local_state := \<lambda>j. if j \<in> D then g j else local_state w j\<rparr>)"

text \<open>Runs all of whose states satisfy \<open>P\<close>.\<close>

inductive world_reach ::
  "(('l, 'a) world \<Rightarrow> bool) \<Rightarrow> ('l, 'a) client_code \<Rightarrow> ('l, 'a) world \<Rightarrow> ('l, 'a) world \<Rightarrow> bool"
  for P C w0 where
  world_start: "P w0 \<Longrightarrow> world_reach P C w0 w0"
| world_move: "world_reach P C w0 w \<Longrightarrow> world_step C w w' \<Longrightarrow> P w' \<Longrightarrow> world_reach P C w0 w'"

text \<open>A fresh region: \<open>tm_create\<close> zeroed its first segment. What the rest of memory holds is never
  seen, since \<open>tm_alloc\<close> zeroes what it hands out.\<close>

definition new_world :: "64 word \<Rightarrow> addr set \<Rightarrow> (nat \<Rightarrow> 'l) \<Rightarrow> ('l, 'a) world" where
  "new_world clock A ls =
     \<lparr>tm = init_sys clock (\<lambda>_. 0) 8, local_state = ls, calls = (\<lambda>_. Outside), first_words = A,
      shared_segs = [], tx_segs = (\<lambda>_. []), terminated = False, drawn = Map.empty,
      seen = (\<lambda>_. [])\<rparr>"

section \<open>The atomic system\<close>

text \<open>
  A read-only body that reads one word and returns. It is the shape of the read-only transactions
  that a schedule cannot tear apart.
\<close>

definition reads_once :: "'a prog \<Rightarrow> bool" where
  "reads_once p \<longleftrightarrow>
     (\<exists>a k. p = ReadWord a k \<and> (\<forall>v. \<exists>r. body_result (k v) = Some r \<and> r \<noteq> Inl TransactionRetry))"

text \<open>
  The same client code over a memory that runs every body in one go. A read-only body of more than
  one read is given any result: that is all the library promises of it (\<open>read_only_torn_snapshot\<close>).
  \<open>n\<close> counts the read-write calls.
\<close>

inductive atomic_run ::
  "('l, 'a) client_code \<Rightarrow> store \<Rightarrow> (nat \<Rightarrow> 'l) \<Rightarrow> nat \<Rightarrow> store \<Rightarrow> (nat \<Rightarrow> 'l) \<Rightarrow> bool"
  for C \<sigma>0 ls0 where
  run_start: "atomic_run C \<sigma>0 ls0 0 \<sigma>0 ls0"
| run_write: "atomic_run C \<sigma>0 ls0 n \<sigma> ls \<Longrightarrow> next_call C i (ls i) = Some (False, p) \<Longrightarrow>
    atomically p \<sigma> r \<sigma>' \<Longrightarrow> atomic_run C \<sigma>0 ls0 (Suc n) \<sigma>' (ls(i := got C i (ls i) r))"
| run_read: "atomic_run C \<sigma>0 ls0 n \<sigma> ls \<Longrightarrow> next_call C i (ls i) = Some (True, p) \<Longrightarrow> reads_once p \<Longrightarrow>
    atomically p \<sigma> r \<sigma> \<Longrightarrow> atomic_run C \<sigma>0 ls0 n \<sigma> (ls(i := got C i (ls i) r))"
| run_any: "atomic_run C \<sigma>0 ls0 n \<sigma> ls \<Longrightarrow> next_call C i (ls i) = Some (True, p) \<Longrightarrow> \<not> reads_once p \<Longrightarrow>
    atomic_run C \<sigma>0 ls0 n \<sigma> (ls(i := got C i (ls i) r))"
| run_refused: "atomic_run C \<sigma>0 ls0 n \<sigma> ls \<Longrightarrow> next_call C i (ls i) = Some (ro, p) \<Longrightarrow>
    atomic_run C \<sigma>0 ls0 n \<sigma> (ls(i := got C i (ls i) (Inl TransactionBegin)))"
| run_other: "atomic_run C \<sigma>0 ls0 n \<sigma> ls \<Longrightarrow> other_step C D f g \<Longrightarrow>
    (\<And>j. j \<in> D \<Longrightarrow> ls j = f j) \<Longrightarrow> atomic_run C \<sigma>0 ls0 n \<sigma> (\<lambda>j. if j \<in> D then g j else ls j)"

text \<open>Client code whose read-write bodies touch valid words only, when run one after the other.\<close>

definition well_behaved :: "('l, 'a) client_code \<Rightarrow> store \<Rightarrow> (nat \<Rightarrow> 'l) \<Rightarrow> bool" where
  "well_behaved C \<sigma>0 ls0 \<longleftrightarrow>
     (\<forall>n \<sigma> ls i p. atomic_run C \<sigma>0 ls0 n \<sigma> ls \<longrightarrow> next_call C i (ls i) = Some (False, p) \<longrightarrow> safe p \<sigma>)"

section \<open>A body and its accesses\<close>

text \<open>
  \<open>traced p ss rs ws q\<close>: the body \<open>p\<close> allocated the segments \<open>ss\<close>, read the words \<open>rs\<close> from memory,
  left \<open>ws\<close> in its write set, and what is left of it is \<open>q\<close>.
\<close>

inductive traced :: "'a prog \<Rightarrow> segments \<Rightarrow> (addr \<times> bytes) list \<Rightarrow> write_map \<Rightarrow> 'a prog \<Rightarrow> bool"
  for p where
  traced_start: "traced p [] [] Map.empty p"
| traced_own: "traced p ss rs ws (ReadWord a k) \<Longrightarrow> ws a = Some b \<Longrightarrow> traced p ss rs ws (k (decode b))"
| traced_memory: "traced p ss rs ws (ReadWord a k) \<Longrightarrow> ws a = None \<Longrightarrow>
    traced p ss ((a, b) # rs) ws (k (decode b))"
| traced_write: "traced p ss rs ws (prog.WriteWord a v q) \<Longrightarrow> traced p ss rs (ws(a \<mapsto> encode v)) q"
| traced_alloc: "traced p ss rs ws (AllocSeg sz k) \<Longrightarrow> a \<noteq> 0 \<Longrightarrow> 0 \<notin> seg_words a sz \<Longrightarrow>
    seg_words a sz \<inter> seg_union ss = {} \<Longrightarrow> traced p (ss @ [(a, sz)]) rs ws (k a)"
| traced_nomem: "traced p ss rs ws (AllocSeg sz k) \<Longrightarrow> traced p ss rs ws (Throw TransactionAlloc)"
| traced_free: "traced p ss rs ws (FreeSeg a q) \<Longrightarrow> traced p ss rs ws q"

text \<open>Memory as an access after the writes of \<open>ws\<close> finds it.\<close>

definition overlay :: "write_map \<Rightarrow> (addr \<Rightarrow> bytes) \<Rightarrow> addr \<Rightarrow> bytes" where
  "overlay ws m = (\<lambda>a. case ws a of None \<Rightarrow> m a | Some v \<Rightarrow> v)"

lemma seg_union_simps [simp]:
  "seg_union [] = {}" "seg_union (s # ss) = seg_words (fst s) (snd s) \<union> seg_union ss"
  "seg_union (ss @ ts) = seg_union ss \<union> seg_union ts"
  by (auto simp: seg_union_def)

lemma overlay_simps [simp]:
  "overlay Map.empty m = m" "overlay (ws(a \<mapsto> v)) m = (overlay ws m)(a := v)"
  by (auto simp: overlay_def)

lemma decode_zero_bytes [simp]: "decode (replicate n 0) = 0"
  by (induction n) simp_all

lemma contents_simps [simp]: "fst (contents A f) = A" "a \<in> A \<Longrightarrow> snd (contents A f) a = decode (f a)"
  by (simp_all add: contents_def)

lemma set_word_contents: "a \<in> A \<Longrightarrow> set_word a v (contents A f) = contents A (f(a := encode v))"
  by (auto simp: set_word_def contents_def)

lemma add_segment_contents:
  "(\<And>x. x \<in> seg_words a sz \<Longrightarrow> decode (f x) = 0) \<Longrightarrow>
    add_segment a sz (contents A f) = contents (A \<union> seg_words a sz) f"
  by (auto simp: add_segment_def contents_def fun_eq_iff)

text \<open>
  If the words read are those of \<open>m\<close> and the segments are fresh and zeroed there, the body, run in one
  go from \<open>m\<close>, gets to the same rest with its writes done.
\<close>

lemma traced_run:
  assumes "traced p ss rs ws q" "safe p (contents A m)"
    and "\<And>a v. (a, v) \<in> set rs \<Longrightarrow> m a = v" "seg_union ss \<inter> A = {}"
    and "\<And>a. a \<in> seg_union ss \<Longrightarrow> decode (m a) = 0"
  shows "dom ws \<subseteq> A \<union> seg_union ss \<and> safe q (contents (A \<union> seg_union ss) (overlay ws m)) \<and>
    (atomically q (contents (A \<union> seg_union ss) (overlay ws m)) r \<sigma> \<longrightarrow> atomically p (contents A m) r \<sigma>)"
  using assms
proof (induction rule: traced.induct)
  case (traced_alloc ss rs ws sz k a)
  let ?A = "A \<union> seg_union ss"
  have IH: "dom ws \<subseteq> ?A" "safe (AllocSeg sz k) (contents ?A (overlay ws m))"
    "atomically (AllocSeg sz k) (contents ?A (overlay ws m)) r \<sigma> \<longrightarrow> atomically p (contents A m) r \<sigma>"
    using traced_alloc by auto
  have fr: "fresh_segment a sz (contents ?A (overlay ws m))"
    using traced_alloc.hyps traced_alloc.prems(3) by (auto simp: fresh_segment_def)
  have "decode (overlay ws m x) = 0" if "x \<in> seg_words a sz" for x
  proof -
    have "x \<notin> ?A" using fr that by (auto simp: fresh_segment_def)
    then have "ws x = None" using IH(1) by auto
    then show ?thesis using traced_alloc.prems(4) that by (simp add: overlay_def)
  qed
  then have add: "add_segment a sz (contents ?A (overlay ws m)) =
      contents (A \<union> seg_union (ss @ [(a, sz)])) (overlay ws m)"
    by (simp add: add_segment_contents Un_assoc)
  have "safe (k a) (contents (A \<union> seg_union (ss @ [(a, sz)])) (overlay ws m))"
    using IH(2) fr unfolding add [symmetric] by simp
  moreover have "atomically p (contents A m) r \<sigma>"
    if "atomically (k a) (contents (A \<union> seg_union (ss @ [(a, sz)])) (overlay ws m)) r \<sigma>"
    using IH(3) fr that unfolding add [symmetric] by (auto intro: at_alloc)
  ultimately show ?case using IH(1) by auto
next
  case (traced_nomem ss rs ws sz k)
  then show ?case by (auto intro: at_nomem)
next
  case (traced_write ss rs ws a v q)
  then show ?case by (auto simp: set_word_contents simp del: fun_upd_apply)
next
  case (traced_memory ss rs ws a k b)
  then have "safe (ReadWord a k) (contents (A \<union> seg_union ss) (overlay ws m))" "dom ws \<subseteq> A \<union> seg_union ss"
    "atomically (ReadWord a k) (contents (A \<union> seg_union ss) (overlay ws m)) r \<sigma> \<longrightarrow>
      atomically p (contents A m) r \<sigma>"
    by auto
  moreover have "overlay ws m a = b"
    using traced_memory.hyps(2) traced_memory.prems(2) [of a b] by (simp add: overlay_def)
  ultimately show ?case by auto
next
  case (traced_own ss rs ws a k b)
  then have "overlay ws m a = b" by (simp add: overlay_def)
  with traced_own show ?case by auto
qed auto

end
