(* ===== verification/TL2_Clients_Inv.thy ===== *)
theory TL2_Clients_Inv
  imports TL2_Clients
begin

text \<open>
  The invariant of client code over the concurrent library: where a thread's program point stands
  for its body, that what a thread logged and wrote comes from its body, that recorded commits
  belong to the calls that drew their stamps, and that segments do not overlap.
\<close>

section \<open>Accesses of one thread\<close>

text \<open>The word a read is about to copy.\<close>

fun before_copy :: "pc \<Rightarrow> addr option" where
  "before_copy (PreVersion a sz i) = Some a"
| "before_copy (PreLocked a sz i v) = Some a"
| "before_copy (CopyWord a sz i v) = Some a"
| "before_copy point = None"

text \<open>The program points of a read of one word, and of \<open>tm_end\<close>.\<close>

fun read_point :: "pc \<Rightarrow> bytes list \<Rightarrow> bool" where
  "read_point (PreVersion a sz i) bs \<longleftrightarrow> sz = 8 \<and> i = 0 \<and> bs = []"
| "read_point (PreLocked a sz i v) bs \<longleftrightarrow> sz = 8 \<and> i = 0 \<and> bs = []"
| "read_point (CopyWord a sz i v) bs \<longleftrightarrow> sz = 8 \<and> i = 0 \<and> bs = []"
| "read_point (PostVersion a sz i v) bs \<longleftrightarrow> sz = 8 \<and> i = 0 \<and> length bs = 1"
| "read_point (PostLocked a sz i v nv) bs \<longleftrightarrow> sz = 8 \<and> i = 0 \<and> length bs = 1"
| "read_point Idle bs \<longleftrightarrow> length bs = 1"
| "read_point point bs \<longleftrightarrow> False"

fun end_point :: "pc \<Rightarrow> bool" where
  "end_point Idle \<longleftrightarrow> False"
| "end_point (PreVersion a sz i) \<longleftrightarrow> False"
| "end_point (PreLocked a sz i v) \<longleftrightarrow> False"
| "end_point (CopyWord a sz i v) \<longleftrightarrow> False"
| "end_point (PostVersion a sz i v) \<longleftrightarrow> False"
| "end_point (PostLocked a sz i v nv) \<longleftrightarrow> False"
| "end_point point \<longleftrightarrow> True"

lemma read_point_stamp: "read_point p bs \<Longrightarrow> stamp_of p = None \<and> \<not> decided p"
  by (cases p) simp_all

lemma stamp_end_point: "stamp_of p = Some m \<Longrightarrow> end_point p"
  by (cases p) simp_all

lemma decided_end_point: "decided p \<Longrightarrow> end_point p"
  by (cases p) simp_all

lemma exec_others: "exec i act s = Some s' \<Longrightarrow> k \<noteq> i \<Longrightarrow> th s' k = th s k"
  using exec_cases [of i act s s'] by metis

text \<open>A \<open>Tau\<close> at a point of a read, and at a point of \<open>tm_end\<close>.\<close>

lemma tau_read:
  assumes "exec i (Tau sp rs hs) s = Some s'" "txn (th s i) = Some x"
    and "read_point (pc_at s i) bs" "pc_at s i \<noteq> Idle"
  obtains t where "tm_read_step (sh s) x (th s i) (pc_at s i) = Some t" "s' = upd s i (sh s) t"
  using assms
  by (cases "pc_at s i") (auto simp: exec_def upd_def Let_def split: if_splits option.splits)

lemma tau_end:
  assumes "exec i (Tau sp rs hs) s = Some s'" "txn (th s i) = Some x" "end_point (pc_at s i)"
  obtains g t where "tm_end_step sp rs hs (sh s) x (th s i) (pc_at s i) = Some (g, t)" "s' = upd s i g t"
proof -
  have "tm_read_step (sh s) x (th s i) (pc_at s i) = None" using assms(3) by (cases "pc_at s i") auto
  then show ?thesis
    using assms that by (auto simp: exec_def upd_def split: if_splits option.splits)
qed

text \<open>What an access of a read of one word does to its thread.\<close>

lemma read_access_cases:
  assumes "tm_read_step g x t (pc t) = Some t'" "txn t = Some x" "read_point (pc t) (buf t)" "word_size g = 8"
  shows "txn t' = None \<and> pc t' = Idle \<and> \<not> returned t' \<or>
    (\<exists>x'. txn t' = Some x' \<and> is_ro x' = is_ro x \<and> write_set x' = write_set x \<and> read_point (pc t') (buf t') \<and>
      (buf t' = buf t \<and> rlog t' = rlog t \<and> before_copy (pc t') = before_copy (pc t) \<or>
       (\<exists>a v b. pc t = CopyWord a 8 0 v \<and> pc t' = PostVersion a 8 0 v \<and> buf t' = [b] \<and>
         (if is_ro x \<or> write_set x a = None
          then b = load_bytes (mem g) a 8 \<and> rlog t' = (a, b) # rlog t
          else write_set x a = Some b \<and> rlog t' = rlog t))))"
  using assms
  by (cases "pc t")
     (auto simp: abort_def read_next_def Let_def split: if_splits option.splits)

text \<open>What an access of \<open>tm_end\<close> does to its thread and to the record of commits.\<close>

definition ends_well :: "thread \<Rightarrow> bool" where
  "ends_well t \<longleftrightarrow> decided (pc t) \<or> txn t = None \<and> returned t"

definition end_moved :: "thread \<Rightarrow> thread \<Rightarrow> bool" where
  "end_moved t t' \<longleftrightarrow> rlog t' = rlog t \<and>
     (txn t' = txn t \<and> end_point (pc t') \<or> txn t' = None \<and> pc t' = Idle)"

lemma release_held_thread:
  "release_held ho held t = Some t' \<Longrightarrow> txn t \<noteq> None \<Longrightarrow>
    end_moved t t' \<and> stamp_of (pc t') = None \<and> \<not> ends_well t'"
  by (auto simp: release_held_def end_moved_def ends_well_def abort_def split: if_splits)

lemma write_back_thread:
  "end_moved t (write_back keys wv t)"
  "stamp_of (pc (write_back keys wv t)) = Some m \<Longrightarrow> m = unat wv"
  "ends_well (write_back keys wv t)"
  by (auto simp: write_back_def end_moved_def ends_well_def commit_def split: if_splits)

lemma lock_next_thread:
  "txn t \<noteq> None \<Longrightarrow> end_moved t (lock_next keys held t) \<and> stamp_of (pc (lock_next keys held t)) = None \<and>
    \<not> ends_well (lock_next keys held t)"
  by (simp add: lock_next_def end_moved_def ends_well_def)

lemma val_next_thread:
  assumes "val_next reads held g x t wv = (g', t')" "txn t \<noteq> None"
  shows "end_moved t t' \<and> gvc g' = gvc g \<and> (\<forall>m. stamp_of (pc t') = Some m \<longrightarrow> m = unat wv) \<and>
    (clog g' = clog g \<and> \<not> ends_well t' \<or>
     clog g' = (clog g)(unat wv \<mapsto> \<lparr>c_reads = rlog t, c_writes = write_set x\<rparr>) \<and> ends_well t')"
proof (cases "reads = []")
  case True
  then show ?thesis using assms write_back_thread [where t = t] by (auto simp: val_next_def decide_def)
next
  case False
  then show ?thesis using assms by (auto simp: val_next_def end_moved_def ends_well_def)
qed

lemma end_access:
  assumes "tm_end_step sp rs hs g x t p = Some (g', t')" "txn t = Some x"
  shows "end_moved t t' \<and> gvc g' = (case p of FetchAdd held \<Rightarrow> gvc g + 1 | _ \<Rightarrow> gvc g) \<and>
    (\<forall>m. stamp_of (pc t') = Some m \<longrightarrow> stamp_of p = Some m \<or> (\<exists>held. p = FetchAdd held) \<and> m = unat (gvc g + 1)) \<and>
    (clog g' = clog g \<and> (ends_well t' \<longleftrightarrow> decided p) \<or>
     (\<exists>m. clog g' = (clog g)(m \<mapsto> \<lparr>c_reads = rlog t, c_writes = write_set x\<rparr>) \<and> \<not> decided p \<and>
       ends_well t' \<and> (stamp_of p = Some m \<or> (\<exists>held. p = FetchAdd held) \<and> m = unat (gvc g + 1))))"
proof (cases "(sp, rs, hs, g, x, t, p)" rule: tm_end_step.cases)
  case 1
  then show ?thesis using assms by (auto simp: end_moved_def ends_well_def)
next
  case 2
  then show ?thesis
    using assms by (auto simp: Let_def lock_next_thread dest!: release_held_thread split: prod.splits if_splits)
next
  case 3
  then show ?thesis
    using assms write_back_thread [where t = t]
      val_next_thread [of rs _ "g\<lparr>gvc := gvc g + 1\<rparr>" x t "gvc g + 1" g' t']
    by (auto simp: Let_def decide_def split: if_splits)
next
  case 4
  then show ?thesis
    using assms val_next_thread [of _ _ g x t _ g' t']
    by (auto simp: end_moved_def ends_well_def dest!: release_held_thread split: if_splits)
next
  case 5
  then show ?thesis
    using assms val_next_thread [of _ _ g x t _ g' t']
    by (auto dest!: release_held_thread split: if_splits)
next
  case 6
  then show ?thesis using assms by (auto simp: end_moved_def ends_well_def)
next
  case 7
  then show ?thesis using assms write_back_thread [where t = t] by auto
next
  case 8
  then show ?thesis using assms by (auto simp: end_moved_def ends_well_def)
next
  case 9
  then show ?thesis using assms by (auto simp: end_moved_def ends_well_def abort_def split: if_splits)
qed (use assms in simp_all)

section \<open>The invariant\<close>

fun final :: "exn + 'a \<Rightarrow> 'a prog" where
  "final (Inr v) = Done v"
| "final (Inl e) = Throw e"

lemma body_result_final: "body_result q = Some r \<longleftrightarrow> q = final r"
  by (cases q; cases r) auto

text \<open>What is left of the body of a thread.\<close>

fun rest_of :: "'a call \<Rightarrow> thread \<Rightarrow> 'a prog" where
  "rest_of Outside t = Throw TransactionRetry"
| "rest_of (Body q) t = q"
| "rest_of (Reading k) t =
     (case before_copy (pc t) of Some a \<Rightarrow> ReadWord a k | None \<Rightarrow> k (decode (concat (buf t))))"
| "rest_of (Ending r n) t = final r"

fun call_point :: "'a call \<Rightarrow> thread \<Rightarrow> bool" where
  "call_point Outside t \<longleftrightarrow> False"
| "call_point (Body q) t \<longleftrightarrow> pc t = Idle"
| "call_point (Reading k) t \<longleftrightarrow> read_point (pc t) (buf t)"
| "call_point (Ending r n) t \<longleftrightarrow> end_point (pc t)"

definition is_ending :: "'a call \<Rightarrow> bool" where
  "is_ending c \<longleftrightarrow> (\<exists>r n. c = Ending r n)"

lemma is_ending_simps [simp]:
  "\<not> is_ending Outside" "\<not> is_ending (Body q)" "\<not> is_ending (Reading k)" "is_ending (Ending r n)"
  by (simp_all add: is_ending_def)

definition running_inv :: "(bool \<times> 'a prog) option \<Rightarrow> 'a call \<Rightarrow> segments \<Rightarrow> thread \<Rightarrow> Transaction \<Rightarrow> bool" where
  "running_inv nc c ss t x \<longleftrightarrow> (\<exists>p. nc = Some (is_ro x, p) \<and> call_point c t \<and>
     (if is_ro x
      then \<not> is_ending c \<and> (reads_once p \<longrightarrow> rest_of c t = p \<or> (\<exists>r. body_result (rest_of c t) = Some r))
      else traced p ss (rlog t) (write_set x) (rest_of c t)))"

fun between_inv :: "(bool \<times> 'a prog) option \<Rightarrow> 'a call \<Rightarrow> segments \<Rightarrow> thread \<Rightarrow> bool" where
  "between_inv nc Outside ss t \<longleftrightarrow> ss = []"
| "between_inv nc (Body q) ss t \<longleftrightarrow> False"
| "between_inv nc (Reading k) ss t \<longleftrightarrow> nc \<noteq> None"
| "between_inv nc (Ending r n) ss t \<longleftrightarrow> (\<exists>ro p. nc = Some (ro, p) \<and> (ro \<longrightarrow> returned t \<and> n = 0))"

definition thread_inv :: "('l, 'a) client_code \<Rightarrow> ('l, 'a) world \<Rightarrow> nat \<Rightarrow> bool" where
  "thread_inv C w i \<longleftrightarrow>
     (let nc = next_call C i (local_state w i); t = th (tm w) i
      in case txn t of
           None \<Rightarrow> between_inv nc (calls w i) (tx_segs w i) t
         | Some x \<Rightarrow> running_inv nc (calls w i) (tx_segs w i) t x)"

text \<open>The stamp of a call that is ending.\<close>

definition stamp_inv :: "('l, 'a) client_code \<Rightarrow> ('l, 'a) world \<Rightarrow> nat \<Rightarrow> bool" where
  "stamp_inv C w i \<longleftrightarrow> (\<forall>r n. calls w i = Ending r n \<longrightarrow>
     (\<forall>m. stamp_of (pc_at (tm w) i) = Some m \<longrightarrow> m = n) \<and>
     (n \<noteq> 0 \<longrightarrow> n \<le> gv (tm w) \<and>
        (\<exists>p. next_call C i (local_state w i) = Some (False, p) \<and> drawn w n = Some (p, r, tx_segs w i))) \<and>
     (\<forall>p. next_call C i (local_state w i) = Some (False, p) \<longrightarrow>
        (ends_well (th (tm w) i) \<longleftrightarrow> clog (sh (tm w)) n \<noteq> None)))"

definition stamps_differ :: "('l, 'a) world \<Rightarrow> bool" where
  "stamps_differ w \<longleftrightarrow> (\<forall>i j r r' n. calls w i = Ending r n \<longrightarrow> calls w j = Ending r' n \<longrightarrow> n \<noteq> 0 \<longrightarrow> i = j)"

text \<open>A recorded commit is the trace of the call that drew its stamp; its segments are its own.\<close>

definition disjoint_segs :: "segments \<Rightarrow> segments \<Rightarrow> bool" where
  "disjoint_segs ss ts \<longleftrightarrow> seg_union ss \<inter> seg_union ts = {}"

definition aligned_segs :: "segments \<Rightarrow> bool" where
  "aligned_segs ss \<longleftrightarrow> (\<forall>a \<in> seg_union ss. word_aligned 8 a)"

definition commit_inv :: "('l, 'a) world \<Rightarrow> nat \<Rightarrow> commit_rec \<Rightarrow> bool" where
  "commit_inv w n c \<longleftrightarrow> (\<exists>p r ss. drawn w n = Some (p, r, ss) \<and>
     traced p ss (c_reads c) (c_writes c) (final r) \<and>
     seg_union ss \<inter> first_words w = {} \<and> seg_union ss \<subseteq> all_words w \<and> aligned_segs ss \<and>
     (\<forall>i. (\<forall>r. calls w i \<noteq> Ending r n) \<longrightarrow> disjoint_segs ss (tx_segs w i)) \<and>
     (\<forall>m p' r' ss'. m \<noteq> n \<longrightarrow> clog (sh (tm w)) m \<noteq> None \<longrightarrow> drawn w m = Some (p', r', ss') \<longrightarrow>
        disjoint_segs ss ss'))"

definition segs_inv :: "('l, 'a) world \<Rightarrow> bool" where
  "segs_inv w \<longleftrightarrow> (\<forall>i j. i \<noteq> j \<longrightarrow> disjoint_segs (tx_segs w i) (tx_segs w j)) \<and>
     (\<forall>i. seg_union (tx_segs w i) \<inter> first_words w = {} \<and> aligned_segs (tx_segs w i))"

abbreviation zero_words :: "addr \<Rightarrow> bytes" where
  "zero_words \<equiv> \<lambda>_. replicate 8 0"

definition world_inv :: "('l, 'a) client_code \<Rightarrow> ('l, 'a) world \<Rightarrow> bool" where
  "world_inv C w \<longleftrightarrow> tl2_inv zero_words (tm w) \<and> supported (tm w) \<and> word_size (sh (tm w)) = 8 \<and>
     (\<forall>i. thread_inv C w i) \<and> (\<forall>i. stamp_inv C w i) \<and> stamps_differ w \<and> segs_inv w \<and>
     (\<forall>n c. clog (sh (tm w)) n = Some c \<longrightarrow> commit_inv w n c)"

section \<open>Steps that record nothing\<close>

definition same_but :: "nat \<Rightarrow> ('l, 'a) world \<Rightarrow> ('l, 'a) world \<Rightarrow> bool" where
  "same_but i w w' \<longleftrightarrow> first_words w' = first_words w \<and>
     (\<forall>j. j \<noteq> i \<longrightarrow> th (tm w') j = th (tm w) j \<and> calls w' j = calls w j \<and>
        local_state w' j = local_state w j \<and> tx_segs w' j = tx_segs w j)"

lemma thread_inv_other: "same_but i w w' \<Longrightarrow> j \<noteq> i \<Longrightarrow> thread_inv C w j \<Longrightarrow> thread_inv C w' j"
  by (auto simp: same_but_def thread_inv_def Let_def split: option.splits)

lemma stamp_inv_other:
  assumes "same_but i w w'" "j \<noteq> i" "stamp_inv C w j" "gv (tm w) \<le> gv (tm w')"
    and "\<And>r n. calls w j = Ending r n \<Longrightarrow> clog (sh (tm w')) n \<noteq> None \<longleftrightarrow> clog (sh (tm w)) n \<noteq> None"
    and "\<And>n. n \<le> gv (tm w) \<Longrightarrow> drawn w' n = drawn w n"
  shows "stamp_inv C w' j"
  unfolding stamp_inv_def
proof (intro allI impI)
  fix r n
  assume c: "calls w' j = Ending r n"
  have eq: "th (tm w') j = th (tm w) j" "calls w' j = calls w j" "local_state w' j = local_state w j"
    "tx_segs w' j = tx_segs w j"
    using assms(1,2) by (simp_all add: same_but_def)
  with c assms(3) have old: "(\<forall>m. stamp_of (pc_at (tm w) j) = Some m \<longrightarrow> m = n)"
    "n \<noteq> 0 \<longrightarrow> n \<le> gv (tm w) \<and>
        (\<exists>p. next_call C j (local_state w j) = Some (False, p) \<and> drawn w n = Some (p, r, tx_segs w j))"
    "\<forall>p. next_call C j (local_state w j) = Some (False, p) \<longrightarrow>
        (ends_well (th (tm w) j) \<longleftrightarrow> clog (sh (tm w)) n \<noteq> None)"
    by (simp_all add: stamp_inv_def)
  show "(\<forall>m. stamp_of (pc_at (tm w') j) = Some m \<longrightarrow> m = n) \<and>
     (n \<noteq> 0 \<longrightarrow> n \<le> gv (tm w') \<and>
        (\<exists>p. next_call C j (local_state w' j) = Some (False, p) \<and> drawn w' n = Some (p, r, tx_segs w' j))) \<and>
     (\<forall>p. next_call C j (local_state w' j) = Some (False, p) \<longrightarrow>
        (ends_well (th (tm w') j) \<longleftrightarrow> clog (sh (tm w')) n \<noteq> None))"
    using old assms(4) assms(5) [of r n] assms(6) [of n] eq c by auto
qed

text \<open>What a step may do to the segments: free those of a call that did not commit, hand those of a
  committed call to the region, or serve an allocation.\<close>

definition segs_move :: "nat \<Rightarrow> ('l, 'a) world \<Rightarrow> ('l, 'a) world \<Rightarrow> bool" where
  "segs_move i w w' \<longleftrightarrow>
     (\<exists>X. seg_union (tx_segs w' i) \<subseteq> seg_union (tx_segs w i) \<union> X \<and> X \<inter> all_words w = {} \<and>
        (\<forall>a \<in> X. word_aligned 8 a)) \<and>
     (all_words w \<subseteq> all_words w' \<or>
      all_words w \<subseteq> all_words w' \<union> seg_union (tx_segs w i) \<and>
      (\<forall>r n. calls w i = Ending r n \<longrightarrow> clog (sh (tm w)) n = None)) \<and>
     (tx_segs w' i = [] \<or> (\<forall>r n. calls w i = Ending r n \<longrightarrow> clog (sh (tm w)) n \<noteq> None \<longrightarrow>
        (\<exists>r'. calls w' i = Ending r' n)))"

lemma tx_segs_all_words: "seg_union (tx_segs w i) \<subseteq> all_words w" "first_words w \<subseteq> all_words w"
  by (auto simp: all_words_def)

lemma segs_inv_move:
  assumes "segs_inv w" "same_but i w w'" "segs_move i w w'"
  shows "segs_inv w'"
proof -
  obtain X where X: "seg_union (tx_segs w' i) \<subseteq> seg_union (tx_segs w i) \<union> X" "X \<inter> all_words w = {}"
    "\<forall>a \<in> X. word_aligned 8 a"
    using assms(3) by (auto simp: segs_move_def)
  have new: "disjoint_segs (tx_segs w' i) (tx_segs w j)" if "j \<noteq> i" for j
    using that assms(1) X tx_segs_all_words(1) [of w j] by (fastforce simp: segs_inv_def disjoint_segs_def)
  have "disjoint_segs (tx_segs w' j) (tx_segs w' k)" if "j \<noteq> k" for j k
    using that new [of j] new [of k] assms(1,2)
    by (cases "j = i"; cases "k = i") (auto simp: same_but_def segs_inv_def disjoint_segs_def)
  moreover have "seg_union (tx_segs w' j) \<inter> first_words w' = {}" for j
    using assms(1,2) X tx_segs_all_words(2) [of w]
    by (cases "j = i") (fastforce simp: same_but_def segs_inv_def)+
  moreover have "aligned_segs (tx_segs w' j)" for j
    using assms(1,2) X by (cases "j = i") (auto simp: same_but_def segs_inv_def aligned_segs_def)
  ultimately show ?thesis by (simp add: segs_inv_def)
qed

lemma commit_inv_move:
  assumes "commit_inv w n c" "clog (sh (tm w)) n = Some c" "same_but i w w'" "segs_move i w w'"
    and "clog (sh (tm w')) = clog (sh (tm w))" "drawn w' = drawn w"
  shows "commit_inv w' n c"
proof -
  obtain p r ss where d: "drawn w n = Some (p, r, ss)" "traced p ss (c_reads c) (c_writes c) (final r)"
    "seg_union ss \<inter> first_words w = {}" "seg_union ss \<subseteq> all_words w" "aligned_segs ss"
    "\<And>j. (\<forall>r. calls w j \<noteq> Ending r n) \<Longrightarrow> disjoint_segs ss (tx_segs w j)"
    "\<forall>m p' r' ss'. m \<noteq> n \<longrightarrow> clog (sh (tm w)) m \<noteq> None \<longrightarrow> drawn w m = Some (p', r', ss') \<longrightarrow>
        disjoint_segs ss ss'"
    using assms(1) unfolding commit_inv_def by auto
  obtain X where X: "seg_union (tx_segs w' i) \<subseteq> seg_union (tx_segs w i) \<union> X" "X \<inter> all_words w = {}"
    using assms(4) by (auto simp: segs_move_def)
  have "seg_union ss \<subseteq> all_words w'"
  proof (cases "all_words w \<subseteq> all_words w'")
    case False
    then have u: "all_words w \<subseteq> all_words w' \<union> seg_union (tx_segs w i)"
      "\<forall>r n. calls w i = Ending r n \<longrightarrow> clog (sh (tm w)) n = None"
      using assms(4) by (auto simp: segs_move_def)
    have "\<forall>r. calls w i \<noteq> Ending r n" using u(2) assms(2) by force
    then have "disjoint_segs ss (tx_segs w i)" by (rule d(6))
    then show ?thesis using d(4) u(1) by (auto simp: disjoint_segs_def)
  qed (use d(4) in blast)
  moreover have "disjoint_segs ss (tx_segs w' j)" if "\<forall>r. calls w' j \<noteq> Ending r n" for j
  proof (cases "j = i")
    case True
    show ?thesis
    proof (cases "tx_segs w' i = []")
      case False
      then have "\<forall>r. calls w i \<noteq> Ending r n"
        using assms(2,4) that True by (auto simp: segs_move_def)
      then have "disjoint_segs ss (tx_segs w i)" by (rule d(6))
      then show ?thesis using X d(4) True by (fastforce simp: disjoint_segs_def)
    qed (simp add: True disjoint_segs_def)
  next
    case False
    then show ?thesis using that d(6) [of j] assms(3) by (simp add: same_but_def)
  qed
  ultimately show ?thesis using d assms(3,5,6) by (auto simp: commit_inv_def same_but_def)
qed

lemma world_inv_quiet:
  assumes "world_inv C w" "same_but i w w'" "segs_move i w w'"
    and "tl2_inv zero_words (tm w')" "supported (tm w')" "word_size (sh (tm w')) = 8"
    and "clog (sh (tm w')) = clog (sh (tm w))" "gv (tm w') = gv (tm w)" "drawn w' = drawn w"
    and "thread_inv C w' i" "stamp_inv C w' i"
    and "\<And>r n. calls w' i = Ending r n \<Longrightarrow> n = 0 \<or> (\<exists>r'. calls w i = Ending r' n)"
  shows "world_inv C w'"
proof -
  have "thread_inv C w' j" for j
    using assms(1,2,10) thread_inv_other [of i w w' j C] by (cases "j = i") (auto simp: world_inv_def)
  moreover have "stamp_inv C w' j" for j
    using assms(1,2,7-9,11) stamp_inv_other [of i w w' j C] by (cases "j = i") (auto simp: world_inv_def)
  moreover have "stamps_differ w'"
    unfolding stamps_differ_def
  proof (intro allI impI)
    fix j k r r' n
    assume c: "calls w' j = Ending r n" "calls w' k = Ending r' n" "n \<noteq> 0"
    have "\<exists>r. calls w l = Ending r n" if "calls w' l = Ending r n" for l r
      using that assms(2) assms(12) [of r n] c(3) by (cases "l = i") (auto simp: same_but_def)
    then obtain q q' where "calls w j = Ending q n" "calls w k = Ending q' n" using c by metis
    then show "j = k" using assms(1) c(3) unfolding world_inv_def stamps_differ_def by blast
  qed
  moreover have "segs_inv w'" using assms(1-3) segs_inv_move by (auto simp: world_inv_def)
  moreover have "\<forall>n c. clog (sh (tm w')) n = Some c \<longrightarrow> commit_inv w' n c"
    using assms(1,7) commit_inv_move [OF _ _ assms(2,3,7,9)] by (auto simp: world_inv_def)
  ultimately show ?thesis using assms(4-6) by (simp add: world_inv_def)
qed

end
