(* ===== verification/TL2_Clients_Steps.thy ===== *)
theory TL2_Clients_Steps
  imports TL2_Clients_Inv
begin

text \<open>
  Every step of client code over the concurrent library keeps the invariant of
  \<open>TL2_Clients_Inv\<close>: one lemma per kind of step. An allocation relies on memory
  outside all segments being zero, which the comparison with the atomic system provides.
\<close>

section \<open>Calls of the library\<close>

lemma exec_begin:
  assumes "exec i (Begin ro) s = Some s'"
  shows "txn (th s i) = None" "sh s' = sh s"
    "th s' i = (th s i)\<lparr>txn := Some (new_Transaction (gvc (sh s)) ro), rlog := [], buf := [], order := [],
       returned := True\<rparr>" "pc_at s i = Idle"
  using assms by (auto simp: exec_def tm_begin_step_def split: if_splits)

lemma exec_read:
  assumes "exec i (Read a 8) s = Some s'"
  shows "txn (th s i) \<noteq> None" "sh s' = sh s" "th s' i = (th s i)\<lparr>pc := PreVersion a 8 0, buf := []\<rparr>"
    "pc_at s i = Idle"
  using assms by (auto simp: exec_def read_call_def split: if_splits)

lemma exec_write:
  assumes "exec i (Write a (encode v)) s = Some s'" "word_size (sh s) = 8"
  obtains x where "txn (th s i) = Some x" "sh s' = sh s" "pc_at s i = Idle"
    "th s' i = (th s i)\<lparr>txn := Some (x\<lparr>write_set := (write_set x)(a \<mapsto> encode v)\<rparr>), returned := True\<rparr>"
proof -
  have "write_loop 8 a (\<lambda>i. take 8 (drop i (encode v))) (length (encode v)) 0 ws = ws(a \<mapsto> encode v)" for ws
    by (simp add: write_loop.simps)
  with assms that show ?thesis
    by (auto simp: exec_def tm_write_step_def split: if_splits option.splits)
qed

lemma exec_end:
  assumes "exec i (End ws_order) s = Some s'"
  obtains x t where "txn (th s i) = Some x" "sh s' = sh s" "th s' i = t" "pc_at s i = Idle"
    "is_ro x \<Longrightarrow> txn t = None \<and> pc t = Idle \<and> returned t"
    "\<not> is_ro x \<Longrightarrow> txn t = Some x \<and> end_point (pc t) \<and> rlog t = rlog (th s i) \<and> stamp_of (pc t) = None \<and>
       \<not> decided (pc t)"
proof -
  obtain x t where e: "txn (th s i) = Some x" "end_call ws_order (th s i) = Some t" "pc_at s i = Idle"
    "s' = s\<lparr>sh := sh s, th := (th s)(i := t)\<rparr>"
    using assms by (auto simp: exec_def end_call_def split: if_splits option.splits)
  show thesis
    by (rule that [of x t])
      (use e in \<open>auto simp: end_call_def commit_def split: if_splits\<close>)
qed

section \<open>Steps that record no commit\<close>

lemma thread_invD:
  assumes "thread_inv C w i"
  shows "txn (th (tm w) i) = None \<Longrightarrow>
      between_inv (next_call C i (local_state w i)) (calls w i) (tx_segs w i) (th (tm w) i)"
    and "txn (th (tm w) i) = Some x \<Longrightarrow>
      running_inv (next_call C i (local_state w i)) (calls w i) (tx_segs w i) (th (tm w) i) x"
  using assms by (simp_all add: thread_inv_def)

lemma world_invD:
  assumes "world_inv C w"
  shows "tl2_inv zero_words (tm w)" "supported (tm w)" "word_size (sh (tm w)) = 8" "thread_inv C w i"
    "stamp_inv C w i"
  using assms by (simp_all add: world_inv_def)

lemma idle_unless_running: "tl2_inv base s \<Longrightarrow> txn (th s i) = None \<Longrightarrow> pc_at s i = Idle"
  by (auto simp: tl2_inv_def local_ok_def dest: spec [of _ i])

lemma stamp_inv_not_ending: "\<not> is_ending (calls w i) \<Longrightarrow> stamp_inv C w i"
  by (auto simp: stamp_inv_def is_ending_def)

lemma all_words_same:
  "first_words w' = first_words w \<Longrightarrow> shared_segs w' = shared_segs w \<Longrightarrow> tx_segs w' = tx_segs w \<Longrightarrow>
    all_words w' = all_words w"
  by (simp add: all_words_def)

lemma segs_move_none:
  assumes "all_words w' = all_words w" "tx_segs w' = tx_segs w"
    and "\<And>r n. calls w i = Ending r n \<Longrightarrow> \<exists>r'. calls w' i = Ending r' n"
  shows "segs_move i w w'"
  unfolding segs_move_def using assms by (intro conjI exI [of _ "{}"]) auto

text \<open>A step through \<open>exec\<close> that leaves the shared state and enters the call state \<open>c\<close>.\<close>

lemma world_inv_enter:
  assumes inv: "world_inv C w" and ex: "exec i act (tm w) = Some s'" and sup: "supported s'"
    and sh: "sh s' = sh (tm w)" and w': "w' = (enter i c w s')\<lparr>seen := sn\<rparr>"
    and c: "\<not> is_ending (calls w i)" "is_ending c \<Longrightarrow> c = Ending r 0"
    and th: "thread_inv C w' i" "stamp_inv C w' i"
  shows "world_inv C w'"
proof (rule world_inv_quiet [OF inv])
  note D = world_invD [OF inv]
  show "same_but i w w'"
    using exec_others [OF ex] by (simp add: same_but_def w' enter_def)
  have "all_words w' = all_words w" by (rule all_words_same) (simp_all add: w' enter_def)
  then show "segs_move i w w'"
    using c by (intro segs_move_none) (auto simp: w' enter_def is_ending_def)
  show "tl2_inv zero_words (tm w')" using exec_inv [OF D(1,2) ex] by (simp add: w' enter_def)
  show "n = 0 \<or> (\<exists>r'. calls w i = Ending r' n)" if "calls w' i = Ending r n" for r n
    using that c(2) by (auto simp: w' enter_def is_ending_def)
qed (use th sup sh world_invD [OF inv] in \<open>simp_all add: w' enter_def gv_def\<close>)

lemma enter_seen: "enter i c w s = (enter i c w s)\<lparr>seen := seen w\<rparr>"
  by (simp add: enter_def)

lemma inv_begin_call:
  assumes "world_inv C w" "exec i (Begin ro) (tm w) = Some s'" "supported s'"
    and "next_call C i (local_state w i) = Some (ro, p)" "calls w i = Outside"
  shows "world_inv C (enter i (Body p) w s')"
proof (rule world_inv_enter [OF assms(1-3) exec_begin(2) [OF assms(2)] enter_seen])
  note e = exec_begin [OF assms(2)]
  have "tx_segs w i = []" using thread_invD(1) [OF world_invD(4) [OF assms(1)] e(1)] assms(5) by simp
  then show "thread_inv C (enter i (Body p) w s') i"
    using e assms(4)
    by (simp add: thread_inv_def running_inv_def enter_def new_Transaction_def traced_start)
qed (use assms(5) in \<open>simp_all add: stamp_inv_not_ending enter_def\<close>)

lemma running_Body:
  assumes "world_inv C w" "calls w i = Body q"
  obtains x p where "txn (th (tm w) i) = Some x" "next_call C i (local_state w i) = Some (is_ro x, p)"
    "pc_at (tm w) i = Idle"
    "is_ro x \<Longrightarrow> reads_once p \<Longrightarrow> q = p \<or> (\<exists>r. body_result q = Some r)"
    "\<not> is_ro x \<Longrightarrow> traced p (tx_segs w i) (rlog (th (tm w) i)) (write_set x) q"
proof (cases "txn (th (tm w) i)")
  case None
  then show ?thesis using thread_invD(1) [OF world_invD(4) [OF assms(1)] None] assms(2) by simp
next
  case (Some x)
  with thread_invD(2) [OF world_invD(4) [OF assms(1)] Some] assms(2) that show ?thesis
    by (auto simp: running_inv_def split: if_splits)
qed

lemma inv_read_call_body:
  assumes "world_inv C w" "calls w i = Body (ReadWord a k)" "exec i (Read a 8) (tm w) = Some s'" "supported s'"
  shows "world_inv C (enter i (Reading k) w s')"
proof (rule world_inv_enter [OF assms(1,3,4) exec_read(2) [OF assms(3)] enter_seen])
  obtain x p where x: "txn (th (tm w) i) = Some x" "next_call C i (local_state w i) = Some (is_ro x, p)"
    "is_ro x \<Longrightarrow> reads_once p \<Longrightarrow> ReadWord a k = p \<or> (\<exists>r. body_result (ReadWord a k) = Some r)"
    "\<not> is_ro x \<Longrightarrow> traced p (tx_segs w i) (rlog (th (tm w) i)) (write_set x) (ReadWord a k)"
    using running_Body [OF assms(1,2)] by blast
  then show "thread_inv C (enter i (Reading k) w s') i"
    using exec_read(3) [OF assms(3)] by (simp add: thread_inv_def running_inv_def enter_def)
qed (use assms(2) in \<open>simp_all add: stamp_inv_not_ending enter_def\<close>)

lemma reads_once_shape: "reads_once p \<Longrightarrow> \<exists>a k. p = ReadWord a k"
  by (auto simp: reads_once_def)

lemma inv_write_call_body:
  assumes "world_inv C w" "calls w i = Body (prog.WriteWord a v q)" "exec i (Write a (encode v)) (tm w) = Some s'"
    "supported s'"
  shows "world_inv C (enter i (Body q) w s')"
proof -
  obtain x where e: "txn (th (tm w) i) = Some x" "sh s' = sh (tm w)" "pc_at (tm w) i = Idle"
    "th s' i = (th (tm w) i)\<lparr>txn := Some (x\<lparr>write_set := (write_set x)(a \<mapsto> encode v)\<rparr>), returned := True\<rparr>"
    using exec_write [OF assms(3) world_invD(3) [OF assms(1)]] by blast
  obtain p where x: "next_call C i (local_state w i) = Some (is_ro x, p)"
    "is_ro x \<Longrightarrow> reads_once p \<Longrightarrow> prog.WriteWord a v q = p \<or> (\<exists>r. body_result (prog.WriteWord a v q) = Some r)"
    "\<not> is_ro x \<Longrightarrow> traced p (tx_segs w i) (rlog (th (tm w) i)) (write_set x) (prog.WriteWord a v q)"
    using running_Body [OF assms(1,2)] e(1) by (metis option.inject)
  show ?thesis
  proof (rule world_inv_enter [OF assms(1,3,4) e(2) enter_seen])
    show "thread_inv C (enter i (Body q) w s') i"
      using e x traced_write reads_once_shape [of p]
      by (auto simp: thread_inv_def running_inv_def enter_def Let_def simp del: fun_upd_apply
          simp add: fun_upd_same)
  qed (use assms(2) in \<open>simp_all add: stamp_inv_not_ending enter_def\<close>)
qed

lemma inv_end_call_body:
  assumes "world_inv C w" "calls w i = Body (final r)" "exec i (End ws_order) (tm w) = Some s'" "supported s'"
  shows "world_inv C (enter i (Ending r 0) w s')"
proof -
  obtain x t where e: "txn (th (tm w) i) = Some x" "sh s' = sh (tm w)" "th s' i = t"
    "is_ro x \<Longrightarrow> txn t = None \<and> pc t = Idle \<and> returned t"
    "\<not> is_ro x \<Longrightarrow> txn t = Some x \<and> end_point (pc t) \<and> rlog t = rlog (th (tm w) i) \<and> stamp_of (pc t) = None \<and>
       \<not> decided (pc t)"
    using exec_end [OF assms(3)] by metis
  obtain p where x: "next_call C i (local_state w i) = Some (is_ro x, p)"
    "\<not> is_ro x \<Longrightarrow> traced p (tx_segs w i) (rlog (th (tm w) i)) (write_set x) (final r)"
    using running_Body [OF assms(1,2)] e(1) by (metis option.inject)
  have n0: "clog (sh (tm w)) 0 = None"
    using world_invD(1) [OF assms(1)] log_okD(1) [of "tm w" 0] by (cases "clog (sh (tm w)) 0") (auto simp: tl2_inv_def)
  show ?thesis
  proof (rule world_inv_enter [OF assms(1,3,4) e(2) enter_seen])
    show "thread_inv C (enter i (Ending r 0) w s') i"
      using e x by (cases "is_ro x") (auto simp: thread_inv_def running_inv_def enter_def)
    show "stamp_inv C (enter i (Ending r 0) w s') i"
      using e x n0 by (cases "is_ro x") (auto simp: stamp_inv_def enter_def ends_well_def)
  qed (use assms(2) in \<open>simp_all add: enter_def\<close>)
qed

lemma running_Reading:
  assumes "world_inv C w" "calls w i = Reading k" "txn (th (tm w) i) = Some x"
  obtains p where "next_call C i (local_state w i) = Some (is_ro x, p)"
    "read_point (pc_at (tm w) i) (buf (th (tm w) i))"
    "is_ro x \<Longrightarrow> reads_once p \<Longrightarrow> rest_of (Reading k) (th (tm w) i) = p \<or>
       (\<exists>r. body_result (rest_of (Reading k) (th (tm w) i)) = Some r)"
    "\<not> is_ro x \<Longrightarrow> traced p (tx_segs w i) (rlog (th (tm w) i)) (write_set x) (rest_of (Reading k) (th (tm w) i))"
  using thread_invD(2) [OF world_invD(4) [OF assms(1)] assms(3)] assms(2) that
  by (auto simp: running_inv_def split: if_splits)

lemma reads_once_result: "reads_once (ReadWord a k) \<Longrightarrow> \<exists>r. body_result (k v) = Some r"
  by (auto simp: reads_once_def)

lemma inv_read_access:
  assumes "world_inv C w" "calls w i = Reading k" "txn (th (tm w) i) = Some x" "pc_at (tm w) i \<noteq> Idle"
    and "read_access i (Tau sp rs hs) w = Some w'" "supported (tm w')"
  shows "world_inv C w'"
proof -
  obtain s' where ex: "exec i (Tau sp rs hs) (tm w) = Some s'"
    and w': "w' = w\<lparr>tm := s', seen := (seen w)(i := note_seen (pc_at (tm w) i) (tm w) (seen w i))\<rparr>"
    using assms(5) by (auto simp: read_access_def)
  have we: "w' = (enter i (Reading k) w s')\<lparr>seen := (seen w)(i := note_seen (pc_at (tm w) i) (tm w) (seen w i))\<rparr>"
    using assms(2) by (simp add: w' enter_def fun_upd_idem)
  obtain p where r: "next_call C i (local_state w i) = Some (is_ro x, p)"
    "read_point (pc_at (tm w) i) (buf (th (tm w) i))"
    "is_ro x \<Longrightarrow> reads_once p \<Longrightarrow> rest_of (Reading k) (th (tm w) i) = p \<or>
       (\<exists>r. body_result (rest_of (Reading k) (th (tm w) i)) = Some r)"
    "\<not> is_ro x \<Longrightarrow> traced p (tx_segs w i) (rlog (th (tm w) i)) (write_set x) (rest_of (Reading k) (th (tm w) i))"
    using running_Reading [OF assms(1-3)] by blast
  obtain t where st: "tm_read_step (sh (tm w)) x (th (tm w) i) (pc_at (tm w) i) = Some t" and s': "s' = upd (tm w) i (sh (tm w)) t"
    using tau_read [OF ex assms(3) r(2) assms(4)] by blast
  note c = read_access_cases [OF st assms(3) r(2) world_invD(3) [OF assms(1)]]
  have thi: "thread_inv C w' i"
  proof (cases "txn t")
    case None
    then show ?thesis using assms(2) r(1) by (simp add: thread_inv_def w' s')
  next
    case (Some x')
    then have x': "is_ro x' = is_ro x" "write_set x' = write_set x" "read_point (pc t) (buf t)" using c by auto
    from c Some consider (same) "buf t = buf (th (tm w) i)" "rlog t = rlog (th (tm w) i)"
        "before_copy (pc t) = before_copy (pc_at (tm w) i)"
      | (copy) a v b where "pc_at (tm w) i = CopyWord a 8 0 v" "pc t = PostVersion a 8 0 v" "buf t = [b]"
        "if is_ro x \<or> write_set x a = None
          then b = load_bytes (mem (sh (tm w))) a 8 \<and> rlog t = (a, b) # rlog (th (tm w) i)
          else write_set x a = Some b \<and> rlog t = rlog (th (tm w) i)"
      by auto
    then show ?thesis
    proof cases
      case same
      then have "rest_of (Reading k) t = rest_of (Reading k) (th (tm w) i)" by (simp cong: option.case_cong)
      with Some x' r same(2) assms(2) show ?thesis by (auto simp: thread_inv_def running_inv_def w' s')
    next
      case copy
      have ro: "\<exists>r. body_result (k (decode b)) = Some r" if "is_ro x" "reads_once p"
        using r(3) [OF that] copy(1) reads_once_result [of a k] that(2) by auto
      have "traced p (tx_segs w i) (rlog t) (write_set x) (k (decode b))" if "\<not> is_ro x"
        using r(4) [OF that] copy(1,4) that by (auto intro: traced_memory traced_own split: if_splits)
      with ro Some x' r(1) copy(2,3) assms(2) show ?thesis
        by (auto simp: thread_inv_def running_inv_def w' s')
    qed
  qed
  show ?thesis
    by (rule world_inv_enter [OF assms(1) ex _ _ we])
      (use assms(2,6) thi in \<open>simp_all add: w' s' stamp_inv_not_ending\<close>)
qed

text \<open>Steps without an access: the thread's call state changes, and its segments at most shrink.\<close>

lemma world_inv_local:
  assumes inv: "world_inv C w" and tm: "tm w' = tm w" and same: "same_but i w w'" and dr: "drawn w' = drawn w"
    and seg: "segs_move i w w'" and th: "thread_inv C w' i" "stamp_inv C w' i"
    and c: "\<And>r n. calls w' i = Ending r n \<Longrightarrow> \<exists>r'. calls w i = Ending r' n"
  shows "world_inv C w'"
  by (rule world_inv_quiet [OF inv same seg]) (use world_invD [OF inv] tm dr th c in auto)

lemma inv_enter_body:
  assumes "world_inv C w" "\<not> is_ending (calls w i)" "txn (th (tm w) i) = Some x"
    and "running_inv (next_call C i (local_state w i)) (Body q) (tx_segs w i) (th (tm w) i) x"
  shows "world_inv C (enter i (Body q) w (tm w))"
proof (rule world_inv_local [OF assms(1)])
  have "all_words (enter i (Body q) w (tm w)) = all_words w"
    by (rule all_words_same) (simp_all add: enter_def)
  then show "segs_move i w (enter i (Body q) w (tm w))"
    using assms(2) by (intro segs_move_none) (auto simp: enter_def is_ending_def)
  show "thread_inv C (enter i (Body q) w (tm w)) i"
    using assms(3,4) by (simp add: thread_inv_def enter_def)
qed (simp_all add: enter_def same_but_def stamp_inv_not_ending)

lemma inv_got:
  assumes "world_inv C w" "calls w i = Reading k" "txn (th (tm w) i) = Some x" "pc_at (tm w) i = Idle"
  shows "world_inv C (enter i (Body (k (decode (concat (buf (th (tm w) i)))))) w (tm w))"
proof (rule inv_enter_body [OF assms(1) _ assms(3)])
  show "running_inv (next_call C i (local_state w i)) (Body (k (decode (concat (buf (th (tm w) i))))))
      (tx_segs w i) (th (tm w) i) x"
  proof -
    obtain p where "next_call C i (local_state w i) = Some (is_ro x, p)"
      "is_ro x \<Longrightarrow> reads_once p \<Longrightarrow> rest_of (Reading k) (th (tm w) i) = p \<or>
         (\<exists>r. body_result (rest_of (Reading k) (th (tm w) i)) = Some r)"
      "\<not> is_ro x \<Longrightarrow> traced p (tx_segs w i) (rlog (th (tm w) i)) (write_set x) (rest_of (Reading k) (th (tm w) i))"
      using running_Reading [OF assms(1-3)] by blast
    with assms(4) show ?thesis by (simp add: running_inv_def)
  qed
qed (simp add: assms(2))

lemma inv_free_body:
  assumes "world_inv C w" "calls w i = Body (FreeSeg a q)"
  shows "world_inv C (enter i (Body q) w (tm w))"
proof -
  obtain x p where x: "txn (th (tm w) i) = Some x" "next_call C i (local_state w i) = Some (is_ro x, p)"
    "pc_at (tm w) i = Idle" "is_ro x \<Longrightarrow> reads_once p \<Longrightarrow> FreeSeg a q = p \<or> (\<exists>r. body_result (FreeSeg a q) = Some r)"
    "\<not> is_ro x \<Longrightarrow> traced p (tx_segs w i) (rlog (th (tm w) i)) (write_set x) (FreeSeg a q)"
    using running_Body [OF assms] by blast
  show ?thesis
    by (rule inv_enter_body [OF assms(1) _ x(1)])
      (use x assms(2) traced_free [of p] reads_once_shape [of p] in \<open>auto simp: running_inv_def\<close>)
qed

lemma inv_nomem_body:
  assumes "world_inv C w" "calls w i = Body (AllocSeg sz k)"
  shows "world_inv C (enter i (Body (Throw TransactionAlloc)) w (tm w))"
proof -
  obtain x p where x: "txn (th (tm w) i) = Some x" "next_call C i (local_state w i) = Some (is_ro x, p)"
    "pc_at (tm w) i = Idle" "is_ro x \<Longrightarrow> reads_once p \<Longrightarrow> AllocSeg sz k = p \<or> (\<exists>r. body_result (AllocSeg sz k) = Some r)"
    "\<not> is_ro x \<Longrightarrow> traced p (tx_segs w i) (rlog (th (tm w) i)) (write_set x) (AllocSeg sz k)"
    using running_Body [OF assms] by blast
  show ?thesis
    by (rule inv_enter_body [OF assms(1) _ x(1)])
      (use x assms(2) traced_nomem [of p] reads_once_shape [of p] in \<open>auto simp: running_inv_def\<close>)
qed

text \<open>Back to the head of the loop, or out of the call.\<close>

lemma inv_leave:
  assumes inv: "world_inv C w" and t: "txn (th (tm w) i) = None" and tm: "tm w' = tm w" and dr: "drawn w' = drawn w"
    and f: "first_words w' = first_words w" and c: "calls w' = (calls w)(i := Outside)"
    and s: "tx_segs w' = (tx_segs w)(i := [])" and l: "\<And>j. j \<noteq> i \<Longrightarrow> local_state w' j = local_state w j"
    and r: "shared_segs w' = shared_segs w @ ss"
    and ss: "ss = tx_segs w i \<or> (\<forall>r n. calls w i = Ending r n \<longrightarrow> clog (sh (tm w)) n = None)"
  shows "world_inv C w'"
proof (rule world_inv_local [OF inv tm _ dr])
  have all: "all_words w \<subseteq> all_words w' \<union> seg_union (tx_segs w i)"
    using f s r by (auto simp: all_words_def split: if_splits)
  have "all_words w \<subseteq> all_words w'" if "ss = tx_segs w i"
    using f s r that by (auto simp: all_words_def split: if_splits)
  then show "segs_move i w w'"
    using ss all s by (auto simp: segs_move_def)
qed (use assms in \<open>simp_all add: same_but_def thread_inv_def stamp_inv_not_ending\<close>)

lemma ending_unlogged:
  assumes "world_inv C w" "txn (th (tm w) i) = None" "calls w i = Ending r n" "\<not> returned (th (tm w) i)"
  shows "clog (sh (tm w)) n = None"
proof -
  obtain p where p: "next_call C i (local_state w i) = Some (False, p)"
    using thread_invD(1) [OF world_invD(4) [OF assms(1)] assms(2)] assms(3,4) by auto
  have "pc_at (tm w) i = Idle" by (rule idle_unless_running [OF world_invD(1) [OF assms(1)] assms(2)])
  then have "\<not> ends_well (th (tm w) i)" using assms(4) by (simp add: ends_well_def)
  then show ?thesis using world_invD(5) [OF assms(1), of i] assms(3) p by (simp add: stamp_inv_def)
qed

lemma clog_0: "world_inv C w \<Longrightarrow> clog (sh (tm w)) 0 = None"
  using log_okD(1) [of "tm w" 0] by (cases "clog (sh (tm w)) 0") (auto simp: world_inv_def tl2_inv_def)

lemma hand_back_simps [simp]:
  "tm (hand_back C i r w) = tm w" "drawn (hand_back C i r w) = drawn w"
  "first_words (hand_back C i r w) = first_words w" "calls (hand_back C i r w) = (calls w)(i := Outside)"
  "tx_segs (hand_back C i r w) = (tx_segs w)(i := [])" "shared_segs (hand_back C i r w) = shared_segs w"
  "terminated (hand_back C i r w) = terminated w"
  "local_state (hand_back C i r w) =
     (if r = Inl TransactionRetry then local_state w else (local_state w)(i := got C i (local_state w i) r))"
  by (auto simp: hand_back_def retry_def split: sum.splits exn.splits)

lemma splice_simps [simp]:
  "tm (splice ro i w) = tm w" "drawn (splice ro i w) = drawn w" "first_words (splice ro i w) = first_words w"
  "calls (splice ro i w) = calls w" "tx_segs (splice ro i w) = tx_segs w" "local_state (splice ro i w) = local_state w"
  "shared_segs (splice ro i w) = shared_segs w @ (if ro then [] else tx_segs w i)"
  "terminated (splice ro i w) = terminated w"
  by (simp_all add: splice_def)

lemma inv_retry:
  assumes "world_inv C w" "txn (th (tm w) i) = None"
    and "calls w i = Reading k \<or> calls w i = Ending r n \<and> \<not> returned (th (tm w) i)"
  shows "world_inv C (retry i w)"
proof (rule inv_leave [OF assms(1,2), where ss = "[]"])
  show "[] = tx_segs w i \<or> (\<forall>r n. calls w i = Ending r n \<longrightarrow> clog (sh (tm w)) n = None)"
    using assms(3) ending_unlogged [OF assms(1,2)] by auto
qed (simp_all add: retry_def)

lemma inv_refused:
  assumes "world_inv C w" "calls w i = Outside"
  shows "world_inv C (hand_back C i r w)"
proof -
  have t: "txn (th (tm w) i) = None"
    using thread_invD(2) [OF world_invD(4) [OF assms(1), of i]] assms(2)
    by (cases "txn (th (tm w) i)") (auto simp: running_inv_def)
  show ?thesis
    by (rule inv_leave [OF assms(1) t, where ss = "[]"]) (use assms(2) in simp_all)
qed

lemma inv_hand_back:
  assumes "world_inv C w" "txn (th (tm w) i) = None" "calls w i = Ending r n"
    and "next_call C i (local_state w i) = Some (ro, p)"
  shows "world_inv C (hand_back C i r (splice ro i w))"
proof (rule inv_leave [OF assms(1,2), where ss = "if ro then [] else tx_segs w i"])
  have "clog (sh (tm w)) n = None" if ro
    using thread_invD(1) [OF world_invD(4) [OF assms(1)] assms(2)] assms(3,4) that clog_0 [OF assms(1)] by auto
  then show "(if ro then [] else tx_segs w i) = tx_segs w i \<or>
      (\<forall>r n. calls w i = Ending r n \<longrightarrow> clog (sh (tm w)) n = None)"
    using assms(3) by (cases ro) auto
qed simp_all

lemma thread_inv_terminated: "thread_inv C (w\<lparr>terminated := b\<rparr>) i \<longleftrightarrow> thread_inv C w i"
  by (simp add: thread_inv_def cong: option.case_cong)

lemma inv_terminated: "world_inv C w \<Longrightarrow> world_inv C (w\<lparr>terminated := True\<rparr>)"
  by (simp add: world_inv_def thread_inv_terminated stamp_inv_def stamps_differ_def segs_inv_def commit_inv_def
      all_words_def)

text \<open>Steps of the rest of the program.\<close>

lemma inv_other_step:
  assumes "world_inv C w" "\<And>j. j \<in> D \<Longrightarrow> calls w j = Outside"
  shows "world_inv C (w\<lparr>local_state := \<lambda>j. if j \<in> D then g j else local_state w j\<rparr>)"
proof -
  let ?w = "w\<lparr>local_state := \<lambda>j. if j \<in> D then g j else local_state w j\<rparr>"
  have out: "calls w j = Outside \<and> txn (th (tm w) j) = None" if "j \<in> D" for j
  proof (cases "txn (th (tm w) j)")
    case (Some x)
    with thread_invD(2) [OF world_invD(4) [OF assms(1)] Some] assms(2) [OF that] show ?thesis
      by (auto simp: running_inv_def)
  qed (use assms(2) [OF that] in simp)
  have "thread_inv C ?w j" for j
    using world_invD(4) [OF assms(1), of j] out [of j] by (cases "j \<in> D") (simp_all add: thread_inv_def cong: option.case_cong)
  moreover have "stamp_inv C ?w j" for j
    using world_invD(5) [OF assms(1), of j] out [of j] by (cases "j \<in> D") (simp_all add: stamp_inv_def)
  ultimately show ?thesis
    using assms(1) by (simp add: world_inv_def stamps_differ_def segs_inv_def commit_inv_def all_words_def)
qed

end
