(* ===== verification/TL2_Clients_Commit.thy ===== *)
theory TL2_Clients_Commit
  imports TL2_Clients_Steps
begin

text \<open>
  The two remaining steps of client code: an allocation, and an access of \<open>tm_end\<close>, which may draw
  a stamp and record a commit. Together with the earlier lemmas: every step keeps the invariant.
\<close>

section \<open>Allocation\<close>

definition zero_outside :: "('l, 'a) world \<Rightarrow> bool" where
  "zero_outside w \<longleftrightarrow> (\<forall>a. word_aligned 8 a \<longrightarrow> a \<notin> all_words w \<longrightarrow> word_at (tm w) a = replicate 8 0)"

lemma memset_same:
  assumes "\<And>x. in_block p sz x \<Longrightarrow> m x = b"
  shows "memset m p b sz = m"
proof
  fix x
  show "memset m p b sz x = m x"
    using assms [of x] by (auto simp: memset_def store_bytes_def in_block_def)
qed

lemma block_zero:
  assumes "\<And>a. a \<in> seg_words p sz \<Longrightarrow> load_bytes m a 8 = replicate 8 0"
    and "8 dvd sz" "in_block p sz x"
  shows "m x = 0"
proof -
  let ?d = "unat (x - p)"
  let ?a = "p + of_nat (8 * (?d div 8)) :: addr"
  have "?d < sz" using assms(3) by (simp add: in_block_def)
  moreover obtain q where "sz = 8 * q" using assms(2) by (elim dvdE)
  ultimately have "?d div 8 < sz div 8" by (simp add: less_mult_imp_div_less mult.commute)
  then have "load_bytes m ?a 8 = replicate 8 0" by (intro assms(1)) (auto simp: seg_words_def)
  moreover have "m (?a + of_nat (?d mod 8)) = load_bytes m ?a 8 ! (?d mod 8)" by simp
  moreover have "?a + of_nat (?d mod 8) = x"
  proof -
    have "?a + of_nat (?d mod 8) = p + of_nat (8 * (?d div 8) + ?d mod 8)" by (simp only: of_nat_add add.assoc)
    also have "\<dots> = p + of_nat ?d" by (simp only: mult_div_mod_eq)
    finally show ?thesis by simp
  qed
  ultimately show ?thesis by simp
qed

lemma seg_words_aligned:
  assumes "a \<in> seg_words p n" "unat p + n < 2 ^ 64" "word_aligned 8 p"
  shows "word_aligned 8 a"
proof -
  note r = seg_words_range [OF assms(1,2)]
  have "8 dvd unat p + (unat a - unat p)" using assms(3) r(3) by (simp add: word_aligned_def)
  then show ?thesis using r(1) by (simp add: word_aligned_def)
qed

lemma alloc_body:
  assumes "word_size (sh (tm w)) = 8" "can_allocate p sz w" "zero_outside w"
    and "body_access i (Segment p) (AllocSeg sz k) w = Some w'"
  shows "w' = enter i (Body (k p)) (w\<lparr>tx_segs := (tx_segs w)(i := tx_segs w i @ [(p, sz)])\<rparr>) (tm w)"
proof -
  have c: "word_aligned 8 p" "8 dvd sz" "unat p + sz < 2 ^ 64" "seg_words p sz \<inter> all_words w = {}"
    using assms(2) by (simp_all add: can_allocate_def)
  have "load_bytes (mem (sh (tm w))) a 8 = replicate 8 0" if "a \<in> seg_words p sz" for a
    using that c seg_words_aligned [OF that c(3,1)] assms(1,3) by (auto simp: zero_outside_def word_at_def)
  then have "memset (mem (sh (tm w))) p 0 sz = mem (sh (tm w))"
    using c(2) by (intro memset_same) (rule block_zero)
  then show ?thesis using assms(2,4) by simp
qed

lemma inv_alloc_body:
  assumes "world_inv C w" "calls w i = Body (AllocSeg sz k)" "can_allocate p sz w" "zero_outside w"
    and "body_access i (Segment p) (AllocSeg sz k) w = Some w'"
  shows "world_inv C w'"
proof -
  have c: "p \<noteq> 0" "unat p + sz < 2 ^ 64" "seg_words p sz \<inter> all_words w = {}" "word_aligned 8 p"
    using assms(3) by (simp_all add: can_allocate_def)
  note w' = alloc_body [OF world_invD(3) [OF assms(1)] assms(3-5)]
  obtain x q where x: "txn (th (tm w) i) = Some x" "next_call C i (local_state w i) = Some (is_ro x, q)"
    "pc_at (tm w) i = Idle" "is_ro x \<Longrightarrow> reads_once q \<Longrightarrow> AllocSeg sz k = q \<or> (\<exists>r. body_result (AllocSeg sz k) = Some r)"
    "\<not> is_ro x \<Longrightarrow> traced q (tx_segs w i) (rlog (th (tm w) i)) (write_set x) (AllocSeg sz k)"
    using running_Body [OF assms(1,2)] by blast
  have "0 \<notin> seg_words p sz" by (rule seg_words_pos [OF c(1,2)])
  moreover have "seg_words p sz \<inter> seg_union (tx_segs w i) = {}"
    using c(3) tx_segs_all_words(1) [of w i] by blast
  ultimately have tr: "traced q (tx_segs w i @ [(p, sz)]) (rlog (th (tm w) i)) (write_set x) (k p)" if "\<not> is_ro x"
    using x(5) [OF that] c(1) by (intro traced_alloc)
  have all: "all_words w \<subseteq> all_words w'" by (auto simp: w' enter_def all_words_def split: if_splits)
  show ?thesis
  proof (rule world_inv_local [OF assms(1)])
    show "segs_move i w w'"
      unfolding segs_move_def using all c(3) assms(2) seg_words_aligned [OF _ c(2,4)]
      by (intro conjI exI [of _ "seg_words p sz"]) (auto simp: w' enter_def)
    show "thread_inv C w' i"
      using x tr reads_once_shape [of q] by (auto simp: w' enter_def thread_inv_def running_inv_def)
  qed (simp_all add: w' enter_def same_but_def stamp_inv_not_ending)
qed

section \<open>An access of tm_end\<close>

lemma stamp_pos: "world_inv C w \<Longrightarrow> stamp_of (pc_at (tm w) i) = Some m \<Longrightarrow> m \<noteq> 0"
  by (auto simp: world_inv_def tl2_inv_def stamps_ok_def)

lemma logged_le_gv: "world_inv C w \<Longrightarrow> clog (sh (tm w)) n \<noteq> None \<Longrightarrow> n \<le> gv (tm w)"
  by (auto simp: world_inv_def tl2_inv_def log_ok_def)

lemma gv_next: "supported s \<Longrightarrow> unat (gvc (sh s) + 1) = gv s + 1"
  by (simp add: supported_def gv_def unat_word_ariths)

text \<open>What an access of \<open>tm_end\<close> of thread \<open>i\<close> does to the world; \<open>m\<close> is the stamp it has afterwards.\<close>

lemma end_access_world:
  assumes inv: "world_inv C w" and c: "calls w i = Ending r n" and x: "txn (th (tm w) i) = Some x"
    and st: "end_access i (Tau sp rs hs) p r n w = Some w'" and nc: "next_call C i (local_state w i) = Some (ro, p)"
  obtains s' m where "exec i (Tau sp rs hs) (tm w) = Some s'" "tm w' = s'" "same_but i w w'"
    "shared_segs w' = shared_segs w" "tx_segs w' = tx_segs w" "local_state w' = local_state w"
    "calls w' = (calls w)(i := Ending r m)" "\<not> ro" "terminated w' = terminated w" "seen w' = seen w"
    "traced p (tx_segs w i) (rlog (th (tm w) i)) (write_set x) (final r)"
    "end_moved (th (tm w) i) (th s' i)" "drawn w' m = (if m = 0 then drawn w 0 else Some (p, r, tx_segs w i))"
    "\<And>k. k \<le> gv (tm w) \<Longrightarrow> drawn w' k = drawn w k" "gv s' = max (gv (tm w)) m" "m = n \<or> m = gv (tm w) + 1"
    "\<And>k. stamp_of (pc (th s' i)) = Some k \<Longrightarrow> k = m"
    "clog (sh s') = clog (sh (tm w)) \<and> (ends_well (th s' i) \<longleftrightarrow> m = n \<and> clog (sh (tm w)) n \<noteq> None) \<or>
     m \<noteq> 0 \<and> clog (sh (tm w)) m = None \<and> ends_well (th s' i) \<and>
     clog (sh s') = (clog (sh (tm w)))(m \<mapsto> \<lparr>c_reads = rlog (th (tm w) i), c_writes = write_set x\<rparr>)"
    "m \<noteq> n \<Longrightarrow> clog (sh (tm w)) n = None \<and> stamp_of (pc_at (tm w) i) = None"
proof -
  let ?p = "pc_at (tm w) i" and ?t = "th (tm w) i"
  let ?m = "note_stamp ?p (tm w) n"
  note D = world_invD [OF inv]
  obtain s' where ex: "exec i (Tau sp rs hs) (tm w) = Some s'"
    and w': "w' = w\<lparr>tm := s', calls := (calls w)(i := Ending r ?m),
        drawn := note_drawn ?p (tm w) (p, r, tx_segs w i) (drawn w)\<rparr>"
    using st by (auto simp: end_access_def)
  have run: "running_inv (Some (ro, p)) (Ending r n) (tx_segs w i) ?t x"
    using thread_invD(2) [OF D(4) x] c nc by simp
  then have ro: "\<not> ro" "\<not> is_ro x" and ep: "end_point ?p" by (auto simp: running_inv_def split: if_splits)
  have tr: "traced p (tx_segs w i) (rlog ?t) (write_set x) (final r)"
    using run ro by (simp add: running_inv_def)
  obtain g t where ts: "tm_end_step sp rs hs (sh (tm w)) x ?t ?p = Some (g, t)" and s': "s' = upd (tm w) i g t"
    using tau_end [OF ex x ep] by blast
  note E = end_access [OF ts x]
  have old: "\<And>m. stamp_of ?p = Some m \<Longrightarrow> m = n"
    "n \<noteq> 0 \<Longrightarrow> n \<le> gv (tm w) \<and> drawn w n = Some (p, r, tx_segs w i)" "ends_well ?t \<longleftrightarrow> clog (sh (tm w)) n \<noteq> None"
    using D(5) [of i] c nc ro by (auto simp: stamp_inv_def)
  have dec: "decided ?p \<longleftrightarrow> clog (sh (tm w)) n \<noteq> None" using old(3) x by (simp add: ends_well_def)
  have fa: "?m = gv (tm w) + 1 \<and> gv s' = gv (tm w) + 1 \<and> stamp_of ?p = None \<and> \<not> decided ?p \<and>
      note_drawn ?p (tm w) (p, r, tx_segs w i) (drawn w) = (drawn w)(?m \<mapsto> (p, r, tx_segs w i))"
    if "?p = FetchAdd held" for held
    using that E gv_next [OF D(2)] by (simp add: s' gv_def)
  have nf: "?m = n \<and> gv s' = gv (tm w) \<and> note_drawn ?p (tm w) (p, r, tx_segs w i) (drawn w) = drawn w"
    if "\<And>held. ?p \<noteq> FetchAdd held"
  proof (cases ?p)
    case (FetchAdd held)
    then show ?thesis using that [of held] by simp
  qed (use E in \<open>simp_all add: s' gv_def\<close>)
  have none: "clog (sh (tm w)) (gv (tm w) + 1) = None" using logged_le_gv [OF inv, of "gv (tm w) + 1"] by force
  show thesis
  proof (rule that [of s' ?m])
    show "same_but i w w'" using exec_others [OF ex] by (simp add: w' same_but_def)
    show "end_moved ?t (th s' i)" using E by (simp add: s')
    show "drawn w' ?m = (if ?m = 0 then drawn w 0 else Some (p, r, tx_segs w i))"
      using old(2) fa nf by (cases "\<exists>held. ?p = FetchAdd held") (auto simp: w')
    show "drawn w' k = drawn w k" if "k \<le> gv (tm w)" for k
      using fa nf that by (cases "\<exists>held. ?p = FetchAdd held") (auto simp: w')
    show "gv s' = max (gv (tm w)) ?m"
      using old(2) fa nf by (cases "\<exists>held. ?p = FetchAdd held"; cases "n = 0") auto
    show "?m = n \<or> ?m = gv (tm w) + 1" using fa nf by (cases "\<exists>held. ?p = FetchAdd held") auto
    show "k = ?m" if "stamp_of (pc (th s' i)) = Some k" for k
    proof -
      from E that consider "stamp_of ?p = Some k" | held where "?p = FetchAdd held" "k = unat (gvc (sh (tm w)) + 1)"
        by (auto simp: s')
      then show ?thesis
      proof cases
        case 1
        then have "\<And>held. ?p \<noteq> FetchAdd held" by auto
        then show ?thesis using nf old(1) [OF 1] by simp
      next
        case 2
        then show ?thesis using fa gv_next [OF D(2)] by simp
      qed
    qed
    show "?m \<noteq> n \<Longrightarrow> clog (sh (tm w)) n = None \<and> stamp_of ?p = None"
      using fa nf dec by (cases "\<exists>held. ?p = FetchAdd held") auto
    show "clog (sh s') = clog (sh (tm w)) \<and> (ends_well (th s' i) \<longleftrightarrow> ?m = n \<and> clog (sh (tm w)) n \<noteq> None) \<or>
     ?m \<noteq> 0 \<and> clog (sh (tm w)) ?m = None \<and> ends_well (th s' i) \<and>
     clog (sh s') = (clog (sh (tm w)))(?m \<mapsto> \<lparr>c_reads = rlog ?t, c_writes = write_set x\<rparr>)"
    proof -
      from conjunct2 [OF conjunct2 [OF conjunct2 [OF E]]]
      consider (same) "clog g = clog (sh (tm w))" "ends_well t \<longleftrightarrow> decided ?p"
        | (new) k where "clog g = (clog (sh (tm w)))(k \<mapsto> \<lparr>c_reads = rlog ?t, c_writes = write_set x\<rparr>)"
          "\<not> decided ?p" "ends_well t"
          "stamp_of ?p = Some k \<or> (\<exists>held. ?p = FetchAdd held) \<and> k = unat (gvc (sh (tm w)) + 1)"
        by blast
      then show ?thesis
      proof cases
        case same
        then show ?thesis using dec fa nf by (cases "\<exists>held. ?p = FetchAdd held") (auto simp: s')
      next
        case new
        from new(4) have "k = ?m \<and> ?m \<noteq> 0 \<and> clog (sh (tm w)) ?m = None"
        proof
          assume k: "stamp_of ?p = Some k"
          then have "\<And>held. ?p \<noteq> FetchAdd held" by auto
          then show ?thesis using nf old(1) [OF k] stamp_pos [OF inv k] new(2) dec by simp
        next
          assume "(\<exists>held. ?p = FetchAdd held) \<and> k = unat (gvc (sh (tm w)) + 1)"
          then show ?thesis using fa gv_next [OF D(2)] none by auto
        qed
        with new show ?thesis by (simp add: s')
      qed
    qed
  qed (use ex tr ro in \<open>simp_all add: w'\<close>)
qed

lemma inv_end_access:
  assumes inv: "world_inv C w" and c: "calls w i = Ending r n" and x: "txn (th (tm w) i) = Some x"
    and st: "end_access i (Tau sp rs hs) p r n w = Some w'" and nc: "next_call C i (local_state w i) = Some (ro, p)"
    and sup: "supported (tm w')"
  shows "world_inv C w'"
proof -
  obtain s' m where S: "exec i (Tau sp rs hs) (tm w) = Some s'" "tm w' = s'" "same_but i w w'"
    "shared_segs w' = shared_segs w" "tx_segs w' = tx_segs w" "local_state w' = local_state w"
    "calls w' = (calls w)(i := Ending r m)" "\<not> ro" "terminated w' = terminated w" "seen w' = seen w"
    "traced p (tx_segs w i) (rlog (th (tm w) i)) (write_set x) (final r)"
    "end_moved (th (tm w) i) (th s' i)" "drawn w' m = (if m = 0 then drawn w 0 else Some (p, r, tx_segs w i))"
    "\<And>k. k \<le> gv (tm w) \<Longrightarrow> drawn w' k = drawn w k" "gv s' = max (gv (tm w)) m" "m = n \<or> m = gv (tm w) + 1"
    "\<And>k. stamp_of (pc (th s' i)) = Some k \<Longrightarrow> k = m"
    "clog (sh s') = clog (sh (tm w)) \<and> (ends_well (th s' i) \<longleftrightarrow> m = n \<and> clog (sh (tm w)) n \<noteq> None) \<or>
     m \<noteq> 0 \<and> clog (sh (tm w)) m = None \<and> ends_well (th s' i) \<and>
     clog (sh s') = (clog (sh (tm w)))(m \<mapsto> \<lparr>c_reads = rlog (th (tm w) i), c_writes = write_set x\<rparr>)"
    "m \<noteq> n \<Longrightarrow> clog (sh (tm w)) n = None \<and> stamp_of (pc_at (tm w) i) = None"
    by (rule end_access_world [OF inv c x st nc]) (rule that, assumption+)
  note D = world_invD [OF inv]
  have other: "k < m \<or> k \<noteq> m" "k \<le> gv (tm w)" if "j \<noteq> i" "calls w j = Ending q k" "m \<noteq> 0" for j q k
  proof -
    show k: "k \<le> gv (tm w)" using D(5) [of j] that(2) by (cases "k = 0") (auto simp: stamp_inv_def)
    show "k < m \<or> k \<noteq> m"
      using S(16) k c that inv unfolding world_inv_def stamps_differ_def by (metis Suc_eq_plus1 less_Suc_eq_le)
  qed
  have "clog (sh (tm w)) (gv (tm w) + 1) = None" using logged_le_gv [OF inv, of "gv (tm w) + 1"] by force
  then have fresh: "clog (sh (tm w)) m = None" if "m \<noteq> n" using S(16) that by auto
  have "thread_inv C w' j" for j
  proof (cases "j = i")
    case True
    have "running_inv (Some (ro, p)) (Ending r n) (tx_segs w i) (th (tm w) i) x"
      using thread_invD(2) [OF D(4) x] c nc by simp
    then have "\<not> is_ro x" using S(8) by (auto simp: running_inv_def)
    then show ?thesis
      using True S(5-8,11,12) nc x
      by (cases "txn (th s' i)") (auto simp: thread_inv_def running_inv_def end_moved_def S(2))
  qed (use D(4) thread_inv_other [OF S(3)] in auto)
  moreover have "stamp_inv C w' j" for j
  proof (cases "j = i")
    case True
    have "ends_well (th s' i) \<longleftrightarrow> clog (sh s') m \<noteq> None"
      using S(18) fresh by (cases "m = n") auto
    then show ?thesis using True nc S(5-8,13,15,17) by (auto simp: stamp_inv_def S(2))
  next
    case False
    show ?thesis
    proof (rule stamp_inv_other [OF S(3) False D(5)])
      show "clog (sh (tm w')) k \<noteq> None \<longleftrightarrow> clog (sh (tm w)) k \<noteq> None" if "calls w j = Ending q k" for q k
        using S(18) other(1) [OF False that] by (auto simp: S(2))
    qed (use S(14,15) in \<open>simp_all add: S(2)\<close>)
  qed
  moreover have "stamps_differ w'"
    unfolding stamps_differ_def
  proof (intro allI impI)
    fix j k q q' l
    assume a: "calls w' j = Ending q l" "calls w' k = Ending q' l" "l \<noteq> 0"
    then show "j = k"
      using S(7) other [of j q l] other [of k q' l] inv
      unfolding world_inv_def stamps_differ_def by (auto split: if_splits)
  qed
  moreover have "segs_inv w'"
    using inv S(3,5) by (simp add: world_inv_def segs_inv_def same_but_def)
  moreover have "commit_inv w' k d" if "clog (sh (tm w')) k = Some d" for k d
  proof -
    have all: "all_words w' = all_words w" "first_words w' = first_words w"
      using S(3-5) by (simp_all add: all_words_def same_but_def)
    have old: "commit_inv w k d" if "clog (sh (tm w)) k = Some d" for k d
      using inv that by (simp add: world_inv_def)
    have away: "disjoint_segs ss (tx_segs w i)" if "clog (sh (tm w)) l = Some e" "drawn w l = Some (q, q', ss)"
        "clog (sh s') \<noteq> clog (sh (tm w)) \<or> m \<noteq> l" for l e q q' ss
    proof -
      have "calls w i \<noteq> Ending q'' l" for q''
      proof
        assume "calls w i = Ending q'' l"
        then have "l = n" using c by simp
        then show False using S(18,19) that(1,3) fresh by (cases "m = n") auto
      qed
      then show ?thesis using old [OF that(1)] that(2) by (auto simp: commit_inv_def)
    qed
    show ?thesis
    proof (cases "clog (sh (tm w)) k")
      case (Some d')
      have km: "d' = d" "k \<le> gv (tm w)" using that Some S(18) logged_le_gv [OF inv, of k] by (auto simp: S(2) split: if_splits)
      obtain q q' ss where o: "drawn w k = Some (q, q', ss)" "traced q ss (c_reads d) (c_writes d) (final q')"
        "seg_union ss \<inter> first_words w = {}" "seg_union ss \<subseteq> all_words w" "aligned_segs ss"
        "\<And>j. (\<forall>r. calls w j \<noteq> Ending r k) \<Longrightarrow> disjoint_segs ss (tx_segs w j)"
        "\<And>l q q' ss'. l \<noteq> k \<Longrightarrow> clog (sh (tm w)) l \<noteq> None \<Longrightarrow> drawn w l = Some (q, q', ss') \<Longrightarrow> disjoint_segs ss ss'"
        using old [OF Some] km(1) unfolding commit_inv_def by auto
      have "disjoint_segs ss (tx_segs w j)" if "\<forall>r. calls w' j \<noteq> Ending r k" for j
        using that o(1,6) away [OF Some o(1)] S(7) by (cases "j = i") auto
      moreover have "disjoint_segs ss ss'"
        if "l \<noteq> k" "clog (sh s') l \<noteq> None" "drawn w' l = Some (p', r', ss')" for l p' r' ss'
      proof (cases "clog (sh (tm w)) l")
        case None
        then have "l = m" "clog (sh s') \<noteq> clog (sh (tm w))" using that(2) S(18) by (auto split: if_splits)
        moreover have "m \<noteq> 0" using S(18) calculation(2) by auto
        ultimately have "ss' = tx_segs w i" using that(3) S(13) by simp
        then show ?thesis using away [OF Some o(1)] \<open>clog (sh s') \<noteq> clog (sh (tm w))\<close> by simp
      next
        case (Some e)
        then have "l \<le> gv (tm w)" using logged_le_gv [OF inv] by auto
        then show ?thesis using o(7) that Some S(14) by simp
      qed
      ultimately show ?thesis
        using o(1-5) all S(5,14) km by (auto simp: commit_inv_def S(2))
    next
      case None
      then have m: "k = m" "m \<noteq> 0" "clog (sh s') \<noteq> clog (sh (tm w))"
        "d = \<lparr>c_reads = rlog (th (tm w) i), c_writes = write_set x\<rparr>"
        using that S(18) by (auto simp: S(2) split: if_splits)
      have sg: "\<And>j. j \<noteq> i \<Longrightarrow> disjoint_segs (tx_segs w i) (tx_segs w j)" "seg_union (tx_segs w i) \<inter> first_words w = {}"
        "aligned_segs (tx_segs w i)"
        using inv by (auto simp: world_inv_def segs_inv_def)
      have "disjoint_segs (tx_segs w i) ss'"
        if l: "l \<noteq> m" "clog (sh s') l \<noteq> None" "drawn w' l = Some (p', r', ss')" for l p' r' ss'
      proof -
        obtain e where e: "clog (sh (tm w)) l = Some e" using l(1,2) S(18) by auto
        then have "l \<le> gv (tm w)" using logged_le_gv [OF inv] by auto
        then show ?thesis using away [OF e] l(3) m(3) S(14) by (auto simp: disjoint_segs_def)
      qed
      moreover have "disjoint_segs (tx_segs w i) (tx_segs w j)" if "\<forall>r. calls w' j \<noteq> Ending r m" for j
        using that S(7) sg(1) by (cases "j = i") auto
      ultimately show ?thesis
        using m S(5,11,13) sg(2,3) tx_segs_all_words(1) [of w i] all
        by (auto simp: commit_inv_def S(2))
    qed
  qed
  moreover have "tl2_inv zero_words (tm w')" "word_size (sh (tm w')) = 8"
    using exec_inv [OF D(1,2) S(1)] exec_word_size [OF S(1)] D(3) by (simp_all add: S(2))
  ultimately show ?thesis using sup by (simp add: world_inv_def)
qed

section \<open>Any step\<close>

lemma body_access_cases:
  assumes "body_access i inp q w = Some w'"
  obtains (body_read) a k s' where "q = ReadWord a k" "exec i (Read a 8) (tm w) = Some s'" "w' = enter i (Reading k) w s'"
  | (body_write) a v q' s' where "q = prog.WriteWord a v q'" "exec i (Write a (encode v)) (tm w) = Some s'"
      "w' = enter i (Body q') w s'"
  | (body_alloc) p sz k where "q = AllocSeg sz k" "can_allocate p sz w" "body_access i (Segment p) (AllocSeg sz k) w = Some w'"
  | (body_nomem) sz k where "q = AllocSeg sz k" "w' = enter i (Body (Throw TransactionAlloc)) w (tm w)"
  | (body_free) a q' where "q = FreeSeg a q'" "w' = enter i (Body q') w (tm w)"
  | (ended) r ws_order s' where "q = final r" "exec i (End ws_order) (tm w) = Some s'" "w' = enter i (Ending r 0) w s'"
proof (cases q)
  case (Done v)
  with assms ended [of "Inr v"] show thesis by (cases inp) auto
next
  case (Throw e)
  with assms ended [of "Inl e"] show thesis by (cases inp) auto
next
  case (AllocSeg sz k)
  show thesis
  proof (cases inp)
    case (Segment p)
    with assms AllocSeg body_alloc [of sz k p] show thesis by (auto split: if_splits)
  qed (use assms AllocSeg body_nomem in auto)
qed (use assms body_read body_write body_free in auto)

lemma thread_step_cases:
  assumes "thread_step C i inp w = Some w'"
  obtains ro p where "next_call C i (local_state w i) = Some (ro, p)" "\<not> terminated w"
    "call_step C i inp ro p (calls w i) w = Some w'"
  using assms by (auto simp: thread_step_def split: option.splits if_splits)

lemma reading_step_cases:
  assumes "call_step C i inp ro p (Reading k) w = Some w'"
  obtains (retry) "txn (th (tm w) i) = None" "w' = retry i w"
  | (got) x where "txn (th (tm w) i) = Some x" "pc_at (tm w) i = Idle"
      "w' = enter i (Body (k (decode (concat (buf (th (tm w) i)))))) w (tm w)"
  | (access) x sp rs hs where "txn (th (tm w) i) = Some x" "pc_at (tm w) i \<noteq> Idle"
      "read_access i (Tau sp rs hs) w = Some w'"
  using assms by (auto simp: Let_def split: if_splits input.splits)

lemma ending_step_cases:
  assumes "call_step C i inp ro p (Ending r n) w = Some w'"
  obtains (hand_back) "txn (th (tm w) i) = None" "returned (th (tm w) i)" "w' = hand_back C i r (splice ro i w)"
  | (retry) v where "txn (th (tm w) i) = None" "\<not> returned (th (tm w) i)" "r = Inr v" "w' = retry i w"
  | (terminate) e where "txn (th (tm w) i) = None" "\<not> returned (th (tm w) i)" "r = Inl e" "w' = w\<lparr>terminated := True\<rparr>"
  | (access) x sp rs hs where "txn (th (tm w) i) = Some x" "end_access i (Tau sp rs hs) p r n w = Some w'"
  using assms by (auto simp: Let_def split: if_splits input.splits sum.splits)

lemma thread_step_inv:
  assumes inv: "world_inv C w" and z: "zero_outside w" and st: "thread_step C i inp w = Some w'"
    and sup: "supported (tm w')"
  shows "world_inv C w'"
proof -
  obtain ro p where nc: "next_call C i (local_state w i) = Some (ro, p)"
    and cs: "call_step C i inp ro p (calls w i) w = Some w'"
    using thread_step_cases [OF st] by blast
  show ?thesis
  proof (cases "calls w i")
    case Outside
    then show ?thesis
      using cs sup inv_begin_call [OF inv _ _ nc] inv_refused [OF inv]
      by (auto simp: enter_def split: if_splits)
  next
    case (Body q)
    then have "body_access i inp q w = Some w'" using cs by simp
    then show ?thesis
    proof (cases rule: body_access_cases)
      case body_read
      then show ?thesis using inv_read_call_body [OF inv] Body sup by (simp add: enter_def)
    next
      case body_write
      then show ?thesis using inv_write_call_body [OF inv] Body sup by (simp add: enter_def)
    next
      case body_alloc
      then show ?thesis using inv_alloc_body [OF inv _ _ z] Body by blast
    next
      case body_nomem
      then show ?thesis using inv_nomem_body [OF inv] Body by blast
    next
      case body_free
      then show ?thesis using inv_free_body [OF inv] Body by blast
    next
      case ended
      then show ?thesis using inv_end_call_body [OF inv] Body sup by (simp add: enter_def)
    qed
  next
    case (Reading k)
    then have "call_step C i inp ro p (Reading k) w = Some w'" using cs by simp
    then show ?thesis
    proof (cases rule: reading_step_cases)
      case retry
      then show ?thesis using inv_retry [OF inv] Reading by blast
    next
      case (got x)
      then show ?thesis using inv_got [OF inv Reading] by blast
    next
      case (access x)
      then show ?thesis using inv_read_access [OF inv Reading] sup by blast
    qed
  next
    case (Ending r n)
    then have "call_step C i inp ro p (Ending r n) w = Some w'" using cs by simp
    then show ?thesis
    proof (cases rule: ending_step_cases)
      case hand_back
      then show ?thesis using inv_hand_back [OF inv _ Ending nc] by blast
    next
      case (retry v)
      then show ?thesis using inv_retry [OF inv] Ending by blast
    next
      case (terminate e)
      then show ?thesis using inv_terminated [OF inv] by blast
    next
      case (access x)
      then show ?thesis using inv_end_access [OF inv Ending _ _ nc sup] by blast
    qed
  qed
qed

lemma world_step_inv:
  assumes "world_inv C w" "zero_outside w" "world_step C w w'" "supported (tm w')"
  shows "world_inv C w'"
  using assms(3)
proof (cases rule: world_step.cases)
  case (step_thread i inp)
  then show ?thesis by (rule thread_step_inv [OF assms(1,2) _ assms(4)])
next
  case (step_other D f g)
  then have "\<And>j. j \<in> D \<Longrightarrow> calls w j = Outside" by simp
  then show ?thesis unfolding step_other(1) by (rule inv_other_step [OF assms(1)])
qed

lemma zero_initial: "(\<lambda>a. load_bytes (\<lambda>_. 0) a 8) = zero_words"
  by (rule ext) (simp add: load_bytes_zero)

lemma world_inv_new:
  assumes "supported (tm (new_world clock A ls))"
  shows "world_inv C (new_world clock A ls)"
proof -
  have "tl2_inv zero_words (init_sys clock (\<lambda>_. 0) 8)"
    using tl2_inv_init [OF width_ok_8, of "\<lambda>_. 0" clock] unfolding zero_initial .
  then show ?thesis
    using assms
    by (simp add: new_world_def world_inv_def init_sys_def idle_thread_def thread_inv_def stamp_inv_def
        stamps_differ_def segs_inv_def disjoint_segs_def aligned_segs_def)
qed

end
