(* ===== verification/TL2_Futures.thy ===== *)
theory TL2_Futures
  imports TL2_Clients_Inv
begin

text \<open>
  What a state of the concurrent library already settles about the commits recorded later: a
  commit with a stamp drawn so far is recorded already, or belongs to a thread that holds the
  stripes of all it is going to write. So a word nobody is about to write has its final value for
  the stamps drawn so far, and so has a word just written.
\<close>

section \<open>Steps and the stamps of other threads\<close>

lemma exec_kind:
  assumes "exec i act s = Some s'"
  shows "sh s' = sh s \<and> stamp_of (pc_at s' i) = None \<and> in_flight (pc_at s i) = None \<and> \<not> decided (pc_at s i) \<or>
    (\<exists>x sp r h. txn (th s i) = Some x \<and>
       tm_end_step sp r h (sh s) x (th s i) (pc_at s i) = Some (sh s', th s' i))"
proof (cases act)
  case (Tau sp rs hs)
  then obtain x where x: "txn (th s i) = Some x" using assms by (auto simp: exec_def split: if_splits option.splits)
  show ?thesis
  proof (cases "tm_read_step (sh s) x (th s i) (pc_at s i)")
    case None
    then show ?thesis using assms Tau x by (auto simp: exec_def split: if_splits option.splits)
  next
    case (Some t)
    have "stamp_of (pc t) = None \<and> in_flight (pc_at s i) = None \<and> \<not> decided (pc_at s i)"
      using Some by (cases "pc_at s i") (auto simp: abort_def read_next_def Let_def split: if_splits option.splits)
    then show ?thesis using assms Tau x Some by (auto simp: exec_def split: if_splits)
  qed
qed (use assms in \<open>auto simp: exec_def tm_begin_step_def read_call_def tm_write_step_def end_call_def commit_def Let_def
      split: if_splits option.splits\<close>)

text \<open>A commit to come: its thread, undecided, with the stamp and the reads and writes it has now.\<close>

definition to_come :: "sys \<Rightarrow> nat \<Rightarrow> commit_rec \<Rightarrow> bool" where
  "to_come s m c \<longleftrightarrow> (\<exists>k x. stamp_of (pc_at s k) = Some m \<and> \<not> decided (pc_at s k) \<and> txn (th s k) = Some x \<and>
     c = \<lparr>c_reads = rlog (th s k), c_writes = write_set x\<rparr>)"

definition same_stamp :: "sys \<Rightarrow> sys \<Rightarrow> nat \<Rightarrow> nat \<Rightarrow> bool" where
  "same_stamp s sf k m \<longleftrightarrow> stamp_of (pc_at s k) = Some m \<and> (decided (pc_at s k) \<longrightarrow> decided (pc_at sf k)) \<and>
     txn (th sf k) = txn (th s k) \<and> rlog (th sf k) = rlog (th s k)"

lemma stamp_running: "tl2_inv base s \<Longrightarrow> stamp_of (pc_at s k) = Some m \<Longrightarrow> \<exists>x. txn (th s k) = Some x"
  by (cases "txn (th s k)") (auto simp: tl2_inv_def local_ok_def dest: spec [of _ k])

lemma exec_gv:
  assumes "supported s" "exec i act s = Some s'"
  shows "gv s' = gv s \<or> (\<exists>held. pc_at s i = FetchAdd held) \<and> gv s' = gv s + 1"
proof -
  have "gvc (sh s') = gvc (sh s) \<or> (\<exists>held. pc_at s i = FetchAdd held \<and> gvc (sh s') = gvc (sh s) + 1)"
    using exec_cases [OF assms(2)] tm_end_gvc by metis
  then show ?thesis using assms(1) by (auto simp: gv_def supported_def unat_word_ariths)
qed

lemma decided_stays:
  assumes "tm_end_step sp r h g x t p = Some (g', t')" "decided p" "stamp_of (pc t') = Some m"
  shows "decided (pc t')"
  using assms
  by (cases "(sp, r, h, g, x, t, p)" rule: tm_end_step.cases) (auto simp: write_back_def commit_def split: if_splits)

lemma settled:
  assumes "reach supported s sf" "tl2_inv base s"
  shows "gv s \<le> gv sf \<and> (\<forall>m c. clog (sh s) m = Some c \<longrightarrow> clog (sh sf) m = Some c) \<and>
    (\<forall>k m. m \<le> gv s \<longrightarrow> stamp_of (pc_at sf k) = Some m \<longrightarrow> same_stamp s sf k m) \<and>
    (\<forall>m c. m \<le> gv s \<longrightarrow> clog (sh sf) m = Some c \<longrightarrow> clog (sh s) m = Some c \<or> to_come s m c)"
  using assms(1)
proof (induction rule: reach.induct)
  case start
  then show ?case by (simp add: same_stamp_def)
next
  case (move sf sf')
  have sup: "supported sf" using move.hyps(1) by (cases rule: reach.cases) auto
  have inv: "tl2_inv base sf" using reach_inv [OF move.hyps(1) assms(2)] by simp
  obtain i act where ex: "exec i act sf = Some sf'" using move.hyps(2) by (auto elim: sys_step.cases)
  have gv: "gv sf \<le> gv sf'" using exec_gv [OF sup ex] by auto
  have others: "th sf' k = th sf k" if "k \<noteq> i" for k using exec_others [OF ex that] .
  note IH = move.IH
  from exec_kind [OF ex] show ?case
  proof (elim disjE exE conjE)
    assume q: "sh sf' = sh sf" "stamp_of (pc_at sf' i) = None"
    have "same_stamp s sf' k m" if "m \<le> gv s" "stamp_of (pc_at sf' k) = Some m" for k m
      using IH that others [of k] q(2) by (cases "k = i") (auto simp: same_stamp_def)
    then show ?thesis using IH q(1) gv by auto
  next
    fix x sp r h
    assume x: "txn (th sf i) = Some x"
      and st: "tm_end_step sp r h (sh sf) x (th sf i) (pc_at sf i) = Some (sh sf', th sf' i)"
    note E = end_access [OF st x]
    have old: "stamp_of (pc_at sf i) = Some m"
      if "m \<le> gv s" "stamp_of (pc_at sf i) = Some m \<or> (\<exists>held. pc_at sf i = FetchAdd held) \<and> m = unat (gvc (sh sf) + 1)" for m
      using that IH sup by (auto simp: gv_def supported_def unat_word_ariths)
    have "same_stamp s sf' k m" if m: "m \<le> gv s" "stamp_of (pc_at sf' k) = Some m" for k m
    proof (cases "k = i")
      case True
      then have "stamp_of (pc_at sf i) = Some m" using E m old by blast
      then have "same_stamp s sf i m" using IH m(1) by blast
      moreover have "txn (th sf' i) = Some x" "rlog (th sf' i) = rlog (th sf i)"
        using conjunct1 [OF E] m(2) True x by (auto simp: end_moved_def)
      ultimately show ?thesis
        using True x decided_stays [OF st] m(2) by (auto simp: same_stamp_def)
    qed (use IH m others [of k] in \<open>auto simp: same_stamp_def\<close>)
    moreover have "clog (sh s) m = Some c \<or> to_come s m c"
      if m: "m \<le> gv s" "clog (sh sf') m = Some c" for m c
    proof (cases "clog (sh sf) m = Some c")
      case False
      then obtain l where l: "clog (sh sf') = (clog (sh sf))(l \<mapsto> \<lparr>c_reads = rlog (th sf i), c_writes = write_set x\<rparr>)"
        "\<not> decided (pc_at sf i)"
        "stamp_of (pc_at sf i) = Some l \<or> (\<exists>held. pc_at sf i = FetchAdd held) \<and> l = unat (gvc (sh sf) + 1)"
        using conjunct2 [OF conjunct2 [OF conjunct2 [OF E]]] m(2) by auto
      then have lm: "l = m" "c = \<lparr>c_reads = rlog (th sf i), c_writes = write_set x\<rparr>"
        using False m(2) by (auto split: if_splits)
      have "stamp_of (pc_at sf i) = Some m" using old [OF m(1)] l(3) lm(1) by blast
      then have "same_stamp s sf i m" using IH m(1) by blast
      then have "to_come s m c"
        using l(2) x lm(2) unfolding same_stamp_def to_come_def
        by (intro exI [of _ i] exI [of _ x]) auto
      then show ?thesis ..
    qed (use IH m(1) in blast)
    moreover have "clog (sh sf') m = Some c" if "clog (sh s) m = Some c" for m c
    proof -
      have c: "clog (sh sf) m = Some c" using IH that by blast
      have "clog (sh sf) l = None"
        if "stamp_of (pc_at sf i) = Some l \<or> (\<exists>held. pc_at sf i = FetchAdd held) \<and> l = unat (gvc (sh sf) + 1)"
          "\<not> decided (pc_at sf i)" for l
      proof -
        have lg: "log_ok sf" using inv by (simp add: tl2_inv_def)
        from that(1) show ?thesis
        proof
          assume "stamp_of (pc_at sf i) = Some l"
          then show ?thesis using log_okD(2) [OF lg] that(2) by blast
        next
          assume "(\<exists>held. pc_at sf i = FetchAdd held) \<and> l = unat (gvc (sh sf) + 1)"
          then have "gv sf < l" using sup by (simp add: gv_def supported_def unat_word_ariths)
          then show ?thesis using log_okD(1) [OF lg, of l] by (cases "clog (sh sf) l") auto
        qed
      qed
      then show ?thesis using conjunct2 [OF conjunct2 [OF conjunct2 [OF E]]] c by auto
    qed
    ultimately show ?thesis using IH gv by auto
  qed
qed

section \<open>Words with their final value\<close>

lemma snap_agree:
  assumes "\<And>m. m \<le> n \<Longrightarrow> log m = log' m \<or> log m = None \<and> (\<forall>c. log' m = Some c \<longrightarrow> c_writes c a = None)"
  shows "snap base log n a = snap base log' n a"
  using assms
proof (induction n)
  case (Suc n)
  then have "snap base log n a = snap base log' n a" by simp
  then show ?case using Suc.prems [of "Suc n"] by (auto split: option.splits)
qed simp

text \<open>A thread with a commit to come holds the stripes of its writes.\<close>

lemma to_come_holds:
  assumes "tl2_inv base s" "to_come s m c" "c_writes c a \<noteq> None"
  shows "\<exists>k. stamp_of (pc_at s k) = Some m \<and> \<not> decided (pc_at s k) \<and> lock_index a \<in> held_by (pc_at s k)"
proof -
  obtain k x where k: "stamp_of (pc_at s k) = Some m" "\<not> decided (pc_at s k)" "txn (th s k) = Some x"
    "c_writes c = write_set x"
    using assms(2) by (auto simp: to_come_def)
  have "pc_ok base s k (th s k) x (pc_at s k)"
    using assms(1) k(3) by (auto simp: tl2_inv_def local_ok_def txn_ok_def dest: spec [of _ k])
  then have "lock_index a \<in> held_by (pc_at s k)"
    using k assms(3) by (cases "pc_at s k") (auto simp: iterating_def)
  then show ?thesis using k by blast
qed

lemma future_agrees:
  assumes "reach supported s sf" "tl2_inv base s" "n \<le> gv s"
    and "\<And>k m. m \<le> n \<Longrightarrow> stamp_of (pc_at s k) = Some m \<Longrightarrow> \<not> decided (pc_at s k) \<Longrightarrow>
      lock_index a \<notin> held_by (pc_at s k)"
  shows "snapshot base s n a = snapshot base sf n a"
proof (rule snap_agree)
  fix m
  assume m: "m \<le> n"
  note S = settled [OF assms(1,2)]
  show "clog (sh s) m = clog (sh sf) m \<or>
    clog (sh s) m = None \<and> (\<forall>c. clog (sh sf) m = Some c \<longrightarrow> c_writes c a = None)"
  proof (cases "clog (sh s) m")
    case (Some c)
    then show ?thesis using S by simp
  next
    case None
    have "c_writes c a = None" if "clog (sh sf) m = Some c" for c
    proof (rule ccontr)
      assume w: "c_writes c a \<noteq> None"
      have "m \<le> gv s" using m assms(3) by simp
      then have "to_come s m c" using S that None by auto
      then show False using to_come_holds [OF assms(2) _ w] assms(4) [OF m] by blast
    qed
    then show ?thesis using None by blast
  qed
qed

text \<open>A word whose stripe is free holds the newest value with a stamp drawn so far, for good.\<close>

lemma free_word_final:
  assumes "reach supported s sf" "tl2_inv base s" "word_aligned (word_size (sh s)) a"
    and "\<not> vl_isLocked (stripe (sh s) a)"
  shows "word_at s a = snapshot base sf (gv s) a"
proof -
  have lk: "locks_ok s" using assms(2) by (simp add: tl2_inv_def)
  then have free: "lock_index a \<notin> held_by (pc_at s k)" for k
    using assms(4) by (auto simp: locks_ok_def)
  have "word_at s a = snapshot base s (gv s) a"
    using quiet_word [OF assms(2,3), of "gv s"] free lk by (auto simp: locks_ok_def)
  also have "\<dots> = snapshot base sf (gv s) a" by (rule future_agrees [OF assms(1,2)]) (use free in auto)
  finally show ?thesis .
qed

text \<open>So does a word that has just been written and whose stripe is not yet released.\<close>

lemma written_word_final:
  assumes "reach supported s sf" "tl2_inv base s" "word_aligned (word_size (sh s)) a"
    and "in_flight (pc_at s j) = Some a"
  shows "word_at s a = snapshot base sf (gv s) a"
proof -
  note I = tl2_invD [OF assms(2)]
  have inv: "memory_ok base s" "log_ok s" "stamps_ok s" "locks_ok s" using assms(2) by (simp_all add: tl2_inv_def)
  have d: "decided (pc_at s j)" "lock_index a \<in> held_by (pc_at s j)"
    using in_flight_decided [OF assms(4)] by simp_all
  obtain w where w: "stamp_of (pc_at s j) = Some w" using decided_stamp [OF d(1)] by blast
  have wg: "w \<le> gv s" by (rule stamp_le_gv [OF inv(3) w])
  have only: "k = j" if "lock_index a \<in> held_by (pc_at s k)" for k
    using holder_unique [OF inv(4) that d(2)] .
  have "\<not> writes_in (clog (sh s)) m a" if wm: "w < m" for m
  proof
    assume wr: "writes_in (clog (sh s)) m a"
    have "ver s (lock_index a) < w" by (rule holder_stamp [OF inv(3) d(2) w])
    then obtain k where "stamp_of (pc_at s k) = Some m" "lock_index a \<in> held_by (pc_at s k)"
      using log_okD(3) [OF inv(2) wr] wm by auto
    then show False using only w wm by force
  qed
  then have "snapshot base s (gv s) a = snapshot base s w a" by (intro snap_range [OF wg])
  then have "word_at s a = snapshot base s (gv s) a" using memory_okD(2) [OF inv(1) assms(3,4) w] by simp
  also have "\<dots> = snapshot base sf (gv s) a"
    by (rule future_agrees [OF assms(1,2) order_refl]) (use only d(1) in blast)
  finally show ?thesis .
qed

section \<open>A read between its two validations\<close>

text \<open>
  \<open>b\<close> is what the word held when the pre-validation succeeded. As long as the version has not
  moved on, the word is still that, or the new value has been written by the one thread that took
  the stripe since.
\<close>

fun reader_ok :: "sys \<Rightarrow> bytes \<Rightarrow> pc \<Rightarrow> bool" where
  "reader_ok s b (PreLocked a sz i v) \<longleftrightarrow> unat v \<le> ver s (lock_index (a + of_nat i))"
| "reader_ok s b (CopyWord a sz i v) \<longleftrightarrow> unat v \<le> ver s (lock_index (a + of_nat i)) \<and>
     (unat v = ver s (lock_index (a + of_nat i)) \<longrightarrow> word_at s (a + of_nat i) = b \<or>
        (\<exists>k. in_flight (pc_at s k) = Some (a + of_nat i)))"
| "reader_ok s b (PostVersion a sz i v) \<longleftrightarrow> unat v \<le> ver s (lock_index (a + of_nat i))"
| "reader_ok s b point \<longleftrightarrow> True"

lemma reader_ok_own:
  assumes "tl2_inv base s" "supported s" "exec i act s = Some s'" "reader_ok s b (pc_at s i)"
  shows "reader_ok s' (note_seen (pc_at s i) s b) (pc_at s' i)"
  using exec_kind [OF assms(3)]
proof (elim disjE exE conjE)
  fix x sp r h
  assume "txn (th s i) = Some x"
    and st: "tm_end_step sp r h (sh s) x (th s i) (pc_at s i) = Some (sh s', th s' i)"
  then have "end_point (pc_at s' i) \<or> pc_at s' i = Idle" using end_access [OF st] by (auto simp: end_moved_def)
  then show ?thesis by (cases "pc_at s' i") auto
next
  assume sh: "sh s' = sh s"
  show ?thesis
  proof (cases act)
    case (Tau sp rs hs)
    then obtain x where x: "txn (th s i) = Some x" using assms(3) by (auto simp: exec_def split: if_splits option.splits)
    show ?thesis
    proof (cases "tm_read_step (sh s) x (th s i) (pc_at s i)")
      case None
      then obtain g t where "tm_end_step sp rs hs (sh s) x (th s i) (pc_at s i) = Some (g, t)" "th s' i = t"
        using assms(3) Tau x by (auto simp: exec_def split: if_splits option.splits)
      then have "end_point (pc_at s' i) \<or> pc_at s' i = Idle"
        using end_access [OF _ x] by (fastforce simp: end_moved_def)
      then show ?thesis by (cases "pc_at s' i") auto
    next
      case (Some t)
      then have t: "th s' i = t" using assms(3) Tau x by (auto simp: exec_def split: if_splits)
      have "ver s' = ver s" "word_at s' = word_at s" using sh by (auto simp: ver_def word_at_def fun_eq_iff)
      then show ?thesis
        using Some assms(4) unfolding t
        by (cases "pc_at s i")
           (auto simp: abort_def read_next_def Let_def ver_def lock_version_def split: if_splits option.splits)
    qed
  qed (use assms(3) in \<open>auto simp: exec_def tm_begin_step_def read_call_def tm_write_step_def end_call_def
        commit_def Let_def split: if_splits option.splits\<close>)
qed

lemma reader_aligned:
  assumes "tl2_inv base s" "pc_at s j = CopyWord a sz i v"
  shows "word_aligned (word_size (sh s)) (a + of_nat i)"
proof -
  obtain x where "txn (th s j) = Some x"
    using assms by (cases "txn (th s j)") (auto simp: tl2_inv_def local_ok_def dest: spec [of _ j])
  then have "pos_ok (word_size (sh s)) a i" "width_ok (word_size (sh s))"
    using assms by (auto simp: tl2_inv_def local_ok_def txn_ok_def dest: spec [of _ j])
  then show ?thesis using pos_ok_aligned by blast
qed

lemma reader_ok_other:
  assumes "tl2_inv base s" "supported s" "exec i act s = Some s'" "j \<noteq> i" "reader_ok s b (pc_at s j)"
  shows "reader_ok s' b (pc_at s j)"
proof (cases "pc_at s j")
  case (CopyWord a sz k v)
  let ?a = "a + of_nat k"
  have le: "ver s (lock_index ?a) \<le> ver s' (lock_index ?a)" by (rule exec_version_mono [OF assms(1-3)])
  have old: "unat v \<le> ver s (lock_index ?a)"
    "unat v = ver s (lock_index ?a) \<Longrightarrow> word_at s ?a = b \<or> (\<exists>l. in_flight (pc_at s l) = Some ?a)"
    using assms(5) CopyWord by auto
  have "word_at s' ?a = b \<or> (\<exists>l. in_flight (pc_at s' l) = Some ?a)" if v: "unat v = ver s' (lock_index ?a)"
  proof (cases "word_at s' ?a = word_at s ?a")
    case False
    then obtain keys wv where "pc_at s' i = SetVersion (?a # keys) wv"
      using exec_word_change [OF assms(1,3) reader_aligned [OF assms(1) CopyWord]] by metis
    then have "in_flight (pc_at s' i) = Some ?a" by simp
    then show ?thesis by blast
  next
    case True
    have "in_flight (pc_at s' l) = Some ?a" if l: "in_flight (pc_at s l) = Some ?a" for l
    proof (cases "l = i")
      case False
      then show ?thesis using l exec_others [OF assms(3)] by simp
    next
      case i: True
      then obtain keys wv where p: "pc_at s i = SetVersion (?a # keys) wv"
        using l by (cases "pc_at s i" rule: in_flight.cases) auto
      obtain x sp r h where st: "tm_end_step sp r h (sh s) x (th s i) (pc_at s i) = Some (sh s', th s' i)"
        using exec_kind [OF assms(3)] p by auto
      then have "ver s' (lock_index ?a) = lock_version (vl_setVersion wv)" using p by (auto simp: ver_def dest: sym)
      moreover have "stamps_ok s" using assms(1) by (simp add: tl2_inv_def)
      then have "ver s (lock_index ?a) < unat wv" "unat wv \<le> gv s"
        using holder_stamp [of s "lock_index ?a" i] stamp_le_gv [of s i] p by simp_all
      ultimately have "ver s (lock_index ?a) < ver s' (lock_index ?a)"
        using assms(2) by (simp add: supported_def lock_version_def vlock_simps)
      then show ?thesis using v old(1) by simp
    qed
    then show ?thesis using True old le v by force
  qed
  then show ?thesis using CopyWord old(1) le by auto
next
  case (PreLocked a sz k v)
  then show ?thesis using assms(5) exec_version_mono [OF assms(1-3), of "lock_index (a + of_nat k)"] by simp
next
  case (PostVersion a sz k v)
  then show ?thesis using assms(5) exec_version_mono [OF assms(1-3), of "lock_index (a + of_nat k)"] by simp
qed simp_all

end
