(* ===== verification/TL2_Later.thy ===== *)
theory TL2_Later
  imports TL2_Clients_Commit TL2_Futures
begin

text \<open>
  Steps of client code over the concurrent library and what a state has in common with the states
  after it: each step makes at most one access of one thread, commits and drawn stamps stay, and an
  ending call that is recorded later still holds its stamp.
\<close>

section \<open>One step of the world\<close>

definition seen_inv :: "('l, 'a) world \<Rightarrow> bool" where
  "seen_inv w \<longleftrightarrow> (\<forall>i. reader_ok (tm w) (seen w i) (pc_at (tm w) i))"

lemma seen_inv_exec:
  assumes "world_inv C w" "seen_inv w" "exec i act (tm w) = Some s'" "tm w' = s'"
    and "seen w' = (seen w)(i := note_seen (pc_at (tm w) i) (tm w) (seen w i))"
  shows "seen_inv w'"
  unfolding seen_inv_def
proof
  fix j
  note D = world_invD [OF assms(1)]
  show "reader_ok (tm w') (seen w' j) (pc_at (tm w') j)"
  proof (cases "j = i")
    case True
    then show ?thesis
      using reader_ok_own [OF D(1,2) assms(3)] assms(2,4,5) by (simp add: seen_inv_def)
  next
    case False
    then show ?thesis
      using reader_ok_other [OF D(1,2) assms(3) False] assms(2,4,5) exec_others [OF assms(3)]
      by (simp add: seen_inv_def)
  qed
qed

lemma seen_inv_same: "seen_inv w \<Longrightarrow> tm w' = tm w \<Longrightarrow> seen w' = seen w \<Longrightarrow> seen_inv w'"
  by (simp add: seen_inv_def)

text \<open>A step makes at most one access, of the thread that moves.\<close>

definition quiet_step :: "nat \<Rightarrow> ('l, 'a) world \<Rightarrow> ('l, 'a) world \<Rightarrow> bool" where
  "quiet_step i w w' \<longleftrightarrow> first_words w' = first_words w \<and>
     (\<forall>k \<le> gv (tm w). drawn w' k = drawn w k) \<and>
     (\<forall>j. j \<noteq> i \<longrightarrow> calls w' j = calls w j \<and> local_state w' j = local_state w j \<and> seen w' j = seen w j) \<and>
     (tm w' = tm w \<and> seen w' = seen w \<or>
      (\<exists>act. exec i act (tm w) = Some (tm w') \<and>
        seen w' = (seen w)(i := note_seen (pc_at (tm w) i) (tm w) (seen w i))))"

lemma quiet_stepI:
  assumes "tm w' = tm w" "seen w' = seen w" "first_words w' = first_words w" "drawn w' = drawn w"
    and "calls w' = (calls w)(i := c)" "\<And>j. j \<noteq> i \<Longrightarrow> local_state w' j = local_state w j"
  shows "quiet_step i w w'"
  using assms by (simp add: quiet_step_def)

lemma quiet_step_enter:
  assumes "exec i act (tm w) = Some s'" "\<And>v. note_seen (pc_at (tm w) i) (tm w) v = v"
  shows "quiet_step i w (enter i c w s')"
  using assms by (auto simp: quiet_step_def enter_def)

lemma note_seen_end: "end_point p \<Longrightarrow> note_seen p s v = v"
  by (cases p) auto

lemma hand_back_seen [simp]: "seen (hand_back C i r w) = seen w" "seen (splice ro i w) = seen w"
  by (auto simp: hand_back_def retry_def splice_def split: sum.splits exn.splits)

lemma thread_step_quiet:
  assumes inv: "world_inv C w" and z: "zero_outside w" and st: "thread_step C i inp w = Some w'"
  shows "quiet_step i w w'"
proof -
  obtain ro p where nc: "next_call C i (local_state w i) = Some (ro, p)"
    and cs: "call_step C i inp ro p (calls w i) w = Some w'"
    using thread_step_cases [OF st] by blast
  show ?thesis
  proof (cases "calls w i")
    case Outside
    show ?thesis
    proof (cases "inp = Refuse")
      case True
      then show ?thesis using Outside cs by (intro quiet_stepI) auto
    next
      case False
      then obtain s' where "exec i (Begin ro) (tm w) = Some s'" "w' = enter i (Body p) w s'"
        using Outside cs by auto
      then show ?thesis using exec_begin(4) by (auto intro: quiet_step_enter)
    qed
  next
    case (Body q)
    then have "body_access i inp q w = Some w'" using cs by simp
    then show ?thesis
    proof (cases rule: body_access_cases)
      case body_read
      then show ?thesis using exec_read(4) by (auto intro: quiet_step_enter)
    next
      case body_write
      then have "pc_at (tm w) i = Idle" using exec_write [OF _ world_invD(3) [OF inv]] by metis
      then show ?thesis using body_write by (auto intro: quiet_step_enter)
    next
      case (body_alloc p sz k)
      note w' = alloc_body [OF world_invD(3) [OF inv] body_alloc(2) z body_alloc(3)]
      show ?thesis unfolding w' by (intro quiet_stepI) (auto simp: enter_def)
    next
      case ended
      then have "pc_at (tm w) i = Idle" using exec_end by metis
      then show ?thesis using ended by (auto intro: quiet_step_enter)
    qed (auto intro!: quiet_stepI simp: enter_def)
  next
    case (Reading k)
    then have "call_step C i inp ro p (Reading k) w = Some w'" using cs by simp
    then show ?thesis
    proof (cases rule: reading_step_cases)
      case (access x)
      then show ?thesis by (auto simp: read_access_def quiet_step_def)
    qed (auto intro!: quiet_stepI simp: enter_def retry_def)
  next
    case (Ending r n)
    then have "call_step C i inp ro p (Ending r n) w = Some w'" using cs by simp
    then show ?thesis
    proof (cases rule: ending_step_cases)
      case (terminate e)
      then show ?thesis by (simp add: quiet_step_def)
    next
      case (access x sp rs hs)
      then have "end_point (pc_at (tm w) i)"
        using thread_invD(2) [OF world_invD(4) [OF inv] access(1)] Ending by (auto simp: running_inv_def)
      then have "note_seen (pc_at (tm w) i) (tm w) v = v" for v by (rule note_seen_end)
      moreover have "\<forall>k \<le> gv (tm w). drawn w' k = drawn w k"
        using end_access_world [OF inv Ending access nc] by metis
      ultimately show ?thesis using access(2) by (auto simp: quiet_step_def end_access_def)
    qed (auto intro!: quiet_stepI simp: retry_def)
  qed
qed

lemma world_step_tm:
  assumes "world_inv C w" "zero_outside w" "seen_inv w" "world_step C w w'"
  shows "(tm w' = tm w \<or> sys_step (tm w) (tm w')) \<and> first_words w' = first_words w \<and>
    (\<forall>k \<le> gv (tm w). drawn w' k = drawn w k) \<and> seen_inv w'"
  using assms(4)
proof (cases rule: world_step.cases)
  case (step_thread i inp)
  have q: "quiet_step i w w'" by (rule thread_step_quiet [OF assms(1,2) step_thread])
  then have "seen_inv w'"
    using seen_inv_exec [OF assms(1,3)] seen_inv_same [OF assms(3)] by (auto simp: quiet_step_def)
  with q show ?thesis by (auto simp: quiet_step_def intro: sys_step.step)
next
  case step_other
  then show ?thesis using assms(3) by (simp add: seen_inv_def)
qed

section \<open>Later states\<close>

definition future :: "('l, 'a) world \<Rightarrow> ('l, 'a) world \<Rightarrow> bool" where
  "future w wl \<longleftrightarrow> reach supported (tm w) (tm wl) \<and> (\<forall>k \<le> gv (tm w). drawn wl k = drawn w k) \<and>
     first_words wl = first_words w"

lemma future_refl: "supported (tm w) \<Longrightarrow> future w w"
  by (simp add: future_def reach.start)

lemma future_step:
  assumes "world_inv C w" "zero_outside w" "seen_inv w" "world_step C w w'" "future w' wl"
  shows "future w wl"
proof -
  note s = world_step_tm [OF assms(1-4)]
  note D = world_invD [OF assms(1)]
  have sup: "supported (tm w')"
  proof -
    have "reach supported (tm w') (tm wl)" using assms(5) by (simp add: future_def)
    then show ?thesis by (induction rule: reach.induct) auto
  qed
  have r: "reach supported (tm w) (tm w')"
    using s D(2) sup by (auto intro: reach.start reach.move)
  then have "gv (tm w) \<le> gv (tm w')" using settled [OF _ D(1)] by blast
  moreover have "reach supported (tm w) (tm wl)"
    using reach_trans [OF r] assms(5) by (simp add: future_def)
  ultimately show ?thesis using s assms(5) by (auto simp: future_def)
qed

lemma future_logged: "world_inv C w \<Longrightarrow> future w wl \<Longrightarrow> clog (sh (tm w)) n = Some c \<Longrightarrow> clog (sh (tm wl)) n = Some c"
  using settled [of "tm w" "tm wl" zero_words] by (simp add: future_def world_inv_def)

text \<open>If an ending call is recorded later, it is recorded already or still has its stamp.\<close>

lemma future_commit:
  assumes "world_inv C w" "future w wl" "calls w i = Ending r n" "n \<le> gv (tm w)" "clog (sh (tm wl)) n \<noteq> None"
  shows "clog (sh (tm w)) n \<noteq> None \<or> stamp_of (pc_at (tm w) i) = Some n"
proof (rule disjCI)
  assume no: "stamp_of (pc_at (tm w) i) \<noteq> Some n"
  note D = world_invD [OF assms(1)]
  have "\<not> to_come (tm w) n c" for c
  proof
    assume "to_come (tm w) n c"
    then obtain k x where k: "stamp_of (pc_at (tm w) k) = Some n" "txn (th (tm w) k) = Some x"
      by (auto simp: to_come_def)
    have cp: "call_point (calls w k) (th (tm w) k)"
      using thread_invD(2) [OF D(4) k(2)] by (auto simp: running_inv_def)
    obtain r' n' where e: "calls w k = Ending r' n'"
      using cp stamp_end_point [OF k(1)] read_point_stamp [of "pc_at (tm w) k"] k(1) by (cases "calls w k") auto
    then have "n' = n" using D(5) [of k] k(1) by (auto simp: stamp_inv_def)
    moreover have "n \<noteq> 0" by (rule stamp_pos [OF assms(1) k(1)])
    ultimately have "k = i" using assms(1,3) e unfolding world_inv_def stamps_differ_def by blast
    then show False using k(1) no by simp
  qed
  then show "clog (sh (tm w)) n \<noteq> None"
    using settled [of "tm w" "tm wl", OF _ D(1)] assms(2,4,5) by (auto simp: future_def)
qed

end
