(* ===== verification/TL2_Linearize.thy ===== *)
theory TL2_Linearize
  imports TL2_Later
begin

text \<open>
  Client code over the concurrent library runs as over the atomic memory. A read-write call takes
  effect when it draws the stamp it commits with; since only a later state tells whether it
  commits, a state is compared with the atomic one against a later state. A read-only call of one
  read takes effect at its pre-validation or at its copy, whichever gave the value it returns.
\<close>

section \<open>The memory after the first commits\<close>

text \<open>The segments of the commit with stamp \<open>k\<close>, and the words valid after the first \<open>n\<close> commits.\<close>

definition stamp_words :: "('l, 'a) world \<Rightarrow> nat \<Rightarrow> addr set" where
  "stamp_words wl k =
     (case drawn wl k of
        None \<Rightarrow> {}
      | Some (p, r, ss) \<Rightarrow> if clog (sh (tm wl)) k = None then {} else seg_union ss)"

definition words_upto :: "('l, 'a) world \<Rightarrow> nat \<Rightarrow> addr set" where
  "words_upto wl n = first_words wl \<union> (\<Union>k \<le> n. stamp_words wl k)"

definition store_at :: "('l, 'a) world \<Rightarrow> nat \<Rightarrow> store" where
  "store_at wl n = contents (words_upto wl n) (snapshot zero_words (tm wl) n)"

text \<open>The commits up to \<open>n\<close> wrote valid words, and did not end in a retry.\<close>

definition sane_upto :: "('l, 'a) world \<Rightarrow> nat \<Rightarrow> bool" where
  "sane_upto wl n \<longleftrightarrow> (\<forall>k c. k \<le> n \<longrightarrow> clog (sh (tm wl)) k = Some c \<longrightarrow>
     dom (c_writes c) \<subseteq> words_upto wl n \<and> (\<forall>p r ss. drawn wl k = Some (p, r, ss) \<longrightarrow> r \<noteq> Inl TransactionRetry))"

lemma words_upto_Suc: "words_upto wl (Suc n) = words_upto wl n \<union> stamp_words wl (Suc n)"
  by (auto simp: words_upto_def atMost_Suc)

lemma words_upto_Suc_none:
  assumes "clog (sh (tm wl)) (Suc n) = None"
  shows "words_upto wl (Suc n) = words_upto wl n"
  unfolding words_upto_Suc using assms by (simp add: stamp_words_def split: option.split)

lemma snapshot_zero:
  assumes "sane_upto wl n" "a \<notin> words_upto wl n"
  shows "snapshot zero_words (tm wl) n a = replicate 8 0"
proof -
  have "\<not> writes_in (clog (sh (tm wl))) k a" if "k \<le> n" for k
    using assms that unfolding sane_upto_def writes_in_def by blast
  then have "snapshot zero_words (tm wl) n a = snapshot zero_words (tm wl) 0 a" by (intro snap_range) auto
  then show ?thesis by simp
qed

lemma store_at_read: "sane_upto wl n \<Longrightarrow> snd (store_at wl n) a = decode (snapshot zero_words (tm wl) n a)"
  using snapshot_zero [of wl n a] by (simp add: store_at_def contents_def)

lemma store_at_Suc_none:
  assumes "clog (sh (tm wl)) (Suc n) = None"
  shows "store_at wl (Suc n) = store_at wl n" "sane_upto wl (Suc n) \<longleftrightarrow> sane_upto wl n"
proof -
  have "snapshot zero_words (tm wl) (Suc n) = snapshot zero_words (tm wl) n" using assms by (simp add: fun_eq_iff)
  then show "store_at wl (Suc n) = store_at wl n"
    by (simp add: store_at_def words_upto_Suc_none [OF assms] del: snap.simps)
  show "sane_upto wl (Suc n) \<longleftrightarrow> sane_upto wl n"
    using assms unfolding sane_upto_def words_upto_Suc_none [OF assms] by (auto simp: le_Suc_eq)
qed

text \<open>A recorded commit is an atomic run of its body from the memory before it.\<close>

lemma commit_atomic:
  assumes inv: "world_inv C wl" and c: "clog (sh (tm wl)) (Suc n) = Some c"
    and d: "drawn wl (Suc n) = Some (p, r, ss)" and sane: "sane_upto wl n" and safe: "safe p (store_at wl n)"
  shows "atomically p (store_at wl n) r (store_at wl (Suc n))" "sane_upto wl (Suc n)"
proof -
  let ?m = "snapshot zero_words (tm wl) n"
  have ci: "commit_inv wl (Suc n) c" using inv c by (simp add: world_inv_def)
  then have tr: "traced p ss (c_reads c) (c_writes c) (final r)" and fi: "seg_union ss \<inter> first_words wl = {}"
    and dj: "\<And>k p' r' ss'. k \<noteq> Suc n \<Longrightarrow> clog (sh (tm wl)) k \<noteq> None \<Longrightarrow> drawn wl k = Some (p', r', ss') \<Longrightarrow>
      disjoint_segs ss ss'"
    using d by (auto simp: commit_inv_def)
  have reads: "?m a = v" if "(a, v) \<in> set (c_reads c)" for a v
    using serial_okD(1) [OF _ c that, of zero_words] inv by (simp add: world_inv_def tl2_inv_def)
  have away: "seg_union ss \<inter> words_upto wl n = {}"
  proof -
    have "seg_union ss \<inter> stamp_words wl k = {}" if "k \<le> n" for k
      using dj [of k] that by (auto simp: stamp_words_def disjoint_segs_def split: option.splits)
    then show ?thesis using fi by (auto simp: words_upto_def)
  qed
  have "decode (?m a) = 0" if "a \<in> seg_union ss" for a
  proof -
    have "a \<notin> words_upto wl n" using that away by blast
    then show ?thesis using snapshot_zero [OF sane] by simp
  qed
  note T = traced_run [OF tr safe [unfolded store_at_def] reads away this]
  have W: "words_upto wl (Suc n) = words_upto wl n \<union> seg_union ss"
    unfolding words_upto_Suc using c d by (simp add: stamp_words_def)
  have "overlay (c_writes c) ?m = snapshot zero_words (tm wl) (Suc n)"
    using c by (simp add: overlay_def fun_eq_iff)
  then have "contents (words_upto wl n \<union> seg_union ss) (overlay (c_writes c) ?m) = store_at wl (Suc n)"
    by (simp only: store_at_def W)
  note T = T [unfolded this, folded store_at_def]
  have "atomically (final r) \<sigma> r \<sigma>" for \<sigma> by (cases r) simp_all
  then show "atomically p (store_at wl n) r (store_at wl (Suc n))" using T by blast
  have "r \<noteq> Inl TransactionRetry"
  proof
    assume "r = Inl TransactionRetry"
    then show False using conjunct1 [OF conjunct2 [OF T]] by simp
  qed
  then show "sane_upto wl (Suc n)"
    using sane conjunct1 [OF T] c d unfolding sane_upto_def W by (auto simp: le_Suc_eq)
qed

section \<open>The compared states\<close>

text \<open>A call that is ending and will have committed.\<close>

definition linearized :: "('l, 'a) world \<Rightarrow> 'a call \<Rightarrow> (exn + 'a) option" where
  "linearized wl c =
     (case c of Ending r n \<Rightarrow> if clog (sh (tm wl)) n = None then None else Some r | _ \<Rightarrow> None)"

text \<open>What a read-only call of one read returns, if nothing intervenes.\<close>

fun may_return :: "sys \<Rightarrow> bytes \<Rightarrow> thread \<Rightarrow> 'a call \<Rightarrow> (exn + 'a) option" where
  "may_return s b t (Body q) = body_result q"
| "may_return s b t (Ending r n) = Some r"
| "may_return s b t (Reading k) =
     (if txn t = None then None
      else case pc t of
        CopyWord a sz i v \<Rightarrow> if unat v = ver s (lock_index (a + of_nat i)) then body_result (k (decode b)) else None
      | PostVersion a sz i v \<Rightarrow>
          if unat v = ver s (lock_index (a + of_nat i)) then body_result (k (decode (concat (buf t)))) else None
      | PostLocked a sz i v nv \<Rightarrow> if nv = v then body_result (k (decode (concat (buf t)))) else None
      | Idle \<Rightarrow> body_result (k (decode (concat (buf t))))
      | _ \<Rightarrow> None)"
| "may_return s b t Outside = None"

abbreviation outcome_of :: "('l, 'a) world \<Rightarrow> nat \<Rightarrow> (exn + 'a) option" where
  "outcome_of w i \<equiv> may_return (tm w) (seen w i) (th (tm w) i) (calls w i)"

text \<open>The read-only calls taken to have had their effect, with their results; any choice will do.\<close>

definition choices :: "('l, 'a) client_code \<Rightarrow> ('l, 'a) world \<Rightarrow> (nat \<Rightarrow> (exn + 'a) option) \<Rightarrow> bool" where
  "choices C w \<pi> \<longleftrightarrow> (\<forall>i r. \<pi> i = Some r \<longrightarrow>
     (\<exists>p. next_call C i (local_state w i) = Some (True, p) \<and> reads_once p) \<and> outcome_of w i = Some r)"

definition ahead ::
  "('l, 'a) client_code \<Rightarrow> ('l, 'a) world \<Rightarrow> (nat \<Rightarrow> (exn + 'a) option) \<Rightarrow> ('l, 'a) world \<Rightarrow> nat \<Rightarrow> 'l" where
  "ahead C wl \<pi> w i =
     (case \<pi> i of
        Some r \<Rightarrow> got C i (local_state w i) r
      | None \<Rightarrow> (case linearized wl (calls w i) of
                   Some r \<Rightarrow> got C i (local_state w i) r | None \<Rightarrow> local_state w i))"

definition simulated ::
  "('l, 'a) client_code \<Rightarrow> store \<Rightarrow> (nat \<Rightarrow> 'l) \<Rightarrow> ('l, 'a) world \<Rightarrow> ('l, 'a) world \<Rightarrow> bool" where
  "simulated C \<sigma>0 ls0 wl w \<longleftrightarrow> sane_upto wl (gv (tm w)) \<and>
     (\<forall>\<pi>. choices C w \<pi> \<longrightarrow>
        (\<exists>n \<le> gv (tm w). atomic_run C \<sigma>0 ls0 n (store_at wl (gv (tm w))) (ahead C wl \<pi> w)))"

lemma choices_None: "choices C w (\<lambda>_. None)"
  by (simp add: choices_def)

lemma choicesD:
  "choices C w \<pi> \<Longrightarrow> \<pi> i = Some r \<Longrightarrow>
    (\<exists>p. next_call C i (local_state w i) = Some (True, p) \<and> reads_once p) \<and> outcome_of w i = Some r"
  unfolding choices_def by blast

text \<open>An access of another thread takes no possible result away.\<close>

lemma outcome_other:
  assumes inv: "world_inv C w" "seen_inv w" and q: "quiet_step i w w'" and j: "j \<noteq> i" and r: "outcome_of w' j = Some r"
  shows "outcome_of w j = Some r"
proof -
  have eq: "calls w' j = calls w j" "seen w' j = seen w j" using q j by (auto simp: quiet_step_def)
  have th: "th (tm w') j = th (tm w) j"
    using q j exec_others [of i _ "tm w" "tm w'" j] by (auto simp: quiet_step_def)
  note D = world_invD [OF inv(1)]
  have mono: "ver (tm w) l \<le> ver (tm w') l" for l
    using q exec_version_mono [OF D(1,2)] by (auto simp: quiet_step_def)
  have "reader_ok (tm w) (seen w j) (pc_at (tm w) j)" using inv(2) by (simp add: seen_inv_def)
  then show ?thesis
    using r eq th mono
    by (cases "calls w j"; cases "pc_at (tm w) j") (auto split: if_splits dest: le_antisym order_trans)
qed

text \<open>A step of thread \<open>i\<close> without a commit or a result moves the compared state along.\<close>

lemma simulated_silent:
  assumes inv: "world_inv C w" "seen_inv w" and q: "quiet_step i w w'" and s: "simulated C \<sigma>0 ls0 wl w"
    and gv: "gv (tm w') = gv (tm w)" and ls: "local_state w' i = local_state w i"
    and lin: "linearized wl (calls w' i) = linearized wl (calls w i)"
    and out: "\<And>r p. outcome_of w' i = Some r \<Longrightarrow> next_call C i (local_state w i) = Some (True, p) \<Longrightarrow>
      reads_once p \<Longrightarrow> outcome_of w i = Some r"
  shows "simulated C \<sigma>0 ls0 wl w'"
  unfolding simulated_def gv
proof (intro conjI allI impI)
  show "sane_upto wl (gv (tm w))" using s by (simp add: simulated_def)
  fix \<pi>
  assume ch: "choices C w' \<pi>"
  have eq: "calls w' j = calls w j" "local_state w' j = local_state w j" if "j \<noteq> i" for j
    using q that by (auto simp: quiet_step_def)
  have "outcome_of w j = Some r \<and> (\<exists>p. next_call C j (local_state w j) = Some (True, p) \<and> reads_once p)"
    if jr: "\<pi> j = Some r" for j r
  proof -
    obtain p where p: "next_call C j (local_state w' j) = Some (True, p)" "reads_once p" "outcome_of w' j = Some r"
      using choicesD [OF ch jr] by blast
    show ?thesis
    proof (cases "j = i")
      case True
      then show ?thesis using p out [of r p] ls by auto
    next
      case False
      then show ?thesis using p eq(2) [OF False] outcome_other [OF inv q False p(3)] by auto
    qed
  qed
  then have "choices C w \<pi>" by (simp add: choices_def)
  moreover have "ahead C wl \<pi> w' = ahead C wl \<pi> w"
  proof
    fix j
    show "ahead C wl \<pi> w' j = ahead C wl \<pi> w j"
      using eq [of j] ls lin by (cases "j = i") (simp_all add: ahead_def cong: option.case_cong)
  qed
  ultimately show "\<exists>n \<le> gv (tm w). atomic_run C \<sigma>0 ls0 n (store_at wl (gv (tm w))) (ahead C wl \<pi> w')"
    using s by (simp add: simulated_def)
qed

text \<open>A call that returns or throws without a commit of its own: the rest of the program goes on with
  the result the compared state had, or is given now.\<close>

lemma simulated_local:
  assumes inv: "world_inv C w" "seen_inv w" and q: "quiet_step i w w'" and s: "simulated C \<sigma>0 ls0 wl w"
    and tm: "tm w' = tm w" and out: "calls w' i = Outside"
    and go: "\<And>\<pi> n. choices C w \<pi> \<Longrightarrow> \<pi> i = None \<Longrightarrow> n \<le> gv (tm w) \<Longrightarrow>
      atomic_run C \<sigma>0 ls0 n (store_at wl (gv (tm w))) (ahead C wl \<pi> w) \<Longrightarrow>
      \<exists>n \<le> gv (tm w). atomic_run C \<sigma>0 ls0 n (store_at wl (gv (tm w)))
        ((ahead C wl \<pi> w)(i := local_state w' i))"
  shows "simulated C \<sigma>0 ls0 wl w'"
  unfolding simulated_def tm
proof (intro conjI allI impI)
  show "sane_upto wl (gv (tm w))" using s by (simp add: simulated_def)
  fix \<pi>
  assume ch: "choices C w' \<pi>"
  have eq: "calls w' j = calls w j" "local_state w' j = local_state w j" "seen w' j = seen w j" if "j \<noteq> i" for j
    using q that by (auto simp: quiet_step_def)
  have none: "\<pi> i = None"
  proof (cases "\<pi> i")
    case (Some r)
    then show ?thesis using choicesD [OF ch Some] out by simp
  qed
  have "outcome_of w j = Some r \<and> (\<exists>p. next_call C j (local_state w j) = Some (True, p) \<and> reads_once p)"
    if "\<pi> j = Some r" for j r
  proof -
    have j: "j \<noteq> i" using none that by auto
    then have "th (tm w') j = th (tm w) j" using tm by simp
    then show ?thesis using choicesD [OF ch that] eq [OF j] tm by simp
  qed
  then have c: "choices C w \<pi>" by (simp add: choices_def)
  then obtain n where n: "n \<le> gv (tm w)" "atomic_run C \<sigma>0 ls0 n (store_at wl (gv (tm w))) (ahead C wl \<pi> w)"
    using s unfolding simulated_def by blast
  have "ahead C wl \<pi> w' = (ahead C wl \<pi> w)(i := local_state w' i)"
  proof
    fix j
    show "ahead C wl \<pi> w' j = ((ahead C wl \<pi> w)(i := local_state w' i)) j"
      using eq [of j] none out by (cases "j = i") (simp_all add: ahead_def linearized_def cong: option.case_cong)
  qed
  then show "\<exists>n \<le> gv (tm w). atomic_run C \<sigma>0 ls0 n (store_at wl (gv (tm w))) (ahead C wl \<pi> w')"
    using go [OF c none n] by simp
qed

lemma ahead_here: "\<pi> i = None \<Longrightarrow> linearized wl (calls w i) = None \<Longrightarrow> ahead C wl \<pi> w i = local_state w i"
  by (simp add: ahead_def)

lemma ahead_upd:
  assumes "local_state w' = local_state w" "calls w' = (calls w)(i := c)" "\<pi> i = None"
  shows "ahead C wl \<pi> w' = (ahead C wl \<pi> w)(i :=
      (case linearized wl c of Some r \<Rightarrow> got C i (local_state w i) r | None \<Rightarrow> local_state w i))"
proof
  fix j
  show "ahead C wl \<pi> w' j = ((ahead C wl \<pi> w)(i :=
      (case linearized wl c of Some r \<Rightarrow> got C i (local_state w i) r | None \<Rightarrow> local_state w i))) j"
    using assms by (cases "j = i") (simp_all add: ahead_def cong: option.case_cong)
qed

lemma simulated_refused:
  assumes inv: "world_inv C w" "seen_inv w" and q: "quiet_step i w w'" and s: "simulated C \<sigma>0 ls0 wl w"
    and c: "calls w i = Outside" and w': "w' = hand_back C i (Inl TransactionBegin) w"
    and nc: "next_call C i (local_state w i) = Some (ro, p)"
  shows "simulated C \<sigma>0 ls0 wl w'"
proof (rule simulated_local [OF inv q s])
  fix \<pi> n
  assume a: "choices C w \<pi>" "\<pi> i = None" "n \<le> gv (tm w)"
    "atomic_run C \<sigma>0 ls0 n (store_at wl (gv (tm w))) (ahead C wl \<pi> w)"
  have "ahead C wl \<pi> w i = local_state w i" using a(2) c by (simp add: ahead_here linearized_def)
  then have "atomic_run C \<sigma>0 ls0 n (store_at wl (gv (tm w))) ((ahead C wl \<pi> w)(i := local_state w' i))"
    using run_refused [OF a(4), of i ro p] nc w' by simp
  then show "\<exists>n \<le> gv (tm w). atomic_run C \<sigma>0 ls0 n (store_at wl (gv (tm w)))
      ((ahead C wl \<pi> w)(i := local_state w' i))"
    using a(3) by blast
qed (simp_all add: w')

lemma simulated_hand_back:
  assumes inv: "world_inv C w" "seen_inv w" and q: "quiet_step i w w'" and s: "simulated C \<sigma>0 ls0 wl w"
    and fu: "future w wl" and c: "calls w i = Ending r n" and t: "txn (th (tm w) i) = None" "returned (th (tm w) i)"
    and w': "w' = hand_back C i r (splice ro i w)" and nc: "next_call C i (local_state w i) = Some (ro, p)"
  shows "simulated C \<sigma>0 ls0 wl w'"
proof (rule simulated_local [OF inv q s])
  note D = world_invD [OF inv(1)]
  fix \<pi> m
  assume a: "choices C w \<pi>" "\<pi> i = None" "m \<le> gv (tm w)"
    "atomic_run C \<sigma>0 ls0 m (store_at wl (gv (tm w))) (ahead C wl \<pi> w)"
  have ls: "local_state w' i = (if r = Inl TransactionRetry then local_state w i else got C i (local_state w i) r)"
    by (simp add: w')
  show "\<exists>m \<le> gv (tm w). atomic_run C \<sigma>0 ls0 m (store_at wl (gv (tm w)))
      ((ahead C wl \<pi> w)(i := local_state w' i))"
  proof (cases ro)
    case False
    have "ends_well (th (tm w) i)" using t by (simp add: ends_well_def)
    then have cn: "clog (sh (tm w)) n \<noteq> None" and "n \<noteq> 0 \<Longrightarrow> \<exists>p ss. drawn w n = Some (p, r, ss)"
      using D(5) [of i] c nc False by (auto simp: stamp_inv_def)
    then obtain e p' ss where e: "clog (sh (tm w)) n = Some e" "drawn w n = Some (p', r, ss)"
      using clog_0 [OF inv(1)] by (cases "n = 0") auto
    have le: "n \<le> gv (tm w)" by (rule logged_le_gv [OF inv(1) cn])
    have lf: "clog (sh (tm wl)) n = Some e" by (rule future_logged [OF inv(1) fu e(1)])
    moreover have "drawn wl n = Some (p', r, ss)" using fu le e(2) by (simp add: future_def)
    ultimately have "r \<noteq> Inl TransactionRetry"
      using s le unfolding simulated_def sane_upto_def by blast
    then have "local_state w' i = ahead C wl \<pi> w i"
      using ls a(2) c lf by (simp add: ahead_def linearized_def)
    then show ?thesis using a(3,4) by (metis fun_upd_triv)
  next
    case True
    have n0: "n = 0" using thread_invD(1) [OF D(4) t(1)] c nc True by auto
    have "clog (sh (tm wl)) 0 = None"
      using future_commit [OF inv(1) fu c] clog_0 [OF inv(1)] idle_unless_running [OF D(1) t(1)] n0
      by (cases "clog (sh (tm wl)) 0") auto
    then have here: "ahead C wl \<pi>' w i = local_state w i" if "\<pi>' i = None" for \<pi>'
      using that c n0 by (simp add: ahead_here linearized_def)
    consider "r = Inl TransactionRetry" | "r \<noteq> Inl TransactionRetry" "\<not> reads_once p"
      | "r \<noteq> Inl TransactionRetry" "reads_once p" by blast
    then show ?thesis
    proof cases
      case 1
      then show ?thesis using a here [of \<pi>, OF a(2)] ls by (metis fun_upd_triv)
    next
      case 2
      have "atomic_run C \<sigma>0 ls0 m (store_at wl (gv (tm w))) ((ahead C wl \<pi> w)(i := got C i (ahead C wl \<pi> w i) r))"
        by (rule run_any [OF a(4)]) (use nc True 2 here [of \<pi>, OF a(2)] in auto)
      then show ?thesis using a(3) here [of \<pi>, OF a(2)] ls 2 by auto
    next
      case 3
      have "choices C w (\<pi>(i := Some r))"
        using a(1) nc True 3 c by (auto simp: choices_def)
      then obtain m' where m': "m' \<le> gv (tm w)"
        "atomic_run C \<sigma>0 ls0 m' (store_at wl (gv (tm w))) (ahead C wl (\<pi>(i := Some r)) w)"
        using s unfolding simulated_def by blast
      have "ahead C wl (\<pi>(i := Some r)) w = (ahead C wl \<pi> w)(i := local_state w' i)"
        using ls 3 by (auto simp: ahead_def fun_eq_iff)
      then show ?thesis using m' by auto
    qed
  qed
qed (simp_all add: w')

text \<open>The two accesses at which a read-only call of one read may take effect.\<close>

lemma simulated_read:
  assumes inv: "world_inv C w" "seen_inv w" and q: "quiet_step i w w'" and s: "simulated C \<sigma>0 ls0 wl w"
    and gv: "gv (tm w') = gv (tm w)" and ls: "local_state w' i = local_state w i"
    and c: "calls w i = Reading k" "calls w' i = Reading k"
    and out: "\<And>r a. outcome_of w' i = Some r \<Longrightarrow> next_call C i (local_state w i) = Some (True, ReadWord a k) \<Longrightarrow>
      reads_once (ReadWord a k) \<Longrightarrow>
      outcome_of w i = Some r \<or> body_result (k (decode (snapshot zero_words (tm wl) (gv (tm w)) a))) = Some r"
    and pa: "\<And>p. next_call C i (local_state w i) = Some (True, p) \<Longrightarrow> reads_once p \<Longrightarrow> outcome_of w' i \<noteq> None \<Longrightarrow>
      outcome_of w i \<noteq> outcome_of w' i \<Longrightarrow> \<exists>a. p = ReadWord a k"
  shows "simulated C \<sigma>0 ls0 wl w'"
  unfolding simulated_def gv
proof (intro conjI allI impI)
  show sane: "sane_upto wl (gv (tm w))" using s by (simp add: simulated_def)
  fix \<pi>
  assume ch: "choices C w' \<pi>"
  have eq: "calls w' j = calls w j" "local_state w' j = local_state w j" if "j \<noteq> i" for j
    using q that by (auto simp: quiet_step_def)
  have other: "outcome_of w j = Some r \<and> (\<exists>p. next_call C j (local_state w j) = Some (True, p) \<and> reads_once p)"
    if "\<pi> j = Some r" "j \<noteq> i" for j r
    using choicesD [OF ch that(1)] eq [OF that(2)] outcome_other [OF inv q that(2), of r] by simp
  have same: "ahead C wl \<pi> w' = ahead C wl \<pi> w"
  proof
    fix j
    show "ahead C wl \<pi> w' j = ahead C wl \<pi> w j"
      using eq [of j] ls c by (cases "j = i") (simp_all add: ahead_def linearized_def cong: option.case_cong)
  qed
  show "\<exists>n \<le> gv (tm w). atomic_run C \<sigma>0 ls0 n (store_at wl (gv (tm w))) (ahead C wl \<pi> w')"
  proof (cases "\<pi> i = None \<or> \<pi> i = outcome_of w i")
    case True
    have "choices C w \<pi>"
      unfolding choices_def
    proof (intro allI impI)
      fix j r
      assume j: "\<pi> j = Some r"
      show "(\<exists>p. next_call C j (local_state w j) = Some (True, p) \<and> reads_once p) \<and> outcome_of w j = Some r"
        using other [OF j] True choicesD [OF ch j] ls j by (cases "j = i") (metis option.distinct(1))+
    qed
    then show ?thesis using s same unfolding simulated_def by auto
  next
    case False
    then obtain r where r: "\<pi> i = Some r" by auto
    obtain p where p: "next_call C i (local_state w i) = Some (True, p)" "reads_once p" "outcome_of w' i = Some r"
      using choicesD [OF ch r] ls by auto
    obtain a where a: "p = ReadWord a k" using pa [OF p(1,2)] p(3) False r by auto
    then have res: "body_result (k (decode (snapshot zero_words (tm wl) (gv (tm w)) a))) = Some r"
      using out [OF p(3)] p(1,2) False r by auto
    have "choices C w (\<pi>(i := None))" using other by (auto simp: choices_def)
    then obtain n where n: "n \<le> gv (tm w)"
      "atomic_run C \<sigma>0 ls0 n (store_at wl (gv (tm w))) (ahead C wl (\<pi>(i := None)) w)"
      using s unfolding simulated_def by blast
    have here: "ahead C wl (\<pi>(i := None)) w i = local_state w i"
      using c by (simp add: ahead_here linearized_def)
    have "k (snd (store_at wl (gv (tm w))) a) = final r"
      using res store_at_read [OF sane] by (simp add: body_result_final)
    then have "atomically p (store_at wl (gv (tm w))) r (store_at wl (gv (tm w)))"
      unfolding a by (cases r) simp_all
    then have "atomic_run C \<sigma>0 ls0 n (store_at wl (gv (tm w)))
        ((ahead C wl (\<pi>(i := None)) w)(i := got C i (local_state w i) r))"
      using run_read [OF n(2), of i p r] p(1,2) here by simp
    moreover have "(ahead C wl (\<pi>(i := None)) w)(i := got C i (local_state w i) r) = ahead C wl \<pi> w"
      using r by (auto simp: ahead_def fun_eq_iff)
    ultimately show ?thesis using n(1) same by auto
  qed
qed

lemma simulated_read_access:
  assumes inv: "world_inv C w" "seen_inv w" and q: "quiet_step i w w'" and s: "simulated C \<sigma>0 ls0 wl w"
    and fu: "future w wl" and c: "calls w i = Reading k" and x: "txn (th (tm w) i) = Some x" "pc_at (tm w) i \<noteq> Idle"
    and ra: "read_access i (Tau sp rs hs) w = Some w'"
  shows "simulated C \<sigma>0 ls0 wl w'"
proof -
  note D = world_invD [OF inv(1)]
  let ?t = "th (tm w) i"
  obtain s' where ex: "exec i (Tau sp rs hs) (tm w) = Some s'"
    and w': "w' = w\<lparr>tm := s', seen := (seen w)(i := note_seen (pc_at (tm w) i) (tm w) (seen w i))\<rparr>"
    using ra by (auto simp: read_access_def)
  obtain p where nc: "next_call C i (local_state w i) = Some (is_ro x, p)"
    and rp: "read_point (pc_at (tm w) i) (buf ?t)"
    and once: "is_ro x \<Longrightarrow> reads_once p \<Longrightarrow> rest_of (Reading k) ?t = p \<or> (\<exists>r. body_result (rest_of (Reading k) ?t) = Some r)"
    using running_Reading [OF inv(1) c x(1)] by blast
  obtain t where st: "tm_read_step (sh (tm w)) x ?t (pc_at (tm w) i) = Some t" and s': "s' = upd (tm w) i (sh (tm w)) t"
    using tau_read [OF ex x(1) rp x(2)] by blast
  have basic: "gv (tm w') = gv (tm w)" "local_state w' i = local_state w i" "calls w' i = Reading k"
    "ver (tm w') = ver (tm w)" "th (tm w') i = t"
    using c by (auto simp: w' s' gv_def ver_def)
  have reach: "reach supported (tm w) (tm wl)" using fu by (simp add: future_def)
  have rd: "reader_ok (tm w) (seen w i) (pc_at (tm w) i)" using inv(2) by (simp add: seen_inv_def)
  have silent: ?thesis
    if "\<And>r. is_ro x \<Longrightarrow> outcome_of w' i = Some r \<Longrightarrow> outcome_of w i = Some r"
    by (rule simulated_silent [OF inv q s basic(1,2)]) (use that nc c basic(3) in auto)
  have shape: "p = ReadWord a k" if "is_ro x" "reads_once p" "before_copy (pc_at (tm w) i) = Some a" for a
    using once [OF that(1,2)] that(3) by auto
  have aligned: "word_aligned (word_size (sh (tm w))) a" if "pc_at (tm w) i \<in> {PreLocked a 8 0 v, CopyWord a 8 0 v}" for a v
  proof -
    have "pos_ok (word_size (sh (tm w))) a 0"
      using D(1) x(1) that by (auto simp: tl2_inv_def local_ok_def txn_ok_def dest: spec [of _ i])
    then show ?thesis by (simp add: pos_ok_def)
  qed
  have step: ?thesis
    if bc: "before_copy (pc_at (tm w) i) = Some a"
      and out: "\<And>r. is_ro x \<Longrightarrow> outcome_of w' i = Some r \<Longrightarrow> outcome_of w i = Some r \<or>
        body_result (k (decode (snapshot zero_words (tm wl) (gv (tm w)) a))) = Some r" for a
  proof (rule simulated_read [OF inv q s basic(1,2) c basic(3)])
    fix r a'
    assume o: "outcome_of w' i = Some r" "next_call C i (local_state w i) = Some (True, ReadWord a' k)" "reads_once (ReadWord a' k)"
    then have "is_ro x" "a' = a" using nc shape [OF _ _ bc] by auto
    then show "outcome_of w i = Some r \<or> body_result (k (decode (snapshot zero_words (tm wl) (gv (tm w)) a'))) = Some r"
      using out o(1) by simp
  qed (use nc shape [OF _ _ bc] in auto)
  show ?thesis
  proof (cases "pc_at (tm w) i")
    case (PreVersion a sz j)
    then have "pc t = PreLocked a sz j (vl_getVersion (stripe (sh (tm w)) (a + of_nat j)))" using st by auto
    then show ?thesis by (intro silent) (use basic in \<open>simp split: if_splits\<close>)
  next
    case (PreLocked a sz j v)
    then have z: "sz = 8" "j = 0" using rp by simp_all
    have "word_at (tm w) a = snapshot zero_words (tm wl) (gv (tm w)) a" if "txn t \<noteq> None"
      using free_word_final [OF reach D(1) aligned, of a v] that PreLocked z st by (auto simp: abort_def split: if_splits)
    moreover have "seen w' i = word_at (tm w) a" using PreLocked z by (simp add: w')
    ultimately show ?thesis
      using PreLocked st z
      by (intro step [of a]) (auto simp: basic abort_def split: if_splits)
  next
    case (CopyWord a sz j v)
    then have z: "sz = 8" "j = 0" using rp by simp_all
    have b: "pc t = PostVersion a 8 0 v" "buf t = [word_at (tm w) a]" if "is_ro x"
      using CopyWord st z rp that D(3) by (auto simp: word_at_def Let_def)
    have "word_at (tm w) a = seen w i \<or> word_at (tm w) a = snapshot zero_words (tm wl) (gv (tm w)) a"
      if "unat v = ver (tm w) (lock_index a)"
      using rd CopyWord z that written_word_final [OF reach D(1) aligned, of a v] by auto
    then show ?thesis
      using CopyWord z b x(1) by (intro step [of a]) (auto simp: basic c split: if_splits)
  next
    case (PostVersion a sz j v)
    then show ?thesis
      using st rp x(1) by (intro silent) (auto simp: basic c ver_def lock_version_def split: if_splits)
  next
    case (PostLocked a sz j v nv)
    then show ?thesis
      using st rp x(1) by (intro silent) (auto simp: basic c abort_def read_next_def Let_def split: if_splits)
  qed (use rp x(2) in auto)
qed

text \<open>The access at which a read-write call may take effect.\<close>

lemma simulated_end_access:
  assumes inv: "world_inv C w" "seen_inv w" and q: "quiet_step i w w'" and s: "simulated C \<sigma>0 ls0 wl w"
    and inv': "world_inv C w'" and fu: "future w wl" "future w' wl" and wl: "world_inv C wl"
    and wb: "well_behaved C \<sigma>0 ls0" and c: "calls w i = Ending r n" and x: "txn (th (tm w) i) = Some x"
    and ea: "end_access i (Tau sp rs hs) p r n w = Some w'" and nc: "next_call C i (local_state w i) = Some (ro, p)"
  shows "simulated C \<sigma>0 ls0 wl w'"
proof -
  obtain m where S: "local_state w' = local_state w" "calls w' = (calls w)(i := Ending r m)" "\<not> ro"
    "drawn w' m = (if m = 0 then drawn w 0 else Some (p, r, tx_segs w i))"
    "gv (tm w') = max (gv (tm w)) m" "m = n \<or> m = gv (tm w) + 1"
    "m \<noteq> n \<Longrightarrow> clog (sh (tm w)) n = None \<and> stamp_of (pc_at (tm w) i) = None"
    by (rule end_access_world [OF inv(1) c x ea nc]) metis
  have n_le: "n \<le> gv (tm w)"
    using world_invD(5) [OF inv(1), of i] c by (cases "n = 0") (auto simp: stamp_inv_def)
  show ?thesis
  proof (cases "m = n")
    case True
    then show ?thesis
      by (intro simulated_silent [OF inv q s]) (use S n_le c nc in auto)
  next
    case False
    then have m: "m = Suc (gv (tm w))" and gv: "gv (tm w') = Suc (gv (tm w))" using S(5,6) by simp_all
    have cn: "clog (sh (tm wl)) n = None"
      using future_commit [OF inv(1) fu(1) c n_le] S(7) [OF False] by (cases "clog (sh (tm wl)) n") auto
    have sane: "sane_upto wl (gv (tm w))" using s by (simp add: simulated_def)
    have d: "drawn wl m = Some (p, r, tx_segs w i)" using fu(2) S(4) gv m by (simp add: future_def)
    have nc': "next_call C i (local_state w i) = Some (False, p)" using nc S(3) by simp
    have prior: "choices C w \<pi>" "\<pi> i = None" if ch: "choices C w' \<pi>" for \<pi>
    proof -
      show none: "\<pi> i = None"
      proof (cases "\<pi> i")
        case (Some r')
        then show ?thesis using choicesD [OF ch Some] S(1) nc' by auto
      qed
      show "choices C w \<pi>"
        unfolding choices_def
      proof (intro allI impI)
        fix j r'
        assume j: "\<pi> j = Some r'"
        then have "j \<noteq> i" using none by auto
        then show "(\<exists>p. next_call C j (local_state w j) = Some (True, p) \<and> reads_once p) \<and> outcome_of w j = Some r'"
          using choicesD [OF ch j] S(1) outcome_other [OF inv q, of j r'] by simp
      qed
    qed
    have run: "\<exists>n \<le> gv (tm w). atomic_run C \<sigma>0 ls0 n (store_at wl (gv (tm w))) (ahead C wl \<pi> w)"
      and here: "ahead C wl \<pi> w i = local_state w i" if "choices C w' \<pi>" for \<pi>
      using s prior [OF that] c cn by (auto simp: simulated_def ahead_def linearized_def)
    show ?thesis
    proof (cases "clog (sh (tm wl)) m")
      case None
      have "ahead C wl \<pi> w' = ahead C wl \<pi> w" if "choices C w' \<pi>" for \<pi>
        using ahead_upd [OF S(1,2), of \<pi> C wl] prior(2) [OF that] here [OF that] None
        by (simp add: linearized_def fun_upd_idem)
      then show ?thesis
        using run sane None store_at_Suc_none [of wl "gv (tm w)"] m
        unfolding simulated_def gv by (metis le_SucI)
    next
      case (Some d')
      have safe: "safe p (store_at wl (gv (tm w)))"
      proof -
        obtain l where "atomic_run C \<sigma>0 ls0 l (store_at wl (gv (tm w))) (ahead C wl (\<lambda>_. None) w)"
          using s choices_None unfolding simulated_def by blast
        moreover have "ahead C wl (\<lambda>_. None) w i = local_state w i"
          using c cn by (simp add: ahead_def linearized_def)
        ultimately show ?thesis using wb nc' unfolding well_behaved_def by metis
      qed
      note A = commit_atomic [OF wl Some [unfolded m] d [unfolded m] sane safe]
      have "ahead C wl \<pi> w' = (ahead C wl \<pi> w)(i := got C i (local_state w i) r)" if "choices C w' \<pi>" for \<pi>
        using ahead_upd [OF S(1,2), of \<pi> C wl] prior(2) [OF that] Some by (simp add: linearized_def)
      moreover have "\<exists>l \<le> Suc (gv (tm w)). atomic_run C \<sigma>0 ls0 l (store_at wl (Suc (gv (tm w))))
          ((ahead C wl \<pi> w)(i := got C i (local_state w i) r))" if ch: "choices C w' \<pi>" for \<pi>
      proof -
        obtain l where l: "l \<le> gv (tm w)" "atomic_run C \<sigma>0 ls0 l (store_at wl (gv (tm w))) (ahead C wl \<pi> w)"
          using run [OF ch] by blast
        have "atomic_run C \<sigma>0 ls0 (Suc l) (store_at wl (Suc (gv (tm w))))
            ((ahead C wl \<pi> w)(i := got C i (local_state w i) r))"
          using run_write [OF l(2), of i p r] nc' here [OF that] A(1) by simp
        then show ?thesis using l(1) by auto
      qed
      ultimately show ?thesis using A(2) unfolding simulated_def gv by simp
    qed
  qed
qed

text \<open>A step of the rest of the program is the same step over the atomic memory.\<close>

lemma simulated_other:
  assumes inv: "world_inv C w" and s: "simulated C \<sigma>0 ls0 wl w" and o: "other_step C D f g"
    and D: "\<And>j. j \<in> D \<Longrightarrow> local_state w j = f j \<and> calls w j = Outside"
  shows "simulated C \<sigma>0 ls0 wl (w\<lparr>local_state := \<lambda>j. if j \<in> D then g j else local_state w j\<rparr>)"
    (is "simulated C \<sigma>0 ls0 wl ?w")
  unfolding simulated_def
proof (intro conjI allI impI)
  show "sane_upto wl (gv (tm ?w))" using s by (simp add: simulated_def)
  fix \<pi>
  assume ch: "choices C ?w \<pi>"
  have out: "calls w j = Outside" if "j \<in> D" for j using D [OF that] by simp
  have none: "\<pi> j = None" if "j \<in> D" for j
  proof (cases "\<pi> j")
    case (Some r)
    then show ?thesis using choicesD [OF ch Some] out [OF that] by simp
  qed
  have "choices C w \<pi>"
    unfolding choices_def
  proof (intro allI impI)
    fix j r
    assume j: "\<pi> j = Some r"
    then have "j \<notin> D" using none by auto
    then show "(\<exists>p. next_call C j (local_state w j) = Some (True, p) \<and> reads_once p) \<and> outcome_of w j = Some r"
      using choicesD [OF ch j] by simp
  qed
  then obtain n where n: "n \<le> gv (tm w)" "atomic_run C \<sigma>0 ls0 n (store_at wl (gv (tm w))) (ahead C wl \<pi> w)"
    using s unfolding simulated_def by blast
  have here: "ahead C wl \<pi> w j = local_state w j" if "j \<in> D" for j
    using none [OF that] out [OF that] by (simp add: ahead_def linearized_def)
  have "ahead C wl \<pi> ?w = (\<lambda>j. if j \<in> D then g j else ahead C wl \<pi> w j)"
    using none out by (auto simp: ahead_def linearized_def fun_eq_iff cong: option.case_cong)
  moreover have "atomic_run C \<sigma>0 ls0 n (store_at wl (gv (tm w))) (\<lambda>j. if j \<in> D then g j else ahead C wl \<pi> w j)"
    by (rule run_other [OF n(2) o]) (use here D in simp)
  ultimately show "\<exists>n \<le> gv (tm ?w). atomic_run C \<sigma>0 ls0 n (store_at wl (gv (tm ?w))) (ahead C wl \<pi> ?w)"
    using n(1) by auto
qed

end
