(* ===== verification/TL2_Composition.thy ===== *)
theory TL2_Composition
  imports TL2_Linearize
begin

text \<open>
  The composition of the client layer and the concurrent library: whatever the threads' code does,
  as long as its read-write bodies touch valid words when run one after the other, the composed
  system behaves as that code over an atomic memory.
\<close>

section \<open>Every step\<close>

lemma body_shape:
  assumes "world_inv C w" "calls w i = Body q" "next_call C i (local_state w i) = Some (True, p)" "reads_once p"
  shows "(\<exists>a k. q = ReadWord a k) \<or> (\<exists>r. q = final r)"
proof -
  obtain x :: Transaction and p' where x: "next_call C i (local_state w i) = Some (is_ro x, p')"
    "is_ro x \<Longrightarrow> reads_once p' \<Longrightarrow> q = p' \<or> (\<exists>r. body_result q = Some r)"
    using running_Body [OF assms(1,2)] by blast
  have "is_ro x" "p' = p" using x(1) assms(3) by simp_all
  then have "q = p \<or> (\<exists>r. body_result q = Some r)" using x(2) assms(4) by simp
  then show ?thesis using reads_once_shape [OF assms(4)] unfolding body_result_final by blast
qed

lemma final_simps [simp]:
  "final r \<noteq> ReadWord a k" "final r \<noteq> prog.WriteWord a v q" "final r \<noteq> AllocSeg sz f" "final r \<noteq> FreeSeg a q"
  "body_result (final r) = Some r"
  by (cases r; simp)+

lemma simulated_step:
  assumes inv: "world_inv C w" "seen_inv w" and z: "zero_outside w" and st: "world_step C w w'"
    and inv': "world_inv C w'" and fu: "future w' wl" and wl: "world_inv C wl"
    and wb: "well_behaved C \<sigma>0 ls0" and s: "simulated C \<sigma>0 ls0 wl w"
  shows "simulated C \<sigma>0 ls0 wl w'"
  using st
proof (cases rule: world_step.cases)
  case (step_other D f g)
  show ?thesis unfolding step_other(1) by (rule simulated_other [OF inv(1) s step_other(3,4)])
next
  case (step_thread i inp)
  have fw: "future w wl" by (rule future_step [OF inv(1) z inv(2) st fu])
  have q: "quiet_step i w w'" by (rule thread_step_quiet [OF inv(1) z step_thread])
  note silent = simulated_silent [OF inv q s]
  obtain ro p where nc: "next_call C i (local_state w i) = Some (ro, p)"
    and cs: "call_step C i inp ro p (calls w i) w = Some w'"
    using thread_step_cases [OF step_thread] by blast
  show ?thesis
  proof (cases "calls w i")
    case Outside
    show ?thesis
    proof (cases "inp = Refuse")
      case True
      then show ?thesis using simulated_refused [OF inv q s Outside _ nc] Outside cs by simp
    next
      case False
      then obtain s' where b: "exec i (Begin ro) (tm w) = Some s'" "w' = enter i (Body p) w s'"
        using Outside cs by auto
      show ?thesis
        by (rule silent) (use b exec_begin [OF b(1)] Outside nc reads_once_shape [of p] in
            \<open>auto simp: enter_def gv_def linearized_def\<close>)
    qed
  next
    case (Body q')
    then have "body_access i inp q' w = Some w'" using cs by simp
    then show ?thesis
    proof (cases rule: body_access_cases)
      case (body_read a k s')
      show ?thesis
        by (rule silent) (use body_read exec_read [OF body_read(2)] Body in
            \<open>auto simp: enter_def gv_def linearized_def\<close>)
    next
      case (body_write a v q2 s')
      have "sh s' = sh (tm w)" using exec_write [OF body_write(2) world_invD(3) [OF inv(1)]] by metis
      then show ?thesis
        using body_shape [OF inv(1) Body] body_write Body
        by (intro silent) (auto simp: enter_def gv_def linearized_def dest: sym)
    next
      case (body_alloc a sz k)
      note w' = alloc_body [OF world_invD(3) [OF inv(1)] body_alloc(2) z body_alloc(3)]
      show ?thesis
        using body_shape [OF inv(1) Body] body_alloc(1) Body
        by (intro silent) (auto simp: w' enter_def linearized_def dest: sym)
    next
      case body_nomem
      then show ?thesis
        using body_shape [OF inv(1) Body] Body
        by (intro silent) (auto simp: enter_def linearized_def dest: sym)
    next
      case body_free
      then show ?thesis
        using body_shape [OF inv(1) Body] Body
        by (intro silent) (auto simp: enter_def linearized_def dest: sym)
    next
      case (ended r ws_order s')
      have "sh s' = sh (tm w)" using exec_end [OF ended(2)] by metis
      then show ?thesis
        using ended Body clog_0 [OF wl]
        by (intro silent) (auto simp: enter_def gv_def linearized_def)
    qed
  next
    case (Reading k)
    then have "call_step C i inp ro p (Reading k) w = Some w'" using cs by simp
    then show ?thesis
    proof (cases rule: reading_step_cases)
      case retry
      show ?thesis by (rule silent) (use retry Reading in \<open>auto simp: retry_def linearized_def\<close>)
    next
      case (got x)
      show ?thesis by (rule silent) (use got Reading in \<open>auto simp: enter_def linearized_def\<close>)
    next
      case access
      then show ?thesis using simulated_read_access [OF inv q s fw Reading] by blast
    qed
  next
    case (Ending r n)
    then have "call_step C i inp ro p (Ending r n) w = Some w'" using cs by simp
    then show ?thesis
    proof (cases rule: ending_step_cases)
      case hand_back
      then show ?thesis using simulated_hand_back [OF inv q s fw Ending _ _ _ nc] by blast
    next
      case (retry v)
      have "pc_at (tm w) i = Idle" by (rule idle_unless_running [OF world_invD(1) [OF inv(1)] retry(1)])
      moreover have "n \<le> gv (tm w)"
        using world_invD(5) [OF inv(1), of i] Ending by (cases "n = 0") (auto simp: stamp_inv_def)
      ultimately have "clog (sh (tm wl)) n = None"
        using future_commit [OF inv(1) fw Ending] ending_unlogged [OF inv(1) retry(1) Ending retry(2)]
        by (cases "clog (sh (tm wl)) n") auto
      then show ?thesis
        by (intro silent) (use retry Ending in \<open>auto simp: retry_def linearized_def\<close>)
    next
      case (terminate e)
      show ?thesis by (rule silent) (use terminate Ending in auto)
    next
      case access
      then show ?thesis using simulated_end_access [OF inv q s inv' fw fu wl wb Ending _ _ nc] by blast
    qed
  qed
qed

section \<open>Runs\<close>

lemma stamp_words_live:
  assumes "world_inv C w"
  shows "stamp_words w k \<subseteq> all_words w"
proof (cases "clog (sh (tm w)) k")
  case (Some c)
  then have "commit_inv w k c" using assms by (simp add: world_inv_def)
  then show ?thesis by (auto simp: stamp_words_def commit_inv_def split: if_splits)
qed (simp add: stamp_words_def split: option.split)

lemma words_upto_live: "world_inv C w \<Longrightarrow> words_upto w n \<subseteq> all_words w"
  using stamp_words_live [of C w] tx_segs_all_words(2) [of w] by (fastforce simp: words_upto_def)

lemma words_upto_aligned:
  assumes "world_inv C w" "\<And>a. a \<in> first_words w \<Longrightarrow> word_aligned 8 a" "a \<in> words_upto w n"
  shows "word_aligned 8 a"
proof -
  have "word_aligned 8 a" if "a \<in> stamp_words w k" for k
  proof (cases "clog (sh (tm w)) k")
    case (Some c)
    then have "commit_inv w k c" using assms(1) by (simp add: world_inv_def)
    then show ?thesis using that by (auto simp: stamp_words_def commit_inv_def aligned_segs_def split: if_splits)
  qed (use that in \<open>simp add: stamp_words_def split: option.splits\<close>)
  then show ?thesis using assms(2,3) by (auto simp: words_upto_def)
qed

text \<open>Memory outside all segments stays zero: commits write valid words only.\<close>

lemma zero_outside_sane:
  assumes inv: "world_inv C w" and sane: "sane_upto w (gv (tm w))"
  shows "zero_outside w"
  unfolding zero_outside_def
proof (intro allI impI)
  fix a
  assume a: "word_aligned 8 a" "a \<notin> all_words w"
  have "memory_ok zero_words (tm w)" "word_aligned (word_size (sh (tm w))) a"
    using inv a(1) by (simp_all add: world_inv_def tl2_inv_def)
  then obtain n where n: "word_at (tm w) a = snapshot zero_words (tm w) n a" using word_is_snapshot by blast
  have "a \<notin> dom (c_writes c)" if "clog (sh (tm w)) k = Some c" for k c
  proof -
    have "k \<le> gv (tm w)" using logged_le_gv [OF inv] that by auto
    then have "dom (c_writes c) \<subseteq> words_upto w (gv (tm w))" using sane that unfolding sane_upto_def by blast
    then show ?thesis using words_upto_live [OF inv] a(2) by blast
  qed
  then show "word_at (tm w) a = replicate 8 0"
    using n snap_source [of zero_words "clog (sh (tm w))" n a] by auto
qed

abbreviation fresh_store :: "addr set \<Rightarrow> store" where
  "fresh_store A \<equiv> (A, \<lambda>_. 0)"

lemma contents_zero: "contents A zero_words = fresh_store A"
  by (auto simp: contents_def)

lemma simulated_start:
  fixes wl :: "('l, 'a) world"
  assumes fu: "future (new_world clock A ls0) wl"
  shows "simulated C (fresh_store A) ls0 wl (new_world clock A ls0)"
proof -
  let ?w = "new_world clock A ls0 :: ('l, 'a) world"
  have gv: "gv (tm ?w) = unat clock" by (simp add: new_world_def init_sys_def gv_def)
  have r: "reach supported (tm ?w) (tm wl)" using fu by (simp add: future_def)
  then have "supported (tm ?w)" by (induction rule: reach.induct) auto
  then have "tl2_inv zero_words (tm ?w)" using world_inv_new world_invD(1) by blast
  note st = settled [OF r this]
  have none: "clog (sh (tm wl)) k = None" if "k \<le> unat clock" for k
  proof (cases "clog (sh (tm wl)) k")
    case (Some c)
    then have "clog (sh (tm ?w)) k = Some c \<or> to_come (tm ?w) k c" using st that gv by auto
    then show ?thesis by (simp add: new_world_def init_sys_def to_come_def idle_thread_def)
  qed
  have sane: "sane_upto wl (unat clock)" using none by (simp add: sane_upto_def)
  have words: "words_upto wl (unat clock) = A"
  proof -
    have "stamp_words wl k = {}" if "k \<le> unat clock" for k
      using none [OF that] by (simp add: stamp_words_def split: option.split)
    moreover have "first_words wl = A" using fu by (simp add: future_def new_world_def)
    ultimately show ?thesis by (simp add: words_upto_def)
  qed
  have "snapshot zero_words (tm wl) (unat clock) a = replicate 8 0" for a
  proof -
    have "snapshot zero_words (tm wl) (unat clock) a = snapshot zero_words (tm wl) 0 a"
      by (rule snap_range) (use none in \<open>auto simp: writes_in_def\<close>)
    then show ?thesis by simp
  qed
  then have store: "store_at wl (unat clock) = fresh_store A"
    by (simp add: store_at_def words contents_def fun_eq_iff)
  have "ahead C wl \<pi> ?w = ls0" if ch: "choices C ?w \<pi>" for \<pi>
  proof
    fix i
    have "\<pi> i = None" using choicesD [OF ch, of i] by (cases "\<pi> i") (auto simp: new_world_def)
    then show "ahead C wl \<pi> ?w i = ls0 i" by (simp add: ahead_def linearized_def new_world_def)
  qed
  then show ?thesis
    using sane run_start [of C "fresh_store A" ls0] unfolding simulated_def gv store by auto
qed

lemma seen_inv_new: "seen_inv (new_world clock A ls)"
  by (simp add: seen_inv_def new_world_def init_sys_def idle_thread_def)

lemma zero_outside_new: "zero_outside (new_world clock A ls)"
  by (simp add: zero_outside_def new_world_def init_sys_def word_at_def load_bytes_zero)

text \<open>Every state of a run satisfies the invariants and is compared with the atomic system against
  every later state.\<close>

lemma world_reach_simulated:
  assumes "world_reach (\<lambda>w. supported (tm w)) C (new_world clock A ls0) w" "well_behaved C (fresh_store A) ls0"
  shows "world_inv C w \<and> seen_inv w \<and> zero_outside w \<and> first_words w = A \<and>
    (\<forall>wl. future w wl \<longrightarrow> world_inv C wl \<longrightarrow> simulated C (fresh_store A) ls0 wl w)"
  using assms(1)
proof (induction rule: world_reach.induct)
  case world_start
  then show ?case
    using world_inv_new simulated_start seen_inv_new zero_outside_new by (auto simp: new_world_def)
next
  case (world_move w w')
  then have I: "world_inv C w" "seen_inv w" "zero_outside w" and A: "first_words w = A"
    and sim: "\<And>wl. future w wl \<Longrightarrow> world_inv C wl \<Longrightarrow> simulated C (fresh_store A) ls0 wl w"
    by auto
  have inv': "world_inv C w'" by (rule world_step_inv [OF I(1,3) world_move.hyps(2,3)])
  have step: "simulated C (fresh_store A) ls0 wl w'" if "future w' wl" "world_inv C wl" for wl
    by (rule simulated_step [OF I world_move.hyps(2) inv' that assms(2)])
      (rule sim [OF future_step [OF I(1,3,2) world_move.hyps(2) that(1)] that(2)])
  have "simulated C (fresh_store A) ls0 w' w'" by (rule step [OF future_refl [OF world_move.hyps(3)] inv'])
  then have "zero_outside w'" by (intro zero_outside_sane [OF inv']) (simp add: simulated_def)
  moreover have "seen_inv w'" "first_words w' = A"
    using world_step_tm [OF I(1,3,2) world_move.hyps(2)] A by simp_all
  ultimately show ?case using inv' step by blast
qed

text \<open>What holds of a reachable state: the atomic system has a run to its memory and its threads.\<close>

definition agrees :: "('l, 'a) client_code \<Rightarrow> store \<Rightarrow> (nat \<Rightarrow> 'l) \<Rightarrow> ('l, 'a) world \<Rightarrow> bool" where
  "agrees C \<sigma> ls w \<longleftrightarrow>
     (\<forall>i. ls i = local_state w i \<or>
        (\<exists>r k. calls w i = Ending r k \<and> clog (sh (tm w)) k \<noteq> None \<and> ls i = got C i (local_state w i) r)) \<and>
     ((\<forall>i. \<not> decided (pc_at (tm w) i)) \<longrightarrow> (\<forall>a \<in> fst \<sigma>. decode (word_at (tm w) a) = snd \<sigma> a))"

lemma linearization:
  assumes "world_reach (\<lambda>w. supported (tm w)) C (new_world clock A ls0) w"
    and "\<forall>a \<in> A. word_aligned 8 a" "well_behaved C (fresh_store A) ls0"
  shows "\<exists>n \<le> gv (tm w). \<exists>\<sigma> ls. atomic_run C (fresh_store A) ls0 n \<sigma> ls \<and> agrees C \<sigma> ls w"
proof -
  note R = world_reach_simulated [OF assms(1,3)]
  have D: "world_inv C w" "tl2_inv zero_words (tm w)" "supported (tm w)" "word_size (sh (tm w)) = 8"
    using R world_invD by blast+
  have s: "simulated C (fresh_store A) ls0 w w" using R future_refl [OF D(3)] by blast
  then have sane: "sane_upto w (gv (tm w))" by (simp add: simulated_def)
  obtain n where n: "n \<le> gv (tm w)" "atomic_run C (fresh_store A) ls0 n (store_at w (gv (tm w))) (ahead C w (\<lambda>_. None) w)"
    using s choices_None unfolding simulated_def by blast
  have "first_words w = A" using R by blast
  then have al: "word_aligned 8 a" if "a \<in> words_upto w (gv (tm w))" for a
    using words_upto_aligned [OF D(1) _ that] assms(2) by simp
  have "decode (word_at (tm w) a) = snd (store_at w (gv (tm w))) a"
    if "\<forall>i. \<not> decided (pc_at (tm w) i)" "a \<in> fst (store_at w (gv (tm w)))" for a
  proof -
    have "word_aligned 8 a" using al that(2) by (simp add: store_at_def)
    moreover have "ver (tm w) (lock_index a) \<le> gv (tm w)" using D(2) by (simp add: tl2_inv_def locks_ok_def)
    ultimately have "word_at (tm w) a = snapshot zero_words (tm w) (gv (tm w)) a"
      by (intro quiet_word [OF D(2)]) (use that D(4) in auto)
    then show ?thesis using store_at_read [OF sane] by simp
  qed
  moreover have "ahead C w (\<lambda>_. None) w i = local_state w i \<or>
      (\<exists>r k. calls w i = Ending r k \<and> clog (sh (tm w)) k \<noteq> None \<and>
         ahead C w (\<lambda>_. None) w i = got C i (local_state w i) r)" for i
    by (cases "calls w i") (auto simp: ahead_def linearized_def)
  ultimately have "agrees C (store_at w (gv (tm w))) (ahead C w (\<lambda>_. None) w) w"
    by (simp add: agrees_def)
  with n show ?thesis by blast
qed

section \<open>Schedules\<close>

fun play :: "('l, 'a) client_code \<Rightarrow> (nat \<times> input) list \<Rightarrow> ('l, 'a) world \<Rightarrow> ('l, 'a) world option" where
  "play C [] w = (if supported (tm w) then Some w else None)"
| "play C ((i, inp) # sched) w =
     (if supported (tm w)
      then case thread_step C i inp w of None \<Rightarrow> None | Some w' \<Rightarrow> play C sched w'
      else None)"

lemma play_supported: "play C sched w = Some w' \<Longrightarrow> supported (tm w)"
  by (cases sched) (auto split: if_splits)

lemma world_reach_trans: "world_reach P C w1 w2 \<Longrightarrow> world_reach P C w0 w1 \<Longrightarrow> world_reach P C w0 w2"
  by (induction rule: world_reach.induct) (auto intro: world_reach.intros)

lemma play_reach: "play C sched w = Some w' \<Longrightarrow> world_reach (\<lambda>w. supported (tm w)) C w w'"
proof (induction C sched w rule: play.induct)
  case (1 C w)
  then show ?case by (auto intro: world_start split: if_splits)
next
  case (2 C i inp sched w)
  then obtain w1 where w1: "thread_step C i inp w = Some w1" "play C sched w1 = Some w'" "supported (tm w)"
    by (auto split: if_splits option.splits)
  then have "world_reach (\<lambda>w. supported (tm w)) C w1 w'" using 2 by simp
  moreover have "world_reach (\<lambda>w. supported (tm w)) C w w1"
    using w1 play_supported [OF w1(2)] by (auto intro: world_reach.intros world_step.intros)
  ultimately show ?case by (rule world_reach_trans)
qed

abbreviation go :: input where
  "go \<equiv> Go False [] []"

lemmas play_simps = thread_step_def enter_def retry_def hand_back_def splice_def read_access_def end_access_def
  new_world_def init_sys_def idle_thread_def exec_simps gv_def word_at_def supported_fit encode_def

text \<open>One thread adds one to a word.\<close>

definition adder :: "(nat, 64 word) client_code" where
  "adder =
     \<lparr>next_call = (\<lambda>i l. if l = 0 then None
        else Some (False, ReadWord 8 (\<lambda>v. prog.WriteWord 8 (v + 1) (Done v)))),
      got = (\<lambda>i l r. l - 1), other_step = (\<lambda>D f g. False)\<rparr>"

definition adder_sched :: "(nat \<times> input) list" where
  "adder_sched = [(0, go), (0, go), (0, go), (0, go), (0, go), (0, go), (0, go), (0, go), (0, go),
     (0, Go False [8] []), (0, go), (0, go), (0, go), (0, go), (0, go), (0, go)]"

lemma adder_plays:
  "\<exists>w. play adder adder_sched (new_world 0 {8} (\<lambda>_. 1)) = Some w \<and> local_state w 0 = 0 \<and> local_state w 1 = 1 \<and>
      decode (word_at (tm w) 8) = 1"
  by (simp add: play_simps adder_def adder_sched_def, presburger)

lemma adder_simps:
  "next_call adder i l = Some (ro, p) \<longleftrightarrow> l \<noteq> 0 \<and> \<not> ro \<and> p = ReadWord 8 (\<lambda>v. prog.WriteWord 8 (v + 1) (Done v))"
  "\<not> other_step adder D f g"
  by (auto simp: adder_def)

lemma adder_words: "atomic_run adder (fresh_store {8}) ls0 n \<sigma> ls \<Longrightarrow> fst \<sigma> = {8}"
proof (induction rule: atomic_run.induct)
  case (run_write n \<sigma> ls i p r \<sigma>')
  then show ?case by (simp add: adder_simps set_word_def)
qed simp_all

lemma adder_safe: "well_behaved adder (fresh_store {8}) ls0"
  using adder_words by (force simp: well_behaved_def adder_simps set_word_def)

section \<open>The theorem\<close>

text \<open>C1: composition. Threads whose code calls \<open>transactional()\<close> over the concurrent library, every
  access of every thread interleaved and every choice of the allocator and of the compare-and-swaps
  allowed, behave as the same code over a memory that runs each body in one go. In every state
  reached, the atomic system has a run to a store and to the threads' states, except that a call
  that has committed and not yet returned has its result already; and whenever no thread is writing
  back, the words in shared memory are those of the store. This holds of the runs whose states are all
  \<open>supported\<close>: the clock stays below \<open>2 ^ 31\<close>, and no transaction has two written words on one stripe,
  that is, a multiple of 10000 bytes apart; outside, commits need not replay in any order
  (\<open>TL2_Races\<close>). And it holds of code that is \<open>well_behaved\<close>: over the atomic memory its read-write bodies
  touch only words that exist. Of a read-only body of more than one read the atomic system says
  nothing but that it returns something.\<close>

theorem clients_run_atomically:
  assumes "world_reach (\<lambda>w. supported (tm w)) C (new_world clock A ls0) w"
    and "\<forall>a \<in> A. word_aligned 8 a" "well_behaved C (fresh_store A) ls0"
  shows "\<exists>n \<le> gv (tm w). \<exists>\<sigma> ls. atomic_run C (fresh_store A) ls0 n \<sigma> ls \<and> agrees C \<sigma> ls w"
  by (rule linearization [OF assms])

theorem clients_run_atomically_witness:
  "\<exists>w \<sigma> ls n. play adder adder_sched (new_world 0 {8} (\<lambda>_. 1)) = Some w \<and> local_state w 0 = 0 \<and>
    decode (word_at (tm w) 8) = 1 \<and> atomic_run adder (fresh_store {8}) (\<lambda>_. 1) n \<sigma> ls \<and> agrees adder \<sigma> ls w"
proof -
  obtain w where w: "play adder adder_sched (new_world 0 {8} (\<lambda>_. 1)) = Some w" "local_state w 0 = 0"
    "decode (word_at (tm w) 8) = 1"
    using adder_plays by blast
  have "\<forall>a \<in> {8}. word_aligned 8 a" by (simp add: word_aligned_def)
  from clients_run_atomically [OF play_reach [OF w(1)] this adder_safe] w show ?thesis by blast
qed

end
