(* ===== verification/Client_Theorems.thy ===== *)
theory Client_Theorems
  imports Seq_Client
begin

text \<open>
  What \<open>transactional\<close> (\<open>grading/transactional.hpp\<close>) guarantees on the library of
  \<open>394984/tm.cpp\<close>, when one client runs at a time.
\<close>

lemma encode_decode:
  assumes "length bs = 8"
  shows "encode (decode bs) = bs"
proof (rule nth_equalityI)
  fix i assume i: "i < length (encode (decode bs))"
  then have i8: "i < 8" by simp
  have "encode (decode bs) ! i = ucast (drop_bit (8 * i) (decode bs))"
    using i8 unfolding encode_def by (subst nth_map) simp_all
  also have "\<dots> = bs ! i"
  proof (rule bit_word_eqI)
    fix n assume n: "n < LENGTH(8)"
    then have "(8 * i + n) div 8 = i" "(8 * i + n) mod 8 = n" by simp_all
    then show "bit (ucast (drop_bit (8 * i) (decode bs)) :: byte) n = bit (bs ! i) n"
      using n i8 assms by (simp add: bit_ucast_iff bit_drop_bit_eq bit_decode)
  qed
  finally show "encode (decode bs) ! i = bs ! i" .
qed (use assms in simp)

text \<open>A word survives the trip through the library's byte buffers, in both directions.\<close>

lemma word_bytes_roundtrip:
  "decode (encode v) = v \<and> (length bs = 8 \<longrightarrow> encode (decode bs) = bs)"
  by (simp add: encode_decode)

lemma word_bytes_roundtrip_witness:
  "encode (decode [1, 2, 3, 4, 5, 6, 7, 8]) = [1, 2, 3, 4, 5, 6, 7, 8 :: byte]"
  using word_bytes_roundtrip [of 0 "[1, 2, 3, 4, 5, 6, 7, 8]"] by simp

section \<open>A client with a region\<close>

definition demo_env :: environment where
  "demo_env = \<lparr>pick_region = (\<lambda>_. 16), pick_locks = (\<lambda>_. 32), pick_txn = (\<lambda>_. 48), pick_seg = (\<lambda>_ _. 0), spurious_at = (\<lambda>_ _. False),
     order_of = (\<lambda>_. []), stack_word = 65536\<rparr>"

lemma demo_ready: "region_ready demo_env 16 demo_heap"
proof -
  have "heap_ok demo_heap" using client_heap_ok [OF demo_client_heap] .
  then show ?thesis
    by (auto simp: region_ready_def unlocked_region_def word_blocks_def demo_env_def word_aligned_def
        overlaps_def split: if_splits)
qed

lemma demo_calm: "seq_calm demo_env 16 1 demo_heap"
  by (simp add: seq_calm_def demo_env_def quiet_def lock_version_def)

lemma demo_words: "a \<in> seg_words 4096 64 \<Longrightarrow> a \<in> fst (seq_committed 16 demo_heap)"
  by (simp add: seq_committed_def contents_def words_of_def)

definition demo_body :: "unit prog" where
  "demo_body = ReadWord 4096 (\<lambda>v. WriteWord 4104 (v + 1) (Done ()))"

lemma demo_safe: "safe demo_body (seq_committed 16 demo_heap)"
proof -
  have "(4096 :: addr) \<in> seg_words 4096 64" "(4104 :: addr) \<in> seg_words 4096 64"
    unfolding seg_words_def by (rule image_eqI [of _ _ 0]; simp) (rule image_eqI [of _ _ 1]; simp)
  then show ?thesis using demo_words by (simp add: demo_body_def set_word_def)
qed

text \<open>C21: atomicity of \<open>transactional\<close>. Whatever the allocator, the iteration orders and spurious
  failures do, if the retry loop returns, the body has run exactly once in one go on the
  committed memory: completely when it returns or throws an exception of its own, not at all
  when the transaction could not begin or the program was terminated; aborted attempts have
  left no trace, and no \<open>TransactionRetry\<close> escapes.\<close>

theorem transactional_runs_atomically:
  assumes "region_ready env sh h" "ro \<longrightarrow> reads_only p" "safe p (seq_committed sh h)"
    and "transactional (seq_memory env sh st len) ro p h = Some (r, h')"
  shows "region_ready env sh h' \<and>
    (case r of
       Returned v \<Rightarrow> atomically p (seq_committed sh h) (Inr v) (seq_committed sh h')
     | Thrown e \<Rightarrow> e \<noteq> TransactionRetry \<and>
         (e = TransactionBegin \<and> seq_committed sh h' = seq_committed sh h \<or>
          atomically p (seq_committed sh h) (Inl e) (seq_committed sh h'))
     | Terminated \<Rightarrow> seq_committed sh h' = seq_committed sh h)"
  using seq.transactional_atomic [OF assms(4,1-3)]
  by (auto simp: seq.attempted_def is_retry_def split: outcome.splits exn.splits)

text \<open>Without contention nothing is retried. When no compare-and-swap fails spuriously and no
  stripe is newer than the clock, \<open>transactional\<close> returns: the transaction could not be
  allocated, or the first attempt committed and the result is that of the body. An exception
  of the body, a failed allocation for one, commits what the body wrote before.\<close>

theorem uncontended_transactional_commits:
  assumes "region_ready env sh h" "seq_calm env sh (Suc n) h" "ro \<longrightarrow> reads_only p"
    "safe p (seq_committed sh h)"
  shows "\<exists>r h'. transactional (seq_memory env sh st len) ro p h = Some (r, h') \<and> region_ready env sh h' \<and>
    (r = Thrown TransactionBegin \<and> seq_calm env sh (Suc n) h' \<and> seq_committed sh h' = seq_committed sh h \<or>
     seq_calm env sh n h' \<and> (\<exists>q. atomically p (seq_committed sh h) q (seq_committed sh h') \<and>
       r = (case q of Inr v \<Rightarrow> Returned v | Inl e \<Rightarrow> Thrown e)))"
  by (rule calm_seq.transactional_calm [OF assms])

theorem transactional_runs_atomically_witness:
  "\<exists>h'. region_ready demo_env 16 h' \<and>
    (seq_committed 16 h' = seq_committed 16 demo_heap \<or>
     seq_committed 16 h' = set_word 4104 (snd (seq_committed 16 demo_heap) 4096 + 1) (seq_committed 16 demo_heap))"
proof -
  obtain r h' where "transactional (seq_memory demo_env 16 4096 64) False demo_body demo_heap = Some (r, h')"
    using calm_seq.transactional_calm [OF demo_ready _ _ demo_safe, of 0 False 4096 64]
      demo_calm by auto
  from transactional_runs_atomically [OF demo_ready _ demo_safe this] show ?thesis
    by (intro exI [of _ h']) (auto simp: demo_body_def split: outcome.splits)
qed

theorem uncontended_transactional_commits_witness:
  "\<exists>r h'. transactional (seq_memory demo_env 16 4096 64) False demo_body demo_heap = Some (r, h') \<and>
    r \<in> {Thrown TransactionBegin, Returned ()}"
  using uncontended_transactional_commits [OF demo_ready, of 0 False demo_body 4096 64] demo_calm demo_safe
  by (fastforce simp: demo_body_def)

text \<open>C22: an exception other than \<open>TransactionRetry\<close> commits. On a calm region whose allocator
  yields a transaction object but no segment, a body that writes and then allocates ends with
  \<open>TransactionAlloc\<close>, and what it wrote is in the committed memory.\<close>

theorem failed_alloc_commits_writes:
  assumes "region_ready env sh h" "seq_calm env sh (Suc n) h" "a \<in> fst (seq_committed sh h)"
    and "\<And>h sz. pick_seg env h sz = 0"
    and "pick_txn env h \<notin> {0, invalid_tx}" "txns h (pick_txn env h) = None"
  shows "\<exists>h'. transactional (seq_memory env sh st len) False (WriteWord a v (AllocSeg sz k)) h
      = Some (Thrown TransactionAlloc, h') \<and>
    seq_committed sh h' = set_word a v (seq_committed sh h)"
proof -
  let ?tm = "seq_memory env sh st len" and ?t = "pick_txn env h"
  let ?tx = "\<lparr>handle = ?t, aborted = False, tx_ro = False\<rparr>"
  obtain h1 where b: "fn_begin (tl ?tm) (shared ?tm) False h = (?t, h1)"
    using assms(5,6) by (simp add: seq_memory_def seq_library_def tm_begin_def)
  note l1 = seq.begin_law [OF assms(1) b] calm_seq.begin_calm [OF assms(1,2) b]
  then have live1: "txn_live env sh ?t False h1" "seq_view sh ?t h1 = seq_committed sh h"
    "seq_fresh env sh (Suc n) ?t h1"
    using assms(5) by simp_all
  obtain ok h2 where w: "fn_write (tl ?tm) (shared ?tm) ?t (encode v) 8 a h1 = (ok, h2)"
    by (metis surj_pair)
  have a: "a \<in> fst (seq_view sh ?t h1)" using live1(2) assms(3) by simp
  from seq.write_law [OF live1(1) a w] calm_seq.write_calm [OF live1(1,3) a w]
  have live2: "ok" "txn_live env sh ?t False h2" "seq_view sh ?t h2 = set_word a v (seq_committed sh h)"
    "seq_fresh env sh (Suc n) ?t h2"
    using live1(2) by simp_all
  have "heap_pointer env h2 sz = 0" by (simp add: heap_pointer_def Let_def assms(4))
  moreover obtain x region ls where "txns h2 ?t = Some x" "live_in h2 sh ?t region ls x"
    using live_unpack [OF live2(2)] by metis
  moreover then have "regions h2 sh = Some region" by (simp add: live_in_def)
  ultimately have nomem: "fn_alloc (tl ?tm) (shared ?tm) ?t sz h2 = (nomem, 0, h2)"
    by (simp add: seq_memory_def seq_library_def tm_alloc_def the_txn_def tm_align_def the_region_def
        aligned_alloc_def block_ok_def)
  obtain ended h3 where e: "fn_end (tl ?tm) (shared ?tm) ?t h2 = (ended, h3)" by (metis surj_pair)
  from seq.end_law [OF live2(2) e] calm_seq.end_calm [OF live2(2,4) e]
  have fin: "ended" "seq_committed sh h3 = set_word a v (seq_committed sh h)"
    using live2(3) by simp_all
  have "attempt ?tm False (WriteWord a v (AllocSeg sz k)) h = (Thrown TransactionAlloc, h3)"
    using b w nomem e live2(1) fin(1) assms(5)
    by (simp add: attempt_def tx_construct_def tx_write_def tx_alloc_def tx_destroy_def assert_mode_def)
  then have "transactional ?tm False (WriteWord a v (AllocSeg sz k)) h = Some (Thrown TransactionAlloc, h3)"
    by (subst transactional.simps) (simp add: is_retry_def)
  then show ?thesis using fin(2) by blast
qed

theorem failed_alloc_commits_writes_witness:
  "\<exists>h'. transactional (seq_memory demo_env 16 4096 64) False (WriteWord 4096 9 (AllocSeg 32 Done)) demo_heap
      = Some (Thrown TransactionAlloc, h') \<and> snd (seq_committed 16 h') 4096 = 9"
proof -
  have "(4096 :: addr) \<in> seg_words 4096 64" unfolding seg_words_def by (rule image_eqI [of _ _ 0]) simp_all
  then show ?thesis
    using failed_alloc_commits_writes [OF demo_ready, where n = 0 and a = 4096 and v = 9 and sz = 32
        and k = Done and st = 4096 and len = 64] demo_calm demo_words
    by (auto simp: demo_env_def invalid_tx_def set_word_def)
qed

section \<open>Construction of a memory\<close>

lemma block_ok_locks: "block_ok (put_region r R (put_region r R' (h\<lparr>lock_arrays := la\<rparr>))) al sz p = block_ok h al sz p"
  by (simp add: block_ok_def put_region_def)

lemma create_success:
  assumes "tm_create pr pl ps sz al h = Inr (sh, h')" "sh \<noteq> 0"
  shows "sh = pr \<and> pr \<noteq> 0 \<and> regions h pr = None \<and> pl \<noteq> 0 \<and> lock_arrays h pl = None \<and> block_ok h al sz ps"
  using assms
  by (auto simp: tm_create_def new_region_def new_locks_def aligned_alloc_def Let_def and_then_Inr
      put_region_def block_ok_def split: if_splits)

lemma created_store:
  assumes "heap_ok h" "tm_create pr pl (heap_pointer env h sz) sz 8 h = Inr (sh, h')" "sh \<noteq> 0"
    "unat (stack_word env) + 8 \<le> 2 ^ 64"
  defines "st \<equiv> heap_pointer env h sz"
  shows "region_ready env sh h'" "tm_start sh h' = Inr st" "fresh_segment st sz ({}, \<lambda>_. 0)"
    "seq_committed sh h' = add_segment st sz ({}, \<lambda>_. 0)"
    "quiet (\<lambda>_. vl_new) c"
    "regions h' sh = Some \<lparr>seg_list = [], region_size = sz, align = 8, locks = pl, start = st\<rparr>"
    "lock_arrays h' pl = Some (\<lambda>_. vl_new)" "gvc h' = gvc h" "txns h' = txns h"
proof -
  note ok = create_success [OF assms(2,3)]
  then have pre: "pr \<noteq> 0" "regions h pr = None" "pl \<noteq> 0" "lock_arrays h pl = None" "block_ok h 8 sz st"
    by (simp_all add: st_def)
  have sh: "sh = pr" using ok by simp
  let ?h = "put_region pr \<lparr>seg_list = [], region_size = sz, align = 8, locks = pl, start = st\<rparr>
      (h\<lparr>blocks := (blocks h)(st \<mapsto> sz), mem := memset (mem h) st 0 sz,
        lock_arrays := (lock_arrays h)(pl \<mapsto> (\<lambda>_. vl_new))\<rparr>)"
  have h': "h' = ?h" using create_ok(1) [OF assms(1) pre] assms(2) sh by (simp add: st_def)
  have hok: "heap_ok ?h" by (rule create_ok(2) [OF assms(1) pre])
  have blk: "st \<noteq> 0" "unat st + sz < 2 ^ 64" "word_aligned 8 st" using pre(5) by (simp_all add: block_ok_def)
  then have "\<not> overlaps st sz (stack_word env) 8"
    by (auto simp: st_def heap_pointer_def Let_def split: if_splits)
  then have wb: "word_blocks env ?h {st}" using blk by (simp add: word_blocks_def put_region_def)
  have segs: "region_segs sh ?h = {st}" by (simp add: put_region_def sh)
  have w: "words_of ?h {st} = seg_words st sz" by (simp add: words_of_def put_region_def)
  show reg: "regions h' sh = Some \<lparr>seg_list = [], region_size = sz, align = 8, locks = pl, start = st\<rparr>"
    "lock_arrays h' pl = Some (\<lambda>_. vl_new)" "gvc h' = gvc h" "txns h' = txns h"
    by (simp_all add: h' put_region_def sh)
  show q: "quiet (\<lambda>_. vl_new) c" by (simp add: quiet_def lock_version_def)
  show "tm_start sh h' = Inr st" using reg(1) by (simp add: tm_start_def the_region_def)
  show "region_ready env sh h'"
    using hok wb segs assms(4) reg by (auto simp: region_ready_def unlocked_region_def h' simp del: segs.simps)
  show "fresh_segment st sz ({}, \<lambda>_. 0)" using blk(1) seg_words_pos [OF blk(1,2)] by (simp add: fresh_segment_def)
  have "mem ?h = memset (mem h) st 0 sz" by (simp add: put_region_def)
  then show "seq_committed sh h' = add_segment st sz ({}, \<lambda>_. 0)"
    unfolding h' seq_committed_def segs w
    using memset_inside [OF blk(2), of _ "mem h"] by (auto simp: contents_def add_segment_def)
qed

lemma add_first_segment: "add_segment p sz ({}, \<lambda>_. 0) = (seg_words p sz, \<lambda>_. 0)"
  by (auto simp: add_segment_def fun_eq_iff)



end
