(* ===== verification/Bank.thy ===== *)
theory Bank
  imports Client_Theorems
begin

text \<open>
  The bank workload of \<open>grading/workload.hpp\<close>: its transactions as programs over the
  transactional memory, and the linked list of account segments they keep. Sizes, counters and
  balances are 64-bit words; \<open>Balance\<close> is read as signed where the code compares it. The loops
  along the list carry a fuel; a program that runs out of it says so, and enough of it is the
  number of segments.
\<close>

section \<open>Layout of a segment\<close>

text \<open>\<open>sizeof(Dummy)\<close> is 24: a count, a pointer, a parity and the accounts after them.\<close>

definition segment_size :: "nat \<Rightarrow> nat" where
  "segment_size nbaccounts = 24 + nbaccounts * 8"

definition segment_align :: nat where
  "segment_align = 8"

definition count_of :: "addr \<Rightarrow> addr" where
  "count_of p = p"

definition next_of :: "addr \<Rightarrow> addr" where
  "next_of p = shared_after (count_of p)"

definition parity_of :: "addr \<Rightarrow> addr" where
  "parity_of p = shared_after (next_of p)"

definition accounts_of :: "addr \<Rightarrow> addr" where
  "accounts_of p = shared_after (parity_of p)"

text \<open>The constructor of \<open>AccountSegment\<close> binds its four members.\<close>

definition segment_bind :: "addr \<Rightarrow> 'a prog \<Rightarrow> 'a prog" where
  "segment_bind p k =
     shared_bind segment_align (count_of p) (shared_bind segment_align (next_of p)
       (shared_bind segment_align (parity_of p) (shared_bind segment_align (accounts_of p) k)))"

lemma segment_bind [simp]: "segment_bind p k = k"
  by (simp add: segment_bind_def)

record workload =
  nbaccounts :: "64 word"
  init_balance :: "64 word"
  bank_start :: addr

datatype 'a loop_result = Finished 'a | OutOfFuel

text \<open>More than there are addresses, hence segments.\<close>

definition bank_fuel :: nat where
  "bank_fuel = 2 ^ 64"

section \<open>The transactions\<close>

subsection \<open>long_tx\<close>

lemma index_step: "i < n \<Longrightarrow> unat n - unat (i + 1) < unat n - unat (i :: 64 word)"
proof -
  assume "i < n"
  then have "unat i < unat n" by (simp add: word_less_nat_alt)
  moreover have "unat n < 2 ^ 64" using unsigned_less [of n] by simp
  ultimately have "unat (i + 1) = unat i + 1" by (simp add: unat_word_ariths)
  then show ?thesis using \<open>unat i < unat n\<close> by simp
qed

text \<open>The loop over the accounts of a segment; a negative balance ends the transaction.\<close>

function sum_accounts ::
  "addr \<Rightarrow> 64 word \<Rightarrow> 64 word \<Rightarrow> 64 word \<Rightarrow> 'a prog \<Rightarrow> (64 word \<Rightarrow> 'a prog) \<Rightarrow> 'a prog" where
  "sum_accounts accounts segment_count i acc bad k =
     (if i < segment_count
      then shared_read (array_cell accounts i)
             (\<lambda>local. if local <s 0 then bad
                      else sum_accounts accounts segment_count (i + 1) (acc + local) bad k)
      else k acc)"
  by pat_completeness auto
termination
  by (relation "measure (\<lambda>(accounts, n, i, acc, bad, k). unat n - unat i)") (simp_all add: index_step)

declare sum_accounts.simps [simp del]

text \<open>
  The result of the closure, and the value it leaves in \<open>nbaccounts\<close> when it gets to its end.
\<close>

fun long_loop ::
  "workload \<Rightarrow> nat \<Rightarrow> addr \<Rightarrow> 64 word \<Rightarrow> 64 word \<Rightarrow> (bool \<times> 64 word option) loop_result prog" where
  "long_loop w 0 seg count acc = Done OutOfFuel"
| "long_loop w (Suc fuel) seg count acc =
     (if seg \<noteq> 0
      then segment_bind seg
        (shared_read (count_of seg) (\<lambda>segment_count.
         shared_read (parity_of seg) (\<lambda>parity.
         sum_accounts (accounts_of seg) segment_count 0 (acc + parity)
           (Done (Finished (False, None)))
           (\<lambda>acc. shared_read (next_of seg)
              (\<lambda>seg. long_loop w fuel seg (count + segment_count) acc)))))
      else Done (Finished (acc = init_balance w * count, Some count)))"

definition long_tx :: "workload \<Rightarrow> nat \<Rightarrow> (bool \<times> 64 word option) loop_result prog" where
  "long_tx w fuel = long_loop w fuel (bank_start w) 0 0"

subsection \<open>alloc_tx\<close>

text \<open>\<open>sizeof(AccountSegment)\<close>: four \<open>Shared\<close> objects of two words.\<close>

definition account_segment_size :: nat where
  "account_segment_size = 64"

text \<open>At the last segment: remove its last account, or add one.\<close>

definition alloc_last ::
  "workload \<Rightarrow> 64 word \<Rightarrow> addr \<Rightarrow> addr \<Rightarrow> 64 word \<Rightarrow> 64 word \<Rightarrow> unit loop_result prog" where
  "alloc_last w trigger prev seg count segment_count =
     (if count > trigger \<and> count > 2
      then
        let segment_count = segment_count - 1
        in shared_read (parity_of seg) (\<lambda>parity.
           shared_read (array_cell (accounts_of seg) segment_count) (\<lambda>account.
           let new_parity = parity + account - init_balance w
           in if segment_count > 0
              then shared_write (count_of seg) segment_count
                (shared_write (parity_of seg) new_parity (Done (Finished ())))
              else if assert_mode \<and> prev = 0 then Throw TransactionNotLastSegment
              else segment_bind prev
                (shared_free (next_of prev)
                (shared_read (parity_of prev) (\<lambda>parity.
                 shared_write (parity_of prev) (parity + new_parity) (Done (Finished ())))))))
      else if segment_count < nbaccounts w
      then shared_write (array_cell (accounts_of seg) segment_count) (init_balance w)
        (shared_write (count_of seg) (segment_count + 1) (Done (Finished ())))
      else shared_alloc account_segment_size (next_of seg) (segment_size (unat (nbaccounts w)))
        (\<lambda>p. segment_bind p
           (shared_write (count_of p) 1
           (shared_write (array_cell (accounts_of p) 0) (init_balance w) (Done (Finished ()))))))"

fun alloc_loop ::
  "workload \<Rightarrow> 64 word \<Rightarrow> nat \<Rightarrow> addr \<Rightarrow> addr \<Rightarrow> 64 word \<Rightarrow> unit loop_result prog" where
  "alloc_loop w trigger 0 prev seg count = Done OutOfFuel"
| "alloc_loop w trigger (Suc fuel) prev seg count =
     segment_bind seg
       (shared_read (count_of seg) (\<lambda>segment_count.
        let count = count + segment_count
        in shared_read (next_of seg) (\<lambda>segment_next.
           if segment_next = 0 then alloc_last w trigger prev seg count segment_count
           else alloc_loop w trigger fuel seg segment_next count)))"

definition alloc_tx :: "workload \<Rightarrow> nat \<Rightarrow> 64 word \<Rightarrow> unit loop_result prog" where
  "alloc_tx w fuel trigger = alloc_loop w trigger fuel 0 (bank_start w) 0"

subsection \<open>short_tx\<close>

definition transfer :: "addr \<Rightarrow> addr \<Rightarrow> bool loop_result prog" where
  "transfer send_ptr recv_ptr =
     shared_bind segment_align send_ptr (shared_bind segment_align recv_ptr
       (shared_read send_ptr (\<lambda>send_val.
        if 0 <s send_val
        then shared_write send_ptr (send_val - 1)
          (shared_read recv_ptr (\<lambda>recv_val.
           shared_write recv_ptr (recv_val + 1) (Done (Finished True))))
        else Done (Finished True))))"

text \<open>
  One search step for one of the two accounts: the pointer, once found, and what is left of the
  index. The closure captures the indices by reference and counts them down in place.
\<close>

definition seek :: "addr \<Rightarrow> 64 word \<Rightarrow> 64 word \<Rightarrow> addr \<Rightarrow> 64 word \<times> addr" where
  "seek seg segment_count account ptr =
     (if ptr = 0
      then if account < segment_count then (account, array_cell (accounts_of seg) account)
           else (account - segment_count, ptr)
      else (account, ptr))"

fun short_loop ::
  "nat \<Rightarrow> addr \<Rightarrow> 64 word \<Rightarrow> 64 word \<Rightarrow> addr \<Rightarrow> addr \<Rightarrow> bool loop_result prog" where
  "short_loop 0 seg send_id recv_id send_ptr recv_ptr = Done OutOfFuel"
| "short_loop (Suc fuel) seg send_id recv_id send_ptr recv_ptr =
     segment_bind seg
       (shared_read (count_of seg) (\<lambda>segment_count.
        let (send_id', send_ptr') = seek seg segment_count send_id send_ptr
        in if send_ptr = 0 \<and> send_id < segment_count \<and> recv_ptr \<noteq> 0 then transfer send_ptr' recv_ptr
           else
             let (recv_id', recv_ptr') = seek seg segment_count recv_id recv_ptr
             in if recv_ptr = 0 \<and> recv_id < segment_count \<and> send_ptr' \<noteq> 0
                then transfer send_ptr' recv_ptr'
                else shared_read (next_of seg) (\<lambda>seg.
                  if seg = 0 then Done (Finished False)
                  else short_loop fuel seg send_id' recv_id' send_ptr' recv_ptr')))"

definition short_tx :: "workload \<Rightarrow> nat \<Rightarrow> 64 word \<Rightarrow> 64 word \<Rightarrow> bool loop_result prog" where
  "short_tx w fuel send_id recv_id = short_loop fuel (bank_start w) send_id recv_id 0 0"

text \<open>
  What the captured indices hold when an attempt has read the given words and is then aborted: the
  counts and next pointers of the segments in turn, and the balances at the end. The next attempt
  starts from these.
\<close>

fun short_left ::
  "addr \<Rightarrow> 64 word \<Rightarrow> 64 word \<Rightarrow> addr \<Rightarrow> addr \<Rightarrow> 64 word list \<Rightarrow> 64 word \<times> 64 word" where
  "short_left seg send_id recv_id send_ptr recv_ptr [] = (send_id, recv_id)"
| "short_left seg send_id recv_id send_ptr recv_ptr (segment_count # vs) =
     (let (send_id', send_ptr') = seek seg segment_count send_id send_ptr
      in if send_ptr = 0 \<and> send_id < segment_count \<and> recv_ptr \<noteq> 0 then (send_id', recv_id)
         else
           let (recv_id', recv_ptr') = seek seg segment_count recv_id recv_ptr
           in if recv_ptr = 0 \<and> recv_id < segment_count \<and> send_ptr' \<noteq> 0 then (send_id', recv_id')
              else case vs of
                [] \<Rightarrow> (send_id', recv_id')
              | seg # vs \<Rightarrow> if seg = 0 then (send_id', recv_id')
                  else short_left seg send_id' recv_id' send_ptr' recv_ptr' vs)"

text \<open>The call: the closure in the retry loop.\<close>

definition short_call ::
  "'s TransactionalMemory \<Rightarrow> workload \<Rightarrow> 64 word \<Rightarrow> 64 word \<Rightarrow> 's \<Rightarrow> (bool loop_result outcome \<times> 's) option" where
  "short_call tm w send_id recv_id =
     transactional_with tm False (\<lambda>(send_id, recv_id). short_tx w bank_fuel send_id recv_id)
       (\<lambda>(send_id, recv_id). short_left (bank_start w) send_id recv_id 0 0) (send_id, recv_id)"

subsection \<open>init\<close>

function fill_accounts :: "addr \<Rightarrow> 64 word \<Rightarrow> 64 word \<Rightarrow> 64 word \<Rightarrow> 'a prog \<Rightarrow> 'a prog" where
  "fill_accounts accounts n balance i k =
     (if i < n
      then shared_write (array_cell accounts i) balance (fill_accounts accounts n balance (i + 1) k)
      else k)"
  by pat_completeness auto
termination
  by (relation "measure (\<lambda>(accounts, n, balance, i, k). unat n - unat i)") (simp_all add: index_step)

declare fill_accounts.simps [simp del]

definition init_tx :: "workload \<Rightarrow> unit prog" where
  "init_tx w =
     segment_bind (bank_start w)
       (shared_write (count_of (bank_start w)) (nbaccounts w)
         (fill_accounts (accounts_of (bank_start w)) (nbaccounts w) (init_balance w) 0 (Done ())))"

definition init_check :: "workload \<Rightarrow> bool prog" where
  "init_check w =
     segment_bind (bank_start w)
       (shared_read (array_cell (accounts_of (bank_start w)) 0)
         (\<lambda>balance. Done (balance = init_balance w)))"

end
