(* ===== verification/Bank_Lists.thy ===== *)
theory Bank_Lists
  imports Bank
begin

text \<open>
  The accounts of the bank as a list of segments in the transactional memory: when a store
  holds such a list, what each transaction of the workload does to it, and what it returns.
\<close>

section \<open>Words of a segment\<close>

definition cell :: "addr \<Rightarrow> nat \<Rightarrow> addr" where
  "cell p k = p + of_nat (8 * k)"

lemma layout:
  "count_of p = cell p 0" "next_of p = cell p 1" "parity_of p = cell p 2"
  "array_cell (accounts_of p) i = cell p (3 + unat i)"
  by (simp_all add: count_of_def next_of_def parity_of_def accounts_of_def array_cell_def cell_def)

lemma unat_of_nat_small: "n < 2 ^ 64 \<Longrightarrow> unat (of_nat n :: 64 word) = n"
  by (simp add: unat_of_nat take_bit_nat_eq_self)

lemma cell_eq:
  assumes "j < 2 ^ 61" "k < 2 ^ 61"
  shows "cell p j = cell p k \<longleftrightarrow> j = k"
proof
  assume "cell p j = cell p k"
  then have "unat (of_nat (8 * j) :: 64 word) = unat (of_nat (8 * k) :: 64 word)"
    by (simp add: cell_def del: of_nat_mult)
  moreover have "8 * j < 2 ^ 64" "8 * k < 2 ^ 64" using assms by simp_all
  ultimately show "j = k" by (simp only: unat_of_nat_small)
qed simp

definition well_sized :: "workload \<Rightarrow> bool" where
  "well_sized w \<longleftrightarrow> 0 < nbaccounts w \<and> unat (nbaccounts w) + 3 < 2 ^ 61"

abbreviation room :: "workload \<Rightarrow> nat" where
  "room w \<equiv> unat (nbaccounts w)"

definition words_at :: "workload \<Rightarrow> addr \<Rightarrow> addr set" where
  "words_at w p = seg_words p (segment_size (room w))"

lemma words_at: "words_at w p = cell p ` {..<3 + room w}"
proof -
  have "(24 + room w * 8) div 8 = 3 + room w" by simp
  then show ?thesis by (auto simp: words_at_def seg_words_def segment_size_def cell_def)
qed

lemma cell_words: "k < 3 + room w \<Longrightarrow> cell p k \<in> words_at w p"
  by (auto simp: words_at)

section \<open>Segments and their list\<close>

record acc_seg =
  seg_ptr :: addr
  seg_parity :: "64 word"
  seg_accounts :: "64 word list"

definition seg_at :: "workload \<Rightarrow> store \<Rightarrow> acc_seg \<Rightarrow> bool" where
  "seg_at w \<sigma> S \<longleftrightarrow> length (seg_accounts S) \<le> room w \<and>
     words_at w (seg_ptr S) \<subseteq> fst \<sigma> \<and>
     snd \<sigma> (cell (seg_ptr S) 0) = of_nat (length (seg_accounts S)) \<and>
     snd \<sigma> (cell (seg_ptr S) 2) = seg_parity S \<and>
     (\<forall>i < length (seg_accounts S). snd \<sigma> (cell (seg_ptr S) (3 + i)) = seg_accounts S ! i)"

fun links :: "store \<Rightarrow> addr \<Rightarrow> acc_seg list \<Rightarrow> bool" where
  "links \<sigma> p [] \<longleftrightarrow> p = 0"
| "links \<sigma> p (S # B) \<longleftrightarrow> p = seg_ptr S \<and> p \<noteq> 0 \<and> links \<sigma> (snd \<sigma> (cell p 1)) B"

fun apart :: "workload \<Rightarrow> acc_seg list \<Rightarrow> bool" where
  "apart w [] \<longleftrightarrow> True"
| "apart w (S # B) \<longleftrightarrow>
     (\<forall>T \<in> set B. words_at w (seg_ptr S) \<inter> words_at w (seg_ptr T) = {}) \<and> apart w B"

definition bank_at :: "workload \<Rightarrow> store \<Rightarrow> acc_seg list \<Rightarrow> bool" where
  "bank_at w \<sigma> B \<longleftrightarrow> links \<sigma> (bank_start w) B \<and> (\<forall>S \<in> set B. seg_at w \<sigma> S) \<and> apart w B \<and> 0 \<notin> fst \<sigma> \<and>
     B \<noteq> []"

lemma seg_at_reads:
  assumes "seg_at w \<sigma> S" "well_sized w"
  shows "cell (seg_ptr S) 0 \<in> fst \<sigma>" "cell (seg_ptr S) 1 \<in> fst \<sigma>" "cell (seg_ptr S) 2 \<in> fst \<sigma>"
    "i < room w \<Longrightarrow> cell (seg_ptr S) (3 + i) \<in> fst \<sigma>"
    "length (seg_accounts S) < 2 ^ 61"
    "unat (of_nat (length (seg_accounts S)) :: 64 word) = length (seg_accounts S)"
proof -
  have "words_at w (seg_ptr S) \<subseteq> fst \<sigma>" using assms(1) by (simp add: seg_at_def)
  then show "cell (seg_ptr S) 0 \<in> fst \<sigma>" "cell (seg_ptr S) 1 \<in> fst \<sigma>" "cell (seg_ptr S) 2 \<in> fst \<sigma>"
    "i < room w \<Longrightarrow> cell (seg_ptr S) (3 + i) \<in> fst \<sigma>"
    using cell_words [of _ w "seg_ptr S"] by auto
  show l: "length (seg_accounts S) < 2 ^ 61"
    using assms by (auto simp: seg_at_def well_sized_def Suc_le_eq)
  then show "unat (of_nat (length (seg_accounts S)) :: 64 word) = length (seg_accounts S)"
    by (intro unat_of_nat_small) simp
qed

section \<open>long_tx sums the list\<close>

fun long_result :: "workload \<Rightarrow> acc_seg list \<Rightarrow> 64 word \<Rightarrow> 64 word \<Rightarrow> bool \<times> 64 word option" where
  "long_result w [] count acc = (acc = init_balance w * count, Some count)"
| "long_result w (S # B) count acc =
     (if \<exists>a \<in> set (seg_accounts S). a <s 0 then (False, None)
      else long_result w B (count + of_nat (length (seg_accounts S)))
             (acc + seg_parity S + sum_list (seg_accounts S)))"

lemma sum_accounts_wp:
  assumes "length xs < 2 ^ 61" "i \<le> length xs"
    and "\<And>i. i < length xs \<Longrightarrow> cell p (3 + i) \<in> fst \<sigma> \<and> snd \<sigma> (cell p (3 + i)) = xs ! i"
  shows "wp (sum_accounts (accounts_of p) (of_nat (length xs)) (of_nat i) acc bad k) Q \<sigma> =
    (if \<exists>a \<in> set (drop i xs). a <s 0 then wp bad Q \<sigma> else wp (k (acc + sum_list (drop i xs))) Q \<sigma>)"
  using assms(2)
proof (induction "length xs - i" arbitrary: i acc)
  case 0
  then show ?case by (subst sum_accounts.simps) simp
next
  case (Suc n)
  then have i: "i < length xs" "n = length xs - Suc i" by simp_all
  have u: "unat (of_nat i :: 64 word) = i" "unat (of_nat (length xs) :: 64 word) = length xs"
    using i assms(1) by (simp_all add: unat_of_nat_small)
  have d: "drop i xs = xs ! i # drop (Suc i) xs" by (rule Cons_nth_drop_Suc [symmetric]) (rule i)
  have IH: "wp (sum_accounts (accounts_of p) (of_nat (length xs)) (of_nat i + 1) acc bad k) Q \<sigma> =
    (if \<exists>a \<in> set (drop (Suc i) xs). a <s 0 then wp bad Q \<sigma>
     else wp (k (acc + sum_list (drop (Suc i) xs))) Q \<sigma>)" for acc
    using Suc.hyps(1) [OF i(2)] i by (simp add: add.commute)
  show ?case
    using assms(3) [OF i(1)] i(1) u IH
    by (subst sum_accounts.simps) (simp add: word_less_nat_alt layout d add.assoc)
qed

lemma long_loop_wp:
  assumes "well_sized w" "links \<sigma> p B" "\<forall>S \<in> set B. seg_at w \<sigma> S" "length B < fuel"
  shows "wp (long_loop w fuel p count acc) Q \<sigma> = Q (Inr (Finished (long_result w B count acc))) \<sigma>"
  using assms(2-)
proof (induction B arbitrary: fuel p count acc)
  case Nil
  then show ?case by (cases fuel) simp_all
next
  case (Cons S B)
  then obtain f where f: "fuel = Suc f" "length B < f" by (cases fuel) auto
  have S: "seg_at w \<sigma> S" "p = seg_ptr S" "p \<noteq> 0" "links \<sigma> (snd \<sigma> (cell p 1)) B"
    using Cons.prems by auto
  note r = seg_at_reads [OF S(1) assms(1)]
  have len: "length (seg_accounts S) \<le> room w" using S(1) by (simp add: seg_at_def)
  have vals: "snd \<sigma> (cell (seg_ptr S) 0) = of_nat (length (seg_accounts S))" "snd \<sigma> (cell (seg_ptr S) 2) = seg_parity S"
    "\<And>i. i < length (seg_accounts S) \<Longrightarrow> cell (seg_ptr S) (3 + i) \<in> fst \<sigma> \<and> snd \<sigma> (cell (seg_ptr S) (3 + i)) = seg_accounts S ! i"
    using S(1,2) r(4) len by (auto simp: seg_at_def)
  show ?case
    using r(1-3) S Cons.IH [OF S(4) _ f(2)] Cons.prems(2)
    by (simp add: f(1) layout vals(1,2) sum_accounts_wp [OF r(5) _ vals(3), of 0, simplified])
qed

section \<open>Writing one word of a bank\<close>

lemma set_word_simps [simp]:
  "fst (set_word a v \<sigma>) = fst \<sigma>" "snd (set_word a v \<sigma>) b = (if b = a then v else snd \<sigma> b)"
  by (simp_all add: set_word_def)

lemma apart_append:
  "apart w (B @ C) \<longleftrightarrow> apart w B \<and> apart w C \<and>
     (\<forall>S \<in> set B. \<forall>T \<in> set C. words_at w (seg_ptr S) \<inter> words_at w (seg_ptr T) = {})"
  by (induction B) auto

lemma links_cong:
  assumes "\<And>S. S \<in> set B \<Longrightarrow> snd \<sigma>' (cell (seg_ptr S) 1) = snd \<sigma> (cell (seg_ptr S) 1)"
  shows "links \<sigma>' p B = links \<sigma> p B"
  using assms
proof (induction B arbitrary: p)
  case (Cons S B)
  have IH: "links \<sigma>' q B = links \<sigma> q B" for q using Cons.prems by (intro Cons.IH) simp
  have "snd \<sigma>' (cell (seg_ptr S) 1) = snd \<sigma> (cell (seg_ptr S) 1)" using Cons.prems by simp
  then show ?case by (cases "p = seg_ptr S") (simp_all only: links.simps IH simp_thms)
qed simp

lemma links_map:
  assumes "map seg_ptr C = map seg_ptr B"
  shows "links \<sigma> p C = links \<sigma> p B"
  using assms
proof (induction B arbitrary: p C)
  case (Cons S B)
  then obtain T C' where C: "C = T # C'" "seg_ptr T = seg_ptr S" "map seg_ptr C' = map seg_ptr B"
    by (cases C) auto
  show ?case unfolding C(1) links.simps C(2) Cons.IH [OF C(3)] ..
qed simp

lemma seg_at_cong:
  assumes "\<And>a. a \<in> words_at w (seg_ptr S) \<Longrightarrow> snd \<sigma>' a = snd \<sigma> a \<and> (a \<in> fst \<sigma> \<longleftrightarrow> a \<in> fst \<sigma>')"
  shows "seg_at w \<sigma>' S = seg_at w \<sigma> S"
proof (cases "length (seg_accounts S) \<le> room w")
  case True
  then have "cell (seg_ptr S) 0 \<in> words_at w (seg_ptr S)" "cell (seg_ptr S) 2 \<in> words_at w (seg_ptr S)"
    "\<And>i. i < length (seg_accounts S) \<Longrightarrow> cell (seg_ptr S) (3 + i) \<in> words_at w (seg_ptr S)"
    by (auto intro!: cell_words)
  moreover have "words_at w (seg_ptr S) \<subseteq> fst \<sigma>' \<longleftrightarrow> words_at w (seg_ptr S) \<subseteq> fst \<sigma>" using assms by blast
  ultimately show ?thesis using assms by (simp add: seg_at_def)
qed (simp add: seg_at_def)

lemma bank_update:
  assumes "bank_at w \<sigma> (B @ T # C)" "a \<in> words_at w (seg_ptr T)" "a \<noteq> cell (seg_ptr T) 1"
    and "seg_ptr T' = seg_ptr T" "seg_at w (set_word a v \<sigma>) T'"
  shows "bank_at w (set_word a v \<sigma>) (B @ T' # C)"
proof -
  have ap: "apart w (B @ T # C)" and seg: "\<And>S. S \<in> set B \<union> set C \<Longrightarrow> seg_at w \<sigma> S"
    and li: "links \<sigma> (bank_start w) (B @ T # C)" and z: "0 \<notin> fst \<sigma>"
    using assms(1) by (auto simp: bank_at_def)
  have out: "a \<notin> words_at w (seg_ptr S)" if "S \<in> set B \<union> set C" for S
    using ap assms(2) that by (auto simp: apart_append)
  then have "seg_at w (set_word a v \<sigma>) S" if "S \<in> set B \<union> set C" for S
    using seg [OF that] seg_at_cong [of w S "set_word a v \<sigma>" \<sigma>] that by fastforce
  moreover have "links (set_word a v \<sigma>) (bank_start w) (B @ T' # C)"
  proof -
    have "links (set_word a v \<sigma>) (bank_start w) (B @ T # C)"
    proof (subst links_cong)
      fix S assume "S \<in> set (B @ T # C)"
      moreover have "cell (seg_ptr S) 1 \<in> words_at w (seg_ptr S)" by (rule cell_words) simp
      ultimately have "cell (seg_ptr S) 1 \<noteq> a" using out assms(3) by auto
      then show "snd (set_word a v \<sigma>) (cell (seg_ptr S) 1) = snd \<sigma> (cell (seg_ptr S) 1)" by simp
    qed (rule li)
    then show ?thesis by (subst links_map [where B = "B @ T # C"]) (simp_all add: assms(4))
  qed
  moreover have "apart w (B @ T' # C)" using ap by (auto simp: apart_append assms(4))
  ultimately show ?thesis using assms(5) z by (auto simp: bank_at_def)
qed

lemma bank_seg: "bank_at w \<sigma> (B @ T # C) \<Longrightarrow> seg_at w \<sigma> T"
  by (simp add: bank_at_def)

lemma bank_set_parity:
  assumes "bank_at w \<sigma> (B @ T # C)" "well_sized w"
  shows "bank_at w (set_word (cell (seg_ptr T) 2) v \<sigma>) (B @ T\<lparr>seg_parity := v\<rparr> # C)"
proof (rule bank_update [OF assms(1)])
  show "seg_at w (set_word (cell (seg_ptr T) 2) v \<sigma>) (T\<lparr>seg_parity := v\<rparr>)"
    using bank_seg [OF assms(1)] assms(2) by (auto simp: seg_at_def cell_eq well_sized_def)
qed (simp_all add: cell_words cell_eq)

lemma bank_set_account:
  assumes "bank_at w \<sigma> (B @ T # C)" "well_sized w" "i < length (seg_accounts T)"
  shows "bank_at w (set_word (cell (seg_ptr T) (3 + i)) v \<sigma>)
    (B @ T\<lparr>seg_accounts := (seg_accounts T)[i := v]\<rparr> # C)"
proof (rule bank_update [OF assms(1)])
  have len: "length (seg_accounts T) \<le> room w" using bank_seg [OF assms(1)] by (simp add: seg_at_def)
  then show "cell (seg_ptr T) (3 + i) \<in> words_at w (seg_ptr T)" using assms(3) by (intro cell_words) simp
  have w: "room w + 3 < 2 ^ 61" using assms(2) by (simp add: well_sized_def)
  then show "cell (seg_ptr T) (3 + i) \<noteq> cell (seg_ptr T) 1" using len assms(3) by (subst cell_eq) simp_all
  show "seg_at w (set_word (cell (seg_ptr T) (3 + i)) v \<sigma>) (T\<lparr>seg_accounts := (seg_accounts T)[i := v]\<rparr>)"
    using bank_seg [OF assms(1)] len w assms(3) by (auto simp: seg_at_def cell_eq nth_list_update)
qed simp

text \<open>A word past the last account belongs to the segment but is not part of its contents.\<close>

lemma bank_set_unused:
  assumes "bank_at w \<sigma> (B @ T # C)" "well_sized w" "length (seg_accounts T) \<le> i" "i < room w"
  shows "bank_at w (set_word (cell (seg_ptr T) (3 + i)) v \<sigma>) (B @ T # C)"
proof (rule bank_update [OF assms(1)])
  show "cell (seg_ptr T) (3 + i) \<in> words_at w (seg_ptr T)" using assms(4) by (intro cell_words) simp
  have w: "room w + 3 < 2 ^ 61" using assms(2) by (simp add: well_sized_def)
  then show "cell (seg_ptr T) (3 + i) \<noteq> cell (seg_ptr T) 1" using assms(4) by (subst cell_eq) simp_all
  show "seg_at w (set_word (cell (seg_ptr T) (3 + i)) v \<sigma>) T"
    using bank_seg [OF assms(1)] w assms(3,4) by (auto simp: seg_at_def cell_eq)
qed simp

lemma bank_set_count:
  assumes "bank_at w \<sigma> (B @ T # C)" "well_sized w" "length xs \<le> room w"
    and "\<And>i. i < length xs \<Longrightarrow> snd \<sigma> (cell (seg_ptr T) (3 + i)) = xs ! i"
  shows "bank_at w (set_word (cell (seg_ptr T) 0) (of_nat (length xs)) \<sigma>) (B @ T\<lparr>seg_accounts := xs\<rparr> # C)"
proof (rule bank_update [OF assms(1)])
  have w: "room w + 3 < 2 ^ 61" using assms(2) by (simp add: well_sized_def)
  then show "seg_at w (set_word (cell (seg_ptr T) 0) (of_nat (length xs)) \<sigma>) (T\<lparr>seg_accounts := xs\<rparr>)"
    using bank_seg [OF assms(1)] assms(3,4) by (auto simp: seg_at_def cell_eq)
qed (simp_all add: cell_words cell_eq)

text \<open>Changing the last link.\<close>

lemma links_relink:
  assumes "\<And>S. S \<in> set B \<Longrightarrow> snd \<sigma>' (cell (seg_ptr S) 1) = snd \<sigma> (cell (seg_ptr S) 1)"
    and "links \<sigma> p (B @ L # C)" "links \<sigma>' (snd \<sigma>' (cell (seg_ptr L) 1)) D"
  shows "links \<sigma>' p (B @ L # D)"
  using assms
proof (induction B arbitrary: p)
  case (Cons S B)
  have p: "p = seg_ptr S" "p \<noteq> 0" "links \<sigma> (snd \<sigma> (cell p 1)) (B @ L # C)"
    using Cons.prems(2) unfolding append_Cons links.simps by blast+
  have "links \<sigma>' (snd \<sigma> (cell p 1)) (B @ L # D)"
    using Cons.prems(1,3) p(3) by (intro Cons.IH) simp_all
  moreover have "snd \<sigma>' (cell p 1) = snd \<sigma> (cell p 1)" using Cons.prems(1) p(1) by simp
  ultimately show ?case using p(1,2) by (simp only: append_Cons links.simps simp_thms)
qed (metis append_Nil links.simps(2))

lemma seg_at_next:
  assumes "seg_at w \<sigma> S" "well_sized w"
  shows "seg_at w (set_word (cell (seg_ptr S) 1) v \<sigma>) S"
  using assms by (auto simp: seg_at_def well_sized_def cell_eq)

lemma next_outside:
  assumes "apart w (B @ L # C)" "S \<in> set B"
  shows "cell (seg_ptr L) 1 \<notin> words_at w (seg_ptr S)" "cell (seg_ptr S) 1 \<noteq> cell (seg_ptr L) 1"
proof -
  have "cell (seg_ptr L) 1 \<in> words_at w (seg_ptr L)" "cell (seg_ptr S) 1 \<in> words_at w (seg_ptr S)"
    by (rule cell_words; simp)+
  moreover have "words_at w (seg_ptr S) \<inter> words_at w (seg_ptr L) = {}"
    using assms by (simp add: apart_append)
  ultimately show "cell (seg_ptr L) 1 \<notin> words_at w (seg_ptr S)" "cell (seg_ptr S) 1 \<noteq> cell (seg_ptr L) 1"
    by (blast, metis disjoint_iff)
qed

lemma bank_append:
  assumes "bank_at w \<sigma> (B @ [L])" "well_sized w" "fresh_segment p (segment_size (room w)) \<sigma>"
  defines "\<sigma>1 \<equiv> add_segment p (segment_size (room w)) \<sigma>"
  shows "bank_at w (set_word (cell (seg_ptr L) 1) p \<sigma>1)
    (B @ L # [\<lparr>seg_ptr = p, seg_parity = 0, seg_accounts = []\<rparr>])"
proof -
  let ?\<sigma> = "set_word (cell (seg_ptr L) 1) p \<sigma>1" and ?N = "\<lparr>seg_ptr = p, seg_parity = 0, seg_accounts = []\<rparr>"
  have b: "apart w (B @ [L])" "links \<sigma> (bank_start w) (B @ [L])" "0 \<notin> fst \<sigma>"
    "\<And>S. S \<in> set (B @ [L]) \<Longrightarrow> seg_at w \<sigma> S"
    using assms(1) by (auto simp: bank_at_def)
  have p: "p \<noteq> 0" "0 \<notin> words_at w p" "words_at w p \<inter> fst \<sigma> = {}"
    using assms(3) by (simp_all add: fresh_segment_def words_at_def)
  have st: "fst \<sigma>1 = fst \<sigma> \<union> words_at w p" "\<And>a. snd \<sigma>1 a = (if a \<in> words_at w p then 0 else snd \<sigma> a)"
    by (simp_all add: \<sigma>1_def add_segment_def words_at_def)
  have sub: "words_at w (seg_ptr S) \<subseteq> fst \<sigma>" if "S \<in> set (B @ [L])" for S
    using b(4) [OF that] by (simp add: seg_at_def)
  then have old: "words_at w (seg_ptr S) \<inter> words_at w p = {}" if "S \<in> set (B @ [L])" for S
    using that p(3) by blast
  have seg1: "seg_at w \<sigma>1 S" if "S \<in> set (B @ [L])" for S
    using b(4) [OF that] seg_at_cong [of w S \<sigma>1 \<sigma>] old [OF that] st by fastforce
  have cellp: "cell p k \<in> words_at w p" if "k < 3" for k using that by (intro cell_words) simp
  have celll: "cell (seg_ptr S) 1 \<in> words_at w (seg_ptr S)" for S by (rule cell_words) simp
  have ne: "cell p k \<noteq> cell (seg_ptr L) 1" if "k < 3" for k
    using cellp [OF that] celll [of L] old [of L] by auto
  have "seg_at w ?\<sigma> S" if "S \<in> set B" for S
    using seg1 [of S] that seg_at_cong [of w S ?\<sigma> \<sigma>1] next_outside [OF b(1) that] by fastforce
  moreover have "seg_at w ?\<sigma> L" by (rule seg_at_next [OF seg1 assms(2)]) simp
  moreover have "seg_at w ?\<sigma> ?N"
    using ne [of 0] ne [of 2] cellp by (auto simp: seg_at_def st)
  moreover have "links ?\<sigma> (bank_start w) (B @ L # [?N])"
  proof (rule links_relink [OF _ b(2)])
    fix S assume S: "S \<in> set B"
    then have "cell (seg_ptr S) 1 \<notin> words_at w p" using old [of S] celll [of S] by auto
    then show "snd ?\<sigma> (cell (seg_ptr S) 1) = snd \<sigma> (cell (seg_ptr S) 1)"
      using next_outside(2) [OF b(1) S] by (simp add: st del: One_nat_def)
  next
    have "snd ?\<sigma> (cell p 1) = 0" using ne [of 1] cellp [of 1] by (simp add: st del: One_nat_def)
    then show "links ?\<sigma> (snd ?\<sigma> (cell (seg_ptr L) 1)) [?N]" using p(1) by (simp del: One_nat_def)
  qed
  moreover have "apart w (B @ L # [?N])" using b(1) old by (auto simp: apart_append)
  moreover have "0 \<notin> fst ?\<sigma>" using b(3) p(2) by (simp add: st)
  ultimately show ?thesis by (auto simp: bank_at_def)
qed

lemma bank_drop_last:
  assumes "bank_at w \<sigma> (B @ P # [L])" "well_sized w"
  shows "bank_at w (set_word (cell (seg_ptr P) 1) 0 \<sigma>) (B @ [P])"
proof -
  let ?\<sigma> = "set_word (cell (seg_ptr P) 1) 0 \<sigma>"
  have b: "apart w (B @ P # [L])" "links \<sigma> (bank_start w) (B @ P # [L])" "0 \<notin> fst \<sigma>"
    "\<And>S. S \<in> set (B @ [P]) \<Longrightarrow> seg_at w \<sigma> S"
    using assms(1) by (auto simp: bank_at_def)
  have "seg_at w ?\<sigma> S" if "S \<in> set B" for S
    using b(4) [of S] that seg_at_cong [of w S ?\<sigma> \<sigma>] next_outside [OF b(1) that] by fastforce
  moreover have "seg_at w ?\<sigma> P" by (rule seg_at_next [OF b(4) assms(2)]) simp
  moreover have "links ?\<sigma> (bank_start w) (B @ P # [])"
  proof (rule links_relink [OF _ b(2)])
    fix S assume "S \<in> set B"
    then show "snd ?\<sigma> (cell (seg_ptr S) 1) = snd \<sigma> (cell (seg_ptr S) 1)"
      using next_outside(2) [OF b(1)] by (simp del: One_nat_def)
  qed simp
  moreover have "apart w (B @ [P])" using b(1) by (auto simp: apart_append)
  ultimately show ?thesis using b(3) by (auto simp: bank_at_def)
qed

section \<open>alloc_tx\<close>

abbreviation balances :: "acc_seg list \<Rightarrow> 64 word list" where
  "balances B \<equiv> concat (map seg_accounts B)"

text \<open>What \<open>alloc_tx\<close> does to the list; \<open>p\<close> is the segment it allocates, if any.\<close>

definition alloc_effect :: "workload \<Rightarrow> 64 word \<Rightarrow> addr \<Rightarrow> acc_seg list \<Rightarrow> acc_seg list" where
  "alloc_effect w trigger p B =
     (let L = last B; n = length (seg_accounts L); count = of_nat (length (balances B))
      in if count > trigger \<and> count > 2
         then
           let parity = seg_parity L + last (seg_accounts L) - init_balance w
           in if n > 1
              then butlast B @ [L\<lparr>seg_accounts := butlast (seg_accounts L), seg_parity := parity\<rparr>]
              else
                let P = last (butlast B)
                in butlast (butlast B) @ [P\<lparr>seg_parity := seg_parity P + parity\<rparr>]
         else if n < room w
         then butlast B @ [L\<lparr>seg_accounts := seg_accounts L @ [init_balance w]\<rparr>]
         else B @ [\<lparr>seg_ptr = p, seg_parity = 0, seg_accounts = [init_balance w]\<rparr>])"

definition no_empty :: "acc_seg list \<Rightarrow> bool" where
  "no_empty B \<longleftrightarrow> (\<forall>S \<in> set B. seg_accounts S \<noteq> [])"

definition alloc_post ::
  "workload \<Rightarrow> 64 word \<Rightarrow> acc_seg list \<Rightarrow> store \<Rightarrow> exn + unit loop_result \<Rightarrow> store \<Rightarrow> bool" where
  "alloc_post w trigger B \<sigma> r \<sigma>' \<longleftrightarrow>
     r = Inl TransactionAlloc \<and> \<sigma>' = \<sigma> \<or>
     r = Inr (Finished ()) \<and> (\<exists>p. bank_at w \<sigma>' (alloc_effect w trigger p B))"

lemma remove_account_wp:
  assumes "well_sized w" "bank_at w \<sigma> (B @ [L])" "no_empty (B @ [L])"
    and count: "count = of_nat (length (balances (B @ [L])))" "count > trigger" "count > 2"
    and prev: "B \<noteq> [] \<Longrightarrow> prev = seg_ptr (last B)"
  shows "wp (alloc_last w trigger prev (seg_ptr L) count (of_nat (length (seg_accounts L))))
    (alloc_post w trigger (B @ [L]) \<sigma>) \<sigma>"
proof -
  let ?xs = "seg_accounts L"
  let ?n = "length ?xs" and ?parity = "seg_parity L + last ?xs - init_balance w"
  have L: "seg_at w \<sigma> L" using bank_seg [OF assms(2)] .
  note r = seg_at_reads [OF L assms(1)]
  have xs: "?xs \<noteq> []" "?n \<le> room w" using assms(3) L by (simp_all add: no_empty_def seg_at_def)
  then obtain m where m: "?n = Suc m" by (cases ?xs) auto
  have u: "unat (of_nat m :: 64 word) = m" using m r(5) by (intro unat_of_nat_small) simp
  have n: "of_nat ?n - 1 = (of_nat m :: 64 word)" by (simp add: m)
  have rd: "snd \<sigma> (cell (seg_ptr L) 2) = seg_parity L" "snd \<sigma> (cell (seg_ptr L) (3 + m)) = last ?xs"
    "cell (seg_ptr L) (3 + m) \<in> fst \<sigma>"
    using L xs r(4) m by (simp_all add: seg_at_def last_conv_nth)
  show ?thesis
  proof (cases "?n = 1")
    case False
    then have pos: "(of_nat m :: 64 word) > 0" using u m
      by (metis One_nat_def unat_0 word_gt_0)
    let ?L = "L\<lparr>seg_accounts := butlast ?xs\<rparr>"
    let ?\<sigma> = "set_word (cell (seg_ptr L) 0) (of_nat m) \<sigma>"
    have "bank_at w ?\<sigma> (B @ [?L])"
      using bank_set_count [OF assms(2,1), of "butlast ?xs"] L xs m by (simp add: seg_at_def nth_butlast)
    from bank_set_parity [OF this assms(1), of ?parity]
    have "bank_at w (set_word (cell (seg_ptr L) 2) ?parity ?\<sigma>)
        (B @ [L\<lparr>seg_accounts := butlast ?xs, seg_parity := ?parity\<rparr>])" by simp
    moreover have "alloc_effect w trigger p (B @ [L]) =
        B @ [L\<lparr>seg_accounts := butlast ?xs, seg_parity := ?parity\<rparr>]" for p
      using count False xs by (simp add: alloc_effect_def Let_def Suc_lessI)
    ultimately show ?thesis
      using r(1,3) rd pos count(2,3) u
      by (simp add: n alloc_last_def layout alloc_post_def Let_def)
  next
    case True
    have "B \<noteq> []" using count(1,3) True by auto
    then obtain B0 P where B: "B = B0 @ [P]" by (metis append_butlast_last_id)
    have bank: "bank_at w \<sigma> (B0 @ P # [L])" using assms(2) by (simp add: B)
    have P: "seg_at w \<sigma> P" using bank by (simp add: bank_at_def)
    let ?\<sigma> = "set_word (cell (seg_ptr P) 1) 0 \<sigma>"
    have "bank_at w ?\<sigma> (B0 @ P # [])" using bank_drop_last [OF bank assms(1)] by simp
    note P' = bank_set_parity [OF this assms(1), of "seg_parity P + ?parity"]
    have pp: "snd ?\<sigma> (cell (seg_ptr P) 2) = seg_parity P" using P by (simp add: seg_at_def cell_eq)
    have "alloc_effect w trigger p (B @ [L]) = B0 @ [P\<lparr>seg_parity := seg_parity P + ?parity\<rparr>]" for p
      using count True by (simp add: alloc_effect_def Let_def B butlast_append)
    then show ?thesis
      using r(1,3) rd count(2,3) u True m P' pp prev [OF \<open>B \<noteq> []\<close>] seg_at_reads(2,3) [OF P assms(1)]
      by (simp add: n alloc_last_def layout alloc_post_def Let_def B assert_mode_def)
  qed
qed

lemma add_account_wp:
  assumes "well_sized w" "bank_at w \<sigma> (B @ [L])"
    and count: "count = of_nat (length (balances (B @ [L])))" "\<not> (count > trigger \<and> count > 2)"
  shows "wp (alloc_last w trigger prev (seg_ptr L) count (of_nat (length (seg_accounts L))))
    (alloc_post w trigger (B @ [L]) \<sigma>) \<sigma>"
proof -
  let ?xs = "seg_accounts L"
  let ?n = "length ?xs"
  have L: "seg_at w \<sigma> L" using bank_seg [OF assms(2)] .
  note r = seg_at_reads [OF L assms(1)]
  have len: "?n \<le> room w" using L by (simp add: seg_at_def)
  have lt: "of_nat ?n < nbaccounts w \<longleftrightarrow> ?n < room w" using r(6) by (simp add: word_less_nat_alt)
  show ?thesis
  proof (cases "?n < room w")
    case True
    let ?\<sigma> = "set_word (cell (seg_ptr L) (3 + ?n)) (init_balance w) \<sigma>"
    have w: "room w + 3 < 2 ^ 61" using assms(1) by (simp add: well_sized_def)
    have "bank_at w ?\<sigma> (B @ [L])" by (rule bank_set_unused [OF assms(2,1) _ True]) simp
    moreover have "snd ?\<sigma> (cell (seg_ptr L) (3 + i)) = (?xs @ [init_balance w]) ! i"
      if "i < length (?xs @ [init_balance w])" for i
      using that L True w by (auto simp: seg_at_def cell_eq nth_append less_Suc_eq)
    ultimately have "bank_at w (set_word (cell (seg_ptr L) 0) (of_nat (Suc ?n)) ?\<sigma>)
        (B @ [L\<lparr>seg_accounts := ?xs @ [init_balance w]\<rparr>])"
      using bank_set_count [of w ?\<sigma> B L "[]" "?xs @ [init_balance w]"] assms(1) True by simp
    moreover have "alloc_effect w trigger p (B @ [L]) = B @ [L\<lparr>seg_accounts := ?xs @ [init_balance w]\<rparr>]" for p
      using count True by (auto simp: alloc_effect_def Let_def)
    ultimately show ?thesis
      using count(2) r(1,6) r(4) [OF True] True lt
      by (auto simp: alloc_last_def layout alloc_post_def Let_def add.commute)
  next
    case False
    let ?N = "\<lambda>p. \<lparr>seg_ptr = p, seg_parity = 0, seg_accounts = []\<rparr>"
    have room: "0 < room w" using assms(1) by (auto simp: well_sized_def word_less_nat_alt)
    have post: "wp (shared_write (count_of p) 1
        (shared_write (array_cell (accounts_of p) 0) (init_balance w) (Done (Finished ()))))
        (alloc_post w trigger (B @ [L]) \<sigma>)
        (set_word (cell (seg_ptr L) 1) p (add_segment p (segment_size (room w)) \<sigma>))" (is "wp ?prog ?Q ?\<sigma>")
      if fresh: "fresh_segment p (segment_size (room w)) \<sigma>" for p
    proof -
      have bank: "bank_at w ?\<sigma> ((B @ [L]) @ ?N p # [])" using bank_append [OF assms(2,1) fresh] by simp
      note N = seg_at_reads [OF bank_seg [OF bank] assms(1)]
      let ?\<sigma>1 = "set_word (cell p 0) 1 ?\<sigma>"
      have "bank_at w ?\<sigma>1 ((B @ [L]) @ (?N p)\<lparr>seg_accounts := [snd ?\<sigma> (cell p 3)]\<rparr> # [])"
        using bank_set_count [OF bank assms(1), of "[snd ?\<sigma> (cell p 3)]"] room by (simp add: Suc_le_eq)
      from bank_set_account [OF this assms(1), of 0 "init_balance w"]
      have "bank_at w (set_word (cell p 3) (init_balance w) ?\<sigma>1)
          (B @ [L, \<lparr>seg_ptr = p, seg_parity = 0, seg_accounts = [init_balance w]\<rparr>])" by simp
      moreover have "alloc_effect w trigger p (B @ [L])
          = B @ [L, \<lparr>seg_ptr = p, seg_parity = 0, seg_accounts = [init_balance w]\<rparr>]"
        using count False by (auto simp: alloc_effect_def Let_def)
      ultimately show ?thesis
        using N(1) N(4) [OF room] by (auto simp: layout alloc_post_def intro!: exI [of _ p])
    qed
    have "cell (seg_ptr L) 1 \<in> fst (add_segment p (segment_size (room w)) \<sigma>)" for p
      using r(2) by (simp add: add_segment_def)
    moreover have "segment_size (room w) > 0" by (simp add: segment_size_def)
    ultimately show ?thesis
      using count(2) lt False post
      by (auto simp: alloc_last_def alloc_post_def layout(2))
  qed
qed

text \<open>The loop reads its way to the last segment.\<close>

lemma alloc_loop_wp:
  assumes "well_sized w" "links \<sigma> p (B @ [L])" "\<forall>S \<in> set (B @ [L]). seg_at w \<sigma> S" "length B < fuel"
    and "wp (alloc_last w trigger (if B = [] then prev else seg_ptr (last B)) (seg_ptr L)
      (count + of_nat (length (balances (B @ [L])))) (of_nat (length (seg_accounts L)))) Q \<sigma>"
  shows "wp (alloc_loop w trigger fuel prev p count) Q \<sigma>"
  using assms(2-)
proof (induction B arbitrary: p prev count fuel)
  case Nil
  then obtain f where f: "fuel = Suc f" by (cases fuel) auto
  have L: "seg_at w \<sigma> L" "p = seg_ptr L" "snd \<sigma> (cell p 1) = 0" using Nil.prems(1,2) by auto
  have c: "snd \<sigma> (cell (seg_ptr L) 0) = of_nat (length (seg_accounts L))" using L(1) by (simp add: seg_at_def)
  show ?case
    using Nil.prems(4) L(2,3) seg_at_reads(1,2) [OF L(1) assms(1)] c by (simp add: f layout Let_def)
next
  case (Cons S B)
  then obtain f where f: "fuel = Suc f" "length B < f" by (cases fuel) auto
  have S: "seg_at w \<sigma> S" "p = seg_ptr S" "links \<sigma> (snd \<sigma> (cell p 1)) (B @ [L])"
    using Cons.prems(1,2) by auto
  have c: "snd \<sigma> (cell (seg_ptr S) 0) = of_nat (length (seg_accounts S))" using S(1) by (simp add: seg_at_def)
  have "snd \<sigma> (cell p 1) \<noteq> 0" using S(3) by (cases B) auto
  moreover have "wp (alloc_loop w trigger f (seg_ptr S) (snd \<sigma> (cell p 1)) (count + of_nat (length (seg_accounts S)))) Q \<sigma>"
    using Cons.prems(2,4) f(2) by (intro Cons.IH [OF S(3)]) (auto simp: add.assoc split: if_splits)
  ultimately show ?case
    using S(2) seg_at_reads(1,2) [OF S(1) assms(1)] c by (simp add: f(1) layout Let_def)
qed

lemma alloc_tx_wp:
  assumes "well_sized w" "bank_at w \<sigma> B" "no_empty B" "length B \<le> fuel"
  shows "wp (alloc_tx w fuel trigger) (alloc_post w trigger B \<sigma>) \<sigma>"
proof -
  obtain C L where B: "B = C @ [L]" using assms(2) by (metis append_butlast_last_id bank_at_def)
  have b: "links \<sigma> (bank_start w) (C @ [L])" "\<forall>S \<in> set (C @ [L]). seg_at w \<sigma> S"
    using assms(2) by (simp_all add: bank_at_def B)
  let ?count = "of_nat (length (balances B)) :: 64 word"
  have "wp (alloc_last w trigger (if C = [] then 0 else seg_ptr (last C)) (seg_ptr L)
      ?count (of_nat (length (seg_accounts L)))) (alloc_post w trigger B \<sigma>) \<sigma>"
  proof (cases "?count > trigger \<and> ?count > 2")
    case True
    then show ?thesis
      using remove_account_wp [OF assms(1), of \<sigma> C L ?count trigger "if C = [] then 0 else seg_ptr (last C)"]
        assms(2,3) by (simp add: B)
  next
    case False
    then show ?thesis using add_account_wp [OF assms(1), of \<sigma> C L ?count trigger] assms(2) by (simp add: B)
  qed
  then show ?thesis
    unfolding alloc_tx_def using alloc_loop_wp [OF assms(1) b, of fuel trigger 0 0] assms(4) by (simp add: B)
qed

section \<open>short_tx\<close>

text \<open>Accounts numbered through the segments.\<close>

definition account_addrs :: "acc_seg \<Rightarrow> addr list" where
  "account_addrs S = map (\<lambda>i. cell (seg_ptr S) (3 + i)) [0..<length (seg_accounts S)]"

abbreviation addrs :: "acc_seg list \<Rightarrow> addr list" where
  "addrs B \<equiv> concat (map account_addrs B)"

fun set_balance :: "acc_seg list \<Rightarrow> nat \<Rightarrow> 64 word \<Rightarrow> acc_seg list" where
  "set_balance [] i v = []"
| "set_balance (S # B) i v =
     (if i < length (seg_accounts S) then S\<lparr>seg_accounts := (seg_accounts S)[i := v]\<rparr> # B
      else S # set_balance B (i - length (seg_accounts S)) v)"

lemma length_account_addrs [simp]: "length (account_addrs S) = length (seg_accounts S)"
  by (simp add: account_addrs_def)

lemma nth_account_addrs [simp]:
  "i < length (seg_accounts S) \<Longrightarrow> account_addrs S ! i = cell (seg_ptr S) (3 + i)"
  by (simp add: account_addrs_def)

lemma length_addrs: "length (addrs B) = length (balances B)"
  by (induction B) simp_all

lemma set_balance_simps [simp]:
  "map seg_ptr (set_balance B i v) = map seg_ptr B"
  "map seg_parity (set_balance B i v) = map seg_parity B"
  "map length (map seg_accounts (set_balance B i v)) = map length (map seg_accounts B)"
  by (induction B arbitrary: i) simp_all

lemma balances_set_balance [simp]:
  "balances (set_balance B i v) = (balances B)[i := v]"
proof (induction B arbitrary: i)
  case (Cons S B)
  then show ?case by (simp add: list_update_append)
qed simp

lemma addrs_set_balance [simp]: "addrs (set_balance B i v) = addrs B"
proof (induction B arbitrary: i)
  case (Cons S B)
  then show ?case by (simp add: account_addrs_def)
qed simp

lemma no_empty_set_balance: "no_empty B \<Longrightarrow> no_empty (set_balance B i v)"
proof (induction B arbitrary: i)
  case (Cons S B)
  then show ?case by (auto simp: no_empty_def)
qed (simp add: no_empty_def)

lemma account_at:
  assumes "well_sized w" "\<forall>S \<in> set B. seg_at w \<sigma> S" "i < length (balances B)"
  shows "addrs B ! i \<in> fst \<sigma> \<and> snd \<sigma> (addrs B ! i) = balances B ! i"
  using assms(2,3)
proof (induction B arbitrary: i)
  case (Cons S B)
  have S: "seg_at w \<sigma> S" using Cons.prems(1) by simp
  then have "length (seg_accounts S) \<le> room w" by (simp add: seg_at_def)
  then show ?case
    using Cons.IH [of "i - length (seg_accounts S)"] Cons.prems S seg_at_reads(4) [OF S assms(1)]
    by (auto simp: nth_append seg_at_def)
qed simp

lemma bank_set_balance:
  assumes "well_sized w" "bank_at w \<sigma> (C @ B)" "i < length (balances B)"
  shows "bank_at w (set_word (addrs B ! i) v \<sigma>) (C @ set_balance B i v)"
  using assms(2,3)
proof (induction B arbitrary: C i)
  case (Cons S B)
  show ?case
  proof (cases "i < length (seg_accounts S)")
    case True
    then show ?thesis
      using bank_set_account [OF Cons.prems(1) assms(1) True] by (simp add: nth_append)
  next
    case False
    then show ?thesis
      using Cons.IH [of "C @ [S]" "i - length (seg_accounts S)"] Cons.prems by (simp add: nth_append)
  qed
qed simp

definition short_effect :: "acc_seg list \<Rightarrow> nat \<Rightarrow> nat \<Rightarrow> acc_seg list" where
  "short_effect B send recv =
     (let v = balances B ! send
      in if 0 <s v
         then let B1 = set_balance B send (v - 1) in set_balance B1 recv (balances B1 ! recv + 1)
         else B)"

lemma transfer_wp:
  assumes "well_sized w" "bank_at w \<sigma> B" "send < length (balances B)" "recv < length (balances B)"
  shows "wp (transfer (addrs B ! send) (addrs B ! recv))
    (\<lambda>r \<sigma>'. r = Inr (Finished True) \<and> bank_at w \<sigma>' (short_effect B send recv)) \<sigma>"
proof -
  let ?v = "balances B ! send"
  let ?B1 = "set_balance B send (?v - 1)" and ?\<sigma>1 = "set_word (addrs B ! send) (?v - 1) \<sigma>"
  have seg: "\<forall>S \<in> set B. seg_at w \<sigma> S" using assms(2) by (simp add: bank_at_def)
  note s = account_at [OF assms(1) seg assms(3)] and r = account_at [OF assms(1) seg assms(4)]
  have b1: "bank_at w ?\<sigma>1 ?B1"
    using bank_set_balance [OF assms(1), of \<sigma> "[]" B send] assms(2,3) by simp
  then have seg1: "\<forall>S \<in> set ?B1. seg_at w ?\<sigma>1 S" by (simp add: bank_at_def)
  have "recv < length (balances ?B1)" using assms(4) by (simp only: balances_set_balance length_list_update)
  note r1 = account_at [OF assms(1) seg1 this, unfolded addrs_set_balance]
    and b2 = bank_set_balance [where C = "[]", unfolded append_Nil, OF assms(1) b1 this, unfolded addrs_set_balance]
  then show ?thesis
    using s r assms(2)
    by (simp add: transfer_def short_effect_def Let_def del: set_word_simps(2) balances_set_balance)
qed

text \<open>The account an index stands for, when a pointer may have been found before.\<close>

fun target :: "addr \<Rightarrow> nat \<Rightarrow> acc_seg list \<Rightarrow> addr option" where
  "target ptr i [] = (if ptr = 0 then None else Some ptr)"
| "target ptr i (S # B) =
     (if ptr \<noteq> 0 then Some ptr
      else if i < length (seg_accounts S) then Some (cell (seg_ptr S) (3 + i))
      else target 0 (i - length (seg_accounts S)) B)"

lemma target_eq:
  "target 0 i B = (if i < length (balances B) then Some (addrs B ! i) else None)"
proof (induction B arbitrary: i)
  case (Cons S B)
  then show ?case by (auto simp: nth_append)
qed simp

lemma target_found: "ptr \<noteq> 0 \<Longrightarrow> target ptr i B = Some ptr"
  by (cases B) simp_all

definition short_post :: "(exn + bool loop_result \<Rightarrow> store \<Rightarrow> bool) \<Rightarrow> store \<Rightarrow> addr option \<Rightarrow> addr option \<Rightarrow> bool" where
  "short_post Q \<sigma> s r =
     (case (s, r) of (Some s, Some r) \<Rightarrow> wp (transfer s r) Q \<sigma> | _ \<Rightarrow> Q (Inr (Finished False)) \<sigma>)"

lemma short_loop_wp:
  assumes "well_sized w" "links \<sigma> p B" "\<forall>S \<in> set B. seg_at w \<sigma> S" "B \<noteq> []" "length B \<le> fuel"
    and "sp = 0 \<or> rp = 0" "0 \<notin> fst \<sigma>"
  shows "wp (short_loop fuel p sid rid sp rp) Q \<sigma> =
    short_post Q \<sigma> (target sp (unat sid) B) (target rp (unat rid) B)"
  using assms(2-6)
proof (induction B arbitrary: p fuel sid rid sp rp)
  case (Cons S B)
  then obtain f where f: "fuel = Suc f" "length B \<le> f" by (cases fuel) auto
  let ?n = "length (seg_accounts S)" and ?next = "snd \<sigma> (cell (seg_ptr S) 1)"
  have S: "seg_at w \<sigma> S" "p = seg_ptr S" "links \<sigma> ?next B" using Cons.prems(1,2) by auto
  note r = seg_at_reads [OF S(1) assms(1)]
  have c: "snd \<sigma> (cell (seg_ptr S) 0) = of_nat ?n" using S(1) by (simp add: seg_at_def)
  have lt: "id < of_nat ?n \<longleftrightarrow> unat id < ?n" for id :: "64 word" using r(6) by (simp add: word_less_nat_alt)
  have sub: "unat (id - of_nat ?n) = unat id - ?n" if "\<not> unat id < ?n" for id :: "64 word"
    using that r(6) by (simp add: unat_sub word_le_nat_alt)
  have nz: "cell (seg_ptr S) (3 + unat id) \<noteq> 0" if "unat id < ?n" for id :: "64 word"
    using that r(4) [of "unat id"] S(1) assms(7) by (auto simp: seg_at_def)
  have step: "wp (if ?next = 0 then Done (Finished False) else short_loop f ?next sid' rid' sp' rp') Q \<sigma>
      = short_post Q \<sigma> (target sp' (unat sid') B) (target rp' (unat rid') B)"
    if "sp' = 0 \<or> rp' = 0" for sid' rid' sp' rp'
  proof (cases "B = []")
    case True
    then show ?thesis using S(3) that by (auto simp: short_post_def split: option.split)
  next
    case False
    then have "?next \<noteq> 0" using S(3) by (cases B) auto
    then show ?thesis using Cons.IH [OF S(3) _ False f(2) that] Cons.prems(2) by simp
  qed
  show ?case
    using Cons.prems(5) r(1,2)
    by (cases "sp = 0"; cases "rp = 0"; cases "unat sid < ?n"; cases "unat rid < ?n")
       (simp_all add: f(1) S(2) layout c lt seek_def Let_def step [unfolded One_nat_def] sub nz target_found short_post_def)
qed simp

end
