(* ===== verification/Bank_Theorems.thy ===== *)
theory Bank_Theorems
  imports Bank_Lists
begin

text \<open>
  Correctness of the bank workload: its transactions conserve the money, so on an atomic memory
  the control transaction never reports a violation; with the contract of the sequential
  library this holds of the workload running on \<open>394984/tm.cpp\<close>.
\<close>

section \<open>Money\<close>

lemma sum_list_upd:
  "i < length xs \<Longrightarrow> sum_list (xs[i := v]) = sum_list xs - xs ! i + (v :: 'a :: ab_group_add)"
proof (induction xs arbitrary: i)
  case (Cons x xs)
  then show ?case by (cases i) (simp_all add: algebra_simps)
qed simp

lemma sum_unat_upd:
  "i < length xs \<Longrightarrow>
     sum_list (map unat (xs[i := v])) + unat (xs ! i) = sum_list (map unat xs) + unat (v :: 'a :: len word)"
proof (induction xs arbitrary: i)
  case (Cons x xs)
  then show ?case by (cases i) auto
qed simp

definition conserved :: "workload \<Rightarrow> acc_seg list \<Rightarrow> bool" where
  "conserved w B \<longleftrightarrow>
     sum_list (map seg_parity B) + sum_list (balances B) = init_balance w * of_nat (length (balances B))"

definition money :: "acc_seg list \<Rightarrow> nat" where
  "money B = sum_list (map unat (balances B))"

lemma nonneg_small:
  assumes "unat (a :: 64 word) < 2 ^ 63"
  shows "sint a = int (unat a)"
proof -
  have "int (unat a) < int (2 ^ 63)" using assms by (simp only: of_nat_less_iff)
  then have "uint a < 2 ^ 63" by simp
  moreover have "- (2 ^ 63) \<le> uint a" by (rule order_trans [of _ 0]) simp_all
  ultimately have "signed_take_bit 63 (uint a) = uint a" by (intro signed_take_bit_int_eq_self)
  then show ?thesis by (simp add: sint_uint)
qed

lemma balance_money: "a \<in> set (balances B) \<Longrightarrow> unat a \<le> money B"
  unfolding money_def by (rule member_le_sum_list) auto

lemma money_nonneg: "money B < 2 ^ 63 \<Longrightarrow> a \<in> set (balances B) \<Longrightarrow> \<not> a <s 0"
  using balance_money [of a B] nonneg_small [of a] by (simp add: word_sless_alt)

lemma long_result_eq:
  "(\<And>a. a \<in> set (balances B) \<Longrightarrow> \<not> a <s 0) \<Longrightarrow> long_result w B count acc =
    (acc + sum_list (map seg_parity B) + sum_list (balances B)
       = init_balance w * (count + of_nat (length (balances B))),
     Some (count + of_nat (length (balances B))))"
  by (induction B arbitrary: count acc) (auto simp: algebra_simps)

lemma long_result_conserved:
  assumes "conserved w B" "money B < 2 ^ 63"
  shows "long_result w B 0 0 = (True, Some (of_nat (length (balances B))))"
  using long_result_eq [of B w 0 0] money_nonneg [OF assms(2)] assms(1) by (simp add: conserved_def)

subsection \<open>short_tx\<close>

lemma short_effect_conserved:
  assumes "conserved w B" "send < length (balances B)" "recv < length (balances B)"
  shows "conserved w (short_effect B send recv)"
  using assms
  by (simp add: short_effect_def conserved_def Let_def sum_list_upd nth_list_update
      set_balance_simps(2) del: length_concat)

lemma short_effect_money:
  assumes "money B < 2 ^ 63" "send < length (balances B)" "recv < length (balances B)"
  shows "money (short_effect B send recv) = money B"
proof (cases "0 <s balances B ! send")
  case True
  let ?xs = "balances B"
  let ?ys = "?xs[send := ?xs ! send - 1]"
  have "?xs ! send \<noteq> 0" using True by auto
  then have s: "unat (?xs ! send - 1) = unat (?xs ! send) - 1" "unat (?xs ! send) \<ge> 1"
    by (simp_all add: unat_minus_one unat_gt_0 Suc_le_eq)
  have m1: "sum_list (map unat ?ys) + 1 = money B"
    using sum_unat_upd [OF assms(2), of "?xs ! send - 1"] s by (simp add: money_def)
  have r: "recv < length ?ys" using assms(3) by simp
  then have "unat (?ys ! recv) \<le> sum_list (map unat ?ys)" by (intro member_le_sum_list) auto
  then have "unat (?ys ! recv + 1) = unat (?ys ! recv) + 1"
    using m1 assms(1) by (simp add: unat_word_ariths)
  then have "sum_list (map unat (?ys[recv := ?ys ! recv + 1])) = sum_list (map unat ?ys) + 1"
    using sum_unat_upd [OF r, of "?ys ! recv + 1"] by simp
  then show ?thesis using True m1 by (simp add: short_effect_def Let_def money_def)
qed (simp add: short_effect_def)

lemma short_effect_balances:
  "0 <s balances B ! send \<Longrightarrow> send \<noteq> recv \<Longrightarrow> balances (short_effect B send recv) =
     (balances B)[send := balances B ! send - 1, recv := balances B ! recv + 1]"
  by (simp add: short_effect_def Let_def)

lemma short_effect_no_empty: "no_empty B \<Longrightarrow> no_empty (short_effect B send recv)"
  by (simp add: short_effect_def Let_def no_empty_set_balance)

subsection \<open>alloc_tx\<close>

lemma alloc_effect_ok:
  assumes "no_empty B" "B \<noteq> []" "conserved w B"
  shows "conserved w (alloc_effect w trigger p B)" "no_empty (alloc_effect w trigger p B)"
    "money (alloc_effect w trigger p B) \<le> money B + unat (init_balance w)"
proof -
  obtain C L where B: "B = C @ [L]" using assms(2) by (metis append_butlast_last_id)
  obtain xs x where xs: "seg_accounts L = xs @ [x]"
    using assms(1) unfolding B no_empty_def by (metis append_butlast_last_id in_set_conv_decomp)
  let ?E = "alloc_effect w trigger p B"
  let ?add = "of_nat (length (balances B)) > trigger \<and> of_nat (length (balances B)) > (2 :: 64 word)"
  have "conserved w ?E \<and> no_empty ?E \<and> money ?E \<le> money B + unat (init_balance w)"
  proof (cases ?add)
    case False
    then show ?thesis
      using assms by (auto simp: alloc_effect_def Let_def B conserved_def no_empty_def money_def algebra_simps)
  next
    case True
    show ?thesis
    proof (cases "xs = []")
      case False
      then have "?E = C @ [L\<lparr>seg_accounts := xs, seg_parity := seg_parity L + x - init_balance w\<rparr>]"
        using True by (simp add: alloc_effect_def Let_def B xs)
      then show ?thesis
        using assms False by (auto simp: B xs conserved_def no_empty_def money_def algebra_simps)
    next
      case one: True
      have "C \<noteq> []" using True by (auto simp: B xs one)
      then obtain D P where C: "C = D @ [P]" by (metis append_butlast_last_id)
      have "?E = D @ [P\<lparr>seg_parity := seg_parity P + (seg_parity L + x - init_balance w)\<rparr>]"
        using True by (simp add: alloc_effect_def Let_def B xs one C butlast_append)
      then show ?thesis
        using assms by (auto simp: B xs one C conserved_def no_empty_def money_def algebra_simps)
    qed
  qed
  then show "conserved w ?E" "no_empty ?E" "money ?E \<le> money B + unat (init_balance w)" by blast+
qed

lemma alloc_effect_length:
  assumes "no_empty B" "B \<noteq> []"
  shows "length (balances (alloc_effect w trigger p B)) =
    (if of_nat (length (balances B)) > trigger \<and> of_nat (length (balances B)) > (2 :: 64 word)
     then length (balances B) - 1 else length (balances B) + 1)"
proof -
  obtain C L where B: "B = C @ [L]" using assms(2) by (metis append_butlast_last_id)
  obtain xs x where xs: "seg_accounts L = xs @ [x]"
    using assms(1) unfolding B no_empty_def by (metis append_butlast_last_id in_set_conv_decomp)
  show ?thesis
  proof (cases "xs = [] \<and> of_nat (length (balances B)) > trigger \<and> of_nat (length (balances B)) > (2 :: 64 word)")
    case True
    then have "C \<noteq> []" by (auto simp: B xs)
    then obtain D P where C: "C = D @ [P]" by (metis append_butlast_last_id)
    show ?thesis using True by (auto simp: alloc_effect_def Let_def B xs C butlast_append)
  next
    case False
    then show ?thesis by (auto simp: alloc_effect_def Let_def B xs)
  qed
qed

section \<open>Enough fuel\<close>

lemma segment_pointers:
  assumes "apart w B" "\<And>S. S \<in> set B \<Longrightarrow> words_at w (seg_ptr S) \<subseteq> A"
  shows "distinct (map seg_ptr B) \<and> set (map seg_ptr B) \<subseteq> A"
  using assms
proof (induction B)
  case (Cons S B)
  have own: "seg_ptr T \<in> words_at w (seg_ptr T)" for T
    using cell_words [of 0 w "seg_ptr T"] by (simp add: cell_def)
  have IH: "distinct (map seg_ptr B)" "set (map seg_ptr B) \<subseteq> A" using Cons by simp_all
  have "seg_ptr S \<noteq> seg_ptr T" if "T \<in> set B" for T
  proof -
    have "words_at w (seg_ptr S) \<inter> words_at w (seg_ptr T) = {}" using Cons.prems(1) that by simp
    then show ?thesis using own [of S] by auto
  qed
  then have "seg_ptr S \<notin> set (map seg_ptr B)" by (simp add: image_iff)
  moreover have "seg_ptr S \<in> A" using own [of S] Cons.prems(2) [of S] by auto
  ultimately show ?case using IH by simp
qed simp

text \<open>A list of segments fits the address space: it is shorter than the fuel.\<close>
lemma bank_length:
  assumes "bank_at w \<sigma> B"
  shows "length B < bank_fuel"
proof -
  have "distinct (map seg_ptr B) \<and> set (map seg_ptr B) \<subseteq> fst \<sigma>"
    using assms by (intro segment_pointers [of w]) (auto simp: bank_at_def seg_at_def)
  then have "length B = card (set (map seg_ptr B))" "set (map seg_ptr B) \<subseteq> UNIV - {0}"
    using assms distinct_card [of "map seg_ptr B"] by (auto simp: bank_at_def)
  moreover have "card (UNIV - {0 :: addr}) < bank_fuel" by (simp add: bank_fuel_def card_Diff_singleton card_word)
  ultimately show ?thesis
    using card_mono [of "UNIV - {0 :: addr}" "set (map seg_ptr B)"] by simp
qed

section \<open>init\<close>

abbreviation new_segment :: "addr \<Rightarrow> 64 word list \<Rightarrow> acc_seg" where
  "new_segment p xs \<equiv> \<lparr>seg_ptr = p, seg_parity = 0, seg_accounts = xs\<rparr>"

definition zeroed :: "workload \<Rightarrow> store \<Rightarrow> bool" where
  "zeroed w \<sigma> \<longleftrightarrow> \<sigma> = (words_at w (bank_start w), \<lambda>_. 0) \<and> bank_start w \<noteq> 0 \<and> 0 \<notin> fst \<sigma>"

lemma fill_accounts_wp:
  assumes "well_sized w" "bank_at w \<sigma> [new_segment p xs]" "length xs = room w" "i \<le> room w"
    and "take i xs = replicate i (init_balance w)"
  shows "wp (fill_accounts (accounts_of p) (nbaccounts w) (init_balance w) (of_nat i) (Done ()))
    (\<lambda>r \<sigma>'. r = Inr () \<and> bank_at w \<sigma>' [new_segment p (replicate (room w) (init_balance w))]) \<sigma>"
  using assms(2-)
proof (induction "room w - i" arbitrary: i xs \<sigma>)
  case 0
  then have i: "i = room w" by simp
  show ?case using 0 by (subst fill_accounts.simps) (simp add: i)
next
  case (Suc n)
  then have i: "i < room w" "n = room w - Suc i" by simp_all
  have "room w + 3 < 2 ^ 61" using assms(1) by (simp add: well_sized_def)
  then have u: "unat (of_nat i :: 64 word) = i" using i by (intro unat_of_nat_small) simp
  have rd: "cell p (3 + i) \<in> fst \<sigma>"
    using seg_at_reads(4) [OF _ assms(1) i(1), of \<sigma> "new_segment p xs"] Suc.prems(1) by (simp add: bank_at_def)
  have "bank_at w (set_word (cell p (3 + i)) (init_balance w) \<sigma>) [new_segment p (xs[i := init_balance w])]"
    using bank_set_account [where B = "[]" and C = "[]", OF _ assms(1), of \<sigma> "new_segment p xs" i] Suc.prems(1,2) i by simp
  moreover have "take (Suc i) (xs[i := init_balance w]) = replicate (Suc i) (init_balance w)"
    using Suc.prems(2,4) i by (simp add: take_Suc_conv_app_nth replicate_append_same)
  ultimately have "wp (fill_accounts (accounts_of p) (nbaccounts w) (init_balance w) (of_nat (Suc i)) (Done ()))
    (\<lambda>r \<sigma>'. r = Inr () \<and> bank_at w \<sigma>' [new_segment p (replicate (room w) (init_balance w))])
    (set_word (cell p (3 + i)) (init_balance w) \<sigma>)"
    using i Suc.prems(2) by (intro Suc.hyps(1)) simp_all
  then show ?case
    using i u rd by (subst fill_accounts.simps) (simp add: word_less_nat_alt layout(4) add.commute)
qed

lemma init_tx_wp:
  assumes "well_sized w" "zeroed w \<sigma>"
  shows "wp (init_tx w) (\<lambda>r \<sigma>'. r = Inr () \<and>
    bank_at w \<sigma>' [new_segment (bank_start w) (replicate (room w) (init_balance w))]) \<sigma>"
proof -
  let ?p = "bank_start w"
  have z: "fst \<sigma> = words_at w ?p" "\<And>a. snd \<sigma> a = 0" "?p \<noteq> 0" "0 \<notin> fst \<sigma>"
    using assms(2) by (auto simp: zeroed_def)
  have "bank_at w \<sigma> [new_segment ?p []]" using z(4) by (auto simp: bank_at_def seg_at_def z(1-3))
  then have "bank_at w (set_word (cell ?p 0) (nbaccounts w) \<sigma>) [new_segment ?p (replicate (room w) 0)]"
    using bank_set_count [of w \<sigma> "[]" "new_segment ?p []" "[]" "replicate (room w) 0"] assms(1) by (simp add: z)
  from fill_accounts_wp [OF assms(1) this, of 0]
  show ?thesis using z cell_words [of 0 w ?p] by (simp add: init_tx_def layout(1))
qed

lemma init_check_wp:
  assumes "well_sized w" "bank_at w \<sigma> [new_segment (bank_start w) (replicate (room w) (init_balance w))]"
  shows "wp (init_check w) (\<lambda>r \<sigma>'. r = Inr True \<and> \<sigma>' = \<sigma>) \<sigma>"
proof -
  have room: "0 < room w" using assms(1) by (auto simp: well_sized_def word_less_nat_alt)
  let ?S = "new_segment (bank_start w) (replicate (room w) (init_balance w))"
  have "seg_at w \<sigma> ?S" using assms(2) by (simp add: bank_at_def)
  then have "cell (bank_start w) 3 \<in> fst \<sigma>" "snd \<sigma> (cell (bank_start w) 3) = init_balance w"
    using seg_at_reads(4) [OF _ assms(1) room, of \<sigma> ?S] room by (auto simp: seg_at_def)
  then show ?thesis by (simp add: init_check_def layout(4))
qed

section \<open>Histories of the bank\<close>

text \<open>The memory after \<open>init\<close> and any sequence of transactions, \<open>n\<close> of them of \<open>alloc_tx\<close>.\<close>

inductive bank_history :: "workload \<Rightarrow> nat \<Rightarrow> store \<Rightarrow> bool" for w where
  history_init: "zeroed w \<sigma> \<Longrightarrow> atomically (init_tx w) \<sigma> r \<sigma>' \<Longrightarrow> bank_history w 0 \<sigma>'"
| history_long: "bank_history w n \<sigma> \<Longrightarrow> atomically (long_tx w bank_fuel) \<sigma> r \<sigma>' \<Longrightarrow> bank_history w n \<sigma>'"
| history_alloc: "bank_history w n \<sigma> \<Longrightarrow> atomically (alloc_tx w bank_fuel trigger) \<sigma> r \<sigma>' \<Longrightarrow>
    bank_history w (Suc n) \<sigma>'"
| history_short: "bank_history w n \<sigma> \<Longrightarrow> atomically (short_tx w bank_fuel send recv) \<sigma> r \<sigma>' \<Longrightarrow>
    bank_history w n \<sigma>'"

definition sound_bank :: "workload \<Rightarrow> nat \<Rightarrow> store \<Rightarrow> acc_seg list \<Rightarrow> bool" where
  "sound_bank w n \<sigma> B \<longleftrightarrow> bank_at w \<sigma> B \<and> no_empty B \<and> conserved w B \<and>
     money B \<le> unat (init_balance w) * (room w + n)"

lemma sound_bankD:
  assumes "sound_bank w n \<sigma> B"
  shows "bank_at w \<sigma> B" "no_empty B" "conserved w B" "money B \<le> unat (init_balance w) * (room w + n)"
  using assms by (simp_all add: sound_bank_def)

lemma long_tx_sound:
  assumes "well_sized w" "sound_bank w n \<sigma> B" "unat (init_balance w) * (room w + n) < 2 ^ 63"
  shows "wp (long_tx w bank_fuel)
    (\<lambda>r \<sigma>'. r = Inr (Finished (True, Some (of_nat (length (balances B))))) \<and> \<sigma>' = \<sigma>) \<sigma>"
proof -
  note b = sound_bankD [OF assms(2)]
  have "money B < 2 ^ 63" using b(4) assms(3) by simp
  from long_result_conserved [OF b(3) this]
  show ?thesis
    using long_loop_wp [OF assms(1), of \<sigma> "bank_start w" B bank_fuel 0 0] b(1) bank_length [OF b(1)]
    by (simp add: long_tx_def bank_at_def)
qed

lemma alloc_tx_sound:
  assumes "well_sized w" "sound_bank w n \<sigma> B"
  shows "wp (alloc_tx w bank_fuel trigger)
    (\<lambda>r \<sigma>'. (r = Inl TransactionAlloc \<or> r = Inr (Finished ())) \<and> (\<exists>B'. sound_bank w (Suc n) \<sigma>' B')) \<sigma>"
proof (rule wp_mono [OF alloc_tx_wp [OF assms(1)]])
  note b = sound_bankD [OF assms(2)]
  show "bank_at w \<sigma> B" "no_empty B" by (rule b)+
  show "length B \<le> bank_fuel" using bank_length [OF b(1)] by simp
  fix r \<sigma>'
  assume post: "alloc_post w trigger B \<sigma> r \<sigma>'"
  have "B \<noteq> []" using b(1) by (simp add: bank_at_def)
  note e = alloc_effect_ok [OF b(2) this b(3), of trigger]
  have "money (alloc_effect w trigger p B) \<le> unat (init_balance w) * (room w + Suc n)" for p
    using e(3) [of p] b(4) by (simp add: algebra_simps)
  then show "(r = Inl TransactionAlloc \<or> r = Inr (Finished ())) \<and> (\<exists>B'. sound_bank w (Suc n) \<sigma>' B')"
    using post e(1,2) b by (fastforce simp: alloc_post_def sound_bank_def)
qed

lemma short_tx_wp:
  assumes "well_sized w" "bank_at w \<sigma> B" "length B \<le> fuel"
  shows "wp (short_tx w fuel send recv)
    (\<lambda>r \<sigma>'. if unat send < length (balances B) \<and> unat recv < length (balances B)
       then r = Inr (Finished True) \<and> bank_at w \<sigma>' (short_effect B (unat send) (unat recv))
       else r = Inr (Finished False) \<and> \<sigma>' = \<sigma>) \<sigma>"
proof -
  have b: "links \<sigma> (bank_start w) B" "\<forall>S \<in> set B. seg_at w \<sigma> S" "B \<noteq> []" "0 \<notin> fst \<sigma>"
    using assms(2) by (simp_all add: bank_at_def)
  show ?thesis
    unfolding short_tx_def short_loop_wp [OF assms(1) b(1-3) assms(3) disjI1 [OF refl] b(4)]
    using transfer_wp [OF assms(1,2), of "unat send" "unat recv"]
    by (auto simp: short_post_def target_eq)
qed

lemma short_tx_sound:
  assumes "well_sized w" "sound_bank w n \<sigma> B" "unat (init_balance w) * (room w + n) < 2 ^ 63"
  shows "wp (short_tx w bank_fuel send recv) (\<lambda>r \<sigma>'. \<exists>B'. sound_bank w n \<sigma>' B') \<sigma>"
proof (rule wp_mono [OF short_tx_wp [OF assms(1)]])
  note b = sound_bankD [OF assms(2)]
  show "bank_at w \<sigma> B" by (rule b)
  show "length B \<le> bank_fuel" using bank_length [OF b(1)] by simp
  fix r \<sigma>'
  have m: "money B < 2 ^ 63" using b(4) assms(3) by simp
  assume "if unat send < length (balances B) \<and> unat recv < length (balances B)
       then r = Inr (Finished True) \<and> bank_at w \<sigma>' (short_effect B (unat send) (unat recv))
       else r = Inr (Finished False) \<and> \<sigma>' = \<sigma>"
  then show "\<exists>B'. sound_bank w n \<sigma>' B'"
    using assms(2) short_effect_conserved [OF b(3), of "unat send" "unat recv"]
      short_effect_money [OF m, of "unat send" "unat recv"] short_effect_no_empty [OF b(2), of "unat send" "unat recv"] b(4)
    by (auto simp: sound_bank_def split: if_splits)
qed

lemma init_tx_sound:
  assumes "well_sized w" "zeroed w \<sigma>"
  shows "wp (init_tx w) (\<lambda>r \<sigma>'. r = Inr () \<and> (\<exists>B. sound_bank w 0 \<sigma>' B)) \<sigma>"
proof (rule wp_mono [OF init_tx_wp [OF assms]])
  let ?B = "[new_segment (bank_start w) (replicate (room w) (init_balance w))]"
  have "0 < room w" using assms(1) by (auto simp: well_sized_def word_less_nat_alt)
  then have "no_empty ?B" "conserved w ?B" "money ?B \<le> unat (init_balance w) * (room w + 0)"
    by (simp_all add: no_empty_def conserved_def money_def sum_list_replicate mult.commute)
  then show "r = Inr () \<and> bank_at w \<sigma>' ?B \<Longrightarrow> r = Inr () \<and> (\<exists>B. sound_bank w 0 \<sigma>' B)" for r \<sigma>'
    by (auto simp: sound_bank_def)
qed

lemma sound_bank_mono: "sound_bank w n \<sigma> B \<Longrightarrow> n \<le> m \<Longrightarrow> sound_bank w m \<sigma> B"
  by (auto simp: sound_bank_def elim!: order_trans)

lemma history_sound:
  assumes "bank_history w n \<sigma>" "well_sized w" "unat (init_balance w) * (room w + n) < 2 ^ 63"
  shows "\<exists>B. sound_bank w n \<sigma> B"
  using assms(1,3)
proof (induction rule: bank_history.induct)
  case (history_init \<sigma> r \<sigma>')
  then show ?case using wp_atomically [OF _ init_tx_sound [OF assms(2)]] by blast
next
  case (history_long n \<sigma> r \<sigma>')
  then obtain B where "sound_bank w n \<sigma> B" by blast
  with wp_atomically [OF history_long.hyps(2) long_tx_sound [OF assms(2) this history_long.prems]]
  show ?case by blast
next
  case (history_alloc n \<sigma> trigger r \<sigma>')
  moreover have "unat (init_balance w) * (room w + n) < 2 ^ 63" using history_alloc.prems by (simp add: algebra_simps)
  ultimately obtain B where "sound_bank w n \<sigma> B" by blast
  from wp_atomically [OF history_alloc.hyps(2) alloc_tx_sound [OF assms(2) this]] show ?case by blast
next
  case (history_short n \<sigma> send recv r \<sigma>')
  then obtain B where "sound_bank w n \<sigma> B" by blast
  from wp_atomically [OF history_short.hyps(2) short_tx_sound [OF assms(2) this history_short.prems]]
  show ?case by blast
qed

lemma long_result_negative:
  "\<exists>a \<in> set (balances B). a <s 0 \<Longrightarrow> long_result w B count acc = (False, None)"
  by (induction B arbitrary: count acc) auto

lemma atomically_total: "\<exists>r \<sigma>'. atomically p \<sigma> r \<sigma>'"
proof (induction p arbitrary: \<sigma>)
  case (AllocSeg sz k)
  show ?case using at_nomem by blast
qed auto

section \<open>The bank on the sequential library\<close>

lemma sum_accounts_reads_only:
  assumes "reads_only bad" "\<And>acc. reads_only (k acc)"
  shows "reads_only (sum_accounts accounts n i acc bad k)"
  using assms
proof (induction accounts n i acc bad k rule: sum_accounts.induct)
  case (1 accounts n i acc bad k)
  then show ?case by (subst sum_accounts.simps) simp
qed

lemma long_loop_reads_only: "reads_only (long_loop w fuel seg count acc)"
  by (induction fuel arbitrary: seg count acc) (simp_all add: sum_accounts_reads_only)

text \<open>
  A client that opens the memory, runs \<open>init\<close> and then any transactions of the workload, each in
  the retry loop; \<open>n\<close> counts the calls of \<open>alloc_tx\<close>.
\<close>

inductive bank_client :: "environment \<Rightarrow> addr \<Rightarrow> nat \<Rightarrow> workload \<Rightarrow> nat \<Rightarrow> heap \<Rightarrow> bool" for env sh len w where
  client_init: "region_ready env sh h \<Longrightarrow> zeroed w (seq_committed sh h) \<Longrightarrow>
    transactional (seq_memory env sh (bank_start w) len) False (init_tx w) h = Some (Returned (), h') \<Longrightarrow>
    bank_client env sh len w 0 h'"
| client_long: "bank_client env sh len w n h \<Longrightarrow>
    transactional (seq_memory env sh (bank_start w) len) True (long_tx w bank_fuel) h = Some (r1, h') \<Longrightarrow>
    bank_client env sh len w n h'"
| client_alloc: "bank_client env sh len w n h \<Longrightarrow>
    transactional (seq_memory env sh (bank_start w) len) False (alloc_tx w bank_fuel trigger) h = Some (r2, h') \<Longrightarrow>
    bank_client env sh len w (Suc n) h'"
| client_short: "bank_client env sh len w n h \<Longrightarrow>
    short_call (seq_memory env sh (bank_start w) len) w send recv h = Some (r3, h') \<Longrightarrow>
    bank_client env sh len w n h'"

lemma committed_step:
  assumes "transactional (seq_memory env sh st len) ro p h = Some (r, h')" "region_ready env sh h"
    "ro \<longrightarrow> reads_only p" "wp p Q (seq_committed sh h)"
  shows "region_ready env sh h' \<and>
    (seq_committed sh h' = seq_committed sh h \<or> (\<exists>q. Q q (seq_committed sh h')))"
  using seq.transactional_atomic [OF assms(1-3) wp_safe [OF assms(4)]]
    wp_atomically [of p "seq_committed sh h" _ "seq_committed sh h'", OF _ assms(4)]
  by (auto simp: seq.attempted_def is_retry_def split: outcome.splits exn.splits)

lemma committed_step_with:
  assumes "transactional_with (seq_memory env sh st len) ro func leave c h = Some (r, h')" "region_ready env sh h"
    "\<And>c. ro \<longrightarrow> reads_only (func c)" "\<And>c. wp (func c) Q (seq_committed sh h)"
  shows "region_ready env sh h' \<and>
    (seq_committed sh h' = seq_committed sh h \<or> (\<exists>q. Q q (seq_committed sh h')))"
proof -
  obtain c' where "seq.attempted env sh (func c') h r h'" "\<not> is_retry r"
    using seq.transactional_with_atomic [OF assms(1-3) wp_safe [OF assms(4)]] by blast
  then show ?thesis
    using wp_atomically [of "func c'" "seq_committed sh h" _ "seq_committed sh h'", OF _ assms(4)]
    by (auto simp: seq.attempted_def is_retry_def split: outcome.splits exn.splits)
qed

lemma returned_step:
  assumes "transactional (seq_memory env sh st len) ro p h = Some (Returned v, h')" "region_ready env sh h"
    "ro \<longrightarrow> reads_only p" "wp p Q (seq_committed sh h)"
  shows "Q (Inr v) (seq_committed sh h')"
  using seq.transactional_atomic [OF assms(1-3) wp_safe [OF assms(4)]]
    wp_atomically [of p "seq_committed sh h" _ "seq_committed sh h'", OF _ assms(4)]
  by (auto simp: seq.attempted_def)

lemma client_sound:
  assumes "bank_client env sh len w n h" "well_sized w" "unat (init_balance w) * (room w + n) < 2 ^ 63"
  shows "region_ready env sh h \<and> (\<exists>B. sound_bank w n (seq_committed sh h) B)"
  using assms(1,3)
proof (induction rule: bank_client.induct)
  case (client_init h h')
  have wp: "wp (init_tx w) (\<lambda>r \<sigma>'. \<exists>B. sound_bank w 0 \<sigma>' B) (seq_committed sh h)"
    by (rule wp_mono [OF init_tx_sound [OF assms(2) client_init.hyps(2)]]) blast
  from committed_step [OF client_init.hyps(3,1) _ wp] returned_step [OF client_init.hyps(3,1) _ wp]
  show ?case by simp
next
  case (client_long n h r1 h')
  then obtain B where B: "region_ready env sh h" "sound_bank w n (seq_committed sh h) B" by blast
  have "True \<longrightarrow> reads_only (long_tx w bank_fuel)" by (simp add: long_tx_def long_loop_reads_only)
  from committed_step [OF client_long.hyps(2) B(1) this long_tx_sound [OF assms(2) B(2) client_long.prems]]
  show ?case using B(2) by auto
next
  case (client_alloc n h trigger r2 h')
  moreover have "unat (init_balance w) * (room w + n) < 2 ^ 63" using client_alloc.prems by (simp add: algebra_simps)
  ultimately obtain B where B: "region_ready env sh h" "sound_bank w n (seq_committed sh h) B" by blast
  from committed_step [OF client_alloc.hyps(2) B(1) _ alloc_tx_sound [OF assms(2) B(2)]]
  show ?case using sound_bank_mono [OF B(2), of "Suc n"] by auto
next
  case (client_short n h send recv r3 h')
  then obtain B where B: "region_ready env sh h" "sound_bank w n (seq_committed sh h) B" by blast
  have "wp (case c of (send, recv) \<Rightarrow> short_tx w bank_fuel send recv) (\<lambda>r \<sigma>'. \<exists>B. sound_bank w n \<sigma>' B)
      (seq_committed sh h)" for c
    using short_tx_sound [OF assms(2) B(2) client_short.prems] by (cases c) simp
  from committed_step_with [OF client_short.hyps(2) [unfolded short_call_def] B(1) _ this]
  show ?case using B(2) by auto
qed

section \<open>A small bank, for the witnesses\<close>

definition demo_bank :: workload where
  "demo_bank = \<lparr>nbaccounts = 5, init_balance = 100, bank_start = 4096\<rparr>"

lemma demo_bank_sized: "well_sized demo_bank"
  by (simp add: well_sized_def demo_bank_def)

lemma demo_bank_store: "zeroed demo_bank (seq_committed 16 demo_heap)"
proof -
  let ?env = "demo_env\<lparr>pick_seg := \<lambda>_ _. 4096\<rparr>" and ?h = "empty_heap (\<lambda>_. 7)"
  have p: "heap_pointer ?env ?h 64 = 4096"
    by (simp add: heap_pointer_def demo_env_def overlaps_def Let_def)
  then have c: "tm_create 16 32 (heap_pointer ?env ?h 64) 64 8 ?h = Inr (16, demo_heap)"
    using demo_create by simp
  have s: "unat (stack_word ?env) + 8 \<le> 2 ^ 64" by (simp add: demo_env_def)
  note st = created_store [OF empty_heap_ok c _ s]
  have "seq_committed 16 demo_heap = (seg_words 4096 64, \<lambda>_. 0)"
    using st(4) p add_first_segment by simp
  moreover have "segment_size (room demo_bank) = 64" by (simp add: segment_size_def demo_bank_def)
  ultimately show ?thesis
    using seg_words_pos [of 4096 64] by (simp add: zeroed_def words_at_def) (simp add: demo_bank_def)
qed

lemma demo_calm_2: "seq_calm demo_env 16 (Suc (Suc 0)) demo_heap"
  by (simp add: seq_calm_def demo_env_def quiet_def lock_version_def)

text \<open>The store after \<open>init\<close>.\<close>

lemma demo_bank_init:
  obtains \<sigma> where "bank_history demo_bank 0 \<sigma>"
    "bank_at demo_bank \<sigma> [new_segment 4096 [100, 100, 100, 100, 100]]"
proof -
  have r5: "replicate (room demo_bank) (init_balance demo_bank) = [100, 100, 100, 100, 100]"
  proof -
    have "room demo_bank = 5" "init_balance demo_bank = 100" by (simp_all add: demo_bank_def)
    moreover have "replicate 5 (100 :: 64 word) = [100, 100, 100, 100, 100]" by (simp add: numeral_eq_Suc)
    ultimately show ?thesis by (simp only:)
  qed
  have b5: "bank_start demo_bank = 4096" by (simp add: demo_bank_def)
  obtain r \<sigma> where at: "atomically (init_tx demo_bank) (seq_committed 16 demo_heap) r \<sigma>"
    using atomically_total by blast
  have "bank_at demo_bank \<sigma> [new_segment (bank_start demo_bank) (replicate (room demo_bank) (init_balance demo_bank))]"
    using wp_atomically [OF at init_tx_wp [OF demo_bank_sized demo_bank_store]] by simp
  then have "bank_at demo_bank \<sigma> [new_segment 4096 [100, 100, 100, 100, 100]]"
    by (simp only: r5 b5)
  then show ?thesis using that history_init [OF demo_bank_store at] by blast
qed

lemma demo_pick: "pick_txn demo_env demo_heap \<notin> {0, invalid_tx}" "txns demo_heap (pick_txn demo_env demo_heap) = None"
  by (simp_all add: demo_env_def invalid_tx_def)

text \<open>A body that cannot throw, run on the demo heap.\<close>

lemma demo_run:
  assumes "seq_calm demo_env 16 (Suc n) demo_heap"
    and "wp p (\<lambda>r \<sigma>'. r = Inr v \<and> R \<sigma>') (seq_committed 16 demo_heap)"
  shows "\<exists>h. transactional (seq_memory demo_env 16 4096 64) False p demo_heap = Some (Returned v, h) \<and>
    seq_calm demo_env 16 n h"
proof -
  have "fst (fn_begin (tl (seq_memory demo_env 16 4096 64)) (shared (seq_memory demo_env 16 4096 64)) False demo_heap)
      \<noteq> invalid_tx"
    using demo_pick by (simp add: seq_memory_def seq_library_def tm_begin_def)
  from calm_seq.transactional_begun [OF demo_ready assms(1) _ wp_safe [OF assms(2)] this]
  obtain r h q where r: "transactional (seq_memory demo_env 16 4096 64) False p demo_heap = Some (r, h)"
    "seq_calm demo_env 16 n h" "atomically p (seq_committed 16 demo_heap) q (seq_committed 16 h)"
    "r = (case q of Inr v \<Rightarrow> Returned v | Inl e \<Rightarrow> Thrown e)"
    by auto
  from wp_atomically [OF r(3) assms(2)] r show ?thesis by auto
qed

section \<open>Properties\<close>

text \<open>C25: conservation of money. After \<open>init\<close> and any sequence of transactions of the workload on
  an atomic memory, failed allocations included, the memory holds a list of segments none of
  which is empty, whose balances and parities add up to the initial balance times the number of
  accounts, and no balance is negative as long as the money ever created fits 63 bits.\<close>

theorem bank_conserves_money:
  assumes "bank_history w n \<sigma>" "well_sized w" "unat (init_balance w) * (room w + n) < 2 ^ 63"
  shows "\<exists>B. bank_at w \<sigma> B \<and> (\<forall>S \<in> set B. seg_accounts S \<noteq> []) \<and>
    sum_list (map seg_parity B) + sum_list (balances B) = init_balance w * of_nat (length (balances B)) \<and>
    (\<forall>a \<in> set (balances B). \<not> a <s 0)"
proof -
  obtain B where "sound_bank w n \<sigma> B" using history_sound [OF assms] by blast
  note b = sound_bankD [OF this]
  have "money B < 2 ^ 63" using b(4) assms(3) by simp
  with b show ?thesis using money_nonneg [of B] unfolding no_empty_def conserved_def by blast
qed

theorem bank_conserves_money_witness:
  "\<exists>\<sigma> r \<sigma>' B. bank_history demo_bank 1 \<sigma>' \<and> bank_at demo_bank \<sigma>' B \<and>
    atomically (alloc_tx demo_bank bank_fuel 9) \<sigma> r \<sigma>' \<and>
    sum_list (map seg_parity B) + sum_list (balances B) = 100 * of_nat (length (balances B))"
proof -
  obtain \<sigma> where h: "bank_history demo_bank 0 \<sigma>" using demo_bank_init by blast
  obtain r \<sigma>' where at: "atomically (alloc_tx demo_bank bank_fuel 9) \<sigma> r \<sigma>'" using atomically_total by blast
  have h1: "bank_history demo_bank 1 \<sigma>'" using history_alloc [OF h at] by simp
  have "unat (init_balance demo_bank) * (room demo_bank + 1) < 2 ^ 63" by (simp add: demo_bank_def)
  note res = bank_conserves_money [OF h1 demo_bank_sized this]
  have "init_balance demo_bank = 100" by (simp add: demo_bank_def)
  with res h1 at show ?thesis by metis
qed

text \<open>C26: the control transaction decides consistency. On any list of segments \<open>long_tx\<close> changes
  nothing and returns true exactly when no balance is negative and the money adds up; then it
  reports the number of accounts.\<close>

theorem long_tx_decides:
  assumes "well_sized w" "bank_at w \<sigma> B" "length B < fuel" "atomically (long_tx w fuel) \<sigma> r \<sigma>'"
  shows "\<sigma>' = \<sigma> \<and> (\<exists>res. r = Inr (Finished res) \<and>
    (fst res \<longleftrightarrow> (\<forall>a \<in> set (balances B). \<not> a <s 0) \<and>
       sum_list (map seg_parity B) + sum_list (balances B) = init_balance w * of_nat (length (balances B))) \<and>
    (fst res \<longrightarrow> snd res = Some (of_nat (length (balances B)))))"
proof -
  have wp: "wp (long_tx w fuel) (\<lambda>r \<sigma>'. \<sigma>' = \<sigma> \<and> r = Inr (Finished (long_result w B 0 0))) \<sigma>"
    using long_loop_wp [OF assms(1), of \<sigma> "bank_start w" B fuel 0 0] assms(2,3)
    by (simp add: long_tx_def bank_at_def)
  note res = wp_atomically [OF assms(4) wp]
  show ?thesis
  proof (cases "\<forall>a \<in> set (balances B). \<not> a <s 0")
    case True
    then show ?thesis using res long_result_eq [of B w 0 0, OF True [rule_format]] by simp
  next
    case False
    then have "long_result w B 0 0 = (False, None)" by (intro long_result_negative) blast
    then show ?thesis using res False by auto
  qed
qed

theorem long_tx_decides_witness:
  "\<exists>\<sigma> \<sigma>'. atomically (long_tx demo_bank 2) \<sigma> (Inr (Finished (True, Some 5))) \<sigma>'"
proof -
  obtain \<sigma> where b: "bank_at demo_bank \<sigma> [new_segment 4096 [100, 100, 100, 100, 100]]"
    using demo_bank_init by blast
  obtain r \<sigma>' where at: "atomically (long_tx demo_bank 2) \<sigma> r \<sigma>'" using atomically_total by blast
  have "\<exists>res. r = Inr (Finished res) \<and> fst res \<and> snd res = Some 5"
    using long_tx_decides [OF demo_bank_sized b _ at] by (auto simp: word_sless_alt demo_bank_def)
  then show ?thesis using at by (metis (full_types) prod.collapse)
qed

text \<open>C27: \<open>short_tx\<close> moves one unit between the two accounts its indices stand for, if the first is
  positive; the total is unchanged, also when both are the same account. An index past the last
  account changes nothing and the result is false.\<close>

theorem short_tx_transfers:
  assumes "well_sized w" "bank_at w \<sigma> B" "length B \<le> fuel" "money B < 2 ^ 63"
    and "atomically (short_tx w fuel send recv) \<sigma> r \<sigma>'"
  shows "if unat send < length (balances B) \<and> unat recv < length (balances B)
    then r = Inr (Finished True) \<and> money (short_effect B (unat send) (unat recv)) = money B \<and>
      bank_at w \<sigma>' (short_effect B (unat send) (unat recv)) \<and>
      (0 <s balances B ! unat send \<longrightarrow> send \<noteq> recv \<longrightarrow>
        balances (short_effect B (unat send) (unat recv)) =
          (balances B)[unat send := balances B ! unat send - 1, unat recv := balances B ! unat recv + 1])
    else r = Inr (Finished False) \<and> \<sigma>' = \<sigma>"
  using wp_atomically [OF assms(5) short_tx_wp [OF assms(1-3)]] short_effect_money [OF assms(4)]
    short_effect_balances [of B "unat send" "unat recv"]
  by (simp add: word_unat_eq_iff split: if_splits)

theorem short_tx_transfers_witness:
  "\<exists>\<sigma> \<sigma>' B. atomically (short_tx demo_bank 1 0 4) \<sigma> (Inr (Finished True)) \<sigma>' \<and> bank_at demo_bank \<sigma>' B \<and>
    balances B = [99, 100, 100, 100, 101]"
proof -
  obtain \<sigma> where b: "bank_at demo_bank \<sigma> [new_segment 4096 [100, 100, 100, 100, 100]]"
    using demo_bank_init by blast
  obtain r \<sigma>' where at: "atomically (short_tx demo_bank 1 0 4) \<sigma> r \<sigma>'" using atomically_total by blast
  let ?B = "short_effect [new_segment 4096 [100, 100, 100, 100, 100]] 0 4"
  have "r = Inr (Finished True) \<and> bank_at demo_bank \<sigma>' ?B \<and> balances ?B = [99, 100, 100, 100, 101]"
    using short_tx_transfers [OF demo_bank_sized b _ _ at] by (simp add: money_def word_sless_alt)
  with at show ?thesis by blast
qed

text \<open>C29: \<open>alloc_tx\<close>. When there are more accounts than the trigger, and more than two, it removes
  the last account, keeping its balance in a parity and its segment only if another account is
  left in it, without ever following a null pointer; otherwise it adds an account, in the last
  segment if there is room and in a segment of its own if not. Either way the money adds up
  again. When the allocation fails nothing has changed.\<close>

theorem alloc_tx_effect:
  assumes "well_sized w" "bank_at w \<sigma> B" "\<forall>S \<in> set B. seg_accounts S \<noteq> []" "conserved w B" "length B \<le> fuel"
    and "atomically (alloc_tx w fuel trigger) \<sigma> r \<sigma>'"
  shows "r = Inl TransactionAlloc \<and> \<sigma>' = \<sigma> \<or>
    r = Inr (Finished ()) \<and> (\<exists>p. bank_at w \<sigma>' (alloc_effect w trigger p B) \<and>
      conserved w (alloc_effect w trigger p B) \<and>
      length (balances (alloc_effect w trigger p B)) =
        (if of_nat (length (balances B)) > trigger \<and> of_nat (length (balances B)) > (2 :: 64 word)
         then length (balances B) - 1 else length (balances B) + 1))"
proof -
  have ne: "no_empty B" using assms(3) by (simp add: no_empty_def)
  have "B \<noteq> []" using assms(2) by (simp add: bank_at_def)
  note e = alloc_effect_ok(1) [OF ne this assms(4), of trigger] alloc_effect_length [OF ne this]
  from wp_atomically [OF assms(6) alloc_tx_wp [OF assms(1,2) ne assms(5)]]
  show ?thesis unfolding alloc_post_def using e by blast
qed

theorem alloc_tx_effect_witness:
  "\<exists>\<sigma> r \<sigma>'. atomically (alloc_tx demo_bank 1 3) \<sigma> r \<sigma>' \<and>
    (r = Inl TransactionAlloc \<or> (\<exists>B. bank_at demo_bank \<sigma>' B \<and> length (balances B) = 4))"
proof -
  obtain \<sigma> where b: "bank_at demo_bank \<sigma> [new_segment 4096 [100, 100, 100, 100, 100]]"
    using demo_bank_init by blast
  obtain r \<sigma>' where at: "atomically (alloc_tx demo_bank 1 3) \<sigma> r \<sigma>'" using atomically_total by blast
  have "conserved demo_bank [new_segment 4096 [100, 100, 100, 100, 100]]"
    by (simp add: conserved_def demo_bank_def)
  from alloc_tx_effect [OF demo_bank_sized b _ this _ at] at show ?thesis by fastforce
qed

text \<open>The grader accepts the library. A client that constructs a memory on the library of
  \<open>tm.cpp\<close>, runs \<open>init\<close> and then any transactions of the workload through the retry loop,
  whatever the allocator, the iteration orders and the compare-and-swaps do, never sees a
  committed \<open>long_tx\<close> return false; and when nothing contends, the next \<open>long_tx\<close> does return.\<close>

theorem bank_accepts_library:
  assumes "bank_client env sh len w n h" "well_sized w" "unat (init_balance w) * (room w + n) < 2 ^ 63"
  shows "(transactional (seq_memory env sh (bank_start w) len) True (long_tx w bank_fuel) h = Some (Returned res, h') \<longrightarrow>
      (\<exists>count. res = Finished (True, Some count))) \<and>
    (seq_calm env sh (Suc 0) h \<longrightarrow>
      (\<exists>r h'. transactional (seq_memory env sh (bank_start w) len) True (long_tx w bank_fuel) h = Some (r, h') \<and>
        (r = Thrown TransactionBegin \<or> (\<exists>count. r = Returned (Finished (True, Some count))))))"
proof -
  obtain B where h: "region_ready env sh h" and B: "sound_bank w n (seq_committed sh h) B"
    using client_sound [OF assms] by blast
  let ?c = "of_nat (length (balances B)) :: 64 word"
  note wp = long_tx_sound [OF assms(2) B assms(3)]
  have ro: "True \<longrightarrow> reads_only (long_tx w bank_fuel)" by (simp add: long_tx_def long_loop_reads_only)
  have "res = Finished (True, Some ?c)"
    if "transactional (seq_memory env sh (bank_start w) len) True (long_tx w bank_fuel) h = Some (Returned res, h')"
    using returned_step [OF that h ro wp] by simp
  moreover have "\<exists>r h'. transactional (seq_memory env sh (bank_start w) len) True (long_tx w bank_fuel) h = Some (r, h') \<and>
        (r = Thrown TransactionBegin \<or> r = Returned (Finished (True, Some ?c)))"
    if calm: "seq_calm env sh (Suc 0) h"
  proof -
    obtain r h1 where r: "transactional (seq_memory env sh (bank_start w) len) True (long_tx w bank_fuel) h = Some (r, h1)"
      "r = Thrown TransactionBegin \<or> (\<exists>q. atomically (long_tx w bank_fuel) (seq_committed sh h) q (seq_committed sh h1) \<and>
         r = (case q of Inr v \<Rightarrow> Returned v | Inl e \<Rightarrow> Thrown e))"
      using calm_seq.transactional_calm [OF h calm ro wp_safe [OF wp], of "bank_start w" len] by blast
    from r(2) have "r = Thrown TransactionBegin \<or> r = Returned (Finished (True, Some ?c))"
    proof (elim disjE exE conjE)
      fix q assume "atomically (long_tx w bank_fuel) (seq_committed sh h) q (seq_committed sh h1)"
      from wp_atomically [OF this wp] show "r = (case q of Inr v \<Rightarrow> Returned v | Inl e \<Rightarrow> Thrown e) \<Longrightarrow> ?thesis"
        by simp
    qed simp
    with r(1) show ?thesis by blast
  qed
  ultimately show ?thesis by blast
qed

theorem bank_accepts_library_witness:
  "\<exists>h. transactional (seq_memory demo_env 16 4096 64) False (init_tx demo_bank) demo_heap = Some (Returned (), h) \<and>
    (\<exists>r h'. transactional (seq_memory demo_env 16 4096 64) True (long_tx demo_bank bank_fuel) h = Some (r, h') \<and>
      (r = Thrown TransactionBegin \<or> (\<exists>count. r = Returned (Finished (True, Some count)))))"
proof -
  have b: "bank_start demo_bank = 4096" by (simp add: demo_bank_def)
  note wp = init_tx_sound [OF demo_bank_sized demo_bank_store]
  obtain h where h: "transactional (seq_memory demo_env 16 4096 64) False (init_tx demo_bank) demo_heap = Some (Returned (), h)"
    "seq_calm demo_env 16 (Suc 0) h"
    using demo_run [OF demo_calm_2 wp] by blast
  have "bank_client demo_env 16 64 demo_bank 0 h"
    using client_init [OF demo_ready demo_bank_store, of 64 h] h(1) by (simp add: b)
  from bank_accepts_library [OF this demo_bank_sized] h show ?thesis by (auto simp: b) (auto simp: demo_bank_def)
qed

end
