(* ===== verification/Bank_Run.thy ===== *)
theory Bank_Run
  imports Bank_Theorems
begin

text \<open>
  \<open>WorkloadBank::init\<close> and \<open>WorkloadBank::run\<close> of \<open>grading/workload.hpp\<close>: the sequences of transactions
  a worker makes, with the error messages they return. The random distributions are functions of
  the engine; \<open>None\<close> stands for a worker that never returns. The fuel of the loops along the segments
  exceeds the number of segments (\<open>bank_length\<close>), so it never runs out on a bank; that a worker does
  return is in \<open>Bank_Returns\<close>.
\<close>

section \<open>init and run\<close>

text \<open>What follows a transaction that returned; its exceptions leave the caller as well.\<close>

definition then_tx ::
  "('a outcome \<times> 's) option \<Rightarrow> ('a \<Rightarrow> 's \<Rightarrow> ('b outcome \<times> 's) option) \<Rightarrow> ('b outcome \<times> 's) option" where
  "then_tx result k =
     (case result of
        None \<Rightarrow> None
      | Some (Returned v, s) \<Rightarrow> k v s
      | Some (Thrown e, s) \<Rightarrow> Some (Thrown e, s)
      | Some (Terminated, s) \<Rightarrow> Some (Terminated, s))"

definition init_violation :: string where
  "init_violation = ''Violated consistency (check that committed writes in shared memory get visible to the following transactions' reads)''"

definition run_violation :: string where
  "run_violation = ''Violated isolation or atomicity''"

definition workload_init :: "'s TransactionalMemory \<Rightarrow> workload \<Rightarrow> 's \<Rightarrow> (string option outcome \<times> 's) option" where
  "workload_init tm w s =
     then_tx (transactional tm False (init_tx w) s)
       (\<lambda>_ s. then_tx (transactional tm True (init_check w) s)
         (\<lambda>correct s. Some (Returned (if \<not> correct then Some init_violation else None), s)))"

text \<open>
  The dice: whether to run a long transaction, whether to allocate, the trigger for that, an
  account number up to the given one. The two account numbers of a short transaction are drawn
  one after the other; C++ leaves open which comes first.
\<close>

record 'g dice =
  long_dist :: "'g \<Rightarrow> bool \<times> 'g"
  alloc_dist :: "'g \<Rightarrow> bool \<times> 'g"
  alloc_trigger :: "'g \<Rightarrow> 64 word \<times> 'g"
  account_dist :: "64 word \<Rightarrow> 'g \<Rightarrow> 64 word \<times> 'g"

text \<open>The loop that repeats a short transaction until its accounts exist.\<close>

partial_function (option) short_until ::
  "'s TransactionalMemory \<Rightarrow> workload \<Rightarrow> 'g dice \<Rightarrow> 64 word \<Rightarrow> 'g \<Rightarrow> 's \<Rightarrow> ('g outcome \<times> 's) option" where
  "short_until tm w D count g s =
     (case account_dist D (count - 1) g of (send, g) \<Rightarrow>
      case account_dist D (count - 1) g of (recv, g) \<Rightarrow>
        (case short_call tm w send recv s of
           None \<Rightarrow> None
         | Some (r, s) \<Rightarrow>
             (case r of
                Returned (Finished found) \<Rightarrow> if \<not> found then short_until tm w D count g s else Some (Returned g, s)
              | Returned OutOfFuel \<Rightarrow> None
              | Thrown e \<Rightarrow> Some (Thrown e, s)
              | Terminated \<Rightarrow> Some (Terminated, s))))"

fun run_loop ::
  "'s TransactionalMemory \<Rightarrow> workload \<Rightarrow> 'g dice \<Rightarrow> nat \<Rightarrow> 64 word \<Rightarrow> 'g \<Rightarrow> 's \<Rightarrow> (string option outcome \<times> 's) option" where
  "run_loop tm w D 0 count g s =
     then_tx (transactional tm True (long_tx w bank_fuel) s)
       (\<lambda>res s. case res of
          OutOfFuel \<Rightarrow> None
        | Finished (ok, _) \<Rightarrow> Some (Returned (if \<not> ok then Some run_violation else None), s))"
| "run_loop tm w D (Suc left) count g s =
     (let (long, g) = long_dist D g in
      if long
      then then_tx (transactional tm True (long_tx w bank_fuel) s)
        (\<lambda>res s. case res of
           OutOfFuel \<Rightarrow> None
         | Finished (ok, seen) \<Rightarrow>
             if \<not> ok then Some (Returned (Some run_violation), s)
             else run_loop tm w D left (case seen of None \<Rightarrow> count | Some c \<Rightarrow> c) g s)
      else
        let (alloc, g) = alloc_dist D g in
        if alloc
        then
          let (trigger, g) = alloc_trigger D g in
          then_tx (transactional tm False (alloc_tx w bank_fuel trigger) s)
            (\<lambda>res s. case res of OutOfFuel \<Rightarrow> None | Finished _ \<Rightarrow> run_loop tm w D left count g s)
        else then_tx (short_until tm w D count g s) (\<lambda>g s. run_loop tm w D left count g s))"

definition workload_run ::
  "'s TransactionalMemory \<Rightarrow> workload \<Rightarrow> 'g dice \<Rightarrow> nat \<Rightarrow> 'g \<Rightarrow> 's \<Rightarrow> (string option outcome \<times> 's) option" where
  "workload_run tm w D nbtxperwrk engine s = run_loop tm w D nbtxperwrk (nbaccounts w) engine s"

section \<open>Over the library\<close>

text \<open>A region that holds a sound bank, \<open>n\<close> allocation transactions after its set-up.\<close>

definition bank_region :: "environment \<Rightarrow> addr \<Rightarrow> workload \<Rightarrow> nat \<Rightarrow> heap \<Rightarrow> bool" where
  "bank_region env sh w n h \<longleftrightarrow> region_ready env sh h \<and> (\<exists>B. sound_bank w n (seq_committed sh h) B)"

lemma bank_region_mono: "bank_region env sh w n h \<Longrightarrow> n \<le> m \<Longrightarrow> bank_region env sh w m h"
  unfolding bank_region_def using sound_bank_mono by blast

lemma then_tx_Some:
  assumes "then_tx result k = Some (r, s')"
  obtains v s where "result = Some (Returned v, s)" "k v s = Some (r, s')"
  | e where "result = Some (Thrown e, s')" "r = Thrown e"
  | "result = Some (Terminated, s')" "r = Terminated"
  using assms unfolding then_tx_def by (auto split: option.splits outcome.splits)

text \<open>One transaction of the bank, whatever its result.\<close>

lemma region_tx:
  assumes "transactional (seq_memory env sh st len) ro p h = Some (r, h')" "bank_region env sh w n h"
    and "ro \<longrightarrow> reads_only p"
    and "\<And>B. sound_bank w n (seq_committed sh h) B \<Longrightarrow>
      wp p (\<lambda>q \<sigma>'. Q q \<and> (\<exists>B'. sound_bank w m \<sigma>' B')) (seq_committed sh h)"
    and "n \<le> m"
  shows "bank_region env sh w m h' \<and> (\<forall>v. r = Returned v \<longrightarrow> Q (Inr v))"
proof -
  obtain B where B: "region_ready env sh h" "sound_bank w n (seq_committed sh h) B"
    using assms(2) by (auto simp: bank_region_def)
  note wp = assms(4) [OF B(2)]
  have "region_ready env sh h'" "\<exists>B. sound_bank w m (seq_committed sh h') B"
    using committed_step [OF assms(1) B(1) assms(3) wp] sound_bank_mono [OF B(2) assms(5)] by auto
  moreover have "Q (Inr v)" if "r = Returned v" for v
    using returned_step [OF assms(1) [unfolded that] B(1) assms(3) wp] by simp
  ultimately show ?thesis by (simp add: bank_region_def)
qed

lemma region_long:
  assumes "transactional (seq_memory env sh st len) True (long_tx w bank_fuel) h = Some (r, h')"
    and "bank_region env sh w n h" "well_sized w" "unat (init_balance w) * (room w + n) < 2 ^ 63"
  shows "bank_region env sh w n h' \<and> (\<forall>v. r = Returned v \<longrightarrow> (\<exists>c. v = Finished (True, Some c)))"
proof -
  let ?Q = "\<lambda>q. \<exists>c. q = Inr (Finished (True, Some c))"
  have wp: "wp (long_tx w bank_fuel) (\<lambda>q \<sigma>'. ?Q q \<and> (\<exists>B'. sound_bank w n \<sigma>' B')) (seq_committed sh h)"
    if B: "sound_bank w n (seq_committed sh h) B" for B
    by (rule wp_mono [OF long_tx_sound [OF assms(3) B assms(4)]]) (use B in auto)
  have "True \<longrightarrow> reads_only (long_tx w bank_fuel)" by (simp add: long_tx_def long_loop_reads_only)
  from region_tx [OF assms(1,2) this wp order.refl] show ?thesis by simp
qed

lemma region_alloc:
  assumes "transactional (seq_memory env sh st len) False (alloc_tx w bank_fuel trigger) h = Some (r, h')"
    and "bank_region env sh w n h" "well_sized w"
  shows "bank_region env sh w (Suc n) h'"
proof -
  have "bank_region env sh w (Suc n) h' \<and> (\<forall>v. r = Returned v \<longrightarrow> True)"
  proof (rule region_tx [OF assms(1,2), where Q = "\<lambda>_. True"])
    fix B assume B: "sound_bank w n (seq_committed sh h) B"
    show "wp (alloc_tx w bank_fuel trigger) (\<lambda>q \<sigma>'. True \<and> (\<exists>B'. sound_bank w (Suc n) \<sigma>' B')) (seq_committed sh h)"
      by (rule wp_mono [OF alloc_tx_sound [OF assms(3) B]]) simp
  qed simp_all
  then show ?thesis ..
qed

lemma region_short:
  assumes "short_call (seq_memory env sh st len) w send recv h = Some (r, h')"
    and "bank_region env sh w n h" "well_sized w" "unat (init_balance w) * (room w + n) < 2 ^ 63"
  shows "bank_region env sh w n h'"
proof -
  obtain B where B: "region_ready env sh h" "sound_bank w n (seq_committed sh h) B"
    using assms(2) by (auto simp: bank_region_def)
  have "wp (case c of (send, recv) \<Rightarrow> short_tx w bank_fuel send recv) (\<lambda>r \<sigma>'. \<exists>B. sound_bank w n \<sigma>' B)
      (seq_committed sh h)" for c
    using short_tx_sound [OF assms(3) B(2) assms(4)] by (cases c) simp
  from committed_step_with [OF assms(1) [unfolded short_call_def] B(1) _ this] B(2) show ?thesis
    by (auto simp: bank_region_def)
qed

lemma region_short_until:
  assumes "short_until (seq_memory env sh st len) w D count g h = Some y"
    and "bank_region env sh w n h" "well_sized w" "unat (init_balance w) * (room w + n) < 2 ^ 63"
  shows "bank_region env sh w n (snd y)"
proof -
  let ?P = "\<lambda>tm w' D count g h y. tm = seq_memory env sh st len \<longrightarrow> w' = w \<longrightarrow>
    bank_region env sh w n h \<longrightarrow> bank_region env sh w n (snd y)"
  have "?P (seq_memory env sh st len) w D count g h y"
  proof (rule short_until.raw_induct [where P = ?P, OF _ assms(1)], intro impI)
    fix su tm w' D count g h y
    assume IH: "\<And>tm w' D count g h y. su tm w' D count g h = Some y \<Longrightarrow> ?P tm w' D count g h y"
      and body: "(case account_dist D (count - 1) g of (send, g) \<Rightarrow>
        case account_dist D (count - 1) g of (recv, g) \<Rightarrow>
        (case short_call tm w' send recv h of
           None \<Rightarrow> None
         | Some (r, s) \<Rightarrow>
             (case r of
                Returned (Finished found) \<Rightarrow> if \<not> found then su tm w' D count g s else Some (Returned g, s)
              | Returned OutOfFuel \<Rightarrow> None
              | Thrown e \<Rightarrow> Some (Thrown e, s)
              | Terminated \<Rightarrow> Some (Terminated, s)))) = Some y"
      and eqs: "tm = seq_memory env sh st len" "w' = w" and b: "bank_region env sh w n h"
    obtain send recv g1 g2 where g: "account_dist D (count - 1) g = (send, g1)" "account_dist D (count - 1) g1 = (recv, g2)"
      by fastforce
    obtain r h1 where tx: "short_call tm w send recv h = Some (r, h1)"
      using body g eqs by (auto split: option.splits)
    have ok: "bank_region env sh w n h1" by (rule region_short [OF tx [unfolded eqs] b assms(3,4)])
    show "bank_region env sh w n (snd y)"
    proof (cases "r = Returned (Finished False)")
      case True
      then have "su tm w' D count g2 h1 = Some y" using body g tx eqs by simp
      from IH [OF this] eqs ok show ?thesis by blast
    next
      case False
      then have "snd y = h1" using body g tx eqs by (auto split: outcome.splits loop_result.splits if_splits)
      then show ?thesis using ok by simp
    qed
  qed
  then show ?thesis using assms(2) by simp
qed

text \<open>The whole loop: it never returns a message, and leaves a sound bank behind.\<close>

lemma region_run_loop:
  assumes "run_loop (seq_memory env sh (bank_start w) len) w D left count g h = Some (r, h')"
    and "bank_region env sh w n h" "well_sized w" "unat (init_balance w) * (room w + (n + left)) < 2 ^ 63"
  shows "bank_region env sh w (n + left) h' \<and> (\<forall>e. r = Returned e \<longrightarrow> e = None)"
  using assms(1,2,4)
proof (induction left arbitrary: count g h n)
  case 0
  from 0(1) have "then_tx (transactional (seq_memory env sh (bank_start w) len) True (long_tx w bank_fuel) h)
       (\<lambda>res s. case res of
          OutOfFuel \<Rightarrow> None
        | Finished (ok, _) \<Rightarrow> Some (Returned (if \<not> ok then Some run_violation else None), s)) = Some (r, h')" by simp
  then show ?case
  proof (cases rule: then_tx_Some)
    case (1 v s)
    with region_long [OF 1(1) 0(2) assms(3)] 0(3) show ?thesis by auto
  next
    case (2 e)
    with region_long [OF 2(1) 0(2) assms(3)] 0(3) show ?thesis by simp
  next
    case 3
    with region_long [OF 3(1) 0(2) assms(3)] 0(3) show ?thesis by simp
  qed
next
  case (Suc left)
  let ?tm = "seq_memory env sh (bank_start w) len"
  have small: "unat (init_balance w) * (room w + n) < 2 ^ 63"
    by (rule le_less_trans [OF mult_le_mono2 Suc.prems(3)]) simp
  have up: "bank_region env sh w n h' \<Longrightarrow> bank_region env sh w (n + Suc left) h'"
    "bank_region env sh w (Suc n) h' \<Longrightarrow> bank_region env sh w (n + Suc left) h'"
    using bank_region_mono [of env sh w n h' "n + Suc left"] bank_region_mono [of env sh w "Suc n" h' "n + Suc left"]
    by simp_all
  have less: "unat (init_balance w) * (room w + (n + left)) < 2 ^ 63"
    by (rule le_less_trans [OF mult_le_mono2 Suc.prems(3)]) simp
  have step: "bank_region env sh w (n + Suc left) h' \<and> (\<forall>e. r = Returned e \<longrightarrow> e = None)"
    if "run_loop ?tm w D left count' g' h1 = Some (r, h')" "bank_region env sh w n h1" for count' g' h1
    using Suc.IH [OF that less] bank_region_mono [of env sh w "n + left" h' "n + Suc left"] by simp
  obtain long g1 where g1: "long_dist D g = (long, g1)" by fastforce
  obtain alloc g2 where g2: "alloc_dist D g1 = (alloc, g2)" by fastforce
  obtain trigger g3 where g3: "alloc_trigger D g2 = (trigger, g3)" by fastforce
  consider "long" | "\<not> long" "alloc" | "\<not> long" "\<not> alloc" by blast
  then show ?case
  proof cases
    case 1
    then have "then_tx (transactional ?tm True (long_tx w bank_fuel) h)
        (\<lambda>res s. case res of
           OutOfFuel \<Rightarrow> None
         | Finished (ok, seen) \<Rightarrow>
             if \<not> ok then Some (Returned (Some run_violation), s)
             else run_loop ?tm w D left (case seen of None \<Rightarrow> count | Some c \<Rightarrow> c) g1 s) = Some (r, h')"
      using Suc.prems(1) g1 by simp
    then show ?thesis
    proof (cases rule: then_tx_Some)
      case (1 v s)
      from region_long [OF 1(1) Suc.prems(2) assms(3) small] obtain c where
        "bank_region env sh w n s" "v = Finished (True, Some c)" by blast
      then show ?thesis using 1(2) step [of c g1 s] by simp
    next
      case (2 e)
      then show ?thesis using region_long [OF 2(1) Suc.prems(2) assms(3) small] up(1) by simp
    next
      case 3
      then show ?thesis using region_long [OF 3(1) Suc.prems(2) assms(3) small] up(1) by simp
    qed
  next
    case 2
    then have "then_tx (transactional ?tm False (alloc_tx w bank_fuel trigger) h)
        (\<lambda>res s. case res of OutOfFuel \<Rightarrow> None | Finished _ \<Rightarrow> run_loop ?tm w D left count g3 s) = Some (r, h')"
      using Suc.prems(1) g1 g2 g3 by simp
    then show ?thesis
    proof (cases rule: then_tx_Some)
      case (1 v s)
      have "bank_region env sh w (Suc n) s" by (rule region_alloc [OF 1(1) Suc.prems(2) assms(3)])
      moreover have "run_loop ?tm w D left count g3 s = Some (r, h')" using 1(2) by (simp split: loop_result.splits)
      ultimately show ?thesis using Suc.IH [of count g3 s "Suc n"] Suc.prems(3) by simp
    next
      case (2 e)
      then show ?thesis using region_alloc [OF 2(1) Suc.prems(2) assms(3)] up(2) by simp
    next
      case 3
      then show ?thesis using region_alloc [OF 3(1) Suc.prems(2) assms(3)] up(2) by simp
    qed
  next
    case 3
    then have "then_tx (short_until ?tm w D count g2 h) (\<lambda>g s. run_loop ?tm w D left count g s) = Some (r, h')"
      using Suc.prems(1) g1 g2 by simp
    then show ?thesis
    proof (cases rule: then_tx_Some)
      case (1 v s)
      have "bank_region env sh w n s" using region_short_until [OF 1(1) Suc.prems(2) assms(3) small] by simp
      then show ?thesis using 1(2) step [of count v s] by simp
    next
      case (2 e)
      then show ?thesis using region_short_until [OF 2(1) Suc.prems(2) assms(3) small] up(1) by simp
    next
      case 3
      then show ?thesis using region_short_until [OF 3(1) Suc.prems(2) assms(3) small] up(1) by simp
    qed
  qed
qed

lemma wp_both: "wp p Q \<sigma> \<Longrightarrow> wp p Q' \<sigma> \<Longrightarrow> wp p (\<lambda>r \<sigma>. Q r \<sigma> \<and> Q' r \<sigma>) \<sigma>"
  by (induction p arbitrary: \<sigma>) auto

lemma region_init:
  assumes "workload_init (seq_memory env sh (bank_start w) len) w h = Some (r, h')"
    and "region_ready env sh h" "zeroed w (seq_committed sh h)" "well_sized w" "r = Returned e"
  shows "bank_region env sh w 0 h' \<and> e = None"
proof -
  let ?tm = "seq_memory env sh (bank_start w) len"
  obtain u h1 where i: "transactional ?tm False (init_tx w) h = Some (Returned u, h1)"
    and c: "then_tx (transactional ?tm True (init_check w) h1)
         (\<lambda>correct s. Some (Returned (if \<not> correct then Some init_violation else None), s)) = Some (r, h')"
    using assms(1,5) unfolding workload_init_def by (auto elim: then_tx_Some)
  let ?B = "[new_segment (bank_start w) (replicate (room w) (init_balance w))]"
  have wp: "wp (init_tx w) (\<lambda>r \<sigma>'. (\<exists>B. sound_bank w 0 \<sigma>' B) \<and> bank_at w \<sigma>' ?B) (seq_committed sh h)"
    by (rule wp_mono [OF wp_both [OF init_tx_wp [OF assms(4,3)] init_tx_sound [OF assms(4,3)]]]) blast
  have b: "bank_region env sh w 0 h1" "bank_at w (seq_committed sh h1) ?B"
    using returned_step [OF i assms(2) _ wp] committed_step [OF i assms(2) _ wp] by (simp_all add: bank_region_def)
  have "True \<longrightarrow> reads_only (init_check w)" by (simp add: init_check_def segment_bind_def)
  note chk = region_tx [OF _ b(1) this, where Q = "\<lambda>q. q = Inr True" and m = 0]
  have wpc: "wp (init_check w) (\<lambda>q \<sigma>'. q = Inr True \<and> (\<exists>B'. sound_bank w 0 \<sigma>' B')) (seq_committed sh h1)"
    by (rule wp_mono [OF init_check_wp [OF assms(4) b(2)]]) (use b(1) in \<open>auto simp: bank_region_def\<close>)
  from c show ?thesis
  proof (cases rule: then_tx_Some)
    case (1 v s)
    have "bank_region env sh w 0 s \<and> v" using chk [OF 1(1)] wpc by simp
    then show ?thesis using 1(2) assms(5) by simp
  qed (use assms(5) in simp_all)
qed

end
