(* ===== verification/Counter_Check.thy ===== *)
theory Counter_Check
  imports Bank
begin

text \<open>
  \<open>WorkloadBank::check\<close> of \<open>grading/workload.hpp\<close>: all workers decrease one counter, each
  transaction atomic, in any interleaving. The barrier is the synchronisation point that
  \<open>Barrier\<close> shows it to be: the workers go on when all have arrived.
\<close>

section \<open>The transactions\<close>

definition counter_init :: "addr \<Rightarrow> 64 word \<Rightarrow> unit prog" where
  "counter_init counter init_counter = shared_bind 8 counter (shared_write counter init_counter (Done ()))"

definition counter_equals :: "addr \<Rightarrow> 64 word \<Rightarrow> bool prog" where
  "counter_equals counter v =
     shared_bind 8 counter (shared_read counter (\<lambda>value. Done (value = v)))"

definition counter_last :: "addr \<Rightarrow> 64 word prog" where
  "counter_last counter = shared_bind 8 counter (shared_read counter (\<lambda>value. Done value))"

definition counter_dec :: "addr \<Rightarrow> 64 word \<Rightarrow> bool prog" where
  "counter_dec counter last_value =
     shared_bind 8 counter (shared_read counter (\<lambda>value.
       if value > last_value then Done False
       else shared_write counter (value - 1) (Done True)))"

section \<open>One worker\<close>

text \<open>\<open>nbtxperwrk\<close> of \<open>check\<close>, and the messages it returns.\<close>

definition check_rounds :: nat where
  "check_rounds = 100"

datatype check_error = BadInitialization | BadIsolation | BadConsistency

text \<open>
  Where a worker is: at one of the three barriers, with the error it goes on to report; in the
  initialisation or its check; at round \<open>i\<close>, before its read or before its decrement; in the
  final check; or back from the function.
\<close>

datatype check_pc =
    Arrive nat "check_error option"
  | Initialize | CheckInit | Round nat | Decrease nat "64 word" | FinalCheck
  | Return "check_error option"

type_synonym check_state = "store \<times> (nat \<Rightarrow> check_pc)"

definition after_barrier :: "nat \<Rightarrow> nat \<Rightarrow> check_error option \<Rightarrow> check_pc" where
  "after_barrier k uid err =
     (if k = 1 then if uid = 0 then Initialize else Arrive 2 None
      else if k = 2 then case err of None \<Rightarrow> Round 0 | Some e \<Rightarrow> Arrive 3 (Some e)
      else case err of None \<Rightarrow> if uid = 0 then FinalCheck else Return None | Some e \<Rightarrow> Return (Some e))"

inductive check_step :: "addr \<Rightarrow> nat \<Rightarrow> check_state \<Rightarrow> check_state \<Rightarrow> bool" for counter n where
  step_barrier: "(\<And>uid. uid < n \<Longrightarrow> pcs uid = Arrive k (err uid)) \<Longrightarrow>
    check_step counter n (\<sigma>, pcs)
      (\<sigma>, \<lambda>uid. if uid < n then after_barrier k uid (err uid) else pcs uid)"
| step_init: "uid < n \<Longrightarrow> pcs uid = Initialize \<Longrightarrow>
    atomically (counter_init counter (of_nat (check_rounds * n))) \<sigma> (Inr ()) \<sigma>' \<Longrightarrow>
    check_step counter n (\<sigma>, pcs) (\<sigma>', pcs(uid := CheckInit))"
| step_check_init: "uid < n \<Longrightarrow> pcs uid = CheckInit \<Longrightarrow>
    atomically (counter_equals counter (of_nat (check_rounds * n))) \<sigma> (Inr correct) \<sigma>' \<Longrightarrow>
    check_step counter n (\<sigma>, pcs)
      (\<sigma>', pcs(uid := Arrive 2 (if correct then None else Some BadInitialization)))"
| step_last: "uid < n \<Longrightarrow> pcs uid = Round i \<Longrightarrow> i < check_rounds \<Longrightarrow>
    atomically (counter_last counter) \<sigma> (Inr v) \<sigma>' \<Longrightarrow>
    check_step counter n (\<sigma>, pcs) (\<sigma>', pcs(uid := Decrease i v))"
| step_rounds_done: "uid < n \<Longrightarrow> pcs uid = Round i \<Longrightarrow> \<not> i < check_rounds \<Longrightarrow>
    check_step counter n (\<sigma>, pcs) (\<sigma>, pcs(uid := Arrive 3 None))"
| step_dec: "uid < n \<Longrightarrow> pcs uid = Decrease i v \<Longrightarrow>
    atomically (counter_dec counter v) \<sigma> (Inr correct) \<sigma>' \<Longrightarrow>
    check_step counter n (\<sigma>, pcs)
      (\<sigma>', pcs(uid := if correct then Round (Suc i) else Arrive 3 (Some BadIsolation)))"
| step_final: "uid < n \<Longrightarrow> pcs uid = FinalCheck \<Longrightarrow>
    atomically (counter_equals counter 0) \<sigma> (Inr correct) \<sigma>' \<Longrightarrow>
    check_step counter n (\<sigma>, pcs)
      (\<sigma>', pcs(uid := Return (if correct then None else Some BadConsistency)))"

inductive check_reach :: "addr \<Rightarrow> nat \<Rightarrow> check_state \<Rightarrow> bool" for counter n where
  check_start: "counter \<in> fst \<sigma> \<Longrightarrow> check_reach counter n (\<sigma>, \<lambda>_. Arrive 1 None)"
| check_next: "check_reach counter n s \<Longrightarrow> check_step counter n s s' \<Longrightarrow> check_reach counter n s'"

section \<open>The invariant\<close>

text \<open>The decrements a worker has still to make, and the part of \<open>check\<close> it is in.\<close>

fun decrements_left :: "check_pc \<Rightarrow> nat" where
  "decrements_left (Arrive k err) = (if k \<le> 2 then check_rounds else 0)"
| "decrements_left Initialize = check_rounds"
| "decrements_left CheckInit = check_rounds"
| "decrements_left (Round i) = check_rounds - i"
| "decrements_left (Decrease i v) = check_rounds - i"
| "decrements_left FinalCheck = 0"
| "decrements_left (Return err) = 0"

fun part :: "check_pc \<Rightarrow> nat" where
  "part (Arrive k err) = (if k = 3 then 2 else k - 1)"
| "part Initialize = 1"
| "part CheckInit = 1"
| "part (Round i) = 2"
| "part (Decrease i v) = 2"
| "part FinalCheck = 3"
| "part (Return err) = 3"

fun pc_ok :: "64 word \<Rightarrow> nat \<Rightarrow> nat \<Rightarrow> check_pc \<Rightarrow> bool" where
  "pc_ok value n uid (Arrive k err) \<longleftrightarrow> err = None \<and> k \<in> {1, 2, 3} \<and>
     (k = 2 \<longrightarrow> uid = 0 \<longrightarrow> value = of_nat (check_rounds * n))"
| "pc_ok value n uid Initialize \<longleftrightarrow> uid = 0"
| "pc_ok value n uid CheckInit \<longleftrightarrow> uid = 0 \<and> value = of_nat (check_rounds * n)"
| "pc_ok value n uid (Round i) \<longleftrightarrow> i \<le> check_rounds"
| "pc_ok value n uid (Decrease i v) \<longleftrightarrow> i < check_rounds \<and> value \<le> v"
| "pc_ok value n uid FinalCheck \<longleftrightarrow> uid = 0 \<and> value = 0"
| "pc_ok value n uid (Return err) \<longleftrightarrow> err = None \<and> value = 0"

definition check_inv :: "addr \<Rightarrow> nat \<Rightarrow> check_state \<Rightarrow> bool" where
  "check_inv counter n s \<longleftrightarrow>
     (case s of (\<sigma>, pcs) \<Rightarrow> counter \<in> fst \<sigma> \<and>
        (\<forall>uid < n. pc_ok (snd \<sigma> counter) n uid (pcs uid)) \<and>
        (\<exists>q. (\<forall>uid < n. part (pcs uid) = q) \<and>
           (q \<ge> 2 \<longrightarrow> snd \<sigma> counter = of_nat (\<Sum>uid < n. decrements_left (pcs uid)))))"

lemma sum_upd_nat:
  fixes f :: "'a \<Rightarrow> nat"
  assumes "u < (n :: nat)"
  shows "(\<Sum>j < n. f ((g(u := x)) j)) + f (g u) = (\<Sum>j < n. f (g j)) + f x"
proof -
  have "(\<Sum>j < n. f ((g(u := x)) j)) = f x + (\<Sum>j \<in> {..<n} - {u}. f (g j))"
    using assms by (subst sum.remove [of _ u]) simp_all
  moreover have "(\<Sum>j < n. f (g j)) = f (g u) + (\<Sum>j \<in> {..<n} - {u}. f (g j))"
    using assms by (subst sum.remove [of _ u]) simp_all
  ultimately show ?thesis by simp
qed

lemma decrements_le: "decrements_left pc \<le> check_rounds"
  by (cases pc) simp_all

lemma check_invE:
  assumes "check_inv counter n (\<sigma>, pcs)"
  obtains q where "counter \<in> fst \<sigma>" "\<And>uid. uid < n \<Longrightarrow> pc_ok (snd \<sigma> counter) n uid (pcs uid)"
    "\<And>uid. uid < n \<Longrightarrow> part (pcs uid) = q"
    "q \<ge> 2 \<Longrightarrow> snd \<sigma> counter = of_nat (\<Sum>uid < n. decrements_left (pcs uid))"
  using assms by (auto simp: check_inv_def)

lemma check_invI:
  assumes "counter \<in> fst \<sigma>" "\<And>uid. uid < n \<Longrightarrow> pc_ok (snd \<sigma> counter) n uid (pcs uid)"
    "\<And>uid. uid < n \<Longrightarrow> part (pcs uid) = q"
    "q \<ge> 2 \<Longrightarrow> snd \<sigma> counter = of_nat (\<Sum>uid < n. decrements_left (pcs uid))"
  shows "check_inv counter n (\<sigma>, pcs)"
  using assms by (auto simp: check_inv_def)

text \<open>One worker moves: its own obligations, and those of the others at the new value.\<close>

lemma check_move:
  assumes "check_inv counter n (\<sigma>, pcs)" "uid < n" "counter \<in> fst \<sigma>'"
    and "pc_ok (snd \<sigma>' counter) n uid pc" "part pc = part (pcs uid)"
    and "\<And>j. j < n \<Longrightarrow> j \<noteq> uid \<Longrightarrow> pc_ok (snd \<sigma> counter) n j (pcs j) \<Longrightarrow> part (pcs j) = part (pcs uid) \<Longrightarrow>
      pc_ok (snd \<sigma>' counter) n j (pcs j)"
    and "part (pcs uid) \<ge> 2 \<Longrightarrow> snd \<sigma>' counter + of_nat (decrements_left (pcs uid)) =
      snd \<sigma> counter + of_nat (decrements_left pc)"
  shows "check_inv counter n (\<sigma>', pcs(uid := pc))"
proof -
  obtain q where inv: "\<And>uid. uid < n \<Longrightarrow> pc_ok (snd \<sigma> counter) n uid (pcs uid)"
    "\<And>uid. uid < n \<Longrightarrow> part (pcs uid) = q"
    "q \<ge> 2 \<Longrightarrow> snd \<sigma> counter = of_nat (\<Sum>uid < n. decrements_left (pcs uid))"
    using check_invE [OF assms(1)] by metis
  show ?thesis
  proof (rule check_invI [OF assms(3), where q = q])
    show "pc_ok (snd \<sigma>' counter) n j ((pcs(uid := pc)) j)" if "j < n" for j
      using assms(4,6) inv(1,2) that assms(2) by auto
    show "part ((pcs(uid := pc)) j) = q" if "j < n" for j using inv(2) that assms(2,5) by auto
    assume q: "q \<ge> 2"
    have "of_nat (\<Sum>j < n. decrements_left ((pcs(uid := pc)) j)) + of_nat (decrements_left (pcs uid))
        = of_nat (\<Sum>j < n. decrements_left (pcs j)) + (of_nat (decrements_left pc) :: 64 word)"
      using sum_upd_nat [OF assms(2), of decrements_left pcs pc] by (metis of_nat_add)
    moreover have "snd \<sigma>' counter + of_nat (decrements_left (pcs uid))
        = of_nat (\<Sum>j < n. decrements_left (pcs j)) + of_nat (decrements_left pc)"
      using assms(7) inv(2) [OF assms(2)] q unfolding inv(3) [OF q] by blast
    ultimately show "snd \<sigma>' counter = of_nat (\<Sum>j < n. decrements_left ((pcs(uid := pc)) j))"
      by (metis add_right_cancel)
  qed
qed

lemma value_positive:
  assumes "check_inv counter n (\<sigma>, pcs)" "uid < n" "pcs uid = Decrease i v" "check_rounds * n < 2 ^ 64"
  shows "snd \<sigma> counter \<noteq> 0" "i < check_rounds" "snd \<sigma> counter \<le> v"
proof -
  obtain q where inv: "\<And>uid. uid < n \<Longrightarrow> pc_ok (snd \<sigma> counter) n uid (pcs uid)"
    "\<And>uid. uid < n \<Longrightarrow> part (pcs uid) = q"
    "q \<ge> 2 \<Longrightarrow> snd \<sigma> counter = of_nat (\<Sum>uid < n. decrements_left (pcs uid))"
    using check_invE [OF assms(1)] by metis
  show pc: "i < check_rounds" "snd \<sigma> counter \<le> v" using inv(1) [OF assms(2)] assms(3) by simp_all
  define s where "s = (\<Sum>uid < n. decrements_left (pcs uid))"
  have "decrements_left (pcs uid) \<le> s" unfolding s_def using assms(2) by (intro member_le_sum) auto
  then have pos: "0 < s" using assms(3) pc(1) by simp
  have "s \<le> check_rounds * n"
    unfolding s_def using sum_bounded_above [of "{..<n}" "\<lambda>uid. decrements_left (pcs uid)" check_rounds] decrements_le
    by (simp add: mult.commute)
  then have "unat (of_nat s :: 64 word) = s"
    using assms(4) by (simp add: unat_of_nat take_bit_nat_eq_self)
  moreover have "snd \<sigma> counter = of_nat s"
    unfolding s_def using inv(2) [OF assms(2)] assms(3) by (intro inv(3)) simp
  ultimately show "snd \<sigma> counter \<noteq> 0" using pos by (metis less_irrefl unat_0)
qed

lemma check_step_inv:
  assumes "check_step counter n s s'" "check_inv counter n s" "check_rounds * n < 2 ^ 64"
  shows "check_inv counter n s'"
  using assms
proof (induction rule: check_step.induct)
  case (step_barrier pcs k err \<sigma>)
  show ?case
  proof (cases "n = 0")
    case True
    then show ?thesis using step_barrier.prems(1) by (auto simp: check_inv_def)
  next
    case False
    obtain q where inv: "counter \<in> fst \<sigma>" "\<And>uid. uid < n \<Longrightarrow> pc_ok (snd \<sigma> counter) n uid (pcs uid)"
      "q \<ge> 2 \<Longrightarrow> snd \<sigma> counter = of_nat (\<Sum>uid < n. decrements_left (pcs uid))"
      "\<And>uid. uid < n \<Longrightarrow> part (pcs uid) = q"
      using check_invE [OF step_barrier.prems(1)] by metis
    have at: "pcs uid = Arrive k None" if "uid < n" for uid
      using step_barrier.hyps [OF that] inv(2) [OF that] by simp
    have k: "k = 1 \<or> k = 2 \<or> k = 3" and v2: "k = 2 \<Longrightarrow> snd \<sigma> counter = of_nat (check_rounds * n)"
      using inv(2) [of 0] at [of 0] False by auto
    have v3: "snd \<sigma> counter = 0" if "k = 3"
      using inv(3) inv(4) [of 0] at False that by simp
    have eq: "(\<Sum>uid < n. decrements_left (if uid < n then after_barrier 2 uid (err uid) else pcs uid)) = check_rounds * n"
      if "k = 2"
      using step_barrier.hyps at that by (simp add: after_barrier_def)
    have err: "err uid = None" if "uid < n" for uid using step_barrier.hyps [OF that] at [OF that] by simp
    show ?thesis
    proof (rule check_invI [OF inv(1), where q = k])
      show "pc_ok (snd \<sigma> counter) n uid (if uid < n then after_barrier k uid (err uid) else pcs uid)" if "uid < n" for uid
        using k v2 v3 err [OF that] that by (auto simp: after_barrier_def)
      show "part (if uid < n then after_barrier k uid (err uid) else pcs uid) = k" if "uid < n" for uid
        using k err [OF that] that by (auto simp: after_barrier_def)
      show "snd \<sigma> counter = of_nat (\<Sum>uid < n. decrements_left (if uid < n then after_barrier k uid (err uid) else pcs uid))"
        if "k \<ge> 2"
      proof (cases "k = 2")
        case True
        then show ?thesis using v2 eq by simp
      next
        case False
        then have "(\<Sum>uid < n. decrements_left (if uid < n then after_barrier k uid (err uid) else pcs uid)) = 0"
          using k that err by (intro sum.neutral) (auto simp: after_barrier_def)
        then show ?thesis using v3 k that False by (simp only: semiring_1_class.of_nat_0) auto
      qed
    qed
  qed
next
  case (step_init uid pcs \<sigma> \<sigma>')
  have "\<sigma>' = set_word counter (of_nat (check_rounds * n)) \<sigma>"
    using step_init.hyps(3) by (simp add: counter_init_def)
  moreover have "counter \<in> fst \<sigma>" "uid = 0" using step_init check_invE [OF step_init.prems(1)] by (metis, metis pc_ok.simps(2))
  ultimately show ?case
    using step_init.hyps(1,2) by (intro check_move [OF step_init.prems(1) step_init.hyps(1)])
      (auto simp: set_word_def elim!: pc_ok.elims split: if_splits)
next
  case (step_check_init uid pcs \<sigma> correct \<sigma>')
  have "correct = (snd \<sigma> counter = of_nat (check_rounds * n))" "\<sigma>' = \<sigma>"
    using step_check_init.hyps(3) by (simp_all add: counter_equals_def)
  moreover have "counter \<in> fst \<sigma>" "pc_ok (snd \<sigma> counter) n uid CheckInit"
    using step_check_init check_invE [OF step_check_init.prems(1)] by metis+
  ultimately show ?case
    using step_check_init.hyps(1,2)
    by (intro check_move [OF step_check_init.prems(1) step_check_init.hyps(1)]) auto
next
  case (step_last uid pcs i \<sigma> v \<sigma>')
  have "v = snd \<sigma> counter" "\<sigma>' = \<sigma>" using step_last.hyps(4) by (simp_all add: counter_last_def)
  moreover have "counter \<in> fst \<sigma>" using check_invE [OF step_last.prems(1)] by metis
  ultimately show ?case
    using step_last.hyps(1-3) by (intro check_move [OF step_last.prems(1) step_last.hyps(1)]) auto
next
  case (step_rounds_done uid pcs i \<sigma>)
  have "counter \<in> fst \<sigma>" using check_invE [OF step_rounds_done.prems(1)] by metis
  then show ?case
    using step_rounds_done.hyps by (intro check_move [OF step_rounds_done.prems(1) step_rounds_done.hyps(1)]) auto
next
  case (step_dec uid pcs i v \<sigma> correct \<sigma>')
  note val = value_positive [OF step_dec.prems(1) step_dec.hyps(1,2) step_dec.prems(2)]
  have "correct" "\<sigma>' = set_word counter (snd \<sigma> counter - 1) \<sigma>"
    using step_dec.hyps(3) val(3) by (auto simp: counter_dec_def split: if_splits)
  moreover have "counter \<in> fst \<sigma>" using check_invE [OF step_dec.prems(1)] by metis
  moreover have "snd \<sigma> counter - 1 \<le> w" if "snd \<sigma> counter \<le> w" for w
    using that val(1) by (simp add: word_le_nat_alt unat_minus_one)
  ultimately show ?case
    using step_dec.hyps(1,2) val(2)
    by (intro check_move [OF step_dec.prems(1) step_dec.hyps(1)])
      (auto simp: set_word_def of_nat_diff algebra_simps elim!: pc_ok.elims split: if_splits)
next
  case (step_final uid pcs \<sigma> correct \<sigma>')
  have "correct = (snd \<sigma> counter = 0)" "\<sigma>' = \<sigma>"
    using step_final.hyps(3) by (simp_all add: counter_equals_def)
  moreover have "counter \<in> fst \<sigma>" "pc_ok (snd \<sigma> counter) n uid FinalCheck"
    using step_final check_invE [OF step_final.prems(1)] by metis+
  ultimately show ?case
    using step_final.hyps(1,2) by (intro check_move [OF step_final.prems(1) step_final.hyps(1)]) auto
qed

lemma check_reach_inv: "check_reach counter n s \<Longrightarrow> check_rounds * n < 2 ^ 64 \<Longrightarrow> check_inv counter n s"
proof (induction rule: check_reach.induct)
  case (check_start \<sigma>)
  then show ?case by (intro check_invI [where q = 0]) simp_all
next
  case (check_next s s')
  then show ?case using check_step_inv by blast
qed

text \<open>C30: the check has no false negatives. With atomic transactions, however the workers interleave,
  no worker of \<open>check\<close> ever returns an error message; once all have passed the last barrier
  the counter is 0, every worker having decreased it exactly \<open>nbtxperwrk\<close> times; and it never
  wraps around, for any number of workers with \<open>nbtxperwrk * nbworkers\<close> below \<open>2 ^ 64\<close>.\<close>

theorem check_never_fails:
  assumes "check_reach counter n (\<sigma>, pcs)" "check_rounds * n < 2 ^ 64" "uid < n"
  shows "(\<forall>e. pcs uid \<noteq> Return (Some e) \<and> (\<forall>k. pcs uid \<noteq> Arrive k (Some e))) \<and>
    (pcs uid = Return None \<longrightarrow> snd \<sigma> counter = 0) \<and>
    (\<forall>i v. pcs uid = Decrease i v \<longrightarrow> 0 < snd \<sigma> counter \<and> snd \<sigma> counter \<le> v)"
proof -
  have inv: "check_inv counter n (\<sigma>, pcs)" by (rule check_reach_inv [OF assms(1,2)])
  have pc: "pc_ok (snd \<sigma> counter) n uid (pcs uid)" using check_invE [OF inv] assms(3) by metis
  have "0 < snd \<sigma> counter \<and> snd \<sigma> counter \<le> v" if "pcs uid = Decrease i v" for i v
    using value_positive [OF inv assms(3) that assms(2)] by (simp add: word_gt_0)
  then show ?thesis using pc by (auto simp: word_gt_0)
qed

theorem check_never_fails_witness:
  "\<exists>\<sigma> pcs. check_reach 4096 2 (\<sigma>, pcs) \<and> pcs 0 = CheckInit \<and> snd \<sigma> 4096 = 200 \<and>
    (\<forall>e. pcs 0 \<noteq> Return (Some e))"
proof -
  let ?\<sigma> = "({4096}, \<lambda>_. 0) :: store" and ?\<sigma>' = "set_word 4096 200 ({4096}, \<lambda>_. 0) :: store"
  let ?p1 = "\<lambda>uid. if uid < 2 then after_barrier 1 uid None else Arrive 1 None"
  have r0: "check_reach 4096 2 (?\<sigma>, \<lambda>_. Arrive 1 None)" by (rule check_start) simp
  have r1: "check_reach 4096 2 (?\<sigma>, ?p1)"
    by (rule check_next [OF r0]) (rule step_barrier [where err = "\<lambda>_. None"], simp)
  have r2: "check_reach 4096 2 (?\<sigma>', ?p1(0 := CheckInit))"
    by (rule check_next [OF r1], rule step_init)
      (simp_all add: after_barrier_def counter_init_def check_rounds_def)
  from check_never_fails [OF r2, of 0] r2 show ?thesis
    by (intro exI [of _ ?\<sigma>'] exI [of _ "?p1(0 := CheckInit)"]) (simp add: check_rounds_def set_word_def)
qed

end
