(* ===== verification/TL2_Workers.thy ===== *)
theory TL2_Workers
  imports TL2_Composition Bank_Run Counter_Check
begin

text \<open>
  The workers of the grader on the concurrent library: every worker runs \<open>init\<close>, \<open>run\<close> a number of
  times and \<open>check\<close> of \<open>WorkloadBank\<close> (\<open>grading/workload.hpp\<close>), one after the other as \<open>measure\<close> of
  \<open>grading/grading.cpp\<close> lets them, each transaction through \<open>transactional()\<close> and all of them at
  the same time. The rounds are the synchronisation point that \<open>Measure\<close> shows \<open>Sync\<close> to be, the barrier
  that of \<open>Barrier\<close>; the dice may fall in any way.
\<close>

section \<open>Bodies with a common result\<close>

inductive_simps atomically_alloc: "atomically (AllocSeg sz k) \<sigma> r \<sigma>'"

lemma atomically_map:
  "atomically (map_prog f p) \<sigma> r \<sigma>' \<longleftrightarrow> (\<exists>q. atomically p \<sigma> q \<sigma>' \<and> r = map_sum (\<lambda>e. e) f q)"
proof (induction p arbitrary: \<sigma>)
  case (AllocSeg sz k)
  have "atomically (map_prog f (k p)) \<sigma>1 r \<sigma>' \<longleftrightarrow> (\<exists>q. atomically (k p) \<sigma>1 q \<sigma>' \<and> r = map_sum (\<lambda>e. e) f q)" for p \<sigma>1
    using AllocSeg.IH by blast
  then show ?case by (auto simp: atomically_alloc)
qed auto

lemma safe_map [simp]: "safe (map_prog f p) \<sigma> \<longleftrightarrow> safe p \<sigma>"
  by (induction p arbitrary: \<sigma>) simp_all

lemma wp_map: "atomically (map_prog f p) \<sigma> r \<sigma>' \<Longrightarrow> wp p Q \<sigma> \<Longrightarrow> \<exists>q. r = map_sum (\<lambda>e. e) f q \<and> Q q \<sigma>'"
  unfolding atomically_map using wp_atomically by blast

section \<open>A worker\<close>

text \<open>What the bodies return, in one type.\<close>

datatype answer =
    Nothing
  | Truth bool
  | Value "64 word"
  | Summed "(bool \<times> 64 word option) loop_result"
  | Changed "unit loop_result"
  | Found "bool loop_result"

text \<open>
  Where a worker is: in \<open>init\<close>; through with round \<open>k\<close> and waiting for the next (round 0 is \<open>init\<close>);
  in the loop of \<open>run\<close> in round \<open>r\<close>, with the transactions left and its \<open>count\<close> of accounts; in \<open>check\<close>;
  or through with an error message. \<open>Lost\<close> has no end: a traversal of more segments than the
  address space holds.
\<close>

datatype stage =
    InitAccounts | InitBalance
  | Waiting nat
  | Draw nat nat "64 word"
  | Control nat nat "64 word"
  | Allocate nat nat "64 word" "64 word"
  | Redraw nat nat "64 word"
  | Transfer nat nat "64 word" "64 word" "64 word"
  | LastControl nat
  | Checking check_pc
  | Reported nat string
  | Lost nat

text \<open>A worker and the exception that ended it, if any.\<close>

type_synonym worker_state = "stage \<times> exn option"

fun check_call :: "nat \<Rightarrow> addr \<Rightarrow> check_pc \<Rightarrow> (bool \<times> answer prog) option" where
  "check_call n counter Initialize =
     Some (False, map_prog (\<lambda>_. Nothing) (counter_init counter (of_nat (check_rounds * n))))"
| "check_call n counter CheckInit =
     Some (True, map_prog Truth (counter_equals counter (of_nat (check_rounds * n))))"
| "check_call n counter (Round i) =
     (if i < check_rounds then Some (True, map_prog Value (counter_last counter)) else None)"
| "check_call n counter (Decrease i v) = Some (False, map_prog Truth (counter_dec counter v))"
| "check_call n counter FinalCheck = Some (True, map_prog Truth (counter_equals counter 0))"
| "check_call n counter p = None"

fun check_got :: "check_pc \<Rightarrow> answer \<Rightarrow> check_pc" where
  "check_got Initialize a = CheckInit"
| "check_got CheckInit (Truth correct) = Arrive 2 (if correct then None else Some BadInitialization)"
| "check_got (Round i) (Value v) = Decrease i v"
| "check_got (Decrease i v) (Truth correct) =
     (if correct then Round (Suc i) else Arrive 3 (Some BadIsolation))"
| "check_got FinalCheck (Truth correct) = Return (if correct then None else Some BadConsistency)"
| "check_got p a = p"

fun stage_call :: "nat \<Rightarrow> workload \<Rightarrow> stage \<Rightarrow> (bool \<times> answer prog) option" where
  "stage_call n w InitAccounts = Some (False, map_prog (\<lambda>_. Nothing) (init_tx w))"
| "stage_call n w InitBalance = Some (True, map_prog Truth (init_check w))"
| "stage_call n w (Control r left count) = Some (True, map_prog Summed (long_tx w bank_fuel))"
| "stage_call n w (Allocate r left count trigger) =
     Some (False, map_prog Changed (alloc_tx w bank_fuel trigger))"
| "stage_call n w (Transfer r left count send recv) =
     Some (False, map_prog Found (short_tx w bank_fuel send recv))"
| "stage_call n w (LastControl r) = Some (True, map_prog Summed (long_tx w bank_fuel))"
| "stage_call n w (Checking p) = check_call n (bank_start w) p"
| "stage_call n w s = None"

fun stage_got :: "stage \<Rightarrow> answer \<Rightarrow> stage" where
  "stage_got InitAccounts a = InitBalance"
| "stage_got InitBalance (Truth correct) = (if correct then Waiting 0 else Reported 0 init_violation)"
| "stage_got (Control r left count) (Summed (Finished (ok, noted))) =
     (if ok then Draw r left (case noted of None \<Rightarrow> count | Some c \<Rightarrow> c) else Reported r run_violation)"
| "stage_got (Control r left count) (Summed OutOfFuel) = Lost r"
| "stage_got (Allocate r left count trigger) (Changed res) =
     (case res of Finished _ \<Rightarrow> Draw r left count | OutOfFuel \<Rightarrow> Lost r)"
| "stage_got (Transfer r left count send recv) (Found res) =
     (case res of Finished found \<Rightarrow> if found then Draw r left count else Redraw r left count | OutOfFuel \<Rightarrow> Lost r)"
| "stage_got (LastControl r) (Summed (Finished (ok, noted))) =
     (if ok then Waiting r else Reported r run_violation)"
| "stage_got (LastControl r) (Summed OutOfFuel) = Lost r"
| "stage_got (Checking p) a = Checking (check_got p a)"
| "stage_got s a = s"

text \<open>The steps of one worker between its transactions: the dice, and the ends of the two loops.\<close>

fun alone :: "stage \<Rightarrow> stage \<Rightarrow> bool" where
  "alone (Draw r (Suc left) count) s \<longleftrightarrow>
     s = Control r left count \<or> s = Redraw r left count \<or> (\<exists>trigger. s = Allocate r left count trigger)"
| "alone (Draw r 0 count) s \<longleftrightarrow> s = LastControl r"
| "alone (Redraw r left count) s \<longleftrightarrow>
     (\<exists>send recv. send \<le> count - 1 \<and> recv \<le> count - 1 \<and> s = Transfer r left count send recv)"
| "alone (Checking (Round i)) s \<longleftrightarrow> \<not> i < check_rounds \<and> s = Checking (Arrive 3 None)"
| "alone s s' \<longleftrightarrow> False"

text \<open>
  \<open>short_tx\<close> captures its indices by reference, so an attempt that is aborted leaves to the next one
  what remains of them, whatever words it read.
\<close>

definition recaptured :: "workload \<Rightarrow> stage \<Rightarrow> stage \<Rightarrow> bool" where
  "recaptured w s s' \<longleftrightarrow> (\<exists>r left count send recv send' recv' vs.
     s = Transfer r left count send recv \<and> s' = Transfer r left count send' recv' \<and>
     short_left (bank_start w) send recv 0 0 vs = (send', recv'))"

definition test_after :: "nat \<Rightarrow> nat \<Rightarrow> workload \<Rightarrow> nat \<Rightarrow> stage" where
  "test_after nbrepeats nbtxperwrk w k =
     (if k < nbrepeats then Draw (Suc k) nbtxperwrk (nbaccounts w) else Checking (Arrive 1 None))"

text \<open>The steps that do not concern the memory: the next round for all, the barrier, a step of one, a
  transfer about to be tried again.\<close>

definition between ::
  "nat \<Rightarrow> nat \<Rightarrow> nat \<Rightarrow> workload \<Rightarrow> nat set \<Rightarrow> (nat \<Rightarrow> worker_state) \<Rightarrow> (nat \<Rightarrow> worker_state) \<Rightarrow> bool" where
  "between n nbrepeats nbtxperwrk w D f g \<longleftrightarrow>
     D = {..<n} \<and> (\<exists>k. \<forall>uid < n. f uid = (Waiting k, None) \<and> g uid = (test_after nbrepeats nbtxperwrk w k, None)) \<or>
     D = {..<n} \<and> (\<exists>k err. \<forall>uid < n. f uid = (Checking (Arrive k (err uid)), None) \<and>
       g uid = (Checking (after_barrier k uid (err uid)), None)) \<or>
     (\<exists>uid < n. D = {uid} \<and> (alone (fst (f uid)) (fst (g uid)) \<or> recaptured w (fst (f uid)) (fst (g uid))) \<and>
       snd (f uid) = None \<and> snd (g uid) = None)"

definition worker_got :: "worker_state \<Rightarrow> exn + answer \<Rightarrow> worker_state" where
  "worker_got x r =
     (case x of (s, ended) \<Rightarrow> (case r of Inl e \<Rightarrow> (s, Some e) | Inr a \<Rightarrow> (stage_got s a, ended)))"

definition worker_call :: "nat \<Rightarrow> workload \<Rightarrow> nat \<Rightarrow> worker_state \<Rightarrow> (bool \<times> answer prog) option" where
  "worker_call n w uid x = (if uid < n \<and> snd x = None then stage_call n w (fst x) else None)"

definition grader_workers :: "nat \<Rightarrow> nat \<Rightarrow> nat \<Rightarrow> workload \<Rightarrow> (worker_state, answer) client_code" where
  "grader_workers n nbrepeats nbtxperwrk w =
     \<lparr>next_call = worker_call n w, got = (\<lambda>uid. worker_got), other_step = between n nbrepeats nbtxperwrk w\<rparr>"

definition at_start :: "nat \<Rightarrow> worker_state" where
  "at_start uid = (InitAccounts, None)"

end
