(* ===== verification/TL2_Rounds.thy ===== *)
theory TL2_Rounds
  imports TL2_Workers
begin

text \<open>
  The rounds of the workers over a memory that runs every transaction in one go: what the memory
  holds and where the workers are in \<open>init\<close>, in \<open>run\<close> and in \<open>check\<close>.
\<close>

section \<open>The bank through the rounds\<close>

abbreviation first_bank :: "workload \<Rightarrow> store \<Rightarrow> bool" where
  "first_bank w \<sigma> \<equiv> bank_at w \<sigma> [new_segment (bank_start w) (replicate (room w) (init_balance w))]"

text \<open>Every worker runs \<open>init\<close>; the second one finds the bank of the first and writes it again.\<close>

lemma init_tx_again:
  assumes "well_sized w" "first_bank w \<sigma>"
  shows "wp (init_tx w) (\<lambda>r \<sigma>'. r = Inr () \<and> first_bank w \<sigma>') \<sigma>"
proof -
  let ?p = "bank_start w" and ?xs = "replicate (room w) (init_balance w)"
  have s: "seg_at w \<sigma> (new_segment ?p ?xs)" using assms(2) by (simp add: bank_at_def)
  have "bank_at w (set_word (cell ?p 0) (of_nat (length ?xs)) \<sigma>) [new_segment ?p ?xs]"
    using bank_set_count [of w \<sigma> "[]" "new_segment ?p ?xs" "[]" ?xs] assms s by (simp add: seg_at_def)
  from fill_accounts_wp [OF assms(1) this, of 0] seg_at_reads(1) [OF s assms(1)]
  show ?thesis by (simp add: init_tx_def layout(1))
qed

text \<open>A sound bank, the bound on the money for as long as it has been small.\<close>

definition kept_bank :: "workload \<Rightarrow> nat \<Rightarrow> store \<Rightarrow> acc_seg list \<Rightarrow> bool" where
  "kept_bank w n \<sigma> B \<longleftrightarrow> bank_at w \<sigma> B \<and> no_empty B \<and> conserved w B \<and>
     (unat (init_balance w) * (room w + n) < 2 ^ 63 \<longrightarrow> money B \<le> unat (init_balance w) * (room w + n))"

lemma kept_mono:
  assumes "kept_bank w n \<sigma> B" "n \<le> m"
  shows "kept_bank w m \<sigma> B"
proof -
  have "unat (init_balance w) * (room w + n) \<le> unat (init_balance w) * (room w + m)"
    using assms(2) by (intro mult_le_mono2) simp
  then show ?thesis
    using assms(1) le_less_trans order_trans unfolding kept_bank_def by meson
qed

lemma kept_first:
  assumes "well_sized w" "first_bank w \<sigma>"
  shows "\<exists>B. kept_bank w n \<sigma> B"
proof -
  let ?B = "[new_segment (bank_start w) (replicate (room w) (init_balance w))]"
  have "0 < room w" using assms(1) by (auto simp: well_sized_def word_less_nat_alt)
  then have "kept_bank w n \<sigma> ?B"
    using assms(2) by (simp add: kept_bank_def no_empty_def conserved_def money_def sum_list_replicate algebra_simps)
  then show ?thesis ..
qed

lemma kept_alloc:
  assumes "well_sized w" "kept_bank w n \<sigma> B"
  shows "wp (alloc_tx w bank_fuel trigger) (\<lambda>r \<sigma>'. \<exists>B'. kept_bank w (Suc n) \<sigma>' B') \<sigma>"
proof (rule wp_mono [OF alloc_tx_wp [OF assms(1)]])
  have b: "bank_at w \<sigma> B" "no_empty B" "conserved w B" using assms(2) by (simp_all add: kept_bank_def)
  then show "bank_at w \<sigma> B" "no_empty B" by simp_all
  show "length B \<le> bank_fuel" using bank_length [OF b(1)] by simp
  fix r \<sigma>'
  assume post: "alloc_post w trigger B \<sigma> r \<sigma>'"
  have "B \<noteq> []" using b(1) by (simp add: bank_at_def)
  note e = alloc_effect_ok [OF b(2) this b(3), of trigger]
  have "kept_bank w (Suc n) \<sigma>' (alloc_effect w trigger p B)" if "bank_at w \<sigma>' (alloc_effect w trigger p B)" for p
    using e [of p] that assms(2) by (auto simp: kept_bank_def algebra_simps)
  then show "\<exists>B'. kept_bank w (Suc n) \<sigma>' B'"
    using post kept_mono [OF assms(2), of "Suc n"] by (auto simp: alloc_post_def)
qed

lemma kept_short:
  assumes "well_sized w" "kept_bank w n \<sigma> B"
  shows "wp (short_tx w bank_fuel send recv) (\<lambda>r \<sigma>'. \<exists>B'. kept_bank w n \<sigma>' B') \<sigma>"
proof (rule wp_mono [OF short_tx_wp [OF assms(1)]])
  have b: "bank_at w \<sigma> B" "no_empty B" "conserved w B" using assms(2) by (simp_all add: kept_bank_def)
  then show "bank_at w \<sigma> B" by simp
  show "length B \<le> bank_fuel" using bank_length [OF b(1)] by simp
  fix r \<sigma>'
  assume post: "if unat send < length (balances B) \<and> unat recv < length (balances B)
       then r = Inr (Finished True) \<and> bank_at w \<sigma>' (short_effect B (unat send) (unat recv))
       else r = Inr (Finished False) \<and> \<sigma>' = \<sigma>"
  show "\<exists>B'. kept_bank w n \<sigma>' B'"
  proof (cases "unat send < length (balances B) \<and> unat recv < length (balances B)")
    case True
    then have "kept_bank w n \<sigma>' (short_effect B (unat send) (unat recv))"
      using post assms(2) short_effect_conserved [OF b(3)] short_effect_no_empty [OF b(2)]
        short_effect_money [of B "unat send" "unat recv"]
      by (auto simp: kept_bank_def)
    then show ?thesis ..
  qed (use post assms(2) in auto)
qed

section \<open>The invariant\<close>

text \<open>In a round of \<open>run\<close>; a message is the one of \<open>run\<close>.\<close>

fun in_run :: "stage \<Rightarrow> bool" where
  "in_run (Waiting r) \<longleftrightarrow> 0 < r"
| "in_run (Draw r left count) \<longleftrightarrow> 0 < r"
| "in_run (Control r left count) \<longleftrightarrow> 0 < r"
| "in_run (Allocate r left count trigger) \<longleftrightarrow> 0 < r"
| "in_run (Redraw r left count) \<longleftrightarrow> 0 < r"
| "in_run (Transfer r left count send recv) \<longleftrightarrow> 0 < r"
| "in_run (LastControl r) \<longleftrightarrow> 0 < r"
| "in_run (Reported r message) \<longleftrightarrow> 0 < r \<and> message = run_violation"
| "in_run (Lost r) \<longleftrightarrow> 0 < r"
| "in_run s \<longleftrightarrow> False"

definition init_phase :: "nat \<Rightarrow> workload \<Rightarrow> store \<Rightarrow> (nat \<Rightarrow> stage) \<Rightarrow> bool" where
  "init_phase n w \<sigma> ss \<longleftrightarrow>
     zeroed w \<sigma> \<and> (\<forall>uid < n. ss uid = InitAccounts) \<or>
     first_bank w \<sigma> \<and> (\<forall>uid < n. ss uid \<in> {InitAccounts, InitBalance, Waiting 0})"

definition run_phase :: "nat \<Rightarrow> workload \<Rightarrow> nat \<Rightarrow> store \<Rightarrow> (nat \<Rightarrow> stage) \<Rightarrow> bool" where
  "run_phase n w m \<sigma> ss \<longleftrightarrow> (\<exists>B. kept_bank w m \<sigma> B) \<and> (\<forall>uid < n. in_run (ss uid))"

definition check_phase :: "nat \<Rightarrow> workload \<Rightarrow> store \<Rightarrow> (nat \<Rightarrow> stage) \<Rightarrow> bool" where
  "check_phase n w \<sigma> ss \<longleftrightarrow>
     (\<exists>ps. (\<forall>uid < n. ss uid = Checking (ps uid)) \<and> check_inv (bank_start w) n (\<sigma>, ps))"

definition grader_inv :: "nat \<Rightarrow> workload \<Rightarrow> nat \<Rightarrow> store \<Rightarrow> (nat \<Rightarrow> stage) \<Rightarrow> bool" where
  "grader_inv n w m \<sigma> ss \<longleftrightarrow> init_phase n w \<sigma> ss \<or> run_phase n w m \<sigma> ss \<or> check_phase n w \<sigma> ss"

lemma init_checks:
  assumes "well_sized w" "first_bank w \<sigma>" "atomically (map_prog Truth (init_check w)) \<sigma> r \<sigma>'"
  shows "r = Inr (Truth True)"
  using wp_map [OF assms(3) init_check_wp [OF assms(1,2)]] by auto

lemma init_writes:
  assumes "well_sized w" "init_phase n w \<sigma> ss" "atomically (map_prog (\<lambda>_. Nothing) (init_tx w)) \<sigma> r \<sigma>'"
  shows "r = Inr Nothing \<and> first_bank w \<sigma>'"
proof -
  have "wp (init_tx w) (\<lambda>r \<sigma>'. r = Inr () \<and> first_bank w \<sigma>') \<sigma>"
    using assms(2) init_tx_wp [OF assms(1)] init_tx_again [OF assms(1)] unfolding init_phase_def by blast
  from wp_map [OF assms(3) this] show ?thesis by auto
qed

text \<open>The stages of the workers only, in a step of the atomic system.\<close>

abbreviation stages :: "(nat \<Rightarrow> worker_state) \<Rightarrow> nat \<Rightarrow> stage" where
  "stages ls \<equiv> \<lambda>uid. fst (ls uid)"

lemma fst_worker_got:
  "fst (worker_got x r) = (case r of Inl e \<Rightarrow> fst x | Inr a \<Rightarrow> stage_got (fst x) a)"
  by (simp add: worker_got_def split: prod.split sum.split)

text \<open>In \<open>run\<close> a worker stays in \<open>run\<close>, whatever its transactions return.\<close>

lemma in_run_got: "in_run s \<Longrightarrow> in_run (stage_got s a)"
  by (induction s a rule: stage_got.induct) (auto split: loop_result.split option.split if_splits)

lemma in_run_upd:
  "run_phase n w m \<sigma> (stages ls) \<Longrightarrow> uid < n \<Longrightarrow> \<exists>B. kept_bank w m' \<sigma>' B \<Longrightarrow>
    run_phase n w m' \<sigma>' (stages (ls(uid := worker_got (ls uid) r)))"
  by (auto simp: run_phase_def fst_worker_got in_run_got split: sum.split)

text \<open>In \<open>check\<close> a transaction is a step of \<open>Counter_Check\<close>.\<close>

lemma check_call_step:
  assumes "check_call n counter (ps uid) = Some (ro, p)" "atomically p \<sigma> r \<sigma>'" "uid < n"
  shows "\<exists>a. r = Inr a \<and> check_step counter n (\<sigma>, ps) (\<sigma>', ps(uid := check_got (ps uid) a))"
proof -
  obtain s where s: "ps uid = s" by simp
  then show ?thesis
    using assms
  proof (cases s)
    case Initialize
    then have "r = Inr Nothing" "atomically (counter_init counter (of_nat (check_rounds * n))) \<sigma> (Inr ()) \<sigma>'"
      using assms s by (auto simp: atomically_map counter_init_def)
    then show ?thesis
      using Initialize s step_init [of uid n ps counter \<sigma> \<sigma>'] assms(3) by auto
  next
    case CheckInit
    then show ?thesis
      using assms s step_check_init [of uid n ps counter \<sigma> _ \<sigma>']
      by (fastforce simp: atomically_map counter_equals_def)
  next
    case (Round i)
    then show ?thesis
      using assms s step_last [of uid n ps i counter \<sigma> _ \<sigma>']
      by (fastforce simp: atomically_map counter_last_def split: if_splits)
  next
    case (Decrease i v)
    then show ?thesis
      using assms s step_dec [of uid n ps i v counter \<sigma> _ \<sigma>']
      by (fastforce simp: atomically_map counter_dec_def split: if_splits)
  next
    case FinalCheck
    then show ?thesis
      using assms s step_final [of uid n ps counter \<sigma> _ \<sigma>']
      by (fastforce simp: atomically_map counter_equals_def)
  qed auto
qed

lemma check_upd:
  assumes "check_phase n w \<sigma> (stages ls)" "uid < n" "fst (ls uid) = Checking s"
    and "check_call n (bank_start w) s = Some (ro, p)" "atomically p \<sigma> r \<sigma>'" "check_rounds * n < 2 ^ 64"
  shows "check_phase n w \<sigma>' (stages (ls(uid := worker_got (ls uid) r)))"
proof -
  obtain ps where ps: "\<forall>uid < n. fst (ls uid) = Checking (ps uid)" "check_inv (bank_start w) n (\<sigma>, ps)"
    using assms(1) by (auto simp: check_phase_def)
  have "ps uid = s" using ps(1) assms(2,3) by auto
  then obtain a where a: "r = Inr a"
    "check_step (bank_start w) n (\<sigma>, ps) (\<sigma>', ps(uid := check_got (ps uid) a))"
    using check_call_step [of n "bank_start w" ps uid] assms(2,4,5) by blast
  have "check_inv (bank_start w) n (\<sigma>', ps(uid := check_got (ps uid) a))"
    by (rule check_step_inv [OF a(2) ps(2) assms(6)])
  then show ?thesis
    using ps(1) a(1) unfolding check_phase_def
    by (intro exI [of _ "ps(uid := check_got (ps uid) a)"]) (auto simp: fst_worker_got)
qed

section \<open>Every step of the atomic system\<close>

lemma worker_call_cases:
  "worker_call n w uid x = Some (ro, p) \<longleftrightarrow> uid < n \<and> snd x = None \<and> stage_call n w (fst x) = Some (ro, p)"
  by (simp add: worker_call_def)

text \<open>A read-write transaction: it touches valid words only, and keeps the invariant.\<close>

lemma write_safe:
  assumes "grader_inv n w m \<sigma> (stages ls)" "well_sized w" "worker_call n w uid (ls uid) = Some (False, p)"
    and "check_rounds * n < 2 ^ 64"
  shows "safe p \<sigma>"
proof -
  have uid: "uid < n" and call: "stage_call n w (fst (ls uid)) = Some (False, p)"
    using assms(3) by (simp_all add: worker_call_cases)
  from assms(1) consider "init_phase n w \<sigma> (stages ls)" | "run_phase n w m \<sigma> (stages ls)"
    | "check_phase n w \<sigma> (stages ls)"
    unfolding grader_inv_def by blast
  then show ?thesis
  proof cases
    case 1
    then have "p = map_prog (\<lambda>_. Nothing) (init_tx w)" using call uid by (auto simp: init_phase_def)
    moreover have "safe (init_tx w) \<sigma>"
      using 1 wp_safe [OF init_tx_wp [OF assms(2)]] wp_safe [OF init_tx_again [OF assms(2)]]
      unfolding init_phase_def by blast
    ultimately show ?thesis by simp
  next
    case 2
    then obtain B where B: "kept_bank w m \<sigma> B" "in_run (fst (ls uid))" using uid by (auto simp: run_phase_def)
    then show ?thesis
      using call wp_safe [OF kept_alloc [OF assms(2) B(1)]] wp_safe [OF kept_short [OF assms(2) B(1)]]
      by (cases "fst (ls uid)") auto
  next
    case 3
    then obtain ps where "fst (ls uid) = Checking (ps uid)" "check_inv (bank_start w) n (\<sigma>, ps)"
      using uid by (auto simp: check_phase_def)
    moreover then have "bank_start w \<in> fst \<sigma>" using check_invE by metis
    ultimately show ?thesis
      using call by (cases "ps uid") (auto simp: counter_init_def counter_dec_def split: if_splits)
  qed
qed

lemma write_step:
  assumes "grader_inv n w m \<sigma> (stages ls)" "well_sized w" "worker_call n w uid (ls uid) = Some (False, p)"
    and "atomically p \<sigma> r \<sigma>'" "check_rounds * n < 2 ^ 64"
  shows "grader_inv n w (Suc m) \<sigma>' (stages (ls(uid := worker_got (ls uid) r)))"
proof -
  have uid: "uid < n" and call: "stage_call n w (fst (ls uid)) = Some (False, p)"
    using assms(3) by (simp_all add: worker_call_cases)
  from assms(1) consider "init_phase n w \<sigma> (stages ls)" | "run_phase n w m \<sigma> (stages ls)"
    | "check_phase n w \<sigma> (stages ls)"
    unfolding grader_inv_def by blast
  then show ?thesis
  proof cases
    case 1
    then have s: "fst (ls uid) = InitAccounts" "p = map_prog (\<lambda>_. Nothing) (init_tx w)"
      using call uid by (auto simp: init_phase_def)
    have "r = Inr Nothing \<and> first_bank w \<sigma>'"
      by (rule init_writes [OF assms(2) 1 assms(4) [unfolded s(2)]])
    then have "init_phase n w \<sigma>' (stages (ls(uid := worker_got (ls uid) r)))"
      using 1 s(1) by (auto simp: init_phase_def fst_worker_got)
    then show ?thesis by (simp add: grader_inv_def)
  next
    case 2
    then obtain B where B: "kept_bank w m \<sigma> B" "in_run (fst (ls uid))" using uid by (auto simp: run_phase_def)
    have "\<exists>B'. kept_bank w (Suc m) \<sigma>' B'"
    proof (cases "fst (ls uid)")
      case (Allocate r' left count trigger)
      then have "p = map_prog Changed (alloc_tx w bank_fuel trigger)" using call by simp
      with wp_map [OF _ kept_alloc [OF assms(2) B(1)]] assms(4) show ?thesis by blast
    next
      case (Transfer r' left count send recv)
      then have "p = map_prog Found (short_tx w bank_fuel send recv)" using call by simp
      with wp_map [OF _ kept_short [OF assms(2) B(1)]] assms(4) kept_mono [of w m \<sigma>' _ "Suc m"]
      show ?thesis by (metis le_SucI order_refl)
    qed (use B(2) call in auto)
    from in_run_upd [OF 2 uid this] show ?thesis by (simp add: grader_inv_def)
  next
    case 3
    then obtain ps where s: "fst (ls uid) = Checking (ps uid)" using uid by (auto simp: check_phase_def)
    then have "check_call n (bank_start w) (ps uid) = Some (False, p)" using call by simp
    from check_upd [OF 3 uid s this assms(4,5)] show ?thesis by (simp add: grader_inv_def)
  qed
qed

text \<open>A read-only transaction that reads one word is atomic; any other may return anything.\<close>

lemma read_once_checks:
  "reads_once (map_prog f (init_check w))" "reads_once (map_prog g (counter_equals counter v))"
  "reads_once (map_prog h (counter_last counter))"
  by (auto simp: reads_once_def init_check_def counter_equals_def counter_last_def)

lemma read_step:
  assumes "grader_inv n w m \<sigma> (stages ls)" "well_sized w" "worker_call n w uid (ls uid) = Some (True, p)"
    and "reads_once p \<Longrightarrow> atomically p \<sigma> r \<sigma>" "check_rounds * n < 2 ^ 64"
  shows "grader_inv n w m \<sigma> (stages (ls(uid := worker_got (ls uid) r)))"
proof -
  have uid: "uid < n" and call: "stage_call n w (fst (ls uid)) = Some (True, p)"
    using assms(3) by (simp_all add: worker_call_cases)
  from assms(1) consider "init_phase n w \<sigma> (stages ls)" | "run_phase n w m \<sigma> (stages ls)"
    | "check_phase n w \<sigma> (stages ls)"
    unfolding grader_inv_def by blast
  then show ?thesis
  proof cases
    case 1
    then have s: "fst (ls uid) = InitBalance" "p = map_prog Truth (init_check w)" "first_bank w \<sigma>"
      using call uid by (auto simp: init_phase_def)
    have "r = Inr (Truth True)"
      using init_checks [OF assms(2) s(3)] assms(4) unfolding s(2) by (simp add: read_once_checks)
    then have "init_phase n w \<sigma> (stages (ls(uid := worker_got (ls uid) r)))"
      using 1 s(1,3) by (auto simp: init_phase_def fst_worker_got)
    then show ?thesis by (simp add: grader_inv_def)
  next
    case 2
    then have "\<exists>B. kept_bank w m \<sigma> B" by (simp add: run_phase_def)
    from in_run_upd [OF 2 uid this] show ?thesis by (simp add: grader_inv_def)
  next
    case 3
    then obtain ps where s: "fst (ls uid) = Checking (ps uid)" using uid by (auto simp: check_phase_def)
    then have c: "check_call n (bank_start w) (ps uid) = Some (True, p)" using call by simp
    then have "reads_once p" by (cases "ps uid") (auto simp: read_once_checks split: if_splits)
    from check_upd [OF 3 uid s c assms(4) [OF this] assms(5)] show ?thesis by (simp add: grader_inv_def)
  qed
qed

text \<open>The steps between the transactions.\<close>

lemma bank_start_word:
  assumes "bank_at w \<sigma> B" "well_sized w"
  shows "bank_start w \<in> fst \<sigma>"
proof -
  obtain S C where B: "B = S # C" using assms(1) by (cases B) (auto simp: bank_at_def)
  then have "seg_at w \<sigma> S" "bank_start w = seg_ptr S" using assms(1) by (simp_all add: bank_at_def)
  then show ?thesis using seg_at_reads(1) [OF _ assms(2), of \<sigma> S] by (simp add: cell_def)
qed

lemma test_after_inv:
  assumes "grader_inv n w m \<sigma> (stages ls)" "well_sized w" "0 < n" "\<forall>uid < n. fst (ls uid) = Waiting k"
    and "\<forall>uid < n. ss uid = test_after nbrepeats nbtxperwrk w k"
  shows "grader_inv n w m \<sigma> ss"
proof -
  obtain B where B: "kept_bank w m \<sigma> B"
    using assms(1,3,4) kept_first [OF assms(2), of \<sigma> m]
    unfolding grader_inv_def init_phase_def run_phase_def check_phase_def by fastforce
  show ?thesis
  proof (cases "k < nbrepeats")
    case True
    then have "run_phase n w m \<sigma> ss" using B assms(5) by (auto simp: run_phase_def test_after_def)
    then show ?thesis by (simp add: grader_inv_def)
  next
    case False
    have "bank_start w \<in> fst \<sigma>" by (rule bank_start_word [of w \<sigma> B, OF _ assms(2)]) (use B in \<open>simp add: kept_bank_def\<close>)
    then have "check_inv (bank_start w) n (\<sigma>, \<lambda>_. Arrive 1 None)"
      by (intro check_invI [where q = 0]) simp_all
    then have "check_phase n w \<sigma> ss"
      using assms(5) False unfolding check_phase_def test_after_def by (intro exI [of _ "\<lambda>_. Arrive 1 None"]) simp
    then show ?thesis by (simp add: grader_inv_def)
  qed
qed

lemma barrier_inv:
  assumes "grader_inv n w m \<sigma> (stages ls)" "0 < n" "\<forall>uid < n. fst (ls uid) = Checking (Arrive k (err uid))"
    and "\<forall>uid < n. ss uid = Checking (after_barrier k uid (err uid))" "check_rounds * n < 2 ^ 64"
  shows "grader_inv n w m \<sigma> ss"
proof -
  have "check_phase n w \<sigma> (stages ls)"
    using assms(1-3) unfolding grader_inv_def init_phase_def run_phase_def by fastforce
  then obtain ps where ps: "\<forall>uid < n. fst (ls uid) = Checking (ps uid)" "check_inv (bank_start w) n (\<sigma>, ps)"
    by (auto simp: check_phase_def)
  let ?ps = "\<lambda>uid. if uid < n then after_barrier k uid (err uid) else ps uid"
  have "check_step (bank_start w) n (\<sigma>, ps) (\<sigma>, ?ps)" using ps(1) assms(3) by (intro step_barrier) simp
  then have "check_inv (bank_start w) n (\<sigma>, ?ps)" by (rule check_step_inv [OF _ ps(2) assms(5)])
  then have "check_phase n w \<sigma> ss" using assms(4) unfolding check_phase_def by (intro exI [of _ ?ps]) simp
  then show ?thesis by (simp add: grader_inv_def)
qed

lemma in_run_alone: "in_run s \<Longrightarrow> alone s s' \<Longrightarrow> in_run s'"
  by (induction s s' rule: alone.induct) auto

lemma recaptured_run: "recaptured w s s' \<Longrightarrow> in_run s' = in_run s"
  by (auto simp: recaptured_def)

lemma recaptured_only [simp]:
  "\<not> recaptured w InitAccounts s" "\<not> recaptured w InitBalance s" "\<not> recaptured w (Waiting k) s"
  "\<not> recaptured w (Checking p) s"
  by (simp_all add: recaptured_def)

lemma alone_inv:
  assumes "grader_inv n w m \<sigma> ss" "uid < n" "alone (ss uid) s \<or> recaptured w (ss uid) s" "check_rounds * n < 2 ^ 64"
  shows "grader_inv n w m \<sigma> (ss(uid := s))"
proof -
  from assms(1) consider "init_phase n w \<sigma> ss" | "run_phase n w m \<sigma> ss" | "check_phase n w \<sigma> ss"
    unfolding grader_inv_def by blast
  then show ?thesis
  proof cases
    case 1
    then have "ss uid \<in> {InitAccounts, InitBalance, Waiting 0}" using assms(2) unfolding init_phase_def by blast
    then show ?thesis using assms(3) by auto
  next
    case 2
    then have "run_phase n w m \<sigma> (ss(uid := s))"
      using assms(2,3) in_run_alone recaptured_run by (auto simp: run_phase_def)
    then show ?thesis by (simp add: grader_inv_def)
  next
    case 3
    then obtain ps where ps: "\<forall>uid < n. ss uid = Checking (ps uid)" "check_inv (bank_start w) n (\<sigma>, ps)"
      by (auto simp: check_phase_def)
    then have "alone (Checking (ps uid)) s" using assms(2,3) by auto
    then obtain i where i: "ps uid = Round i" "\<not> i < check_rounds" "s = Checking (Arrive 3 None)"
      by (cases "ps uid") auto
    have "check_inv (bank_start w) n (\<sigma>, ps(uid := Arrive 3 None))"
      by (rule check_step_inv [OF step_rounds_done [of uid n ps i] ps(2) assms(4)]) (use i assms(2) in auto)
    then have "check_phase n w \<sigma> (ss(uid := s))"
      using ps(1) i(3) unfolding check_phase_def by (intro exI [of _ "ps(uid := Arrive 3 None)"]) auto
    then show ?thesis by (simp add: grader_inv_def)
  qed
qed

lemma between_step:
  assumes "grader_inv n w m \<sigma> (stages ls)" "well_sized w" "between n nbrepeats nbtxperwrk w D f g"
    and "\<And>j. j \<in> D \<Longrightarrow> ls j = f j" "check_rounds * n < 2 ^ 64"
  shows "grader_inv n w m \<sigma> (stages (\<lambda>j. if j \<in> D then g j else ls j))"
proof -
  from assms(3) consider
    (next_round) k where "D = {..<n}"
      "\<forall>uid < n. f uid = (Waiting k, None) \<and> g uid = (test_after nbrepeats nbtxperwrk w k, None)"
  | (barrier) k err where "D = {..<n}" "\<forall>uid < n. f uid = (Checking (Arrive k (err uid)), None) \<and>
      g uid = (Checking (after_barrier k uid (err uid)), None)"
  | (one) uid where "uid < n" "D = {uid}"
      "alone (fst (f uid)) (fst (g uid)) \<or> recaptured w (fst (f uid)) (fst (g uid))"
    unfolding between_def by blast
  then show ?thesis
  proof cases
    case D: next_round
    show ?thesis
    proof (cases "n = 0")
      case False
      then show ?thesis using D assms(4) by (intro test_after_inv [OF assms(1,2)]) auto
    qed (use D assms(1) in simp)
  next
    case D: barrier
    show ?thesis
    proof (cases "n = 0")
      case False
      then show ?thesis using D assms(4,5) by (intro barrier_inv [OF assms(1)]) auto
    qed (use D assms(1) in simp)
  next
    case D: one
    have "alone (stages ls uid) (fst (g uid)) \<or> recaptured w (stages ls uid) (fst (g uid))" using D assms(4) by simp
    from alone_inv [OF assms(1) D(1) this assms(5)] have
      "grader_inv n w m \<sigma> ((stages ls)(uid := fst (g uid)))" .
    moreover have "(stages ls)(uid := fst (g uid)) = stages (\<lambda>j. if j \<in> D then g j else ls j)" using D by auto
    ultimately show ?thesis by simp
  qed
qed

section \<open>Runs\<close>

lemma grader_simps [simp]:
  "next_call (grader_workers n nbrepeats nbtxperwrk w) uid x = worker_call n w uid x"
  "got (grader_workers n nbrepeats nbtxperwrk w) uid x r = worker_got x r"
  "other_step (grader_workers n nbrepeats nbtxperwrk w) D f g = between n nbrepeats nbtxperwrk w D f g"
  by (simp_all add: grader_workers_def)

lemma grader_run:
  assumes "atomic_run (grader_workers n nbrepeats nbtxperwrk w) \<sigma>0 at_start m \<sigma> ls"
    and "zeroed w \<sigma>0" "well_sized w" "check_rounds * n < 2 ^ 64"
  shows "grader_inv n w m \<sigma> (stages ls)"
  using assms(1)
proof (induction rule: atomic_run.induct)
  case run_start
  then show ?case using assms(2) by (simp add: grader_inv_def init_phase_def at_start_def)
next
  case (run_write m \<sigma> ls i p r \<sigma>')
  then show ?case using write_step [OF run_write.IH assms(3) _ run_write.hyps(3) assms(4)] by simp
next
  case (run_read m \<sigma> ls i p r)
  then show ?case using read_step [OF run_read.IH assms(3) _ _ assms(4), of i p r] by simp
next
  case (run_any m \<sigma> ls i p r)
  then show ?case using read_step [OF run_any.IH assms(3) _ _ assms(4), of i p r] by simp
next
  case (run_refused m \<sigma> ls i ro p)
  have "stages (ls(i := worker_got (ls i) (Inl TransactionBegin))) = stages ls"
    by (auto simp: fst_worker_got)
  then show ?case using run_refused.IH by simp
next
  case (run_other m \<sigma> ls D f g)
  then show ?case using between_step [OF run_other.IH assms(3) _ _ assms(4), of nbrepeats nbtxperwrk D f g] by simp
qed

lemma grader_well_behaved:
  assumes "zeroed w \<sigma>0" "well_sized w" "check_rounds * n < 2 ^ 64"
  shows "well_behaved (grader_workers n nbrepeats nbtxperwrk w) \<sigma>0 at_start"
  unfolding well_behaved_def
  using write_safe [OF grader_run [OF _ assms] assms(2) _ assms(3)] by auto

end
