(* ===== verification/TL2_Grading.thy ===== *)
theory TL2_Grading
  imports TL2_Rounds
begin

text \<open>
  What the workers of the grader can rely on when the library is the concurrent TL2 of
  \<open>394984/tm.cpp\<close>: the invariant of their rounds, carried over by the composition theorem.
\<close>

section \<open>The bank in memory\<close>

text \<open>The segment \<open>tm_create\<close> was given for the bank.\<close>

definition first_segment :: "workload \<Rightarrow> bool" where
  "first_segment w \<longleftrightarrow> bank_start w \<noteq> 0 \<and> word_aligned 8 (bank_start w) \<and>
     unat (bank_start w) + segment_size (room w) < 2 ^ 64"

lemma first_segment_words:
  assumes "first_segment w"
  shows "zeroed w (fresh_store (words_at w (bank_start w)))" "\<forall>a \<in> words_at w (bank_start w). word_aligned 8 a"
  using assms seg_words_pos [of "bank_start w" "segment_size (room w)"] seg_words_aligned
  by (auto simp: first_segment_def zeroed_def words_at_def)

lemma bank_at_cong:
  assumes "bank_at w (V, f) B" "well_sized w" "\<And>a. a \<in> V \<Longrightarrow> g a = f a"
  shows "bank_at w (V, g) B"
proof -
  have seg: "seg_at w (V, g) S" "g (cell (seg_ptr S) 1) = f (cell (seg_ptr S) 1)" if "seg_at w (V, f) S" for S
  proof -
    note rd = seg_at_reads [OF that assms(2)]
    have "length (seg_accounts S) \<le> room w" using that by (simp add: seg_at_def)
    then show "seg_at w (V, g) S"
      using that rd(1,3) rd(4) assms(3) by (auto simp: seg_at_def)
    show "g (cell (seg_ptr S) 1) = f (cell (seg_ptr S) 1)" using rd(2) assms(3) by simp
  qed
  have "links (V, g) p B" if "links (V, f) p B" "\<forall>S \<in> set B. seg_at w (V, f) S" for p
    using that
  proof (induction B arbitrary: p)
    case (Cons S B)
    then show ?case using seg(2) [of S] by auto
  qed simp
  then show ?thesis using assms(1) seg(1) by (auto simp: bank_at_def)
qed

text \<open>The bank in memory, when nobody is writing back: a sound list of segments, no balance negative.\<close>

definition bank_in_memory :: "workload \<Rightarrow> sys \<Rightarrow> bool" where
  "bank_in_memory w s \<longleftrightarrow>
     (\<exists>V B. bank_at w (V, \<lambda>a. decode (word_at s a)) B \<and> (\<forall>S \<in> set B. seg_accounts S \<noteq> []) \<and>
        sum_list (map seg_parity B) + sum_list (balances B) = init_balance w * of_nat (length (balances B)) \<and>
        (\<forall>a \<in> set (balances B). \<not> a <s 0))"

lemma kept_in_memory:
  assumes "kept_bank w m \<sigma> B" "well_sized w" "unat (init_balance w) * (room w + m) < 2 ^ 63"
    and "\<forall>a \<in> fst \<sigma>. decode (word_at s a) = snd \<sigma> a"
  shows "bank_in_memory w s"
proof -
  have b: "bank_at w \<sigma> B" "no_empty B" "conserved w B" "money B < 2 ^ 63"
    using assms(1,3) by (auto simp: kept_bank_def)
  have "bank_at w (fst \<sigma>, \<lambda>a. decode (word_at s a)) B"
    by (rule bank_at_cong [of w "fst \<sigma>" "snd \<sigma>"]) (use b(1) assms(2,4) in auto)
  then show ?thesis
    using b(2,3) money_nonneg [OF b(4)] unfolding bank_in_memory_def no_empty_def conserved_def by blast
qed

text \<open>A transaction that has committed and not returned: its worker is in the same part of its code.\<close>

lemma agrees_stage:
  assumes "agrees (grader_workers n nbrepeats nbtxperwrk w) \<sigma> ls x"
  shows "stages ls uid = fst (local_state x uid) \<or> (\<exists>a. stages ls uid = stage_got (fst (local_state x uid)) a)"
proof -
  have "ls uid = local_state x uid \<or> (\<exists>r. ls uid = worker_got (local_state x uid) r)"
    using assms unfolding agrees_def by auto
  moreover have "fst (worker_got y r) = fst y \<or> (\<exists>a. fst (worker_got y r) = stage_got (fst y) a)" for y r
    by (cases r) (simp_all add: fst_worker_got, blast)
  ultimately show ?thesis by metis
qed

lemma grader_inv_stage:
  assumes "grader_inv n w m \<sigma> ss" "uid < n"
  shows "in_run (ss uid) \<Longrightarrow> \<exists>B. kept_bank w m \<sigma> B"
    and "ss uid = Reported r message \<Longrightarrow> 0 < r \<and> message = run_violation"
    and "ss uid = Checking (Arrive k err) \<Longrightarrow> err = None"
    and "ss uid = Checking (Return err) \<Longrightarrow> err = None \<and> bank_start w \<in> fst \<sigma> \<and> snd \<sigma> (bank_start w) = 0"
proof -
  from assms(1) consider "init_phase n w \<sigma> ss" | "run_phase n w m \<sigma> ss" | "check_phase n w \<sigma> ss"
    unfolding grader_inv_def by blast
  then have "(in_run (ss uid) \<longrightarrow> (\<exists>B. kept_bank w m \<sigma> B)) \<and>
    (ss uid = Reported r message \<longrightarrow> 0 < r \<and> message = run_violation) \<and>
    (ss uid = Checking (Arrive k err) \<longrightarrow> err = None) \<and>
    (ss uid = Checking (Return err) \<longrightarrow> err = None \<and> bank_start w \<in> fst \<sigma> \<and> snd \<sigma> (bank_start w) = 0)"
  proof cases
    case 1
    then have "ss uid \<in> {InitAccounts, InitBalance, Waiting 0}" using assms(2) unfolding init_phase_def by blast
    then show ?thesis by auto
  next
    case 2
    then have "in_run (ss uid)" "\<exists>B. kept_bank w m \<sigma> B" using assms(2) by (auto simp: run_phase_def)
    then show ?thesis by auto
  next
    case 3
    then obtain ps where ps: "ss uid = Checking (ps uid)" "check_inv (bank_start w) n (\<sigma>, ps)"
      using assms(2) by (auto simp: check_phase_def)
    have "pc_ok (snd \<sigma> (bank_start w)) n uid (ps uid)" "bank_start w \<in> fst \<sigma>"
      using check_invE [OF ps(2)] assms(2) by metis+
    then show ?thesis using ps(1) by auto
  qed
  then show "in_run (ss uid) \<Longrightarrow> \<exists>B. kept_bank w m \<sigma> B"
    and "ss uid = Reported r message \<Longrightarrow> 0 < r \<and> message = run_violation"
    and "ss uid = Checking (Arrive k err) \<Longrightarrow> err = None"
    and "ss uid = Checking (Return err) \<Longrightarrow> err = None \<and> bank_start w \<in> fst \<sigma> \<and> snd \<sigma> (bank_start w) = 0"
    by blast+
qed

section \<open>A bank of one account and one worker\<close>

definition small_bank :: workload where
  "small_bank = \<lparr>nbaccounts = 1, init_balance = 100, bank_start = 4096\<rparr>"

definition small_sched :: "(nat \<times> input) list" where
  "small_sched = [(0, go), (0, go), (0, go), (0, Go False [4096, 4120] []), (0, go), (0, go), (0, go), (0, go),
     (0, go), (0, go), (0, go), (0, go), (0, go), (0, go), (0, go), (0, go),
     (0, go), (0, go), (0, go), (0, go), (0, go), (0, go), (0, go), (0, go)]"

abbreviation small_grader :: "(worker_state, answer) client_code" where
  "small_grader \<equiv> grader_workers 1 1 1 small_bank"

lemma small_bodies:
  "map_prog f (init_tx small_bank) = prog.WriteWord 4096 1 (prog.WriteWord 4120 100 (Done (f ())))"
  "map_prog g (init_check small_bank) = ReadWord 4120 (\<lambda>v. Done (g (v = 100)))"
  by (simp_all add: init_tx_def init_check_def small_bank_def fill_accounts.simps count_of_def accounts_of_def
     parity_of_def next_of_def array_cell_def comp_def)

lemma small_words: "words_at small_bank (bank_start small_bank) = {4096, 4104, 4112, 4120}"
  by (simp add: words_at small_bank_def cell_def numeral_eq_Suc lessThan_Suc insert_commute)

lemma small_plays:
  "\<exists>x. play small_grader small_sched (new_world 0 (words_at small_bank (bank_start small_bank)) at_start) = Some x \<and>
     local_state x 0 = (Waiting 0, None) \<and> (\<forall>i. pc_at (tm x) i = Idle) \<and> \<not> terminated x \<and> calls x 0 = Outside"
  by (simp add: play_simps worker_call_def small_bodies at_start_def worker_got_def small_sched_def insert_commute,
      presburger)

text \<open>The worker comes out of \<open>init\<close> and enters its first round.\<close>

lemma small_round:
  obtains x where "world_reach (\<lambda>x. supported (tm x)) small_grader
      (new_world 0 (words_at small_bank (bank_start small_bank)) at_start) x"
    "local_state x 0 = (Draw 1 1 1, None)" "\<forall>i. \<not> decided (pc_at (tm x) i)"
proof -
  obtain x where x: "play small_grader small_sched
      (new_world 0 (words_at small_bank (bank_start small_bank)) at_start) = Some x"
    "local_state x 0 = (Waiting 0, None)" "\<forall>i. pc_at (tm x) i = Idle" "\<not> terminated x" "calls x 0 = Outside"
    using small_plays by blast
  let ?D = "{..<1 :: nat}" and ?f = "\<lambda>_. (Waiting 0, None)" and ?g = "\<lambda>_. (Draw 1 1 1, None)"
  let ?y = "x\<lparr>local_state := \<lambda>j. if j \<in> ?D then ?g j else local_state x j\<rparr>"
  have "between 1 1 1 small_bank ?D ?f ?g"
    unfolding between_def by (intro disjI1 conjI refl exI [of _ 0]) (simp add: test_after_def small_bank_def)
  then have "world_step small_grader x ?y"
    using x(2,4,5) by (intro step_other [where f = ?f]) auto
  moreover have r: "world_reach (\<lambda>x. supported (tm x)) small_grader
      (new_world 0 (words_at small_bank (bank_start small_bank)) at_start) x"
    by (rule play_reach [OF x(1)])
  moreover have "supported (tm ?y)" using r by (cases rule: world_reach.cases) simp_all
  ultimately have "world_reach (\<lambda>x. supported (tm x)) small_grader
      (new_world 0 (words_at small_bank (bank_start small_bank)) at_start) ?y"
    by (blast intro: world_move)
  moreover have "local_state ?y 0 = (Draw 1 1 1, None)" "\<forall>i. \<not> decided (pc_at (tm ?y) i)" using x(3) by simp_all
  ultimately show ?thesis using that by blast
qed

text \<open>What the invariant of the rounds says of the memory and of one worker.\<close>

lemma grader_reached:
  assumes reach: "world_reach (\<lambda>x. supported (tm x)) (grader_workers n nbrepeats nbtxperwrk w)
      (new_world clock (words_at w (bank_start w)) at_start) x"
    and w: "well_sized w" "first_segment w" "check_rounds * n < 2 ^ 64"
    and bound: "unat (init_balance w) * (room w + 2 ^ 31) < 2 ^ 63" and uid: "uid < n"
  obtains m \<sigma> ss where "grader_inv n w m \<sigma> ss"
    "ss uid = fst (local_state x uid) \<or> (\<exists>a. ss uid = stage_got (fst (local_state x uid)) a)"
    "unat (init_balance w) * (room w + m) < 2 ^ 63"
    "(\<forall>i. \<not> decided (pc_at (tm x) i)) \<Longrightarrow> \<forall>a \<in> fst \<sigma>. decode (word_at (tm x) a) = snd \<sigma> a"
proof -
  let ?C = "grader_workers n nbrepeats nbtxperwrk w"
  note z = first_segment_words [OF w(2)]
  note wb = grader_well_behaved [OF z(1) w(1,3), of nbrepeats nbtxperwrk]
  obtain m \<sigma> ls where run: "m \<le> gv (tm x)" "atomic_run ?C (fresh_store (words_at w (bank_start w))) at_start m \<sigma> ls"
    and ag: "agrees ?C \<sigma> ls x"
    using linearization [OF reach z(2) wb] by blast
  have "supported (tm x)" using reach by (cases rule: world_reach.cases) simp_all
  then have "m < 2 ^ 31" using run(1) by (simp add: supported_def)
  then have "unat (init_balance w) * (room w + m) \<le> unat (init_balance w) * (room w + 2 ^ 31)"
    by (intro mult_le_mono2) simp
  then have "unat (init_balance w) * (room w + m) < 2 ^ 63" using bound by (rule le_less_trans)
  moreover have "\<forall>a \<in> fst \<sigma>. decode (word_at (tm x) a) = snd \<sigma> a" if "\<forall>i. \<not> decided (pc_at (tm x) i)"
    using ag that unfolding agrees_def by blast
  ultimately show ?thesis using grader_run [OF run(2) z(1) w(1,3)] agrees_stage [OF ag, of uid] that by blast
qed

lemma grader_bank:
  assumes "world_reach (\<lambda>x. supported (tm x)) (grader_workers n nbrepeats nbtxperwrk w)
      (new_world clock (words_at w (bank_start w)) at_start) x"
    and "well_sized w" "first_segment w" "check_rounds * n < 2 ^ 64"
    and "unat (init_balance w) * (room w + 2 ^ 31) < 2 ^ 63" "uid < n"
    and "in_run (fst (local_state x uid))" "\<forall>i. \<not> decided (pc_at (tm x) i)"
  shows "bank_in_memory w (tm x)"
proof -
  obtain m \<sigma> ss where inv: "grader_inv n w m \<sigma> ss"
    and st: "ss uid = fst (local_state x uid) \<or> (\<exists>a. ss uid = stage_got (fst (local_state x uid)) a)"
    and bound: "unat (init_balance w) * (room w + m) < 2 ^ 63"
    and mem: "\<forall>a \<in> fst \<sigma>. decode (word_at (tm x) a) = snd \<sigma> a"
    using grader_reached [OF assms(1-6)] assms(8) by metis
  have "in_run (ss uid)" using st assms(7) in_run_got by auto
  then obtain B where "kept_bank w m \<sigma> B" using grader_inv_stage(1) [OF inv assms(6)] by blast
  from kept_in_memory [OF this assms(2) bound mem] show ?thesis .
qed

section \<open>The theorem\<close>

text \<open>C2: the grader's workers on the concurrent library. However the accesses of the workers
  interleave, whatever the allocator, the dice, the compare-and-swaps and the indices left over from
  aborted transfers do, no worker ever reports
  an error from \<open>init\<close> or from \<open>check\<close>, and what it may report from \<open>run\<close> is only the one message of
  \<open>run\<close>. In a state in which no thread is writing back, memory holds, when some worker is in \<open>run\<close>, a
  sound list of segments with all the money accounted for and no balance negative, and the counter is
  0 once a worker has returned from \<open>check\<close> without an error. The runs are those whose states are all
  \<open>supported\<close>: the clock stays below \<open>2 ^ 31\<close>, and no transaction has two written words a multiple of
  10000 bytes apart, which leaves out banks of 1248 accounts and more, whose first segment \<open>init\<close> writes
  in one transaction. The money of a bank of \<open>2 ^ 31\<close> accounts more than the first segment holds is to
  fit into 63 bits.\<close>

theorem grader_on_concurrent_library:
  assumes "world_reach (\<lambda>x. supported (tm x)) (grader_workers n nbrepeats nbtxperwrk w)
      (new_world clock (words_at w (bank_start w)) at_start) x"
    and "well_sized w" "first_segment w" "check_rounds * n < 2 ^ 64"
    and "unat (init_balance w) * (room w + 2 ^ 31) < 2 ^ 63" "uid < n"
  shows "(\<forall>r message. fst (local_state x uid) = Reported r message \<longrightarrow> 0 < r \<and> message = run_violation) \<and>
    (\<forall>k e. fst (local_state x uid) \<noteq> Checking (Arrive k (Some e)) \<and> fst (local_state x uid) \<noteq> Checking (Return (Some e))) \<and>
    ((\<forall>i. \<not> decided (pc_at (tm x) i)) \<longrightarrow>
       (in_run (fst (local_state x uid)) \<longrightarrow> bank_in_memory w (tm x)) \<and>
       (fst (local_state x uid) = Checking (Return None) \<longrightarrow> decode (word_at (tm x) (bank_start w)) = 0))"
proof -
  let ?s = "fst (local_state x uid)"
  obtain m \<sigma> ss where inv: "grader_inv n w m \<sigma> ss" and st: "ss uid = ?s \<or> (\<exists>a. ss uid = stage_got ?s a)"
    and mem: "(\<forall>i. \<not> decided (pc_at (tm x) i)) \<Longrightarrow> \<forall>a \<in> fst \<sigma>. decode (word_at (tm x) a) = snd \<sigma> a"
    using grader_reached [OF assms] by metis
  note stage = grader_inv_stage [OF inv assms(6)]
  have same: "ss uid = ?s" if "?s = Reported r message \<or> ?s = Checking (Arrive k err) \<or> ?s = Checking (Return err)"
    for r message k err using st that by auto
  have "bank_in_memory w (tm x)" if "in_run ?s" "\<forall>i. \<not> decided (pc_at (tm x) i)"
    by (rule grader_bank [OF assms that])
  moreover have "decode (word_at (tm x) (bank_start w)) = 0"
    if "?s = Checking (Return None)" "\<forall>i. \<not> decided (pc_at (tm x) i)"
    using stage(4) [of None] same that(1) mem [OF that(2)] by simp
  moreover have "0 < r \<and> message = run_violation" if "?s = Reported r message" for r message
    using stage(2) [of r message] same that by simp
  moreover have "?s \<noteq> Checking (Arrive k (Some e))" "?s \<noteq> Checking (Return (Some e))" for k e
    using stage(3) [of k "Some e"] stage(4) [of "Some e"] same by fastforce+
  ultimately show ?thesis by blast
qed

theorem grader_on_concurrent_library_witness:
  "\<exists>x. local_state x 0 = (Draw 1 1 1, None) \<and> bank_in_memory small_bank (tm x) \<and>
    world_reach (\<lambda>x. supported (tm x)) small_grader
      (new_world 0 (words_at small_bank (bank_start small_bank)) at_start) x"
proof -
  obtain x where x: "world_reach (\<lambda>x. supported (tm x)) small_grader
      (new_world 0 (words_at small_bank (bank_start small_bank)) at_start) x"
    "local_state x 0 = (Draw 1 1 1, None)" "\<forall>i. \<not> decided (pc_at (tm x) i)"
    using small_round by blast
  have "well_sized small_bank" "first_segment small_bank" "check_rounds * 1 < 2 ^ 64"
    "unat (init_balance small_bank) * (room small_bank + 2 ^ 31) < 2 ^ 63" "(0 :: nat) < 1"
    by (simp_all add: well_sized_def first_segment_def small_bank_def word_aligned_def segment_size_def check_rounds_def)
  from grader_on_concurrent_library [OF x(1) this] x show ?thesis by auto
qed

end
