(* ===== verification/TL2_Alone.thy ===== *)
theory TL2_Alone
  imports TL2_Model TM_Semantics
begin

text \<open>
  The two models of the library agree: a whole call of \<open>TM_Library\<close> is what the step model of
  \<open>TL2_Model\<close> does when the thread that makes the call runs to its end undisturbed, whatever locks
  other threads hold meanwhile. So what is proved of whole calls is proved of these runs.
\<close>

section \<open>Steps of one thread\<close>

inductive tau_run :: "shared \<times> thread \<Rightarrow> shared \<times> thread \<Rightarrow> bool" where
  tau_refl: "tau_run c c"
| tau_step: "tstep (Tau spurious reads_order held_order) g t = Some c \<Longrightarrow> tau_run c d \<Longrightarrow> tau_run (g, t) d"

lemma tau_run_trans: "tau_run c d \<Longrightarrow> tau_run d e \<Longrightarrow> tau_run c e"
  by (induction rule: tau_run.induct) (auto intro: tau_run.intros)

lemma tau_once: "tstep (Tau spurious reads_order held_order) g t = Some c \<Longrightarrow> tau_run (g, t) c"
  by (blast intro: tau_run.intros)

text \<open>In the whole system, thread \<open>i\<close> moving alone.\<close>

definition only_tau :: "act list \<Rightarrow> bool" where
  "only_tau acts \<longleftrightarrow> (\<forall>a \<in> set acts. \<exists>spurious reads_order held_order. a = Tau spurious reads_order held_order)"

lemma tau_run_runs:
  assumes "tau_run c d"
  shows "\<exists>acts. only_tau acts \<and>
    (\<forall>s. sh s = fst c \<longrightarrow> th s i = snd c \<longrightarrow>
      run (map (Pair i) acts) s = Some (s\<lparr>sh := fst d, th := (th s)(i := snd d)\<rparr>))"
  using assms
proof (induction rule: tau_run.induct)
  case (tau_refl c)
  have "s\<lparr>sh := fst c, th := (th s)(i := snd c)\<rparr> = s" if "sh s = fst c" "th s i = snd c" for s
    using that by (cases s) (auto simp: fun_upd_idem)
  then have "\<forall>s. sh s = fst c \<longrightarrow> th s i = snd c \<longrightarrow>
      run (map (Pair i) []) s = Some (s\<lparr>sh := fst c, th := (th s)(i := snd c)\<rparr>)"
    by (metis list.simps(8) run.simps(1))
  moreover have "only_tau []" by (simp add: only_tau_def)
  ultimately show ?case by blast
next
  case (tau_step sp rs hs g t c d)
  then obtain acts where acts: "only_tau acts"
    "\<And>s. sh s = fst c \<Longrightarrow> th s i = snd c \<Longrightarrow>
      run (map (Pair i) acts) s = Some (s\<lparr>sh := fst d, th := (th s)(i := snd d)\<rparr>)" by blast
  have "run (map (Pair i) (Tau sp rs hs # acts)) s = Some (s\<lparr>sh := fst d, th := (th s)(i := snd d)\<rparr>)"
    if "sh s = g" "th s i = t" for s
    using acts(2) [of "s\<lparr>sh := fst c, th := (th s)(i := snd c)\<rparr>"] tau_step.hyps(1) that
    by (cases c) (simp add: exec_def)
  then have "\<forall>s. sh s = fst (g, t) \<longrightarrow> th s i = snd (g, t) \<longrightarrow>
      run (map (Pair i) (Tau sp rs hs # acts)) s = Some (s\<lparr>sh := fst d, th := (th s)(i := snd d)\<rparr>)"
    by (metis fst_conv snd_conv)
  moreover have "only_tau (Tau sp rs hs # acts)" using acts(1) by (auto simp: only_tau_def)
  ultimately show ?case by blast
qed

section \<open>tm_end\<close>

text \<open>What is left of a transaction that gives up: to release the stripes it holds.\<close>

definition released :: "nat list \<Rightarrow> thread \<Rightarrow> thread" where
  "released held t = (if held = [] then abort t else t\<lparr>pc := UnlockLoad held\<rparr>)"

lemma released_pc [simp]: "released held (t\<lparr>pc := p\<rparr>) = released held t"
  by (simp add: released_def abort_def)

lemma release_held_released: "distinct held \<Longrightarrow> release_held held held t = Some (released held t)"
  by (simp add: release_held_def released_def)

lemma write_back_pc [simp]: "write_back keys wv (t\<lparr>pc := p\<rparr>) = write_back keys wv t"
  by (simp add: write_back_def commit_def)

lemma decide_pc [simp]: "decide g x (t\<lparr>pc := p\<rparr>) wv = decide g x t wv"
  by (simp add: decide_def)

lemma tau_unlock:
  assumes "txn t = Some x"
  shows "tau_run (g, released held t) (g\<lparr>stripes := unlock_all held (stripes g)\<rparr>, abort t)"
  using assms
proof (induction held arbitrary: g)
  case Nil
  then show ?case by (simp add: released_def tau_refl)
next
  case (Cons l held)
  let ?g = "g\<lparr>stripes := (stripes g)(l := vl_unlock (stripes g l))\<rparr>"
  have "tau_run (g, t\<lparr>pc := UnlockLoad (l # held)\<rparr>) (g, t\<lparr>pc := UnlockStore (l # held) (stripes g l)\<rparr>)"
    using Cons.prems by (intro tau_once) simp
  moreover have "tau_run (g, t\<lparr>pc := UnlockStore (l # held) (stripes g l)\<rparr>) (?g, released held t)"
    using Cons.prems by (intro tau_once) (simp add: released_def abort_def)
  moreover have "tau_run (?g, released held t) (g\<lparr>stripes := unlock_all (l # held) (stripes g)\<rparr>, abort t)"
    using Cons.IH [of ?g] Cons.prems by (simp del: fun_upd_apply)
  ultimately have "tau_run (g, t\<lparr>pc := UnlockLoad (l # held)\<rparr>)
      (g\<lparr>stripes := unlock_all (l # held) (stripes g)\<rparr>, abort t)"
    by (blast intro: tau_run_trans)
  then show ?case by (simp add: released_def)
qed

lemma tau_lock:
  assumes "txn t = Some x" "lock_write_set sp keys (stripes g) held = (ok, ls, held')" "distinct held"
  shows "tau_run (g, lock_next keys held t)
      (g\<lparr>stripes := ls\<rparr>, if ok then t\<lparr>pc := FetchAdd held'\<rparr> else released held' t) \<and> distinct held'"
  using assms(2,3)
proof (induction keys arbitrary: g held)
  case Nil
  then show ?case by (auto simp: lock_next_def intro: tau_refl)
next
  case (Cons a keys)
  let ?l = "lock_index a"
  obtain taken w where v: "vl_lock (sp a) (stripes g ?l) = (taken, w)" by (metis surj_pair)
  let ?g = "g\<lparr>stripes := (stripes g)(?l := w)\<rparr>"
  let ?t = "t\<lparr>pc := LockCas (a # keys) held (vl_expected (stripes g ?l))\<rparr>"
  have cas: "compare_exchange_weak (sp a) (stripes g ?l) (vl_expected (stripes g ?l))
      (vl_desired (vl_expected (stripes g ?l))) = (taken, w)"
    using v by (simp add: vl_lock_def Let_def)
  have load: "tau_run (g, lock_next (a # keys) held t) (g, ?t)"
    using assms(1) by (intro tau_once) (simp add: lock_next_def)
  show ?case
  proof (cases "\<not> taken \<and> ?l \<notin> set held")
    case True
    then have r: "ok = False" "ls = (stripes g)(?l := w)" "held' = held" using Cons.prems(1) v by (auto simp: Let_def)
    have "tau_run (g, ?t) (?g, released held t)"
      using True assms(1) cas Cons.prems(2)
      by (intro tau_once [of "sp a" _ held]) (simp add: Let_def release_held_released)
    from tau_run_trans [OF load this] show ?thesis using r Cons.prems(2) by (simp del: fun_upd_apply)
  next
    case False
    then have r: "lock_write_set sp keys (stripes ?g) (List.insert ?l held) = (ok, ls, held')"
      using Cons.prems(1) v by (auto simp: Let_def split: if_splits)
    have "tau_run (g, ?t) (?g, lock_next keys (List.insert ?l held) t)"
      using False assms(1) cas by (intro tau_once [of "sp a"]) (auto simp: Let_def lock_next_def)
    then have "tau_run (g, lock_next (a # keys) held t) (?g, lock_next keys (List.insert ?l held) t)"
      by (rule tau_run_trans [OF load])
    moreover have "distinct (List.insert ?l held)" using Cons.prems(2) by simp
    note IH = Cons.IH [OF r this]
    ultimately have "tau_run (g, lock_next (a # keys) held t)
        (?g\<lparr>stripes := ls\<rparr>, if ok then t\<lparr>pc := FetchAdd held'\<rparr> else released held' t)"
      using IH tau_run_trans by blast
    with IH show ?thesis by simp
  qed
qed

lemma tau_validate:
  assumes "txn t = Some x" "distinct held"
  shows "tau_run (val_next reads held g x t wv)
    (if validate reads (stripes g) held (rv x) then decide g x t wv else (g, released held t))"
proof (induction reads)
  case Nil
  then show ?case by (simp add: val_next_def validate_def tau_refl)
next
  case (Cons a reads)
  let ?l = "stripe g a"
  let ?t = "t\<lparr>pc := ValLocked (a # reads) held wv\<rparr>" and ?t' = "t\<lparr>pc := ValVersion (a # reads) held wv\<rparr>"
  have start: "val_next (a # reads) held g x t wv = (g, ?t)" by (simp add: val_next_def)
  have pc: "val_next reads held g x (t\<lparr>pc := p\<rparr>) wv = val_next reads held g x t wv" for p
    by (simp add: val_next_def)
  have "tau_run (g, ?t) (if (lock_index a \<notin> set held \<and> vl_isLocked ?l) \<or> vl_getVersion ?l > rv x
      then (g, released held t) else val_next reads held g x t wv)"
  proof (cases "lock_index a \<in> set held \<or> vl_isLocked ?l")
    case True
    then show ?thesis
      using assms by (intro tau_once [of _ _ held]) (auto simp: release_held_released pc)
  next
    case False
    then have "tau_run (g, ?t) (g, ?t')" using assms(1) by (intro tau_once) simp
    moreover have "tau_run (g, ?t') (if vl_getVersion ?l > rv x then (g, released held t) else val_next reads held g x t wv)"
      using assms by (intro tau_once [of _ _ held]) (auto simp: release_held_released pc)
    ultimately show ?thesis using False by (auto intro: tau_run_trans)
  qed
  moreover have "validate (a # reads) (stripes g) held (rv x) \<longleftrightarrow>
      \<not> ((lock_index a \<notin> set held \<and> vl_isLocked ?l) \<or> vl_getVersion ?l > rv x) \<and> validate reads (stripes g) held (rv x)"
    by (simp add: validate_def Let_def)
  ultimately show ?case
    using Cons.IH tau_run_trans [of "(g, ?t)" "val_next reads held g x t wv"] unfolding start
    by (cases "(lock_index a \<notin> set held \<and> vl_isLocked ?l) \<or> vl_getVersion ?l > rv x") (simp_all only: if_True if_False simp_thms)
qed

lemma tau_write_back:
  assumes "txn t = Some x" "write_back_all (write_set x) wv keys (mem g) (stripes g) = (m, ls)"
  shows "tau_run (g, write_back keys wv t) (g\<lparr>mem := m, stripes := ls\<rparr>, commit t)"
  using assms(2)
proof (induction keys arbitrary: g)
  case Nil
  then have "g\<lparr>mem := m, stripes := ls\<rparr> = g" by (cases g) simp
  then show ?case by (simp add: write_back_def tau_refl)
next
  case (Cons a keys)
  let ?g1 = "g\<lparr>mem := store_bytes (mem g) a (the (write_set x a))\<rparr>"
  let ?g2 = "?g1\<lparr>stripes := (stripes g)(lock_index a := vl_setVersion wv)\<rparr>"
  have "tau_run (g, t\<lparr>pc := WriteWord (a # keys) wv\<rparr>) (?g1, t\<lparr>pc := SetVersion (a # keys) wv\<rparr>)"
    using assms(1) by (intro tau_once) simp
  moreover have "tau_run (?g1, t\<lparr>pc := SetVersion (a # keys) wv\<rparr>) (?g2, write_back keys wv t)"
    using assms(1) by (intro tau_once) simp
  moreover have "tau_run (?g2, write_back keys wv t) (g\<lparr>mem := m, stripes := ls\<rparr>, commit t)"
    using Cons.IH [of ?g2] Cons.prems by (simp del: fun_upd_apply)
  ultimately have "tau_run (g, t\<lparr>pc := WriteWord (a # keys) wv\<rparr>) (g\<lparr>mem := m, stripes := ls\<rparr>, commit t)"
    by (blast intro: tau_run_trans)
  then show ?case by (simp add: write_back_def)
qed


text \<open>The whole of \<open>tm_end\<close> as the shared state and the result it leaves, from the loops of \<open>TM_Library\<close>.\<close>

definition end_result ::
  "(addr \<Rightarrow> bool) \<Rightarrow> addr list \<Rightarrow> addr list \<Rightarrow> Transaction \<Rightarrow> 64 word \<Rightarrow> memory \<Rightarrow> (nat \<Rightarrow> lock_word) \<Rightarrow>
   bool \<times> 64 word \<times> memory \<times> (nat \<Rightarrow> lock_word)" where
  "end_result sp ws_order rs_order x clock m ls0 =
     (if is_ro x then (True, clock, m, ls0)
      else
        let (locked, ls, held) = lock_write_set sp ws_order ls0 []
        in if \<not> locked then (False, clock, m, unlock_all held ls)
           else if rv x + 1 \<noteq> clock + 1 \<and> \<not> validate rs_order ls held (rv x)
           then (False, clock + 1, m, unlock_all held ls)
           else let (m', ls') = write_back_all (write_set x) (clock + 1) ws_order m ls
                in (True, clock + 1, m', ls'))"

lemma delete_txn_frame:
  assumes "delete_txn tx h = Inr h'"
  shows "mem h' = mem h" "gvc h' = gvc h" "lock_arrays h' = lock_arrays h"
proof -
  have fr: "mem h' = mem h \<and> gvc h' = gvc h \<and> lock_arrays h' = lock_arrays h" if "free_all ps h = Inr h'" for ps h h'
    using that by (induction ps arbitrary: h) (auto simp: free_def split: sum.splits if_splits)
  then show "mem h' = mem h" "gvc h' = gvc h" "lock_arrays h' = lock_arrays h"
    using assms fr unfolding delete_txn_def by (fastforce split: option.splits sum.splits)+
qed

text \<open>It is what \<open>tm_end\<close> leaves in the heap, whenever \<open>tm_end\<close> is defined.\<close>

lemma tm_end_end_result:
  assumes "tm_end sp ws_order rs_order shared tx h = Inr (ok, h')" "txns h tx = Some x"
    and "regions h shared = Some region" "lock_arrays h (locks region) = Some ls"
  shows "end_result sp ws_order rs_order x (gvc h) (mem h) ls =
    (ok, gvc h', mem h', the (lock_arrays h' (locks region)))"
  using assms delete_txn_frame
  by (auto simp: tm_end_def end_result_def the_txn_def the_region_def the_locks_def finish_def give_up_def
      and_then_Inr put_locks_def put_txn_def put_region_def Let_def split: if_splits prod.splits)

text \<open>After the locks: the fetch-and-add, the validation and the write-back.\<close>

lemma tau_decide:
  assumes "txn t = Some x" "write_back_all (write_set x) wv (order t) (mem g) (stripes g) = (m, ls)"
  shows "\<exists>log. tau_run (decide g x t wv) (g\<lparr>clog := log, mem := m, stripes := ls\<rparr>, commit t)"
proof -
  let ?log = "(clog g)(unat wv \<mapsto> \<lparr>c_reads = rlog t, c_writes = write_set x\<rparr>)"
  have "tau_run (g\<lparr>clog := ?log\<rparr>, write_back (order t) wv t) (g\<lparr>clog := ?log\<rparr>\<lparr>mem := m, stripes := ls\<rparr>, commit t)"
    by (rule tau_write_back [OF assms(1)]) (use assms(2) in simp)
  then have "tau_run (decide g x t wv) (g\<lparr>clog := ?log, mem := m, stripes := ls\<rparr>, commit t)"
    by (simp add: decide_def del: fun_upd_apply)
  then show ?thesis by blast
qed

definition ends_with :: "shared \<Rightarrow> thread \<Rightarrow> bool \<times> 64 word \<times> memory \<times> (nat \<Rightarrow> lock_word) \<Rightarrow> shared \<Rightarrow> thread \<Rightarrow> bool" where
  "ends_with g t res g' t' \<longleftrightarrow> t' = (if fst res then commit t else abort t) \<and> word_size g' = word_size g \<and>
     (fst res, gvc g', mem g', stripes g') = res"

lemma tau_after_locks:
  assumes "txn t = Some x" "order t = ws_order" "distinct held" "distinct rs_order" "set rs_order = read_set x"
  shows "\<exists>g' t'. tau_run (g, t\<lparr>pc := FetchAdd held\<rparr>) (g', t') \<and> ends_with g t
    (if rv x + 1 \<noteq> gvc g + 1 \<and> \<not> validate rs_order (stripes g) held (rv x)
     then (False, gvc g + 1, mem g, unlock_all held (stripes g))
     else let (m', ls') = write_back_all (write_set x) (gvc g + 1) ws_order (mem g) (stripes g)
          in (True, gvc g + 1, m', ls')) g' t'"
proof -
  let ?wv = "gvc g + 1" and ?g = "g\<lparr>gvc := gvc g + 1\<rparr>"
  obtain m ls where wb: "write_back_all (write_set x) ?wv ws_order (mem g) (stripes g) = (m, ls)" by fastforce
  have commits: "\<exists>g' t'. tau_run (decide ?g x t ?wv) (g', t') \<and> ends_with g t (True, ?wv, m, ls) g' t'"
    using tau_decide [OF assms(1), of ?wv ?g m ls] wb assms(2) by (fastforce simp: ends_with_def)
  have aborts: "\<exists>g' t'. tau_run (?g, released held t) (g', t') \<and>
      ends_with g t (False, ?wv, mem g, unlock_all held (stripes g)) g' t'"
    using tau_unlock [OF assms(1), of ?g held] by (fastforce simp: ends_with_def)
  show ?thesis
  proof (cases "rv x + 1 \<noteq> ?wv")
    case True
    have start: "tau_run (g, t\<lparr>pc := FetchAdd held\<rparr>) (val_next rs_order held ?g x t ?wv)"
      using assms True by (intro tau_once [of _ rs_order]) (auto simp: Let_def val_next_def)
    have val: "tau_run (val_next rs_order held ?g x t ?wv)
        (if validate rs_order (stripes g) held (rv x) then decide ?g x t ?wv else (?g, released held t))"
      using tau_validate [OF assms(1,3), of rs_order ?g ?wv] by simp
    note go = tau_run_trans [OF start val]
    show ?thesis
    proof (cases "validate rs_order (stripes g) held (rv x)")
      case True
      then show ?thesis using go commits wb tau_run_trans by (fastforce simp: Let_def)
    next
      case False
      then show ?thesis using go aborts True tau_run_trans by fastforce
    qed
  next
    case False
    then have "tau_run (g, t\<lparr>pc := FetchAdd held\<rparr>) (decide ?g x t ?wv)"
      using assms(1) by (intro tau_once) (simp add: Let_def)
    then show ?thesis using commits wb False tau_run_trans by fastforce
  qed
qed

lemma tau_end_call:
  assumes "txn t = Some x" "distinct ws_order" "set ws_order = dom (write_set x)"
    and "distinct rs_order" "set rs_order = read_set x" "end_call ws_order t = Some t1"
  shows "\<exists>g' t'. tau_run (g, t1) (g', t') \<and> (txn t' = None \<and> pc t' = Idle) \<and> word_size g' = word_size g \<and>
    (returned t', gvc g', mem g', stripes g') = end_result sp ws_order rs_order x (gvc g) (mem g) (stripes g)"
proof (cases "is_ro x")
  case True
  then have "t1 = commit t" using assms(1,6) by (auto simp: end_call_def split: if_splits)
  then show ?thesis using True by (intro exI [of _ g] exI [of _ t1]) (simp add: end_result_def commit_def tau_refl)
next
  case False
  let ?t = "t\<lparr>order := ws_order\<rparr>"
  have t1: "t1 = lock_next ws_order [] ?t"
    using False assms(1-3,6) by (auto simp: end_call_def lock_next_def split: if_splits)
  obtain ok ls held where l: "lock_write_set sp ws_order (stripes g) [] = (ok, ls, held)" by (metis prod_cases3)
  have x: "txn ?t = Some x" using assms(1) by simp
  note lk = tau_lock [OF x l, simplified]
  let ?g = "g\<lparr>stripes := ls\<rparr>"
  have finished: "\<exists>g' t'. tau_run (g, t1) (g', t') \<and> (txn t' = None \<and> pc t' = Idle) \<and> word_size g' = word_size g \<and>
      (returned t', gvc g', mem g', stripes g') = res"
    if "tau_run (g, t1) (g1, t2)" "tau_run (g1, t2) (g', t')" "ends_with g1 ?t res g' t'" "word_size g1 = word_size g"
    for g1 t2 g' t' res
  proof -
    have "tau_run (g, t1) (g', t')" by (rule tau_run_trans [OF that(1,2)])
    moreover have "txn t' = None \<and> pc t' = Idle" "returned t' = fst res"
      using that(3) by (auto simp: ends_with_def commit_def abort_def)
    ultimately show ?thesis
      using that(3,4) by (intro exI [of _ g'] exI [of _ t'] conjI) (auto simp: ends_with_def)
  qed
  show ?thesis
  proof (cases ok)
    case True
    then have run: "tau_run (g, t1) (?g, ?t\<lparr>pc := FetchAdd held\<rparr>)" "distinct held" using lk t1 by simp_all
    from tau_after_locks [OF x _ run(2) assms(4,5), of ws_order ?g] obtain g' t' where
      "tau_run (?g, ?t\<lparr>pc := FetchAdd held\<rparr>) (g', t')"
      "ends_with ?g ?t (end_result sp ws_order rs_order x (gvc g) (mem g) (stripes g)) g' t'"
      using False l True by (auto simp: end_result_def Let_def cong: if_cong)
    from finished [OF run(1) this] show ?thesis by simp
  next
    case nok: False
    then have run: "tau_run (g, t1) (?g, released held ?t)" using lk t1 by simp
    have "ends_with ?g ?t (end_result sp ws_order rs_order x (gvc g) (mem g) (stripes g))
        (?g\<lparr>stripes := unlock_all held ls\<rparr>) (abort ?t)"
      using False l nok by (simp add: end_result_def ends_with_def)
    from finished [OF run _ this] tau_unlock [OF x, of ?g held] show ?thesis by simp
  qed
qed

section \<open>tm_read\<close>

text \<open>The offsets of the words, in the order of the loop.\<close>

function word_offsets :: "nat \<Rightarrow> nat \<Rightarrow> nat \<Rightarrow> nat list" where
  "word_offsets w sz i = (if i < sz \<and> 0 < w then i # word_offsets w sz (i + w) else [])"
  by pat_completeness auto
termination
  by (relation "measure (\<lambda>(w, sz, i). sz - i)") auto

declare word_offsets.simps [simp del]

lemma set_word_offsets:
  assumes "0 < w"
  shows "set (word_offsets w sz i) = offsets_from w sz i"
  using assms
proof (induction w sz i rule: word_offsets.induct)
  case (1 w sz i)
  show ?case
  proof (cases "i < sz")
    case True
    then have "word_offsets w sz i = i # word_offsets w sz (i + w)"
      using "1.prems" by (subst word_offsets.simps) simp
    then show ?thesis using True "1.IH" "1.prems" offsets_from_step by simp
  next
    case False
    then have "word_offsets w sz i = []" by (subst word_offsets.simps) simp
    then show ?thesis using False by (simp add: offsets_from_def)
  qed
qed

text \<open>The words the loop copies, and those among them that come from memory.\<close>

abbreviation words_seen :: "shared \<Rightarrow> Transaction \<Rightarrow> addr \<Rightarrow> nat list \<Rightarrow> bytes list" where
  "words_seen g x source ks \<equiv> map (\<lambda>k. view (word_size g) (mem g) (visible x) (source + of_nat k)) ks"

text \<open>One word: five accesses, of which the middle one copies.\<close>

definition noted :: "addr \<Rightarrow> Transaction \<Rightarrow> Transaction" where
  "noted a x = (if is_ro x then x else x\<lparr>read_set := insert a (read_set x)\<rparr>)"

lemma tau_read_word:
  assumes "txn t = Some x" "readable (stripes g) (rv x) (source + of_nat i)"
  shows "\<exists>log. tau_run (g, t\<lparr>pc := PreVersion source sz i\<rparr>)
    (g, read_next (word_size g) source sz i
      (t\<lparr>buf := buf t @ [view (word_size g) (mem g) (visible x) (source + of_nat i)], rlog := log,
         txn := Some (noted (source + of_nat i) x)\<rparr>))"
proof -
  let ?a = "source + of_nat i"
  let ?l = "stripe g ?a" and ?v = "view (word_size g) (mem g) (visible x) ?a"
  have r: "\<not> vl_isLocked ?l" "\<not> vl_getVersion ?l > rv x" using assms(2) by (auto simp: readable_def not_less)
  have "\<exists>log. tau_run (g, t\<lparr>pc := CopyWord source sz i (vl_getVersion ?l)\<rparr>)
      (g, t\<lparr>buf := buf t @ [?v], rlog := log, pc := PostVersion source sz i (vl_getVersion ?l)\<rparr>)"
  proof (cases "visible x ?a")
    case None
    then show ?thesis
      using assms(1)
      by (intro exI [of _ "(?a, ?v) # rlog t"] tau_once) (auto simp: Let_def view_def visible_def split: if_splits)
  next
    case (Some v)
    then show ?thesis
      using assms(1) by (cases t, intro exI [of _ "rlog t"] tau_once) (auto simp: Let_def view_def visible_def split: if_splits)
  qed
  then obtain log where copy: "tau_run (g, t\<lparr>pc := CopyWord source sz i (vl_getVersion ?l)\<rparr>)
      (g, t\<lparr>buf := buf t @ [?v], rlog := log, pc := PostVersion source sz i (vl_getVersion ?l)\<rparr>)"
    by blast
  let ?t = "t\<lparr>buf := buf t @ [?v], rlog := log\<rparr>"
  have "tau_run (g, t\<lparr>pc := PreVersion source sz i\<rparr>) (g, t\<lparr>pc := PreLocked source sz i (vl_getVersion ?l)\<rparr>)"
    using assms(1) by (intro tau_once) simp
  moreover have "tau_run (g, t\<lparr>pc := PreLocked source sz i (vl_getVersion ?l)\<rparr>)
      (g, t\<lparr>pc := CopyWord source sz i (vl_getVersion ?l)\<rparr>)"
    using assms(1) r by (intro tau_once) simp
  moreover note copy
  moreover have "tau_run (g, ?t\<lparr>pc := PostVersion source sz i (vl_getVersion ?l)\<rparr>)
      (g, ?t\<lparr>pc := PostLocked source sz i (vl_getVersion ?l) (vl_getVersion ?l)\<rparr>)"
    using assms(1) by (intro tau_once) simp
  moreover have "tau_run (g, ?t\<lparr>pc := PostLocked source sz i (vl_getVersion ?l) (vl_getVersion ?l)\<rparr>)
      (g, read_next (word_size g) source sz i (?t\<lparr>txn := Some (noted ?a x)\<rparr>))"
    using assms(1) r by (intro tau_once) (auto simp: Let_def read_next_def noted_def)
  ultimately have "tau_run (g, t\<lparr>pc := PreVersion source sz i\<rparr>)
      (g, read_next (word_size g) source sz i (?t\<lparr>txn := Some (noted ?a x)\<rparr>))"
    by (blast intro: tau_run_trans)
  then show ?thesis by (intro exI [of _ log]) (simp add: read_next_def)
qed

lemma tau_read_abort:
  assumes "txn t = Some x" "\<not> readable (stripes g) (rv x) (source + of_nat i)"
  shows "tau_run (g, t\<lparr>pc := PreVersion source sz i\<rparr>) (g, abort t)"
proof -
  let ?l = "stripe g (source + of_nat i)"
  have "tau_run (g, t\<lparr>pc := PreVersion source sz i\<rparr>) (g, t\<lparr>pc := PreLocked source sz i (vl_getVersion ?l)\<rparr>)"
    using assms(1) by (intro tau_once) simp
  moreover have "tau_run (g, t\<lparr>pc := PreLocked source sz i (vl_getVersion ?l)\<rparr>) (g, abort t)"
    using assms by (intro tau_once) (auto simp: readable_def abort_def)
  ultimately show ?thesis by (rule tau_run_trans)
qed

definition noted_all :: "addr \<Rightarrow> nat list \<Rightarrow> Transaction \<Rightarrow> Transaction" where
  "noted_all source ks x =
     (if is_ro x then x else x\<lparr>read_set := read_set x \<union> (\<lambda>k. source + of_nat k) ` set ks\<rparr>)"

lemma tau_read_loop:
  assumes "txn t = Some x" "0 < word_size g" "i < sz"
  shows "\<exists>t'. tau_run (g, t\<lparr>pc := PreVersion source sz i\<rparr>) (g, t') \<and> pc t' = Idle \<and>
    (if list_all (\<lambda>k. readable (stripes g) (rv x) (source + of_nat k)) (word_offsets (word_size g) sz i)
     then returned t' \<and> txn t' = Some (noted_all source (word_offsets (word_size g) sz i) x) \<and>
       buf t' = buf t @ words_seen g x source (word_offsets (word_size g) sz i)
     else \<not> returned t' \<and> txn t' = None)"
  using assms(1,3)
proof (induction "sz - i" arbitrary: i t x rule: less_induct)
  case less
  let ?w = "word_size g" and ?a = "source + of_nat i"
  have off: "word_offsets ?w sz i = i # word_offsets ?w sz (i + ?w)"
    using less.prems(2) assms(2) by (subst word_offsets.simps) simp
  show ?case
  proof (cases "readable (stripes g) (rv x) ?a")
    case False
    then show ?thesis
      using tau_read_abort [OF less.prems(1) False, of sz] unfolding off
      by (intro exI [of _ "abort t"]) (simp add: abort_def)
  next
    case read: True
    let ?v = "view ?w (mem g) (visible x) ?a"
    obtain log where word: "tau_run (g, t\<lparr>pc := PreVersion source sz i\<rparr>)
        (g, read_next ?w source sz i (t\<lparr>buf := buf t @ [?v], rlog := log, txn := Some (noted ?a x)\<rparr>))"
      using tau_read_word [OF less.prems(1) read] by blast
    let ?t = "t\<lparr>buf := buf t @ [?v], rlog := log, txn := Some (noted ?a x)\<rparr>"
    have n: "rv (noted ?a x) = rv x" "visible (noted ?a x) = visible x"
      "noted_all source ks (noted ?a x) = noted_all source (i # ks) x" for ks
      by (auto simp: noted_def visible_def noted_all_def)
    show ?thesis
    proof (cases "i + ?w < sz")
      case True
      then have next_word: "tau_run (g, t\<lparr>pc := PreVersion source sz i\<rparr>) (g, ?t\<lparr>pc := PreVersion source sz (i + ?w)\<rparr>)"
        using word by (simp add: read_next_def)
      have "sz - (i + ?w) < sz - i" using True assms(2) by simp
      from less.hyps [OF this _ True, of ?t "noted ?a x"] obtain t' where
        t': "tau_run (g, ?t\<lparr>pc := PreVersion source sz (i + ?w)\<rparr>) (g, t')" "pc t' = Idle"
        "if list_all (\<lambda>k. readable (stripes g) (rv x) (source + of_nat k)) (word_offsets ?w sz (i + ?w))
         then returned t' \<and> txn t' = Some (noted_all source (i # word_offsets ?w sz (i + ?w)) x) \<and>
           buf t' = (buf t @ [?v]) @ words_seen g x source (word_offsets ?w sz (i + ?w))
         else \<not> returned t' \<and> txn t' = None"
        by (auto simp: n)
      have "tau_run (g, t\<lparr>pc := PreVersion source sz i\<rparr>) (g, t')" by (rule tau_run_trans [OF next_word t'(1)])
      then show ?thesis using t'(2,3) read unfolding off by (intro exI [of _ t']) simp
    next
      case False
      then have "word_offsets ?w sz (i + ?w) = []" by (subst word_offsets.simps) simp
      then show ?thesis
        unfolding off using read word False
        by (intro exI [of _ "?t\<lparr>pc := Idle, returned := True\<rparr>"]) (simp add: read_next_def noted_all_def noted_def)
    qed
  qed
qed

section \<open>Whole calls are runs\<close>

text \<open>Thread \<open>i\<close> of the step model in the state of the heap, between two calls of transaction \<open>tx\<close>.\<close>

definition pictures :: "heap \<Rightarrow> addr \<Rightarrow> addr \<Rightarrow> MemoryRegion \<Rightarrow> nat \<Rightarrow> sys \<Rightarrow> bool" where
  "pictures h shared tx region i s \<longleftrightarrow>
     (\<exists>x. live_in h shared tx region (stripes (sh s)) x \<and> txn (th s i) = Some x) \<and> pc (th s i) = Idle \<and>
     gvc (sh s) = gvc h \<and> mem (sh s) = mem h \<and> word_size (sh s) = align region"

text \<open>A call and the accesses that follow it, by thread \<open>i\<close> alone.\<close>

definition runs_alone :: "nat \<Rightarrow> act \<Rightarrow> sys \<Rightarrow> sys \<Rightarrow> bool" where
  "runs_alone i call s s' \<longleftrightarrow> (\<exists>acts. only_tau acts \<and> run (map (Pair i) (call # acts)) s = Some s') \<and>
     pc (th s' i) = Idle \<and> (\<forall>j. j \<noteq> i \<longrightarrow> th s' j = th s j)"

lemma runs_aloneI:
  assumes "exec i call s = Some s1" "sh s1 = g1" "th s1 i = t1" "\<And>j. j \<noteq> i \<Longrightarrow> th s1 j = th s j"
    and "tau_run (g1, t1) (g', t')" "pc t' = Idle"
  shows "runs_alone i call s (s1\<lparr>sh := g', th := (th s1)(i := t')\<rparr>)"
proof -
  obtain acts where "only_tau acts" "run (map (Pair i) acts) s1 = Some (s1\<lparr>sh := g', th := (th s1)(i := t')\<rparr>)"
    using tau_run_runs [OF assms(5), of i] assms(2,3) by auto
  then show ?thesis using assms(1,4,6) by (auto simp: runs_alone_def intro!: exI [of _ acts])
qed

lemma end_alone:
  assumes "pictures h shared tx region i s" "txns h tx = Some x" "distinct ws_order"
    and "set ws_order = dom (write_set x)" "distinct rs_order" "set rs_order = read_set x"
    and "tm_end sp ws_order rs_order shared tx h = Inr (ok, h')"
  shows "\<exists>s'. runs_alone i (End ws_order) s s' \<and> returned (th s' i) = ok \<and> txn (th s' i) = None \<and>
    gvc (sh s') = gvc h' \<and> mem (sh s') = mem h' \<and> lock_arrays h' (locks region) = Some (stripes (sh s'))"
proof -
  have p: "txns h tx = Some x" "regions h shared = Some region" "lock_arrays h (locks region) = Some (stripes (sh s))"
    "txn (th s i) = Some x" "pc (th s i) = Idle" "gvc (sh s) = gvc h" "mem (sh s) = mem h"
    using assms(1,2) by (auto simp: pictures_def live_in_def)
  have res: "end_result sp ws_order rs_order x (gvc h) (mem h) (stripes (sh s)) =
      (ok, gvc h', mem h', the (lock_arrays h' (locks region)))"
    by (rule tm_end_end_result [OF assms(7) p(1-3)])
  have "lock_arrays h' (locks region) \<noteq> None"
    using assms(7) p(1-3) delete_txn_frame
    by (auto simp: tm_end_def the_txn_def the_region_def the_locks_def finish_def give_up_def
        and_then_Inr put_locks_def put_txn_def put_region_def Let_def split: if_splits prod.splits)
  moreover have "end_call ws_order (th s i) \<noteq> None"
    using p(4,5) assms(3,4) by (simp add: end_call_def)
  then obtain t1 where t1: "end_call ws_order (th s i) = Some t1" by blast
  moreover obtain g' t' where e: "tau_run (sh s, t1) (g', t')" "txn t' = None" "pc t' = Idle"
    "(returned t', gvc g', mem g', stripes g') = (ok, gvc h', mem h', the (lock_arrays h' (locks region)))"
    using tau_end_call [OF p(4) assms(3-6) t1, of "sh s" sp] p(6,7) res by auto
  moreover have "exec i (End ws_order) s = Some (s\<lparr>th := (th s)(i := t1)\<rparr>)" using t1 by (cases s) (simp add: exec_def)
  from runs_aloneI [OF this _ _ _ e(1,3)] have
    "runs_alone i (End ws_order) s (s\<lparr>sh := g', th := (th s)(i := t')\<rparr>)" by simp
  ultimately show ?thesis by (intro exI [of _ "s\<lparr>sh := g', th := (th s)(i := t')\<rparr>"]) auto
qed

lemma read_alone:
  assumes "pictures h shared tx region i s" "txns h tx = Some x" "read_args (align region) x source sz target"
    and "word_aligned (align region) source" "0 < sz" "tm_read shared tx source sz target h = Inr (ok, h')"
  shows "\<exists>s'. runs_alone i (Read source sz) s s' \<and> sh s' = sh s \<and> returned (th s' i) = ok \<and>
    txn (th s' i) = txns h' tx \<and>
    (ok \<longrightarrow> buf (th s' i) =
       map (\<lambda>k. load_bytes (mem h') (target + of_nat k) (align region)) (word_offsets (align region) sz 0))"
proof -
  let ?w = "align region" and ?t = "th s i\<lparr>buf := []\<rparr>" and ?ls = "stripes (sh s)"
  have p: "live_in h shared tx region ?ls x" "txn ?t = Some x" "pc (th s i) = Idle" "mem (sh s) = mem h"
    "word_size (sh s) = ?w" "txn (th s i) = Some x"
    using assms(1,2) by (auto simp: pictures_def live_in_def)
  have w: "0 < ?w" "?w dvd sz" using assms(3) by (simp_all add: read_args_def)
  have all: "list_all (\<lambda>k. readable ?ls (rv x) (source + of_nat k)) (word_offsets ?w sz 0) \<longleftrightarrow>
      all_readable ?w ?ls x source sz"
    using set_word_offsets [OF w(1), of sz 0] by (simp add: list_all_iff)
  have noted: "noted_all source (word_offsets ?w sz 0) x = after_read ?w source sz x"
    using set_word_offsets [OF w(1), of sz 0] by (simp add: noted_all_def after_read_def)
  obtain t' where t': "tau_run (sh s, ?t\<lparr>pc := PreVersion source sz 0\<rparr>) (sh s, t')" "pc t' = Idle"
    "if all_readable ?w ?ls x source sz
     then returned t' \<and> txn t' = Some (after_read ?w source sz x) \<and>
       buf t' = words_seen (sh s) x source (word_offsets ?w sz 0)
     else \<not> returned t' \<and> txn t' = None"
    using tau_read_loop [OF p(2) _ assms(5), of "sh s" source] w(1) p(5) unfolding all [symmetric] noted [symmetric]
    by auto
  let ?t1 = "th s i\<lparr>pc := PreVersion source sz 0, buf := []\<rparr>"
  let ?s1 = "s\<lparr>th := (th s)(i := ?t1)\<rparr>"
  have t1: "?t\<lparr>pc := PreVersion source sz 0\<rparr> = ?t1" by simp
  have call: "exec i (Read source sz) s = Some ?s1"
    using p(3,5,6) assms(4,5) w(2) by (cases s) (simp add: exec_def read_call_def)
  have alone: "runs_alone i (Read source sz) s (s\<lparr>th := (th s)(i := t')\<rparr>)"
    using runs_aloneI [OF call _ _ _ t'(1) [unfolded t1] t'(2)] by (cases s) simp
  note r = tm_read_result [OF p(1) w(1), where source = source and sz = sz and target = target]
  have "returned t' = ok \<and> txn t' = txns h' tx \<and>
      (ok \<longrightarrow> buf t' = map (\<lambda>k. load_bytes (mem h') (target + of_nat k) ?w) (word_offsets ?w sz 0))"
  proof (cases "all_readable ?w ?ls x source sz")
    case True
    then have ok: "ok" "h' = put_txn tx (after_read ?w source sz x)
        (h\<lparr>mem := copy_view ?w (visible x) source target sz 0 (mem h)\<rparr>)"
      using r assms(6) by auto
    then have "buf t' = map (\<lambda>k. load_bytes (mem h') (target + of_nat k) ?w) (word_offsets ?w sz 0)"
      using t'(3) True p(4,5) read_args_copy(1) [OF assms(3)] set_word_offsets [OF w(1), of sz 0]
      by (simp add: put_txn_def)
    then show ?thesis using t'(3) True ok by (simp add: put_txn_def)
  next
    case False
    then have "\<exists>h'. tm_read shared tx source sz target h = Inr (False, h') \<and> txns h' tx = None"
      using r by (simp only: if_False)
    then have "\<not> ok" "txns h' tx = None" using assms(6) by auto
    then show ?thesis using t'(3) False by simp
  qed
  then show ?thesis using alone by (intro exI [of _ "s\<lparr>th := (th s)(i := t')\<rparr>"]) simp
qed

text \<open>C3: the two models of the library agree. Whenever a whole call of \<open>tm_end\<close> or \<open>tm_read\<close> has a
  result, the thread that makes the call in the step model and runs alone from there, other threads
  resting where they are with whatever locks they hold, comes to the same result: the same returned
  value, memory, lock words and clock after \<open>tm_end\<close>; the same transaction after \<open>tm_read\<close>, and in its
  buffer word for word what the target holds.\<close>

theorem whole_calls_are_runs:
  assumes "pictures h shared tx region i s" "txns h tx = Some x"
  shows "(distinct ws_order \<and> set ws_order = dom (write_set x) \<and> distinct rs_order \<and> set rs_order = read_set x \<and>
      tm_end sp ws_order rs_order shared tx h = Inr (ok1, h1) \<longrightarrow>
      (\<exists>s'. runs_alone i (End ws_order) s s' \<and> returned (th s' i) = ok1 \<and> txn (th s' i) = None \<and>
         gvc (sh s') = gvc h1 \<and> mem (sh s') = mem h1 \<and> lock_arrays h1 (locks region) = Some (stripes (sh s')))) \<and>
    (read_args (align region) x source sz target \<and> word_aligned (align region) source \<and> 0 < sz \<and>
      tm_read shared tx source sz target h = Inr (ok2, h2) \<longrightarrow>
      (\<exists>s'. runs_alone i (Read source sz) s s' \<and> sh s' = sh s \<and> returned (th s' i) = ok2 \<and>
         txn (th s' i) = txns h2 tx \<and>
         (ok2 \<longrightarrow> buf (th s' i) =
            map (\<lambda>k. load_bytes (mem h2) (target + of_nat k) (align region)) (word_offsets (align region) sz 0))))"
  using end_alone [OF assms] read_alone [OF assms] by blast

text \<open>The transaction of \<open>demo_wrote\<close>, on thread 0 of a system with the same memory.\<close>

definition demo_alone :: sys where
  "demo_alone =
     \<lparr>sh = \<lparr>gvc = gvc demo_wrote, mem = mem demo_wrote, stripes = (\<lambda>_. vl_new), word_size = 8, clog = Map.empty\<rparr>,
      th = (\<lambda>_. idle_thread)(0 := idle_thread\<lparr>txn := txns demo_wrote 48\<rparr>)\<rparr>"

theorem whole_calls_are_runs_witness:
  "\<exists>ok h' s'. tm_end (\<lambda>_. False) [4096] [4104] 16 48 demo_wrote = Inr (ok, h') \<and>
    runs_alone 0 (End [4096]) demo_alone s' \<and> returned (th s' 0) = ok \<and> mem (sh s') = mem h'"
proof -
  let ?x = "new_Transaction 0 False\<lparr>write_set := [4096 \<mapsto> replicate 8 7], read_set := {4104}\<rparr>"
  have x: "txns demo_wrote 48 = Some ?x" using demo_wrote_live by (simp add: live_in_def)
  have pic: "pictures demo_wrote 16 48 demo_region 0 demo_alone"
    using demo_wrote_live x by (auto simp: pictures_def demo_alone_def idle_thread_def)
  have "heap_ok demo_wrote" "regions demo_wrote 16 = Some demo_region"
    using demo_wrote_live by (simp_all add: live_in_def)
  then obtain ok h' where e: "tm_end (\<lambda>_. False) [4096] [4104] 16 48 demo_wrote = Inr (ok, h')"
    using tm_end_ok x by blast
  have o: "distinct [4096 :: addr]" "set [4096] = dom (write_set ?x)" "distinct [4104 :: addr]" "set [4104] = read_set ?x"
    by simp_all
  from whole_calls_are_runs [OF pic x] o e show ?thesis by blast
qed

end
