(* ===== verification/TL2_Solo.thy ===== *)
theory TL2_Solo
  imports TL2_Composition TL2_Alone
begin

text \<open>
  A thread that moves alone. The composition theorem says what a call of \<open>transactional()\<close> over the
  concurrent library returns if it returns; here it is shown that a call does return, at its first
  attempt, when its thread alone makes steps while no stripe is held, wherever the other threads
  rest. The steps of a whole library call come from \<open>TL2_Alone\<close>.
\<close>

section \<open>Steps of one thread of the composed system\<close>

inductive solo :: "('l, 'a) client_code \<Rightarrow> nat \<Rightarrow> ('l, 'a) world \<Rightarrow> ('l, 'a) world \<Rightarrow> bool" for C i where
  solo_refl: "solo C i w w"
| solo_step: "thread_step C i inp w = Some w1 \<Longrightarrow> supported (tm w1) \<Longrightarrow> solo C i w1 w2 \<Longrightarrow> solo C i w w2"

lemma solo_trans: "solo C i w w1 \<Longrightarrow> solo C i w1 w2 \<Longrightarrow> solo C i w w2"
  by (induction rule: solo.induct) (auto intro: solo.intros)

lemma solo_once: "thread_step C i inp w = Some w1 \<Longrightarrow> supported (tm w1) \<Longrightarrow> solo C i w w1"
  by (blast intro: solo.intros)

lemma solo_reach: "solo C i w w' \<Longrightarrow> supported (tm w) \<Longrightarrow> world_reach (\<lambda>w. supported (tm w)) C w w'"
proof (induction rule: solo.induct)
  case (solo_step inp w w1 w2)
  then have "world_reach (\<lambda>w. supported (tm w)) C w w1"
    by (meson world_start world_move step_thread)
  with solo_step show ?case using world_reach_trans by blast
qed (rule world_start)

text \<open>Thread \<open>i\<close> is in a call of \<open>transactional\<close>.\<close>

definition calling :: "('l, 'a) client_code \<Rightarrow> nat \<Rightarrow> bool \<Rightarrow> 'a prog \<Rightarrow> ('l, 'a) world \<Rightarrow> bool" where
  "calling C i ro p w \<longleftrightarrow> next_call C i (local_state w i) = Some (ro, p) \<and> \<not> terminated w"

lemma calling_step: "calling C i ro p w \<Longrightarrow> thread_step C i inp w = call_step C i inp ro p (calls w i) w"
  by (simp add: calling_def thread_step_def)

section \<open>The supported range along a call\<close>

text \<open>Room for one more stamp until the clock was advanced; no two written words on a stripe.\<close>

fun before_stamp :: "pc \<Rightarrow> bool" where
  "before_stamp (ValLocked reads held wv) \<longleftrightarrow> False"
| "before_stamp (ValVersion reads held wv) \<longleftrightarrow> False"
| "before_stamp (WriteWord keys wv) \<longleftrightarrow> False"
| "before_stamp (SetVersion keys wv) \<longleftrightarrow> False"
| "before_stamp (UnlockLoad ls) \<longleftrightarrow> False"
| "before_stamp (UnlockStore ls w) \<longleftrightarrow> False"
| "before_stamp Idle \<longleftrightarrow> False"
| "before_stamp point \<longleftrightarrow> True"

definition one_fits :: "thread \<Rightarrow> bool" where
  "one_fits t \<longleftrightarrow> (\<forall>x. txn t = Some x \<longrightarrow> inj_on lock_index (dom (write_set x)))"

definition budget :: "shared \<times> thread \<Rightarrow> bool" where
  "budget c \<longleftrightarrow> unat (gvc (fst c)) + (if before_stamp (pc (snd c)) then 1 else 0) < 2 ^ 31 \<and> one_fits (snd c)"

lemma budget_release:
  "release_held hs held t = Some t' \<Longrightarrow> one_fits t \<Longrightarrow> \<not> before_stamp (pc t') \<and> one_fits t'"
  by (auto simp: release_held_def abort_def one_fits_def split: if_splits)

lemma budget_write_back: "one_fits t \<Longrightarrow> \<not> before_stamp (pc (write_back keys wv t)) \<and> one_fits (write_back keys wv t)"
  by (simp add: write_back_def commit_def one_fits_def)

lemma budget_val_next:
  "val_next reads held g x t wv = (g', t') \<Longrightarrow> one_fits t \<Longrightarrow> gvc g' = gvc g \<and> \<not> before_stamp (pc t') \<and> one_fits t'"
  by (auto simp: val_next_def decide_def write_back_def commit_def one_fits_def split: if_splits)

lemma one_fits_same: "one_fits t \<Longrightarrow> txn t = Some x \<Longrightarrow> txn t' \<in> {None, Some x, Some (x\<lparr>read_set := R\<rparr>)} \<Longrightarrow> one_fits t'"
  by (auto simp: one_fits_def)

lemma budget_read:
  assumes "tm_read_step g x t p = Some t'" "txn t = Some x" "one_fits t"
  shows "one_fits t' \<and> before_stamp p"
proof (cases p)
  case (CopyWord source sz i version)
  then have "txn t' = Some x" using assms(1,2) by (auto simp: Let_def split: option.splits)
  then show ?thesis using one_fits_same [OF assms(3,2)] CopyWord by simp
next
  case (PostLocked source sz i version new_version)
  then have "txn t' \<in> {None, Some x, Some (x\<lparr>read_set := insert (source + of_nat i) (read_set x)\<rparr>)}"
    using assms(1,2) by (auto simp: abort_def read_next_def Let_def split: if_split_asm)
  from one_fits_same [OF assms(3,2) this] PostLocked show ?thesis by simp
next
  case (PreVersion source sz i)
  then have "txn t' = Some x" using assms(1,2) by auto
  then show ?thesis using one_fits_same [OF assms(3,2)] PreVersion by simp
next
  case (PreLocked source sz i version)
  then have "txn t' \<in> {None, Some x}" using assms(1,2) by (auto simp: abort_def split: if_split_asm)
  then show ?thesis using one_fits_same [OF assms(3,2)] PreLocked by auto
next
  case (PostVersion source sz i version)
  then have "txn t' = Some x" using assms(1,2) by auto
  then show ?thesis using one_fits_same [OF assms(3,2)] PostVersion by simp
qed (use assms(1) in simp_all)

lemma budget_end:
  assumes "tm_end_step sp rs hs g x t p = Some (g', t')" "txn t = Some x"
    and "unat (gvc g) + (if before_stamp p then 1 else 0) < 2 ^ 31" "one_fits t"
  shows "budget (g', t')"
proof -
  have rel: "budget (g2, t2)" if "map_option (Pair g1) (release_held hs held t) = Some (g2, t2)"
    "unat (gvc g1) < 2 ^ 31" for g1 g2 t2 held
    using that budget_release [of hs held t t2] assms(4) by (auto simp: budget_def)
  have val: "budget (g2, t2)" if "val_next reads held g1 x t wv = (g2, t2)" "unat (gvc g1) < 2 ^ 31"
    for g1 g2 t2 reads held wv
    using budget_val_next [OF that(1) assms(4)] that(2) by (simp add: budget_def)
  have dec: "budget (g2, t2)" if "decide g1 x t wv = (g2, t2)" "unat (gvc g1) < 2 ^ 31" for g1 g2 t2 wv
    using that budget_write_back [OF assms(4), of "order t" wv] by (auto simp: budget_def decide_def)
  show ?thesis
  proof (cases p)
    case (LockLoad keys held)
    then show ?thesis using assms by (cases keys) (auto simp: budget_def one_fits_def)
  next
    case (LockCas keys held expected)
    then obtain a ks where keys: "keys = a # ks" using assms(1) by (cases keys) auto
    obtain ok v where cas: "compare_exchange_weak sp (stripe g a) expected (vl_desired expected) = (ok, v)"
      by fastforce
    have small: "unat (gvc g) < 2 ^ 31" using assms(3) LockCas by simp
    show ?thesis
    proof (cases "\<not> ok \<and> lock_index a \<notin> set held")
      case True
      then have "map_option (Pair (g\<lparr>stripes := (stripes g)(lock_index a := v)\<rparr>)) (release_held hs held t) = Some (g', t')"
        using assms(1) LockCas keys cas by (simp add: Let_def)
      from rel [OF this] small show ?thesis by simp
    next
      case False
      then have "g' = g\<lparr>stripes := (stripes g)(lock_index a := v)\<rparr>" "t' = lock_next ks (List.insert (lock_index a) held) t"
        using assms(1) LockCas keys cas False by (auto simp: Let_def split: if_split_asm)
      then show ?thesis using assms(3,4) LockCas by (simp add: budget_def one_fits_def lock_next_def)
    qed
  next
    case (FetchAdd held)
    have "unat (gvc g + 1) < 2 ^ 31" using assms(3) FetchAdd by (simp add: unat_word_ariths)
    then show ?thesis using assms(1) FetchAdd val dec by (auto simp: Let_def split: if_split_asm)
  next
    case (ValLocked reads held wv)
    then have "budget (g, t\<lparr>pc := ValVersion ks held wv\<rparr>)" for ks
      using assms(3,4) by (simp add: budget_def one_fits_def)
    then show ?thesis using assms ValLocked rel val by (cases reads) (auto split: if_split_asm)
  next
    case (ValVersion reads held wv)
    then show ?thesis using assms rel val by (cases reads) (auto split: if_split_asm)
  next
    case (WriteWord keys wv)
    then show ?thesis using assms by (cases keys) (auto simp: budget_def one_fits_def)
  next
    case (SetVersion keys wv)
    then show ?thesis using assms by (cases keys) (auto simp: budget_def budget_write_back)
  next
    case (UnlockLoad ls)
    then show ?thesis using assms by (cases ls) (auto simp: budget_def one_fits_def)
  next
    case (UnlockStore ls w)
    then show ?thesis using assms by (cases ls) (auto simp: budget_def one_fits_def abort_def split: if_split_asm)
  qed (use assms in simp_all)
qed

lemma budget_tau:
  assumes "tstep (Tau sp rs hs) g t = Some (g', t')" "budget (g, t)"
  shows "budget (g', t')"
proof -
  obtain x where x: "txn t = Some x" using assms(1) by (auto split: option.splits)
  show ?thesis
  proof (cases "tm_read_step g x t (pc t)")
    case None
    then show ?thesis
      using budget_end [of sp rs hs g x t "pc t" g' t'] x assms by (simp add: budget_def)
  next
    case (Some t1)
    then have "one_fits t1" "before_stamp (pc t)" using budget_read [OF Some x] assms(2) by (simp_all add: budget_def)
    then show ?thesis using Some x assms by (simp add: budget_def)
  qed
qed

section \<open>The accesses of a call, in the composed system\<close>

text \<open>The other threads stay in the supported range.\<close>

definition others_fit :: "nat \<Rightarrow> sys \<Rightarrow> bool" where
  "others_fit i s \<longleftrightarrow> (\<forall>j. j \<noteq> i \<longrightarrow> one_fits (th s j))"

lemma budget_supported: "budget (sh s, th s i) \<Longrightarrow> others_fit i s \<Longrightarrow> supported s"
  by (auto simp: budget_def others_fit_def supported_def gv_def one_fits_def)

text \<open>The system in which thread \<open>i\<close> and the shared state have gone on.\<close>

definition gone_on :: "nat \<Rightarrow> shared \<times> thread \<Rightarrow> sys \<Rightarrow> sys" where
  "gone_on i c s = s\<lparr>sh := fst c, th := (th s)(i := snd c)\<rparr>"

lemma gone_on_simps [simp]:
  "sh (gone_on i c s) = fst c" "th (gone_on i c s) = (th s)(i := snd c)"
  "gone_on i c (gone_on i d s) = gone_on i c s" "gone_on i (sh s, th s i) s = s"
  "others_fit i (gone_on i c s) = others_fit i s"
  by (simp_all add: gone_on_def others_fit_def)

lemma exec_tau: "tstep act (sh s) (th s i) = Some c \<Longrightarrow> call_ok (word_size (sh s)) act \<Longrightarrow> exec i act s = Some (gone_on i c s)"
  by (simp add: exec_def gone_on_def case_prod_unfold)

lemma solo_reading:
  assumes "tau_run c d" "c = (sh (tm w), th (tm w) i)" "calls w i = Reading k" "calling C i ro p w"
    and "budget c" "others_fit i (tm w)"
  shows "\<exists>v. solo C i w (w\<lparr>tm := gone_on i d (tm w), seen := v\<rparr>) \<and> budget d"
  using assms
proof (induction arbitrary: w rule: tau_run.induct)
  case (tau_refl c)
  then have "w\<lparr>tm := gone_on i c (tm w), seen := seen w\<rparr> = w" by simp
  then show ?case using solo_refl tau_refl.prems(4) by metis
next
  case (tau_step sp rs hs g t c d)
  let ?w = "w\<lparr>tm := gone_on i c (tm w), seen := (seen w)(i := note_seen (pc_at (tm w) i) (tm w) (seen w i))\<rparr>"
  have gt: "g = sh (tm w)" "t = th (tm w) i" using tau_step.prems(1) by simp_all
  obtain x where x: "txn t = Some x" using tau_step.hyps(1) by (auto split: option.splits)
  have "pc t \<noteq> Idle" using tau_step.hyps(1) x by auto
  then have "thread_step C i (Go sp rs hs) w = Some ?w"
    using tau_step.hyps(1) tau_step.prems(2,3) x gt
    by (simp add: calling_step read_access_def exec_tau Let_def del: tstep.simps)
  moreover have b: "budget c" using budget_tau [of sp rs hs g t] tau_step.hyps(1) tau_step.prems(4) by (cases c) blast
  then have "supported (tm ?w)" using tau_step.prems(5) by (intro budget_supported [of _ i]) simp_all
  ultimately have one: "solo C i w ?w" by (rule solo_once)
  have "\<exists>v. solo C i ?w (?w\<lparr>tm := gone_on i d (tm ?w), seen := v\<rparr>) \<and> budget d"
    by (rule tau_step.IH) (use tau_step.prems b in \<open>simp_all add: calling_def\<close>)
  then show ?case using solo_trans [OF one] by auto
qed

lemma solo_ending:
  assumes "tau_run c d" "c = (sh (tm w), th (tm w) i)" "calls w i = Ending r n" "calling C i ro p w"
    and "budget c" "others_fit i (tm w)"
  shows "\<exists>n log. solo C i w (w\<lparr>tm := gone_on i d (tm w), calls := (calls w)(i := Ending r n), drawn := log\<rparr>) \<and> budget d"
  using assms
proof (induction arbitrary: w n rule: tau_run.induct)
  case (tau_refl c)
  then have "w\<lparr>tm := gone_on i c (tm w), calls := (calls w)(i := Ending r n), drawn := drawn w\<rparr> = w"
    by (simp add: fun_upd_idem)
  then show ?case using solo_refl tau_refl.prems(4) by metis
next
  case (tau_step sp rs hs g t c d)
  let ?n = "note_stamp (pc_at (tm w) i) (tm w) n"
  let ?w = "w\<lparr>tm := gone_on i c (tm w), calls := (calls w)(i := Ending r ?n),
    drawn := note_drawn (pc_at (tm w) i) (tm w) (p, r, tx_segs w i) (drawn w)\<rparr>"
  have gt: "g = sh (tm w)" "t = th (tm w) i" using tau_step.prems(1) by simp_all
  obtain x where x: "txn t = Some x" using tau_step.hyps(1) by (auto split: option.splits)
  then have "thread_step C i (Go sp rs hs) w = Some ?w"
    using tau_step.hyps(1) tau_step.prems(2,3) gt
    by (simp add: calling_step end_access_def exec_tau Let_def del: tstep.simps)
  moreover have b: "budget c" using budget_tau [of sp rs hs g t] tau_step.hyps(1) tau_step.prems(4) by (cases c) blast
  then have "supported (tm ?w)" using tau_step.prems(5) by (intro budget_supported [of _ i]) simp_all
  ultimately have one: "solo C i w ?w" by (rule solo_once)
  have "\<exists>n log. solo C i ?w (?w\<lparr>tm := gone_on i d (tm ?w), calls := (calls ?w)(i := Ending r n), drawn := log\<rparr>) \<and> budget d"
    by (rule tau_step.IH [of _ ?n]) (use tau_step.prems b in \<open>simp_all add: calling_def\<close>)
  then obtain n' log where "budget d"
    "solo C i ?w (?w\<lparr>tm := gone_on i d (tm ?w), calls := (calls ?w)(i := Ending r n'), drawn := log\<rparr>)" by blast
  moreover have "?w\<lparr>tm := gone_on i d (tm ?w), calls := (calls ?w)(i := Ending r n'), drawn := log\<rparr> =
      w\<lparr>tm := gone_on i d (tm w), calls := (calls w)(i := Ending r n'), drawn := log\<rparr>" by simp
  ultimately show ?case using solo_trans [OF one] by metis
qed

end
