(* ===== verification/TL2_Solo_Calls.thy ===== *)
theory TL2_Solo_Calls
  imports TL2_Solo
begin

text \<open>
  A whole call of \<open>transactional()\<close> by a thread that moves alone: its body, every read of which
  finds its word free and not newer than the transaction, and the \<open>tm_end\<close> of the destructor, which
  takes every lock it asks for and has nothing to validate.
\<close>

section \<open>The state of the thread\<close>

text \<open>What the steps of thread \<open>i\<close> inside a call leave as it is.\<close>

definition kept :: "nat \<Rightarrow> ('l, 'a) world \<Rightarrow> ('l, 'a) world \<Rightarrow> bool" where
  "kept i w w' \<longleftrightarrow> local_state w' = local_state w \<and> terminated w' = terminated w \<and>
     (\<forall>j. j \<noteq> i \<longrightarrow> calls w' j = calls w j \<and> th (tm w') j = th (tm w) j)"

lemma kept_refl: "kept i w w"
  by (simp add: kept_def)

lemma kept_trans: "kept i w w1 \<Longrightarrow> kept i w1 w2 \<Longrightarrow> kept i w w2"
  by (simp add: kept_def)

text \<open>A call of thread \<open>i\<close> in a state from which the supported range is not left.\<close>

definition undisturbed :: "('l, 'a) client_code \<Rightarrow> nat \<Rightarrow> bool \<Rightarrow> 'a prog \<Rightarrow> ('l, 'a) world \<Rightarrow> bool" where
  "undisturbed C i ro p w \<longleftrightarrow> calling C i ro p w \<and> others_fit i (tm w) \<and> gv (tm w) + 1 < 2 ^ 31 \<and>
     word_size (sh (tm w)) = 8"

lemma quiet_readable: "quiet ls c \<Longrightarrow> readable ls c a"
  by (simp add: quiet_def readable_def lock_version_def word_le_nat_alt)

lemma undisturbed_kept:
  "undisturbed C i ro p w \<Longrightarrow> kept i w w' \<Longrightarrow> sh (tm w') = sh (tm w) \<Longrightarrow> undisturbed C i ro p w'"
  by (simp add: undisturbed_def kept_def calling_def others_fit_def gv_def)

definition at_body :: "nat \<Rightarrow> 'a prog \<Rightarrow> Transaction \<Rightarrow> ('l, 'a) world \<Rightarrow> bool" where
  "at_body i q x w \<longleftrightarrow> calls w i = Body q \<and> txn (th (tm w) i) = Some x \<and> pc_at (tm w) i = Idle"

text \<open>A transaction that touches the words \<open>B\<close> only.\<close>

definition tidy :: "addr set \<Rightarrow> Transaction \<Rightarrow> bool" where
  "tidy B x \<longleftrightarrow> finite (read_set x) \<and> dom (write_set x) \<subseteq> B \<and>
     (\<forall>a v. write_set x a = Some v \<longrightarrow> length v = 8) \<and> (is_ro x \<longrightarrow> write_set x = Map.empty)"

definition words_ok :: "addr set \<Rightarrow> bool" where
  "words_ok B \<longleftrightarrow> finite B \<and> inj_on lock_index B \<and> (\<forall>a \<in> B. word_aligned 8 a)"

lemma tidy_inj: "tidy B x \<Longrightarrow> words_ok B \<Longrightarrow> inj_on lock_index (dom (write_set x)) \<and> finite (dom (write_set x))"
  by (meson tidy_def words_ok_def inj_on_subset finite_subset)

text \<open>A step inside the call, to a state in the supported range.\<close>

lemma solo_call_step:
  assumes "undisturbed C i ro p w" "call_step C i inp ro p (calls w i) w = Some w1"
    and "kept i w w1" "gvc (sh (tm w1)) = gvc (sh (tm w))" "one_fits (th (tm w1) i)"
  shows "solo C i w w1"
proof (rule solo_once)
  show "thread_step C i inp w = Some w1" using assms(1,2) calling_step [of C i ro p w inp] by (simp add: undisturbed_def)
  have "others_fit i (tm w1)" using assms(1,3) by (simp add: undisturbed_def kept_def others_fit_def)
  then have "one_fits (th (tm w1) j)" for j using assms(5) by (cases "j = i") (auto simp: others_fit_def)
  then show "supported (tm w1)" using assms(1,4) by (auto simp: supported_def undisturbed_def gv_def one_fits_def)
qed

section \<open>The body\<close>

lemma offsets_one_word: "word_offsets 8 8 0 = [0]"
  by (simp add: word_offsets.simps)

text \<open>The call of \<open>tm_read\<close>, accesses of it that leave the shared state, and its return.\<close>

lemma solo_read_call:
  assumes ud: "undisturbed C i ro p w" and body: "at_body i (ReadWord a k) x w" and B: "tidy B x" "words_ok B" "a \<in> B"
  shows "\<exists>w'. solo C i w w' \<and> kept i w w' \<and> sh (tm w') = sh (tm w) \<and> calls w' i = Reading k \<and>
    th (tm w') i = th (tm w) i\<lparr>buf := [], pc := PreVersion a 8 0\<rparr>"
proof -
  let ?g = "sh (tm w)" and ?t1 = "th (tm w) i\<lparr>buf := [], pc := PreVersion a 8 0\<rparr>"
  let ?w1 = "enter i (Reading k) w (gone_on i (?g, ?t1) (tm w))"
  have b: "calls w i = Body (ReadWord a k)" "txn (th (tm w) i) = Some x" "pc_at (tm w) i = Idle"
    and ws: "word_size ?g = 8" and al: "word_aligned 8 a"
    using body ud B(2,3) by (auto simp: at_body_def undisturbed_def words_ok_def)
  have fits: "one_fits ?t1" using b(2) tidy_inj [OF B(1,2)] by (simp add: one_fits_def)
  have rc: "tstep (Read a 8) ?g (th (tm w) i) = Some (?g, ?t1)" using b by (simp add: read_call_def)
  have ok: "call_ok (word_size ?g) (Read a 8)" using ws al by simp
  have call: "call_step C i go ro p (calls w i) w = Some ?w1" unfolding b(1) using exec_tau [OF rc ok] by simp
  have "solo C i w ?w1" by (rule solo_call_step [OF ud call]) (use fits in \<open>simp_all add: kept_def enter_def\<close>)
  then show ?thesis by (intro exI [of _ ?w1]) (simp add: kept_def enter_def)
qed

lemma solo_read_accesses:
  assumes ud: "undisturbed C i ro p w" and rd: "calls w i = Reading k" and fits: "one_fits (th (tm w) i)"
    and run: "tau_run (sh (tm w), th (tm w) i) (sh (tm w), t')"
  shows "\<exists>w'. solo C i w w' \<and> kept i w w' \<and> sh (tm w') = sh (tm w) \<and> calls w' i = Reading k \<and> th (tm w') i = t'"
proof -
  have "budget (sh (tm w), th (tm w) i)" using ud fits by (simp add: budget_def undisturbed_def gv_def)
  then obtain v where "solo C i w (w\<lparr>tm := gone_on i (sh (tm w), t') (tm w), seen := v\<rparr>)"
    using solo_reading [OF run refl rd, of C ro p] ud by (auto simp: undisturbed_def)
  then show ?thesis
    by (intro exI [of _ "w\<lparr>tm := gone_on i (sh (tm w), t') (tm w), seen := v\<rparr>"]) (use rd in \<open>simp add: kept_def\<close>)
qed

lemma solo_read_return:
  assumes ud: "undisturbed C i ro p w" and rd: "calls w i = Reading k"
    and t: "txn (th (tm w) i) = Some x" "pc_at (tm w) i = Idle" "buf (th (tm w) i) = [v]" and fits: "one_fits (th (tm w) i)"
  shows "\<exists>w'. solo C i w w' \<and> kept i w w' \<and> sh (tm w') = sh (tm w) \<and> at_body i (k (decode v)) x w'"
proof -
  let ?w1 = "enter i (Body (k (decode v))) w (tm w)"
  have call: "call_step C i go ro p (calls w i) w = Some ?w1" unfolding rd using t by simp
  have "solo C i w ?w1" by (rule solo_call_step [OF ud call]) (use fits in \<open>simp_all add: kept_def enter_def\<close>)
  then show ?thesis using t by (intro exI [of _ ?w1]) (simp add: kept_def enter_def at_body_def)
qed

lemma solo_read:
  assumes ud: "undisturbed C i ro p w" and body: "at_body i (ReadWord a k) x w" and B: "tidy B x" "words_ok B" "a \<in> B"
    and free: "readable (stripes (sh (tm w))) (rv x) a"
  shows "\<exists>w'. solo C i w w' \<and> kept i w w' \<and> sh (tm w') = sh (tm w) \<and>
    at_body i (k (decode (view 8 (mem (sh (tm w))) (visible x) a))) (noted a x) w'"
proof -
  let ?g = "sh (tm w)" and ?t = "th (tm w) i\<lparr>buf := []\<rparr>" and ?v = "view 8 (mem (sh (tm w))) (visible x) a"
  have x: "txn ?t = Some x" and small: "0 < word_size ?g" "0 < (8 :: nat)" and ws: "word_size ?g = 8"
    using body ud by (simp_all add: at_body_def undisturbed_def)
  obtain w1 where w1: "solo C i w w1" "kept i w w1" "sh (tm w1) = ?g" "calls w1 i = Reading k"
    "th (tm w1) i = ?t\<lparr>pc := PreVersion a 8 0\<rparr>"
    using solo_read_call [OF ud body B] by auto
  obtain t' where t': "tau_run (sh (tm w1), th (tm w1) i) (sh (tm w1), t')" "pc t' = Idle" "txn t' = Some (noted a x)"
    "buf t' = [?v]"
    using tau_read_loop [OF x small, of a] free ws w1(3,5) by (auto simp: offsets_one_word noted_all_def noted_def)
  have fits: "one_fits (th (tm w1) i)" "one_fits t'"
    using w1(5) x t'(3) tidy_inj [OF B(1,2)] by (auto simp: one_fits_def noted_def)
  note ud1 = undisturbed_kept [OF ud w1(2,3)]
  obtain w2 where w2: "solo C i w1 w2" "kept i w1 w2" "sh (tm w2) = sh (tm w1)" "calls w2 i = Reading k" "th (tm w2) i = t'"
    using solo_read_accesses [OF ud1 w1(4) fits(1) t'(1)] by blast
  then obtain w3 where w3: "solo C i w2 w3" "kept i w2 w3" "sh (tm w3) = sh (tm w2)"
    "at_body i (k (decode ?v)) (noted a x) w3"
    using solo_read_return [OF undisturbed_kept [OF ud1 w2(2,3)] w2(4)] t' fits(2) by blast
  have "solo C i w w3" "kept i w w3"
    using w1(1,2) w2(1,2) w3(1,2) by (blast intro: solo_trans, blast intro: kept_trans)
  then show ?thesis using w1(3) w2(3) w3(3,4) by auto
qed

lemma solo_write:
  assumes ud: "undisturbed C i ro p w" and body: "at_body i (prog.WriteWord a v q) x w"
    and B: "tidy B x" "words_ok B" "a \<in> B" and x: "\<not> is_ro x"
  shows "\<exists>w'. solo C i w w' \<and> kept i w w' \<and> sh (tm w') = sh (tm w) \<and>
    at_body i q (x\<lparr>write_set := (write_set x)(a \<mapsto> encode v)\<rparr>) w' \<and>
    tidy B (x\<lparr>write_set := (write_set x)(a \<mapsto> encode v)\<rparr>)"
proof -
  let ?x = "x\<lparr>write_set := (write_set x)(a \<mapsto> encode v)\<rparr>" and ?g = "sh (tm w)"
  let ?t = "th (tm w) i\<lparr>txn := Some ?x, returned := True\<rparr>"
  let ?w1 = "enter i (Body q) w (gone_on i (?g, ?t) (tm w))"
  have b: "calls w i = Body (prog.WriteWord a v q)" "txn (th (tm w) i) = Some x" "pc_at (tm w) i = Idle"
    and ws: "word_size ?g = 8" and al: "word_aligned 8 a"
    using body ud B(2,3) by (auto simp: at_body_def undisturbed_def words_ok_def)
  have tidy: "tidy B ?x" using B(1,3) x by (auto simp: tidy_def)
  then have fits: "one_fits ?t" using tidy_inj [OF tidy B(2)] by (simp add: one_fits_def)
  have "write_loop 8 a (\<lambda>i. take 8 (drop i (encode v))) (length (encode v)) 0 m = m(a \<mapsto> encode v)" for m
    by (simp add: write_loop.simps)
  then have wc: "tstep (Write a (encode v)) ?g (th (tm w) i) = Some (?g, ?t)"
    using b ws by (simp add: tm_write_step_def)
  have ok: "call_ok (word_size ?g) (Write a (encode v))" using ws al by (auto simp: encode_def)
  have call: "call_step C i go ro p (calls w i) w = Some ?w1" unfolding b(1) using exec_tau [OF wc ok] by simp
  have "solo C i w ?w1" by (rule solo_call_step [OF ud call]) (use fits in \<open>simp_all add: kept_def enter_def\<close>)
  moreover have "at_body i q ?x ?w1" using b by (simp add: at_body_def enter_def)
  moreover have "kept i w ?w1" "sh (tm ?w1) = ?g" by (simp_all add: kept_def enter_def)
  ultimately show ?thesis using tidy by blast
qed

text \<open>A step of the body that does not touch the library.\<close>

lemma solo_pass:
  assumes ud: "undisturbed C i ro p w" and body: "at_body i q x w" and B: "tidy B x" "words_ok B"
    and st: "body_access i inp q w = Some (enter i (Body q') w (tm w))"
  shows "\<exists>w'. solo C i w w' \<and> kept i w w' \<and> sh (tm w') = sh (tm w) \<and> at_body i q' x w'"
proof -
  let ?w1 = "enter i (Body q') w (tm w)"
  have b: "calls w i = Body q" "txn (th (tm w) i) = Some x" using body by (simp_all add: at_body_def)
  have call: "call_step C i inp ro p (calls w i) w = Some ?w1" unfolding b(1) using st by simp
  have "solo C i w ?w1"
    by (rule solo_call_step [OF ud call]) (use b tidy_inj [OF B] in \<open>simp_all add: kept_def enter_def one_fits_def\<close>)
  moreover have "at_body i q' x ?w1" "kept i w ?w1" "sh (tm ?w1) = sh (tm w)"
    using body by (simp_all add: at_body_def kept_def enter_def)
  ultimately show ?thesis by blast
qed

definition store_seen :: "addr set \<Rightarrow> ('l, 'a) world \<Rightarrow> Transaction \<Rightarrow> store" where
  "store_seen B w x = contents B (view 8 (mem (sh (tm w))) (visible x))"

text \<open>The whole body; an allocation is refused.\<close>

definition body_done :: "('l, 'a) client_code \<Rightarrow> nat \<Rightarrow> addr set \<Rightarrow> 'a prog \<Rightarrow> Transaction \<Rightarrow> ('l, 'a) world \<Rightarrow> bool" where
  "body_done C i B q x w \<longleftrightarrow> (\<exists>w' r x'. solo C i w w' \<and> kept i w w' \<and> sh (tm w') = sh (tm w) \<and>
     at_body i (final r) x' w' \<and> tidy B x' \<and> rv x' = rv x \<and> is_ro x' = is_ro x \<and>
     atomically q (store_seen B w x) r (store_seen B w x'))"

lemma body_doneI:
  assumes "solo C i w w1 \<and> kept i w w1 \<and> sh (tm w1) = sh (tm w)" "body_done C i B q1 x1 w1"
    and "rv x1 = rv x" "is_ro x1 = is_ro x"
    and "\<And>r \<sigma>. atomically q1 (store_seen B w x1) r \<sigma> \<Longrightarrow> atomically q (store_seen B w x) r \<sigma>"
  shows "body_done C i B q x w"
proof -
  have "store_seen B w1 y = store_seen B w y" for y using assms(1) by (simp add: store_seen_def)
  with assms show ?thesis unfolding body_done_def by (metis solo_trans kept_trans)
qed

lemma body_done_final: "at_body i (final r) x w \<Longrightarrow> tidy B x \<Longrightarrow> body_done C i B (final r) x w"
  using solo_refl kept_refl by (cases r) (fastforce simp: body_done_def)+

lemma solo_body:
  assumes "undisturbed C i ro p w" "at_body i q x w" "tidy B x" "words_ok B" "quiet (stripes (sh (tm w))) (rv x)"
    and "is_ro x \<longrightarrow> reads_only q" "safe q (store_seen B w x)"
  shows "body_done C i B q x w"
  using assms
proof (induction q arbitrary: w x)
  case (Done v)
  then show ?case using body_done_final [of i "Inr v"] by simp
next
  case (Throw e)
  then show ?case using body_done_final [of i "Inl e"] by simp
next
  case (ReadWord a k)
  let ?v = "view 8 (mem (sh (tm w))) (visible x) a"
  have a: "a \<in> B" "safe (k (decode ?v)) (store_seen B w x)" using ReadWord.prems(7) by (auto simp: store_seen_def)
  obtain w1 where w1: "solo C i w w1 \<and> kept i w w1 \<and> sh (tm w1) = sh (tm w)" "at_body i (k (decode ?v)) (noted a x) w1"
    using solo_read [OF ReadWord.prems(1-4) a(1) quiet_readable [OF ReadWord.prems(5)]] by blast
  have n: "visible (noted a x) = visible x" "rv (noted a x) = rv x" "is_ro (noted a x) = is_ro x" "tidy B (noted a x)"
    using ReadWord.prems(3) by (auto simp: noted_def visible_def tidy_def)
  have s: "store_seen B w1 (noted a x) = store_seen B w x" "store_seen B w (noted a x) = store_seen B w x"
    using w1(1) n(1) by (simp_all add: store_seen_def)
  have "body_done C i B (k (decode ?v)) (noted a x) w1"
    using undisturbed_kept [OF ReadWord.prems(1)] ReadWord.prems(4-6) w1 n a(2) s by (intro ReadWord.IH) auto
  then show ?case by (rule body_doneI [OF w1(1)]) (use n s a in \<open>auto simp: store_seen_def\<close>)
next
  case (WriteWord a v q)
  let ?x = "x\<lparr>write_set := (write_set x)(a \<mapsto> encode v)\<rparr>"
  have a: "a \<in> B" "safe q (set_word a v (store_seen B w x))" and ro: "\<not> is_ro x"
    using WriteWord.prems(6,7) by (auto simp: store_seen_def)
  obtain w1 where w1: "solo C i w w1 \<and> kept i w w1 \<and> sh (tm w1) = sh (tm w)" "at_body i q ?x w1" "tidy B ?x"
    using solo_write [OF WriteWord.prems(1-4) a(1) ro] by blast
  have "view 8 m (visible ?x) = (view 8 m (visible x))(a := encode v)" for m
    using ro by (auto simp: view_def visible_def fun_eq_iff)
  then have s: "store_seen B w ?x = set_word a v (store_seen B w x)" "store_seen B w1 ?x = store_seen B w ?x"
    using a(1) w1(1) by (simp_all add: store_seen_def set_word_contents)
  have "body_done C i B q ?x w1"
    using undisturbed_kept [OF WriteWord.prems(1)] WriteWord.prems(4,5) w1 ro a(2) s by (intro WriteWord.IH) auto
  then show ?case by (rule body_doneI [OF w1(1)]) (use s in auto)
next
  case (AllocSeg sz k)
  have "body_access i Refuse (AllocSeg sz k) w = Some (enter i (Body (Throw TransactionAlloc)) w (tm w))" by simp
  from solo_pass [OF AllocSeg.prems(1-4) this] obtain w1 where
    w1: "solo C i w w1 \<and> kept i w w1 \<and> sh (tm w1) = sh (tm w)" "at_body i (Throw TransactionAlloc) x w1" by blast
  then have "body_done C i B (Throw TransactionAlloc) x w1"
    using body_done_final [of i "Inl TransactionAlloc"] AllocSeg.prems(3) by simp
  then show ?case by (rule body_doneI [OF w1(1)]) (auto intro: at_nomem)
next
  case (FreeSeg a q)
  have "body_access i go (FreeSeg a q) w = Some (enter i (Body q) w (tm w))" by simp
  from solo_pass [OF FreeSeg.prems(1-4) this] obtain w1 where
    w1: "solo C i w w1 \<and> kept i w w1 \<and> sh (tm w1) = sh (tm w)" "at_body i q x w1" by blast
  have "body_done C i B q x w1"
    using undisturbed_kept [OF FreeSeg.prems(1)] FreeSeg.prems(3-7) w1 by (intro FreeSeg.IH) (auto simp: store_seen_def)
  then show ?case by (rule body_doneI [OF w1(1)]) auto
qed

section \<open>The end\<close>

text \<open>Of \<open>end_result\<close> in \<open>TL2_Alone\<close>: no lock is missed, nothing is validated, and every lock is free
  again.\<close>

lemma end_result_undisturbed:
  assumes "\<And>l. \<not> vl_isLocked (ls l)" "set ws = dom (write_set x)" "\<not> is_ro x" "rv x = clock"
  shows "\<exists>ls'. end_result (\<lambda>_. False) ws rs x clock m ls =
      (True, clock + 1, fold (\<lambda>a m. store_bytes m a (the (write_set x a))) ws m, ls') \<and> (\<forall>l. \<not> vl_isLocked (ls' l))"
proof -
  obtain b ls1 held where l: "lock_write_set (\<lambda>_. False) ws ls [] = (b, ls1, held)" by (metis prod_cases3)
  have "taking [] ls = ls" by (simp add: taking_def)
  with l have "lock_write_set (\<lambda>_. False) ws (taking [] ls) [] = (b, ls1, held)" by simp
  from lock_write_set_result [OF assms(1) _ this] have "b" "ls1 = taking held ls" "set held = lock_index ` set ws"
    by simp_all
  then show ?thesis using l assms by (auto simp: end_result_def Let_def write_back_all_result taking_def)
qed

lemma end_result_words:
  assumes "word_aligned 8 b" "\<And>a. a \<in> set ws \<Longrightarrow> word_aligned 8 a \<and> length (the (write_set x a)) = 8"
    and "set ws = dom (write_set x)" "\<not> is_ro x"
  shows "load_bytes (fold (\<lambda>a m. store_bytes m a (the (write_set x a))) ws m) b 8 = view 8 m (visible x) b"
proof -
  have "word_aligned 8 a \<and> length v = 8" if "write_set x a = Some v" for a v
    using that assms(2) [of a] assms(3) by auto
  then show ?thesis
    using write_back_view [of 8 b ws "write_set x" m] assms(1,3,4) by (simp add: visible_def width_ok_def)
qed

lemma end_undisturbed:
  assumes "tidy B x" "words_ok B" "is_ro x \<or> rv x = gvc g" "word_size g = 8" "\<And>l. \<not> vl_isLocked (stripes g l)"
    and "txn t = Some x" "pc t = Idle"
  shows "\<exists>ws t1 g' t'. end_call ws t = Some t1 \<and> one_fits t1 \<and> tau_run (g, t1) (g', t') \<and> txn t' = None \<and>
    returned t' \<and> word_size g' = 8 \<and> unat (gvc g') \<le> unat (gvc g) + 1 \<and>
    (\<forall>b \<in> B. load_bytes (mem g') b 8 = view 8 (mem g) (visible x) b) \<and> (\<forall>l. \<not> vl_isLocked (stripes g' l))"
proof -
  let ?ws = "sorted_list_of_set (dom (write_set x))" and ?rs = "sorted_list_of_set (read_set x)"
  have fin: "finite (read_set x)" "finite (dom (write_set x))" "inj_on lock_index (dom (write_set x))"
    using assms(1) tidy_inj [OF assms(1,2)] by (simp_all add: tidy_def)
  then have orders: "distinct ?ws" "set ?ws = dom (write_set x)" "distinct ?rs" "set ?rs = read_set x" by simp_all
  then have "\<exists>t1. end_call ?ws t = Some t1 \<and> one_fits t1"
    using assms(6,7) fin(3) by (cases "is_ro x") (simp_all add: end_call_def one_fits_def commit_def)
  then obtain t1 where t1: "end_call ?ws t = Some t1" "one_fits t1" by blast
  obtain g' t' where run: "tau_run (g, t1) (g', t')" "txn t' = None" "word_size g' = 8"
    "(returned t', gvc g', mem g', stripes g') = end_result (\<lambda>_. False) ?ws ?rs x (gvc g) (mem g) (stripes g)"
    using tau_end_call [OF assms(6) orders t1(1), of g "\<lambda>_. False"] assms(4) by auto
  have "returned t' \<and> unat (gvc g') \<le> unat (gvc g) + 1 \<and>
      (\<forall>b \<in> B. load_bytes (mem g') b 8 = view 8 (mem g) (visible x) b) \<and> (\<forall>l. \<not> vl_isLocked (stripes g' l))"
  proof (cases "is_ro x")
    case True
    then show ?thesis using run(4) assms(1,5) by (simp add: end_result_def view_def visible_def)
  next
    case False
    have *: "word_aligned 8 a \<and> length (the (write_set x a)) = 8" if "a \<in> set ?ws" for a
      using that assms(1,2) orders(2) by (auto simp: tidy_def words_ok_def)
    obtain ls' where "(returned t', gvc g', mem g', stripes g') = (True, gvc g + 1,
        fold (\<lambda>a m. store_bytes m a (the (write_set x a))) ?ws (mem g), ls')" "\<forall>l. \<not> vl_isLocked (ls' l)"
      using end_result_undisturbed [of "stripes g", OF assms(5) orders(2) False, of "gvc g" ?rs "mem g"]
        False assms(3) run(4) by force
    moreover have "unat (gvc g + 1) \<le> unat (gvc g) + 1" by (simp add: unat_word_ariths)
    ultimately show ?thesis using end_result_words [OF _ _ orders(2) False, of _ "mem g"] * assms(2)
      by (simp add: words_ok_def)
  qed
  then show ?thesis using t1 run(1-3) by blast
qed

text \<open>The destructor, and what the call hands back.\<close>

definition call_done ::
  "('l, 'a) client_code \<Rightarrow> nat \<Rightarrow> exn + 'a \<Rightarrow> addr set \<Rightarrow> store \<Rightarrow> ('l, 'a) world \<Rightarrow> ('l, 'a) world \<Rightarrow> bool" where
  "call_done C i r B \<sigma> w w' \<longleftrightarrow> calls w' = (calls w)(i := Outside) \<and>
     local_state w' = (local_state w)(i := got C i (local_state w i) r) \<and> terminated w' = terminated w \<and>
     contents B (word_at (tm w')) = \<sigma> \<and> gv (tm w') \<le> gv (tm w) + 1 \<and> (\<forall>l. \<not> vl_isLocked (stripes (sh (tm w')) l))"

lemma solo_end:
  assumes ud: "undisturbed C i ro p w" and body: "at_body i (final r) x w" and B: "tidy B x" "words_ok B"
    and x: "is_ro x \<or> rv x = gvc (sh (tm w))" and free: "\<And>l. \<not> vl_isLocked (stripes (sh (tm w)) l)"
    and r: "r \<noteq> Inl TransactionRetry"
  shows "\<exists>w'. solo C i w w' \<and> call_done C i r B (store_seen B w x) w w'"
proof -
  let ?g = "sh (tm w)" and ?t = "th (tm w) i"
  have b: "calls w i = Body (final r)" "txn ?t = Some x" "pc ?t = Idle" and ws: "word_size ?g = 8"
    and calling: "calling C i ro p w" and others: "others_fit i (tm w)"
    using body ud by (auto simp: at_body_def undisturbed_def)
  obtain ws t1 g' t' where e: "end_call ws ?t = Some t1" "one_fits t1" "tau_run (?g, t1) (g', t')" "txn t' = None" "returned t'"
    "word_size g' = 8" "unat (gvc g') \<le> unat (gvc ?g) + 1" "\<forall>b \<in> B. load_bytes (mem g') b 8 = view 8 (mem ?g) (visible x) b" "\<forall>l. \<not> vl_isLocked (stripes g' l)"
    using end_undisturbed [OF B x ws free b(2,3)] by blast
  let ?w1 = "enter i (Ending r 0) w (gone_on i (?g, t1) (tm w))"
  have "exec i (End ws) (tm w) = Some (gone_on i (?g, t1) (tm w))" using e(1) by (intro exec_tau) simp_all
  then have call: "call_step C i (Go False ws []) ro p (calls w i) w = Some ?w1" unfolding b(1) by (cases r) simp_all
  have one: "solo C i w ?w1" by (rule solo_call_step [OF ud call]) (use e(2) in \<open>simp_all add: kept_def enter_def\<close>)
  have bud: "budget (?g, t1)" using ud e(2) by (simp add: budget_def undisturbed_def gv_def)
  obtain n log where ending: "budget (g', t')" "solo C i ?w1 (?w1\<lparr>tm := gone_on i (g', t') (tm ?w1),
      calls := (calls ?w1)(i := Ending r n), drawn := log\<rparr>)"
    using solo_ending [OF e(3), of ?w1 i r 0 C ro p] calling bud others by (auto simp: enter_def calling_def)
  let ?w2 = "?w1\<lparr>tm := gone_on i (g', t') (tm ?w1), calls := (calls ?w1)(i := Ending r n), drawn := log\<rparr>"
  let ?w3 = "hand_back C i r (splice ro i ?w2)"
  have "calling C i ro p ?w2" "calls ?w2 i = Ending r n" "th (tm ?w2) i = t'"
    using calling by (simp_all add: calling_def enter_def)
  then have st: "thread_step C i go ?w2 = Some ?w3" using calling_step [of C i ro p ?w2 go] e(4,5) by simp
  have w3: "tm ?w3 = gone_on i (g', t') (tm w)" "calls ?w3 = (calls w)(i := Outside)" "terminated ?w3 = terminated w"
    "local_state ?w3 = (local_state w)(i := got C i (local_state w i) r)"
    using r by (auto simp: hand_back_def splice_def retry_def enter_def split: sum.split exn.split)
  have "supported (tm ?w3)" using ending(1) others unfolding w3(1) by (intro budget_supported [of _ i]) simp_all
  then have "solo C i w ?w3" by (intro solo_trans [OF solo_trans [OF one ending(2)] solo_once [OF st]])
  moreover have "contents B (word_at (tm ?w3)) = store_seen B w x"
    unfolding store_seen_def w3(1) using e(6,8) by (intro contents_cong) (simp add: word_at_def)
  then have "call_done C i r B (store_seen B w x) w ?w3" using w3 e(7,9) by (simp add: call_done_def gv_def)
  ultimately show ?thesis by blast
qed

section \<open>The theorem\<close>

lemma outside_idle:
  assumes "world_inv C w" "calls w i = Outside"
  shows "txn (th (tm w) i) = None \<and> pc_at (tm w) i = Idle"
proof -
  have "txn (th (tm w) i) \<noteq> Some x" for x
    using thread_invD(2) [OF world_invD(4) [OF assms(1)], of i x] assms(2) by (auto simp: running_inv_def)
  then have "txn (th (tm w) i) = None" using option.exhaust by blast
  then show ?thesis using idle_unless_running [OF world_invD(1) [OF assms(1)]] by blast
qed

lemma solo_begin:
  assumes inv: "world_inv C w" and call: "calling C i ro p w" "calls w i = Outside"
    and free: "\<forall>l. \<not> vl_isLocked (stripes (sh (tm w)) l)" "gv (tm w) + 1 < 2 ^ 31"
  shows "\<exists>w1. solo C i w w1 \<and> kept i w w1 \<and> sh (tm w1) = sh (tm w) \<and> undisturbed C i ro p w1 \<and>
    quiet (stripes (sh (tm w1))) (gvc (sh (tm w1))) \<and> at_body i p (new_Transaction (gvc (sh (tm w))) ro) w1"
proof -
  let ?g = "sh (tm w)" and ?x = "new_Transaction (gvc (sh (tm w))) ro"
  let ?t = "th (tm w) i\<lparr>txn := Some ?x, rlog := [], buf := [], order := [], returned := True\<rparr>"
  let ?w1 = "enter i (Body p) w (gone_on i (?g, ?t) (tm w))"
  have I: "tl2_inv zero_words (tm w)" "supported (tm w)" "word_size ?g = 8" using world_invD [OF inv] by blast+
  have quiet: "quiet (stripes ?g) (gvc ?g)"
    using I(1) free(1) by (simp add: tl2_inv_def locks_ok_def quiet_def ver_def gv_def)
  have "others_fit i (tm w)" using I(2) by (auto simp: supported_def others_fit_def one_fits_def)
  then have ud: "undisturbed C i ro p w" using call(1) I(3) free(2) by (simp add: undisturbed_def)
  have idle: "txn (th (tm w) i) = None" "pc_at (tm w) i = Idle" using outside_idle [OF inv call(2)] by blast+
  then have "tstep (Begin ro) ?g (th (tm w) i) = Some (?g, ?t)" by (simp add: tm_begin_step_def)
  then have "exec i (Begin ro) (tm w) = Some (gone_on i (?g, ?t) (tm w))" by (rule exec_tau) simp
  then have st: "call_step C i go ro p (calls w i) w = Some ?w1" using call(2) by simp
  have kept: "kept i w ?w1" "sh (tm ?w1) = ?g" by (simp_all add: kept_def enter_def)
  have "solo C i w ?w1"
    by (rule solo_call_step [OF ud st kept(1)]) (simp_all add: enter_def one_fits_def new_Transaction_def)
  moreover have "at_body i p ?x ?w1" using idle(2) by (simp add: at_body_def enter_def)
  ultimately show ?thesis using kept quiet undisturbed_kept [OF ud kept] by auto
qed

lemma lone_call:
  assumes inv: "world_inv C w"
    and "next_call C i (local_state w i) = Some (ro, p)" "calls w i = Outside" "\<not> terminated w"
    and "\<forall>l. \<not> vl_isLocked (stripes (sh (tm w)) l)" "gv (tm w) + 1 < 2 ^ 31"
    and "words_ok B" "ro \<longrightarrow> reads_only p" "safe p (contents B (word_at (tm w)))"
  shows "\<exists>w' r \<sigma>. solo C i w w' \<and> atomically p (contents B (word_at (tm w))) r \<sigma> \<and> call_done C i r B \<sigma> w w'"
proof -
  let ?x = "new_Transaction (gvc (sh (tm w))) ro"
  have "calling C i ro p w" using assms(2,4) by (simp add: calling_def)
  from solo_begin [OF inv this assms(3,5,6)] obtain w1 where w1: "solo C i w w1" "kept i w w1"
    "sh (tm w1) = sh (tm w)" "undisturbed C i ro p w1" "at_body i p ?x w1" "quiet (stripes (sh (tm w1))) (gvc (sh (tm w1)))"
    by blast
  have x: "tidy B ?x" "rv ?x = gvc (sh (tm w1))" "quiet (stripes (sh (tm w1))) (rv ?x)" "is_ro ?x \<longrightarrow> reads_only p"
    using assms(8) w1(3,6) by (simp_all add: new_Transaction_def tidy_def)
  have store: "store_seen B w1 ?x = contents B (word_at (tm w))"
    unfolding store_seen_def using w1(3) world_invD(3) [OF inv]
    by (intro contents_cong) (simp add: view_def visible_def new_Transaction_def word_at_def)
  have "body_done C i B p ?x w1"
    using assms(9) unfolding store [symmetric] by (rule solo_body [OF w1(4,5) x(1) assms(7) x(3,4)])
  then obtain w2 r x2 where w2: "solo C i w1 w2" "kept i w1 w2" "sh (tm w2) = sh (tm w1)" "at_body i (final r) x2 w2"
    "tidy B x2" "rv x2 = rv ?x" "atomically p (store_seen B w1 ?x) r (store_seen B w1 x2)"
    unfolding body_done_def by blast
  have ud: "undisturbed C i ro p w2" by (rule undisturbed_kept [OF w1(4) w2(2,3)])
  have "r \<noteq> Inl TransactionRetry"
    using calm_seq.atomically_no_retry [OF w2(7)] assms(9) store by simp
  moreover have "rv x2 = gvc (sh (tm w2))" using w2(3,6) x(2) by simp
  ultimately obtain w3 where w3: "solo C i w2 w3" "call_done C i r B (store_seen B w2 x2) w2 w3"
    using solo_end [OF ud w2(4,5) assms(7)] assms(5) w1(3) w2(3) by auto
  have "call_done C i r B (store_seen B w1 x2) w w3"
    using w3(2) w1(2,3) w2(2,3) by (auto simp: call_done_def kept_def store_seen_def gv_def fun_eq_iff)
  moreover have "atomically p (contents B (word_at (tm w))) r (store_seen B w1 x2)" using w2(7) store by simp
  ultimately show ?thesis using solo_trans [OF solo_trans [OF w1(1) w2(1)] w3(1)] by blast
qed

text \<open>C12: obstruction freedom. In every state the composed system reaches in which no stripe is held, a
  thread about to call \<open>transactional()\<close> can complete the call by steps of its own, wherever the others
  rest, in the middle of transactions of theirs perhaps: its first attempt commits, the call returns, or
  throws, what the body does when run in one go on the words in memory, and leaves these words as
  the body leaves them and every stripe free again. The clock must have room for one more stamp, and the words \<open>B\<close> of
  which the body knows must lie on stripes of their own.\<close>

theorem lone_call_returns:
  assumes "world_reach (\<lambda>w. supported (tm w)) C (new_world clock A ls0) w" "well_behaved C (fresh_store A) ls0"
    and "next_call C i (local_state w i) = Some (ro, p)" "calls w i = Outside" "\<not> terminated w"
    and "\<forall>l. \<not> vl_isLocked (stripes (sh (tm w)) l)" "gv (tm w) + 1 < 2 ^ 31"
    and "words_ok B" "ro \<longrightarrow> reads_only p" "safe p (contents B (word_at (tm w)))"
  shows "\<exists>w' r \<sigma>. solo C i w w' \<and> atomically p (contents B (word_at (tm w))) r \<sigma> \<and> call_done C i r B \<sigma> w w'"
proof -
  have "world_inv C w" using world_reach_simulated [OF assms(1,2)] by blast
  then show ?thesis using assms(3-10) by (rule lone_call)
qed

text \<open>The one call of \<open>adder\<close>: it returns, and the word is 1.\<close>

theorem lone_call_returns_witness:
  "\<exists>w'. solo adder 0 (new_world 0 {8} (\<lambda>_. 1)) w' \<and> local_state w' 0 = 0 \<and> calls w' 0 = Outside \<and>
    decode (word_at (tm w') 8) = 1"
proof -
  let ?w = "new_world 0 {8} (\<lambda>_. 1) :: (nat, 64 word) world"
  let ?p = "ReadWord 8 (\<lambda>v. prog.WriteWord 8 (v + 1) (Done v)) :: 64 word prog"
  have "supported (tm ?w)" by (simp add: new_world_def init_sys_def idle_thread_def supported_def gv_def)
  then have reach: "world_reach (\<lambda>w. supported (tm w)) adder ?w ?w" by (rule world_start)
  have w: "next_call adder 0 (local_state ?w 0) = Some (False, ?p)" "calls ?w 0 = Outside" "\<not> terminated ?w"
    "\<forall>l. \<not> vl_isLocked (stripes (sh (tm ?w)) l)" "gv (tm ?w) + 1 < 2 ^ 31" "decode (word_at (tm ?w) 8) = 0"
    by (simp_all add: new_world_def init_sys_def adder_def gv_def word_at_def load_bytes_zero)
  have B: "words_ok {8}" "False \<longrightarrow> reads_only ?p" "safe ?p (contents {8} (word_at (tm ?w)))"
    by (simp_all add: words_ok_def word_aligned_def set_word_def)
  obtain w' r \<sigma> where r: "solo adder 0 ?w w'" "atomically ?p (contents {8} (word_at (tm ?w))) r \<sigma>"
    "call_done adder 0 r {8} \<sigma> ?w w'"
    using lone_call_returns [OF reach adder_safe w(1-5) B] by blast
  have "snd \<sigma> 8 = 1" using r(2) w(6) by (auto simp: set_word_def)
  moreover have "contents {8} (word_at (tm w')) = \<sigma>" using r(3) by (simp add: call_done_def)
  ultimately have "decode (word_at (tm w') 8) = 1" by (metis contents_simps(2) singletonI)
  then show ?thesis using r(1,3) by (auto simp: call_done_def new_world_def adder_def)
qed

end
