(* ===== verification/TL2_Torn.thy ===== *)
theory TL2_Torn
  imports TL2_Solo_Calls
begin

text \<open>
  A read torn in two by a commit. The write-back of a word and the release of its stripe are two
  accesses, and so are the two that \<open>tm_read\<close> makes to validate the word it copied: the version first,
  then the lock bit. A reader that copies the word and loads the version between the write-back and
  the release, and the lock bit after it, takes the new word for one of the old version.
\<close>

section \<open>The accesses\<close>

lemma reader_before_copy:
  assumes "txn t = Some x" "readable (stripes g) (rv x) a"
  shows "tau_run (g, t\<lparr>pc := PreVersion a sz 0\<rparr>) (g, t\<lparr>pc := CopyWord a sz 0 (vl_getVersion (stripe g a))\<rparr>)"
proof -
  have "tau_run (g, t\<lparr>pc := PreVersion a sz 0\<rparr>) (g, t\<lparr>pc := PreLocked a sz 0 (vl_getVersion (stripe g a))\<rparr>)"
    using assms(1) by (intro tau_once) simp
  moreover have "tau_run (g, t\<lparr>pc := PreLocked a sz 0 (vl_getVersion (stripe g a))\<rparr>)
      (g, t\<lparr>pc := CopyWord a sz 0 (vl_getVersion (stripe g a))\<rparr>)"
    using assms by (intro tau_once) (auto simp: readable_def)
  ultimately show ?thesis by (rule tau_run_trans)
qed

lemma reader_copies:
  assumes "txn t = Some x" "is_ro x" "pc t = CopyWord a sz 0 v"
  shows "\<exists>t'. tau_run (g, t) (g, t') \<and> txn t' = Some x \<and> pc t' = PostLocked a sz 0 v (vl_getVersion (stripe g a)) \<and>
    buf t' = buf t @ [load_bytes (mem g) a (word_size g)]"
proof -
  let ?b = "load_bytes (mem g) a (word_size g)"
  let ?t = "t\<lparr>buf := buf t @ [?b], rlog := (a, ?b) # rlog t, pc := PostVersion a sz 0 v\<rparr>"
  have "tau_run (g, t) (g, ?t)" using assms by (intro tau_once) (simp add: Let_def)
  moreover have "tau_run (g, ?t) (g, ?t\<lparr>pc := PostLocked a sz 0 v (vl_getVersion (stripe g a))\<rparr>)"
    using assms(1) by (intro tau_once) simp
  ultimately have "tau_run (g, t) (g, ?t\<lparr>pc := PostLocked a sz 0 v (vl_getVersion (stripe g a))\<rparr>)"
    by (rule tau_run_trans)
  then show ?thesis
    using assms(1) by (intro exI [of _ "?t\<lparr>pc := PostLocked a sz 0 v (vl_getVersion (stripe g a))\<rparr>"]) simp
qed

lemma reader_accepts:
  assumes "txn t = Some x" "is_ro x" "pc t = PostLocked a 8 0 v v" "\<not> vl_isLocked (stripe g a)" "v \<le> rv x"
    and "word_size g = 8"
  shows "tau_run (g, t) (g, t\<lparr>pc := Idle, returned := True\<rparr>)"
  using assms by (intro tau_once) (simp add: Let_def read_next_def not_less)

text \<open>The writer, up to the release of its last stripe.\<close>

lemma writes_but_last:
  assumes "txn t = Some x" "write_back_all (write_set x) wv keys (mem g) (stripes g) = (m, ls)"
  shows "tau_run (g, write_back (keys @ [a]) wv t)
    (g\<lparr>mem := store_bytes m a (the (write_set x a)), stripes := ls\<rparr>, t\<lparr>pc := SetVersion [a] wv\<rparr>)"
  using assms(2)
proof (induction keys arbitrary: g)
  case Nil
  then have "g\<lparr>mem := store_bytes m a (the (write_set x a)), stripes := ls\<rparr> =
      g\<lparr>mem := store_bytes (mem g) a (the (write_set x a))\<rparr>" by (cases g) simp
  then show ?case using assms(1) by (intro tau_once) (simp add: write_back_def)
next
  case (Cons b keys)
  let ?g1 = "g\<lparr>mem := store_bytes (mem g) b (the (write_set x b))\<rparr>"
  let ?g2 = "?g1\<lparr>stripes := (stripes g)(lock_index b := vl_setVersion wv)\<rparr>"
  have "tau_run (g, write_back ((b # keys) @ [a]) wv t) (?g1, t\<lparr>pc := SetVersion (b # keys @ [a]) wv\<rparr>)"
    using assms(1) by (intro tau_once) (simp add: write_back_def)
  moreover have "tau_run (?g1, t\<lparr>pc := SetVersion (b # keys @ [a]) wv\<rparr>) (?g2, write_back (keys @ [a]) wv t)"
    using assms(1) by (intro tau_once) simp
  ultimately have "tau_run (g, write_back ((b # keys) @ [a]) wv t) (?g2, write_back (keys @ [a]) wv t)"
    by (rule tau_run_trans)
  moreover have "tau_run (?g2, write_back (keys @ [a]) wv t)
      (?g2\<lparr>mem := store_bytes m a (the (write_set x a)), stripes := ls\<rparr>, t\<lparr>pc := SetVersion [a] wv\<rparr>)"
    using Cons.IH [of ?g2] Cons.prems by (simp del: fun_upd_apply)
  ultimately show ?case by (auto intro: tau_run_trans simp del: fun_upd_apply)
qed

text \<open>The stripes then: the last one is held, under its old version.\<close>

definition last_held :: "addr list \<Rightarrow> addr \<Rightarrow> 64 word \<Rightarrow> (nat \<Rightarrow> lock_word) \<Rightarrow> nat \<Rightarrow> lock_word" where
  "last_held keys a wv ls = (\<lambda>l. if l \<in> lock_index ` set keys then vl_setVersion wv
     else if l = lock_index a then vl_acquired (ls l) else ls l)"

lemma end_but_last:
  assumes "txn t = Some x" "\<not> is_ro x" "rv x = gvc g" "\<And>l. \<not> vl_isLocked (stripes g l)" "pc t = Idle"
    and "distinct (keys @ [a])" "set (keys @ [a]) = dom (write_set x)"
  shows "\<exists>t1 g2 t2. end_call (keys @ [a]) t = Some t1 \<and> tau_run (g, t1) (g2, t2) \<and> txn t1 = Some x \<and> txn t2 = Some x \<and>
    pc t2 = SetVersion [a] (gvc g + 1) \<and> gvc g2 = gvc g + 1 \<and> word_size g2 = word_size g \<and>
    mem g2 = fold (\<lambda>a m. store_bytes m a (the (write_set x a))) (keys @ [a]) (mem g) \<and>
    stripes g2 = last_held keys a (gvc g + 1) (stripes g)"
proof -
  let ?ws = "keys @ [a]" and ?wv = "gvc g + 1" and ?t = "t\<lparr>order := keys @ [a]\<rparr>"
  let ?f = "\<lambda>a m. store_bytes m a (the (write_set x a))"
  have x: "txn ?t = Some x" using assms(1) by simp
  have t1: "end_call ?ws t = Some (lock_next ?ws [] ?t)"
    using assms(1,2,5-7) by (simp add: end_call_def lock_next_def)
  obtain b ls1 held where l: "lock_write_set (\<lambda>_. False) ?ws (stripes g) [] = (b, ls1, held)" by (metis prod_cases3)
  have "taking [] (stripes g) = stripes g" by (simp add: taking_def)
  with l have "lock_write_set (\<lambda>_. False) ?ws (taking [] (stripes g)) [] = (b, ls1, held)" by simp
  from lock_write_set_result [of "stripes g", OF assms(4) _ this]
  have b: "b" "ls1 = taking held (stripes g)" "set held = lock_index ` set ?ws" by simp_all
  have run1: "tau_run (g, lock_next ?ws [] ?t) (g\<lparr>stripes := ls1\<rparr>, ?t\<lparr>pc := FetchAdd held\<rparr>)"
    using tau_lock [OF x l] b(1) by simp
  define g1 where "g1 = g\<lparr>stripes := ls1, gvc := ?wv,
    clog := (clog g)(unat ?wv \<mapsto> \<lparr>c_reads = rlog t, c_writes = write_set x\<rparr>)\<rparr>"
  have run2: "tau_run (g\<lparr>stripes := ls1\<rparr>, ?t\<lparr>pc := FetchAdd held\<rparr>) (g1, write_back ?ws ?wv ?t)"
    using assms(1,3) by (intro tau_once) (simp add: Let_def decide_def g1_def)
  define ls2 where "ls2 = (\<lambda>l. if l \<in> lock_index ` set keys then vl_setVersion ?wv else ls1 l)"
  have "write_back_all (write_set x) ?wv keys (mem g1) (stripes g1) = (fold ?f keys (mem g), ls2)"
    by (simp add: write_back_all_result g1_def ls2_def)
  from writes_but_last [OF x this, of a]
  have run3: "tau_run (g1, write_back ?ws ?wv ?t)
      (g1\<lparr>mem := fold ?f ?ws (mem g), stripes := ls2\<rparr>, ?t\<lparr>pc := SetVersion [a] ?wv\<rparr>)" by simp
  let ?g2 = "g1\<lparr>mem := fold ?f ?ws (mem g), stripes := ls2\<rparr>" and ?t2 = "?t\<lparr>pc := SetVersion [a] ?wv\<rparr>"
  have "tau_run (g, lock_next ?ws [] ?t) (?g2, ?t2)" by (rule tau_run_trans [OF tau_run_trans [OF run1 run2] run3])
  moreover have "stripes ?g2 = last_held keys a ?wv (stripes g)"
    using b(2,3) by (auto simp: ls2_def last_held_def taking_def fun_eq_iff)
  moreover have "txn (lock_next ?ws [] ?t) = Some x" using assms(1) by (simp add: lock_next_def)
  ultimately show ?thesis
    using t1 assms(1) by (intro exI [of _ "lock_next ?ws [] ?t"] exI [of _ ?g2] exI [of _ ?t2]) (simp add: g1_def)
qed

section \<open>The accesses in the composed system\<close>

lemma solo_supported: "solo C i w w' \<Longrightarrow> supported (tm w) \<Longrightarrow> supported (tm w')"
  by (induction rule: solo.induct) simp_all

lemma undisturbedI:
  assumes "supported (tm w)" "calling C i ro p w" "gv (tm w) + 1 < 2 ^ 31" "word_size (sh (tm w)) = 8"
  shows "undisturbed C i ro p w" "one_fits (th (tm w) i)"
  using assms by (auto simp: undisturbed_def supported_def others_fit_def one_fits_def)

lemma solo_value:
  assumes "undisturbed C i ro p w" "at_body i (ReadWord a k) x w" "tidy B x" "words_ok B" "a \<in> B"
    and "readable (stripes (sh (tm w))) (rv x) a" "write_set x a = None" "decode (word_at (tm w) a) = v"
  shows "\<exists>w'. solo C i w w' \<and> kept i w w' \<and> sh (tm w') = sh (tm w) \<and> at_body i (k v) (noted a x) w' \<and> tidy B (noted a x)"
proof -
  have "word_size (sh (tm w)) = 8" using assms(1) by (simp add: undisturbed_def)
  then have "decode (view 8 (mem (sh (tm w))) (visible x) a) = v"
    using assms(7,8) by (simp add: view_def visible_def word_at_def)
  moreover have "tidy B (noted a x)" using assms(3) by (auto simp: noted_def tidy_def)
  ultimately show ?thesis using solo_read [OF assms(1-6)] by metis
qed

text \<open>The destructor of the writer, up to the release of its last stripe, and from there.\<close>

lemma solo_end_but_last:
  assumes ud: "undisturbed C i ro p w" and body: "at_body i (final r) x w" and x: "\<not> is_ro x" "rv x = gvc (sh (tm w))"
    and free: "\<And>l. \<not> vl_isLocked (stripes (sh (tm w)) l)"
    and keys: "distinct (keys @ [a])" "set (keys @ [a]) = dom (write_set x)" "inj_on lock_index (dom (write_set x))"
  shows "\<exists>w' n. solo C i w w' \<and> kept i w w' \<and> calls w' i = Ending r n \<and> txn (th (tm w') i) = Some x \<and>
    pc_at (tm w') i = SetVersion [a] (gvc (sh (tm w)) + 1) \<and> gvc (sh (tm w')) = gvc (sh (tm w)) + 1 \<and>
    word_size (sh (tm w')) = 8 \<and> stripes (sh (tm w')) = last_held keys a (gvc (sh (tm w)) + 1) (stripes (sh (tm w))) \<and>
    mem (sh (tm w')) = fold (\<lambda>a m. store_bytes m a (the (write_set x a))) (keys @ [a]) (mem (sh (tm w)))"
proof -
  let ?g = "sh (tm w)" and ?t = "th (tm w) i"
  have b: "calls w i = Body (final r)" "txn ?t = Some x" "pc ?t = Idle" and ws: "word_size ?g = 8"
    and calling: "calling C i ro p w" and others: "others_fit i (tm w)"
    using body ud by (auto simp: at_body_def undisturbed_def)
  obtain t1 g2 t2 where e: "end_call (keys @ [a]) ?t = Some t1" "tau_run (?g, t1) (g2, t2)" "txn t1 = Some x" "txn t2 = Some x"
    "pc t2 = SetVersion [a] (gvc ?g + 1)" "gvc g2 = gvc ?g + 1" "word_size g2 = word_size ?g"
    "mem g2 = fold (\<lambda>a m. store_bytes m a (the (write_set x a))) (keys @ [a]) (mem ?g)"
    "stripes g2 = last_held keys a (gvc ?g + 1) (stripes ?g)"
    using end_but_last [OF b(2) x free b(3) keys(1,2)] by blast
  have fits: "one_fits t1" using e(3) keys(3) by (simp add: one_fits_def)
  let ?w1 = "enter i (Ending r 0) w (gone_on i (?g, t1) (tm w))"
  have "exec i (End (keys @ [a])) (tm w) = Some (gone_on i (?g, t1) (tm w))" using e(1) by (intro exec_tau) simp_all
  then have call: "call_step C i (Go False (keys @ [a]) []) ro p (calls w i) w = Some ?w1"
    unfolding b(1) by (cases r) simp_all
  have one: "solo C i w ?w1" by (rule solo_call_step [OF ud call]) (use fits in \<open>simp_all add: kept_def enter_def\<close>)
  have bud: "budget (?g, t1)" using ud fits by (simp add: budget_def undisturbed_def gv_def)
  obtain n log where ending: "solo C i ?w1 (?w1\<lparr>tm := gone_on i (g2, t2) (tm ?w1),
      calls := (calls ?w1)(i := Ending r n), drawn := log\<rparr>)"
    using solo_ending [OF e(2), of ?w1 i r 0 C ro p] calling bud others by (auto simp: enter_def calling_def)
  let ?w2 = "?w1\<lparr>tm := gone_on i (g2, t2) (tm ?w1), calls := (calls ?w1)(i := Ending r n), drawn := log\<rparr>"
  have "solo C i w ?w2" by (rule solo_trans [OF one ending])
  then show ?thesis using e(4-9) ws by (intro exI [of _ ?w2] exI [of _ n]) (simp add: kept_def enter_def)
qed

lemma solo_end_last:
  assumes ud: "undisturbed C i ro p w" and c: "calls w i = Ending r n" and t: "txn (th (tm w) i) = Some x"
    "pc_at (tm w) i = SetVersion [a] wv" and fits: "one_fits (th (tm w) i)" and r: "r \<noteq> Inl TransactionRetry"
  shows "\<exists>w'. solo C i w w' \<and> calls w' = (calls w)(i := Outside) \<and> terminated w' = terminated w \<and>
    local_state w' = (local_state w)(i := got C i (local_state w i) r) \<and> (\<forall>j. j \<noteq> i \<longrightarrow> th (tm w') j = th (tm w) j) \<and>
    sh (tm w') = sh (tm w)\<lparr>stripes := (stripes (sh (tm w)))(lock_index a := vl_setVersion wv)\<rparr>"
proof -
  let ?g = "sh (tm w)\<lparr>stripes := (stripes (sh (tm w)))(lock_index a := vl_setVersion wv)\<rparr>" and ?t = "commit (th (tm w) i)"
  have calling: "calling C i ro p w" and others: "others_fit i (tm w)" using ud by (simp_all add: undisturbed_def)
  have run: "tau_run (sh (tm w), th (tm w) i) (?g, ?t)"
    using t by (intro tau_once) (simp add: write_back_def)
  have bud: "budget (sh (tm w), th (tm w) i)" using ud fits by (simp add: budget_def undisturbed_def gv_def)
  obtain m log where ending: "budget (?g, ?t)" "solo C i w (w\<lparr>tm := gone_on i (?g, ?t) (tm w),
      calls := (calls w)(i := Ending r m), drawn := log\<rparr>)"
    using solo_ending [OF run refl c calling bud others] by blast
  let ?w2 = "w\<lparr>tm := gone_on i (?g, ?t) (tm w), calls := (calls w)(i := Ending r m), drawn := log\<rparr>"
  let ?w3 = "hand_back C i r (splice ro i ?w2)"
  have "calling C i ro p ?w2" "calls ?w2 i = Ending r m" "txn (th (tm ?w2) i) = None" "returned (th (tm ?w2) i)"
    using calling by (simp_all add: calling_def commit_def)
  then have st: "thread_step C i go ?w2 = Some ?w3" using calling_step [of C i ro p ?w2 go] by simp
  have w3: "tm ?w3 = gone_on i (?g, ?t) (tm w)" "calls ?w3 = (calls w)(i := Outside)" "terminated ?w3 = terminated w"
    "local_state ?w3 = (local_state w)(i := got C i (local_state w i) r)"
    using r by (auto simp: hand_back_def splice_def retry_def split: sum.split exn.split)
  have "supported (tm ?w3)" using ending(1) others unfolding w3(1) by (intro budget_supported [of _ i]) simp_all
  then have "solo C i w ?w3" by (rule solo_trans [OF ending(2) solo_once [OF st]])
  then show ?thesis using w3 by (intro exI [of _ ?w3]) simp
qed

section \<open>Between two calls\<close>

text \<open>A reachable state in which no call is under way and no stripe is held.\<close>

definition at_rest :: "('l, 'a) client_code \<Rightarrow> addr set \<Rightarrow> (nat \<Rightarrow> 'l) \<Rightarrow> nat \<Rightarrow> ('l, 'a) world \<Rightarrow> bool" where
  "at_rest C A ls0 n w \<longleftrightarrow> world_reach (\<lambda>w. supported (tm w)) C (new_world 0 A ls0) w \<and> (\<forall>i. calls w i = Outside) \<and>
     \<not> terminated w \<and> (\<forall>l. \<not> vl_isLocked (stripes (sh (tm w)) l)) \<and> gv (tm w) \<le> n"

lemma at_rest_new: "at_rest C A ls0 0 (new_world 0 A ls0)"
  by (auto simp: at_rest_def new_world_def init_sys_def idle_thread_def supported_def gv_def intro!: world_start)

lemma reach_supported: "world_reach P C w0 w \<Longrightarrow> P w"
  by (induction rule: world_reach.induct) simp_all

lemma solo_reaches:
  assumes "world_reach (\<lambda>w. supported (tm w)) C w0 w" "solo C i w w'"
  shows "world_reach (\<lambda>w. supported (tm w)) C w0 w'"
  using world_reach_trans [OF solo_reach [OF assms(2)] assms(1)] reach_supported [OF assms(1)] by simp

lemma at_rest_call:
  assumes rest: "at_rest C A ls0 n w" and wb: "well_behaved C (fresh_store A) ls0" and A: "words_ok A" and n: "n < 2 ^ 30"
    and call: "next_call C i (local_state w i) = Some (ro, p)" "ro \<longrightarrow> reads_only p" "safe p (contents A (word_at (tm w)))"
  shows "\<exists>w' r. at_rest C A ls0 (Suc n) w' \<and> local_state w' = (local_state w)(i := got C i (local_state w i) r) \<and>
    atomically p (contents A (word_at (tm w))) r (contents A (word_at (tm w')))"
proof -
  have R: "world_reach (\<lambda>w. supported (tm w)) C (new_world 0 A ls0) w" "calls w i = Outside" "\<not> terminated w"
    "\<forall>l. \<not> vl_isLocked (stripes (sh (tm w)) l)" "gv (tm w) + 1 < 2 ^ 31"
    using rest n by (simp_all add: at_rest_def)
  have "world_inv C w" using world_reach_simulated [OF R(1) wb] by blast
  from lone_call [OF this call(1) R(2-5) A call(2,3)] obtain w' r \<sigma> where
    "solo C i w w'" "atomically p (contents A (word_at (tm w))) r \<sigma>" "call_done C i r A \<sigma> w w'" by blast
  then show ?thesis
    using rest solo_reaches [OF R(1)] by (intro exI [of _ w'] exI [of _ r]) (auto simp: at_rest_def call_done_def)
qed

lemma at_rest_other:
  assumes "at_rest C A ls0 n w" "other_step C D f g" "\<And>j. j \<in> D \<Longrightarrow> local_state w j = f j"
  shows "at_rest C A ls0 n (w\<lparr>local_state := \<lambda>j. if j \<in> D then g j else local_state w j\<rparr>)"
proof -
  have R: "world_reach (\<lambda>w. supported (tm w)) C (new_world 0 A ls0) w" "\<not> terminated w" "\<And>j. calls w j = Outside"
    using assms(1) by (simp_all add: at_rest_def)
  have st: "world_step C w (w\<lparr>local_state := \<lambda>j. if j \<in> D then g j else local_state w j\<rparr>)"
    by (rule step_other [OF R(2) assms(2)]) (use R(3) assms(3) in blast)
  have "world_reach (\<lambda>w. supported (tm w)) C (new_world 0 A ls0)
      (w\<lparr>local_state := \<lambda>j. if j \<in> D then g j else local_state w j\<rparr>)"
    by (rule world_move [OF R(1) st]) (use reach_supported [OF R(1)] in simp)
  then show ?thesis using assms(1) by (simp add: at_rest_def)
qed

end
