(* ===== verification/TL2_False_Alarm.thy ===== *)
theory TL2_False_Alarm
  imports TL2_Torn TL2_Grading
begin

text \<open>
  The grader and the library of \<open>394984/tm.cpp\<close> together, in a run in which the bank is sound at all
  times and a worker reports a violation all the same: its read-only \<open>long_tx\<close> is torn by the commit
  of another worker's \<open>short_tx\<close>.
\<close>

section \<open>A bank of two accounts and two workers\<close>

definition two_bank :: workload where
  "two_bank = \<lparr>nbaccounts = 2, init_balance = 100, bank_start = 4096\<rparr>"

abbreviation two_grader :: "(worker_state, answer) client_code" where
  "two_grader \<equiv> grader_workers 2 1 1 two_bank"

definition two_words :: "addr set" where
  "two_words = {4096, 4104, 4112, 4120, 4128}"

lemma two_bank_words: "words_at two_bank (bank_start two_bank) = two_words"
proof -
  have "3 + room two_bank = 5" "bank_start two_bank = 4096" by (simp_all add: two_bank_def)
  moreover have "{..<5 :: nat} = {0, 1, 2, 3, 4}" by auto
  ultimately show ?thesis by (simp add: words_at cell_def two_words_def insert_commute)
qed

lemma two_words_ok: "words_ok two_words"
  by (simp add: words_ok_def two_words_def word_aligned_def lock_index_def NUM_LOCKS_def)

lemma two_bank_sizes:
  "well_sized two_bank" "first_segment two_bank" "check_rounds * 2 < 2 ^ 64"
  "unat (init_balance two_bank) * (room two_bank + 2 ^ 31) < 2 ^ 63"
  by (simp_all add: well_sized_def first_segment_def two_bank_def word_aligned_def segment_size_def check_rounds_def)

lemma two_well_behaved: "well_behaved two_grader (fresh_store two_words) at_start"
  using grader_well_behaved [OF first_segment_words(1) [OF two_bank_sizes(2)] two_bank_sizes(1,3)]
  unfolding two_bank_words .

lemma two_init:
  "map_prog f (init_tx two_bank) = prog.WriteWord 4096 2 (prog.WriteWord 4120 100 (prog.WriteWord 4128 100 (Done (f ()))))"
  "map_prog g (init_check two_bank) = ReadWord 4120 (\<lambda>v. Done (g (v = 100)))"
  by (simp_all add: init_tx_def init_check_def two_bank_def fill_accounts.simps count_of_def accounts_of_def
     parity_of_def next_of_def array_cell_def comp_def)

lemma two_short:
  "\<exists>k1 k2 k3. map_prog Found (short_tx two_bank bank_fuel 0 1) = ReadWord 4096 k1 \<and> k1 2 = ReadWord 4120 k2 \<and>
    k2 100 = prog.WriteWord 4120 99 (ReadWord 4128 k3) \<and>
    k3 100 = prog.WriteWord 4128 101 (final (Inr (Found (Finished True))))"
proof -
  obtain n where n: "bank_fuel = Suc n" using not0_implies_Suc [of bank_fuel] by (auto simp: bank_fuel_def)
  show ?thesis unfolding n
    by (simp add: short_tx_def two_bank_def segment_bind_def transfer_def seek_def count_of_def parity_of_def next_of_def
        accounts_of_def array_cell_def
        word_sless_alt)
qed

lemma two_long:
  "\<exists>k1 k2 k3 k4 k5. map_prog Summed (long_tx two_bank bank_fuel) = ReadWord 4096 k1 \<and> k1 2 = ReadWord 4112 k2 \<and>
    k2 0 = ReadWord 4120 k3 \<and> k3 100 = ReadWord 4128 k4 \<and> k4 101 = ReadWord 4104 k5 \<and>
    k5 0 = final (Inr (Summed (Finished (False, Some 2))))"
proof -
  obtain n where n: "bank_fuel = Suc (Suc n)"
    using not0_implies_Suc [of bank_fuel] not0_implies_Suc [of "bank_fuel - 1"] by (auto simp: bank_fuel_def)
  show ?thesis unfolding n
    by (simp add: long_tx_def two_bank_def segment_bind_def sum_accounts.simps count_of_def parity_of_def next_of_def
        accounts_of_def array_cell_def word_sless_alt)
qed

section \<open>init\<close>

text \<open>No call under way, and what the words of the bank hold.\<close>

abbreviation resting :: "nat \<Rightarrow> (worker_state, answer) world \<Rightarrow> bool" where
  "resting n w \<equiv> at_rest two_grader two_words at_start n w"

definition holds :: "(worker_state, answer) world \<Rightarrow> 64 word \<Rightarrow> 64 word \<Rightarrow> 64 word \<Rightarrow> bool" where
  "holds w count account0 account1 \<longleftrightarrow> decode (word_at (tm w) 4096) = count \<and> decode (word_at (tm w) 4104) = 0 \<and>
     decode (word_at (tm w) 4112) = 0 \<and> decode (word_at (tm w) 4120) = account0 \<and> decode (word_at (tm w) 4128) = account1"

lemma holds_contents:
  "holds w count a b \<longleftrightarrow> (let f = snd (contents two_words (word_at (tm w)))
     in f 4096 = count \<and> f 4104 = 0 \<and> f 4112 = 0 \<and> f 4120 = a \<and> f 4128 = b)"
  by (simp add: holds_def contents_def two_words_def)

lemma two_calls:
  "next_call two_grader i s = worker_call 2 two_bank i s" "got two_grader i = worker_got"
  "other_step two_grader = between 2 1 1 two_bank"
  by (simp_all add: grader_workers_def)

lemma two_init_accounts:
  assumes "resting n w" "n < 10" "m = Suc n" "i < 2" "local_state w i = (InitAccounts, None)"
    and "decode (word_at (tm w) 4104) = 0" "decode (word_at (tm w) 4112) = 0"
  shows "\<exists>w'. resting m w' \<and> local_state w' = (local_state w)(i := (InitBalance, None)) \<and> holds w' 2 100 100"
proof -
  let ?p = "map_prog (\<lambda>_. Nothing) (init_tx two_bank)"
  have "next_call two_grader i (local_state w i) = Some (False, ?p)"
    using assms(4,5) by (simp add: two_calls worker_call_def)
  moreover have "safe ?p (contents two_words (word_at (tm w)))"
    unfolding two_init by (simp add: two_words_def contents_def set_word_def)
  ultimately obtain w' r where w': "resting m w'"
    "local_state w' = (local_state w)(i := worker_got (local_state w i) r)"
    "atomically ?p (contents two_words (word_at (tm w))) r (contents two_words (word_at (tm w')))"
    using at_rest_call [OF assms(1) two_well_behaved two_words_ok] assms(2,3) by (force simp: two_calls)
  have r: "r = Inr Nothing"
    "contents two_words (word_at (tm w')) =
      set_word 4128 100 (set_word 4120 100 (set_word 4096 2 (contents two_words (word_at (tm w)))))"
    using w'(3) unfolding two_init by simp_all
  have "holds w' 2 100 100"
    unfolding holds_contents r(2) using assms(6,7) by (simp add: Let_def set_word_def contents_def two_words_def)
  then show ?thesis using w'(1,2) r(1) assms(5) by (intro exI [of _ w']) (simp add: worker_got_def)
qed

lemma two_init_balance:
  assumes "resting n w" "n < 10" "m = Suc n" "i < 2" "local_state w i = (InitBalance, None)" "holds w 2 100 100"
  shows "\<exists>w'. resting m w' \<and> local_state w' = (local_state w)(i := (Waiting 0, None)) \<and> holds w' 2 100 100"
proof -
  let ?p = "map_prog Truth (init_check two_bank)"
  have "next_call two_grader i (local_state w i) = Some (True, ?p)" "True \<longrightarrow> reads_only ?p"
    using assms(4,5) by (simp_all add: two_calls worker_call_def two_init)
  moreover have "safe ?p (contents two_words (word_at (tm w)))"
    unfolding two_init by (simp add: two_words_def contents_def)
  ultimately obtain w' r where w': "resting m w'"
    "local_state w' = (local_state w)(i := worker_got (local_state w i) r)"
    "atomically ?p (contents two_words (word_at (tm w))) r (contents two_words (word_at (tm w')))"
    using at_rest_call [OF assms(1) two_well_behaved two_words_ok] assms(2,3) by (force simp: two_calls)
  have "snd (contents two_words (word_at (tm w))) 4120 = 100" using assms(6) by (simp add: holds_contents Let_def)
  then have r: "r = Inr (Truth True)" "contents two_words (word_at (tm w')) = contents two_words (word_at (tm w))"
    using w'(3) unfolding two_init by simp_all
  have "holds w' 2 100 100" using assms(6) unfolding holds_contents r(2) .
  then show ?thesis using w'(1,2) r(1) assms(5) by (intro exI [of _ w']) (simp add: worker_got_def)
qed

text \<open>A step of one worker between its transactions, and the round that begins.\<close>

lemma two_alone:
  assumes "resting n w" "holds w c a b" "i < 2" "local_state w i = (s, None)" "alone s s'"
  shows "\<exists>w'. resting n w' \<and> holds w' c a b \<and> local_state w' = (local_state w)(i := (s', None))"
proof -
  let ?w' = "w\<lparr>local_state := \<lambda>j. if j \<in> {i} then (s', None) else local_state w j\<rparr>"
  have "between 2 1 1 two_bank {i} (local_state w) (\<lambda>_. (s', None))"
    using assms(3-5) unfolding between_def by (intro disjI2 exI [of _ i]) simp
  then have "resting n ?w'" using assms(1) by (intro at_rest_other [where f = "local_state w"]) (simp_all add: two_calls)
  then show ?thesis using assms(2) by (intro exI [of _ ?w']) (auto simp: holds_def fun_eq_iff)
qed

lemma two_round:
  assumes "resting n w" "holds w c a b" "local_state w 0 = (Waiting 0, None)" "local_state w 1 = (Waiting 0, None)"
  shows "\<exists>w'. resting n w' \<and> holds w' c a b \<and> local_state w' 0 = (Draw 1 1 2, None) \<and> local_state w' 1 = (Draw 1 1 2, None)"
proof -
  let ?D = "{..<2 :: nat}" and ?g = "\<lambda>_ :: nat. (Draw 1 1 2, None)"
  let ?w' = "w\<lparr>local_state := \<lambda>j. if j \<in> ?D then ?g j else local_state w j\<rparr>"
  have "\<forall>uid < 2. local_state w uid = (Waiting 0, None)" using assms(3,4) by (simp add: less_2_cases_iff)
  then have "between 2 1 1 two_bank ?D (local_state w) ?g"
    unfolding between_def by (intro disjI1 conjI refl exI [of _ 0]) (simp add: test_after_def two_bank_def)
  then have "resting n ?w'" using assms(1) by (intro at_rest_other [where f = "local_state w"]) (simp_all add: two_calls)
  then show ?thesis using assms(2) by (intro exI [of _ ?w']) (simp add: holds_def)
qed

text \<open>Both workers run \<open>init\<close>; then the first is about to transfer a unit, and the second to sum up.\<close>

lemma two_ready:
  "\<exists>w. resting 4 w \<and> holds w 2 100 100 \<and> local_state w 0 = (Transfer 1 0 2 0 1, None) \<and>
    local_state w 1 = (Control 1 0 2, None)"
proof -
  let ?w = "new_world 0 two_words at_start :: (worker_state, answer) world"
  have zero: "decode (word_at (tm ?w) a) = 0" for a
    by (simp add: new_world_def init_sys_def word_at_def load_bytes_zero)
  have "local_state ?w = at_start" by (simp add: new_world_def)
  then obtain w1 where w1: "resting 1 w1" "local_state w1 = at_start(0 := (InitBalance, None))" "holds w1 2 100 100"
    using two_init_accounts [OF at_rest_new, of 1 0] zero by (auto simp: at_start_def)
  obtain w2 where w2: "resting 2 w2" "local_state w2 = (local_state w1)(1 := (InitBalance, None))" "holds w2 2 100 100"
    using two_init_accounts [OF w1(1), of 2 1] w1(2,3) by (auto simp: at_start_def holds_def)
  obtain w3 where w3: "resting 3 w3" "local_state w3 = (local_state w2)(0 := (Waiting 0, None))" "holds w3 2 100 100"
    using two_init_balance [OF w2(1), of 3 0] w1(2) w2(2,3) by auto
  obtain w4 where w4: "resting 4 w4" "local_state w4 = (local_state w3)(1 := (Waiting 0, None))" "holds w4 2 100 100"
    using two_init_balance [OF w3(1), of 4 1] w2(2) w3(2,3) by auto
  obtain w5 where w5: "resting 4 w5" "holds w5 2 100 100" "local_state w5 0 = (Draw 1 1 2, None)"
    "local_state w5 1 = (Draw 1 1 2, None)"
    using two_round [OF w4(1,3)] w3(2) w4(2) by auto
  obtain w6 where w6: "resting 4 w6" "holds w6 2 100 100" "local_state w6 = (local_state w5)(0 := (Redraw 1 0 2, None))"
    using two_alone [OF w5(1,2) _ w5(3), of "Redraw 1 0 2"] by auto
  obtain w7 where w7: "resting 4 w7" "holds w7 2 100 100" "local_state w7 = (local_state w6)(0 := (Transfer 1 0 2 0 1, None))"
    using two_alone [OF w6(1,2), of 0 "Redraw 1 0 2" "Transfer 1 0 2 0 1"] w6(3) by auto
  obtain w8 where "resting 4 w8" "holds w8 2 100 100" "local_state w8 = (local_state w7)(1 := (Control 1 0 2, None))"
    using two_alone [OF w7(1,2), of 1 "Draw 1 1 2" "Control 1 0 2"] w7(3) w6(3) w5(4) by auto
  then show ?thesis using w7(3) by (intro exI [of _ w8]) simp
qed

section \<open>The torn sum\<close>

definition goes :: "nat \<Rightarrow> (worker_state, answer) world \<Rightarrow> (worker_state, answer) world \<Rightarrow> bool" where
  "goes i w w' \<longleftrightarrow> solo two_grader i w w' \<and> kept i w w'"

lemma goes_trans [trans]: "goes i w w1 \<Longrightarrow> goes i w1 w2 \<Longrightarrow> goes i w w2"
  unfolding goes_def using solo_trans kept_trans by blast

text \<open>The states of the run: both workers in their calls, room for the stamp.\<close>

definition reached :: "(worker_state, answer) world \<Rightarrow> bool" where
  "reached w \<longleftrightarrow> world_reach (\<lambda>w. supported (tm w)) two_grader (new_world 0 two_words at_start) w \<and>
     \<not> terminated w \<and> gv (tm w) \<le> 5"

lemma reached_inv: "reached w \<Longrightarrow> world_inv two_grader w"
  unfolding reached_def using world_reach_simulated [OF _ two_well_behaved] by blast

lemma reached_undisturbed:
  assumes "reached w" "next_call two_grader i (local_state w i) = Some (ro, p)"
  shows "undisturbed two_grader i ro p w" "one_fits (th (tm w) i)"
proof -
  have "calling two_grader i ro p w" "gv (tm w) + 1 < 2 ^ 31" using assms by (simp_all add: calling_def reached_def)
  with world_invD(2,3) [OF reached_inv [OF assms(1)]]
  show "undisturbed two_grader i ro p w" "one_fits (th (tm w) i)" by (blast intro: undisturbedI)+
qed

lemma goes_reached: "goes i w w' \<Longrightarrow> reached w \<Longrightarrow> gv (tm w') \<le> 5 \<Longrightarrow> reached w'"
  unfolding goes_def reached_def using solo_reaches by (auto simp: kept_def)

lemma goes_value:
  assumes ud: "undisturbed two_grader i ro p w" and body: "at_body i (ReadWord a k) x w" and B: "tidy two_words x" "a \<in> two_words"
    and free: "readable (stripes (sh (tm w))) (rv x) a" "write_set x a = None"
    and v: "decode (word_at (tm w) a) = v" "k v = q"
  shows "\<exists>w'. goes i w w' \<and> sh (tm w') = sh (tm w) \<and> undisturbed two_grader i ro p w' \<and>
    at_body i q (noted a x) w' \<and> tidy two_words (noted a x)"
  using solo_value [OF ud body B(1) two_words_ok B(2) free v(1)] undisturbed_kept [OF ud] v(2)
  unfolding goes_def by blast

lemma noted_simps [simp]:
  "is_ro (noted a x) = is_ro x" "rv (noted a x) = rv x" "write_set (noted a x) = write_set x"
  by (simp_all add: noted_def)

lemma reader_sums:
  assumes w: "reached w" "calls w 1 = Outside" "local_state w 1 = (Control 1 0 2, None)" "holds w 2 100 100"
    and free: "\<forall>l. \<not> vl_isLocked (stripes (sh (tm w)) l)"
    and k: "map_prog Summed (long_tx two_bank bank_fuel) = ReadWord 4096 k1" "k1 2 = ReadWord 4112 k2"
    "k2 0 = ReadWord 4120 k3" "k3 100 = ReadWord 4128 k4"
  shows "\<exists>u. goes 1 w u \<and> sh (tm u) = sh (tm w) \<and> undisturbed two_grader 1 True (ReadWord 4096 k1) u \<and>
    at_body 1 (ReadWord 4128 k4) (new_Transaction (gvc (sh (tm w))) True) u \<and> quiet (stripes (sh (tm w))) (gvc (sh (tm w)))"
proof -
  let ?g = "sh (tm w)" and ?p = "map_prog Summed (long_tx two_bank bank_fuel)"
  let ?x = "new_Transaction (gvc ?g) True"
  have call: "next_call two_grader 1 (local_state w 1) = Some (True, ?p)"
    using w(3) by (simp add: two_calls worker_call_def)
  have "calling two_grader 1 True ?p w" "gv (tm w) + 1 < 2 ^ 31" using w(1) call by (simp_all add: calling_def reached_def)
  from solo_begin [OF reached_inv [OF w(1)] this(1) w(2) free this(2)] obtain w1 where
    w1: "goes 1 w w1" "sh (tm w1) = ?g" "undisturbed two_grader 1 True ?p w1" "quiet (stripes ?g) (gvc ?g)" "at_body 1 ?p ?x w1"
    unfolding goes_def by auto
  have quiet: "readable (stripes ?g) (gvc ?g) a" for a by (rule quiet_readable [OF w1(4)])
  have vals: "decode (word_at s 4096) = 2" "decode (word_at s 4112) = 0" "decode (word_at s 4120) = 100" if "sh s = ?g" for s
    using w(4) that by (simp_all add: holds_def word_at_def)
  have mem: "4096 \<in> two_words" "4112 \<in> two_words" "4120 \<in> two_words" by (simp_all add: two_words_def)
  have x: "tidy two_words ?x" "write_set ?x = Map.empty" "rv ?x = gvc ?g" "is_ro ?x"
    by (simp_all add: new_Transaction_def tidy_def)
  then have same: "noted a ?x = ?x" for a by (simp add: noted_def)
  obtain w2 where w2: "goes 1 w1 w2" "sh (tm w2) = ?g" "undisturbed two_grader 1 True ?p w2" "at_body 1 (ReadWord 4112 k2) ?x w2"
    using goes_value [OF w1(3) w1(5) [unfolded k(1)] x(1) mem(1) _ _ vals(1) k(2)] quiet w1(2) x same by auto
  obtain w3 where w3: "goes 1 w2 w3" "sh (tm w3) = ?g" "undisturbed two_grader 1 True ?p w3" "at_body 1 (ReadWord 4120 k3) ?x w3"
    using goes_value [OF w2(3,4) x(1) mem(2) _ _ vals(2) k(3)] quiet w2(2) x same by auto
  obtain w4 where w4: "goes 1 w3 w4" "sh (tm w4) = ?g" "undisturbed two_grader 1 True ?p w4" "at_body 1 (ReadWord 4128 k4) ?x w4"
    using goes_value [OF w3(3,4) x(1) mem(3) _ _ vals(3) k(4)] quiet w3(2) x same by auto
  have "goes 1 w w4" by (rule goes_trans [OF goes_trans [OF w1(1) w2(1)] goes_trans [OF w3(1) w4(1)]])
  then show ?thesis using w4 w1(4) k(1) by auto
qed

text \<open>The second worker sums up, until it has found the stripe of the second account free.\<close>

lemma reader_starts:
  assumes w: "reached w" "calls w 1 = Outside" "local_state w 1 = (Control 1 0 2, None)" "holds w 2 100 100"
    and free: "\<forall>l. \<not> vl_isLocked (stripes (sh (tm w)) l)"
  shows "\<exists>u k k' x. goes 1 w u \<and> sh (tm u) = sh (tm w) \<and> calls u 1 = Reading k \<and> txn (th (tm u) 1) = Some x \<and>
    is_ro x \<and> tidy two_words x \<and> rv x = gvc (sh (tm w)) \<and> buf (th (tm u) 1) = [] \<and>
    pc_at (tm u) 1 = CopyWord 4128 8 0 (vl_getVersion (stripe (sh (tm w)) 4128)) \<and>
    k 101 = ReadWord 4104 k' \<and> k' 0 = final (Inr (Summed (Finished (False, Some 2))))"
proof -
  let ?g = "sh (tm w)" and ?x = "new_Transaction (gvc (sh (tm w))) True"
  obtain k1 k2 k3 k4 k5 where k: "map_prog Summed (long_tx two_bank bank_fuel) = ReadWord 4096 k1" "k1 2 = ReadWord 4112 k2"
    "k2 0 = ReadWord 4120 k3" "k3 100 = ReadWord 4128 k4" "k4 101 = ReadWord 4104 k5"
    "k5 0 = final (Inr (Summed (Finished (False, Some 2))))"
    using two_long by blast
  obtain w4 where w4: "goes 1 w w4" "sh (tm w4) = ?g" "undisturbed two_grader 1 True (ReadWord 4096 k1) w4"
    "at_body 1 (ReadWord 4128 k4) ?x w4" "quiet (stripes ?g) (gvc ?g)"
    using reader_sums [OF assms k(1-4)] by blast
  have quiet: "readable (stripes ?g) (gvc ?g) a" for a by (rule quiet_readable [OF w4(5)])
  have mem: "4128 \<in> two_words" by (simp add: two_words_def)
  have x: "tidy two_words ?x" "write_set ?x = Map.empty" "rv ?x = gvc ?g" "is_ro ?x"
    by (simp_all add: new_Transaction_def tidy_def)
  obtain w5 where w5: "goes 1 w4 w5" "sh (tm w5) = ?g" "calls w5 1 = Reading k4"
    "th (tm w5) 1 = th (tm w4) 1\<lparr>buf := [], pc := PreVersion 4128 8 0\<rparr>"
    using solo_read_call [OF w4(3,4) x(1) two_words_ok mem] w4(2) unfolding goes_def by auto
  let ?t = "th (tm w4) 1\<lparr>buf := []\<rparr>" and ?v = "vl_getVersion (stripe ?g 4128)"
  have t: "txn ?t = Some ?x" using w4(4) by (simp add: at_body_def)
  have ud5: "undisturbed two_grader 1 True (ReadWord 4096 k1) w5"
    using undisturbed_kept [OF w4(3)] w4(2) w5(1,2) unfolding goes_def by auto
  have "tau_run (sh (tm w5), th (tm w5) 1) (sh (tm w5), ?t\<lparr>pc := CopyWord 4128 8 0 ?v\<rparr>)"
    using reader_before_copy [OF t, of ?g 4128 8] quiet x w5(2,4) by simp
  moreover have "one_fits (th (tm w5) 1)" using w5(4) t x(2) by (simp add: one_fits_def)
  ultimately obtain w6 where w6: "goes 1 w5 w6" "sh (tm w6) = ?g" "calls w6 1 = Reading k4"
    "th (tm w6) 1 = ?t\<lparr>pc := CopyWord 4128 8 0 ?v\<rparr>"
    using solo_read_accesses [OF ud5 w5(3)] w5(2) unfolding goes_def by metis
  have "goes 1 w w6" by (rule goes_trans [OF w4(1) goes_trans [OF w5(1) w6(1)]])
  then show ?thesis using w6 t x k(5,6) by (intro exI [of _ w6] exI [of _ k4] exI [of _ k5] exI [of _ ?x]) simp
qed

text \<open>The first worker transfers a unit, until it has written the second account back.\<close>

lemma goes_write:
  assumes ud: "undisturbed two_grader i ro p w" and body: "at_body i (prog.WriteWord a v q) x w"
    and B: "tidy two_words x" "a \<in> two_words" and x: "\<not> is_ro x"
  shows "\<exists>w'. goes i w w' \<and> sh (tm w') = sh (tm w) \<and> undisturbed two_grader i ro p w' \<and>
    at_body i q (x\<lparr>write_set := (write_set x)(a \<mapsto> encode v)\<rparr>) w' \<and>
    tidy two_words (x\<lparr>write_set := (write_set x)(a \<mapsto> encode v)\<rparr>)"
  using solo_write [OF ud body B(1) two_words_ok B(2) x] undisturbed_kept [OF ud] unfolding goes_def by blast

lemma writer_body:
  assumes w: "reached w" "calls w 0 = Outside" "local_state w 0 = (Transfer 1 0 2 0 1, None)" "holds w 2 100 100"
    and free: "\<forall>l. \<not> vl_isLocked (stripes (sh (tm w)) l)"
  shows "\<exists>u y p. goes 0 w u \<and> sh (tm u) = sh (tm w) \<and> undisturbed two_grader 0 False p u \<and> tidy two_words y \<and>
    at_body 0 (final (Inr (Found (Finished True)))) y u \<and> \<not> is_ro y \<and> rv y = gvc (sh (tm w)) \<and>
    write_set y = [4120 \<mapsto> encode 99, 4128 \<mapsto> encode 101]"
proof -
  let ?g = "sh (tm w)" and ?p = "map_prog Found (short_tx two_bank bank_fuel 0 1)"
  let ?x = "new_Transaction (gvc ?g) False"
  obtain k1 k2 k3 where k: "?p = ReadWord 4096 k1" "k1 2 = ReadWord 4120 k2"
    "k2 100 = prog.WriteWord 4120 99 (ReadWord 4128 k3)"
    "k3 100 = prog.WriteWord 4128 101 (final (Inr (Found (Finished True))))"
    using two_short by blast
  have call: "next_call two_grader 0 (local_state w 0) = Some (False, ?p)"
    using w(3) by (simp add: two_calls worker_call_def)
  have "calling two_grader 0 False ?p w" "gv (tm w) + 1 < 2 ^ 31" using w(1) call by (simp_all add: calling_def reached_def)
  from solo_begin [OF reached_inv [OF w(1)] this(1) w(2) free this(2)] obtain w1 where
    w1: "goes 0 w w1" "sh (tm w1) = ?g" "undisturbed two_grader 0 False ?p w1" "quiet (stripes ?g) (gvc ?g)" "at_body 0 ?p ?x w1"
    unfolding goes_def by auto
  have quiet: "readable (stripes ?g) (gvc ?g) a" for a by (rule quiet_readable [OF w1(4)])
  have vals: "decode (word_at s 4096) = 2" "decode (word_at s 4120) = 100" "decode (word_at s 4128) = 100" if "sh s = ?g" for s
    using w(4) that by (simp_all add: holds_def word_at_def)
  have mem: "4096 \<in> two_words" "4120 \<in> two_words" "4128 \<in> two_words" by (simp_all add: two_words_def)
  have x: "tidy two_words ?x" "write_set ?x = Map.empty" "rv ?x = gvc ?g" "\<not> is_ro ?x"
    by (simp_all add: new_Transaction_def tidy_def)
  define x2 where "x2 = noted 4120 (noted 4096 ?x)"
  obtain w2 where w2: "goes 0 w1 w2" "sh (tm w2) = ?g" "undisturbed two_grader 0 False ?p w2"
    "at_body 0 (ReadWord 4120 k2) (noted 4096 ?x) w2" "tidy two_words (noted 4096 ?x)"
    using goes_value [OF w1(3) w1(5) [unfolded k(1)] x(1) mem(1) _ _ vals(1) k(2)] quiet w1(2) x by auto
  obtain w3 where w3: "goes 0 w2 w3" "sh (tm w3) = ?g" "undisturbed two_grader 0 False ?p w3"
    "at_body 0 (prog.WriteWord 4120 99 (ReadWord 4128 k3)) x2 w3" "tidy two_words x2"
    using goes_value [OF w2(3-5) mem(2) _ _ vals(2) k(3)] quiet w2(2) x by (auto simp: x2_def)
  have x2: "\<not> is_ro x2" "write_set x2 = Map.empty" "rv x2 = gvc ?g" using x by (simp_all add: x2_def)
  define x3 where "x3 = x2\<lparr>write_set := [4120 \<mapsto> encode 99]\<rparr>"
  obtain w4 where w4: "goes 0 w3 w4" "sh (tm w4) = ?g" "undisturbed two_grader 0 False ?p w4"
    "at_body 0 (ReadWord 4128 k3) x3 w4" "tidy two_words x3"
    using goes_write [OF w3(3-5) mem(2) x2(1)] w3(2) x2(2) by (auto simp: x3_def)
  have x3: "\<not> is_ro x3" "write_set x3 = [4120 \<mapsto> encode 99]" "rv x3 = gvc ?g" using x2 by (simp_all add: x3_def)
  obtain w5 where w5: "goes 0 w4 w5" "sh (tm w5) = ?g" "undisturbed two_grader 0 False ?p w5"
    "at_body 0 (prog.WriteWord 4128 101 (final (Inr (Found (Finished True))))) (noted 4128 x3) w5" "tidy two_words (noted 4128 x3)"
    using goes_value [OF w4(3-5) mem(3) _ _ vals(3) k(4)] quiet w4(2) x3 by auto
  obtain w6 where w6: "goes 0 w5 w6" "sh (tm w6) = ?g" "undisturbed two_grader 0 False ?p w6"
    "at_body 0 (final (Inr (Found (Finished True)))) ((noted 4128 x3)\<lparr>write_set := [4120 \<mapsto> encode 99, 4128 \<mapsto> encode 101]\<rparr>) w6"
    "tidy two_words ((noted 4128 x3)\<lparr>write_set := [4120 \<mapsto> encode 99, 4128 \<mapsto> encode 101]\<rparr>)"
    using goes_write [OF w5(3-5) mem(3)] w5(2) x3(1,2) by auto
  have "goes 0 w w6" by (rule goes_trans [OF goes_trans [OF w1(1) w2(1)] goes_trans [OF w3(1)
      goes_trans [OF w4(1) goes_trans [OF w5(1) w6(1)]]]])
  then show ?thesis
    using w6(2-5) x3 by (intro exI [of _ w6] exI [of _ "(noted 4128 x3)\<lparr>write_set := [4120 \<mapsto> encode 99, 4128 \<mapsto> encode 101]\<rparr>"]
        exI [of _ ?p]) simp
qed

lemma writer_writes:
  assumes w: "reached w" "calls w 0 = Outside" "local_state w 0 = (Transfer 1 0 2 0 1, None)" "holds w 2 100 100"
    and free: "\<forall>l. \<not> vl_isLocked (stripes (sh (tm w)) l)"
  shows "\<exists>v n y. goes 0 w v \<and> calls v 0 = Ending (Inr (Found (Finished True))) n \<and> txn (th (tm v) 0) = Some y \<and>
    pc_at (tm v) 0 = SetVersion [4128] (gvc (sh (tm w)) + 1) \<and> gvc (sh (tm v)) = gvc (sh (tm w)) + 1 \<and>
    stripes (sh (tm v)) = last_held [4120] 4128 (gvc (sh (tm w)) + 1) (stripes (sh (tm w))) \<and> holds v 2 99 101"
proof -
  let ?g = "sh (tm w)" and ?r = "Inr (Found (Finished True))"
  obtain u y p where u: "goes 0 w u" "sh (tm u) = ?g" "undisturbed two_grader 0 False p u" "tidy two_words y"
    "at_body 0 (final ?r) y u" "\<not> is_ro y" "rv y = gvc ?g" "write_set y = [4120 \<mapsto> encode 99, 4128 \<mapsto> encode 101]"
    using writer_body [OF assms] by blast
  have keys: "distinct ([4120] @ [4128 :: addr])" "set ([4120] @ [4128]) = dom (write_set y)" by (auto simp: u(8))
  have inj: "inj_on lock_index (dom (write_set y))" using tidy_inj [OF u(4) two_words_ok] by simp
  have rv: "rv y = gvc (sh (tm u))" and fr: "\<And>l. \<not> vl_isLocked (stripes (sh (tm u)) l)" using u(2,7) free by simp_all
  obtain v n where v: "goes 0 u v" "calls v 0 = Ending ?r n" "txn (th (tm v) 0) = Some y"
    "pc_at (tm v) 0 = SetVersion [4128] (gvc ?g + 1)" "gvc (sh (tm v)) = gvc ?g + 1" "word_size (sh (tm v)) = 8"
    "stripes (sh (tm v)) = last_held [4120] 4128 (gvc ?g + 1) (stripes ?g)"
    "mem (sh (tm v)) = fold (\<lambda>a m. store_bytes m a (the (write_set y a))) ([4120] @ [4128]) (mem ?g)"
    using solo_end_but_last [OF u(3,5,6) rv fr keys inj] unfolding goes_def u(2) by blast
  have al: "word_aligned 8 a \<and> length (the (write_set y a)) = 8" if "a \<in> set ([4120] @ [4128])" for a
    using that u(8) by (auto simp: word_aligned_def encode_def)
  have "word_at (tm v) a = view 8 (mem ?g) (write_set y) a" if "word_aligned 8 a" for a
    using end_result_words [OF that al keys(2) u(6), of "mem ?g"] v(6,8) u(6) by (simp add: word_at_def visible_def)
  moreover have "word_size ?g = 8" using world_invD(3) [OF reached_inv [OF w(1)]] .
  ultimately have "holds v 2 99 101"
    using w(4) u(8) by (simp add: holds_def view_def word_at_def word_aligned_def)
  moreover have "goes 0 w v" by (rule goes_trans [OF u(1) v(1)])
  ultimately show ?thesis using v by blast
qed

text \<open>The second worker copies the word and loads the version of its stripe before the first worker
  releases the stripe, and the lock bit after that.\<close>

lemma reader_copies_new:
  assumes v: "reached v" "calls v 1 = Reading k" "local_state v 1 = (Control 1 0 2, None)" "holds v c a b"
    and t: "txn (th (tm v) 1) = Some x" "is_ro x" "buf (th (tm v) 1) = []"
    "pc_at (tm v) 1 = CopyWord 4128 8 0 (vl_getVersion (stripe (sh (tm v)) 4128))"
  shows "\<exists>u. goes 1 v u \<and> sh (tm u) = sh (tm v) \<and> calls u 1 = Reading k \<and> txn (th (tm u) 1) = Some x \<and>
    (\<exists>y. buf (th (tm u) 1) = [y] \<and> decode y = b) \<and>
    pc_at (tm u) 1 = PostLocked 4128 8 0 (vl_getVersion (stripe (sh (tm v)) 4128)) (vl_getVersion (stripe (sh (tm v)) 4128))"
proof -
  let ?g = "sh (tm v)" and ?t = "th (tm v) 1"
  obtain t' where t': "tau_run (?g, ?t) (?g, t')" "txn t' = Some x" "buf t' = [load_bytes (mem ?g) 4128 (word_size ?g)]"
    "pc t' = PostLocked 4128 8 0 (vl_getVersion (stripe ?g 4128)) (vl_getVersion (stripe ?g 4128))"
    using reader_copies [OF t(1,2,4), of ?g] t(3) by auto
  have call: "next_call two_grader 1 (local_state v 1) = Some (True, map_prog Summed (long_tx two_bank bank_fuel))"
    using v(3) by (simp add: two_calls worker_call_def)
  note ud = reached_undisturbed [OF v(1) call]
  have "decode (load_bytes (mem ?g) 4128 (word_size ?g)) = b" using v(4) by (simp add: holds_def word_at_def)
  then show ?thesis using solo_read_accesses [OF ud(1) v(2) ud(2) t'(1)] t' unfolding goes_def by metis
qed

lemma reader_accepts_new:
  assumes v: "reached v" "calls v 1 = Reading k" "local_state v 1 = (Control 1 0 2, None)"
    and t: "txn (th (tm v) 1) = Some x" "is_ro x" "buf (th (tm v) 1) = [y]" "pc_at (tm v) 1 = PostLocked 4128 8 0 n n"
    and free: "\<not> vl_isLocked (stripe (sh (tm v)) 4128)" "n \<le> rv x"
  shows "\<exists>u. goes 1 v u \<and> sh (tm u) = sh (tm v) \<and> at_body 1 (k (decode y)) x u"
proof -
  let ?g = "sh (tm v)" and ?t = "th (tm v) 1"
  have ws: "word_size ?g = 8" using world_invD(3) [OF reached_inv [OF v(1)]] .
  have call: "next_call two_grader 1 (local_state v 1) = Some (True, map_prog Summed (long_tx two_bank bank_fuel))"
    using v(3) by (simp add: two_calls worker_call_def)
  note ud = reached_undisturbed [OF v(1) call]
  obtain u where u: "solo two_grader 1 v u" "kept 1 v u" "sh (tm u) = ?g" "calls u 1 = Reading k"
    "th (tm u) 1 = ?t\<lparr>pc := Idle, returned := True\<rparr>"
    using solo_read_accesses [OF ud(1) v(2) ud(2) reader_accepts [OF t(1,2,4) free ws]] by blast
  have "one_fits (th (tm u) 1)" using ud(2) u(5) by (simp add: one_fits_def)
  then obtain w where "solo two_grader 1 u w" "kept 1 u w" "sh (tm w) = sh (tm u)" "at_body 1 (k (decode y)) x w"
    using solo_read_return [OF undisturbed_kept [OF ud(1) u(2,3)] u(4)] u(5) t(1,3) by auto
  then show ?thesis using goes_trans [of 1 v u w] u(1-3) unfolding goes_def by auto
qed

text \<open>With the new balance of the second account and the old one of the first, the sum is not what it
  should be.\<close>

lemma reader_ends:
  assumes v: "reached v" "local_state v 1 = (Control 1 0 2, None)" "holds v 2 99 101"
    and b: "at_body 1 (ReadWord 4104 k) x v" "is_ro x" "tidy two_words x" "k 0 = final (Inr (Summed (Finished (False, Some 2))))"
    and free: "readable (stripes (sh (tm v))) (rv x) 4104" "\<And>l. \<not> vl_isLocked (stripes (sh (tm v)) l)"
  shows "\<exists>w. world_reach (\<lambda>w. supported (tm w)) two_grader (new_world 0 two_words at_start) w \<and>
    calls w = (calls v)(1 := Outside) \<and>
    local_state w = (local_state v)(1 := (Reported 1 run_violation, None))"
proof -
  let ?r = "Inr (Summed (Finished (False, Some 2)))"
  let ?p = "map_prog Summed (long_tx two_bank bank_fuel)"
  have call: "next_call two_grader 1 (local_state v 1) = Some (True, ?p)"
    using v(2) by (simp add: two_calls worker_call_def)
  note ud = reached_undisturbed [OF v(1) call]
  have x: "write_set x = Map.empty" "noted 4104 x = x" using b(2,3) by (simp_all add: tidy_def noted_def)
  have w0: "decode (word_at (tm v) 4104) = 0" "4104 \<in> two_words" using v(3) by (simp_all add: holds_def two_words_def)
  obtain u where u: "goes 1 v u" "sh (tm u) = sh (tm v)" "undisturbed two_grader 1 True ?p u" "at_body 1 (final ?r) x u"
    using goes_value [OF ud(1) b(1,3) w0(2) free(1) _ w0(1) b(4)] x by auto
  have "\<not> vl_isLocked (stripes (sh (tm u)) l)" for l using free(2) u(2) by simp
  then obtain w where w: "solo two_grader 1 u w" "call_done two_grader 1 ?r two_words (store_seen two_words u x) u w"
    using solo_end [OF u(3,4) b(3) two_words_ok] b(2) by blast
  have "solo two_grader 1 v w" and kept: "kept 1 v u" using u(1) solo_trans [OF _ w(1)] unfolding goes_def by blast+
  then have "world_reach (\<lambda>w. supported (tm w)) two_grader (new_world 0 two_words at_start) w"
    using v(1) solo_reaches unfolding reached_def by blast
  moreover have "calls w = (calls v)(1 := Outside)" "local_state w = (local_state v)(1 := (Reported 1 run_violation, None))"
    using w(2) kept v(2) by (auto simp: call_done_def kept_def two_calls worker_got_def fun_eq_iff)
  ultimately show ?thesis by blast
qed

lemma torn_middle:
  obtains v k k' x y n c ls where "reached v" "local_state v 0 = (Transfer 1 0 2 0 1, None)"
    "local_state v 1 = (Control 1 0 2, None)" "\<forall>i. i \<noteq> 0 \<longrightarrow> i \<noteq> 1 \<longrightarrow> calls v i = Outside" "holds v 2 99 101"
    "calls v 0 = Ending (Inr (Found (Finished True))) n" "txn (th (tm v) 0) = Some y" "pc_at (tm v) 0 = SetVersion [4128] (c + 1)"
    "calls v 1 = Reading k" "txn (th (tm v) 1) = Some x" "is_ro x" "tidy two_words x" "rv x = c" "buf (th (tm v) 1) = []"
    "pc_at (tm v) 1 = CopyWord 4128 8 0 (vl_getVersion (ls (lock_index 4128)))" "quiet ls c"
    "stripes (sh (tm v)) = last_held [4120] 4128 (c + 1) ls"
    "k 101 = ReadWord 4104 k'" "k' 0 = final (Inr (Summed (Finished (False, Some 2))))"
proof -
  obtain w where w: "resting 4 w" "holds w 2 100 100" "local_state w 0 = (Transfer 1 0 2 0 1, None)"
    "local_state w 1 = (Control 1 0 2, None)"
    using two_ready by blast
  let ?ls = "stripes (sh (tm w))" and ?c = "gvc (sh (tm w))" and ?r = "Inr (Found (Finished True))"
  have rw: "reached w" and out: "\<And>i. calls w i = Outside" and free: "\<And>l. \<not> vl_isLocked (?ls l)" and small: "unat ?c \<le> 4"
    using w(1) by (simp_all add: at_rest_def reached_def gv_def)
  have quiet: "quiet ?ls ?c"
    using world_invD(1) [OF reached_inv [OF rw]] free by (simp add: tl2_inv_def locks_ok_def quiet_def ver_def gv_def)
  obtain u k k' x where u: "goes 1 w u" "sh (tm u) = sh (tm w)" "calls u 1 = Reading k" "txn (th (tm u) 1) = Some x" "is_ro x"
    "tidy two_words x" "rv x = ?c" "buf (th (tm u) 1) = []" "pc_at (tm u) 1 = CopyWord 4128 8 0 (vl_getVersion (?ls (lock_index 4128)))"
    "k 101 = ReadWord 4104 k'" "k' 0 = final (Inr (Summed (Finished (False, Some 2))))"
    using reader_starts [OF rw out w(4,2)] free by blast
  have ku: "local_state u = local_state w" "calls u 0 = Outside" "holds u 2 100 100" "\<forall>l. \<not> vl_isLocked (stripes (sh (tm u)) l)"
    using u(1,2) out free w(2) by (simp_all add: goes_def kept_def holds_def word_at_def)
  have ru: "reached u" using goes_reached [OF u(1) rw] u(2) small by (simp add: gv_def)
  obtain v n y where v: "goes 0 u v" "calls v 0 = Ending ?r n" "txn (th (tm v) 0) = Some y" "pc_at (tm v) 0 = SetVersion [4128] (?c + 1)"
    "gvc (sh (tm v)) = ?c + 1" "stripes (sh (tm v)) = last_held [4120] 4128 (?c + 1) ?ls" "holds v 2 99 101"
    using writer_writes [OF ru ku(2) _ ku(3,4)] ku(1) w(3) u(2) by auto
  have "unat (?c + 1) \<le> 5" using small by (simp add: unat_word_ariths)
  then have "reached v" using goes_reached [OF v(1) ru] v(5) by (simp add: gv_def)
  moreover have "calls v i = calls u i" "th (tm v) i = th (tm u) i" if "i \<noteq> 0" for i
    using v(1) that by (simp_all add: goes_def kept_def)
  moreover have "local_state v = local_state w" using v(1) ku(1) by (simp add: goes_def kept_def)
  moreover have "calls u i = Outside" if "i \<noteq> 1" for i using u(1) out that by (simp add: goes_def kept_def)
  ultimately show ?thesis
    by (intro that [of v n y ?c k x ?ls k']) (use u(3-11) v(2-7) w(3,4) quiet in simp_all)
qed

text \<open>The first worker releases the stripe, and its call returns.\<close>

lemma writer_ends:
  assumes u: "reached u" "local_state u 0 = (Transfer 1 0 2 0 1, None)" "calls u 0 = Ending (Inr (Found (Finished True))) n"
    and t: "txn (th (tm u) 0) = Some y" "pc_at (tm u) 0 = SetVersion [a] wv"
  shows "\<exists>w. reached w \<and> calls w = (calls u)(0 := Outside) \<and> local_state w = (local_state u)(0 := (Draw 1 0 2, None)) \<and>
    th (tm w) 1 = th (tm u) 1 \<and>
    sh (tm w) = sh (tm u)\<lparr>stripes := (stripes (sh (tm u)))(lock_index a := vl_setVersion wv)\<rparr>"
proof -
  have call: "next_call two_grader 0 (local_state u 0) = Some (False, map_prog Found (short_tx two_bank bank_fuel 0 1))"
    using u(2) by (simp add: two_calls worker_call_def)
  note ud = reached_undisturbed [OF u(1) call]
  obtain w where w: "solo two_grader 0 u w" "calls w = (calls u)(0 := Outside)" "terminated w = terminated u"
    "local_state w = (local_state u)(0 := got two_grader 0 (local_state u 0) (Inr (Found (Finished True))))"
    "th (tm w) 1 = th (tm u) 1"
    "sh (tm w) = sh (tm u)\<lparr>stripes := (stripes (sh (tm u)))(lock_index a := vl_setVersion wv)\<rparr>"
    using solo_end_last [OF ud(1) u(3) t ud(2)] by fastforce
  have "world_reach (\<lambda>w. supported (tm w)) two_grader (new_world 0 two_words at_start) w"
    using solo_reaches [OF _ w(1)] u(1) unfolding reached_def by blast
  then have "reached w" using u(1) w(3,6) by (simp add: reached_def gv_def)
  then show ?thesis using w u(2) by (intro exI [of _ w]) (simp add: two_calls worker_got_def)
qed

lemma torn_run:
  "\<exists>w. world_reach (\<lambda>w. supported (tm w)) two_grader (new_world 0 two_words at_start) w \<and>
    local_state w 0 = (Draw 1 0 2, None) \<and> local_state w 1 = (Reported 1 run_violation, None) \<and> (\<forall>i. calls w i = Outside)"
proof -
  let ?r = "Inr (Found (Finished True))"
  obtain v k k' x y n c ls where v: "reached v" "local_state v 0 = (Transfer 1 0 2 0 1, None)"
    "local_state v 1 = (Control 1 0 2, None)" "\<forall>i. i \<noteq> 0 \<longrightarrow> i \<noteq> 1 \<longrightarrow> calls v i = Outside" "holds v 2 99 101"
    "calls v 0 = Ending ?r n" "txn (th (tm v) 0) = Some y" "pc_at (tm v) 0 = SetVersion [4128] (c + 1)"
    and r: "calls v 1 = Reading k" "txn (th (tm v) 1) = Some x" "is_ro x" "tidy two_words x" "rv x = c" "buf (th (tm v) 1) = []"
    "pc_at (tm v) 1 = CopyWord 4128 8 0 (vl_getVersion (ls (lock_index 4128)))"
    and ls: "quiet ls c" "stripes (sh (tm v)) = last_held [4120] 4128 (c + 1) ls"
    and k: "k 101 = ReadWord 4104 k'" "k' 0 = final (Inr (Summed (Finished (False, Some 2))))"
    by (rule torn_middle)
  have stripe: "lock_index 4120 \<noteq> lock_index 4128" "lock_index 4104 \<noteq> lock_index 4120" "lock_index 4104 \<noteq> lock_index 4128"
    by (simp_all add: lock_index_def NUM_LOCKS_def)
  then have ver: "vl_getVersion (stripe (sh (tm v)) 4128) = vl_getVersion (ls (lock_index 4128))"
    by (simp add: ls(2) last_held_def vl_acquired_facts)
  obtain u where u: "goes 1 v u" "sh (tm u) = sh (tm v)" "calls u 1 = Reading k" "txn (th (tm u) 1) = Some x"
    "\<exists>y. buf (th (tm u) 1) = [y] \<and> decode y = 101"
    "pc_at (tm u) 1 = PostLocked 4128 8 0 (vl_getVersion (ls (lock_index 4128))) (vl_getVersion (ls (lock_index 4128)))"
    using reader_copies_new [OF v(1) r(1) v(3,5) r(2,3,6)] r(7) ver by metis
  have ku: "local_state u = local_state v" "calls u 0 = Ending ?r n" "th (tm u) 0 = th (tm v) 0"
    "\<forall>i. i \<noteq> 0 \<longrightarrow> i \<noteq> 1 \<longrightarrow> calls u i = Outside"
    using u(1) v(4,6) by (simp_all add: goes_def kept_def)
  have "reached u" using goes_reached [OF u(1) v(1)] u(2) v(1) by (simp add: reached_def gv_def)
  then obtain w where rw: "reached w" and w: "calls w = (calls u)(0 := Outside)"
    "local_state w = (local_state u)(0 := (Draw 1 0 2, None))" "th (tm w) 1 = th (tm u) 1"
    "sh (tm w) = sh (tm u)\<lparr>stripes := (stripes (sh (tm u)))(lock_index 4128 := vl_setVersion (c + 1))\<rparr>"
    using writer_ends [of u n y 4128 "c + 1"] v(2,7,8) ku(1-3) by auto
  have kw: "local_state w = (local_state v)(0 := (Draw 1 0 2, None))" "calls w 1 = Reading k" "holds w 2 99 101"
    using w(1,2,4) ku(1) u(2,3) v(5) by (simp_all add: holds_def word_at_def)
  have free: "\<not> vl_isLocked (stripes (sh (tm w)) l)" for l
    using ls(1) by (simp add: w(4) u(2) ls(2) last_held_def quiet_def)
  have "vl_getVersion (ls (lock_index 4128)) \<le> rv x" using quiet_readable [OF ls(1), of 4128] r(5) by (simp add: readable_def)
  then obtain z where z: "goes 1 w z" "sh (tm z) = sh (tm w)" "at_body 1 (ReadWord 4104 k') x z"
    using reader_accepts_new [OF rw kw(2)] u(4-6) w(3) kw(1) v(3) r(3) free k(1) by force
  have kz: "local_state z = local_state w" "\<forall>i. i \<noteq> 1 \<longrightarrow> calls z i = calls w i" using z(1) by (simp_all add: goes_def kept_def)
  have "reached z" using goes_reached [OF z(1) rw] z(2) rw by (simp add: reached_def gv_def)
  moreover have "readable (stripes (sh (tm z))) (rv x) 4104"
    using quiet_readable [OF ls(1), of 4104] stripe r(5) by (simp add: z(2) w(4) u(2) ls(2) last_held_def readable_def)
  moreover have "holds z 2 99 101" using kw(3) z(2) by (simp add: holds_def word_at_def)
  ultimately obtain e where e: "world_reach (\<lambda>w. supported (tm w)) two_grader (new_world 0 two_words at_start) e"
    "calls e = (calls z)(1 := Outside)" "local_state e = (local_state z)(1 := (Reported 1 run_violation, None))"
    using reader_ends [of z k' x] z(3) r(3,4) k(2) free z(2) kz(1) kw(1) v(3) by auto
  have "calls e i = Outside" for i
    using e(2) kz(2) w(1) ku(4) by (cases "i = 0"; cases "i = 1") auto
  then show ?thesis using e kz(1) kw(1) by (intro exI [of _ e]) simp
qed

section \<open>The theorem\<close>

text \<open>C8: a false alarm. With two workers, a bank of two accounts and one transaction each, there is a run of
  the grader over the library of \<open>394984/tm.cpp\<close> at the end of which a worker has reported a violation of
  isolation or atomicity from \<open>run\<close>, though the bank in memory is sound, with every unit of money
  accounted for and no balance negative: the balances its read-only transaction summed up never were
  in memory together.\<close>

theorem torn_sum_reported:
  "\<exists>w. world_reach (\<lambda>w. supported (tm w)) (grader_workers 2 1 1 two_bank)
      (new_world 0 (words_at two_bank (bank_start two_bank)) at_start) w \<and>
    fst (local_state w 1) = Reported 1 run_violation \<and> (\<forall>i. calls w i = Outside) \<and> bank_in_memory two_bank (tm w)"
proof -
  obtain w where w: "world_reach (\<lambda>w. supported (tm w)) two_grader (new_world 0 two_words at_start) w"
    "local_state w 0 = (Draw 1 0 2, None)" "local_state w 1 = (Reported 1 run_violation, None)" "\<forall>i. calls w i = Outside"
    using torn_run by blast
  have "world_inv two_grader w" using world_reach_simulated [OF w(1) two_well_behaved] by blast
  then have "\<forall>i. \<not> decided (pc_at (tm w) i)" using outside_idle w(4) by fastforce
  then have "bank_in_memory two_bank (tm w)"
    using grader_bank [OF w(1) [folded two_bank_words] two_bank_sizes, of 0] w(2) by simp
  then show ?thesis using w unfolding two_bank_words by force
qed

end
