(* ===== verification/Wide_Calls.thy ===== *)
theory Wide_Calls
  imports TM_Semantics
begin

text \<open>
  Calls of \<open>tm_read\<close> and \<open>tm_write\<close> (\<open>394984/tm.cpp\<close>) for more than one word: their loops go through the
  range word by word, so a call can be split in two anywhere between words.
\<close>

section \<open>The loops\<close>

lemma read_ro_loop_shift:
  "read_ro_loop w ls x source target (m + n) (m + i) M =
    read_ro_loop w ls x (source + of_nat m) (target + of_nat m) n i M"
proof (induction "n - i" arbitrary: i M rule: less_induct)
  case less
  show ?case
    using less [of "i + w"]
    by (subst (1 2) read_ro_loop.simps) (auto simp: Let_def add.assoc diff_less_mono2)
qed

lemma read_rw_loop_shift:
  "read_rw_loop w ls x source target (m + n) (m + i) M =
    read_rw_loop w ls x (source + of_nat m) (target + of_nat m) n i M"
proof (induction "n - i" arbitrary: i x M rule: less_induct)
  case less
  show ?case
    using less [of "i + w"]
    by (subst (1 2) read_rw_loop.simps) (auto simp: Let_def add.assoc diff_less_mono2)
qed

lemma write_words_shift:
  "write_words ok M w source target (m + n) (m + i) ws =
    write_words (\<lambda>k. ok (m + k)) M w (source + of_nat m) (target + of_nat m) n i ws"
proof (induction "n - i" arbitrary: i ws rule: less_induct)
  case less
  show ?case
    using less [of "i + w"]
    by (subst (1 2) write_words.simps) (auto simp: Let_def add.assoc diff_less_mono2)
qed

text \<open>A loop over the longer range is at the end of the shorter one when it stops there.\<close>

lemma dvd_step: "w dvd m - i \<Longrightarrow> 0 < w \<Longrightarrow> i < m \<Longrightarrow> i + w \<le> m \<and> w dvd m - (i + w)" for m :: nat
  using dvd_imp_le [of w "m - i"] dvd_diff_nat [of w "m - i" w] by simp

lemma read_ro_loop_prefix:
  assumes "0 < w" "i \<le> m" "w dvd m - i"
  shows "read_ro_loop w ls x source target (m + n) i M =
    (case read_ro_loop w ls x source target m i M of (ok, x, M) \<Rightarrow>
       if ok then read_ro_loop w ls x source target (m + n) m M else (False, x, M))"
  using assms(2,3)
proof (induction "m - i" arbitrary: i M rule: less_induct)
  case less
  show ?case
  proof (cases "i < m")
    case True
    note d = dvd_step [OF less.prems(2) assms(1) True]
    have lt: "m - (i + w) < m - i" using True assms(1) by (simp add: diff_less_mono2)
    have IH: "read_ro_loop w ls x source target (m + n) (i + w) M =
      (case read_ro_loop w ls x source target m (i + w) M of (ok, x, M) \<Rightarrow>
         if ok then read_ro_loop w ls x source target (m + n) m M else (False, x, M))" for M
      using less.hyps [OF lt] d by simp
    show ?thesis using True assms(1)
      by (subst read_ro_loop.simps, subst (2) read_ro_loop.simps) (simp add: Let_def IH split: prod.split)
  next
    case False
    then show ?thesis using less.prems(1) by (subst (2) read_ro_loop.simps) simp
  qed
qed

lemma read_rw_loop_prefix:
  assumes "0 < w" "i \<le> m" "w dvd m - i"
  shows "read_rw_loop w ls x source target (m + n) i M =
    (case read_rw_loop w ls x source target m i M of (ok, x, M) \<Rightarrow>
       if ok then read_rw_loop w ls x source target (m + n) m M else (False, x, M))"
  using assms(2,3)
proof (induction "m - i" arbitrary: i x M rule: less_induct)
  case less
  show ?case
  proof (cases "i < m")
    case True
    note d = dvd_step [OF less.prems(2) assms(1) True]
    have lt: "m - (i + w) < m - i" using True assms(1) by (simp add: diff_less_mono2)
    have IH: "read_rw_loop w ls x source target (m + n) (i + w) M =
      (case read_rw_loop w ls x source target m (i + w) M of (ok, x, M) \<Rightarrow>
         if ok then read_rw_loop w ls x source target (m + n) m M else (False, x, M))" for x M
      using less.hyps [OF lt] d by simp
    show ?thesis using True assms(1)
      by (subst read_rw_loop.simps, subst (2) read_rw_loop.simps) (simp add: Let_def IH split: prod.split)
  next
    case False
    then show ?thesis using less.prems(1) by (subst (2) read_rw_loop.simps) simp
  qed
qed

lemma write_words_prefix:
  assumes "0 < w" "i \<le> m" "w dvd m - i"
  shows "write_words ok M w source target (m + n) i ws =
    and_then (write_words ok M w source target m i ws) (\<lambda>ws. write_words ok M w source target (m + n) m ws)"
  using assms(2,3)
proof (induction "m - i" arbitrary: i ws rule: less_induct)
  case less
  show ?case
  proof (cases "i < m")
    case True
    note d = dvd_step [OF less.prems(2) assms(1) True]
    have lt: "m - (i + w) < m - i" using True assms(1) by (simp add: diff_less_mono2)
    have IH: "write_words ok M w source target (m + n) (i + w) ws =
      and_then (write_words ok M w source target m (i + w) ws) (\<lambda>ws. write_words ok M w source target (m + n) m ws)" for ws
      using less.hyps [OF lt] d by simp
    show ?thesis using True assms(1)
      by (subst write_words.simps, subst (2) write_words.simps) (simp add: new_WriteOperation_def IH)
  next
    case False
    then show ?thesis using less.prems(1) by (subst (2) write_words.simps) simp
  qed
qed

lemma read_loops_split:
  assumes "0 < w" "w dvd m"
  shows "read_ro_loop w ls x source target (m + n) 0 M =
      (case read_ro_loop w ls x source target m 0 M of (ok, x, M) \<Rightarrow>
         if ok then read_ro_loop w ls x (source + of_nat m) (target + of_nat m) n 0 M else (False, x, M))"
    and "read_rw_loop w ls x source target (m + n) 0 M =
      (case read_rw_loop w ls x source target m 0 M of (ok, x, M) \<Rightarrow>
         if ok then read_rw_loop w ls x (source + of_nat m) (target + of_nat m) n 0 M else (False, x, M))"
  using assms read_ro_loop_shift [of w ls _ source target m n 0] read_rw_loop_shift [of w ls _ source target m n 0]
  by (simp_all add: read_ro_loop_prefix [of w 0 m] read_rw_loop_prefix [of w 0 m] split: prod.split)

lemma write_words_split:
  assumes "0 < w" "w dvd m"
  shows "write_words ok M w source target (m + n) 0 ws = and_then (write_words ok M w source target m 0 ws)
    (\<lambda>ws. write_words (\<lambda>k. ok (m + k)) M w (source + of_nat m) (target + of_nat m) n 0 ws)"
  using assms write_words_shift [of ok M w source target m n 0] by (simp add: write_words_prefix [of w 0 m])

lemma read_ro_loop_txn: "read_ro_loop w ls x source target sz i M = (ok, x', M') \<Longrightarrow> x' = x"
proof (induction w ls x source target sz i M rule: read_ro_loop.induct)
  case (1 w ls x source target sz i M)
  then show ?case
    by (subst (asm) (2) read_ro_loop.simps) (auto simp: Let_def split: if_splits)
qed

lemma read_rw_loop_mode: "read_rw_loop w ls x source target sz i M = (ok, x', M') \<Longrightarrow> is_ro x' = is_ro x"
proof (induction w ls x source target sz i M rule: read_rw_loop.induct)
  case (1 w ls x source target sz i M)
  then show ?case
    by (subst (asm) (2) read_rw_loop.simps) (auto simp: Let_def split: if_splits)
qed

lemma put_txn_twice [simp]: "put_txn tx y (put_txn tx x h) = put_txn tx y h"
  by (simp add: put_txn_def)

lemma handles_put_txn [simp]:
  "the_txn (put_txn tx x h) tx = Inr x" "the_region (put_txn tx x h) sh = the_region h sh"
  "the_locks (put_txn tx x h) region = the_locks h region" "mem (put_txn tx x h) = mem h"
  "tm_align sh (put_txn tx x h) = tm_align sh h" "(put_txn tx x h)\<lparr>mem := M\<rparr> = put_txn tx x (h\<lparr>mem := M\<rparr>)"
  "the_region (h\<lparr>mem := M\<rparr>) sh = the_region h sh" "the_locks (h\<lparr>mem := M\<rparr>) region = the_locks h region"
  by (simp_all add: put_txn_def the_txn_def the_region_def the_locks_def tm_align_def)

text \<open>C13: a call of \<open>tm_read\<close> or \<open>tm_write\<close> for a range is the call for its first words followed by the
  call for the others, with the same result, the same effect on the private buffer, the transaction
  and the rest of the heap, and the same faults; the second call is made only if the first
  succeeded. So an access to an object of several words is the sequence of accesses to its words.\<close>

theorem calls_go_by_words:
  assumes "tm_align shared h = Inr w" "0 < w" "w dvd m"
  shows "tm_read shared tx source (m + n) target h =
      and_then (tm_read shared tx source m target h) (\<lambda>(ok, h1).
        if ok then tm_read shared tx (source + of_nat m) n (target + of_nat m) h1 else Inr (False, h1)) \<and>
    tm_write alloc_ok shared tx source (m + n) target h =
      and_then (tm_write alloc_ok shared tx source m target h) (\<lambda>(ok, h1).
        tm_write (\<lambda>k. alloc_ok (m + k)) shared tx (source + of_nat m) n (target + of_nat m) h1)"
proof -
  obtain region where r: "the_region h shared = Inr region" "align region = w"
    using assms(1) by (auto simp: tm_align_def and_then_Inr)
  have "tm_write alloc_ok shared tx source (m + n) target h =
      and_then (tm_write alloc_ok shared tx source m target h) (\<lambda>(ok, h1).
        tm_write (\<lambda>k. alloc_ok (m + k)) shared tx (source + of_nat m) n (target + of_nat m) h1)"
    using assms(1)
    by (cases "the_txn h tx"; cases "write_words alloc_ok (mem h) w source target m 0 (write_set (projr (the_txn h tx)))")
      (simp_all add: tm_write_def write_words_split [OF assms(2,3)])
  moreover have "tm_read shared tx source (m + n) target h =
      and_then (tm_read shared tx source m target h) (\<lambda>(ok, h1).
        if ok then tm_read shared tx (source + of_nat m) n (target + of_nat m) h1 else Inr (False, h1))"
  proof (cases "the_txn h tx"; cases "the_locks h region")
    fix x ls
    assume h: "the_txn h tx = Inr x" "the_locks h region = Inr ls"
    let ?loop = "if is_ro x then read_ro_loop else read_rw_loop"
    obtain ok x1 M where l: "?loop w ls x source target m 0 (mem h) = (ok, x1, M)" by (metis prod_cases3)
    have ro: "is_ro x1 = is_ro x"
      using l read_ro_loop_txn [of w ls x source target m 0 "mem h"] read_rw_loop_mode [of w ls x source target m 0 "mem h"]
      by (cases "is_ro x") auto
    have "?loop w ls x source target (m + n) 0 (mem h) =
      (if ok then ?loop w ls x1 (source + of_nat m) (target + of_nat m) n 0 M else (False, x1, M))"
      using l by (cases "is_ro x") (simp_all add: read_loops_split [OF assms(2,3)])
    then show ?thesis
      using r h l ro by (cases ok) (simp_all add: tm_read_def Let_def give_up_def and_then_def split: prod.split sum.split)
  qed (simp_all add: tm_read_def r)
  ultimately show ?thesis by blast
qed

theorem calls_go_by_words_witness:
  "\<exists>h1 h2. tm_read 16 48 4096 8 8192 demo_txn = Inr (True, h1) \<and>
     tm_read 16 48 4104 8 8200 h1 = Inr (True, h2) \<and> tm_read 16 48 4096 16 8192 demo_txn = Inr (True, h2)"
proof -
  have al: "tm_align 16 demo_txn = Inr 8" using demo_txn_live by (simp add: tm_align_def the_region_def live_in_def)
  have all: "all_readable 8 (\<lambda>_. vl_new) (new_Transaction 0 False) a n" for a n by (simp add: demo_readable)
  have r: "\<exists>h. tm_read 16 48 4096 n 8192 demo_txn = Inr (True, h)" for n
    using tm_read_result [OF demo_txn_live, where source = 4096 and sz = n and target = 8192] all by simp
  then obtain h1 h where h: "tm_read 16 48 4096 8 8192 demo_txn = Inr (True, h1)"
    "tm_read 16 48 4096 16 8192 demo_txn = Inr (True, h)"
    by blast
  have "tm_read 16 48 4096 (8 + 8) 8192 demo_txn = tm_read 16 48 (4096 + of_nat 8) 8 (8192 + of_nat 8) h1"
    using calls_go_by_words [OF al, where m = 8 and n = 8 and tx = 48 and source = 4096 and target = 8192] h(1)
    by simp
  then have "tm_read 16 48 4104 8 8200 h1 = Inr (True, h)" using h(2) by simp
  then show ?thesis using h by blast
qed

end
