(* ===== verification/Shared_Objects.thy ===== *)
theory Shared_Objects
  imports Client_Theorems
begin

text \<open>
  The \<open>Shared\<close> templates of \<open>grading/transactional.hpp\<close> for objects of any size, with the safety checks
  of assert mode as a parameter: objects, pointers, arrays without and with a bound. The templates of
  \<open>TM_Client\<close>, which the workloads use, are the instances for objects of one word with the checks
  compiled out. An access to an object is one call of the library; it is the sequence of the
  accesses to the words of the object (\<open>calls_go_by_words\<close>).
\<close>

section \<open>Types\<close>

text \<open>
  \<open>sizeof\<close> in words, \<open>alignof\<close> in bytes, and the representation of the values of a type. Types whose
  size is not a multiple of 8 bytes are not covered.
\<close>

record 'v object_type =
  type_words :: nat
  type_align :: nat
  to_words :: "'v \<Rightarrow> 64 word list"
  of_words :: "64 word list \<Rightarrow> 'v"

abbreviation size_of :: "('v, 'x) object_type_scheme \<Rightarrow> 64 word" where
  "size_of T \<equiv> of_nat (8 * type_words T)"

fun read_words :: "addr \<Rightarrow> nat \<Rightarrow> (64 word list \<Rightarrow> 'a prog) \<Rightarrow> 'a prog" where
  "read_words a 0 k = k []"
| "read_words a (Suc n) k = ReadWord a (\<lambda>v. read_words (a + 8) n (\<lambda>vs. k (v # vs)))"

fun write_words_to :: "addr \<Rightarrow> 64 word list \<Rightarrow> 'a prog \<Rightarrow> 'a prog" where
  "write_words_to a [] k = k"
| "write_words_to a (v # vs) k = WriteWord a v (write_words_to (a + 8) vs k)"

section \<open>Shared<Type>\<close>

text \<open>\<open>asserts\<close> is \<open>assert_mode\<close>, \<open>al\<close> the alignment of the bound memory.\<close>

definition object_bind :: "bool \<Rightarrow> nat \<Rightarrow> 'v object_type \<Rightarrow> addr \<Rightarrow> (addr \<Rightarrow> 'a prog) \<Rightarrow> 'a prog" where
  "object_bind asserts al T address k =
     (if asserts \<and> unat address mod al \<noteq> 0 then Throw SharedAlign
      else if asserts \<and> unat address mod type_align T \<noteq> 0 then Throw SharedAlign
      else k address)"

definition object_read :: "'v object_type \<Rightarrow> addr \<Rightarrow> ('v \<Rightarrow> 'a prog) \<Rightarrow> 'a prog" where
  "object_read T address k = read_words address (type_words T) (\<lambda>vs. k (of_words T vs))"

definition object_write :: "'v object_type \<Rightarrow> addr \<Rightarrow> 'v \<Rightarrow> 'a prog \<Rightarrow> 'a prog" where
  "object_write T address source k = write_words_to address (to_words T source) k"

definition object_after :: "'v object_type \<Rightarrow> addr \<Rightarrow> addr" where
  "object_after T address = address + size_of T"

section \<open>Shared<Type*>\<close>

text \<open>Pointers are words; \<open>alignof(Type*)\<close> is 8.\<close>

definition pointer_bind :: "bool \<Rightarrow> nat \<Rightarrow> addr \<Rightarrow> (addr \<Rightarrow> 'a prog) \<Rightarrow> 'a prog" where
  "pointer_bind asserts al address k =
     (if asserts \<and> unat address mod al \<noteq> 0 then Throw SharedAlign
      else if asserts \<and> unat address mod 8 \<noteq> 0 then Throw SharedAlign
      else k address)"

definition pointer_read :: "addr \<Rightarrow> (addr \<Rightarrow> 'a prog) \<Rightarrow> 'a prog" where
  "pointer_read address k = ReadWord address k"

definition pointer_write :: "addr \<Rightarrow> addr \<Rightarrow> 'a prog \<Rightarrow> 'a prog" where
  "pointer_write address source k = WriteWord address source k"

definition pointer_alloc :: "bool \<Rightarrow> 'v object_type \<Rightarrow> addr \<Rightarrow> nat \<Rightarrow> (addr \<Rightarrow> 'a prog) \<Rightarrow> 'a prog" where
  "pointer_alloc asserts T address sz k =
     (let body = AllocSeg (if sz > 0 then sz else 8 * type_words T) (\<lambda>p. pointer_write address p (k p))
      in if asserts then pointer_read address (\<lambda>p. if p \<noteq> 0 then Throw SharedDoubleAlloc else body) else body)"

definition pointer_free :: "bool \<Rightarrow> addr \<Rightarrow> 'a prog \<Rightarrow> 'a prog" where
  "pointer_free asserts address k =
     (let body = pointer_read address (\<lambda>p. FreeSeg p (pointer_write address 0 k))
      in if asserts then pointer_read address (\<lambda>p. if p = 0 then Throw SharedDoubleFree else body) else body)"

definition pointer_after :: "addr \<Rightarrow> addr" where
  "pointer_after address = address + 8"

section \<open>Shared<Type[]> and Shared<Type[n]>\<close>

text \<open>
  \<open>address + index\<close> counts in objects. The member functions \<open>write\<close> of the arrays hand the transaction
  to \<open>Transaction::write\<close> as an argument it does not have; they are not instantiated, elements are
  assigned through \<open>operator[]\<close>.
\<close>

definition element_addr :: "'v object_type \<Rightarrow> addr \<Rightarrow> 64 word \<Rightarrow> addr" where
  "element_addr T address index = address + size_of T * index"

definition elements_bind :: "bool \<Rightarrow> nat \<Rightarrow> 'v object_type \<Rightarrow> addr \<Rightarrow> (addr \<Rightarrow> 'a prog) \<Rightarrow> 'a prog" where
  "elements_bind asserts al T address k =
     (if asserts \<and> unat address mod al \<noteq> 0 then Throw SharedAlign
      else if asserts \<and> unat address mod type_align T \<noteq> 0 then Throw SharedAlign
      else k address)"

definition elements_read :: "'v object_type \<Rightarrow> addr \<Rightarrow> 64 word \<Rightarrow> ('v \<Rightarrow> 'a prog) \<Rightarrow> 'a prog" where
  "elements_read T address index k =
     read_words (element_addr T address index) (type_words T) (\<lambda>vs. k (of_words T vs))"

definition elements_index ::
  "bool \<Rightarrow> nat \<Rightarrow> 'v object_type \<Rightarrow> addr \<Rightarrow> 64 word \<Rightarrow> (addr \<Rightarrow> 'a prog) \<Rightarrow> 'a prog" where
  "elements_index asserts al T address index k = object_bind asserts al T (element_addr T address index) k"

definition elements_after :: "'v object_type \<Rightarrow> addr \<Rightarrow> 64 word \<Rightarrow> addr" where
  "elements_after T address len = address + size_of T * len"

definition table_bind :: "bool \<Rightarrow> nat \<Rightarrow> 'v object_type \<Rightarrow> addr \<Rightarrow> (addr \<Rightarrow> 'a prog) \<Rightarrow> 'a prog" where
  "table_bind asserts al T address k =
     (if asserts \<and> unat address mod al \<noteq> 0 then Throw SharedAlign
      else if asserts \<and> unat address mod type_align T \<noteq> 0 then Throw SharedAlign
      else k address)"

definition table_read ::
  "bool \<Rightarrow> 'v object_type \<Rightarrow> 64 word \<Rightarrow> addr \<Rightarrow> 64 word \<Rightarrow> ('v \<Rightarrow> 'a prog) \<Rightarrow> 'a prog" where
  "table_read asserts T n address index k =
     (if asserts \<and> index \<ge> n then Throw SharedOverflow
      else read_words (element_addr T address index) (type_words T) (\<lambda>vs. k (of_words T vs)))"

definition table_index ::
  "bool \<Rightarrow> nat \<Rightarrow> 'v object_type \<Rightarrow> 64 word \<Rightarrow> addr \<Rightarrow> 64 word \<Rightarrow> (addr \<Rightarrow> 'a prog) \<Rightarrow> 'a prog" where
  "table_index asserts al T n address index k =
     (if asserts \<and> index \<ge> n then Throw SharedOverflow
      else object_bind asserts al T (element_addr T address index) k)"

definition table_after :: "'v object_type \<Rightarrow> 64 word \<Rightarrow> addr \<Rightarrow> addr" where
  "table_after T n address = address + size_of T * n"

lemma object_bind_aligned:
  "al dvd unat a \<Longrightarrow> type_align T dvd unat a \<Longrightarrow> object_bind asserts al T a q = q a"
  by (simp add: object_bind_def mod_eq_0_iff_dvd)

section \<open>One word, no checks\<close>

definition word_type :: "64 word object_type" where
  "word_type = \<lparr>type_words = 1, type_align = 8, to_words = \<lambda>v. [v], of_words = hd\<rparr>"

text \<open>The operations of \<open>TM_Client\<close> are these at the types of the workloads.\<close>

lemma word_objects:
  "object_read word_type a k = shared_read a k" "object_write word_type a v q = shared_write a v q"
  "object_after word_type a = shared_after a" "object_bind assert_mode al word_type a (\<lambda>_. q) = shared_bind al a q"
  "pointer_alloc assert_mode T a sz kp = shared_alloc (8 * type_words T) a sz kp"
  "pointer_free assert_mode a q = shared_free a q"
  "elements_read word_type a i k = array_read a i k" "elements_after word_type a n = array_after a n"
  "table_read assert_mode word_type n a i k = bounded_read n a i k"
  by (simp_all add: object_read_def object_write_def object_after_def object_bind_def pointer_alloc_def
      pointer_free_def pointer_read_def pointer_write_def elements_read_def elements_after_def table_read_def
      bounded_read_def element_addr_def array_cell_def array_after_def word_type_def assert_mode_def Let_def
      del: shared_ops) (simp_all add: shared_bind_def shared_alloc_def shared_free_def assert_mode_def)

section \<open>Objects in a store\<close>

text \<open>The words of an object, and the store after they were written.\<close>

definition word_list :: "store \<Rightarrow> addr \<Rightarrow> nat \<Rightarrow> 64 word list" where
  "word_list \<sigma> a n = map (\<lambda>k. snd \<sigma> (a + of_nat (8 * k))) [0..<n]"

fun put_words :: "addr \<Rightarrow> 64 word list \<Rightarrow> store \<Rightarrow> store" where
  "put_words a [] \<sigma> = \<sigma>"
| "put_words a (v # vs) \<sigma> = put_words (a + 8) vs (set_word a v \<sigma>)"

lemma word_list_simps [simp]:
  "word_list \<sigma> a 0 = []" "word_list \<sigma> a (Suc n) = snd \<sigma> a # word_list \<sigma> (a + 8) n"
  by (simp_all add: word_list_def map_upt_Suc add.assoc del: upt_Suc)

lemma length_word_list [simp]: "length (word_list \<sigma> a n) = n"
  by (simp add: word_list_def)

lemma seg_words_Suc: "seg_words a (8 * Suc n) = insert a (seg_words (a + 8) (8 * n))"
proof -
  have "{..<Suc n} = insert 0 (Suc ` {..<n})" by (rule lessThan_Suc_eq_insert_0)
  then show ?thesis by (simp add: seg_words_def image_image add.assoc)
qed

lemma seg_words_0 [simp]: "seg_words a 0 = {}"
  by (simp add: seg_words_def)

lemma read_words_wp:
  "wp (read_words a n k) Q \<sigma> \<longleftrightarrow> seg_words a (8 * n) \<subseteq> fst \<sigma> \<and> wp (k (word_list \<sigma> a n)) Q \<sigma>"
  by (induction n arbitrary: a k) (auto simp: seg_words_Suc simp del: mult_Suc_right)

lemma write_words_wp:
  "wp (write_words_to a vs k) Q \<sigma> \<longleftrightarrow> seg_words a (8 * length vs) \<subseteq> fst \<sigma> \<and> wp k Q (put_words a vs \<sigma>)"
  by (induction vs arbitrary: a \<sigma>) (auto simp: seg_words_Suc set_word_def simp del: mult_Suc_right)

lemma fst_put_words [simp]: "fst (put_words a vs \<sigma>) = fst \<sigma>"
  by (induction vs arbitrary: a \<sigma>) (simp_all add: set_word_def)

lemma put_words_outside: "x \<notin> seg_words a (8 * length vs) \<Longrightarrow> snd (put_words a vs \<sigma>) x = snd \<sigma> x"
  by (induction vs arbitrary: a \<sigma>) (simp_all add: seg_words_Suc set_word_def del: mult_Suc_right)

lemma offset_eq:
  fixes a :: addr
  assumes "8 * i < 2 ^ 64" "8 * j < 2 ^ 64"
  shows "a + of_nat (8 * i) = a + of_nat (8 * j) \<longleftrightarrow> i = j"
proof -
  have "unat (of_nat (8 * i) :: addr) = 8 * i" "unat (of_nat (8 * j) :: addr) = 8 * j"
    using assms by (simp_all only: unat_of_nat_64)
  then show ?thesis by (metis add_left_cancel mult_left_cancel zero_neq_numeral)
qed

lemma word_list_put_words:
  assumes "8 * length vs \<le> 2 ^ 64"
  shows "word_list (put_words a vs \<sigma>) a (length vs) = vs"
  using assms
proof (induction vs arbitrary: a \<sigma>)
  case (Cons v vs)
  have "a \<notin> seg_words (a + 8) (8 * length vs)"
  proof
    assume "a \<in> seg_words (a + 8) (8 * length vs)"
    then obtain k where k: "k < length vs" "a = a + 8 + of_nat (8 * k)" by (auto simp: seg_words_def)
    then have "a + of_nat (8 * 0) = a + of_nat (8 * Suc k)" by (simp add: add.assoc)
    moreover have "8 * Suc k < 2 ^ 64" using k(1) Cons.prems by simp
    ultimately show False using offset_eq [of 0 "Suc k" a] by simp
  qed
  then show ?case using Cons by (simp add: put_words_outside set_word_def)
qed simp

lemma word_list_outside:
  "seg_words b (8 * n) \<inter> seg_words a (8 * length vs) = {} \<Longrightarrow>
    word_list (put_words a vs \<sigma>) b n = word_list \<sigma> b n"
proof (induction n arbitrary: b)
  case (Suc n)
  then show ?case by (simp add: seg_words_Suc put_words_outside del: mult_Suc_right)
qed simp

text \<open>With the checks a pointer in use is not allocated again, and none is freed twice.\<close>

lemma pointer_checks:
  "wp (pointer_alloc True T a sz kp) Q \<sigma> \<longleftrightarrow> a \<in> fst \<sigma> \<and>
    (if snd \<sigma> a \<noteq> 0 then Q (Inl SharedDoubleAlloc) \<sigma> else wp (pointer_alloc False T a sz kp) Q \<sigma>)"
  "wp (pointer_free True a q) Q \<sigma> \<longleftrightarrow> a \<in> fst \<sigma> \<and>
    (if snd \<sigma> a = 0 then Q (Inl SharedDoubleFree) \<sigma> else wp (pointer_free False a q) Q \<sigma>)"
  by (simp_all add: pointer_alloc_def pointer_free_def pointer_read_def pointer_write_def Let_def)

section \<open>Arrays of objects\<close>

definition element :: "'v object_type \<Rightarrow> addr \<Rightarrow> store \<Rightarrow> nat \<Rightarrow> 'v" where
  "element T a \<sigma> i = of_words T (word_list \<sigma> (a + of_nat (8 * (type_words T * i))) (type_words T))"

definition set_element :: "'v object_type \<Rightarrow> addr \<Rightarrow> store \<Rightarrow> nat \<Rightarrow> 'v \<Rightarrow> store" where
  "set_element T a \<sigma> i v = put_words (a + of_nat (8 * (type_words T * i))) (to_words T v) \<sigma>"

lemma set_element_valid [simp]: "fst (set_element T a \<sigma> i v) = fst \<sigma>"
  by (simp add: set_element_def)

definition table_fits :: "'v object_type \<Rightarrow> nat \<Rightarrow> bool" where
  "table_fits T n \<longleftrightarrow> 8 * (type_words T * n) < 2 ^ 64"

lemma element_offset:
  assumes "i < n" "k < sz" "8 * (sz * n) < 2 ^ 64"
  shows "8 * (sz * i + k) < (2 :: nat) ^ 64"
proof -
  have "sz * i + k < sz * Suc i" using assms(2) by simp
  also have "\<dots> \<le> sz * n" using assms(1) by (intro mult_le_mono2) simp
  finally show ?thesis using assms(3) by (simp add: mult.commute)
qed

lemma elements_apart:
  assumes "i < n" "j < n" "i \<noteq> j" "table_fits T n"
  shows "seg_words (a + of_nat (8 * (type_words T * i))) (8 * type_words T) \<inter>
    seg_words (a + of_nat (8 * (type_words T * j))) (8 * type_words T) = {}"
proof (rule ccontr)
  let ?z = "type_words T"
  assume "\<not> ?thesis"
  then obtain k l where k: "k < ?z" "l < ?z"
    and e: "a + of_nat (8 * (?z * i)) + of_nat (8 * k) = a + of_nat (8 * (?z * j)) + of_nat (8 * l)"
    by (auto simp: seg_words_def)
  then have "a + of_nat (8 * (?z * i + k)) = a + of_nat (8 * (?z * j + l))" by (simp add: algebra_simps)
  moreover have "8 * (?z * i + k) < 2 ^ 64" "8 * (?z * j + l) < 2 ^ 64"
    using element_offset [OF assms(1) k(1)] element_offset [OF assms(2) k(2)] assms(4) by (simp_all add: table_fits_def)
  ultimately have "?z * i + k = ?z * j + l" using offset_eq by blast
  then have "(?z * i + k) div ?z = (?z * j + l) div ?z" by simp
  then show False using k assms(3) by simp
qed

text \<open>A type whose values survive their representation: the elements of an array of them are then a
  word store in the sense of \<open>TM_Prelude\<close>.\<close>

locale object_layout =
  fixes T :: "'v object_type"
  assumes of_to_words: "of_words T (to_words T v) = v"
    and length_words: "length (to_words T v) = type_words T"
begin

sublocale elements: word_store "element T a" "set_element T a" "\<lambda>i. i < n \<and> table_fits T n" "\<lambda>_. True" for a n
proof unfold_locales
  fix m i v
  assume "i < n \<and> table_fits T n"
  then have "8 * (type_words T * Suc i) \<le> 8 * (type_words T * n)" "8 * (type_words T * n) < 2 ^ 64"
    by (simp_all only: table_fits_def mult_le_mono2 Suc_le_eq)
  then have "8 * length (to_words T v) \<le> 2 ^ 64" by (simp add: length_words mult.commute)
  from word_list_put_words [OF this] show "element T a (set_element T a m i v) i = v"
    by (simp add: element_def set_element_def of_to_words length_words)
next
  fix m i j v
  assume "i < n \<and> table_fits T n" "j < n \<and> table_fits T n" "i \<noteq> j"
  then show "element T a (set_element T a m i v) j = element T a m j"
    using elements_apart [of j n i T a] by (simp add: element_def set_element_def word_list_outside length_words)
qed

lemma element_set_element:
  "table_fits T n \<Longrightarrow> i < n \<Longrightarrow> j < n \<Longrightarrow> element T a (set_element T a \<sigma> i v) j = (if i = j then v else element T a \<sigma> j)"
  by (rule elements.ld_st) simp_all

lemma element_at: "element_addr T a index = a + of_nat (8 * (type_words T * unat index))"
  by (simp add: element_addr_def mult.assoc)

lemma object_write_wp:
  "wp (object_write T (element_addr T a i) v q) Q \<sigma> \<longleftrightarrow>
    seg_words (element_addr T a i) (8 * type_words T) \<subseteq> fst \<sigma> \<and> wp q Q (set_element T a \<sigma> (unat i) v)"
  by (simp add: object_write_def write_words_wp length_words set_element_def element_at)

lemma table_read_wp:
  "wp (table_read asserts T n a j k) Q \<sigma> \<longleftrightarrow>
    (if asserts \<and> n \<le> j then Q (Inl SharedOverflow) \<sigma>
     else seg_words (element_addr T a j) (8 * type_words T) \<subseteq> fst \<sigma> \<and> wp (k (element T a \<sigma> (unat j))) Q \<sigma>)"
  by (simp add: table_read_def read_words_wp element_def element_at)

end

interpretation word_objects: object_layout word_type
  by unfold_locales (simp_all add: word_type_def)

section \<open>Properties\<close>

text \<open>C24: arrays of objects are arrays. In an array of any object type, element \<open>i\<close> is assigned through
  \<open>operator[]\<close> and element \<open>j\<close> read. With both indices in bounds, and with or without the checks, exactly
  the words of the two elements are touched, and the value read is the one assigned if the indices are
  equal and the old one otherwise. With the checks an index out of bounds ends the body with
  \<open>SharedOverflow\<close> before that element is touched.\<close>

theorem array_assignment:
  assumes "object_layout T" "table_fits T (unat n)"
    and "al dvd unat (element_addr T a i)" "type_align T dvd unat (element_addr T a i)"
  shows "(i < n \<longrightarrow> j < n \<longrightarrow>
      wp (table_index asserts al T n a i (\<lambda>c. object_write T c v (table_read asserts T n a j k))) Q \<sigma> =
        (seg_words (element_addr T a i) (8 * type_words T) \<subseteq> fst \<sigma> \<and>
         seg_words (element_addr T a j) (8 * type_words T) \<subseteq> fst \<sigma> \<and>
         wp (k (if i = j then v else element T a \<sigma> (unat j))) Q (set_element T a \<sigma> (unat i) v))) \<and>
    (n \<le> i \<longrightarrow> wp (table_index True al T n a i body) Q \<sigma> = Q (Inl SharedOverflow) \<sigma>) \<and>
    (i < n \<longrightarrow> n \<le> j \<longrightarrow>
      wp (table_index True al T n a i (\<lambda>c. object_write T c v (table_read True T n a j k))) Q \<sigma> =
        (seg_words (element_addr T a i) (8 * type_words T) \<subseteq> fst \<sigma> \<and>
         Q (Inl SharedOverflow) (set_element T a \<sigma> (unat i) v)))"
proof -
  note L = object_layout.object_write_wp [OF assms(1)] object_layout.table_read_wp [OF assms(1)]
    object_layout.element_set_element [OF assms(1) assms(2)]
  show ?thesis
    by (auto simp: table_index_def object_bind_aligned [OF assms(3,4)] L word_less_nat_alt word_le_nat_alt
        word_unat_eq_iff)
qed

theorem array_assignment_witness:
  "wp (table_index True 8 word_type 3 4096 2 (\<lambda>c. object_write word_type c 7 (table_read True word_type 3 4096 2 Done)))
    (\<lambda>r \<sigma>. r = Inr 7) (seg_words 4096 24, \<lambda>_. 0) \<and>
   wp (table_index True 8 word_type 3 4096 3 (\<lambda>c. object_write word_type c 7 (Done ())))
    (\<lambda>r \<sigma>. r = Inl SharedOverflow) (seg_words 4096 24, \<lambda>_. 0)"
proof -
  have fits: "table_fits word_type (unat (3 :: 64 word))" by (simp add: table_fits_def word_type_def)
  have a: "element_addr word_type 4096 2 = 4112" "element_addr word_type 4096 3 = 4120" "type_align word_type = 8"
    "type_words word_type = 1"
    by (simp_all add: element_addr_def word_type_def)
  have "seg_words 4112 8 \<subseteq> seg_words 4096 24"
    by (auto simp: seg_words_def intro!: image_eqI [of _ _ 2])
  then show ?thesis
    using array_assignment [OF word_objects.object_layout_axioms fits, of 8 4096 2 2 True 7 Done "\<lambda>r \<sigma>. r = Inr 7"]
      array_assignment [OF word_objects.object_layout_axioms fits, of 8 4096 3]
    by (simp add: a table_index_def)
qed

end
