(* ===== verification/Barrier.thy ===== *)
theory Barrier
  imports TM_Prelude
begin

text \<open>
  The spin barrier of \<open>grading/common.hpp\<close>. Any number of threads below \<open>2 ^ 64\<close> share a step
  counter and a mode; every atomic access of \<open>sync()\<close> is one step of one thread, and a spin
  that does not see the mode it waits for is a step that changes nothing. The history counters
  \<open>arrivals\<close> and \<open>passes\<close> count, per thread, the calls entered and the calls that got past the
  waiting room; no step reads them. \<open>uint_fast32_t\<close> is the 64-bit word of the platform.
\<close>

section \<open>State and steps\<close>

datatype barrier_mode = Enter | Leave

datatype barrier_pc = Outside | StoreLeave | WaitLeave | LeaveSub | StoreEnter | WaitEnter

record barrier =
  cardinal :: "64 word"
  step_count :: "64 word"
  mode :: barrier_mode
  at :: "nat \<Rightarrow> barrier_pc"
  arrivals :: "nat \<Rightarrow> nat"
  passes :: "nat \<Rightarrow> nat"

definition new_barrier :: "64 word \<Rightarrow> barrier" where
  "new_barrier c = \<lparr>cardinal = c, step_count = 0, mode = Enter, at = (\<lambda>_. Outside),
     arrivals = (\<lambda>_. 0), passes = (\<lambda>_. 0)\<rparr>"

definition goto :: "nat \<Rightarrow> barrier_pc \<Rightarrow> barrier \<Rightarrow> barrier" where
  "goto i p b = b\<lparr>at := (at b)(i := p)\<rparr>"

definition arrive :: "nat \<Rightarrow> barrier \<Rightarrow> barrier" where
  "arrive i b = b\<lparr>arrivals := (arrivals b)(i := Suc (arrivals b i))\<rparr>"

definition pass :: "nat \<Rightarrow> barrier \<Rightarrow> barrier" where
  "pass i b = b\<lparr>passes := (passes b)(i := Suc (passes b i))\<rparr>"

text \<open>The next access of thread \<open>i\<close>; \<open>Outside\<close> calls \<open>sync()\<close>.\<close>

definition barrier_step :: "nat \<Rightarrow> barrier \<Rightarrow> barrier" where
  "barrier_step i b =
     (case at b i of
        Outside \<Rightarrow>
          let old = step_count b; b = arrive i (b\<lparr>step_count := old + 1\<rparr>)
          in goto i (if old + 1 = cardinal b then StoreLeave else WaitLeave) b
      | StoreLeave \<Rightarrow> goto i LeaveSub (pass i (b\<lparr>mode := Leave\<rparr>))
      | WaitLeave \<Rightarrow> if mode b = Leave then goto i LeaveSub (pass i b) else b
      | LeaveSub \<Rightarrow>
          let old = step_count b; b = b\<lparr>step_count := old - 1\<rparr>
          in goto i (if old - 1 = 0 then StoreEnter else WaitEnter) b
      | StoreEnter \<Rightarrow> goto i Outside (b\<lparr>mode := Enter\<rparr>)
      | WaitEnter \<Rightarrow> if mode b = Enter then goto i Outside b else b)"

inductive barrier_reach :: "nat \<Rightarrow> barrier \<Rightarrow> bool" for n where
  fresh: "barrier_reach n (new_barrier (of_nat n))"
| access: "barrier_reach n b \<Longrightarrow> i < n \<Longrightarrow> barrier_reach n (barrier_step i b)"

section \<open>The four phases of a round\<close>

text \<open>The threads that the step counter counts.\<close>

definition inside :: "nat \<Rightarrow> barrier \<Rightarrow> nat set" where
  "inside n b = {i. i < n \<and> at b i \<in> {StoreLeave, WaitLeave, LeaveSub}}"

definition filling :: "nat \<Rightarrow> nat \<Rightarrow> barrier \<Rightarrow> bool" where
  "filling n r b \<longleftrightarrow> mode b = Enter \<and>
     (\<forall>i < n. passes b i = r \<and>
        (at b i \<in> {Outside, WaitEnter} \<and> arrivals b i = r \<or> at b i = WaitLeave \<and> arrivals b i = r + 1)) \<and>
     (\<exists>i < n. at b i \<noteq> WaitLeave)"

definition full :: "nat \<Rightarrow> nat \<Rightarrow> barrier \<Rightarrow> bool" where
  "full n r b \<longleftrightarrow> mode b = Enter \<and> (\<forall>i < n. arrivals b i = r + 1 \<and> passes b i = r) \<and>
     (\<exists>k < n. at b k = StoreLeave \<and> (\<forall>i < n. i \<noteq> k \<longrightarrow> at b i = WaitLeave))"

definition leaving :: "nat \<Rightarrow> nat \<Rightarrow> barrier \<Rightarrow> bool" where
  "leaving n r b \<longleftrightarrow> mode b = Leave \<and>
     (\<forall>i < n. arrivals b i = r + 1 \<and>
        (at b i = WaitLeave \<and> passes b i = r \<or> at b i \<in> {LeaveSub, WaitEnter} \<and> passes b i = r + 1)) \<and>
     (\<exists>i < n. at b i \<noteq> WaitEnter)"

definition emptied :: "nat \<Rightarrow> nat \<Rightarrow> barrier \<Rightarrow> bool" where
  "emptied n r b \<longleftrightarrow> mode b = Leave \<and> (\<forall>i < n. arrivals b i = r + 1 \<and> passes b i = r + 1) \<and>
     (\<exists>k < n. at b k = StoreEnter \<and> (\<forall>i < n. i \<noteq> k \<longrightarrow> at b i = WaitEnter))"

definition barrier_inv :: "nat \<Rightarrow> barrier \<Rightarrow> bool" where
  "barrier_inv n b \<longleftrightarrow> cardinal b = of_nat n \<and> step_count b = of_nat (card (inside n b)) \<and>
     (\<exists>r. filling n r b \<or> full n r b \<or> leaving n r b \<or> emptied n r b)"

lemma inside_finite [simp]: "finite (inside n b)"
  by (rule finite_subset [of _ "{..<n}"]) (auto simp: inside_def)

lemma card_inside_le: "card (inside n b) \<le> n"
  using card_mono [of "{..<n}" "inside n b"] by (auto simp: inside_def)

text \<open>Counting threads on words: no wrap-around below \<open>2 ^ 64\<close>.\<close>

lemma of_nat_64_eq: "k < 2 ^ 64 \<Longrightarrow> m < 2 ^ 64 \<Longrightarrow> (of_nat k :: 64 word) = of_nat m \<longleftrightarrow> k = m"
  by (metis unat_of_nat_64)

lemma inside_goto:
  "inside n (goto i p b) = (if i < n \<and> p \<in> {StoreLeave, WaitLeave, LeaveSub}
     then insert i (inside n b) else inside n b - {i})"
  by (auto simp: inside_def goto_def)

lemma card_inside_full: "card (inside n b) = n \<longleftrightarrow> (\<forall>i < n. i \<in> inside n b)"
proof
  assume c: "card (inside n b) = n"
  have "inside n b = {..<n}"
    by (rule card_subset_eq) (use c in \<open>auto simp: inside_def\<close>)
  then show "\<forall>i < n. i \<in> inside n b" by simp
next
  assume "\<forall>i < n. i \<in> inside n b"
  then have "inside n b = {..<n}" by (auto simp: inside_def)
  then show "card (inside n b) = n" by simp
qed

text \<open>Where the threads are in each phase.\<close>

lemma phase_at:
  assumes "i < n"
  shows "filling n r b \<Longrightarrow> at b i \<in> {Outside, WaitEnter, WaitLeave}"
    and "full n r b \<Longrightarrow> at b i \<in> {StoreLeave, WaitLeave}"
    and "leaving n r b \<Longrightarrow> at b i \<in> {WaitLeave, LeaveSub, WaitEnter}"
    and "emptied n r b \<Longrightarrow> at b i \<in> {StoreEnter, WaitEnter}"
  using assms by (auto simp: filling_def full_def leaving_def emptied_def)

lemma barrier_phase:
  assumes "barrier_inv n b" "i < n"
  obtains r where "at b i = Outside \<Longrightarrow> filling n r b" "at b i = LeaveSub \<Longrightarrow> leaving n r b"
    "at b i = StoreLeave \<Longrightarrow> full n r b" "at b i = StoreEnter \<Longrightarrow> emptied n r b"
    "filling n r b \<or> full n r b \<or> leaving n r b \<or> emptied n r b"
proof -
  obtain r where "filling n r b \<or> full n r b \<or> leaving n r b \<or> emptied n r b"
    using assms(1) by (auto simp: barrier_inv_def)
  with that [of r] phase_at [OF assms(2), of r b] show ?thesis by auto
qed

text \<open>One access, phase by phase.\<close>

lemma step_Outside:
  assumes "barrier_inv n b" "n < 2 ^ 64" "i < n" "at b i = Outside"
  shows "barrier_inv n (barrier_step i b)"
proof -
  obtain r where r: "filling n r b"
    using barrier_phase [OF assms(1,3)] assms(4) by metis
  let ?k = "card (inside n b)"
  have i: "i \<notin> inside n b" using assms(4) by (simp add: inside_def)
  have k: "?k < 2 ^ 64" "Suc ?k \<le> n"
    using card_inside_le [of n b] assms(2,3) i card_inside_full [of n b] by (auto simp: order.strict_iff_order)
  have c: "step_count b = of_nat ?k" "cardinal b = of_nat n" using assms(1) by (simp_all add: barrier_inv_def)
  have "step_count b + 1 = of_nat (Suc ?k)" using c(1) by simp
  moreover have "(of_nat (Suc ?k) :: 64 word) = of_nat n \<longleftrightarrow> Suc ?k = n"
    using k assms(2) by (intro of_nat_64_eq) simp_all
  ultimately have eq: "step_count b + 1 = cardinal b \<longleftrightarrow> Suc ?k = n" using c(2) by metis
  let ?p = "if Suc ?k = n then StoreLeave else WaitLeave"
  let ?b = "goto i ?p (arrive i (b\<lparr>step_count := step_count b + 1\<rparr>))"
  have step: "barrier_step i b = ?b"
    using assms(4) eq by (simp add: barrier_step_def Let_def arrive_def)
  have ins: "inside n ?b = insert i (inside n b)"
    using assms(3) by (auto simp: inside_def goto_def arrive_def)
  have count: "step_count ?b = of_nat (card (inside n ?b))"
    unfolding ins using c(1) i by (simp add: goto_def arrive_def)
  have others: "j \<in> inside n b \<longleftrightarrow> at b j = WaitLeave" if "j < n" for j
    using r that by (auto simp: filling_def inside_def)
  have "filling n r ?b \<or> full n r ?b"
  proof (cases "Suc ?k = n")
    case True
    then have "card (insert i (inside n b)) = n" using i by simp
    then have "\<forall>j < n. j \<in> insert i (inside n b)"
      using card_inside_full [of n ?b] ins by simp
    then have "\<forall>j < n. j \<noteq> i \<longrightarrow> at b j = WaitLeave" using others by blast
    then have "full n r ?b" using r assms(3,4) True
      by (auto simp: full_def filling_def goto_def arrive_def)
    then show ?thesis ..
  next
    case False
    then have "card (inside n ?b) \<noteq> n" using ins i by simp
    then obtain j where j: "j < n" "j \<notin> inside n ?b" using card_inside_full [of n ?b] by blast
    then have "j \<noteq> i \<and> at b j \<noteq> WaitLeave" using others ins by auto
    then have "filling n r ?b" using r assms(3,4) False j(1)
      by (auto simp: filling_def goto_def arrive_def intro: exI [of _ j])
    then show ?thesis ..
  qed
  then show ?thesis using count c(2) step by (auto simp: barrier_inv_def goto_def arrive_def)
qed

lemma step_LeaveSub:
  assumes "barrier_inv n b" "n < 2 ^ 64" "i < n" "at b i = LeaveSub"
  shows "barrier_inv n (barrier_step i b)"
proof -
  obtain r where r: "leaving n r b"
    using barrier_phase [OF assms(1,3)] assms(4) by metis
  have i: "i \<in> inside n b" using assms(3,4) by (simp add: inside_def)
  define k where "k = card (inside n b - {i})"
  have card: "card (inside n b) = Suc k" unfolding k_def by (rule card.remove [OF inside_finite i])
  then have k: "Suc k < 2 ^ 64" using card_inside_le [of n b] assms(2) by linarith
  have c: "step_count b = of_nat (Suc k)" "cardinal b = of_nat n"
    using assms(1) card by (simp_all add: barrier_inv_def)
  then have sub: "step_count b - 1 = of_nat k" by simp
  have "(of_nat k :: 64 word) = of_nat 0 \<longleftrightarrow> k = 0" 
    by (rule of_nat_64_eq [OF Suc_lessD [OF k]]) simp
  then have eq: "step_count b - 1 = 0 \<longleftrightarrow> k = 0" unfolding sub semiring_1_class.of_nat_0 .
  let ?p = "if k = 0 then StoreEnter else WaitEnter"
  let ?b = "goto i ?p (b\<lparr>step_count := step_count b - 1\<rparr>)"
  have step: "barrier_step i b = ?b" using assms(4) eq by (simp add: barrier_step_def Let_def)
  have ins: "inside n ?b = inside n b - {i}" by (auto simp: inside_def goto_def)
  have count: "step_count ?b = of_nat (card (inside n ?b))" unfolding ins k_def [symmetric]
    by (simp add: goto_def sub del: of_nat_diff)
  have others: "j \<notin> inside n b \<longleftrightarrow> at b j = WaitEnter" if "j < n" for j
    using r that by (auto simp: leaving_def inside_def)
  have "leaving n r ?b \<or> emptied n r ?b"
  proof (cases "k = 0")
    case True
    then have "inside n b - {i} = {}" unfolding k_def by simp
    then have "\<forall>j < n. j \<noteq> i \<longrightarrow> at b j = WaitEnter" using others by blast
    moreover have "\<forall>j < n. arrivals b j = r + 1" using r by (simp add: leaving_def)
    moreover have "passes b j = r + 1" if "j < n" for j
    proof (cases "j = i")
      case True
      then show ?thesis using r assms(3,4) by (auto simp: leaving_def)
    next
      case False
      then show ?thesis using r that \<open>\<forall>j < n. j \<noteq> i \<longrightarrow> at b j = WaitEnter\<close> by (auto simp: leaving_def)
    qed
    ultimately have "emptied n r ?b" using r assms(3) True
      by (auto simp: emptied_def leaving_def goto_def)
    then show ?thesis ..
  next
    case False
    then obtain j where "j \<in> inside n b - {i}" unfolding k_def by (metis card.empty ex_in_conv)
    then have "j < n" "j \<noteq> i" "at b j \<noteq> WaitEnter" by (auto simp: inside_def)
    then have "leaving n r ?b" using r assms(3,4) False
      by (auto simp: leaving_def goto_def intro: exI [of _ j])
    then show ?thesis ..
  qed
  then show ?thesis using count c(2) step by (auto simp: barrier_inv_def goto_def)
qed

lemma step_other:
  assumes "barrier_inv n b" "i < n" "at b i \<notin> {Outside, LeaveSub}"
  shows "barrier_inv n (barrier_step i b)"
proof -
  obtain r where r: "at b i = StoreLeave \<Longrightarrow> full n r b" "at b i = StoreEnter \<Longrightarrow> emptied n r b"
    "filling n r b \<or> full n r b \<or> leaving n r b \<or> emptied n r b"
    using barrier_phase [OF assms(1,2)] by metis
  have c: "step_count b = of_nat (card (inside n b))" "cardinal b = of_nat n"
    using assms(1) by (simp_all add: barrier_inv_def)
  consider "at b i = StoreLeave" | "at b i = WaitLeave" | "at b i = StoreEnter" | "at b i = WaitEnter"
    using assms(3) by (cases "at b i") auto
  then show ?thesis
  proof cases
    case 1
    let ?b = "goto i LeaveSub (pass i (b\<lparr>mode := Leave\<rparr>))"
    have others: "at b j = WaitLeave" if "j < n" "j \<noteq> i" for j
      using r(1) [OF 1] 1 that assms(2) unfolding full_def by (metis barrier_pc.distinct(11))
    have "inside n ?b = inside n b" using 1 assms(2) by (auto simp: inside_def goto_def pass_def)
    moreover have "leaving n r ?b"
      using others r(1) [OF 1] 1 assms(2) by (auto simp: full_def leaving_def goto_def pass_def)
    ultimately show ?thesis using 1 c by (auto simp: barrier_inv_def barrier_step_def goto_def pass_def)
  next
    case 2
    show ?thesis
    proof (cases "mode b = Leave")
      case True
      let ?b = "goto i LeaveSub (pass i b)"
      have "leaving n r b" using r(3) True 2 assms(2) by (auto simp: filling_def full_def emptied_def)
      then have "leaving n r ?b" using 2 assms(2) by (auto simp: leaving_def goto_def pass_def)
      moreover have "inside n ?b = inside n b" using 2 assms(2) by (auto simp: inside_def goto_def pass_def)
      ultimately show ?thesis using 2 c True by (auto simp: barrier_inv_def barrier_step_def goto_def pass_def)
    qed (use assms(1) 2 in \<open>simp add: barrier_step_def\<close>)
  next
    case 3
    let ?b = "goto i Outside (b\<lparr>mode := Enter\<rparr>)"
    have others: "at b j = WaitEnter" if "j < n" "j \<noteq> i" for j
      using r(2) [OF 3] 3 that assms(2) unfolding emptied_def by (metis barrier_pc.distinct(29))
    have "inside n ?b = inside n b" using 3 by (auto simp: inside_def goto_def)
    moreover have "filling n (r + 1) ?b"
      using others r(2) [OF 3] 3 assms(2) by (auto simp: emptied_def filling_def goto_def)
    ultimately show ?thesis using 3 c by (auto simp: barrier_inv_def barrier_step_def goto_def)
  next
    case 4
    show ?thesis
    proof (cases "mode b = Enter")
      case True
      let ?b = "goto i Outside b"
      have "filling n r b" using r(3) True 4 assms(2) by (auto simp: leaving_def full_def emptied_def)
      then have "filling n r ?b" using 4 assms(2) by (auto simp: filling_def goto_def)
      moreover have "inside n ?b = inside n b" using 4 by (auto simp: inside_def goto_def)
      ultimately show ?thesis using 4 c True by (auto simp: barrier_inv_def barrier_step_def goto_def)
    qed (use assms(1) 4 in \<open>simp add: barrier_step_def\<close>)
  qed
qed

lemma barrier_inv_step:
  "barrier_inv n b \<Longrightarrow> n < 2 ^ 64 \<Longrightarrow> i < n \<Longrightarrow> barrier_inv n (barrier_step i b)"
  using step_Outside step_LeaveSub step_other by blast

lemma barrier_reach_inv: "barrier_reach n b \<Longrightarrow> 0 < n \<Longrightarrow> n < 2 ^ 64 \<Longrightarrow> barrier_inv n b"
proof (induction rule: barrier_reach.induct)
  case fresh
  have "filling n 0 (new_barrier (of_nat n))" using fresh by (auto simp: filling_def new_barrier_def)
  moreover have "inside n (new_barrier (of_nat n)) = {}" by (simp add: inside_def new_barrier_def)
  ultimately show ?case by (auto simp: barrier_inv_def new_barrier_def)
qed (simp add: barrier_inv_step)

section \<open>Properties\<close>

text \<open>C20: the barrier separates rounds. However the threads interleave, no thread gets past the
  barrier for the \<open>k\<close>-th time before every thread has arrived for the \<open>k\<close>-th time, and no
  thread arrives again before every thread got past: passes and arrivals of any two threads
  never cross, and differ by at most one.\<close>

theorem barrier_separates_rounds:
  assumes "barrier_reach n b" "n < 2 ^ 64" "i < n" "j < n"
  shows "passes b i \<le> arrivals b j \<and> arrivals b j \<le> passes b i + 1"
proof -
  obtain r where "filling n r b \<or> full n r b \<or> leaving n r b \<or> emptied n r b"
    using barrier_reach_inv [OF assms(1)] assms(2,3) by (auto simp: barrier_inv_def)
  then show ?thesis
    using assms(3,4) by (elim disjE) (fastforce simp: filling_def full_def leaving_def emptied_def)+
qed

theorem barrier_separates_rounds_witness:
  "passes (barrier_step 0 (new_barrier 2)) 0 \<le> arrivals (barrier_step 0 (new_barrier 2)) 1 \<and>
   arrivals (barrier_step 0 (new_barrier 2)) 0 = 1"
proof -
  have "barrier_reach 2 (new_barrier (of_nat 2))" by (rule barrier_reach.fresh)
  then have "barrier_reach 2 (barrier_step 0 (new_barrier (of_nat 2)))" by (rule barrier_reach.access) simp
  from barrier_separates_rounds [OF this, of 0 1] show ?thesis
    by (simp add: barrier_step_def new_barrier_def arrive_def goto_def Let_def)
qed

text \<open>The barrier cannot deadlock: when every thread has called \<open>sync()\<close>, some thread's next
  access makes progress (it is not a spin).\<close>

theorem barrier_no_deadlock:
  assumes "barrier_reach n b" "0 < n" "n < 2 ^ 64" "\<And>i. i < n \<Longrightarrow> at b i \<noteq> Outside"
  shows "\<exists>i < n. at (barrier_step i b) i \<noteq> at b i"
proof -
  obtain r where "filling n r b \<or> full n r b \<or> leaving n r b \<or> emptied n r b"
    using barrier_reach_inv [OF assms(1-3)] by (auto simp: barrier_inv_def)
  then consider (f) k where "k < n" "at b k = WaitEnter" "mode b = Enter"
    | (s) k where "k < n" "at b k \<in> {StoreLeave, LeaveSub, StoreEnter}"
    | (l) k where "k < n" "at b k = WaitLeave" "mode b = Leave"
    using assms(4) by (auto simp: filling_def full_def leaving_def emptied_def)
  then show ?thesis
  proof cases
    case f
    then show ?thesis by (auto simp: barrier_step_def goto_def intro!: exI [of _ k])
  next
    case s
    then show ?thesis by (auto simp: barrier_step_def goto_def pass_def Let_def split: if_splits intro!: exI [of _ k])
  next
    case l
    then show ?thesis by (auto simp: barrier_step_def goto_def pass_def intro!: exI [of _ k])
  qed
qed

theorem barrier_no_deadlock_witness:
  "\<exists>i < 1. at (barrier_step i (barrier_step 0 (new_barrier 1))) i \<noteq> at (barrier_step 0 (new_barrier 1)) i"
proof -
  have "barrier_reach 1 (new_barrier (of_nat 1))" by (rule barrier_reach.fresh)
  then have r: "barrier_reach 1 (barrier_step 0 (new_barrier 1))" using barrier_reach.access [of 1 _ 0] by simp
  show ?thesis
    by (rule barrier_no_deadlock [OF r])
       (simp_all add: barrier_step_def new_barrier_def arrive_def goto_def Let_def)
qed

end
