(* ===== verification/Bank_Retry.thy ===== *)
theory Bank_Retry
  imports Bank_Theorems
begin

text \<open>
  What an aborted transfer leaves behind. The closure of \<open>short_tx\<close> (\<open>grading/workload.hpp\<close>) counts
  the indices it captured by reference down as it walks the list of segments, so the next attempt
  of the retry loop looks for other accounts than the ones it was called for.
\<close>

section \<open>An attempt up to an access\<close>

text \<open>What is left of a body that has read the given words and written none.\<close>

fun after_reads :: "'a prog \<Rightarrow> 64 word list \<Rightarrow> 'a prog" where
  "after_reads p [] = p"
| "after_reads (ReadWord a k) (v # vs) = after_reads (k v) vs"
| "after_reads p vs = p"

text \<open>The words the walk reads on its way over the segments \<open>P\<close> to those of \<open>Q\<close>.\<close>

fun walk_words :: "acc_seg list \<Rightarrow> acc_seg list \<Rightarrow> 64 word list" where
  "walk_words [] Q = []"
| "walk_words (S # P) Q = of_nat (length (seg_accounts S)) # seg_ptr (hd (P @ Q)) # walk_words P Q"

lemma count_down:
  assumes "n < 2 ^ 61" "n \<le> unat (i :: 64 word)"
  shows "\<not> i < of_nat n" "unat (i - of_nat n) = unat i - n"
proof -
  have "unat (of_nat n :: 64 word) = n" using assms(1) by (intro unat_of_nat_small) simp
  then show "\<not> i < of_nat n" "unat (i - of_nat n) = unat i - n"
    using assms(2) by (simp_all add: word_less_nat_alt unat_sub word_le_nat_alt)
qed

lemma walk_left:
  assumes "\<forall>S \<in> set P. length (seg_accounts S) < 2 ^ 61" "\<forall>S \<in> set (P @ Q). seg_ptr S \<noteq> 0" "Q \<noteq> []"
    and "length (balances P) \<le> unat send" "length (balances P) \<le> unat recv"
    and "short_left (seg_ptr (hd (P @ Q))) send recv 0 0 (walk_words P Q) = (send', recv')"
  shows "unat send' = unat send - length (balances P) \<and> unat recv' = unat recv - length (balances P) \<and>
    after_reads (short_loop (length P + fuel) (seg_ptr (hd (P @ Q))) send recv 0 0) (walk_words P Q) =
      short_loop fuel (seg_ptr (hd Q)) send' recv' 0 0"
  using assms
proof (induction P arbitrary: send recv)
  case (Cons S P)
  let ?n = "length (seg_accounts S)" and ?s = "send - of_nat (length (seg_accounts S))"
    and ?r = "recv - of_nat (length (seg_accounts S))"
  have n: "?n < 2 ^ 61" "?n \<le> unat send" "?n \<le> unat recv" using Cons.prems(1,4,5) by simp_all
  note s = count_down [OF n(1,2)] and r = count_down [OF n(1,3)]
  have ptr: "seg_ptr (hd (P @ Q)) \<noteq> 0" using Cons.prems(2,3) by (cases "P @ Q") auto
  have left: "short_left (seg_ptr (hd (P @ Q))) ?s ?r 0 0 (walk_words P Q) = (send', recv')"
    using Cons.prems(6) s(1) r(1) ptr by (simp add: seek_def)
  have "unat send' = unat ?s - length (balances P) \<and> unat recv' = unat ?r - length (balances P) \<and>
    after_reads (short_loop (length P + fuel) (seg_ptr (hd (P @ Q))) ?s ?r 0 0) (walk_words P Q) =
      short_loop fuel (seg_ptr (hd Q)) send' recv' 0 0"
    by (rule Cons.IH [OF _ _ Cons.prems(3) _ _ left]) (use Cons.prems s(2) r(2) in auto)
  then show ?case using s r ptr by (simp add: seek_def)
qed simp

section \<open>A bank of two segments\<close>

definition two_segments :: workload where
  "two_segments = \<lparr>nbaccounts = 2, init_balance = 100, bank_start = 4096\<rparr>"

definition two_store :: store where
  "two_store = ({4096, 4104, 4112, 4120, 4128} \<union> {8192, 8200, 8208, 8216, 8224},
     (\<lambda>_. 0)(4096 := 2, 4104 := 8192, 4120 := 100, 4128 := 100, 8192 := 2, 8216 := 100, 8224 := 100))"

definition two_list :: "acc_seg list" where
  "two_list = [\<lparr>seg_ptr = 4096, seg_parity = 0, seg_accounts = [100, 100]\<rparr>,
     \<lparr>seg_ptr = 8192, seg_parity = 0, seg_accounts = [100, 100]\<rparr>]"

lemma two_words:
  "words_at two_segments 4096 = {4096, 4104, 4112, 4120, 4128}"
  "words_at two_segments 8192 = {8192, 8200, 8208, 8216, 8224}"
proof -
  have "room two_segments = 2" by (simp add: two_segments_def)
  moreover have "{..<3 + 2} = {0, 1, 2, 3, 4 :: nat}" by auto
  ultimately show "words_at two_segments 4096 = {4096, 4104, 4112, 4120, 4128}"
    "words_at two_segments 8192 = {8192, 8200, 8208, 8216, 8224}"
    by (simp_all only: words_at) (simp_all add: cell_def)
qed

lemma two_bank: "bank_at two_segments two_store two_list"
  by (simp add: bank_at_def seg_at_def two_words two_list_def)
    (simp add: two_segments_def two_store_def cell_def less_Suc_eq all_conj_distrib)

section \<open>Property\<close>

text \<open>C28: the retry of a transfer is another transfer. When an attempt of \<open>short_tx\<close> has walked past
  the segments \<open>P\<close>, with both its accounts behind them, and is aborted on the next access, its
  captured indices are what the rest of its walk would have used: the given ones less the number of
  accounts passed. The next attempt starts over with these and so, on the bank it finds then, moves a
  unit between the accounts at the reduced indices.\<close>

theorem retried_transfer_redirected:
  assumes "well_sized w" "bank_at w \<sigma> (P @ Q)" "Q \<noteq> []"
    and "length (balances P) \<le> unat send" "length (balances P) \<le> unat recv"
    and "short_left (bank_start w) send recv 0 0 (walk_words P Q) = (send', recv')"
    and "bank_at w \<sigma>1 B" "length B \<le> fuel" "unat send < length (balances B)" "unat recv < length (balances B)"
    and "atomically (short_tx w fuel send' recv') \<sigma>1 r \<sigma>2"
  shows "after_reads (short_tx w (length P + fuel) send recv) (walk_words P Q) =
      short_loop fuel (seg_ptr (hd Q)) send' recv' 0 0 \<and>
    r = Inr (Finished True) \<and>
    bank_at w \<sigma>2 (short_effect B (unat send - length (balances P)) (unat recv - length (balances P)))"
proof -
  have b: "links \<sigma> (bank_start w) (P @ Q)" "\<forall>S \<in> set (P @ Q). seg_at w \<sigma> S" "0 \<notin> fst \<sigma>"
    using assms(2) by (simp_all add: bank_at_def)
  have "length (seg_accounts S) < 2 ^ 61" if "S \<in> set P" for S
    using seg_at_reads(5) [OF _ assms(1), of \<sigma> S] b(2) that by simp
  moreover have "seg_ptr S \<noteq> 0" if "S \<in> set (P @ Q)" for S
    using seg_at_reads(1) [OF _ assms(1), of \<sigma> S] b(2,3) that by (auto simp: cell_def)
  moreover have "bank_start w = seg_ptr (hd (P @ Q))" using b(1) assms(3) by (cases "P @ Q") auto
  ultimately have w: "unat send' = unat send - length (balances P)" "unat recv' = unat recv - length (balances P)"
    "after_reads (short_tx w (length P + fuel) send recv) (walk_words P Q) =
      short_loop fuel (seg_ptr (hd Q)) send' recv' 0 0"
    using walk_left [of P Q send recv send' recv' fuel] assms(3-6) unfolding short_tx_def by auto
  moreover have "unat send' < length (balances B)" "unat recv' < length (balances B)"
    using w(1,2) assms(9,10) by simp_all
  ultimately show ?thesis
    using wp_atomically [OF assms(11) short_tx_wp [OF assms(1,7,8)]] by simp
qed

theorem retried_transfer_redirected_witness:
  "short_left 4096 2 3 0 0 [2, 8192] = (0, 1) \<and>
    (\<exists>\<sigma> B. atomically (short_tx two_segments 2 0 1) two_store (Inr (Finished True)) \<sigma> \<and>
      bank_at two_segments \<sigma> B \<and> balances B = [99, 101, 100, 100])"
proof -
  obtain r \<sigma> where at: "atomically (short_tx two_segments 2 0 1) two_store r \<sigma>" using atomically_total by blast
  have l: "short_left 4096 2 3 0 0 [2, 8192] = (0, 1)" by (simp add: seek_def)
  have "well_sized two_segments" by (simp add: well_sized_def two_segments_def)
  from retried_transfer_redirected [OF this, of two_store "take 1 two_list" "drop 1 two_list" 2 3 0 1 two_store two_list 2 r \<sigma>]
  have "r = Inr (Finished True) \<and> bank_at two_segments \<sigma> (short_effect two_list 0 1)"
    using two_bank at l by (simp add: two_list_def) (simp add: two_segments_def)
  moreover have "balances (short_effect two_list 0 1) = [99, 101, 100, 100]"
    by (simp add: short_effect_def two_list_def word_sless_alt)
  ultimately show ?thesis using at l by blast
qed

end
