(* ===== verification/Bank_Returns.thy ===== *)
theory Bank_Returns
  imports Bank_Run
begin

text \<open>
  A worker of the bank returns. When nobody else uses the region and the dice name two accounts that
  exist sooner or later, \<open>init\<close> and \<open>run\<close> come to their ends, and what they return is no error message.
\<close>

section \<open>One transaction\<close>

lemma seq_calm_mono: "seq_calm env sh n h \<Longrightarrow> m \<le> n \<Longrightarrow> seq_calm env sh m h"
  by (simp add: seq_calm_def)

text \<open>How a transaction of the bank ends: it could not begin, or its body is through with result \<open>q\<close>.\<close>

definition settled :: "(exn + 'a \<Rightarrow> bool) \<Rightarrow> 'a outcome \<Rightarrow> bool" where
  "settled Q r \<longleftrightarrow> r = Thrown TransactionBegin \<or> (\<exists>q. Q q \<and> r = (case q of Inr v \<Rightarrow> Returned v | Inl e \<Rightarrow> Thrown e))"

lemma settled_region:
  assumes "sound_bank w n (seq_committed sh h) B" "n \<le> m"
    and wp: "wp p (\<lambda>q \<sigma>'. Q q \<and> (\<exists>B'. sound_bank w m \<sigma>' B')) (seq_committed sh h)"
    and "region_ready env sh h'"
    and "r = Thrown TransactionBegin \<and> seq_calm env sh (Suc c) h' \<and> seq_committed sh h' = seq_committed sh h \<or>
     seq_calm env sh c h' \<and> (\<exists>q. atomically p (seq_committed sh h) q (seq_committed sh h') \<and>
       r = (case q of Inr v \<Rightarrow> Returned v | Inl e \<Rightarrow> Thrown e))"
  shows "bank_region env sh w m h' \<and> seq_calm env sh c h' \<and> settled Q r"
  using assms(5)
proof (elim disjE conjE exE)
  assume "r = Thrown TransactionBegin" "seq_calm env sh (Suc c) h'" "seq_committed sh h' = seq_committed sh h"
  then show ?thesis using assms(4) sound_bank_mono [OF assms(1,2)] seq_calm_mono [of env sh "Suc c" h' c]
    by (auto simp: bank_region_def settled_def)
next
  fix q assume c: "seq_calm env sh c h'" and q: "atomically p (seq_committed sh h) q (seq_committed sh h')"
    and r: "r = (case q of Inr v \<Rightarrow> Returned v | Inl e \<Rightarrow> Thrown e)"
  from wp_atomically [OF q wp] have "Q q" "\<exists>B'. sound_bank w m (seq_committed sh h') B'" by blast+
  moreover from this r have "settled Q r" unfolding settled_def by blast
  ultimately show ?thesis using c assms(4) by (simp add: bank_region_def)
qed

lemma calm_tx:
  assumes "bank_region env sh w n h" "seq_calm env sh (Suc c) h" "ro \<longrightarrow> reads_only p" "n \<le> m"
    and "\<And>B. sound_bank w n (seq_committed sh h) B \<Longrightarrow>
      wp p (\<lambda>q \<sigma>'. Q q \<and> (\<exists>B'. sound_bank w m \<sigma>' B')) (seq_committed sh h)"
  shows "\<exists>r h'. transactional (seq_memory env sh st len) ro p h = Some (r, h') \<and>
    bank_region env sh w m h' \<and> seq_calm env sh c h' \<and> settled Q r"
proof -
  obtain B where B: "region_ready env sh h" "sound_bank w n (seq_committed sh h) B"
    using assms(1) by (auto simp: bank_region_def)
  note wp = assms(5) [OF B(2)]
  from calm_seq.transactional_calm [OF B(1) assms(2,3) wp_safe [OF wp], of st len]
  obtain r h' where "transactional (seq_memory env sh st len) ro p h = Some (r, h')" "region_ready env sh h'"
    "r = Thrown TransactionBegin \<and> seq_calm env sh (Suc c) h' \<and> seq_committed sh h' = seq_committed sh h \<or>
     seq_calm env sh c h' \<and> (\<exists>q. atomically p (seq_committed sh h) q (seq_committed sh h') \<and>
       r = (case q of Inr v \<Rightarrow> Returned v | Inl e \<Rightarrow> Thrown e))" by blast
  with settled_region [OF B(2) assms(4) wp this(2,3)] show ?thesis by blast
qed

lemma calm_long:
  assumes "bank_region env sh w n h" "seq_calm env sh (Suc c) h" "well_sized w" "unat (init_balance w) * (room w + n) < 2 ^ 63"
  shows "\<exists>r h'. transactional (seq_memory env sh st len) True (long_tx w bank_fuel) h = Some (r, h') \<and>
    bank_region env sh w n h' \<and> seq_calm env sh c h' \<and> settled (\<lambda>q. \<exists>c. q = Inr (Finished (True, Some c))) r"
proof (rule calm_tx [OF assms(1,2) _ order.refl])
  show "True \<longrightarrow> reads_only (long_tx w bank_fuel)" by (simp add: long_tx_def long_loop_reads_only)
  show "wp (long_tx w bank_fuel) (\<lambda>q \<sigma>'. (\<exists>c. q = Inr (Finished (True, Some c))) \<and> (\<exists>B'. sound_bank w n \<sigma>' B')) (seq_committed sh h)"
    if "sound_bank w n (seq_committed sh h) B" for B
    by (rule wp_mono [OF long_tx_sound [OF assms(3) that assms(4)]]) (use that in auto)
qed

lemma calm_alloc:
  assumes "bank_region env sh w n h" "seq_calm env sh (Suc c) h" "well_sized w"
  shows "\<exists>r h'. transactional (seq_memory env sh st len) False (alloc_tx w bank_fuel trigger) h = Some (r, h') \<and>
    bank_region env sh w (Suc n) h' \<and> seq_calm env sh c h' \<and> settled (\<lambda>q. q = Inl TransactionAlloc \<or> q = Inr (Finished ())) r"
  by (rule calm_tx [OF assms(1,2)]) (simp_all add: alloc_tx_sound [OF assms(3)])

lemma accounts_exist: "sound_bank w n \<sigma> B \<Longrightarrow> 0 < length (balances B)"
  by (cases B) (auto simp: sound_bank_def bank_at_def no_empty_def)

definition transfer_end :: "64 word \<Rightarrow> 64 word \<Rightarrow> exn + bool loop_result \<Rightarrow> bool" where
  "transfer_end send recv q \<longleftrightarrow> (\<exists>found. q = Inr (Finished found) \<and> (send = 0 \<and> recv = 0 \<longrightarrow> found))"

lemma settled_transfer:
  assumes "settled (transfer_end send recv) r"
  shows "r = Thrown TransactionBegin \<or> r = Returned (Finished True) \<or> r = Returned (Finished False) \<and> \<not> (send = 0 \<and> recv = 0)"
  using assms by (auto simp: settled_def transfer_end_def)

lemma calm_short:
  assumes "bank_region env sh w n h" "seq_calm env sh (Suc c) h" "well_sized w" "unat (init_balance w) * (room w + n) < 2 ^ 63"
  shows "\<exists>r h'. short_call (seq_memory env sh st len) w send recv h = Some (r, h') \<and>
    bank_region env sh w n h' \<and> seq_calm env sh c h' \<and>
    settled (transfer_end send recv) r"
proof -
  obtain B where B: "region_ready env sh h" "sound_bank w n (seq_committed sh h) B"
    using assms(1) by (auto simp: bank_region_def)
  let ?func = "\<lambda>(send_id, recv_id). short_tx w bank_fuel send_id recv_id"
  have wp: "wp (?func (send, recv)) (\<lambda>q \<sigma>'. transfer_end send recv q \<and>
      (\<exists>B'. sound_bank w n \<sigma>' B')) (seq_committed sh h)" if S: "sound_bank w n (seq_committed sh h) B" for B
  proof -
    have b: "bank_at w (seq_committed sh h) B" "length B \<le> bank_fuel"
      using sound_bankD(1) [OF S] bank_length [of w _ B] by (simp_all add: less_imp_le)
    have all: "send = 0 \<and> recv = 0 \<longrightarrow> unat send < length (balances B) \<and> unat recv < length (balances B)"
      using accounts_exist [OF S] by simp
    show ?thesis unfolding prod.case
    proof (rule wp_mono [OF wp_both [OF short_tx_wp [OF assms(3) b] short_tx_sound [OF assms(3) S assms(4)]]])
      fix r :: "exn + bool loop_result" and \<sigma>'
      assume r: "(if unat send < length (balances B) \<and> unat recv < length (balances B)
          then r = Inr (Finished True) \<and> bank_at w \<sigma>' (short_effect B (unat send) (unat recv))
          else r = Inr (Finished False) \<and> \<sigma>' = seq_committed sh h) \<and> (\<exists>B'. sound_bank w n \<sigma>' B')"
      then have "r = Inr (Finished (unat send < length (balances B) \<and> unat recv < length (balances B)))"
        by (simp split: if_splits)
      then have "transfer_end send recv r" using all unfolding transfer_end_def by blast
      then show "transfer_end send recv r \<and> (\<exists>B'. sound_bank w n \<sigma>' B')" using r by blast
    qed
  qed
  have "safe (?func (send, recv)) (seq_committed sh h)" by (rule wp_safe [OF wp [OF B(2)]])
  note calm_seq.transactional_with_calm [where ro = False and func = ?func and c = "(send, recv)" and st = st and len = len
      and leave = "\<lambda>(send_id, recv_id). short_left (bank_start w) send_id recv_id 0 0", OF B(1) assms(2) _ this, simplified simp_thms]
  then
  obtain r h' where "short_call (seq_memory env sh st len) w send recv h = Some (r, h')" "region_ready env sh h'"
    "r = Thrown TransactionBegin \<and> seq_calm env sh (Suc c) h' \<and> seq_committed sh h' = seq_committed sh h \<or>
     seq_calm env sh c h' \<and> (\<exists>q. atomically (?func (send, recv)) (seq_committed sh h) q (seq_committed sh h') \<and>
       r = (case q of Inr v \<Rightarrow> Returned v | Inl e \<Rightarrow> Thrown e))"
    unfolding short_call_def by blast
  with settled_region [OF B(2) order.refl wp [OF B(2)] this(2,3)] show ?thesis by blast
qed

section \<open>The loops\<close>

text \<open>Within \<open>k\<close> tries the dice name account 0, which every bank has, twice in a row.\<close>

fun names_accounts :: "'g dice \<Rightarrow> 64 word \<Rightarrow> nat \<Rightarrow> 'g \<Rightarrow> bool" where
  "names_accounts D count 0 g \<longleftrightarrow> False"
| "names_accounts D count (Suc k) g \<longleftrightarrow>
     (case account_dist D (count - 1) g of (send, g) \<Rightarrow> case account_dist D (count - 1) g of (recv, g) \<Rightarrow>
        send = 0 \<and> recv = 0 \<or> names_accounts D count k g)"

lemma calm_short_until:
  assumes "bank_region env sh w n h" "seq_calm env sh (c + k) h" "well_sized w" "unat (init_balance w) * (room w + n) < 2 ^ 63"
    and "names_accounts D count k g"
  shows "\<exists>r h'. short_until (seq_memory env sh st len) w D count g h = Some (r, h') \<and>
    bank_region env sh w n h' \<and> seq_calm env sh c h' \<and> (r = Thrown TransactionBegin \<or> (\<exists>g. r = Returned g))"
  using assms(1,2,5)
proof (induction k arbitrary: g h)
  case (Suc k)
  obtain send recv g1 g2 where g: "account_dist D (count - 1) g = (send, g1)" "account_dist D (count - 1) g1 = (recv, g2)"
    by fastforce
  have "seq_calm env sh (Suc (c + k)) h" using Suc.prems(2) by simp
  from calm_short [OF Suc.prems(1) this assms(3,4), of st len send recv]
  obtain r h1 where tx: "short_call (seq_memory env sh st len) w send recv h = Some (r, h1)"
    and ok: "bank_region env sh w n h1" "seq_calm env sh (c + k) h1"
    and r: "r = Thrown TransactionBegin \<or> r = Returned (Finished True) \<or> r = Returned (Finished False) \<and> \<not> (send = 0 \<and> recv = 0)"
    using settled_transfer by blast
  have calm: "seq_calm env sh c h1" using ok(2) by (rule seq_calm_mono) simp
  consider "r = Thrown TransactionBegin" | "r = Returned (Finished True)" | "r = Returned (Finished False)" "names_accounts D count k g2"
    using r Suc.prems(3) g by auto
  then show ?case
  proof cases
    case 3
    from Suc.IH [OF ok 3(2)] show ?thesis using 3(1) g tx by (subst short_until.simps) simp
  qed (use g tx ok(1) calm in \<open>subst short_until.simps, simp\<close>)+
qed simp

definition quiet_end :: "string option outcome \<Rightarrow> bool" where
  "quiet_end r \<longleftrightarrow> r \<in> {Thrown TransactionBegin, Thrown TransactionAlloc, Returned None}"

lemma calm_run_loop:
  assumes "bank_region env sh w n h" "seq_calm env sh (left * K + 1) h" "well_sized w"
    and "unat (init_balance w) * (room w + (n + left)) < 2 ^ 63" "\<And>count g. names_accounts D count K g"
  shows "\<exists>r h'. run_loop (seq_memory env sh st len) w D left count g h = Some (r, h') \<and> quiet_end r"
  using assms(1,2,4)
proof (induction left arbitrary: count g h n)
  case 0
  from calm_long [OF 0(1) _ assms(3), of 0 st len] 0(2,3) show ?case
    by (auto simp: settled_def then_tx_def quiet_end_def)
next
  case (Suc left)
  have K: "0 < K" using assms(5) by (cases K) auto
  let ?tm = "seq_memory env sh st len" and ?c = "left * K + 1"
  have small: "unat (init_balance w) * (room w + n) < 2 ^ 63" and less: "unat (init_balance w) * (room w + (n + left)) < 2 ^ 63"
    by (rule le_less_trans [OF mult_le_mono2 Suc.prems(3)], simp)+
  have calm: "seq_calm env sh (Suc ?c) h" "seq_calm env sh (?c + K) h"
    using seq_calm_mono [OF Suc.prems(2)] K by simp_all
  obtain long g1 where g1: "long_dist D g = (long, g1)" by fastforce
  obtain alloc g2 where g2: "alloc_dist D g1 = (alloc, g2)" by fastforce
  obtain trigger g3 where g3: "alloc_trigger D g2 = (trigger, g3)" by fastforce
  consider "long" | "\<not> long" "alloc" | "\<not> long" "\<not> alloc" by blast
  then show ?case
  proof cases
    case 1
    from calm_long [OF Suc.prems(1) calm(1) assms(3) small, of st len]
    obtain r h1 where "transactional ?tm True (long_tx w bank_fuel) h = Some (r, h1)" "bank_region env sh w n h1"
      "seq_calm env sh ?c h1" "r = Thrown TransactionBegin \<or> (\<exists>c. r = Returned (Finished (True, Some c)))"
      by (auto simp: settled_def)
    then show ?thesis using Suc.IH [OF _ _ less, of h1] 1 g1 by (auto simp: then_tx_def quiet_end_def)
  next
    case 2
    have "unat (init_balance w) * (room w + (Suc n + left)) < 2 ^ 63" using Suc.prems(3) by simp
    note IH = Suc.IH [OF _ _ this]
    from calm_alloc [OF Suc.prems(1) calm(1) assms(3), of st len trigger]
    obtain r h1 where "transactional ?tm False (alloc_tx w bank_fuel trigger) h = Some (r, h1)" "bank_region env sh w (Suc n) h1"
      "seq_calm env sh ?c h1" "r = Thrown TransactionBegin \<or> r = Thrown TransactionAlloc \<or> r = Returned (Finished ())"
      by (auto simp: settled_def)
    then show ?thesis using IH [of h1] 2 g1 g2 g3 by (auto simp: then_tx_def quiet_end_def)
  next
    case 3
    from calm_short_until [OF Suc.prems(1) calm(2) assms(3) small assms(5), of st len count g2]
    obtain r h1 where "short_until ?tm w D count g2 h = Some (r, h1)" "bank_region env sh w n h1"
      "seq_calm env sh ?c h1" "r = Thrown TransactionBegin \<or> (\<exists>g. r = Returned g)" by auto
    then show ?thesis using Suc.IH [OF _ _ less, of h1] 3 g1 g2 by (auto simp: then_tx_def quiet_end_def)
  qed
qed

lemma calm_init:
  assumes "region_ready env sh h" "zeroed w (seq_committed sh h)" "well_sized w" "seq_calm env sh (Suc (Suc c)) h"
  shows "\<exists>r h'. workload_init (seq_memory env sh (bank_start w) len) w h = Some (r, h') \<and>
    (r = Thrown TransactionBegin \<or> r = Returned None \<and> seq_calm env sh c h')"
proof -
  let ?tm = "seq_memory env sh (bank_start w) len"
  let ?B = "[new_segment (bank_start w) (replicate (room w) (init_balance w))]"
  note wp = init_tx_wp [OF assms(3,2)]
  from calm_seq.transactional_calm [OF assms(1,4) _ wp_safe [OF wp], of False "bank_start w" len]
  obtain r1 h1 where tx: "transactional ?tm False (init_tx w) h = Some (r1, h1)" "region_ready env sh h1"
    and r1: "r1 = Thrown TransactionBegin \<or> seq_calm env sh (Suc c) h1 \<and>
      (\<exists>q. atomically (init_tx w) (seq_committed sh h) q (seq_committed sh h1) \<and> r1 = (case q of Inr v \<Rightarrow> Returned v | Inl e \<Rightarrow> Thrown e))"
    by blast
  from r1 show ?thesis
  proof (elim disjE conjE exE)
    assume "r1 = Thrown TransactionBegin"
    then show ?thesis using tx(1) by (simp add: workload_init_def then_tx_def)
  next
    fix q assume c: "seq_calm env sh (Suc c) h1"
      and q: "atomically (init_tx w) (seq_committed sh h) q (seq_committed sh h1)" "r1 = (case q of Inr v \<Rightarrow> Returned v | Inl e \<Rightarrow> Thrown e)"
    then have B: "r1 = Returned ()" "bank_at w (seq_committed sh h1) ?B" using wp_atomically [OF q(1) wp] by simp_all
    note wpc = init_check_wp [OF assms(3) B(2)]
    have "True \<longrightarrow> reads_only (init_check w)" by (simp add: init_check_def segment_bind_def)
    from calm_seq.transactional_calm [OF tx(2) c this wp_safe [OF wpc], of "bank_start w" len]
    obtain r2 h2 where "transactional ?tm True (init_check w) h1 = Some (r2, h2)" "seq_calm env sh c h2"
      "r2 = Thrown TransactionBegin \<or> r2 = Returned True"
      using wp_atomically [OF _ wpc] seq_calm_mono [of env sh "Suc c" _ c] by fastforce
    then show ?thesis using tx(1) B(1) by (auto simp: workload_init_def then_tx_def)
  qed
qed

section \<open>Property\<close>

text \<open>Dice for a run with a long transaction, one that removes an account, and a transfer.\<close>

definition demo_dice :: "nat dice" where
  "demo_dice = \<lparr>long_dist = \<lambda>g. (g = 0, Suc g), alloc_dist = \<lambda>g. (g = 2, Suc g), alloc_trigger = \<lambda>g. (3, g),
     account_dist = \<lambda>n g. (0, g)\<rparr>"

text \<open>C39: a single worker has nothing to complain about, and returns. On a fresh region of the library
  that nobody else uses, when the money fits, \<open>init\<close> returns no error message and neither does the \<open>run\<close>
  after it, whatever the dice, the allocator, the iteration orders and the compare-and-swaps do; and
  the region still holds a sound bank, also when \<open>run\<close> ends with an exception. If moreover no
  compare-and-swap fails spuriously and the dice name two accounts that exist within \<open>K\<close> tries, both do
  end: with no message, or with the exception of a transaction or a segment that cannot be allocated.\<close>

theorem worker_reports_nothing:
  assumes "region_ready env sh h" "zeroed w (seq_committed sh h)" "well_sized w"
    and "unat (init_balance w) * (room w + nbtxperwrk) < 2 ^ 63"
  shows "(\<forall>e1 h1. workload_init (seq_memory env sh (bank_start w) len) w h = Some (Returned e1, h1) \<longrightarrow> e1 = None \<and>
      (\<forall>r2 h2. workload_run (seq_memory env sh (bank_start w) len) w D nbtxperwrk engine h1 = Some (r2, h2) \<longrightarrow>
        (\<forall>e2. r2 = Returned e2 \<longrightarrow> e2 = None) \<and> (\<exists>B. sound_bank w nbtxperwrk (seq_committed sh h2) B))) \<and>
    (seq_calm env sh (nbtxperwrk * K + 3) h \<and> (\<forall>count g. names_accounts D count K g) \<longrightarrow>
      (\<exists>r1 h1. workload_init (seq_memory env sh (bank_start w) len) w h = Some (r1, h1) \<and>
        (r1 = Thrown TransactionBegin \<or> r1 = Returned None \<and>
          (\<exists>r2 h2. workload_run (seq_memory env sh (bank_start w) len) w D nbtxperwrk engine h1 = Some (r2, h2) \<and>
            r2 \<in> {Thrown TransactionBegin, Thrown TransactionAlloc, Returned None}))))"
proof (intro conjI allI impI)
  fix e1 h1 assume i: "workload_init (seq_memory env sh (bank_start w) len) w h = Some (Returned e1, h1)"
  from region_init [OF i assms(1-3) refl] show "e1 = None" by simp
  fix r2 h2 assume run: "workload_run (seq_memory env sh (bank_start w) len) w D nbtxperwrk engine h1 = Some (r2, h2)"
  from region_init [OF i assms(1-3) refl] have "bank_region env sh w 0 h1" by simp
  from region_run_loop [OF run [unfolded workload_run_def] this assms(3)] assms(4)
  have "bank_region env sh w nbtxperwrk h2 \<and> (\<forall>e. r2 = Returned e \<longrightarrow> e = None)" by simp
  then show "\<exists>B. sound_bank w nbtxperwrk (seq_committed sh h2) B" and "\<And>e2. r2 = Returned e2 \<Longrightarrow> e2 = None"
    by (auto simp: bank_region_def)
next
  let ?tm = "seq_memory env sh (bank_start w) len"
  assume a: "seq_calm env sh (nbtxperwrk * K + 3) h \<and> (\<forall>count g. names_accounts D count K g)"
  then have "seq_calm env sh (Suc (Suc (nbtxperwrk * K + 1))) h" by (simp add: eval_nat_numeral)
  from calm_init [OF assms(1-3) this, of len] obtain r1 h1 where i: "workload_init ?tm w h = Some (r1, h1)"
    "r1 = Thrown TransactionBegin \<or> r1 = Returned None \<and> seq_calm env sh (nbtxperwrk * K + 1) h1" by blast
  have "\<exists>r2 h2. workload_run ?tm w D nbtxperwrk engine h1 = Some (r2, h2) \<and> quiet_end r2" if "r1 = Returned None"
    unfolding workload_run_def
    using calm_run_loop [of env sh w 0 h1 nbtxperwrk K D] region_init [OF i(1) assms(1-3) that] i(2) that assms(3,4) a by simp
  then show "\<exists>r1 h1. workload_init ?tm w h = Some (r1, h1) \<and>
        (r1 = Thrown TransactionBegin \<or> r1 = Returned None \<and>
          (\<exists>r2 h2. workload_run ?tm w D nbtxperwrk engine h1 = Some (r2, h2) \<and>
            r2 \<in> {Thrown TransactionBegin, Thrown TransactionAlloc, Returned None}))"
    using i unfolding quiet_end_def by blast
qed

theorem worker_reports_nothing_witness:
  "\<exists>r1 h1. workload_init (seq_memory demo_env 16 4096 64) demo_bank demo_heap = Some (r1, h1) \<and>
    (r1 = Thrown TransactionBegin \<or> r1 = Returned None \<and>
      (\<exists>r2 h2. workload_run (seq_memory demo_env 16 4096 64) demo_bank demo_dice 3 0 h1 = Some (r2, h2) \<and>
        r2 \<in> {Thrown TransactionBegin, Thrown TransactionAlloc, Returned None}))"
proof -
  have b: "bank_start demo_bank = 4096" by (simp add: demo_bank_def)
  have money: "unat (init_balance demo_bank) * (room demo_bank + 3) < 2 ^ 63" by (simp add: demo_bank_def)
  have "names_accounts demo_dice count 1 g" for count g by (simp add: demo_dice_def)
  moreover have "seq_calm demo_env 16 (3 * 1 + 3) demo_heap"
    by (simp add: seq_calm_def demo_env_def quiet_def lock_version_def)
  ultimately show ?thesis
    using worker_reports_nothing [OF demo_ready demo_bank_store demo_bank_sized money, of 64 demo_dice 0 1] unfolding b by blast
qed

end
