(* ===== verification/Interleaving.thy ===== *)
theory Interleaving
  imports TM_Prelude
begin

text \<open>
  Programs of several threads over shared variables, for the examples under \<open>sync-examples\<close> and
  \<open>playground\<close>: each thread is a deterministic program counter machine, one access to shared state
  per step, and any thread may be next. A step that has to wait changes nothing. The locks of
  \<open>lock.c\<close> are part of the shared state.
\<close>

section \<open>Runs and their invariants\<close>

type_synonym ('l, 's) threads_state = "(nat \<Rightarrow> 'l) \<times> 's"

inductive run_threads ::
  "(nat \<Rightarrow> 'l \<Rightarrow> 's \<Rightarrow> 'l \<times> 's) \<Rightarrow> nat \<Rightarrow> ('l, 's) threads_state \<Rightarrow> ('l, 's) threads_state \<Rightarrow> bool"
  for step n c where
  threads_start: "run_threads step n c c"
| threads_step: "run_threads step n c (ls, s) \<Longrightarrow> i < n \<Longrightarrow> step i (ls i) s = (l', s') \<Longrightarrow>
    run_threads step n c (ls(i := l'), s')"

lemma run_threads_trans:
  "run_threads step n d e \<Longrightarrow> run_threads step n c d \<Longrightarrow> run_threads step n c e"
  by (induction rule: run_threads.induct) (auto intro: threads_step)

lemma run_one: "i < n \<Longrightarrow> step i (ls i) s = (l', s') \<Longrightarrow> run_threads step n (ls, s) (ls(i := l'), s')"
  by (rule threads_step [OF threads_start])

text \<open>The run that a schedule gives.\<close>

fun run_schedule ::
  "(nat \<Rightarrow> 'l \<Rightarrow> 's \<Rightarrow> 'l \<times> 's) \<Rightarrow> nat list \<Rightarrow> ('l, 's) threads_state \<Rightarrow> ('l, 's) threads_state" where
  "run_schedule step [] c = c"
| "run_schedule step (i # is) (ls, s) =
     (let (l', s') = step i (ls i) s in run_schedule step is (ls(i := l'), s'))"

lemma run_schedule: "\<forall>i \<in> set is. i < n \<Longrightarrow> run_threads step n c (run_schedule step is c)"
proof (induction step "is" c rule: run_schedule.induct)
  case (2 step i "is" ls s)
  obtain l' s' where st: "step i (ls i) s = (l', s')" by fastforce
  have "run_threads step n (ls, s) (ls(i := l'), s')" using 2(2) st by (intro run_one) simp_all
  with 2 st show ?case by (auto intro: run_threads_trans)
qed (simp add: threads_start)

text \<open>The contract of an invariant: it holds at the start and each step of each thread keeps it.\<close>

locale thread_invariant =
  fixes step :: "nat \<Rightarrow> 'l \<Rightarrow> 's \<Rightarrow> 'l \<times> 's"
    and n :: nat
    and c :: "('l, 's) threads_state"
    and I :: "(nat \<Rightarrow> 'l) \<Rightarrow> 's \<Rightarrow> bool"
  assumes init: "I (fst c) (snd c)"
    and keep: "I ls s \<Longrightarrow> i < n \<Longrightarrow> step i (ls i) s = (l', s') \<Longrightarrow> I (ls(i := l')) s'"
begin

lemma holds: "run_threads step n c d \<Longrightarrow> I (fst d) (snd d)"
  by (induction rule: run_threads.induct) (auto intro: init keep simp del: fun_upd_apply)

end

text \<open>Sums over threads when one of them moves.\<close>

lemma sum_thread_upd:
  fixes f :: "'l \<Rightarrow> int"
  assumes "i < (n :: nat)"
  shows "(\<Sum>j < n. f ((ls(i := l)) j)) = (\<Sum>j < n. f (ls j)) - f (ls i) + f l"
proof -
  have "(\<Sum>j < n. f ((ls(i := l)) j)) = f l + (\<Sum>j \<in> {..<n} - {i}. f (ls j))"
    using assms by (subst sum.remove [of _ i]) simp_all
  moreover have "(\<Sum>j < n. f (ls j)) = f (ls i) + (\<Sum>j \<in> {..<n} - {i}. f (ls j))"
    using assms by (subst sum.remove [of _ i]) simp_all
  ultimately show ?thesis by simp
qed

section \<open>The lock of lock.c\<close>

text \<open>
  The mutex and the condition variable: the thread that holds the mutex, and the threads asleep on
  the condition. The two \<open>pthread\<close> initialisations succeed.
\<close>

record lock_t =
  holder :: "nat option"
  asleep :: "nat set"

definition lock_init :: lock_t where
  "lock_init = \<lparr>holder = None, asleep = {}\<rparr>"

text \<open>\<open>None\<close>: the caller waits.\<close>

definition lock_acquire :: "nat \<Rightarrow> lock_t \<Rightarrow> lock_t option" where
  "lock_acquire i lock = (if holder lock = None then Some (lock\<lparr>holder := Some i\<rparr>) else None)"

definition lock_release :: "lock_t \<Rightarrow> lock_t" where
  "lock_release lock = lock\<lparr>holder := None\<rparr>"

text \<open>The first half of \<open>lock_wait\<close>; the caller acquires the lock again once it is awake.\<close>

definition lock_wait :: "nat \<Rightarrow> lock_t \<Rightarrow> lock_t" where
  "lock_wait i lock = lock\<lparr>holder := None, asleep := insert i (asleep lock)\<rparr>"

definition lock_wake_up :: "lock_t \<Rightarrow> lock_t" where
  "lock_wake_up lock = lock\<lparr>asleep := {}\<rparr>"

text \<open>The threads inside a critical section, by program counter, against the holder.\<close>

definition excludes :: "('l \<Rightarrow> bool) \<Rightarrow> nat \<Rightarrow> (nat \<Rightarrow> 'l) \<Rightarrow> lock_t \<Rightarrow> bool" where
  "excludes inside n ls lock \<longleftrightarrow> (\<forall>i < n. inside (ls i) \<longleftrightarrow> holder lock = Some i)"

lemma excludes_other: "excludes inside n ls lock \<Longrightarrow> i < n \<Longrightarrow> j < n \<Longrightarrow> inside (ls i) \<Longrightarrow> inside (ls j) \<Longrightarrow> j = i"
  by (auto simp: excludes_def)

lemma excludes_stay:
  "excludes inside n ls lock \<Longrightarrow> i < n \<Longrightarrow> inside l' \<longleftrightarrow> inside (ls i) \<Longrightarrow> excludes inside n (ls(i := l')) lock"
  by (auto simp: excludes_def)

lemma excludes_acquire:
  "excludes inside n ls lock \<Longrightarrow> i < n \<Longrightarrow> lock_acquire i lock = Some lock' \<Longrightarrow> inside l' \<Longrightarrow>
    excludes inside n (ls(i := l')) lock'"
  by (auto simp: excludes_def lock_acquire_def split: if_splits)

lemma excludes_release:
  "excludes inside n ls lock \<Longrightarrow> i < n \<Longrightarrow> inside (ls i) \<Longrightarrow> \<not> inside l' \<Longrightarrow>
    excludes inside n (ls(i := l')) (lock_release lock)"
  by (auto simp: excludes_def lock_release_def)

lemma excludes_wait:
  "excludes inside n ls lock \<Longrightarrow> i < n \<Longrightarrow> inside (ls i) \<Longrightarrow> \<not> inside l' \<Longrightarrow>
    excludes inside n (ls(i := l')) (lock_wait i lock)"
  by (auto simp: excludes_def lock_wait_def)

lemma excludes_wake_up [simp]: "excludes inside n ls (lock_wake_up lock) \<longleftrightarrow> excludes inside n ls lock"
  by (simp add: excludes_def lock_wake_up_def)

end
