(* ===== verification/Timing.thy ===== *)
theory Timing
  imports TM_Prelude
begin

text \<open>
  \<open>Chrono\<close> and \<open>Latch\<close> of \<open>grading/common.hpp\<close>. What \<open>clock_gettime\<close> and \<open>clock_getres\<close> answer is
  an argument: seconds and nanoseconds, or \<open>None\<close> for an error.
\<close>

section \<open>Chrono\<close>

type_synonym tick = "64 word"
type_synonym timespec = "64 word \<times> 64 word"

definition invalid_tick :: tick where
  "invalid_tick = 0xbadc0de"

record chrono =
  total_ticks :: tick
  local_ticks :: tick

text \<open>The constructor leaves the segment counter as it finds it.\<close>

definition new_chrono :: "tick \<Rightarrow> tick \<Rightarrow> chrono" where
  "new_chrono tick garbage = \<lparr>total_ticks = tick, local_ticks = garbage\<rparr>"

definition convert :: "timespec option \<Rightarrow> tick" where
  "convert reading =
     (case reading of
        None \<Rightarrow> invalid_tick
      | Some (tv_sec, tv_nsec) \<Rightarrow>
          (let res = tv_nsec + tv_sec * 1000000000
           in if res = invalid_tick then invalid_tick + 1 else res))"

definition get_resolution :: "timespec option \<Rightarrow> tick" where
  "get_resolution getres = convert getres"

definition chrono_start :: "timespec option \<Rightarrow> chrono \<Rightarrow> chrono" where
  "chrono_start now c = c\<lparr>local_ticks := convert now\<rparr>"

definition chrono_delta :: "timespec option \<Rightarrow> chrono \<Rightarrow> tick" where
  "chrono_delta now c = convert now - local_ticks c"

definition chrono_stop :: "timespec option \<Rightarrow> chrono \<Rightarrow> chrono" where
  "chrono_stop now c = c\<lparr>total_ticks := total_ticks c + chrono_delta now c\<rparr>"

definition chrono_reset :: "chrono \<Rightarrow> chrono" where
  "chrono_reset c = c\<lparr>total_ticks := 0\<rparr>"

definition get_tick :: "chrono \<Rightarrow> tick" where
  "get_tick c = total_ticks c"

text \<open>A reading is never mistaken for the lack of one.\<close>

lemma convert_invalid: "convert reading = invalid_tick \<longleftrightarrow> reading = None"
  by (auto simp: convert_def Let_def split: option.splits)

text \<open>A segment adds its length, and nothing but \<open>reset\<close> takes it away again.\<close>

lemma chrono_segment:
  "get_tick (chrono_stop t2 (chrono_start t1 c)) = get_tick c + (convert t2 - convert t1)"
  by (simp add: get_tick_def chrono_stop_def chrono_start_def chrono_delta_def)

fun chrono_segments :: "(timespec option \<times> timespec option) list \<Rightarrow> chrono \<Rightarrow> chrono" where
  "chrono_segments [] c = c"
| "chrono_segments ((t1, t2) # ts) c = chrono_segments ts (chrono_stop t2 (chrono_start t1 c))"

lemma chrono_segments_sum:
  "get_tick (chrono_segments ts c) = get_tick c + (\<Sum>(t1, t2) \<leftarrow> ts. convert t2 - convert t1)"
  by (induction ts c rule: chrono_segments.induct) (simp_all add: chrono_segment)

section \<open>Latch\<close>

text \<open>
  The state of the latch is its flag; the mutex makes each operation atomic. A waiter that has to
  go on waiting gets \<open>None\<close>; \<open>overtime\<close> is whether its time is up.
\<close>

definition latch_raise :: "bool \<Rightarrow> bool" where
  "latch_raise raised = True"

definition latch_wait :: "tick \<Rightarrow> bool \<Rightarrow> bool \<Rightarrow> (bool \<times> bool) option" where
  "latch_wait maxtick overtime raised =
     (if maxtick = invalid_tick
      then if \<not> raised then None else Some (True, False)
      else if raised then Some (True, False)
      else if overtime then Some (False, raised)
      else None)"

lemma latch_wait_raised: "latch_wait maxtick overtime raised = Some (True, r) \<longleftrightarrow> raised \<and> \<not> r"
  by (auto simp: latch_wait_def)

lemma latch_wait_overtime:
  "latch_wait maxtick overtime raised = Some (False, r) \<longleftrightarrow>
     maxtick \<noteq> invalid_tick \<and> overtime \<and> \<not> raised \<and> \<not> r"
  by (auto simp: latch_wait_def)

lemma latch_wait_None:
  "latch_wait maxtick overtime raised = None \<longleftrightarrow> \<not> raised \<and> (maxtick = invalid_tick \<or> \<not> overtime)"
  by (auto simp: latch_wait_def)

end
