(* ===== verification/Sync.thy ===== *)
theory Sync
  imports Interleaving Timing
begin

text \<open>
  The class \<open>Sync\<close> and the function \<open>measure\<close> of \<open>grading/grading.cpp\<close>: a master starts rounds of
  work (initialisation, \<open>nbrepeats\<close> performance runs, a check) on all workers at once and waits for
  each to end. Every thread is a program counter machine with one access to shared state per step;
  threads \<open>0\<close> to \<open>nbworkers - 1\<close> are the workers, the next one is the master. What the workload
  answers, what the clock shows and when a wait is overtime are parameters.
\<close>

section \<open>The shared state\<close>

datatype status = Wait | Run | Abort | Done | Fail | Quit

text \<open>
  The members of \<open>Sync\<close>, and three things the environment knows: how often the clock was read and
  the latch waited for, and which threads have returned.
\<close>

record sync =
  nbready :: "32 word"
  sync_status :: status
  errmsg :: "string option"
  runtime :: chrono
  donelatch :: bool
  clock_reads :: nat
  waits :: nat
  exited :: "nat set"

definition new_sync :: "tick \<Rightarrow> sync" where
  "new_sync garbage =
     \<lparr>nbready = 0, sync_status = Done, errmsg = None, runtime = new_chrono 0 garbage, donelatch = False,
      clock_reads = 0, waits = 0, exited = {}\<rparr>"

text \<open>
  What a part of the workload does for a worker in a round: return no message, return one, throw, or
  never return. The last is what a worker does in \<open>check\<close> that waits at the barrier of the workload for
  one that threw (\<open>Check_Throws\<close>). Every part is entered at most once by each worker, so one answer for
  each covers every way the workload can go, however the parts of different workers depend on each other.
\<close>

datatype work_end = Quiet | Reports string | Throws | Hangs

record environment_of_measure =
  nbworkers :: nat
  nbrepeats :: nat
  work :: "nat \<Rightarrow> nat \<Rightarrow> work_end"
  clock :: "nat \<Rightarrow> timespec option"
  overtime :: "nat \<Rightarrow> bool"
  maxtick_init :: tick
  maxtick_perf :: tick
  maxtick_chck :: tick

text \<open>Reading the clock.\<close>

definition start_runtime :: "environment_of_measure \<Rightarrow> sync \<Rightarrow> sync" where
  "start_runtime E s =
     s\<lparr>runtime := chrono_start (clock E (clock_reads s)) (runtime s), clock_reads := clock_reads s + 1\<rparr>"

definition stop_runtime :: "environment_of_measure \<Rightarrow> sync \<Rightarrow> sync" where
  "stop_runtime E s =
     s\<lparr>runtime := chrono_stop (clock E (clock_reads s)) (runtime s), clock_reads := clock_reads s + 1\<rparr>"

section \<open>The workers\<close>

text \<open>
  A worker in round \<open>r\<close>. In \<open>worker_wait\<close>: \<open>Spin\<close> before a load of the status, \<open>Arrive\<close> before the
  \<open>fetch_add\<close>, \<open>ResetReady\<close> and \<open>Launch\<close> before the two stores of the last to arrive, \<open>Await\<close> before a
  load in the second loop. \<open>Busy\<close>: about to do the work. In \<open>worker_notify\<close>: \<open>Report\<close> and \<open>Aborting\<close>
  before the two stores of an error, \<open>Finish\<close> before the \<open>fetch_add\<close>, \<open>ResetDone\<close>, \<open>Judge\<close>,
  \<open>Declare\<close>, \<open>StopClock\<close>, \<open>RaiseLatch\<close> before the steps of the last to finish; the flag says whether
  the worker came from its exception handler and will return. \<open>Left\<close>: returned before round \<open>r\<close>.
\<close>

datatype worker_pc =
    Spin nat | Arrive nat | ResetReady nat | Launch nat | Await nat | Busy nat
  | Report nat string bool | Aborting nat bool | Finish nat bool
  | ResetDone nat bool | Judge nat bool | Declare nat bool status | StopClock nat bool | RaiseLatch nat bool
  | Left nat

definition leave :: "nat \<Rightarrow> nat \<Rightarrow> sync \<Rightarrow> worker_pc \<times> sync" where
  "leave i r s = (Left r, s\<lparr>exited := insert i (exited s)\<rparr>)"

text \<open>\<open>worker_wait\<close>\<close>

fun worker_wait :: "nat \<Rightarrow> nat \<Rightarrow> worker_pc \<Rightarrow> sync \<Rightarrow> worker_pc \<times> sync" where
  "worker_wait n i (Spin r) s =
     (if sync_status s = Wait then (Arrive r, s)
      else if sync_status s = Quit then leave i r s
      else (Spin r, s))"
| "worker_wait n i (Arrive r) s =
     (let res = nbready s
      in (if res + 1 = of_nat n then ResetReady r else Await r, s\<lparr>nbready := res + 1\<rparr>))"
| "worker_wait n i (ResetReady r) s = (Launch r, s\<lparr>nbready := 0\<rparr>)"
| "worker_wait n i (Launch r) s = (Busy r, s\<lparr>sync_status := Run\<rparr>)"
| "worker_wait n i (Await r) s =
     (if sync_status s = Run \<or> sync_status s = Abort then (Busy r, s) else (Await r, s))"
| "worker_wait n i p s = (p, s)"

text \<open>After \<open>worker_notify\<close>: the next round, or the end of the thread after an exception.\<close>

definition next_round :: "nat \<Rightarrow> nat \<Rightarrow> bool \<Rightarrow> sync \<Rightarrow> worker_pc \<times> sync" where
  "next_round i r thrown s = (if thrown then leave i (r + 1) s else (Spin (r + 1), s))"

text \<open>\<open>worker_notify\<close>, from its first access on.\<close>

definition notify_of :: "nat \<Rightarrow> string option \<Rightarrow> bool \<Rightarrow> worker_pc" where
  "notify_of r error thrown = (case error of None \<Rightarrow> Finish r thrown | Some e \<Rightarrow> Report r e thrown)"

fun worker_notify :: "environment_of_measure \<Rightarrow> nat \<Rightarrow> worker_pc \<Rightarrow> sync \<Rightarrow> worker_pc \<times> sync" where
  "worker_notify E i (Report r error x) s = (Aborting r x, s\<lparr>errmsg := Some error\<rparr>)"
| "worker_notify E i (Aborting r x) s = (Finish r x, s\<lparr>sync_status := Abort\<rparr>)"
| "worker_notify E i (Finish r x) s =
     (let res = nbready s; s' = s\<lparr>nbready := res + 1\<rparr>
      in if res + 1 = of_nat (nbworkers E) then (ResetDone r x, s') else next_round i r x s')"
| "worker_notify E i (ResetDone r x) s = (Judge r x, s\<lparr>nbready := 0\<rparr>)"
| "worker_notify E i (Judge r x) s = (Declare r x (if sync_status s = Abort then Fail else Done), s)"
| "worker_notify E i (Declare r x st) s = (StopClock r x, s\<lparr>sync_status := st\<rparr>)"
| "worker_notify E i (StopClock r x) s = (RaiseLatch r x, stop_runtime E s)"
| "worker_notify E i (RaiseLatch r x) s = next_round i r x (s\<lparr>donelatch := latch_raise (donelatch s)\<rparr>)"
| "worker_notify E i p s = (p, s)"

text \<open>
  The thread: round 0 is \<open>init\<close>, rounds 1 to \<open>nbrepeats\<close> are \<open>run\<close>, the next is \<open>check\<close>; a round after
  that throws. An exception ends in a second notification.
\<close>

definition rounds :: "environment_of_measure \<Rightarrow> nat" where
  "rounds E = nbrepeats E + 2"

definition do_work :: "environment_of_measure \<Rightarrow> nat \<Rightarrow> nat \<Rightarrow> work_end" where
  "do_work E i r = (if r < rounds E then work E i r else Throws)"

definition worker_exception :: string where
  "worker_exception = ''Internal worker exception(s)''"

fun worker_step :: "environment_of_measure \<Rightarrow> nat \<Rightarrow> worker_pc \<Rightarrow> sync \<Rightarrow> worker_pc \<times> sync" where
  "worker_step E i (Busy r) s =
     (case do_work E i r of
        Quiet \<Rightarrow> (notify_of r None False, s)
      | Reports error \<Rightarrow> (notify_of r (Some error) False, s)
      | Throws \<Rightarrow> (notify_of r (Some worker_exception) True, s)
      | Hangs \<Rightarrow> (Busy r, s))"
| "worker_step E i (Spin r) s = worker_wait (nbworkers E) i (Spin r) s"
| "worker_step E i (Arrive r) s = worker_wait (nbworkers E) i (Arrive r) s"
| "worker_step E i (ResetReady r) s = worker_wait (nbworkers E) i (ResetReady r) s"
| "worker_step E i (Launch r) s = worker_wait (nbworkers E) i (Launch r) s"
| "worker_step E i (Await r) s = worker_wait (nbworkers E) i (Await r) s"
| "worker_step E i p s = worker_notify E i p s"

section \<open>The master\<close>

text \<open>
  The master in round \<open>k\<close> with the times measured so far. \<open>Notify\<close> and \<open>StartClock\<close> are
  \<open>master_notify\<close>; \<open>WaitDone\<close>, \<open>Inspect\<close> and \<open>FetchError\<close> are \<open>master_wait\<close>; \<open>Join\<close> is \<open>master_join\<close>
  and \<open>Joining\<close> the loop over the threads. The last three are the ways \<open>measure\<close> ends: it returns,
  or throws \<open>BoundedOverrun\<close> or \<open>Unreachable\<close> with the threads detached.
\<close>

datatype master_pc =
    Notify nat "tick list" | StartClock nat "tick list" | WaitDone nat "tick list"
  | Inspect nat "tick list" | FetchError nat "tick list"
  | Join "string option" "tick list" | Joining nat "string option" "tick list"
  | Measured "string option" "tick list" | Overrun | Unreachable

text \<open>The time limit of a round.\<close>

definition maxtick_of :: "environment_of_measure \<Rightarrow> nat \<Rightarrow> tick" where
  "maxtick_of E k =
     (if k = 0 then maxtick_init E else if k \<le> nbrepeats E then maxtick_perf E else maxtick_chck E)"

text \<open>What follows a round that went well.\<close>

definition next_test :: "environment_of_measure \<Rightarrow> nat \<Rightarrow> tick list \<Rightarrow> master_pc" where
  "next_test E k ts = (if k + 1 < rounds E then Notify (k + 1) ts else Join None ts)"

fun master_sync :: "environment_of_measure \<Rightarrow> master_pc \<Rightarrow> sync \<Rightarrow> master_pc \<times> sync" where
  "master_sync E (Notify k ts) s = (StartClock k ts, s\<lparr>sync_status := Wait\<rparr>)"
| "master_sync E (StartClock k ts) s = (WaitDone k ts, start_runtime E s)"
| "master_sync E (WaitDone k ts) s =
     (case latch_wait (maxtick_of E k) (overtime E (waits s)) (donelatch s) of
        None \<Rightarrow> (WaitDone k ts, s\<lparr>waits := waits s + 1\<rparr>)
      | Some (True, raised) \<Rightarrow> (Inspect k ts, s\<lparr>donelatch := raised, waits := waits s + 1\<rparr>)
      | Some (False, raised) \<Rightarrow> (Overrun, s\<lparr>donelatch := raised, waits := waits s + 1\<rparr>))"
| "master_sync E (Inspect k ts) s =
     (case sync_status s of
        Done \<Rightarrow> (next_test E k (ts @ [get_tick (runtime s)]), s)
      | Fail \<Rightarrow> (FetchError k ts, s)
      | _ \<Rightarrow> (Unreachable, s))"
| "master_sync E (FetchError k ts) s = (Join (errmsg s) ts, s)"
| "master_sync E (Join error ts) s = (Joining 0 error ts, s\<lparr>sync_status := Quit\<rparr>)"
| "master_sync E p s = (p, s)"

text \<open>The master's part of \<open>measure\<close>: the rounds, then the threads are joined one by one.\<close>

fun master_step :: "environment_of_measure \<Rightarrow> master_pc \<Rightarrow> sync \<Rightarrow> master_pc \<times> sync" where
  "master_step E (Joining j error ts) s =
     (if j < nbworkers E
      then if j \<in> exited s then (Joining (j + 1) error ts, s) else (Joining j error ts, s)
      else (Measured error ts, s))"
| "master_step E (Notify k ts) s = master_sync E (Notify k ts) s"
| "master_step E (StartClock k ts) s = master_sync E (StartClock k ts) s"
| "master_step E (WaitDone k ts) s = master_sync E (WaitDone k ts) s"
| "master_step E (Inspect k ts) s = master_sync E (Inspect k ts) s"
| "master_step E (FetchError k ts) s = master_sync E (FetchError k ts) s"
| "master_step E (Join error ts) s = master_sync E (Join error ts) s"
| "master_step E p s = (p, s)"

text \<open>
  The tuple \<open>measure\<close> returns: \<open>nth_element\<close> puts at \<open>posmedian\<close> what a sort would. With an error
  the times are undefined.
\<close>

definition measure_result :: "environment_of_measure \<Rightarrow> string option \<Rightarrow> tick list \<Rightarrow> string option \<times> tick \<times> tick \<times> tick" where
  "measure_result E error ts =
     (let posmedian = nbrepeats E div 2
      in (error, ts ! 0, sort (take (nbrepeats E) (drop 1 ts)) ! posmedian, ts ! (nbrepeats E + 1)))"

section \<open>All threads\<close>

datatype thread_pc = Worker worker_pc | Master master_pc

fun measure_step :: "environment_of_measure \<Rightarrow> nat \<Rightarrow> thread_pc \<Rightarrow> sync \<Rightarrow> thread_pc \<times> sync" where
  "measure_step E i (Worker p) s = (let (p', s') = worker_step E i p s in (Worker p', s'))"
| "measure_step E i (Master p) s = (let (p', s') = master_step E p s in (Master p', s'))"

definition measure_start :: "environment_of_measure \<Rightarrow> tick \<Rightarrow> (thread_pc, sync) threads_state" where
  "measure_start E garbage =
     (\<lambda>i. if i = nbworkers E then Master (Notify 0 []) else Worker (Spin 0), new_sync garbage)"

end
