(* ===== verification/Sync_Invariant.thy ===== *)
theory Sync_Invariant
  imports Sync
begin

text \<open>
  The invariant of \<open>Sync\<close>: every round goes through six phases, and in each the program counters, the
  counter \<open>nbready\<close>, the status, the latch and the error message fit together.
\<close>

section \<open>Counting workers\<close>

definition those :: "nat \<Rightarrow> (nat \<Rightarrow> 'p \<Rightarrow> bool) \<Rightarrow> (nat \<Rightarrow> 'p) \<Rightarrow> nat set" where
  "those n P w = {i. i < n \<and> P i (w i)}"

lemma those_finite [simp]: "finite (those n P w)"
  by (rule finite_subset [of _ "{..<n}"]) (auto simp: those_def)

lemma those_enter: "i < n \<Longrightarrow> \<not> P i (w i) \<Longrightarrow> P i p \<Longrightarrow> card (those n P (w(i := p))) = Suc (card (those n P w))"
proof -
  assume a: "i < n" "\<not> P i (w i)" "P i p"
  then have "those n P (w(i := p)) = insert i (those n P w)" by (auto simp: those_def)
  moreover have "i \<notin> those n P w" using a(2) by (simp add: those_def)
  ultimately show ?thesis by simp
qed

lemma those_same: "P i p = P i (w i) \<Longrightarrow> those n P (w(i := p)) = those n P w"
  by (auto simp: those_def)

lemma those_none: "\<forall>i < n. \<not> P i (w i) \<Longrightarrow> card (those n P w) = 0"
  by (auto simp: those_def)

lemma those_but_one:
  assumes "i < n" "\<not> P i (w i)"
  shows "Suc (card (those n P w)) \<le> n" and "Suc (card (those n P w)) = n \<longleftrightarrow> (\<forall>j < n. j \<noteq> i \<longrightarrow> P j (w j))"
proof -
  have sub: "those n P w \<subseteq> {..<n} - {i}" using assms by (auto simp: those_def)
  have c: "card ({..<n} - {i}) = n - 1" using assms(1) by simp
  have le: "card (those n P w) \<le> n - 1" using card_mono [OF _ sub] c by simp
  then show "Suc (card (those n P w)) \<le> n" using assms(1) by simp
  show "Suc (card (those n P w)) = n \<longleftrightarrow> (\<forall>j < n. j \<noteq> i \<longrightarrow> P j (w j))"
  proof
    assume "Suc (card (those n P w)) = n"
    then have "those n P w = {..<n} - {i}" using c by (intro card_subset_eq [OF _ sub]) simp_all
    then show "\<forall>j < n. j \<noteq> i \<longrightarrow> P j (w j)" by (auto simp: those_def)
  next
    assume "\<forall>j < n. j \<noteq> i \<longrightarrow> P j (w j)"
    then have "those n P w = {..<n} - {i}" using sub by (auto simp: those_def)
    then show "Suc (card (those n P w)) = n" using c assms(1) by simp
  qed
qed

lemma unat_of_nat_32: "k < 2 ^ 32 \<Longrightarrow> unat (of_nat k :: 32 word) = k"
  by (simp add: unat_of_nat take_bit_nat_eq_self)

lemma of_nat_32_succ:
  assumes "Suc k \<le> n" "n < 2 ^ 32"
  shows "(of_nat k + 1 :: 32 word) = of_nat n \<longleftrightarrow> Suc k = n"
proof -
  have "(of_nat (Suc k) :: 32 word) = of_nat n \<longleftrightarrow> Suc k = n"
    using assms by (metis le_less_trans unat_of_nat_32)
  then show ?thesis by (simp add: add.commute)
qed

section \<open>What a round says\<close>

definition message :: "work_end \<Rightarrow> string option" where
  "message e = (case e of Quiet \<Rightarrow> None | Reports msg \<Rightarrow> Some msg | Throws \<Rightarrow> Some worker_exception | Hangs \<Rightarrow> None)"

definition noisy :: "environment_of_measure \<Rightarrow> nat \<Rightarrow> nat \<Rightarrow> bool" where
  "noisy E r i \<longleftrightarrow> message (do_work E i r) \<noteq> None"

definition throws :: "environment_of_measure \<Rightarrow> nat \<Rightarrow> nat \<Rightarrow> bool" where
  "throws E r i \<longleftrightarrow> do_work E i r = Throws"

definition round_fails :: "environment_of_measure \<Rightarrow> nat \<Rightarrow> bool" where
  "round_fails E r \<longleftrightarrow> (\<exists>i < nbworkers E. noisy E r i)"

definition messages :: "environment_of_measure \<Rightarrow> nat \<Rightarrow> string set" where
  "messages E r = {e. \<exists>i < nbworkers E. message (do_work E i r) = Some e}"

text \<open>All parts of a round return or throw.\<close>

definition all_end :: "environment_of_measure \<Rightarrow> nat \<Rightarrow> bool" where
  "all_end E r \<longleftrightarrow> (\<forall>i < nbworkers E. do_work E i r \<noteq> Hangs)"

definition clean :: "environment_of_measure \<Rightarrow> nat \<Rightarrow> bool" where
  "clean E R \<longleftrightarrow> (\<forall>r < R. \<not> round_fails E r \<and> all_end E r)"

lemma throws_noisy: "throws E r i \<Longrightarrow> noisy E r i"
  by (simp add: throws_def noisy_def message_def)

lemma noisy_ends: "noisy E r i \<Longrightarrow> do_work E i r \<noteq> Hangs"
  by (auto simp: noisy_def message_def)

lemma clean_Suc: "clean E (Suc R) \<longleftrightarrow> clean E R \<and> \<not> round_fails E R \<and> all_end E R"
  by (auto simp: clean_def less_Suc_eq)

section \<open>Phases\<close>

text \<open>A worker between round \<open>R - 1\<close> and round \<open>R\<close>.\<close>

definition rested :: "environment_of_measure \<Rightarrow> nat \<Rightarrow> nat \<Rightarrow> worker_pc \<Rightarrow> bool" where
  "rested E R i p \<longleftrightarrow>
     p = (if R > 0 \<and> throws E (R - 1) i then Left R else Spin R) \<and> (R > 0 \<longrightarrow> do_work E i (R - 1) \<noteq> Hangs)"

text \<open>A worker that runs round \<open>R\<close> and has not been counted out.\<close>

fun at_work :: "environment_of_measure \<Rightarrow> nat \<Rightarrow> nat \<Rightarrow> worker_pc \<Rightarrow> bool" where
  "at_work E R i (Await r) \<longleftrightarrow> r = R"
| "at_work E R i (Busy r) \<longleftrightarrow> r = R"
| "at_work E R i (Report r e x) \<longleftrightarrow> r = R \<and> message (do_work E i R) = Some e \<and> (x \<longleftrightarrow> throws E R i)"
| "at_work E R i (Aborting r x) \<longleftrightarrow> r = R \<and> noisy E R i \<and> (x \<longleftrightarrow> throws E R i)"
| "at_work E R i (Finish r x) \<longleftrightarrow> r = R \<and> (x \<longleftrightarrow> throws E R i) \<and> do_work E i R \<noteq> Hangs"
| "at_work E R i p \<longleftrightarrow> False"

definition announced :: "environment_of_measure \<Rightarrow> nat \<Rightarrow> nat \<Rightarrow> worker_pc \<Rightarrow> bool" where
  "announced E R i p \<longleftrightarrow> (\<exists>x. p = Finish R x) \<or> rested E (Suc R) i p"

text \<open>The last worker of a round, and the status it works on.\<close>

fun closes :: "environment_of_measure \<Rightarrow> nat \<Rightarrow> sync \<Rightarrow> nat \<Rightarrow> worker_pc \<Rightarrow> bool" where
  "closes E R s i (ResetDone r x) \<longleftrightarrow> r = R \<and> (x \<longleftrightarrow> throws E R i) \<and> do_work E i R \<noteq> Hangs \<and>
     sync_status s = (if round_fails E R then Abort else Run)"
| "closes E R s i (Judge r x) \<longleftrightarrow> r = R \<and> (x \<longleftrightarrow> throws E R i) \<and> do_work E i R \<noteq> Hangs \<and> nbready s = 0 \<and>
     sync_status s = (if round_fails E R then Abort else Run)"
| "closes E R s i (Declare r x st) \<longleftrightarrow> r = R \<and> (x \<longleftrightarrow> throws E R i) \<and> do_work E i R \<noteq> Hangs \<and> nbready s = 0 \<and>
     st = (if round_fails E R then Fail else Done) \<and> sync_status s \<in> {Run, Abort}"
| "closes E R s i (StopClock r x) \<longleftrightarrow> r = R \<and> (x \<longleftrightarrow> throws E R i) \<and> do_work E i R \<noteq> Hangs \<and> nbready s = 0 \<and>
     sync_status s = (if round_fails E R then Fail else Done)"
| "closes E R s i (RaiseLatch r x) \<longleftrightarrow> r = R \<and> (x \<longleftrightarrow> throws E R i) \<and> do_work E i R \<noteq> Hangs \<and> nbready s = 0 \<and>
     sync_status s = (if round_fails E R then Fail else Done)"
| "closes E R s i p \<longleftrightarrow> False"

definition message_ok :: "environment_of_measure \<Rightarrow> nat \<Rightarrow> bool \<Rightarrow> sync \<Rightarrow> bool" where
  "message_ok E R needed s \<longleftrightarrow>
     (\<forall>e. errmsg s = Some e \<longrightarrow> e \<in> messages E R) \<and> (needed \<longrightarrow> errmsg s \<noteq> None)"

text \<open>The master while a round is under way, and what it may report.\<close>

definition awaits :: "nat \<Rightarrow> master_pc \<Rightarrow> bool" where
  "awaits R m \<longleftrightarrow> m = Overrun \<or> (\<exists>ts. length ts = R \<and> (m = StartClock R ts \<or> m = WaitDone R ts))"

definition verdict :: "environment_of_measure \<Rightarrow> nat \<Rightarrow> string option \<Rightarrow> tick list \<Rightarrow> bool" where
  "verdict E R error ts \<longleftrightarrow>
     (case error of
        None \<Rightarrow> R = rounds E \<and> clean E R \<and> length ts = R
      | Some e \<Rightarrow> \<exists>r. R = Suc r \<and> r < rounds E \<and> clean E r \<and> all_end E r \<and> e \<in> messages E r \<and> length ts = r)"

text \<open>Between the rounds: the status of the last one, and the master on its way to the next.\<close>

definition idle :: "environment_of_measure \<Rightarrow> nat \<Rightarrow> (nat \<Rightarrow> worker_pc) \<Rightarrow> master_pc \<Rightarrow> sync \<Rightarrow> bool" where
  "idle E R w m s \<longleftrightarrow> (\<forall>i < nbworkers E. rested E R i (w i)) \<and> nbready s = 0 \<and> \<not> donelatch s \<and>
     (sync_status s = Done \<and> clean E R \<and> errmsg s = None \<and>
        ((\<exists>ts. m = Notify R ts \<and> R < rounds E \<and> length ts = R) \<or>
         (\<exists>ts. m = Join None ts \<and> R = rounds E \<and> length ts = R) \<or>
         (\<exists>r ts. m = Inspect r ts \<and> R = Suc r \<and> r < rounds E \<and> length ts = r)) \<or>
      (\<exists>r e ts. sync_status s = Fail \<and> R = Suc r \<and> r < rounds E \<and> clean E r \<and> round_fails E r \<and>
         errmsg s = Some e \<and> e \<in> messages E r \<and> length ts = r \<and>
         (m = Inspect r ts \<or> m = FetchError r ts \<or> m = Join (Some e) ts)))"

text \<open>Workers arrive.\<close>

definition gather :: "environment_of_measure \<Rightarrow> nat \<Rightarrow> (nat \<Rightarrow> worker_pc) \<Rightarrow> master_pc \<Rightarrow> sync \<Rightarrow> bool" where
  "gather E R w m s \<longleftrightarrow> R < rounds E \<and> clean E R \<and> errmsg s = None \<and> \<not> donelatch s \<and> awaits R m \<and>
     sync_status s = Wait \<and> (\<forall>i < nbworkers E. w i \<in> {Spin R, Arrive R, Await R}) \<and>
     (\<exists>i < nbworkers E. w i \<noteq> Await R) \<and>
     nbready s = of_nat (card (those (nbworkers E) (\<lambda>i p. p = Await R) w))"

text \<open>All have arrived, the last one opens the round.\<close>

definition full :: "environment_of_measure \<Rightarrow> nat \<Rightarrow> (nat \<Rightarrow> worker_pc) \<Rightarrow> master_pc \<Rightarrow> sync \<Rightarrow> bool" where
  "full E R w m s \<longleftrightarrow> R < rounds E \<and> clean E R \<and> errmsg s = None \<and> \<not> donelatch s \<and> awaits R m \<and>
     sync_status s = Wait \<and>
     (\<exists>k < nbworkers E. (w k = ResetReady R \<or> w k = Launch R \<and> nbready s = 0) \<and>
        (\<forall>i < nbworkers E. i \<noteq> k \<longrightarrow> w i = Await R))"

text \<open>The round runs.\<close>

definition running :: "environment_of_measure \<Rightarrow> nat \<Rightarrow> (nat \<Rightarrow> worker_pc) \<Rightarrow> master_pc \<Rightarrow> sync \<Rightarrow> bool" where
  "running E R w m s \<longleftrightarrow> R < rounds E \<and> clean E R \<and> \<not> donelatch s \<and> awaits R m \<and>
     sync_status s \<in> {Run, Abort} \<and>
     (sync_status s = Abort \<longleftrightarrow> (\<exists>i < nbworkers E. noisy E R i \<and> announced E R i (w i))) \<and>
     message_ok E R (\<exists>i < nbworkers E. noisy E R i \<and> ((\<exists>x. w i = Aborting R x) \<or> announced E R i (w i))) s \<and>
     (\<forall>i < nbworkers E. at_work E R i (w i) \<or> rested E (Suc R) i (w i)) \<and>
     (\<exists>i < nbworkers E. \<not> rested E (Suc R) i (w i)) \<and>
     nbready s = of_nat (card (those (nbworkers E) (rested E (Suc R)) w))"

text \<open>All have finished, the last one closes the round.\<close>

definition closing :: "environment_of_measure \<Rightarrow> nat \<Rightarrow> (nat \<Rightarrow> worker_pc) \<Rightarrow> master_pc \<Rightarrow> sync \<Rightarrow> bool" where
  "closing E R w m s \<longleftrightarrow> R < rounds E \<and> clean E R \<and> \<not> donelatch s \<and> awaits R m \<and>
     message_ok E R (round_fails E R) s \<and>
     (\<exists>k < nbworkers E. closes E R s k (w k) \<and> (\<forall>i < nbworkers E. i \<noteq> k \<longrightarrow> rested E (Suc R) i (w i)))"

text \<open>The latch is raised, the master has not seen it.\<close>

definition raised :: "environment_of_measure \<Rightarrow> nat \<Rightarrow> (nat \<Rightarrow> worker_pc) \<Rightarrow> master_pc \<Rightarrow> sync \<Rightarrow> bool" where
  "raised E R w m s \<longleftrightarrow> R < rounds E \<and> clean E R \<and> donelatch s \<and> awaits R m \<and>
     message_ok E R (round_fails E R) s \<and> nbready s = 0 \<and>
     sync_status s = (if round_fails E R then Fail else Done) \<and>
     (\<forall>i < nbworkers E. rested E (Suc R) i (w i))"

text \<open>The master has told the workers to return.\<close>

definition quitting :: "environment_of_measure \<Rightarrow> nat \<Rightarrow> (nat \<Rightarrow> worker_pc) \<Rightarrow> master_pc \<Rightarrow> sync \<Rightarrow> bool" where
  "quitting E R w m s \<longleftrightarrow> sync_status s = Quit \<and> (\<forall>i < nbworkers E. w i \<in> {Spin R, Left R}) \<and>
     (\<exists>error ts. verdict E R error ts \<and>
       ((\<exists>j. m = Joining j error ts \<and> (\<forall>i < nbworkers E. i < j \<longrightarrow> w i = Left R)) \<or>
        m = Measured error ts \<and> (\<forall>i < nbworkers E. w i = Left R)))"

definition returned :: "nat \<Rightarrow> (nat \<Rightarrow> worker_pc) \<Rightarrow> sync \<Rightarrow> bool" where
  "returned n w s \<longleftrightarrow> (\<forall>i < n. i \<in> exited s \<longleftrightarrow> (\<exists>r. w i = Left r))"

definition in_phase :: "environment_of_measure \<Rightarrow> (nat \<Rightarrow> worker_pc) \<Rightarrow> master_pc \<Rightarrow> sync \<Rightarrow> bool" where
  "in_phase E w m s \<longleftrightarrow>
     (\<exists>R. idle E R w m s \<or> gather E R w m s \<or> full E R w m s \<or> running E R w m s \<or> closing E R w m s \<or>
       raised E R w m s \<or> quitting E R w m s)"

definition measure_inv :: "environment_of_measure \<Rightarrow> (nat \<Rightarrow> thread_pc) \<Rightarrow> sync \<Rightarrow> bool" where
  "measure_inv E ls s \<longleftrightarrow>
     (\<exists>w m. (\<forall>i < nbworkers E. ls i = Worker (w i)) \<and> ls (nbworkers E) = Master m \<and>
       returned (nbworkers E) w s \<and> in_phase E w m s)"

end
