(* ===== verification/Sync_Preserve.thy ===== *)
theory Sync_Preserve
  imports Sync_Invariant
begin

text \<open>Every access of a worker and of the master keeps the invariant of \<open>Sync\<close>.\<close>

section \<open>Workers\<close>

lemma returned_worker:
  assumes "returned n w s" "worker_step E i (w i) s = (p', s')"
  shows "returned n (w(i := p')) s'"
  using assms
  by (cases "w i") (auto simp: returned_def leave_def next_round_def notify_of_def stop_runtime_def Let_def
      split: if_splits work_end.splits option.splits)

lemma rested_still:
  assumes "rested E R i p" "sync_status s \<noteq> Wait" "sync_status s \<noteq> Quit" "worker_step E i p s = (p', s')"
  shows "p' = p \<and> s' = s"
  using assms by (auto simp: rested_def split: if_splits)

lemma idle_worker:
  assumes "idle E R w m s" "i < nbworkers E" "worker_step E i (w i) s = (p', s')"
  shows "p' = w i \<and> s' = s"
proof -
  have "rested E R i (w i)" "sync_status s \<noteq> Wait" "sync_status s \<noteq> Quit" using assms(1,2) by (auto simp: idle_def)
  then show ?thesis using rested_still assms(3) by blast
qed

lemma gather_worker:
  assumes g: "gather E R w m s" and n: "nbworkers E < 2 ^ 32" and i: "i < nbworkers E"
    and st: "worker_step E i (w i) s = (p', s')"
  shows "gather E R (w(i := p')) m s' \<or> full E R (w(i := p')) m s'"
proof -
  let ?P = "\<lambda>i p. p = Await R"
  have w: "w i \<in> {Spin R, Arrive R, Await R}" using g i by (simp add: gather_def)
  then consider "w i = Spin R" | "w i = Arrive R" | "w i = Await R" by blast
  then show ?thesis
  proof cases
    case 1
    then have "p' = Arrive R" "s' = s" using st g by (auto simp: gather_def)
    moreover have "those (nbworkers E) ?P (w(i := Arrive R)) = those (nbworkers E) ?P w"
      using 1 by (intro those_same) simp
    ultimately show ?thesis using g i by (intro disjI1) (auto simp: gather_def)
  next
    case 2
    let ?c = "card (those (nbworkers E) ?P w)"
    have c: "nbready s = of_nat ?c" using g by (simp add: gather_def)
    note one = those_but_one [OF i, of ?P w, simplified 2, simplified]
    have eq: "nbready s + 1 = of_nat (nbworkers E) \<longleftrightarrow> (\<forall>j < nbworkers E. j \<noteq> i \<longrightarrow> w j = Await R)"
      unfolding c using of_nat_32_succ [OF one(1) n] one(2) by simp
    show ?thesis
    proof (cases "nbready s + 1 = of_nat (nbworkers E)")
      case True
      then have "p' = ResetReady R" "s' = s\<lparr>nbready := nbready s + 1\<rparr>" using st 2 by (simp_all add: Let_def)
      then show ?thesis using g i True eq by (intro disjI2) (auto simp: gather_def full_def)
    next
      case False
      then have p: "p' = Await R" "s' = s\<lparr>nbready := nbready s + 1\<rparr>" using st 2 by (simp_all add: Let_def)
      have "card (those (nbworkers E) ?P (w(i := Await R))) = Suc ?c"
        using 2 i by (intro those_enter) simp_all
      moreover obtain j where "j < nbworkers E" "j \<noteq> i" "w j \<noteq> Await R" using False eq by blast
      ultimately show ?thesis using g p c by (intro disjI1) (auto simp: gather_def intro: exI [of _ j])
    qed
  next
    case 3
    then have "w(i := p') = w" "s' = s" using st g by (auto simp: gather_def)
    then show ?thesis using g by simp
  qed
qed

lemma round_starts:
  assumes "\<forall>i < nbworkers E. w i = Await R \<or> w i = Busy R" "i < nbworkers E"
  shows "(\<forall>i < nbworkers E. at_work E R i (w i) \<and> \<not> announced E R i (w i) \<and> \<not> rested E (Suc R) i (w i) \<and>
    (\<forall>x. w i \<noteq> Aborting R x)) \<and> card (those (nbworkers E) (rested E (Suc R)) w) = 0"
proof -
  have a: "at_work E R i (w i) \<and> \<not> announced E R i (w i) \<and> \<not> rested E (Suc R) i (w i) \<and> (\<forall>x. w i \<noteq> Aborting R x)"
    if "i < nbworkers E" for i
    using assms(1) [rule_format, OF that] by (elim disjE) (simp_all add: announced_def rested_def)
  then show ?thesis using those_none [of "nbworkers E" "rested E (Suc R)" w] by blast
qed

lemma full_worker:
  assumes f: "full E R w m s" and i: "i < nbworkers E" and st: "worker_step E i (w i) s = (p', s')"
  shows "full E R (w(i := p')) m s' \<or> running E R (w(i := p')) m s'"
proof -
  obtain k where k: "k < nbworkers E" "w k = ResetReady R \<or> w k = Launch R \<and> nbready s = 0"
    "\<forall>i < nbworkers E. i \<noteq> k \<longrightarrow> w i = Await R"
    using f by (auto simp: full_def)
  show ?thesis
  proof (cases "i = k")
    case False
    then have "w(i := p') = w" "s' = s" using k(3) i st f by (auto simp: full_def)
    then show ?thesis using f by simp
  next
    case True
    from k(2) show ?thesis
    proof
      assume "w k = ResetReady R"
      then have "p' = Launch R" "s' = s\<lparr>nbready := 0\<rparr>" using st True by simp_all
      then show ?thesis using f k True by (intro disjI1) (auto simp: full_def)
    next
      assume l: "w k = Launch R \<and> nbready s = 0"
      then have p: "p' = Busy R" "s' = s\<lparr>sync_status := Run\<rparr>" using st True by simp_all
      have "\<forall>j < nbworkers E. (w(i := p')) j = Await R \<or> (w(i := p')) j = Busy R" using k(3) p(1) True by simp
      note r = round_starts [OF this i]
      have "running E R (w(i := p')) m s'"
        using f p l i r unfolding full_def running_def message_ok_def by (simp del: fun_upd_apply) blast
      then show ?thesis ..
    qed
  qed
qed

text \<open>A worker in a running round.\<close>

lemma noisy_busy:
  "i < nbworkers E \<Longrightarrow> message (do_work E i R) = Some e \<Longrightarrow> e \<in> messages E R \<and> noisy E R i"
  by (auto simp: messages_def noisy_def)

lemma at_work_not_rested: "at_work E R i p \<Longrightarrow> \<not> rested E (Suc R) i p"
  by (cases p) (auto simp: rested_def)

lemma fun_upd_ex: "(\<exists>j < n. Q j ((w(i := p)) j)) \<longleftrightarrow> (\<exists>j < n. j \<noteq> i \<and> Q j (w j)) \<or> i < n \<and> Q i p"
  by auto

lemma running_stays:
  assumes r: "running E R w m s" and i: "i < nbworkers E" and old: "at_work E R i (w i)" "\<not> announced E R i (w i)"
    and new: "at_work E R i p'" "\<not> (noisy E R i \<and> announced E R i p')"
    and ab: "(\<exists>x. p' = Aborting R x) \<or> \<not> (\<exists>x. w i = Aborting R x)"
    and err: "errmsg s' = errmsg s \<and> (\<forall>x. p' \<noteq> Aborting R x) \<or> (\<exists>e. errmsg s' = Some e \<and> e \<in> messages E R)"
    and s: "nbready s' = nbready s" "sync_status s' = sync_status s" "donelatch s' = donelatch s"
  shows "running E R (w(i := p')) m s'"
proof -
  have nr: "\<not> rested E (Suc R) i (w i)" "\<not> rested E (Suc R) i p'"
    using old(1) new(1) at_work_not_rested by blast+
  then have "those (nbworkers E) (rested E (Suc R)) (w(i := p')) = those (nbworkers E) (rested E (Suc R)) w"
    by (intro those_same) simp
  moreover have "(\<exists>j < nbworkers E. noisy E R j \<and> announced E R j ((w(i := p')) j)) \<longleftrightarrow>
      (\<exists>j < nbworkers E. noisy E R j \<and> announced E R j (w j))"
    using old(2) new(2) i by auto
  moreover have "message_ok E R (\<exists>j < nbworkers E. noisy E R j \<and>
      ((\<exists>x. (w(i := p')) j = Aborting R x) \<or> announced E R j ((w(i := p')) j))) s'"
    using r err new(2) by (auto simp: running_def message_ok_def)
  ultimately show ?thesis using r s new(1) nr i by (auto simp: running_def)
qed

lemma running_worker:
  assumes r: "running E R w m s" and n: "nbworkers E < 2 ^ 32" and i: "i < nbworkers E"
    and st: "worker_step E i (w i) s = (p', s')"
  shows "running E R (w(i := p')) m s' \<or> closing E R (w(i := p')) m s'"
proof (cases "at_work E R i (w i)")
  case False
  then have "rested E (Suc R) i (w i)" using r i by (auto simp: running_def)
  then have "w(i := p') = w" "s' = s"
    using rested_still [OF _ _ _ st] r by (auto simp: running_def)
  then show ?thesis using r by simp
next
  case True
  note stays = running_stays [OF r i True]
  show ?thesis
  proof (cases "w i")
    case (Await q)
    have "sync_status s = Run \<or> sync_status s = Abort" using r unfolding running_def by blast
    then have "p' = Busy R" "s' = s" using True st Await by auto
    then show ?thesis using Await by (intro disjI1 [OF stays]) (auto simp: announced_def rested_def)
  next
    case (Busy q)
    have na: "\<not> announced E R i (w i)" using Busy by (auto simp: announced_def rested_def)
    have q: "q = R" using Busy True by simp
    consider "do_work E i R = Hangs" | "do_work E i R = Quiet" | e where "message (do_work E i R) = Some e"
      by (cases "do_work E i R") (auto simp: message_def)
    then show ?thesis
    proof cases
      case 1
      then have "w(i := p') = w" "s' = s" using st Busy q by auto
      then show ?thesis using r by simp
    next
      case 2
      then have "p' = Finish R False" "s' = s" "\<not> throws E R i" "\<not> noisy E R i"
        using st Busy q by (auto simp: message_def notify_of_def throws_def noisy_def)
      then show ?thesis using Busy 2 by (intro disjI1 [OF stays [OF na]]) auto
    next
      case (3 e)
      then have "p' = Report R e (throws E R i)" "s' = s"
        using st Busy q by (auto simp: message_def notify_of_def throws_def split: work_end.splits)
      then show ?thesis using Busy 3 by (intro disjI1 [OF stays [OF na]]) (auto simp: announced_def rested_def)
    qed
  next
    case (Report q e x)
    then have "p' = Aborting R x" "s' = s\<lparr>errmsg := Some e\<rparr>" "message (do_work E i R) = Some e" "x = throws E R i"
      using True st by auto
    then show ?thesis using Report noisy_busy [OF i]
      by (intro disjI1 [OF stays]) (auto simp: announced_def rested_def)
  next
    case (Aborting q x)
    then have p: "p' = Finish R x" "s' = s\<lparr>sync_status := Abort\<rparr>" "noisy E R i" "x = throws E R i"
      using True st by auto
    have nr: "\<not> rested E (Suc R) i (w i)" "\<not> rested E (Suc R) i p'" using Aborting p(1) by (auto simp: rested_def)
    then have th: "those (nbworkers E) (rested E (Suc R)) (w(i := p')) = those (nbworkers E) (rested E (Suc R)) w"
      by (intro those_same) simp
    have an: "\<exists>j < nbworkers E. noisy E R j \<and> announced E R j ((w(i := p')) j)"
      using i p(1,3) by (intro exI [of _ i]) (simp add: announced_def)
    have "errmsg s \<noteq> None" using r i p(3) Aborting True by (auto simp: running_def message_ok_def)
    then have "message_ok E R b s'" for b using r p(2) by (auto simp: running_def message_ok_def)
    moreover have "\<forall>j < nbworkers E. at_work E R j ((w(i := p')) j) \<or> rested E (Suc R) j ((w(i := p')) j)"
      using r p(1,4) noisy_ends [OF p(3)] by (simp add: running_def)
    moreover have "\<exists>j < nbworkers E. \<not> rested E (Suc R) j ((w(i := p')) j)" using i nr(2) by auto
    ultimately have "running E R (w(i := p')) m s'" using r th an p(2) unfolding running_def by simp
    then show ?thesis ..
  next
    case (Finish q x)
    let ?P = "rested E (Suc R)" let ?c = "card (those (nbworkers E) ?P w)"
    have x: "q = R" "x = throws E R i" "do_work E i R \<noteq> Hangs" using Finish True by auto
    have nr: "\<not> ?P i (w i)" using True at_work_not_rested by blast
    have an: "announced E R i (w i)" using Finish x by (simp add: announced_def)
    have c: "nbready s = of_nat ?c" using r by (simp add: running_def)
    have eq: "nbready s + 1 = of_nat (nbworkers E) \<longleftrightarrow> (\<forall>j < nbworkers E. j \<noteq> i \<longrightarrow> ?P j (w j))"
      unfolding c using of_nat_32_succ [OF those_but_one(1) [where P = ?P and w = w, OF i nr] n] those_but_one(2) [where P = ?P and w = w, OF i nr] by simp
    show ?thesis
    proof (cases "nbready s + 1 = of_nat (nbworkers E)")
      case True
      then have p: "p' = ResetDone R x" "s' = s\<lparr>nbready := nbready s + 1\<rparr>"
        using st Finish x by (simp_all add: Let_def)
      have all: "\<forall>j < nbworkers E. announced E R j (w j)"
      proof (intro allI impI)
        fix j assume "j < nbworkers E"
        then show "announced E R j (w j)" using True eq an by (cases "j = i") (auto simp: announced_def)
      qed
      have "sync_status s = (if round_fails E R then Abort else Run)"
        using r all by (auto simp: running_def round_fails_def)
      then have "closes E R s' i p'" using p x by simp
      moreover have "message_ok E R (round_fails E R) s'"
        using r all p(2) by (auto simp: running_def round_fails_def message_ok_def)
      ultimately have "closing E R (w(i := p')) m s'"
        using r True eq i p(2) by (auto simp: closing_def running_def)
      then show ?thesis ..
    next
      case False
      have p: "?P i p'" "nbready s' = nbready s + 1" "sync_status s' = sync_status s" "donelatch s' = donelatch s"
        "errmsg s' = errmsg s"
        using st Finish x False by (auto simp: Let_def next_round_def leave_def rested_def)
      have card: "card (those (nbworkers E) ?P (w(i := p'))) = Suc ?c"
        using nr i p(1) by (intro those_enter) simp_all
      obtain j where j: "j < nbworkers E" "j \<noteq> i" "\<not> ?P j (w j)" using False eq by blast
      have a: "(\<exists>j < nbworkers E. noisy E R j \<and> announced E R j ((w(i := p')) j)) \<longleftrightarrow>
          (\<exists>j < nbworkers E. noisy E R j \<and> announced E R j (w j))"
        using an p(1) by (auto simp: announced_def)
      have b: "(\<exists>x. p' = Aborting R x) \<longleftrightarrow> False" using p(1) by (auto simp: rested_def split: if_splits)
      have "message_ok E R (\<exists>j < nbworkers E. noisy E R j \<and>
          ((\<exists>x. (w(i := p')) j = Aborting R x) \<or> announced E R j ((w(i := p')) j))) s'"
        using r an p(5) b by (auto simp: running_def message_ok_def)
      moreover have "nbready s' = of_nat (card (those (nbworkers E) ?P (w(i := p'))))" unfolding card p(2) c by simp
      moreover have "\<exists>j < nbworkers E. \<not> ?P j ((w(i := p')) j)" using j by auto
      ultimately have "running E R (w(i := p')) m s'"
        using r p(1,3,4) unfolding running_def a by auto
      then show ?thesis ..
    qed
  qed (use True in auto)
qed

lemma closing_worker:
  assumes c: "closing E R w m s" and i: "i < nbworkers E" and st: "worker_step E i (w i) s = (p', s')"
  shows "closing E R (w(i := p')) m s' \<or> raised E R (w(i := p')) m s'"
proof -
  obtain k where k: "k < nbworkers E" "closes E R s k (w k)"
    "\<forall>i < nbworkers E. i \<noteq> k \<longrightarrow> rested E (Suc R) i (w i)"
    using c by (auto simp: closing_def)
  show ?thesis
  proof (cases "i = k")
    case False
    have "sync_status s \<noteq> Wait" "sync_status s \<noteq> Quit" using k(2) by (cases "w k"; auto split: if_splits)+
    then have "p' = w i \<and> s' = s" using k(3) i False rested_still [OF _ _ _ st] by blast
    then show ?thesis using c by simp
  next
    case True
    show ?thesis
    proof (cases "\<exists>r x. w k = RaiseLatch r x")
      case False
      then have "closes E R s' k p'" "errmsg s' = errmsg s" "donelatch s' = donelatch s"
        using k(2) st True by (cases "w k"; auto simp: stop_runtime_def split: if_splits)+
      then show ?thesis using c k True by (intro disjI1) (auto simp: closing_def message_ok_def)
    next
      case raise: True
      then obtain x where "w k = RaiseLatch R x" "x = throws E R k" using k(2) by auto
      then have "rested E (Suc R) i p'" "errmsg s' = errmsg s" "donelatch s'" "nbready s' = 0"
        "sync_status s' = (if round_fails E R then Fail else Done)"
        using k(2) st True by (auto simp: next_round_def leave_def rested_def latch_raise_def)
      then show ?thesis using c k True by (intro disjI2) (auto simp: closing_def raised_def message_ok_def)
    qed
  qed
qed

lemma raised_worker:
  assumes "raised E R w m s" "i < nbworkers E" "worker_step E i (w i) s = (p', s')"
  shows "p' = w i \<and> s' = s"
proof -
  have "rested E (Suc R) i (w i)" "sync_status s \<noteq> Wait" "sync_status s \<noteq> Quit"
    using assms(1,2) by (auto simp: raised_def)
  then show ?thesis using rested_still assms(3) by blast
qed

lemma quitting_worker:
  assumes q: "quitting E R w m s" and i: "i < nbworkers E" and st: "worker_step E i (w i) s = (p', s')"
  shows "quitting E R (w(i := p')) m s'"
proof -
  have "w i = Spin R \<or> w i = Left R" using q i by (auto simp: quitting_def)
  then have p: "p' = Left R" "sync_status s' = Quit" using st q by (auto simp: quitting_def leave_def)
  obtain error ts where v: "verdict E R error ts" "(\<exists>j. m = Joining j error ts \<and> (\<forall>i < nbworkers E. i < j \<longrightarrow> w i = Left R)) \<or>
      m = Measured error ts \<and> (\<forall>i < nbworkers E. w i = Left R)"
    using q by (auto simp: quitting_def)
  then show ?thesis using q p unfolding quitting_def by (intro conjI exI [of _ error] exI [of _ ts]) auto
qed

lemma worker_keeps:
  assumes "in_phase E w m s" "nbworkers E < 2 ^ 32" "i < nbworkers E" "worker_step E i (w i) s = (p', s')"
  shows "in_phase E (w(i := p')) m s'"
proof -
  obtain R where "idle E R w m s \<or> gather E R w m s \<or> full E R w m s \<or> running E R w m s \<or> closing E R w m s \<or>
       raised E R w m s \<or> quitting E R w m s" using assms(1) by (auto simp: in_phase_def)
  then show ?thesis
  proof (elim disjE)
    assume "idle E R w m s"
    from idle_worker [OF this assms(3,4)] show ?thesis using assms(1) by simp
  next
    assume "raised E R w m s"
    from raised_worker [OF this assms(3,4)] show ?thesis using assms(1) by simp
  next
    assume "gather E R w m s"
    from gather_worker [OF this assms(2-4)] show ?thesis unfolding in_phase_def by blast
  next
    assume "full E R w m s"
    from full_worker [OF this assms(3,4)] show ?thesis unfolding in_phase_def by blast
  next
    assume "running E R w m s"
    from running_worker [OF this assms(2-4)] show ?thesis unfolding in_phase_def by blast
  next
    assume "closing E R w m s"
    from closing_worker [OF this assms(3,4)] show ?thesis unfolding in_phase_def by blast
  next
    assume "quitting E R w m s"
    from quitting_worker [OF this assms(3,4)] show ?thesis unfolding in_phase_def by blast
  qed
qed

end
