(* ===== verification/Sync_Theorems.thy ===== *)
theory Sync_Theorems
  imports Sync_Preserve
begin

text \<open>
  The master's accesses keep the invariant too, and what follows: the verdict of \<open>measure\<close>, rounds in
  lockstep, and that nothing but work that never ends keeps it waiting.
\<close>

section \<open>The master\<close>

lemma message_end:
  assumes "message_ok E R (round_fails E R) s"
  shows "round_fails E R \<longrightarrow> (\<exists>e. errmsg s = Some e \<and> e \<in> messages E R)"
    and "\<not> round_fails E R \<longrightarrow> errmsg s = None"
proof -
  have "errmsg s \<noteq> None \<Longrightarrow> \<exists>e. errmsg s = Some e \<and> e \<in> messages E R" using assms by (auto simp: message_ok_def)
  moreover have "e \<in> messages E R \<Longrightarrow> round_fails E R" for e
    by (auto simp: messages_def round_fails_def noisy_def)
  ultimately show "round_fails E R \<longrightarrow> (\<exists>e. errmsg s = Some e \<and> e \<in> messages E R)"
    "\<not> round_fails E R \<longrightarrow> errmsg s = None" using assms unfolding message_ok_def by blast+
qed

lemma awaits_step:
  assumes "awaits R m" "master_step E m s = (m', s')"
  shows "donelatch s \<and> (\<exists>ts. m = WaitDone R ts \<and> m' = Inspect R ts \<and> length ts = R \<and>
      s' = s\<lparr>donelatch := False, waits := waits s + 1\<rparr>) \<or>
    awaits R m' \<and> nbready s' = nbready s \<and> sync_status s' = sync_status s \<and> errmsg s' = errmsg s \<and>
      donelatch s' = donelatch s"
proof -
  consider "m = Overrun" | ts where "length ts = R" "m = StartClock R ts" | ts where "length ts = R" "m = WaitDone R ts"
    using assms(1) by (auto simp: awaits_def)
  then show ?thesis
  proof cases
    case (3 ts)
    let ?s = "s\<lparr>waits := waits s + 1\<rparr>"
    consider "(m', s') = (WaitDone R ts, ?s)" | "(m', s') = (Overrun, ?s\<lparr>donelatch := False\<rparr>)" "\<not> donelatch s"
      | "(m', s') = (Inspect R ts, ?s\<lparr>donelatch := False\<rparr>)" "donelatch s"
      using assms(2) 3(2) latch_wait_raised latch_wait_overtime
      by (auto split: option.splits prod.splits bool.splits)
    then show ?thesis
    proof cases
      case 1
      then have "awaits R m'" using 3(1) by (simp add: awaits_def)
      then show ?thesis using 1 by simp
    next
      case 2
      then have "awaits R m'" by (simp add: awaits_def)
      then show ?thesis using 2 by simp
    next
      case 3
      then show ?thesis using \<open>m = WaitDone R ts\<close> \<open>length ts = R\<close> by auto
    qed
  qed (use assms in \<open>auto simp: awaits_def start_runtime_def\<close>)
qed

lemma closes_cong:
  "nbready s' = nbready s \<Longrightarrow> sync_status s' = sync_status s \<Longrightarrow> closes E R s' k p = closes E R s k p"
  by (cases p) simp_all

lemma idle_master:
  assumes q: "idle E R w m s" and pos: "0 < nbworkers E" and st: "master_step E m s = (m', s')"
  shows "idle E R w m' s' \<or> gather E R w m' s' \<or> quitting E R w m' s'"
proof -
  have rest: "\<forall>i < nbworkers E. rested E R i (w i)" using q by (simp add: idle_def)
  then have SL: "\<forall>i < nbworkers E. w i \<in> {Spin R, Left R}" by (auto simp: rested_def)
  have frame: "nbready s = 0" "\<not> donelatch s" using q by (simp_all add: idle_def)
  from q consider
      ts where "sync_status s = Done" "clean E R" "errmsg s = None" "m = Notify R ts" "R < rounds E" "length ts = R"
    | ts where "sync_status s = Done" "clean E R" "m = Join None ts" "R = rounds E" "length ts = R"
    | r ts where "sync_status s = Done" "clean E R" "errmsg s = None" "m = Inspect r ts" "R = Suc r" "r < rounds E" "length ts = r"
    | r e ts where "sync_status s = Fail" "R = Suc r" "r < rounds E" "clean E r" "round_fails E r" "errmsg s = Some e"
        "e \<in> messages E r" "length ts = r" "m = Inspect r ts \<or> m = FetchError r ts \<or> m = Join (Some e) ts"
    unfolding idle_def by blast
  then show ?thesis
  proof cases
    case (1 ts)
    have "\<not> throws E (R - 1) i" if "i < nbworkers E" "R > 0" for i
      using 1(2) that throws_noisy [of E "R - 1" i] by (auto simp: clean_def round_fails_def)
    then have spin: "\<forall>i < nbworkers E. w i = Spin R" using rest by (auto simp: rested_def)
    then have "card (those (nbworkers E) (\<lambda>i p. p = Await R) w) = 0" by (intro those_none) simp
    then have "gather E R w m' s'"
      using 1 st spin pos frame by (auto simp: gather_def awaits_def)
    then show ?thesis by blast
  next
    case (2 ts)
    then have "quitting E R w m' s'" using st SL by (auto simp: quitting_def verdict_def)
    then show ?thesis by blast
  next
    case (3 r ts)
    then have "m' = next_test E r (ts @ [get_tick (runtime s)])" "s' = s" using st by auto
    then have "idle E R w m' s'" using 3 rest frame by (auto simp: idle_def next_test_def)
    then show ?thesis by blast
  next
    case (4 r e ts)
    from 4(9) show ?thesis
    proof (elim disjE)
      assume "m = Inspect r ts"
      then have "m' = FetchError r ts" "s' = s" using st 4 by simp_all
      then have "idle E R w m' s'" using 4 rest frame by (auto simp: idle_def)
      then show ?thesis by blast
    next
      assume "m = FetchError r ts"
      then have "m' = Join (Some e) ts" "s' = s" using st 4 by simp_all
      then have "idle E R w m' s'" using 4 rest frame by (auto simp: idle_def)
      then show ?thesis by blast
    next
      assume "m = Join (Some e) ts"
      moreover have "all_end E r" using rest 4(2) by (simp add: all_end_def rested_def)
      ultimately have "quitting E R w m' s'" using 4 st SL by (auto simp: quitting_def verdict_def)
      then show ?thesis by blast
    qed
  qed
qed

lemma raised_master:
  assumes q: "raised E R w m s" and st: "master_step E m s = (m', s')"
  shows "raised E R w m' s' \<or> idle E (Suc R) w m' s'"
proof -
  have "awaits R m" and r: "R < rounds E" "clean E R" "message_ok E R (round_fails E R) s" "nbready s = 0"
    "sync_status s = (if round_fails E R then Fail else Done)" "\<forall>i < nbworkers E. rested E (Suc R) i (w i)"
    using q by (simp_all add: raised_def)
  from awaits_step [OF this(1) st] show ?thesis
  proof (elim disjE conjE exE)
    fix ts assume a: "m' = Inspect R ts" "length ts = R" "s' = s\<lparr>donelatch := False, waits := waits s + 1\<rparr>"
    have "idle E (Suc R) w m' s'"
    proof (cases "round_fails E R")
      case True
      then obtain e where "errmsg s = Some e" "e \<in> messages E R" using message_end(1) [OF r(3)] by blast
      then show ?thesis using True a r unfolding idle_def by simp
    next
      case False
      then have "errmsg s = None" using message_end(2) [OF r(3)] by blast
      moreover have "all_end E R" using r(6) by (simp add: all_end_def rested_def)
      ultimately show ?thesis using False a r unfolding idle_def by (simp add: clean_Suc)
    qed
    then show ?thesis ..
  next
    assume "awaits R m'" "nbready s' = nbready s" "sync_status s' = sync_status s" "errmsg s' = errmsg s"
      "donelatch s' = donelatch s"
    then have "raised E R w m' s'" using q by (simp add: raised_def message_ok_def)
    then show ?thesis ..
  qed
qed

lemma round_master:
  assumes q: "gather E R w m s \<or> full E R w m s \<or> running E R w m s \<or> closing E R w m s"
    and st: "master_step E m s = (m', s')"
  shows "gather E R w m' s' \<or> full E R w m' s' \<or> running E R w m' s' \<or> closing E R w m' s'"
proof -
  have "awaits R m" "\<not> donelatch s" using q by (auto simp: gather_def full_def running_def closing_def)
  from awaits_step [OF this(1) st] this(2)
  have a: "awaits R m'" "nbready s' = nbready s" "sync_status s' = sync_status s" "errmsg s' = errmsg s"
    "donelatch s' = donelatch s" by blast+
  have "gather E R w m s \<Longrightarrow> gather E R w m' s'" using a by (simp add: gather_def)
  moreover have "full E R w m s \<Longrightarrow> full E R w m' s'" using a by (simp add: full_def)
  moreover have "running E R w m s \<Longrightarrow> running E R w m' s'" 
    using a(1) unfolding running_def message_ok_def a(2-5) by blast
  moreover have "closing E R w m s \<Longrightarrow> closing E R w m' s'"
    using a closes_cong [OF a(2,3)] by (simp add: closing_def message_ok_def)
  ultimately show ?thesis using q by blast
qed

lemma quitting_master:
  assumes q: "quitting E R w m s" and ret: "returned (nbworkers E) w s" and st: "master_step E m s = (m', s')"
  shows "quitting E R w m' s'"
proof -
  obtain error ts where v: "verdict E R error ts" "(\<exists>j. m = Joining j error ts \<and> (\<forall>i < nbworkers E. i < j \<longrightarrow> w i = Left R)) \<or>
      m = Measured error ts \<and> (\<forall>i < nbworkers E. w i = Left R)"
    and w: "sync_status s = Quit" "\<forall>i < nbworkers E. w i \<in> {Spin R, Left R}"
    using q by (auto simp: quitting_def)
  from v(2) have "s' = s \<and> ((\<exists>j. m' = Joining j error ts \<and> (\<forall>i < nbworkers E. i < j \<longrightarrow> w i = Left R)) \<or>
      m' = Measured error ts \<and> (\<forall>i < nbworkers E. w i = Left R))"
  proof (elim disjE conjE exE)
    fix j assume m: "m = Joining j error ts" and b: "\<forall>i < nbworkers E. i < j \<longrightarrow> w i = Left R"
    show ?thesis
    proof (cases "j < nbworkers E \<and> j \<in> exited s")
      case True
      then have "w j = Left R" using ret w(2) by (auto simp: returned_def)
      then show ?thesis using m True b st by (auto simp: less_Suc_eq)
    next
      case False
      then show ?thesis using m b st by (cases "j < nbworkers E") auto
    qed
  qed (use st in simp)
  then show ?thesis using v(1) w unfolding quitting_def by blast
qed

lemma master_exited: "master_step E m s = (m', s') \<Longrightarrow> exited s' = exited s"
  by (cases m) (auto simp: start_runtime_def split: option.splits prod.splits bool.splits status.splits if_splits)

lemma master_keeps:
  assumes p: "in_phase E w m s" and "returned (nbworkers E) w s" "0 < nbworkers E" "master_step E m s = (m', s')"
  shows "in_phase E w m' s'"
proof -
  obtain R where "idle E R w m s \<or> (gather E R w m s \<or> full E R w m s \<or> running E R w m s \<or> closing E R w m s) \<or>
       raised E R w m s \<or> quitting E R w m s" using assms(1) by (auto simp: in_phase_def)
  then show ?thesis
    using idle_master [of E R w m s, OF _ assms(3,4)] round_master [of E R w m s, OF _ assms(4)]
      raised_master [of E R w m s, OF _ assms(4)] quitting_master [of E R w m s, OF _ assms(2,4)]
    unfolding in_phase_def by meson
qed

section \<open>The invariant\<close>

lemma measure_inv_start:
  assumes "0 < nbworkers E"
  shows "measure_inv E (fst (measure_start E garbage)) (snd (measure_start E garbage))"
proof -
  let ?w = "\<lambda>_. Spin 0"
  have "idle E 0 ?w (Notify 0 []) (new_sync garbage)"
    by (auto simp: idle_def rested_def new_sync_def clean_def rounds_def)
  moreover have "returned (nbworkers E) ?w (new_sync garbage)" by (simp add: returned_def new_sync_def)
  ultimately show ?thesis
    unfolding measure_inv_def measure_start_def in_phase_def
    by (intro exI [of _ ?w] exI [of _ "Notify 0 []"]) auto
qed

lemma measure_inv_keeps:
  assumes inv: "measure_inv E ls s" and n: "0 < nbworkers E" "nbworkers E < 2 ^ 32" and i: "i < Suc (nbworkers E)"
    and st: "measure_step E i (ls i) s = (l', s')"
  shows "measure_inv E (ls(i := l')) s'"
proof -
  obtain w m where w: "\<forall>i < nbworkers E. ls i = Worker (w i)" "ls (nbworkers E) = Master m"
    "returned (nbworkers E) w s" "in_phase E w m s"
    using inv by (auto simp: measure_inv_def)
  show ?thesis
  proof (cases "i = nbworkers E")
    case True
    obtain m' where m': "master_step E m s = (m', s')" "l' = Master m'"
      using st True w(2) by (auto split: prod.splits)
    have "returned (nbworkers E) w s'" using w(3) master_exited [OF m'(1)] by (simp add: returned_def)
    with master_keeps [OF w(4,3) n(1) m'(1)] w(1) True m'(2) show ?thesis
      unfolding measure_inv_def by (intro exI [of _ w] exI [of _ m']) auto
  next
    case False
    then have i: "i < nbworkers E" using i by simp
    obtain p' where p': "worker_step E i (w i) s = (p', s')" "l' = Worker p'"
      using st i w(1) by (auto split: prod.splits)
    from worker_keeps [OF w(4) n(2) i p'(1)] returned_worker [OF w(3) p'(1)] w(1,2) False p'(2)
    show ?thesis unfolding measure_inv_def by (intro exI [of _ "w(i := p')"] exI [of _ m]) auto
  qed
qed

definition measure_ok :: "environment_of_measure \<Rightarrow> (nat \<Rightarrow> thread_pc) \<Rightarrow> sync \<Rightarrow> bool" where
  "measure_ok E ls s \<longleftrightarrow> (0 < nbworkers E \<and> nbworkers E < 2 ^ 32 \<longrightarrow> measure_inv E ls s)"

interpretation measuring:
  thread_invariant "measure_step E" "Suc (nbworkers E)" "measure_start E garbage" "measure_ok E" for E garbage
  by unfold_locales (auto simp: measure_ok_def intro: measure_inv_start measure_inv_keeps)

lemma measure_reach:
  assumes "0 < nbworkers E" "nbworkers E < 2 ^ 32"
    and "run_threads (measure_step E) (Suc (nbworkers E)) (measure_start E garbage) (ls, s)"
  obtains w m R where "\<forall>i < nbworkers E. ls i = Worker (w i)" "ls (nbworkers E) = Master m"
    "returned (nbworkers E) w s"
    "idle E R w m s \<or> gather E R w m s \<or> full E R w m s \<or> running E R w m s \<or> closing E R w m s \<or>
       raised E R w m s \<or> quitting E R w m s"
proof -
  have "measure_inv E ls s" using measuring.holds [OF assms(3)] assms(1,2) by (simp add: measure_ok_def)
  then show thesis using that unfolding measure_inv_def in_phase_def by blast
qed

lemma clean_quiet: "clean E R \<and> R \<le> rounds E \<longrightarrow> (\<forall>r < R. \<forall>i < nbworkers E. work E i r = Quiet)"
proof (intro impI allI)
  fix r i assume a: "clean E R \<and> R \<le> rounds E" "r < R" "i < nbworkers E"
  then have "\<not> noisy E r i" by (auto simp: clean_def round_fails_def)
  moreover have "do_work E i r \<noteq> Hangs" using a by (auto simp: clean_def all_end_def)
  ultimately show "work E i r = Quiet" using a(1,2) by (auto simp: noisy_def message_def do_work_def split: work_end.splits)
qed

section \<open>Lockstep\<close>

text \<open>The number of times a worker has counted itself.\<close>

fun counted :: "worker_pc \<Rightarrow> nat" where
  "counted (Spin r) = 2 * r"
| "counted (Arrive r) = 2 * r"
| "counted (Left r) = 2 * r"
| "counted (ResetDone r x) = 2 * r + 2"
| "counted (Judge r x) = 2 * r + 2"
| "counted (Declare r x st) = 2 * r + 2"
| "counted (StopClock r x) = 2 * r + 2"
| "counted (RaiseLatch r x) = 2 * r + 2"
| "counted (ResetReady r) = 2 * r + 1"
| "counted (Launch r) = 2 * r + 1"
| "counted (Await r) = 2 * r + 1"
| "counted (Busy r) = 2 * r + 1"
| "counted (Report r e x) = 2 * r + 1"
| "counted (Aborting r x) = 2 * r + 1"
| "counted (Finish r x) = 2 * r + 1"

lemma counted_at_work: "at_work E R i p \<Longrightarrow> counted p = 2 * R + 1"
  by (cases p) auto

lemma counted_rested: "rested E R i p \<Longrightarrow> counted p = 2 * R"
  by (auto simp: rested_def)

lemma busy_running:
  assumes "w i = Busy r" "i < nbworkers E"
    and "idle E R w m s \<or> gather E R w m s \<or> full E R w m s \<or> running E R w m s \<or> closing E R w m s \<or>
       raised E R w m s \<or> quitting E R w m s"
  shows "running E R w m s \<and> r = R"
proof -
  have nr: "\<not> rested E Q i (w i)" for Q using assms(1) by (simp add: rested_def)
  have "\<not> idle E R w m s" "\<not> raised E R w m s" using nr assms(2) by (auto simp: idle_def raised_def)
  moreover have "\<not> gather E R w m s" "\<not> quitting E R w m s" using assms(1,2) by (auto simp: gather_def quitting_def)
  moreover have "\<not> full E R w m s" using assms(1,2) by (auto simp: full_def)
  moreover have "\<not> closing E R w m s"
  proof
    assume "closing E R w m s"
    then obtain k where k: "closes E R s k (w k)" "\<forall>i < nbworkers E. i \<noteq> k \<longrightarrow> rested E (Suc R) i (w i)"
      by (auto simp: closing_def)
    then have "i = k" using nr assms(2) by blast
    then show False using k(1) assms(1) by simp
  qed
  ultimately have r: "running E R w m s" using assms(3) by blast
  then have "at_work E R i (w i)" using nr assms(2) by (auto simp: running_def)
  with r assms(1) show ?thesis by simp
qed

end
