(* ===== verification/Measure.thy ===== *)
theory Measure
  imports Sync_Theorems
begin

text \<open>
  The properties of \<open>Sync\<close> and \<open>measure\<close>: what the master returns, that the workers stay in step, that
  nobody waits for ever, and what the times in the result stand for.
\<close>

section \<open>Moving on\<close>

lemma at_work_moves:
  assumes "at_work E R i p" "sync_status s = Run \<or> sync_status s = Abort"
  shows "fst (worker_step E i p s) \<noteq> p \<or> p = Busy R \<and> do_work E i R = Hangs"
proof (cases p)
  case (Busy r)
  then show ?thesis using assms(1) by (auto simp: notify_of_def split: work_end.splits)
qed (use assms in \<open>auto simp: next_round_def leave_def Let_def\<close>)

lemma closes_moves: "closes E R s i p \<Longrightarrow> fst (worker_step E i p s) \<noteq> p"
  by (cases p) (auto simp: next_round_def leave_def)

lemma idle_moves: "idle E R w m s \<Longrightarrow> fst (master_step E m s) \<noteq> m"
  by (auto simp: idle_def next_test_def split: if_splits)

lemma raised_moves: "raised E R w m s \<Longrightarrow> m = Overrun \<or> fst (master_step E m s) \<noteq> m"
  by (auto simp: raised_def awaits_def latch_wait_def split: if_splits)

lemma round_moves:
  assumes "gather E R w m s \<or> full E R w m s \<or> running E R w m s \<or> closing E R w m s"
  shows "\<exists>i < nbworkers E. fst (worker_step E i (w i) s) \<noteq> w i \<or> w i = Busy R \<and> do_work E i R = Hangs"
  using assms
proof (elim disjE)
  assume g: "gather E R w m s"
  then obtain i where "i < nbworkers E" "w i = Spin R \<or> w i = Arrive R" "sync_status s = Wait"
    by (auto simp: gather_def)
  then show ?thesis by (intro exI [of _ i]) (auto simp: Let_def split: if_splits)
next
  assume "full E R w m s"
  then obtain k where "k < nbworkers E" "w k = ResetReady R \<or> w k = Launch R" by (auto simp: full_def)
  then show ?thesis by (intro exI [of _ k]) auto
next
  assume r: "running E R w m s"
  then obtain i where i: "i < nbworkers E" "\<not> rested E (Suc R) i (w i)" unfolding running_def by blast
  then have "at_work E R i (w i)" "sync_status s = Run \<or> sync_status s = Abort" using r unfolding running_def by blast+
  then show ?thesis using at_work_moves i(1) by blast
next
  assume "closing E R w m s"
  then show ?thesis using closes_moves by (auto simp: closing_def)
qed

lemma quitting_moves:
  assumes q: "quitting E R w m s" and ret: "returned (nbworkers E) w s"
  shows "(\<exists>error ts. m = Measured error ts) \<or> fst (master_step E m s) \<noteq> m \<or>
    (\<exists>i < nbworkers E. fst (worker_step E i (w i) s) \<noteq> w i)"
proof (cases "\<exists>i < nbworkers E. w i = Spin R")
  case True
  then obtain i where "i < nbworkers E" "w i = Spin R" by blast
  moreover have "sync_status s = Quit" using q by (simp add: quitting_def)
  ultimately show ?thesis by (intro disjI2) (auto simp: leave_def intro!: exI [of _ i])
next
  case False
  then have "\<forall>i < nbworkers E. w i = Left R" using q by (auto simp: quitting_def)
  then have "\<forall>i < nbworkers E. i \<in> exited s" using ret by (auto simp: returned_def)
  then show ?thesis using q by (auto simp: quitting_def split: if_splits)
qed

section \<open>A single worker, undisturbed\<close>

definition pair :: "worker_pc \<Rightarrow> master_pc \<Rightarrow> nat \<Rightarrow> thread_pc" where
  "pair p m = (\<lambda>i. if i = 1 then Master m else if i = 0 then Worker p else Worker (Spin 0))"

lemma pair_simps [simp]:
  "pair p m 0 = Worker p" "pair p m (Suc 0) = Master m"
  "(pair p m)(0 := Worker p') = pair p' m" "(pair p m)(Suc 0 := Master m') = pair p m'"
  by (auto simp: pair_def)

lemma pair_schedule [simp]:
  "run_schedule (measure_step E) (0 # is) (pair p m, s) =
     (case worker_step E 0 p s of (p', s') \<Rightarrow> run_schedule (measure_step E) is (pair p' m, s'))"
  "run_schedule (measure_step E) (Suc 0 # is) (pair p m, s) =
     (case master_step E m s of (m', s') \<Rightarrow> run_schedule (measure_step E) is (pair p m', s'))"
  by (simp_all add: case_prod_unfold Let_def)

lemma pair_start: "nbworkers E = 1 \<Longrightarrow> measure_start E garbage = (pair (Spin 0) (Notify 0 []), new_sync garbage)"
  by (auto simp: measure_start_def pair_def)

text \<open>Master and worker take turns; and the worker that is through before the master reads the clock.\<close>

definition in_turn :: "nat list" where
  "in_turn = [1, 1] @ replicate 11 0 @ [1, 1]"

definition overtaken :: "nat list" where
  "overtaken = [1] @ replicate 11 0"

lemmas schedules = in_turn_def overtaken_def eval_nat_numeral

text \<open>The length the clock shows for round \<open>k\<close> when its two readings are the next ones.\<close>

definition round_ticks :: "environment_of_measure \<Rightarrow> nat \<Rightarrow> tick" where
  "round_ticks E k = convert (clock E (2 * k + 1)) - convert (clock E (2 * k))"

definition resting :: "sync \<Rightarrow> bool" where
  "resting s \<longleftrightarrow> nbready s = 0 \<and> sync_status s = Done \<and> \<not> donelatch s"

lemma lone_round:
  assumes "nbworkers E = 1" "R < rounds E" "work E 0 R = Quiet" "resting s"
  obtains s' where "run_schedule (measure_step E) in_turn (pair (Spin R) (Notify R ts), s) =
      (pair (Spin (Suc R)) (next_test E R (ts @ [get_tick (runtime s')])), s')" "resting s'"
    "clock_reads s' = clock_reads s + 2"
    "get_tick (runtime s') = get_tick (runtime s) +
       (convert (clock E (Suc (clock_reads s))) - convert (clock E (clock_reads s)))"
proof -
  define s1 where "s1 = stop_runtime E (start_runtime E s)"
  let ?s = "s1\<lparr>nbready := 0, sync_status := Done, donelatch := False, waits := waits s + 1\<rparr>"
  have "run_schedule (measure_step E) in_turn (pair (Spin R) (Notify R ts), s) =
      (pair (Spin (Suc R)) (next_test E R (ts @ [get_tick (runtime ?s)])), ?s)"
    using assms unfolding s1_def
    by (simp add: schedules do_work_def notify_of_def next_round_def latch_raise_def latch_wait_def resting_def
        start_runtime_def stop_runtime_def)
  then show thesis using that by (simp add: resting_def s1_def start_runtime_def stop_runtime_def chrono_segment)
qed

lemma lone_rounds:
  assumes "nbworkers E = 1" "\<forall>r < rounds E. work E 0 r = Quiet" "R \<le> rounds E"
  shows "\<exists>ts s. run_threads (measure_step E) 2 (measure_start E garbage)
      (pair (Spin R) (if R < rounds E then Notify R ts else Join None ts), s) \<and> resting s \<and>
    clock_reads s = 2 * R \<and> get_tick (runtime s) = (\<Sum>j < R. round_ticks E j) \<and> length ts = R \<and>
    (\<forall>k < R. ts ! k = (\<Sum>j \<le> k. round_ticks E j))"
  using assms(3)
proof (induction R)
  case 0
  have "run_threads (measure_step E) 2 (measure_start E garbage) (pair (Spin 0) (Notify 0 []), new_sync garbage)"
    unfolding pair_start [OF assms(1)] by (rule threads_start)
  moreover have "0 < rounds E" by (simp add: rounds_def)
  ultimately show ?case
    by (intro exI [of _ "[]"] exI [of _ "new_sync garbage"]) (simp add: new_sync_def resting_def get_tick_def new_chrono_def)
next
  case (Suc R)
  then obtain ts s where run: "run_threads (measure_step E) 2 (measure_start E garbage) (pair (Spin R) (Notify R ts), s)"
    and s: "resting s" "clock_reads s = 2 * R" "get_tick (runtime s) = (\<Sum>j < R. round_ticks E j)" "length ts = R"
    "\<forall>k < R. ts ! k = (\<Sum>j \<le> k. round_ticks E j)"
    by (auto simp: Suc_le_eq)
  have R: "R < rounds E" using Suc.prems by simp
  obtain s' where s': "run_schedule (measure_step E) in_turn (pair (Spin R) (Notify R ts), s) =
      (pair (Spin (Suc R)) (next_test E R (ts @ [get_tick (runtime s')])), s')" "resting s'"
    "clock_reads s' = clock_reads s + 2"
    "get_tick (runtime s') = get_tick (runtime s) +
       (convert (clock E (Suc (clock_reads s))) - convert (clock E (clock_reads s)))"
    by (rule lone_round [OF assms(1) R _ s(1)]) (use assms(2) R in auto)
  let ?ts = "ts @ [get_tick (runtime s')]"
  have tick: "get_tick (runtime s') = (\<Sum>j \<le> R. round_ticks E j)"
    using s'(4) s(2,3) by (simp add: round_ticks_def lessThan_Suc_atMost [symmetric])
  have "run_threads (measure_step E) 2 (measure_start E garbage)
      (run_schedule (measure_step E) in_turn (pair (Spin R) (Notify R ts), s))"
    by (rule run_threads_trans [OF run_schedule run]) (simp add: in_turn_def)
  then have "run_threads (measure_step E) 2 (measure_start E garbage)
      (pair (Spin (Suc R)) (if Suc R < rounds E then Notify (Suc R) ?ts else Join None ?ts), s')"
    using s'(1) by (simp add: next_test_def split: if_splits)
  moreover have "\<forall>k < Suc R. ?ts ! k = (\<Sum>j \<le> k. round_ticks E j)"
    using s(4,5) tick by (simp add: less_Suc_eq nth_append)
  ultimately show ?case
    using s' s tick by (intro exI [of _ ?ts] exI [of _ s']) (simp add: lessThan_Suc_atMost)
qed

lemma lone_measured:
  assumes "nbworkers E = 1" "\<forall>r < rounds E. work E 0 r = Quiet"
  shows "\<exists>ls s ts. run_threads (measure_step E) 2 (measure_start E garbage) (ls, s) \<and>
      ls 1 = Master (Measured None ts) \<and> length ts = rounds E \<and> (\<forall>k < rounds E. ts ! k = (\<Sum>j \<le> k. round_ticks E j))"
proof -
  obtain ts s where run: "run_threads (measure_step E) 2 (measure_start E garbage) (pair (Spin (rounds E)) (Join None ts), s)"
    and ts: "length ts = rounds E" "\<forall>k < rounds E. ts ! k = (\<Sum>j \<le> k. round_ticks E j)"
    using lone_rounds [OF assms order.refl, of garbage] by (elim exE conjE) (simp; metis)
  have "run_threads (measure_step E) 2 (measure_start E garbage)
      (run_schedule (measure_step E) [1, 0, 1, 1] (pair (Spin (rounds E)) (Join None ts), s))"
    by (rule run_threads_trans [OF run_schedule run]) simp
  then have "run_threads (measure_step E) 2 (measure_start E garbage)
      (pair (Left (rounds E)) (Measured None ts), s\<lparr>sync_status := Quit, exited := insert 0 (exited s)\<rparr>)"
    using assms(1) by (simp add: leave_def)
  then show ?thesis using ts by (intro exI conjI) (assumption, simp_all)
qed

text \<open>A concrete measurement: seven repetitions, a clock that shows one second more at each reading.\<close>

definition demo_measure :: environment_of_measure where
  "demo_measure = \<lparr>nbworkers = 1, nbrepeats = 7, work = \<lambda>_ _. Quiet, clock = \<lambda>k. Some (of_nat k, 0),
     overtime = \<lambda>_. False, maxtick_init = invalid_tick, maxtick_perf = invalid_tick, maxtick_chck = invalid_tick\<rparr>"

lemma demo_measure [simp]:
  "nbworkers demo_measure = 1" "work demo_measure i r = Quiet" "rounds demo_measure = 9"
  "clock demo_measure k = Some (of_nat k, 0)"
  by (simp_all add: demo_measure_def rounds_def)

section \<open>Properties\<close>

text \<open>A verdict, in terms of the work done.\<close>

lemma verdict_work:
  assumes v: "verdict E R error ts"
  shows "case error of
         None \<Rightarrow> length ts = rounds E \<and> (\<forall>r < rounds E. \<forall>i < nbworkers E. work E i r = Quiet)
       | Some e \<Rightarrow> length ts < rounds E \<and> (\<forall>r < length ts. \<forall>i < nbworkers E. work E i r = Quiet) \<and>
           (\<exists>i < nbworkers E. message (work E i (length ts)) = Some e)"
proof (cases error)
  case None
  then have "R = rounds E" "clean E R" "length ts = R" using v by (auto simp: verdict_def)
  then show ?thesis using None clean_quiet [of E R] by simp
next
  case (Some e)
  then obtain r where r: "r < rounds E" "clean E r" "e \<in> messages E r" "length ts = r"
    using v by (auto simp: verdict_def)
  then have "\<exists>i < nbworkers E. message (work E i (length ts)) = Some e" by (simp add: messages_def do_work_def)
  moreover have "\<forall>q < r. \<forall>i < nbworkers E. work E i q = Quiet" using r(1,2) clean_quiet [of E r] by simp
  ultimately show ?thesis using Some r by simp
qed

lemma verdict_ends:
  assumes "verdict E R error ts" "r \<le> length ts" "r < rounds E"
  shows "\<forall>i < nbworkers E. work E i r \<noteq> Hangs"
proof -
  have "all_end E r"
    using assms by (auto simp: verdict_def clean_def le_less split: option.splits)
  then show ?thesis using assms(3) by (simp add: all_end_def do_work_def)
qed

lemma measured_verdict:
  assumes "m = Measured error ts"
    and "idle E R w m s \<or> gather E R w m s \<or> full E R w m s \<or> running E R w m s \<or> closing E R w m s \<or>
       raised E R w m s \<or> quitting E R w m s"
  shows "(\<forall>i < nbworkers E. w i = Left R) \<and> verdict E R error ts"
proof -
  have "quitting E R w m s"
    using assms by (auto simp: idle_def gather_def full_def running_def closing_def raised_def awaits_def)
  then show ?thesis using assms(1) by (fastforce simp: quitting_def)
qed

lemma threads_move:
  assumes "\<forall>i < nbworkers E. ls i = Worker (w i)" "ls (nbworkers E) = Master m"
  shows "fst (master_step E m s) \<noteq> m \<Longrightarrow> \<exists>i \<le> nbworkers E. fst (measure_step E i (ls i) s) \<noteq> ls i"
    and "\<exists>i < nbworkers E. fst (worker_step E i (w i) s) \<noteq> w i \<Longrightarrow> \<exists>i \<le> nbworkers E. fst (measure_step E i (ls i) s) \<noteq> ls i"
proof -
  assume "fst (master_step E m s) \<noteq> m"
  then show "\<exists>i \<le> nbworkers E. fst (measure_step E i (ls i) s) \<noteq> ls i"
    using assms(2) by (intro exI [of _ "nbworkers E"]) (simp add: case_prod_unfold Let_def)
next
  assume "\<exists>i < nbworkers E. fst (worker_step E i (w i) s) \<noteq> w i"
  then obtain i where "i < nbworkers E" "fst (worker_step E i (w i) s) \<noteq> w i" by blast
  then show "\<exists>i \<le> nbworkers E. fst (measure_step E i (ls i) s) \<noteq> ls i"
    using assms(1) by (intro exI [of _ i]) (simp add: case_prod_unfold Let_def)
qed

text \<open>C34: the verdict of the grader. In every interleaving of a master and any number of workers,
  \<open>measure\<close> never throws \<open>Unreachable\<close>, and when it returns all workers have returned: without an
  error only if no worker had anything to report in any round, with a time for every round; with
  the message of a worker of the first round in which one reported or threw, otherwise.\<close>

theorem measure_verdict:
  assumes "0 < nbworkers E" "nbworkers E < 2 ^ 32"
    and "run_threads (measure_step E) (Suc (nbworkers E)) (measure_start E garbage) (ls, s)"
  shows "ls (nbworkers E) \<noteq> Master Unreachable \<and>
    (\<forall>error ts. ls (nbworkers E) = Master (Measured error ts) \<longrightarrow>
      (\<forall>i < nbworkers E. \<exists>r. ls i = Worker (Left r)) \<and>
      (case error of
         None \<Rightarrow> length ts = rounds E \<and> (\<forall>r < rounds E. \<forall>i < nbworkers E. work E i r = Quiet)
       | Some e \<Rightarrow> length ts < rounds E \<and> (\<forall>r < length ts. \<forall>i < nbworkers E. work E i r = Quiet) \<and>
           (\<exists>i < nbworkers E. message (work E i (length ts)) = Some e)))"
proof -
  obtain w m R where w: "\<forall>i < nbworkers E. ls i = Worker (w i)" "ls (nbworkers E) = Master m"
    and ph: "idle E R w m s \<or> gather E R w m s \<or> full E R w m s \<or> running E R w m s \<or> closing E R w m s \<or>
       raised E R w m s \<or> quitting E R w m s"
    using measure_reach [OF assms] by metis
  have "m \<noteq> Unreachable"
    using ph by (auto simp: idle_def gather_def full_def running_def closing_def raised_def quitting_def awaits_def)
  note quit = measured_verdict [OF _ ph]
  with \<open>m \<noteq> Unreachable\<close> w show ?thesis using verdict_work quit by fastforce
qed

theorem measure_verdict_witness:
  "\<exists>ls s ts. run_threads (measure_step demo_measure) 2 (measure_start demo_measure 0) (ls, s) \<and>
    ls 1 = Master (Measured None ts) \<and> length ts = 9"
proof -
  obtain ls s ts where r: "run_threads (measure_step demo_measure) 2 (measure_start demo_measure 0) (ls, s)"
    "ls 1 = Master (Measured None ts)"
    using lone_measured [of demo_measure 0] by auto
  have "run_threads (measure_step demo_measure) (Suc (nbworkers demo_measure)) (measure_start demo_measure 0) (ls, s)"
    using r(1) by (simp add: eval_nat_numeral)
  from measure_verdict [OF _ _ this] r(2) have "length ts = 9" by fastforce
  with r show ?thesis by blast
qed

text \<open>C35: the workers stay in step. While a worker does its work of round \<open>r\<close>, every worker has arrived
  for round \<open>r\<close> and none has arrived for the next, and all work of earlier rounds went well.\<close>

theorem rounds_in_lockstep:
  assumes "0 < nbworkers E" "nbworkers E < 2 ^ 32" "i < nbworkers E"
    and "run_threads (measure_step E) (Suc (nbworkers E)) (measure_start E garbage) (ls, s)"
    and "ls i = Worker (Busy r)"
  shows "r < rounds E \<and>
    (\<forall>j < nbworkers E. \<exists>p. ls j = Worker p \<and> counted p \<in> {2 * r + 1, 2 * r + 2} \<and>
      (\<forall>q < r. work E j q = Quiet))"
proof -
  obtain w m R where w: "\<forall>i < nbworkers E. ls i = Worker (w i)"
    and ph: "idle E R w m s \<or> gather E R w m s \<or> full E R w m s \<or> running E R w m s \<or> closing E R w m s \<or>
       raised E R w m s \<or> quitting E R w m s"
    using measure_reach [OF assms(1,2,4)] by metis
  have "w i = Busy r" using w assms(3,5) by auto
  from busy_running [OF this assms(3) ph] have r: "running E R w m s" "r = R" by blast+
  then have "clean E r" "r < rounds E" "\<forall>j < nbworkers E. at_work E R j (w j) \<or> rested E (Suc R) j (w j)"
    unfolding running_def by blast+
  then show ?thesis using w r(2) clean_quiet [of E r] counted_at_work counted_rested by fastforce
qed

theorem rounds_in_lockstep_witness:
  "\<exists>ls s. run_threads (measure_step demo_measure) 2 (measure_start demo_measure 0) (ls, s) \<and>
    ls 0 = Worker (Busy 0) \<and> counted (Busy 0) \<in> {1, 2}"
proof -
  let ?c = "run_schedule (measure_step demo_measure) [1, 0, 0, 0, 0] (measure_start demo_measure 0)"
  have c: "fst ?c 0 = Worker (Busy 0)"
    by (simp add: pair_start new_sync_def)
  have "run_threads (measure_step demo_measure) 2 (measure_start demo_measure 0) ?c"
    by (rule run_schedule) simp
  then obtain ls s where r: "run_threads (measure_step demo_measure) 2 (measure_start demo_measure 0) (ls, s)"
    "ls 0 = Worker (Busy 0)"
    using c by (cases ?c) auto
  have "run_threads (measure_step demo_measure) (Suc (nbworkers demo_measure)) (measure_start demo_measure 0) (ls, s)"
    using r(1) by (simp add: eval_nat_numeral)
  from rounds_in_lockstep [OF _ _ _ this r(2)] r(2) have "counted (Busy 0) \<in> {1, 2}" by fastforce
  with r show ?thesis by blast
qed

section \<open>What is waited for\<close>

text \<open>Some thread can move on, or some worker is in a part of the workload that never returns.\<close>

lemma only_work_waits:
  assumes "0 < nbworkers E" "nbworkers E < 2 ^ 32"
    and "run_threads (measure_step E) (Suc (nbworkers E)) (measure_start E garbage) (ls, s)"
    and "ls (nbworkers E) \<noteq> Master Overrun" "\<forall>error ts. ls (nbworkers E) \<noteq> Master (Measured error ts)"
  shows "(\<exists>i \<le> nbworkers E. fst (measure_step E i (ls i) s) \<noteq> ls i) \<or>
    (\<exists>i < nbworkers E. \<exists>r < rounds E. ls i = Worker (Busy r) \<and> work E i r = Hangs)"
proof -
  obtain w m R where w: "\<forall>i < nbworkers E. ls i = Worker (w i)" "ls (nbworkers E) = Master m"
    and ret: "returned (nbworkers E) w s"
    and ph: "idle E R w m s \<or> gather E R w m s \<or> full E R w m s \<or> running E R w m s \<or> closing E R w m s \<or>
       raised E R w m s \<or> quitting E R w m s"
    using measure_reach [OF assms(1-3)] by metis
  have m: "m \<noteq> Overrun" "\<forall>error ts. m \<noteq> Measured error ts" using w(2) assms(4,5) by auto
  show ?thesis
  proof (cases "\<exists>i < nbworkers E. w i = Busy R \<and> do_work E i R = Hangs")
    case True
    then obtain i where i: "i < nbworkers E" "w i = Busy R" "do_work E i R = Hangs" by blast
    then have "R < rounds E" "work E i R = Hangs" by (simp_all add: do_work_def split: if_splits)
    moreover have "ls i = Worker (Busy R)" using w(1) i by simp
    ultimately show ?thesis using i(1) by (intro disjI2 exI [of _ i] exI [of _ R] conjI)
  next
    case False
    from ph have "fst (master_step E m s) \<noteq> m \<or> (\<exists>i < nbworkers E. fst (worker_step E i (w i) s) \<noteq> w i)"
    proof (elim disjE)
      assume "idle E R w m s" from idle_moves [OF this] show ?thesis ..
    next
      assume "raised E R w m s" from raised_moves [OF this] show ?thesis using m(1) by blast
    next
      assume "quitting E R w m s" from quitting_moves [OF this ret] show ?thesis using m(2) by blast
    qed (use round_moves [of E R w m s] False in blast)+
    then show ?thesis using threads_move [OF w] by blast
  qed
qed

text \<open>When \<open>measure\<close> returns every part of the rounds it started has returned or thrown.\<close>

lemma measured_work_ends:
  assumes "0 < nbworkers E" "nbworkers E < 2 ^ 32"
    and "run_threads (measure_step E) (Suc (nbworkers E)) (measure_start E garbage) (ls, s)"
    and "ls (nbworkers E) = Master (Measured error ts)" "r \<le> length ts" "r < rounds E" "i < nbworkers E"
  shows "work E i r \<noteq> Hangs"
proof -
  obtain w m R where w: "ls (nbworkers E) = Master m"
    and ph: "idle E R w m s \<or> gather E R w m s \<or> full E R w m s \<or> running E R w m s \<or> closing E R w m s \<or>
       raised E R w m s \<or> quitting E R w m s"
    using measure_reach [OF assms(1-3)] by metis
  have "m = Measured error ts" using w assms(4) by simp
  from measured_verdict [OF this ph] verdict_ends [OF _ assms(5,6)] assms(7) show ?thesis by blast
qed

end
