(* ===== verification/Measure_Throws.thy ===== *)
theory Measure_Throws
  imports Measure
begin

text \<open>
  The two ways in which \<open>measure\<close> of \<open>grading/grading.cpp\<close> ends with an exception: a thread cannot be
  started, or a round is late. In both it detaches the threads it has and throws; what becomes of
  them is shown here.
\<close>

text \<open>The loop that starts the threads: the first one that cannot be started, if any. Those before it
  are detached, and the exception goes on.\<close>

function start_threads :: "(nat \<Rightarrow> bool) \<Rightarrow> nat \<Rightarrow> nat \<Rightarrow> nat option" where
  "start_threads starts nbthreads i =
     (if i < nbthreads then if starts i then start_threads starts nbthreads (i + 1) else Some i else None)"
  by pat_completeness auto
termination
  by (relation "measure (\<lambda>(starts, n, i). n - i)") auto

declare start_threads.simps [simp del]

lemma start_threads_result:
  "start_threads starts n k = (if \<forall>i. k \<le> i \<and> i < n \<longrightarrow> starts i then None else Some (LEAST i. k \<le> i \<and> i < n \<and> \<not> starts i))"
proof (induction starts n k rule: start_threads.induct)
  case (1 starts n k)
  show ?case
  proof (cases "k < n \<and> starts k")
    case True
    then have "(k \<le> i \<and> i < n \<and> \<not> starts i) = (k + 1 \<le> i \<and> i < n \<and> \<not> starts i)" for i
      using le_neq_implies_less by fastforce
    then have "(LEAST i. k \<le> i \<and> i < n \<and> \<not> starts i) = (LEAST i. k + 1 \<le> i \<and> i < n \<and> \<not> starts i)"
      "(\<forall>i. k \<le> i \<and> i < n \<longrightarrow> starts i) = (\<forall>i. k + 1 \<le> i \<and> i < n \<longrightarrow> starts i)" by metis+
    then show ?thesis using 1 True by (subst start_threads.simps) simp
  next
    case False
    have "(LEAST i. k \<le> i \<and> i < n \<and> \<not> starts i) = k" if "k < n" "\<not> starts k"
      using that by (intro Least_equality) auto
    then show ?thesis using False by (subst start_threads.simps) auto
  qed
qed

text \<open>Without a master nobody gets past the first \<open>worker_wait\<close>.\<close>

lemma no_master:
  assumes "run_threads (measure_step E) i (measure_start E garbage) c" "i \<le> nbworkers E"
  shows "c = measure_start E garbage"
  using assms(1)
proof (induction rule: run_threads.induct)
  case (threads_step ls s j l' s')
  have c: "ls j = Worker (Spin 0)" "sync_status s = Done"
    using threads_step.IH threads_step.hyps(2) assms(2) by (auto simp: measure_start_def new_sync_def)
  then have "l' = ls j" "s' = s" using threads_step.hyps(3) by auto
  then show ?case using threads_step.IH by simp
qed simp

text \<open>While \<open>master_wait\<close> is given up no worker has been told to return.\<close>

lemma overrun_worker:
  assumes "0 < nbworkers E" "nbworkers E < 2 ^ 32"
    and "run_threads (measure_step E) (Suc (nbworkers E)) (measure_start E garbage) (ls, s)"
    and "ls (nbworkers E) = Master Overrun" "i < nbworkers E" "ls i = Worker (Left r)"
  shows "do_work E i (r - 1) = Throws"
proof -
  obtain w m R where w: "\<forall>i < nbworkers E. ls i = Worker (w i)" "ls (nbworkers E) = Master m"
    and ph: "idle E R w m s \<or> gather E R w m s \<or> full E R w m s \<or> running E R w m s \<or> closing E R w m s \<or>
       raised E R w m s \<or> quitting E R w m s"
    using measure_reach [OF assms(1-3)] by metis
  have m: "m = Overrun" and wi: "w i = Left r" using w assms(4-6) by auto
  have late: "gather E R w m s \<or> full E R w m s \<or> running E R w m s \<or> closing E R w m s \<or> raised E R w m s"
    using ph m by (auto simp: idle_def quitting_def)
  have left: "rested E (Suc R) i (Left r) \<Longrightarrow> do_work E i (r - 1) = Throws"
    by (auto simp: rested_def throws_def split: if_splits)
  have "rested E (Suc R) i (Left r)"
    using late assms(5) wi
    by (elim disjE) (force simp: gather_def full_def running_def closing_def raised_def)+
  then show ?thesis by (rule left)
qed

text \<open>C37: what \<open>measure\<close> leaves behind when it throws. If a thread cannot be started, the threads before
  it are detached and spin in \<open>worker_wait\<close> for good, since there is no master to publish a round; and
  if a round is late, no worker has returned but one whose work threw. The workers detached in either
  case go on with \<open>sync\<close> and the workload, which are locals of \<open>measure\<close> and of \<open>main\<close>.\<close>

theorem detached_workers_go_on:
  assumes "0 < nbworkers E" "nbworkers E < 2 ^ 32"
  shows "(start_threads starts (nbworkers E) 0 = Some i \<longrightarrow> i < nbworkers E \<and> \<not> starts i \<and> (\<forall>j < i. starts j) \<and>
      (\<forall>c. run_threads (measure_step E) i (measure_start E garbage) c \<longrightarrow> c = measure_start E garbage)) \<and>
    (run_threads (measure_step E) (Suc (nbworkers E)) (measure_start E garbage) (ls, s) \<and>
      ls (nbworkers E) = Master Overrun \<longrightarrow>
      (\<forall>k < nbworkers E. \<forall>r. ls k = Worker (Left r) \<longrightarrow> do_work E k (r - 1) = Throws))"
proof -
  have "i < nbworkers E \<and> \<not> starts i \<and> (\<forall>j < i. starts j)" if "start_threads starts (nbworkers E) 0 = Some i"
  proof -
    have ex: "\<exists>i. i < nbworkers E \<and> \<not> starts i" and i: "i = (LEAST i. i < nbworkers E \<and> \<not> starts i)"
      using that by (auto simp: start_threads_result split: if_splits)
    have "i < nbworkers E \<and> \<not> starts i" unfolding i by (rule LeastI_ex [OF ex])
    then show ?thesis using not_less_Least [of _ "\<lambda>i. i < nbworkers E \<and> \<not> starts i"] unfolding i [symmetric] by auto
  qed
  then show ?thesis using no_master [of E i garbage] overrun_worker [OF assms] less_imp_le by blast
qed

text \<open>A worker that never moves, and a limit that passes before it does.\<close>

definition late_measure :: environment_of_measure where
  "late_measure = demo_measure\<lparr>maxtick_init := 1, overtime := \<lambda>_. True\<rparr>"

theorem detached_workers_go_on_witness:
  "start_threads (\<lambda>i. i \<noteq> 0) 1 0 = Some 0 \<and>
    (\<exists>ls s. run_threads (measure_step late_measure) 2 (measure_start late_measure 0) (ls, s) \<and> ls 1 = Master Overrun \<and>
      (\<forall>k < 1. \<forall>r. ls k = Worker (Left r) \<longrightarrow> do_work late_measure k (r - 1) = Throws))"
proof -
  have E: "nbworkers late_measure = 1" by (simp add: late_measure_def)
  let ?c = "run_schedule (measure_step late_measure) [1, 1, 1] (measure_start late_measure 0)"
  have "fst ?c = pair (Spin 0) Overrun"
    using E by (simp add: pair_start maxtick_of_def latch_wait_def new_sync_def start_runtime_def
        late_measure_def invalid_tick_def)
  moreover have "run_threads (measure_step late_measure) 2 (measure_start late_measure 0) ?c"
    by (rule run_schedule) simp
  ultimately obtain s where s: "run_threads (measure_step late_measure) 2 (measure_start late_measure 0) (pair (Spin 0) Overrun, s)"
    by (metis prod.collapse)
  have start: "start_threads (\<lambda>i. i \<noteq> 0) 1 0 = Some 0" by (subst start_threads.simps) simp
  have n: "0 < nbworkers late_measure" "nbworkers late_measure < 2 ^ 32" by (simp_all add: E)
  have r: "run_threads (measure_step late_measure) (Suc (nbworkers late_measure)) (measure_start late_measure 0) (pair (Spin 0) Overrun, s)"
    using s by (simp add: E eval_nat_numeral)
  have main: "pair (Spin 0) Overrun (nbworkers late_measure) = Master Overrun" by (simp add: E)
  note late = detached_workers_go_on [OF n, of "\<lambda>i. i \<noteq> 0" 0 0 "pair (Spin 0) Overrun" s, THEN conjunct2, THEN mp, OF conjI, OF r main]
  show ?thesis
    by (intro conjI exI [of _ "pair (Spin 0) Overrun"] exI [of _ s]) (fact start s main [unfolded E] late [unfolded E])+
qed

end
