(* ===== verification/Measure_Times.thy ===== *)
theory Measure_Times
  imports Measure
begin

text \<open>
  What the times in the result of \<open>measure\<close> stand for. The master starts the clock of a round and the
  last worker stops it, in either order, and nobody ever resets it: in every interleaving the clock is
  read exactly twice in a round, and a returned time is the sum over the rounds so far.
\<close>

section \<open>The clock after a number of rounds\<close>

text \<open>
  \<open>first k\<close> says whether the master started the clock of round \<open>k\<close> before a worker stopped it. Readings
  \<open>2 * k\<close> and \<open>2 * k + 1\<close> are those of round \<open>k\<close>.
\<close>

fun last_start :: "environment_of_measure \<Rightarrow> tick \<Rightarrow> (nat \<Rightarrow> bool) \<Rightarrow> nat \<Rightarrow> tick" where
  "last_start E garbage first 0 = garbage"
| "last_start E garbage first (Suc k) = convert (clock E (if first k then 2 * k else 2 * k + 1))"

definition round_length :: "environment_of_measure \<Rightarrow> tick \<Rightarrow> (nat \<Rightarrow> bool) \<Rightarrow> nat \<Rightarrow> tick" where
  "round_length E garbage first k =
     (if first k then convert (clock E (2 * k + 1)) - convert (clock E (2 * k))
      else convert (clock E (2 * k)) - last_start E garbage first k)"

definition clock_at :: "environment_of_measure \<Rightarrow> tick \<Rightarrow> (nat \<Rightarrow> bool) \<Rightarrow> nat \<Rightarrow> chrono" where
  "clock_at E garbage first k =
     \<lparr>total_ticks = (\<Sum>j < k. round_length E garbage first j), local_ticks = last_start E garbage first k\<rparr>"

definition sums :: "environment_of_measure \<Rightarrow> tick \<Rightarrow> (nat \<Rightarrow> bool) \<Rightarrow> tick list \<Rightarrow> bool" where
  "sums E garbage first ts \<longleftrightarrow> (\<forall>k < length ts. ts ! k = (\<Sum>j \<le> k. round_length E garbage first j))"

lemma last_start_cong: "\<forall>j < k. first' j = first j \<Longrightarrow> last_start E garbage first' k = last_start E garbage first k"
  by (cases k) simp_all

lemma round_length_cong:
  "\<forall>j < k. first' j = first j \<Longrightarrow> i < k \<Longrightarrow> round_length E garbage first' i = round_length E garbage first i"
  using last_start_cong [of i first' first] by (simp add: round_length_def)

lemma clock_at_cong: "\<forall>j < k. first' j = first j \<Longrightarrow> clock_at E garbage first' k = clock_at E garbage first k"
  using last_start_cong [of k first' first] round_length_cong [of k first' first] by (simp add: clock_at_def)

lemma sums_cong:
  assumes "\<forall>j < length ts. first' j = first j" "sums E garbage first ts"
  shows "sums E garbage first' ts"
  unfolding sums_def
proof (intro allI impI)
  fix k assume k: "k < length ts"
  have "(\<Sum>j \<le> k. round_length E garbage first' j) = (\<Sum>j \<le> k. round_length E garbage first j)"
    using round_length_cong [OF assms(1)] k by (intro sum.cong) simp_all
  then show "ts ! k = (\<Sum>j \<le> k. round_length E garbage first' j)" using assms(2) k by (simp add: sums_def)
qed

lemma sums_append:
  "sums E garbage first ts \<Longrightarrow> sums E garbage first (ts @ [get_tick (clock_at E garbage first (Suc (length ts)))])"
  by (auto simp: sums_def nth_append less_Suc_eq get_tick_def clock_at_def lessThan_Suc_atMost)

section \<open>The invariant\<close>

definition stopped :: "nat \<Rightarrow> (nat \<Rightarrow> worker_pc) \<Rightarrow> sync \<Rightarrow> bool" where
  "stopped n w s \<longleftrightarrow> donelatch s \<or> (\<exists>i < n. \<exists>r x. w i = RaiseLatch r x)"

text \<open>The clock, its readings and the times, by where the master is; \<open>stop\<close>: the round is stopped.\<close>

fun timed :: "environment_of_measure \<Rightarrow> tick \<Rightarrow> (nat \<Rightarrow> bool) \<Rightarrow> bool \<Rightarrow> master_pc \<Rightarrow> sync \<Rightarrow> bool" where
  "timed E garbage first stop (Notify R ts) s \<longleftrightarrow> sums E garbage first ts \<and> length ts = R \<and> \<not> stop \<and>
     clock_reads s = 2 * R \<and> runtime s = clock_at E garbage first R"
| "timed E garbage first stop (StartClock R ts) s \<longleftrightarrow> sums E garbage first ts \<and> length ts = R \<and>
     (if stop then \<not> first R \<and> clock_reads s = 2 * R + 1 \<and>
        runtime s = chrono_stop (clock E (2 * R)) (clock_at E garbage first R)
      else clock_reads s = 2 * R \<and> runtime s = clock_at E garbage first R)"
| "timed E garbage first stop (WaitDone R ts) s \<longleftrightarrow> sums E garbage first ts \<and> length ts = R \<and>
     (if stop then clock_reads s = 2 * R + 2 \<and> runtime s = clock_at E garbage first (Suc R)
      else first R \<and> clock_reads s = 2 * R + 1 \<and>
        runtime s = chrono_start (clock E (2 * R)) (clock_at E garbage first R))"
| "timed E garbage first stop (Inspect R ts) s \<longleftrightarrow> sums E garbage first ts \<and> length ts = R \<and> \<not> stop \<and>
     clock_reads s = 2 * R + 2 \<and> runtime s = clock_at E garbage first (Suc R)"
| "timed E garbage first stop (FetchError R ts) s \<longleftrightarrow> sums E garbage first ts"
| "timed E garbage first stop (Join error ts) s \<longleftrightarrow> sums E garbage first ts"
| "timed E garbage first stop (Joining j error ts) s \<longleftrightarrow> sums E garbage first ts"
| "timed E garbage first stop (Measured error ts) s \<longleftrightarrow> sums E garbage first ts"
| "timed E garbage first stop Overrun s \<longleftrightarrow> True"
| "timed E garbage first stop Unreachable s \<longleftrightarrow> True"

lemma timed_cong:
  "runtime s' = runtime s \<Longrightarrow> clock_reads s' = clock_reads s \<Longrightarrow> timed E garbage first stop m s' = timed E garbage first stop m s"
  by (cases m) simp_all

text \<open>Both orders of the two readings of a round lead to the clock after it.\<close>

lemma clock_started: "first R \<Longrightarrow> chrono_stop (clock E (2 * R + 1)) (chrono_start (clock E (2 * R)) (clock_at E garbage first R)) =
    clock_at E garbage first (Suc R)"
  by (simp add: clock_at_def chrono_stop_def chrono_start_def chrono_delta_def round_length_def)

lemma clock_overtaken: "\<not> first R \<Longrightarrow> chrono_start (clock E (2 * R + 1)) (chrono_stop (clock E (2 * R)) (clock_at E garbage first R)) =
    clock_at E garbage first (Suc R)"
  by (simp add: clock_at_def chrono_stop_def chrono_start_def chrono_delta_def round_length_def)

lemma worker_clock:
  assumes "worker_step E i (w i) s = (p', s')" "\<nexists>r x. w i = StopClock r x" "i < n"
  shows "runtime s' = runtime s" "clock_reads s' = clock_reads s" "stopped n (w(i := p')) s' = stopped n w s"
proof -
  show "runtime s' = runtime s" "clock_reads s' = clock_reads s"
    using assms(1,2) by (cases "w i"; auto simp: leave_def next_round_def Let_def split: if_splits work_end.splits)+
  have r: "(\<exists>r x. p' = RaiseLatch r x) \<longrightarrow> (\<exists>r x. w i = RaiseLatch r x)"
    using assms(1,2) by (cases "w i"; auto simp: leave_def next_round_def notify_of_def Let_def split: if_splits work_end.splits option.splits)
  have d: "donelatch s' = donelatch s \<and> (\<nexists>r x. w i = RaiseLatch r x) \<or> donelatch s' \<and> (\<exists>r x. w i = RaiseLatch r x)"
    using assms(1,2) by (cases "w i"; auto simp: leave_def next_round_def latch_raise_def Let_def split: if_splits work_end.splits)
  show "stopped n (w(i := p')) s' = stopped n w s" using r d assms(3) unfolding stopped_def fun_upd_apply by metis
qed

text \<open>The phase in which the clock is stopped.\<close>

lemma rested_not_raising: "rested E R i p \<Longrightarrow> p \<noteq> RaiseLatch r x \<and> p \<noteq> StopClock r x"
  by (auto simp: rested_def)

lemma stopping_phase:
  assumes "w i = StopClock r x" "i < nbworkers E"
    and "idle E R w m s \<or> gather E R w m s \<or> full E R w m s \<or> running E R w m s \<or> closing E R w m s \<or>
       raised E R w m s \<or> quitting E R w m s"
  shows "awaits R m \<and> \<not> stopped (nbworkers E) w s"
proof -
  have nr: "\<not> rested E Q i (w i)" for Q using assms(1) by (simp add: rested_def)
  then have "\<not> idle E R w m s" "\<not> raised E R w m s" using assms(2) by (auto simp: idle_def raised_def)
  moreover have "\<not> gather E R w m s" "\<not> quitting E R w m s" using assms(1,2) by (auto simp: gather_def quitting_def)
  moreover have "\<not> full E R w m s" using assms(1,2) by (auto simp: full_def)
  moreover have "\<not> running E R w m s"
  proof
    assume "running E R w m s"
    then have "at_work E R i (w i)" using nr assms(2) by (auto simp: running_def)
    then show False using assms(1) by simp
  qed
  ultimately have c: "closing E R w m s" using assms(3) by blast
  then obtain k where k: "\<forall>j < nbworkers E. j \<noteq> k \<longrightarrow> rested E (Suc R) j (w j)" by (auto simp: closing_def)
  then have "i = k" using nr assms(2) by blast
  then have "w j \<noteq> RaiseLatch q x" if "j < nbworkers E" for j q x
    using k rested_not_raising that assms(1) by (cases "j = k") auto
  then show ?thesis using c by (simp add: closing_def stopped_def)
qed

lemma still_phase:
  assumes "idle E R w m s \<or> gather E R w m s \<or> full E R w m s \<or> running E R w m s \<or> closing E R w m s \<or>
       raised E R w m s \<or> quitting E R w m s"
  shows "(\<exists>k ts. m = Notify k ts \<or> m = Inspect k ts) \<Longrightarrow> \<not> stopped (nbworkers E) w s"
    and "donelatch s \<Longrightarrow> \<forall>i < nbworkers E. \<forall>r x. w i \<noteq> RaiseLatch r x"
proof -
  assume "\<exists>k ts. m = Notify k ts \<or> m = Inspect k ts"
  then have "idle E R w m s"
    using assms by (auto simp: gather_def full_def running_def closing_def raised_def quitting_def awaits_def)
  then show "\<not> stopped (nbworkers E) w s" using rested_not_raising by (fastforce simp: idle_def stopped_def)
next
  assume d: "donelatch s"
  show "\<forall>i < nbworkers E. \<forall>r x. w i \<noteq> RaiseLatch r x"
  proof (cases "quitting E R w m s")
    case True
    then show ?thesis by (fastforce simp: quitting_def)
  next
    case False
    then have "raised E R w m s"
      using assms d by (auto simp: idle_def gather_def full_def running_def closing_def)
    then show ?thesis using rested_not_raising by (fastforce simp: raised_def)
  qed
qed

section \<open>It is kept\<close>

lemma timed_stop:
  assumes "timed E garbage first False m s" "awaits R m"
  shows "\<exists>first. timed E garbage first True m (stop_runtime E s)"
proof -
  consider "m = Overrun" | ts where "m = StartClock R ts" | ts where "m = WaitDone R ts"
    using assms(2) by (auto simp: awaits_def)
  then show ?thesis
  proof cases
    case (2 ts)
    let ?f = "first(R := False)"
    have "clock_at E garbage ?f R = clock_at E garbage first R" by (rule clock_at_cong) simp
    moreover have "length ts = R" "sums E garbage first ts" using 2 assms(1) by simp_all
    then have "sums E garbage ?f ts" by (intro sums_cong [OF _ \<open>sums E garbage first ts\<close>]) simp
    ultimately show ?thesis using 2 assms(1) by (intro exI [of _ ?f]) (simp add: stop_runtime_def)
  next
    case (3 ts)
    then show ?thesis
      using assms(1) clock_started [of first R E garbage] by (intro exI [of _ first]) (simp add: stop_runtime_def)
  qed simp
qed

lemma timed_master:
  assumes t: "timed E garbage first (stopped n w s) m s" and st: "master_step E m s = (m', s')"
    and calm: "(\<exists>k ts. m = Notify k ts \<or> m = Inspect k ts) \<Longrightarrow> \<not> stopped n w s"
    and late: "donelatch s \<Longrightarrow> \<forall>i < n. \<forall>r x. w i \<noteq> RaiseLatch r x"
  shows "\<exists>first. timed E garbage first (stopped n w s') m' s'"
proof (cases m)
  case (StartClock R ts)
  then have e: "m' = WaitDone R ts" "s' = start_runtime E s" using st by simp_all
  then have same: "stopped n w s' = stopped n w s" by (simp add: stopped_def start_runtime_def)
  show ?thesis
  proof (cases "stopped n w s")
    case True
    then have "timed E garbage first True (WaitDone R ts) (start_runtime E s)"
      using t StartClock clock_overtaken [of first R E garbage] by (simp add: start_runtime_def)
    then show ?thesis unfolding same using True e by auto
  next
    case False
    let ?f = "first(R := True)"
    have "clock_at E garbage ?f R = clock_at E garbage first R" by (rule clock_at_cong) simp
    moreover have "length ts = R" "sums E garbage first ts" using StartClock t by simp_all
    then have "sums E garbage ?f ts" by (intro sums_cong [OF _ \<open>sums E garbage first ts\<close>]) simp
    ultimately have "timed E garbage ?f False (WaitDone R ts) (start_runtime E s)"
      using False t StartClock by (simp add: start_runtime_def)
    then show ?thesis unfolding same using False e by auto
  qed
next
  case (WaitDone R ts)
  let ?s = "s\<lparr>waits := waits s + 1\<rparr>"
  consider "(m', s') = (WaitDone R ts, ?s)" | "m' = Overrun"
    | "(m', s') = (Inspect R ts, ?s\<lparr>donelatch := False\<rparr>)" "donelatch s"
    using st WaitDone latch_wait_raised latch_wait_overtime
    by (auto split: option.splits prod.splits bool.splits)
  then show ?thesis
  proof cases
    case 1
    then show ?thesis using t WaitDone by (intro exI [of _ first]) (simp add: stopped_def)
  next
    case 3
    then have "stopped n w s" "\<not> stopped n w s'" using late by (auto simp: stopped_def)
    then show ?thesis using 3 t WaitDone by (intro exI [of _ first]) simp
  qed simp
next
  case (Inspect R ts)
  then have "\<not> stopped n w s" "s' = s" using calm st by (auto split: status.splits)
  moreover have "sums E garbage first (ts @ [get_tick (runtime s)])"
    using sums_append [of E garbage first ts] t Inspect by simp
  ultimately show ?thesis
    using t Inspect st by (intro exI [of _ first]) (auto simp: next_test_def split: status.splits)
next
  case (Notify R ts)
  then have "\<not> stopped n w s'" using calm st by (auto simp: stopped_def)
  then show ?thesis using t Notify st by (intro exI [of _ first]) auto
qed (use t st in \<open>auto split: if_splits\<close>)

definition timing_ok :: "environment_of_measure \<Rightarrow> tick \<Rightarrow> (nat \<Rightarrow> thread_pc) \<Rightarrow> sync \<Rightarrow> bool" where
  "timing_ok E garbage ls s \<longleftrightarrow> measure_inv E ls s \<and>
     (\<exists>w m first. (\<forall>i < nbworkers E. ls i = Worker (w i)) \<and> ls (nbworkers E) = Master m \<and>
        timed E garbage first (stopped (nbworkers E) w s) m s)"

lemma timing_start:
  assumes "0 < nbworkers E"
  shows "timing_ok E garbage (fst (measure_start E garbage)) (snd (measure_start E garbage))"
proof -
  have "timed E garbage first (stopped (nbworkers E) (\<lambda>_. Spin 0) (new_sync garbage)) (Notify 0 []) (new_sync garbage)" for first
    by (simp add: sums_def stopped_def new_sync_def new_chrono_def clock_at_def)
  then show ?thesis
    using measure_inv_start [OF assms, of garbage]
    unfolding timing_ok_def measure_start_def fst_conv snd_conv
    by (intro conjI exI [of _ "\<lambda>_. Spin 0"] exI [of _ "Notify 0 []"]) auto
qed

lemma timing_keeps:
  assumes ok: "timing_ok E garbage ls s" and n: "0 < nbworkers E" "nbworkers E < 2 ^ 32" and i: "i < Suc (nbworkers E)"
    and st: "measure_step E i (ls i) s = (l', s')"
  shows "timing_ok E garbage (ls(i := l')) s'"
proof -
  obtain w m first where w: "\<forall>i < nbworkers E. ls i = Worker (w i)" "ls (nbworkers E) = Master m"
    and t: "timed E garbage first (stopped (nbworkers E) w s) m s" and inv: "measure_inv E ls s"
    using ok by (auto simp: timing_ok_def)
  obtain w2 m2 R where w2: "\<forall>i < nbworkers E. ls i = Worker (w2 i)" "ls (nbworkers E) = Master m2"
    and ph: "idle E R w2 m2 s \<or> gather E R w2 m2 s \<or> full E R w2 m2 s \<or> running E R w2 m2 s \<or> closing E R w2 m2 s \<or>
       raised E R w2 m2 s \<or> quitting E R w2 m2 s"
    using inv unfolding measure_inv_def in_phase_def by blast
  have same: "m2 = m" "\<And>i. i < nbworkers E \<Longrightarrow> w2 i = w i" using w w2 by auto
  have stop: "stopped (nbworkers E) w2 s = stopped (nbworkers E) w s" using same(2) by (auto simp: stopped_def)
  have inv': "measure_inv E (ls(i := l')) s'" by (rule measure_inv_keeps [OF inv n i st])
  show ?thesis
  proof (cases "i = nbworkers E")
    case True
    obtain m' where m': "master_step E m s = (m', s')" "l' = Master m'" using st True w(2) by (auto split: prod.splits)
    have "\<exists>first. timed E garbage first (stopped (nbworkers E) w s') m' s'"
      by (rule timed_master [OF t m'(1)]) (use still_phase [OF ph] same stop in auto)
    moreover have "\<forall>j < nbworkers E. (ls(i := l')) j = Worker (w j)" "(ls(i := l')) (nbworkers E) = Master m'"
      using w(1) True m'(2) by auto
    ultimately show ?thesis using inv' unfolding timing_ok_def by blast
  next
    case False
    then have i: "i < nbworkers E" using i by simp
    obtain p' where p': "worker_step E i (w i) s = (p', s')" "l' = Worker p'" using st i w(1) by (auto split: prod.splits)
    have "\<exists>first. timed E garbage first (stopped (nbworkers E) (w(i := p')) s') m s'"
    proof (cases "\<exists>r x. w i = StopClock r x")
      case True
      then obtain r x where x: "w i = StopClock r x" by blast
      from stopping_phase [of w2 i r x E R m2 s] ph x i same
      have a: "awaits R m" "\<not> stopped (nbworkers E) w s" using stop by simp_all
      have "p' = RaiseLatch r x" "s' = stop_runtime E s" using p'(1) x by simp_all
      moreover have "stopped (nbworkers E) (w(i := RaiseLatch r x)) s'" using i by (auto simp: stopped_def)
      ultimately show ?thesis using timed_stop [OF _ a(1)] t a(2) by simp
    next
      case False
      from worker_clock [where w = w and i = i, OF p'(1) False i] show ?thesis
        using t timed_cong [of s' s] by auto
    qed
    moreover have "\<forall>j < nbworkers E. (ls(i := l')) j = Worker ((w(i := p')) j)" "(ls(i := l')) (nbworkers E) = Master m"
      using w i p'(2) by simp_all
    ultimately show ?thesis using inv' unfolding timing_ok_def by blast
  qed
qed

definition timing_inv :: "environment_of_measure \<Rightarrow> tick \<Rightarrow> (nat \<Rightarrow> thread_pc) \<Rightarrow> sync \<Rightarrow> bool" where
  "timing_inv E garbage ls s \<longleftrightarrow> (0 < nbworkers E \<and> nbworkers E < 2 ^ 32 \<longrightarrow> timing_ok E garbage ls s)"

interpretation timing:
  thread_invariant "measure_step E" "Suc (nbworkers E)" "measure_start E garbage" "timing_inv E garbage" for E garbage
  by unfold_locales (auto simp: timing_inv_def intro: timing_start timing_keeps)

section \<open>Property\<close>

lemma lone_overtaken:
  assumes "nbworkers E = 1" "work E 0 0 = Quiet"
  shows "\<exists>ls s. run_threads (measure_step E) 2 (measure_start E garbage) (ls, s) \<and>
    ls 1 = Master (StartClock 0 []) \<and> donelatch s \<and> get_tick (runtime s) = convert (clock E 0) - garbage"
proof -
  let ?s = "stop_runtime E (new_sync garbage)"
  have "run_threads (measure_step E) 2 (measure_start E garbage)
      (run_schedule (measure_step E) overtaken (measure_start E garbage))"
    by (rule run_schedule) (simp add: overtaken_def)
  moreover have "0 < rounds E" by (simp add: rounds_def)
  then have "run_schedule (measure_step E) overtaken (measure_start E garbage) =
      (pair (Spin 1) (StartClock 0 []), ?s\<lparr>sync_status := Done, donelatch := True\<rparr>)"
    unfolding pair_start [OF assms(1)] using assms
    by (simp add: schedules do_work_def notify_of_def next_round_def latch_raise_def new_sync_def stop_runtime_def)
  ultimately have "run_threads (measure_step E) 2 (measure_start E garbage)
      (pair (Spin 1) (StartClock 0 []), ?s\<lparr>sync_status := Done, donelatch := True\<rparr>)" by simp
  then show ?thesis
    by (intro exI conjI) (assumption, simp_all add: stop_runtime_def new_sync_def new_chrono_def chrono_stop_def
        chrono_delta_def get_tick_def)
qed

text \<open>C38: the times add up. In every interleaving of a master and any number of workers, each time in the
  result of \<open>measure\<close> is the sum of the lengths of all rounds up to its own, since the clock of \<open>Sync\<close> is
  never reset. The length of a round is the difference of its two readings of the clock if the master
  started it first; otherwise it runs from the last start before, in the first round from whatever the
  clock object held. The second does happen: a lone worker can be through with the first round, and
  have stopped the clock, before the master has started it.\<close>

theorem measured_times_add_up:
  assumes "0 < nbworkers E" "nbworkers E < 2 ^ 32"
  shows "(run_threads (measure_step E) (Suc (nbworkers E)) (measure_start E garbage) (ls, s) \<and>
      ls (nbworkers E) = Master (Measured error ts) \<longrightarrow>
      (\<exists>first. \<forall>k < length ts. ts ! k = (\<Sum>j \<le> k.
         if first j then convert (clock E (2 * j + 1)) - convert (clock E (2 * j))
         else convert (clock E (2 * j)) -
           (case j of 0 \<Rightarrow> garbage | Suc i \<Rightarrow> convert (clock E (if first i then 2 * i else 2 * i + 1)))))) \<and>
    (nbworkers E = 1 \<and> work E 0 0 = Quiet \<longrightarrow>
      (\<exists>ls s. run_threads (measure_step E) 2 (measure_start E garbage) (ls, s) \<and>
        ls 1 = Master (StartClock 0 []) \<and> donelatch s \<and> get_tick (runtime s) = convert (clock E 0) - garbage))"
proof -
  have len: "round_length E garbage first j = (if first j then convert (clock E (2 * j + 1)) - convert (clock E (2 * j))
         else convert (clock E (2 * j)) -
           (case j of 0 \<Rightarrow> garbage | Suc i \<Rightarrow> convert (clock E (if first i then 2 * i else 2 * i + 1))))" for first j
    by (cases j) (simp_all add: round_length_def)
  have "\<exists>first. sums E garbage first ts"
    if "run_threads (measure_step E) (Suc (nbworkers E)) (measure_start E garbage) (ls, s)"
      "ls (nbworkers E) = Master (Measured error ts)"
    using timing.holds [OF that(1)] that(2) assms by (auto simp: timing_inv_def timing_ok_def)
  then show ?thesis using lone_overtaken unfolding sums_def len by blast
qed

theorem measured_times_add_up_witness:
  "\<exists>ls s ts. \<exists>first :: nat \<Rightarrow> bool. run_threads (measure_step demo_measure) 2 (measure_start demo_measure 5) (ls, s) \<and>
    ls 1 = Master (Measured None ts) \<and> length ts = 9 \<and>
    first 0 \<and> ts ! 0 = 1000000000 \<and> (first 1 \<longrightarrow> ts ! 1 = 2000000000)"
proof -
  obtain ls s ts where r: "run_threads (measure_step demo_measure) 2 (measure_start demo_measure 5) (ls, s)"
    "ls 1 = Master (Measured None ts)" "length ts = 9" "ts ! 0 = round_ticks demo_measure 0"
    using lone_measured [of demo_measure 5] by auto
  have n: "0 < nbworkers demo_measure" "nbworkers demo_measure < 2 ^ 32" by simp_all
  have run: "run_threads (measure_step demo_measure) (Suc (nbworkers demo_measure)) (measure_start demo_measure 5) (ls, s)"
    "ls (nbworkers demo_measure) = Master (Measured None ts)"
    using r(1,2) by (simp_all add: eval_nat_numeral)
  obtain first where f: "\<forall>k < length ts. ts ! k = (\<Sum>j \<le> k.
         if first j then convert (clock demo_measure (2 * j + 1)) - convert (clock demo_measure (2 * j))
         else convert (clock demo_measure (2 * j)) -
           (case j of 0 \<Rightarrow> 5 | Suc i \<Rightarrow> convert (clock demo_measure (if first i then 2 * i else 2 * i + 1))))"
    using measured_times_add_up [OF n, of 5 ls s None ts] run by blast
  have c: "convert (clock demo_measure 0) = 0" "convert (clock demo_measure 1) = 1000000000"
    "convert (clock demo_measure 2) = 2000000000" "convert (clock demo_measure 3) = 3000000000"
    by (simp_all add: convert_def invalid_tick_def)
  have "ts ! 0 = (if first 0 then 1000000000 else - 5)" using f [rule_format, of 0] r(3) c by simp
  moreover have t0: "ts ! 0 = 1000000000" using r(4) c by (simp add: round_ticks_def)
  ultimately have "first 0" by (simp split: if_splits)
  moreover have "ts ! 1 = 2000000000" if "first 1"
    using f [rule_format, of 1] r(3) c that \<open>first 0\<close> by (simp add: atMost_Suc)
  ultimately show ?thesis using r(1-3) t0 by (intro exI [of _ ls] exI [of _ s] exI [of _ ts] exI [of _ first]) simp
qed

end
