(* ===== verification/Check_Throws.thy ===== *)
theory Check_Throws
  imports Measure Counter_Check
begin

text \<open>
  Exceptions in \<open>WorkloadBank::check\<close> of \<open>grading/workload.hpp\<close>. Every transaction of a worker can end
  with an exception, \<open>TransactionBegin\<close> for one, which leaves \<open>check\<close>: the worker never arrives at the
  barriers that are still to come, and the others wait there. The workers of \<open>measure\<close> are told of the
  exception but cannot get to the end of the round.
\<close>

section \<open>Workers that throw\<close>

text \<open>The places in \<open>check\<close> from which \<open>transactional\<close> is called.\<close>

fun in_transaction :: "check_pc \<Rightarrow> bool" where
  "in_transaction (Round i) \<longleftrightarrow> i < check_rounds"
| "in_transaction (check_pc.Arrive k err) \<longleftrightarrow> False"
| "in_transaction (Return err) \<longleftrightarrow> False"
| "in_transaction pc \<longleftrightarrow> True"

text \<open>
  The state of \<open>check\<close> and the workers that have left it with an exception. These move no more; where
  they were stays in the state. A transaction that throws has changed nothing: that of \<open>Transaction\<close>'s
  constructor is the only exception here, since the bodies allocate nothing.
\<close>

type_synonym throwing_state = "check_state \<times> nat set"

inductive throwing_step :: "addr \<Rightarrow> nat \<Rightarrow> throwing_state \<Rightarrow> throwing_state \<Rightarrow> bool" for counter n where
  step_goes_on: "check_step counter n (\<sigma>, pcs) (\<sigma>', pcs') \<Longrightarrow> (\<And>uid. uid \<in> gone \<Longrightarrow> pcs' uid = pcs uid) \<Longrightarrow>
    throwing_step counter n ((\<sigma>, pcs), gone) ((\<sigma>', pcs'), gone)"
| step_throws: "uid < n \<Longrightarrow> uid \<notin> gone \<Longrightarrow> in_transaction (pcs uid) \<Longrightarrow>
    throwing_step counter n ((\<sigma>, pcs), gone) ((\<sigma>, pcs), insert uid gone)"

inductive throwing_reach :: "addr \<Rightarrow> nat \<Rightarrow> throwing_state \<Rightarrow> bool" for counter n where
  throwing_start: "counter \<in> fst \<sigma> \<Longrightarrow> throwing_reach counter n ((\<sigma>, \<lambda>_. check_pc.Arrive 1 None), {})"
| throwing_next: "throwing_reach counter n t \<Longrightarrow> throwing_step counter n t t' \<Longrightarrow> throwing_reach counter n t'"

inductive_cases throwing_stepE: "throwing_step counter n ((\<sigma>, pcs), gone) t"

text \<open>What is left of such a run is one without exceptions, so its invariant holds.\<close>

lemma throwing_check: "throwing_reach counter n t \<Longrightarrow> check_reach counter n (fst t)"
proof (induction rule: throwing_reach.induct)
  case (throwing_start \<sigma>)
  then show ?case using check_start [of counter \<sigma> n] by simp
next
  case (throwing_next t t')
  from throwing_next.hyps(2) throwing_next.IH show ?case
    by (cases rule: throwing_step.cases) (auto intro: check_reach.check_next)
qed

lemma gone_in_transaction:
  "throwing_reach counter n t \<Longrightarrow> uid \<in> snd t \<Longrightarrow> uid < n \<and> in_transaction (snd (fst t) uid)"
proof (induction arbitrary: uid rule: throwing_reach.induct)
  case (throwing_next t t')
  from throwing_next.hyps(2) throwing_next.IH throwing_next.prems show ?case
    by (cases rule: throwing_step.cases) auto
qed simp

lemma in_transaction_part: "in_transaction pc \<Longrightarrow> pc \<noteq> FinalCheck \<Longrightarrow> part pc < 3"
  by (cases pc) auto

text \<open>After an exception before the last barrier nobody returns.\<close>

lemma nobody_returns:
  assumes "throwing_reach counter n ((\<sigma>, pcs), gone)" "check_rounds * n < 2 ^ 64"
    and "uid \<in> gone" "pcs uid \<noteq> FinalCheck" "j < n"
  shows "pcs j \<noteq> Return err"
proof
  assume "pcs j = Return err"
  have uid: "uid < n" "in_transaction (pcs uid)" using gone_in_transaction [OF assms(1)] assms(3) by auto
  have "check_inv counter n (\<sigma>, pcs)" using check_reach_inv throwing_check [OF assms(1)] assms(2) by simp
  then obtain q where q: "\<And>uid. uid < n \<Longrightarrow> part (pcs uid) = q" using check_invE by metis
  have "part (pcs uid) < 3" by (rule in_transaction_part [OF uid(2) assms(4)])
  moreover have "part (pcs j) = 3" using \<open>pcs j = Return err\<close> by simp
  ultimately show False using q uid(1) assms(5) by simp
qed

section \<open>The check as a round of measure\<close>

text \<open>What \<open>check\<close> is for a worker when nothing more can happen in it.\<close>

definition check_message :: "check_error \<Rightarrow> string" where
  "check_message e = (case e of
     BadInitialization \<Rightarrow> ''Violated consistency during initialization''
   | BadIsolation \<Rightarrow> ''Violated consistency, isolation or atomicity''
   | BadConsistency \<Rightarrow> ''Violated consistency'')"

definition check_end :: "(nat \<Rightarrow> check_pc) \<Rightarrow> nat set \<Rightarrow> nat \<Rightarrow> work_end" where
  "check_end pcs gone uid =
     (if uid \<in> gone then Throws
      else case pcs uid of
             Return None \<Rightarrow> Quiet
           | Return (Some e) \<Rightarrow> Reports (check_message e)
           | _ \<Rightarrow> Hangs)"

lemma check_end_hangs:
  assumes "uid \<notin> gone" "\<forall>err. pcs uid \<noteq> Return err"
  shows "check_end pcs gone uid = Hangs"
  using assms by (cases "pcs uid") (simp_all add: check_end_def)

definition check_at_rest :: "addr \<Rightarrow> nat \<Rightarrow> throwing_state \<Rightarrow> bool" where
  "check_at_rest counter n t \<longleftrightarrow> throwing_reach counter n t \<and> (\<forall>t'. \<not> throwing_step counter n t t')"

section \<open>Two workers, one of which throws\<close>

text \<open>Worker 0 throws in its first transaction, worker 1 waits for it at the second barrier.\<close>

definition waiting_pcs :: "nat \<Rightarrow> check_pc" where
  "waiting_pcs = (\<lambda>uid. if uid < 2 then after_barrier 1 uid None else check_pc.Arrive 1 None)"

lemma waiting_at_rest: "check_at_rest 4096 2 ((({4096}, \<lambda>_. 0), waiting_pcs), {0})"
proof -
  let ?\<sigma> = "({4096}, \<lambda>_. 0) :: store"
  have r0: "throwing_reach 4096 2 ((?\<sigma>, \<lambda>_. check_pc.Arrive 1 None), {})" by (rule throwing_start) simp
  have "check_step 4096 2 (?\<sigma>, \<lambda>_. check_pc.Arrive 1 None) (?\<sigma>, waiting_pcs)"
    unfolding waiting_pcs_def by (rule step_barrier [where err = "\<lambda>_. None"]) simp
  then have r1: "throwing_reach 4096 2 ((?\<sigma>, waiting_pcs), {})"
    by (intro throwing_next [OF r0] step_goes_on) simp_all
  have p: "waiting_pcs 0 = Initialize" "waiting_pcs 1 = check_pc.Arrive 2 None"
    by (simp_all add: waiting_pcs_def after_barrier_def)
  have two: "uid = 0 \<or> uid = 1" if "uid < 2" for uid :: nat using that by linarith
  have "throwing_reach 4096 2 ((?\<sigma>, waiting_pcs), {0})"
    using throwing_next [OF r1 step_throws [of 0]] p by simp
  moreover have "\<not> throwing_step 4096 2 ((?\<sigma>, waiting_pcs), {0}) t" for t
  proof
    assume "throwing_step 4096 2 ((?\<sigma>, waiting_pcs), {0}) t"
    then show False
    proof (rule throwing_stepE)
      fix \<sigma>' pcs' assume t: "check_step 4096 2 (?\<sigma>, waiting_pcs) (\<sigma>', pcs')"
        and still: "\<And>uid. uid \<in> {0} \<Longrightarrow> pcs' uid = waiting_pcs uid"
      from t show False by (cases rule: check_step.cases) (use p two still in \<open>fastforce+\<close>)
    next
      fix uid assume u: "uid < 2" "uid \<notin> {0}" "in_transaction (waiting_pcs uid)"
      then have "uid = 1" using two by blast
      then show False using p u(3) by simp
    qed
  qed
  ultimately show ?thesis by (simp add: check_at_rest_def)
qed

definition hanging_measure :: environment_of_measure where
  "hanging_measure = demo_measure\<lparr>nbworkers := 2, nbrepeats := 0,
     work := \<lambda>i r. if r = 1 then check_end waiting_pcs {0} i else Quiet\<rparr>"

definition trio :: "worker_pc \<Rightarrow> worker_pc \<Rightarrow> master_pc \<Rightarrow> nat \<Rightarrow> thread_pc" where
  "trio p q m = (\<lambda>i. if i = 2 then Master m else if i = 1 then Worker q else if i = 0 then Worker p else Worker (Spin 0))"

lemma trio_simps [simp]:
  "trio p q m 0 = Worker p" "trio p q m (Suc 0) = Worker q" "trio p q m 2 = Master m"
  "(trio p q m)(0 := Worker p') = trio p' q m" "(trio p q m)(Suc 0 := Worker q') = trio p q' m"
  "(trio p q m)(2 := Master m') = trio p q m'"
  by (auto simp: trio_def)

lemma trio_schedule [simp]:
  "run_schedule (measure_step E) (0 # is) (trio p q m, s) =
     (case worker_step E 0 p s of (p', s') \<Rightarrow> run_schedule (measure_step E) is (trio p' q m, s'))"
  "run_schedule (measure_step E) (Suc 0 # is) (trio p q m, s) =
     (case worker_step E 1 q s of (q', s') \<Rightarrow> run_schedule (measure_step E) is (trio p q' m, s'))"
  "run_schedule (measure_step E) (2 # is) (trio p q m, s) =
     (case master_step E m s of (m', s') \<Rightarrow> run_schedule (measure_step E) is (trio p q m', s'))"
  by (simp_all add: case_prod_unfold Let_def)

definition hanging_schedule :: "nat list" where
  "hanging_schedule = [2, 2, 0, 0, 1, 1, 1, 1, 0, 0, 0, 1, 1, 1, 1, 1, 1, 1, 2, 2, 2, 2, 0, 0, 1, 1, 1, 1, 0, 0, 0, 0, 0]"

lemma hanging_end:
  "fst (run_schedule (measure_step hanging_measure) hanging_schedule (measure_start hanging_measure 0)) =
     trio (worker_pc.Left (Suc (Suc 0))) (Busy (Suc 0)) (WaitDone (Suc 0) [1000000000])"
proof -
  have E: "nbworkers hanging_measure = 2" "rounds hanging_measure = 2" "work hanging_measure 0 0 = Quiet"
    "work hanging_measure (Suc 0) 0 = Quiet" "work hanging_measure 0 (Suc 0) = Throws" "work hanging_measure (Suc 0) (Suc 0) = Hangs"
    "maxtick_of hanging_measure k = invalid_tick" "clock hanging_measure k = Some (of_nat k, 0)" for k
    by (simp_all add: hanging_measure_def demo_measure_def rounds_def check_end_def waiting_pcs_def after_barrier_def maxtick_of_def)
  have start: "measure_start hanging_measure 0 = (trio (Spin 0) (Spin 0) (Notify 0 []), new_sync 0)"
    by (auto simp: measure_start_def trio_def E)
  show ?thesis unfolding start hanging_schedule_def
    by (simp add: E do_work_def notify_of_def next_round_def latch_raise_def latch_wait_def next_test_def leave_def new_sync_def
        start_runtime_def stop_runtime_def new_chrono_def chrono_start_def chrono_stop_def chrono_delta_def get_tick_def
        convert_def invalid_tick_def)
qed

text \<open>C36: only the work itself is waited for. As long as \<open>measure\<close> has neither returned nor given up on
  a late round, some thread can make an access that takes it further, or some worker is in a part of
  the workload that never returns; and \<open>measure\<close> returns only if no worker was in such a part, in the
  last round it started and in all before. The check of the bank can be such a part: when one worker
  leaves it with an exception before the last barrier, any worker that does not do so never comes back,
  and without a time limit the grader waits for ever instead of reporting the exception.\<close>

theorem measure_waits_for_work:
  assumes "0 < nbworkers E" "nbworkers E < 2 ^ 32"
    and "run_threads (measure_step E) (Suc (nbworkers E)) (measure_start E garbage) (ls, s)"
  shows "(ls (nbworkers E) \<noteq> Master Overrun \<and> (\<forall>error ts. ls (nbworkers E) \<noteq> Master (Measured error ts)) \<longrightarrow>
      (\<exists>i \<le> nbworkers E. fst (measure_step E i (ls i) s) \<noteq> ls i) \<or>
      (\<exists>i < nbworkers E. \<exists>r < rounds E. ls i = Worker (Busy r) \<and> work E i r = Hangs)) \<and>
    (\<forall>error ts r. ls (nbworkers E) = Master (Measured error ts) \<and> r \<le> length ts \<and> r < rounds E \<longrightarrow>
      (\<forall>i < nbworkers E. work E i r \<noteq> Hangs)) \<and>
    (check_at_rest counter (nbworkers E) ((\<sigma>, pcs), gone) \<and> check_rounds * nbworkers E < 2 ^ 64 \<and>
      (\<forall>i < nbworkers E. work E i (nbrepeats E + 1) = check_end pcs gone i) \<and>
      uid \<in> gone \<and> pcs uid \<noteq> FinalCheck \<and> (\<exists>i < nbworkers E. i \<notin> gone) \<longrightarrow>
      (\<forall>error ts. ls (nbworkers E) = Master (Measured error ts) \<longrightarrow> length ts \<le> nbrepeats E))"
proof -
  note ends = measured_work_ends [OF assms]
  have "length ts \<le> nbrepeats E"
    if "check_at_rest counter (nbworkers E) ((\<sigma>, pcs), gone)" "check_rounds * nbworkers E < 2 ^ 64"
      "\<forall>i < nbworkers E. work E i (nbrepeats E + 1) = check_end pcs gone i"
      "uid \<in> gone" "pcs uid \<noteq> FinalCheck" "i < nbworkers E" "i \<notin> gone"
      "ls (nbworkers E) = Master (Measured error ts)" for i error ts
  proof (rule ccontr)
    assume "\<not> length ts \<le> nbrepeats E"
    then have "work E i (nbrepeats E + 1) \<noteq> Hangs" by (intro ends [OF that(8) _ _ that(6)]) (simp_all add: rounds_def)
    moreover have "\<forall>err. pcs i \<noteq> Return err"
      using nobody_returns [of counter "nbworkers E" \<sigma> pcs gone uid i] that by (simp add: check_at_rest_def)
    then have "check_end pcs gone i = Hangs" by (rule check_end_hangs [OF that(7)])
    ultimately show False using that(3,6) by simp
  qed
  then show ?thesis using only_work_waits [OF assms] ends by blast
qed

theorem measure_waits_for_work_witness:
  "\<exists>ls s. run_threads (measure_step hanging_measure) 3 (measure_start hanging_measure 0) (ls, s) \<and>
    work hanging_measure 0 1 = Throws \<and> ls 1 = Worker (Busy 1) \<and> work hanging_measure 1 1 = Hangs \<and>
    check_at_rest 4096 2 ((({4096}, \<lambda>_. 0), waiting_pcs), {0}) \<and>
    work hanging_measure 0 1 = check_end waiting_pcs {0} 0 \<and> work hanging_measure 1 1 = check_end waiting_pcs {0} 1 \<and>
    (\<exists>i \<le> 2. fst (measure_step hanging_measure i (fst (measure_start hanging_measure 0) i) (new_sync 0))
      \<noteq> fst (measure_start hanging_measure 0) i)"
proof -
  let ?E = hanging_measure
  have n: "nbworkers ?E = 2" "0 < nbworkers ?E" "nbworkers ?E < 2 ^ 32" "nbrepeats ?E = 0"
    by (simp_all add: hanging_measure_def)
  have w: "work ?E 0 1 = Throws" "work ?E 1 1 = Hangs" "check_end waiting_pcs {0} 0 = Throws" "check_end waiting_pcs {0} 1 = Hangs"
    by (simp_all add: hanging_measure_def check_end_def waiting_pcs_def after_barrier_def)
  let ?c = "run_schedule (measure_step ?E) hanging_schedule (measure_start ?E 0)"
  have r: "run_threads (measure_step ?E) (Suc (nbworkers ?E)) (measure_start ?E 0) (fst ?c, snd ?c)"
    using run_schedule [of hanging_schedule "Suc (nbworkers ?E)"] by (simp add: n hanging_schedule_def)
  have start: "run_threads (measure_step ?E) (Suc (nbworkers ?E)) (measure_start ?E 0) (fst (measure_start ?E 0), new_sync 0)"
    using threads_start [of "measure_step ?E" "Suc (nbworkers ?E)" "measure_start ?E 0"] by (simp add: measure_start_def)
  have "(\<exists>i \<le> nbworkers ?E. fst (measure_step ?E i (fst (measure_start ?E 0) i) (new_sync 0)) \<noteq> fst (measure_start ?E 0) i) \<or>
      (\<exists>i < nbworkers ?E. \<exists>r < rounds ?E. fst (measure_start ?E 0) i = Worker (Busy r) \<and> work ?E i r = Hangs)"
    using measure_waits_for_work [OF n(2,3) start, THEN conjunct1] by (auto simp: measure_start_def)
  then have "\<exists>i \<le> 2. fst (measure_step ?E i (fst (measure_start ?E 0) i) (new_sync 0)) \<noteq> fst (measure_start ?E 0) i"
    by (auto simp: measure_start_def n)
  then show ?thesis using r w waiting_at_rest hanging_end
    by (intro exI [of _ "fst ?c"] exI [of _ "snd ?c"]) (simp add: n eval_nat_numeral)
qed

end
