(* ===== verification/Grading.thy ===== *)
theory Grading
  imports Measure
begin

text \<open>
  The function \<open>main\<close> of \<open>grading/grading.cpp\<close>: its parameters, the loop over the libraries with the
  time limits taken from the first one, and the exit code. What becomes of a library is a function
  of the library and the limits; \<open>measure\<close> is the one of \<open>Sync\<close>.
\<close>

section \<open>Parameters\<close>

record run_parameters =
  nb_workers :: nat
  nb_tx_per_worker :: nat
  nb_accounts :: nat
  exp_nb_accounts :: nat
  initial_balance :: nat
  nb_repeats :: nat

text \<open>\<open>hardware_concurrency\<close> may be unknown. The two probabilities are those of the dice.\<close>

definition run_parameters :: "nat \<Rightarrow> run_parameters" where
  "run_parameters concurrency =
     (let nbworkers = (let res = concurrency in if res = 0 then 16 else res)
      in \<lparr>nb_workers = nbworkers, nb_tx_per_worker = 200000 div nbworkers, nb_accounts = 32 * nbworkers,
          exp_nb_accounts = 256 * nbworkers, initial_balance = 100, nb_repeats = 7\<rparr>)"

text \<open>The money of the bank fits a \<open>Balance\<close> whatever the workers do.\<close>

lemma run_parameters_money:
  assumes "concurrency < 2 ^ 32"
  shows "0 < nb_workers (run_parameters concurrency)"
    and "initial_balance (run_parameters concurrency) * (nb_accounts (run_parameters concurrency) +
      nb_workers (run_parameters concurrency) * nb_repeats (run_parameters concurrency) *
        nb_tx_per_worker (run_parameters concurrency)) < 2 ^ 63"
proof -
  let ?n = "if concurrency = 0 then 16 else concurrency"
  show "0 < nb_workers (run_parameters concurrency)" by (simp add: run_parameters_def)
  have n: "?n < 2 ^ 32" using assms by simp
  have "?n * (200000 div ?n) \<le> 200000" by (rule times_div_less_eq_dividend)
  then have "32 * ?n + 7 * (?n * (200000 div ?n)) \<le> 32 * 2 ^ 32 + 1400000" using n by linarith
  then show "initial_balance (run_parameters concurrency) * (nb_accounts (run_parameters concurrency) +
      nb_workers (run_parameters concurrency) * nb_repeats (run_parameters concurrency) *
        nb_tx_per_worker (run_parameters concurrency)) < 2 ^ 63"
    by (simp add: run_parameters_def Let_def mult_ac)
qed

text \<open>The limit for the other libraries: \<open>slow_factor\<close> times the time of the reference.\<close>

definition slow_limit :: "tick \<Rightarrow> tick" where
  "slow_limit ticks = (let m = 16 * ticks in if m = invalid_tick then m + 1 else m)"

lemma slow_limit_valid: "slow_limit ticks \<noteq> invalid_tick"
  by (simp add: slow_limit_def Let_def)

section \<open>The loop\<close>

text \<open>
  A library can fail to load or to build its memory, outside the inner \<open>try\<close>; \<open>measure\<close> can throw; or
  it returns its tuple.
\<close>

datatype evaluated = Unusable | Measure_throws | Judged "string option" tick tick tick

text \<open>
  The exit code, and for each library that passed the execution time with, after the first, the
  time it is compared to.
\<close>

fun grade_loop ::
  "('lib \<Rightarrow> tick \<Rightarrow> tick \<Rightarrow> tick \<Rightarrow> evaluated) \<Rightarrow> 'lib list \<Rightarrow> tick \<Rightarrow> tick \<Rightarrow> tick \<Rightarrow> tick \<Rightarrow>
   int \<times> (tick \<times> tick option) list" where
  "grade_loop evaluate [] limit_init limit_perf limit_chck reference = (0, [])"
| "grade_loop evaluate (lib # libs) limit_init limit_perf limit_chck reference =
     (case evaluate lib limit_init limit_perf limit_chck of
        Unusable \<Rightarrow> (1, [])
      | Measure_throws \<Rightarrow> (2, [])
      | Judged error tick_init tick_perf tick_chck \<Rightarrow>
          if error \<noteq> None then (1, [])
          else if limit_init = invalid_tick
          then let (code, rest) = grade_loop evaluate libs
                     (slow_limit tick_init) (slow_limit tick_perf) (slow_limit tick_chck) tick_perf
               in (code, (tick_perf, None) # rest)
          else let (code, rest) = grade_loop evaluate libs limit_init limit_perf limit_chck reference
               in (code, (tick_perf, Some reference) # rest))"

text \<open>\<open>stoul\<close> throws on what is no number.\<close>

definition grading_main ::
  "(string \<Rightarrow> nat option) \<Rightarrow> (nat \<Rightarrow> string \<Rightarrow> tick \<Rightarrow> tick \<Rightarrow> tick \<Rightarrow> evaluated) \<Rightarrow> string list \<Rightarrow>
   int \<times> (tick \<times> tick option) list" where
  "grading_main stoul evaluate argv =
     (if length argv < 3 then (1, [])
      else case stoul (argv ! 1) of
             None \<Rightarrow> (1, [])
           | Some seed \<Rightarrow> grade_loop (evaluate seed) (drop 2 argv) invalid_tick invalid_tick invalid_tick 0)"

definition passes :: "evaluated \<Rightarrow> bool" where
  "passes r \<longleftrightarrow> (\<exists>ti tp tc. r = Judged None ti tp tc)"

text \<open>Under limits of its own the loop keeps them.\<close>

lemma grade_loop_limits:
  assumes "limit_init \<noteq> invalid_tick"
  shows "fst (grade_loop ev libs limit_init lp lc ref) = 0 \<longleftrightarrow> (\<forall>lib \<in> set libs. passes (ev lib limit_init lp lc))"
    and "\<forall>e \<in> set (snd (grade_loop ev libs limit_init lp lc ref)). snd e = Some ref"
proof -
  show "fst (grade_loop ev libs limit_init lp lc ref) = 0 \<longleftrightarrow> (\<forall>lib \<in> set libs. passes (ev lib limit_init lp lc))"
    using assms
    by (induction libs) (auto simp: passes_def case_prod_unfold Let_def split: evaluated.splits)
  show "\<forall>e \<in> set (snd (grade_loop ev libs limit_init lp lc ref)). snd e = Some ref"
    using assms
    by (induction libs) (auto simp: case_prod_unfold Let_def split: evaluated.splits)
qed

lemma grade_loop_all_pass:
  assumes "fst (grade_loop ev libs invalid_tick lp lc ref) = 0" "lib \<in> set libs"
  shows "\<exists>li lp lc. passes (ev lib li lp lc)"
proof -
  obtain first rest where libs: "libs = first # rest" using assms(2) by (cases libs) auto
  obtain ti tp tc where f: "ev first invalid_tick lp lc = Judged None ti tp tc"
    using assms(1) unfolding libs by (simp add: case_prod_unfold Let_def split: evaluated.splits if_splits)
  then have "fst (grade_loop ev rest (slow_limit ti) (slow_limit tp) (slow_limit tc) tp) = 0"
    using assms(1) unfolding libs by (simp add: case_prod_unfold Let_def)
  then have "\<forall>lib \<in> set rest. passes (ev lib (slow_limit ti) (slow_limit tp) (slow_limit tc))"
    unfolding grade_loop_limits(1) [OF slow_limit_valid] .
  moreover have "passes (ev first invalid_tick lp lc)" using f by (auto simp: passes_def)
  ultimately show ?thesis using assms(2) libs by auto
qed

section \<open>A library under the grader\<close>

text \<open>What \<open>measure\<close> is given, with the time limits of the loop.\<close>

definition with_limits :: "environment_of_measure \<Rightarrow> tick \<Rightarrow> tick \<Rightarrow> tick \<Rightarrow> environment_of_measure" where
  "with_limits E li lp lc = E\<lparr>maxtick_init := li, maxtick_perf := lp, maxtick_chck := lc\<rparr>"

lemma with_limits [simp]:
  "nbworkers (with_limits E li lp lc) = nbworkers E" "work (with_limits E li lp lc) = work E"
  "rounds (with_limits E li lp lc) = rounds E"
  by (simp_all add: with_limits_def rounds_def)

text \<open>The tuples \<open>measure\<close> may return.\<close>

definition may_return :: "environment_of_measure \<Rightarrow> string option \<times> tick \<times> tick \<times> tick \<Rightarrow> bool" where
  "may_return E result \<longleftrightarrow>
     (\<exists>garbage ls s error ts. run_threads (measure_step E) (Suc (nbworkers E)) (measure_start E garbage) (ls, s) \<and>
       ls (nbworkers E) = Master (Measured error ts) \<and> result = measure_result E error ts)"

lemma may_return_clean:
  assumes "0 < nbworkers E" "nbworkers E < 2 ^ 32" "may_return E (None, t)"
  shows "\<forall>r < rounds E. \<forall>i < nbworkers E. work E i r = Quiet"
proof -
  obtain garbage ls s error ts where
    r: "run_threads (measure_step E) (Suc (nbworkers E)) (measure_start E garbage) (ls, s)"
    and m: "ls (nbworkers E) = Master (Measured error ts)" "(None, t) = measure_result E error ts"
    using assms(3) by (auto simp: may_return_def)
  have "error = None" using m(2) by (simp add: measure_result_def Let_def)
  obtain w m' R where w: "\<forall>i < nbworkers E. ls i = Worker (w i)" "ls (nbworkers E) = Master m'"
    and ph: "idle E R w m' s \<or> gather E R w m' s \<or> full E R w m' s \<or> running E R w m' s \<or> closing E R w m' s \<or>
       raised E R w m' s \<or> quitting E R w m' s"
    using measure_reach [OF assms(1,2) r] by metis
  have "m' = Measured None ts" using w(2) m(1) \<open>error = None\<close> by simp
  then have "quitting E R w m' s"
    using ph by (auto simp: idle_def gather_def full_def running_def closing_def raised_def awaits_def)
  then have "R = rounds E" "clean E R" using \<open>m' = Measured None ts\<close> by (auto simp: quitting_def verdict_def)
  then show ?thesis using clean_quiet [of E R] by simp
qed

section \<open>Properties\<close>

text \<open>The exit code of the grader. It is 0 exactly when there are a seed and a library, the first
  library passes without a time limit, and every other one passes within sixteen times the times
  of the first; then each of the others is compared with the first.\<close>

theorem grading_exit_code:
  assumes "3 \<le> length argv" "stoul (argv ! 1) = Some seed"
    and "evaluate seed (argv ! 2) invalid_tick invalid_tick invalid_tick = Judged None ti tp tc"
  shows "(fst (grading_main stoul evaluate argv) = 0 \<longleftrightarrow>
      (\<forall>lib \<in> set (drop 3 argv). passes (evaluate seed lib (slow_limit ti) (slow_limit tp) (slow_limit tc)))) \<and>
    (\<exists>rest. snd (grading_main stoul evaluate argv) = (tp, None) # rest \<and> (\<forall>e \<in> set rest. snd e = Some tp))"
proof -
  have d: "drop 2 argv = argv ! 2 # drop 3 argv"
    using assms(1) by (metis Cons_nth_drop_Suc Suc_1 Suc_le_lessD eval_nat_numeral(3))
  show ?thesis
    using assms(1,2,3)
      grade_loop_limits [OF slow_limit_valid, of "evaluate seed" "drop 3 argv" ti "slow_limit tp" "slow_limit tc" tp]
    by (simp add: grading_main_def d case_prod_unfold Let_def)
qed

theorem grading_exit_code_witness:
  "fst (grading_main (\<lambda>_. Some 7) (\<lambda>seed lib li lp lc. if lp = invalid_tick \<or> lp = 1600 then Judged None 10 100 20 else Measure_throws)
     [''grading'', ''7'', ''reference.so'', ''mine.so'']) = 0"
  using grading_exit_code [of "[''grading'', ''7'', ''reference.so'', ''mine.so'']" "\<lambda>_. Some 7" 7
    "\<lambda>seed lib li lp lc. if lp = invalid_tick \<or> lp = 1600 then Judged None 10 100 20 else Measure_throws" 10 100 20]
  by (simp add: passes_def slow_limit_def invalid_tick_def)

text \<open>C40: what exit code 0 says. If every tuple the grader judges is one that \<open>measure\<close> may return with
  the library's workers under the limits given, exit code 0 means that for every library on the
  command line no worker reported an error, or threw, in any round.\<close>

theorem exit_zero_is_clean:
  assumes "\<And>lib li lp lc e ti tp tc. evaluate seed lib li lp lc = Judged e ti tp tc \<Longrightarrow>
      may_return (with_limits (E lib) li lp lc) (e, ti, tp, tc)"
    and "\<And>lib. 0 < nbworkers (E lib) \<and> nbworkers (E lib) < 2 ^ 32"
    and "stoul (argv ! 1) = Some seed" "fst (grading_main stoul evaluate argv) = 0"
  shows "\<forall>lib \<in> set (drop 2 argv). \<forall>r < rounds (E lib). \<forall>i < nbworkers (E lib). work (E lib) i r = Quiet"
proof
  fix lib assume lib: "lib \<in> set (drop 2 argv)"
  let ?ev = "evaluate seed"
  have "fst (grade_loop ?ev (drop 2 argv) invalid_tick invalid_tick invalid_tick 0) = 0"
    using assms(3,4) by (simp add: grading_main_def split: if_splits)
  from grade_loop_all_pass [OF this lib] obtain li lp lc where "passes (?ev lib li lp lc)" by blast
  then obtain ti tp tc where "?ev lib li lp lc = Judged None ti tp tc" by (auto simp: passes_def)
  from may_return_clean [OF _ _ assms(1) [OF this]] assms(2)
  show "\<forall>r < rounds (E lib). \<forall>i < nbworkers (E lib). work (E lib) i r = Quiet" by simp
qed

theorem exit_zero_is_clean_witness:
  "\<exists>evaluate. fst (grading_main (\<lambda>_. Some 7) evaluate [''grading'', ''7'', ''mine.so'']) = 0 \<and>
    (\<forall>r < 9. work demo_measure 0 r = Quiet)"
proof -
  have "\<exists>t1 t2 t3. may_return (with_limits demo_measure li lp lc) (None, t1, t2, t3)" for li lp lc
  proof -
    obtain ls s ts where "run_threads (measure_step (with_limits demo_measure li lp lc)) 2
        (measure_start (with_limits demo_measure li lp lc) 0) (ls, s)" "ls 1 = Master (Measured None ts)"
      using lone_measured [of "with_limits demo_measure li lp lc" 0] by auto
    then show ?thesis
      by (intro exI) (unfold may_return_def measure_result_def Let_def,
        intro exI [of _ 0] exI [of _ ls] exI [of _ s] exI [of _ None] exI [of _ ts], simp add: eval_nat_numeral)
  qed
  then obtain t1 t2 t3 where t: "may_return (with_limits demo_measure li lp lc) (None, t1 li lp lc, t2 li lp lc, t3 li lp lc)"
    for li lp lc by metis
  let ?ev = "\<lambda>seed lib li lp lc. Judged None (t1 li lp lc) (t2 li lp lc) (t3 li lp lc)"
  have z: "fst (grading_main (\<lambda>_. Some 7) ?ev [''grading'', ''7'', ''mine.so'']) = 0"
    by (simp add: grading_main_def)
  have "\<forall>lib \<in> set (drop 2 [''grading'', ''7'', ''mine.so'']). \<forall>r < rounds demo_measure.
      \<forall>i < nbworkers demo_measure. work demo_measure i r = Quiet"
    by (rule exit_zero_is_clean [where evaluate = ?ev and E = "\<lambda>_. demo_measure" and seed = 7 and stoul = "\<lambda>_. Some 7"])
      (use t z in auto)
  with z show ?thesis by fastforce
qed

end
