(* ===== verification/Reference.thy ===== *)
theory Reference
  imports Client_Theorems
begin

text \<open>
  The reference library of \<open>reference/tm.c\<close>: one readers-writer lock per region, transactions that
  work in place, and the segments they allocate in a doubly linked list whose nodes are the
  headers of the blocks. Headers and \<open>struct region\<close> are typed objects at their addresses, the
  rest of memory is bytes. Every call of the allocator is numbered; \<open>pick k n\<close> is the pointer that
  call number \<open>k\<close> would return for \<open>n\<close> bytes, an unsuitable pointer being a failure. A private
  buffer is the value it holds.
\<close>

section \<open>The lock\<close>

datatype rwlock = Unlocked | SharedBy nat | Exclusive

text \<open>
  \<open>shared-lock.c\<close> wraps \<open>pthread_rwlock_t\<close>. \<open>err\<close> is the error number of the call, \<open>None\<close> a caller
  that has to wait. Unlocking a lock that nobody holds is undefined.
\<close>

definition shared_lock_init :: "int \<Rightarrow> rwlock \<Rightarrow> bool \<times> rwlock" where
  "shared_lock_init err lock = (if err = 0 then (True, Unlocked) else (False, lock))"

definition shared_lock_acquire :: "int \<Rightarrow> rwlock \<Rightarrow> (bool \<times> rwlock) option" where
  "shared_lock_acquire err lock =
     (if err \<noteq> 0 then Some (False, lock)
      else if lock = Unlocked then Some (True, Exclusive) else None)"

definition shared_lock_acquire_shared :: "int \<Rightarrow> rwlock \<Rightarrow> (bool \<times> rwlock) option" where
  "shared_lock_acquire_shared err lock =
     (if err \<noteq> 0 then Some (False, lock)
      else case lock of
             Unlocked \<Rightarrow> Some (True, SharedBy 1)
           | SharedBy n \<Rightarrow> Some (True, SharedBy (n + 1))
           | Exclusive \<Rightarrow> None)"

definition rwlock_unlock :: "rwlock \<Rightarrow> rwlock option" where
  "rwlock_unlock lock =
     (case lock of
        Unlocked \<Rightarrow> None
      | SharedBy n \<Rightarrow> Some (if n \<le> 1 then Unlocked else SharedBy (n - 1))
      | Exclusive \<Rightarrow> Some Unlocked)"

definition shared_lock_release :: "rwlock \<Rightarrow> rwlock option" where
  "shared_lock_release lock = rwlock_unlock lock"

definition shared_lock_release_shared :: "rwlock \<Rightarrow> rwlock option" where
  "shared_lock_release_shared lock = rwlock_unlock lock"

text \<open>Destroying a lock that is held is undefined.\<close>

definition shared_lock_cleanup :: "rwlock \<Rightarrow> bool" where
  "shared_lock_cleanup lock \<longleftrightarrow> lock = Unlocked"

section \<open>Objects\<close>

record segment_node =
  node_prev :: addr
  node_next :: addr

record ref_region =
  rlock :: rwlock
  rstart :: addr
  allocs :: addr
  rsize :: nat
  ralign :: nat

record ref_heap =
  rmem :: memory
  rblocks :: "addr \<rightharpoonup> nat"
  rnodes :: "addr \<rightharpoonup> segment_node"
  rregions :: "addr \<rightharpoonup> ref_region"
  rcalls :: nat

definition put_ref :: "addr \<Rightarrow> ref_region \<Rightarrow> ref_heap \<Rightarrow> ref_heap" where
  "put_ref sh r h = h\<lparr>rregions := (rregions h)(sh \<mapsto> r)\<rparr>"

definition drop_ref :: "addr \<Rightarrow> ref_heap \<Rightarrow> ref_heap" where
  "drop_ref sh h = h\<lparr>rregions := (rregions h)(sh := None)\<rparr>"

definition get_ref :: "addr \<Rightarrow> ref_heap \<Rightarrow> fault + ref_region" where
  "get_ref sh h = (case rregions h sh of None \<Rightarrow> Inl (BadHandle sh) | Some r \<Rightarrow> Inr r)"

definition get_node :: "addr \<Rightarrow> ref_heap \<Rightarrow> fault + segment_node" where
  "get_node p h = (case rnodes h p of None \<Rightarrow> Inl (BadHandle p) | Some n \<Rightarrow> Inr n)"

definition put_node :: "addr \<Rightarrow> segment_node \<Rightarrow> ref_heap \<Rightarrow> ref_heap" where
  "put_node p n h = h\<lparr>rnodes := (rnodes h)(p \<mapsto> n)\<rparr>"

text \<open>\<open>posix_memalign\<close> and \<open>free\<close>.\<close>

definition fits :: "ref_heap \<Rightarrow> nat \<Rightarrow> nat \<Rightarrow> addr \<Rightarrow> bool" where
  "fits h al n p \<longleftrightarrow> p \<noteq> 0 \<and> word_aligned al p \<and> unat p + n < 2 ^ 64 \<and> p \<notin> dom (rblocks h) \<and>
     (\<forall>q k. rblocks h q = Some k \<longrightarrow> \<not> overlaps p n q k)"

definition posix_memalign ::
  "(nat \<Rightarrow> nat \<Rightarrow> addr) \<Rightarrow> nat \<Rightarrow> nat \<Rightarrow> ref_heap \<Rightarrow> addr option \<times> ref_heap" where
  "posix_memalign pick al n h =
     (let p = pick (rcalls h) n; h1 = h\<lparr>rcalls := rcalls h + 1\<rparr>
      in if fits h al n p then (Some p, h1\<lparr>rblocks := (rblocks h)(p \<mapsto> n)\<rparr>) else (None, h1))"

definition raw_free :: "addr \<Rightarrow> ref_heap \<Rightarrow> fault + ref_heap" where
  "raw_free p h =
     (if rblocks h p = None then Inl (BadFree p)
      else Inr (h\<lparr>rblocks := (rblocks h)(p := None), rnodes := (rnodes h)(p := None)\<rparr>))"

section \<open>The library\<close>

definition read_only_tx :: addr where
  "read_only_tx = NOT 0 - 10"

definition read_write_tx :: addr where
  "read_write_tx = NOT 0 - 11"

text \<open>\<open>p_region\<close> is what \<open>malloc\<close> returns for the region, \<open>err\<close> the error number of the lock.\<close>

definition ref_create ::
  "(nat \<Rightarrow> nat \<Rightarrow> addr) \<Rightarrow> addr \<Rightarrow> int \<Rightarrow> nat \<Rightarrow> nat \<Rightarrow> ref_heap \<Rightarrow> fault + (addr \<times> ref_heap)" where
  "ref_create pick p_region err sz al h =
     (if p_region = 0 \<or> rregions h p_region \<noteq> None then Inr (invalid_shared, h)
      else
        let h1 = put_ref p_region \<lparr>rlock = Unlocked, rstart = 0, allocs = 0, rsize = 0, ralign = 0\<rparr> h
        in case posix_memalign pick al sz h1 of
             (None, h2) \<Rightarrow> Inr (invalid_shared, drop_ref p_region h2)
           | (Some st, h2) \<Rightarrow>
               (let (ok, lock) = shared_lock_init err Unlocked
                in if \<not> ok
                   then and_then (raw_free st h2) (\<lambda>h3. Inr (invalid_shared, drop_ref p_region h3))
                   else Inr (p_region, put_ref p_region
                     \<lparr>rlock = lock, rstart = st, allocs = 0, rsize = sz, ralign = al\<rparr>
                     (h2\<lparr>rmem := memset (rmem h2) st 0 sz\<rparr>))))"

text \<open>The loop of \<open>tm_destroy\<close>; \<open>None\<close> is a loop that never ends.\<close>

partial_function (option) free_segments :: "addr \<Rightarrow> ref_heap \<Rightarrow> (fault + ref_heap) option" where
  "free_segments sh h =
     (case get_ref sh h of
        Inl e \<Rightarrow> Some (Inl e)
      | Inr r \<Rightarrow>
          (if allocs r \<noteq> 0
           then (case get_node (allocs r) h of
                   Inl e \<Rightarrow> Some (Inl e)
                 | Inr sn \<Rightarrow>
                     (let tail = node_next sn
                      in case raw_free (allocs r) h of
                           Inl e \<Rightarrow> Some (Inl e)
                         | Inr h1 \<Rightarrow> free_segments sh (put_ref sh (r\<lparr>allocs := tail\<rparr>) h1)))
           else Some (Inr h)))"

definition ref_destroy :: "addr \<Rightarrow> ref_heap \<Rightarrow> (fault + ref_heap) option" where
  "ref_destroy sh h =
     (case free_segments sh h of
        None \<Rightarrow> None
      | Some q \<Rightarrow> Some
          (and_then q (\<lambda>h1. and_then (get_ref sh h1) (\<lambda>r. and_then (raw_free (rstart r) h1) (\<lambda>h2.
             if \<not> shared_lock_cleanup (rlock r) then Inl (BadHandle sh) else Inr (drop_ref sh h2))))))"

definition ref_start :: "addr \<Rightarrow> ref_heap \<Rightarrow> fault + addr" where
  "ref_start sh h = and_then (get_ref sh h) (\<lambda>r. Inr (rstart r))"

definition ref_size :: "addr \<Rightarrow> ref_heap \<Rightarrow> fault + nat" where
  "ref_size sh h = and_then (get_ref sh h) (\<lambda>r. Inr (rsize r))"

definition ref_align :: "addr \<Rightarrow> ref_heap \<Rightarrow> fault + nat" where
  "ref_align sh h = and_then (get_ref sh h) (\<lambda>r. Inr (ralign r))"

text \<open>\<open>tm_begin\<close>; \<open>Inr None\<close> is a caller that waits for the lock.\<close>

definition ref_begin :: "int \<Rightarrow> addr \<Rightarrow> bool \<Rightarrow> ref_heap \<Rightarrow> fault + (addr \<times> ref_heap) option" where
  "ref_begin err sh ro h = and_then (get_ref sh h) (\<lambda>r. Inr
     (if ro
      then (case shared_lock_acquire_shared err (rlock r) of
              None \<Rightarrow> None
            | Some (ok, lock) \<Rightarrow>
                if \<not> ok then Some (invalid_tx, h)
                else Some (read_only_tx, put_ref sh (r\<lparr>rlock := lock\<rparr>) h))
      else (case shared_lock_acquire err (rlock r) of
              None \<Rightarrow> None
            | Some (ok, lock) \<Rightarrow>
                if \<not> ok then Some (invalid_tx, h)
                else Some (read_write_tx, put_ref sh (r\<lparr>rlock := lock\<rparr>) h))))"

definition ref_end :: "addr \<Rightarrow> addr \<Rightarrow> ref_heap \<Rightarrow> fault + (bool \<times> ref_heap)" where
  "ref_end sh tx h = and_then (get_ref sh h) (\<lambda>r.
     case (if tx = read_only_tx then shared_lock_release_shared (rlock r)
           else shared_lock_release (rlock r)) of
       None \<Rightarrow> Inl (BadHandle sh)
     | Some lock \<Rightarrow> Inr (True, put_ref sh (r\<lparr>rlock := lock\<rparr>) h))"

definition ref_read :: "addr \<Rightarrow> nat \<Rightarrow> ref_heap \<Rightarrow> bool \<times> bytes \<times> ref_heap" where
  "ref_read source sz h = (True, load_bytes (rmem h) source sz, h)"

definition ref_write :: "bytes \<Rightarrow> nat \<Rightarrow> addr \<Rightarrow> ref_heap \<Rightarrow> bool \<times> ref_heap" where
  "ref_write source sz target h = (True, h\<lparr>rmem := store_bytes (rmem h) target (take sz source)\<rparr>)"

text \<open>\<open>sizeof(struct segment_node)\<close>.\<close>

definition node_size :: nat where
  "node_size = 16"

definition node_align :: "nat \<Rightarrow> nat" where
  "node_align al = (if al < 8 then 8 else al)"

definition set_prev :: "addr \<Rightarrow> addr \<Rightarrow> ref_heap \<Rightarrow> fault + ref_heap" where
  "set_prev p q h = and_then (get_node p h) (\<lambda>n. Inr (put_node p (n\<lparr>node_prev := q\<rparr>) h))"

definition set_next :: "addr \<Rightarrow> addr \<Rightarrow> ref_heap \<Rightarrow> fault + ref_heap" where
  "set_next p q h = and_then (get_node p h) (\<lambda>n. Inr (put_node p (n\<lparr>node_next := q\<rparr>) h))"

definition ref_alloc ::
  "(nat \<Rightarrow> nat \<Rightarrow> addr) \<Rightarrow> addr \<Rightarrow> nat \<Rightarrow> ref_heap \<Rightarrow> fault + (Alloc \<times> addr \<times> ref_heap)" where
  "ref_alloc pick sh sz h = and_then (get_ref sh h) (\<lambda>r.
     let al = node_align (ralign r)
     in case posix_memalign pick al (node_size + sz) h of
          (None, h1) \<Rightarrow> Inr (nomem, 0, h1)
        | (Some sn, h1) \<Rightarrow>
            let h2 = put_node sn \<lparr>node_prev = 0, node_next = allocs r\<rparr> h1
            in and_then (if allocs r \<noteq> 0 then set_prev (allocs r) sn h2 else Inr h2) (\<lambda>h3.
                 let h4 = put_ref sh (r\<lparr>allocs := sn\<rparr>) h3;
                     segment = sn + of_nat node_size
                 in Inr (success, segment, h4\<lparr>rmem := memset (rmem h4) segment 0 sz\<rparr>)))"

definition ref_free :: "addr \<Rightarrow> addr \<Rightarrow> ref_heap \<Rightarrow> fault + (bool \<times> ref_heap)" where
  "ref_free sh segment h =
     (let sn = segment - of_nat node_size
      in and_then (get_node sn h) (\<lambda>n.
         and_then (if node_prev n \<noteq> 0 then set_next (node_prev n) (node_next n) h
                   else and_then (get_ref sh h) (\<lambda>r. Inr (put_ref sh (r\<lparr>allocs := node_next n\<rparr>) h))) (\<lambda>h1.
         and_then (if node_next n \<noteq> 0 then set_prev (node_next n) (node_prev n) h1 else Inr h1) (\<lambda>h2.
         and_then (raw_free sn h2) (\<lambda>h3. Inr (True, h3))))))"

end
