(* ===== verification/Reference_Lists.thy ===== *)
theory Reference_Lists
  imports Reference
begin

text \<open>
  The segment list of the reference library: what a doubly linked list of headers is, how
  \<open>tm_alloc\<close> and \<open>tm_free\<close> change it, and that any sequence of calls keeps every header of a live
  block in it exactly once, so that \<open>tm_destroy\<close> frees all of them.
\<close>

section \<open>Doubly linked lists\<close>

text \<open>\<open>chain N pr xs nx\<close>: the nodes \<open>xs\<close> are linked both ways, between \<open>pr\<close> and \<open>nx\<close>.\<close>

fun chain :: "(addr \<rightharpoonup> segment_node) \<Rightarrow> addr \<Rightarrow> addr list \<Rightarrow> addr \<Rightarrow> bool" where
  "chain N pr [] nx \<longleftrightarrow> True"
| "chain N pr (x # xs) nx \<longleftrightarrow>
     N x = Some \<lparr>node_prev = pr, node_next = hd (xs @ [nx])\<rparr> \<and> chain N x xs nx"

lemma chain_append:
  "chain N pr (xs @ ys) nx \<longleftrightarrow> chain N pr xs (hd (ys @ [nx])) \<and> chain N (last (pr # xs)) ys nx"
  by (induction xs arbitrary: pr) (auto simp: hd_append)

lemma chain_cong:
  "(\<And>x. x \<in> set xs \<Longrightarrow> N x = N' x) \<Longrightarrow> chain N pr xs nx \<longleftrightarrow> chain N' pr xs nx"
  by (induction xs arbitrary: pr) auto

lemma chain_dom: "chain N pr xs nx \<Longrightarrow> x \<in> set xs \<Longrightarrow> N x \<noteq> None"
  by (induction xs arbitrary: pr) auto

lemma chain_upd_other [simp]: "x \<notin> set xs \<Longrightarrow> chain (N(x := v)) pr xs nx \<longleftrightarrow> chain N pr xs nx"
  by (rule chain_cong) auto

text \<open>Relinking the first node to another predecessor, the last one to another successor.\<close>

lemma chain_new_prev:
  "chain N pr (x # xs) nx \<Longrightarrow> x \<notin> set xs \<Longrightarrow>
    chain (N(x \<mapsto> (the (N x))\<lparr>node_prev := pr'\<rparr>)) pr' (x # xs) nx"
  by simp

lemma chain_new_next:
  "chain N pr (xs @ [x]) nx \<Longrightarrow> x \<notin> set xs \<Longrightarrow>
    chain (N(x \<mapsto> (the (N x))\<lparr>node_next := nx'\<rparr>)) pr (xs @ [x]) nx'"
  by (simp add: chain_append)

lemma chain_node:
  assumes "chain N pr (ys @ x # zs) nx"
  shows "N x = Some \<lparr>node_prev = last (pr # ys), node_next = hd (zs @ [nx])\<rparr>"
  using assms by (simp add: chain_append)

section \<open>A region and its segments\<close>

definition region_list :: "addr \<Rightarrow> addr list \<Rightarrow> ref_heap \<Rightarrow> bool" where
  "region_list sh xs h \<longleftrightarrow> (\<exists>r. rregions h sh = Some r \<and> allocs r = hd (xs @ [0]) \<and>
     0 \<notin> set xs \<and> distinct xs \<and> chain (rnodes h) 0 xs 0)"

text \<open>
  One region in an otherwise empty heap: the live blocks are the first segment and the nodes of
  the list, they do not overlap, and no other header is left.
\<close>

definition region_inv :: "addr \<Rightarrow> addr list \<Rightarrow> ref_heap \<Rightarrow> bool" where
  "region_inv sh xs h \<longleftrightarrow> region_list sh xs h \<and>
     (\<exists>r. rregions h = [sh \<mapsto> r] \<and> rstart r \<notin> set xs \<and>
        dom (rblocks h) = insert (rstart r) (set xs)) \<and>
     dom (rnodes h) = set xs \<and>
     (\<forall>p n. rblocks h p = Some n \<longrightarrow> unat p + n < 2 ^ 64 \<and> (p \<in> set xs \<longrightarrow> node_size \<le> n)) \<and>
     (\<forall>p n q k. rblocks h p = Some n \<longrightarrow> rblocks h q = Some k \<longrightarrow> p \<noteq> q \<longrightarrow> \<not> overlaps p n q k)"

lemma region_invE:
  assumes "region_inv sh xs h"
  obtains r where "rregions h = [sh \<mapsto> r]" "allocs r = hd (xs @ [0])" "rstart r \<notin> set xs"
    "dom (rblocks h) = insert (rstart r) (set xs)" "0 \<notin> set xs" "distinct xs" "chain (rnodes h) 0 xs 0"
  using assms by (fastforce simp: region_inv_def region_list_def)

lemma apart_blocks_sym: "overlaps p n q k \<longleftrightarrow> overlaps q k p n"
  by (auto simp: overlaps_def)

subsection \<open>tm_alloc\<close>

text \<open>Inserting a header in front of the list.\<close>

lemma alloc_relink:
  assumes "chain N 0 xs 0" "distinct xs" "sn \<notin> set xs" "0 \<notin> set xs"
  shows "chain (let N1 = N(sn \<mapsto> \<lparr>node_prev = 0, node_next = hd (xs @ [0])\<rparr>)
      in case xs of [] \<Rightarrow> N1 | x # _ \<Rightarrow> N1(x \<mapsto> (the (N1 x))\<lparr>node_prev := sn\<rparr>)) 0 (sn # xs) 0"
proof (cases xs)
  case (Cons x ys)
  have "chain N 0 (x # ys) 0" "x \<notin> set ys" "sn \<noteq> x" "sn \<notin> set ys"
    using assms Cons by auto
  then show ?thesis by (auto simp: Cons Let_def)
qed simp

lemma ref_alloc_cases:
  assumes "region_inv sh xs h" "sh \<noteq> 0"
  obtains (nomem) h' where "ref_alloc pick sh sz h = Inr (nomem, 0, h')" "h' = h\<lparr>rcalls := rcalls h + 1\<rparr>"
  | (success) sn h' r where "ref_alloc pick sh sz h = Inr (success, sn + 16, h')"
      "rregions h = [sh \<mapsto> r]" "fits h (node_align (ralign r)) (16 + sz) sn"
      "rregions h' = [sh \<mapsto> r\<lparr>allocs := sn\<rparr>]" "rblocks h' = (rblocks h)(sn \<mapsto> 16 + sz)"
      "rmem h' = memset (rmem h) (sn + 16) 0 sz" "chain (rnodes h') 0 (sn # xs) 0"
      "dom (rnodes h') = insert sn (set xs)"
proof -
  obtain r where r: "rregions h = [sh \<mapsto> r]" "allocs r = hd (xs @ [0])"
    "dom (rblocks h) = insert (rstart r) (set xs)" "0 \<notin> set xs" "distinct xs" "chain (rnodes h) 0 xs 0"
    using region_invE [OF assms(1)] by metis
  let ?al = "node_align (ralign r)" and ?sn = "pick (rcalls h) (16 + sz)"
  have dn: "dom (rnodes h) = set xs" using assms(1) by (simp add: region_inv_def)
  show ?thesis
  proof (cases "fits h ?al (16 + sz) ?sn")
    case False
    then show ?thesis
      using r(1) by (intro nomem)
        (auto simp: ref_alloc_def get_ref_def posix_memalign_def node_size_def Let_def)
  next
    case True
    then have sn: "?sn \<notin> set xs" using r(3) by (auto simp: fits_def)
    let ?N = "let N1 = (rnodes h)(?sn \<mapsto> \<lparr>node_prev = 0, node_next = hd (xs @ [0])\<rparr>)
      in case xs of [] \<Rightarrow> N1 | x # _ \<Rightarrow> N1(x \<mapsto> (the (N1 x))\<lparr>node_prev := ?sn\<rparr>)"
    let ?h = "h\<lparr>rcalls := rcalls h + 1, rblocks := (rblocks h)(?sn \<mapsto> 16 + sz), rnodes := ?N,
      rregions := [sh \<mapsto> r\<lparr>allocs := ?sn\<rparr>], rmem := memset (rmem h) (?sn + 16) 0 sz\<rparr>"
    have run: "ref_alloc pick sh sz h = Inr (success, ?sn + 16, ?h)"
    proof (cases xs)
      case Nil
      then show ?thesis using True r(1,2)
        by (simp add: ref_alloc_def get_ref_def posix_memalign_def node_size_def Let_def put_node_def put_ref_def)
    next
      case (Cons x ys)
      then have x: "x \<noteq> 0" "x \<noteq> ?sn" "rnodes h x = Some \<lparr>node_prev = 0, node_next = hd (ys @ [0])\<rparr>"
        using r(4,6) sn by auto
      then show ?thesis using True r(1,2) Cons
        by (simp add: ref_alloc_def get_ref_def posix_memalign_def node_size_def Let_def put_node_def
            put_ref_def set_prev_def get_node_def)
    qed
    have "chain ?N 0 (?sn # xs) 0" by (rule alloc_relink [OF r(6,5) sn r(4)])
    then have c: "chain (rnodes ?h) 0 (?sn # xs) 0" by (simp del: chain.simps)
    have "dom ?N = insert ?sn (set xs)" using dn by (cases xs) (auto simp: Let_def)
    then have d: "dom (rnodes ?h) = insert ?sn (set xs)" by simp
    show ?thesis by (rule success [OF run r(1) True _ _ _ c d]) simp_all
  qed
qed

lemma alloc_inv:
  assumes "region_inv sh xs h" "ref_alloc pick sh sz h = Inr (success, seg, h')" "sh \<noteq> 0"
  shows "region_inv sh ((seg - 16) # xs) h'"
  using assms(1,3)
proof (cases rule: ref_alloc_cases [of sh xs h pick sz])
  case (success sn h1 r)
  then have eq: "seg = sn + 16" "h' = h1" using assms(2) by simp_all
  obtain r' where r': "rregions h = [sh \<mapsto> r']" "dom (rblocks h) = insert (rstart r') (set xs)"
    "0 \<notin> set xs" "distinct xs" "rstart r' \<notin> set xs"
    using region_invE [OF assms(1)] by metis
  have rr: "r' = r" using r'(1) success(2) by (metis map_upd_Some_unfold option.inject)
  have f: "sn \<noteq> 0" "sn \<notin> dom (rblocks h)" "unat sn + (16 + sz) < 2 ^ 64"
    "\<And>q k. rblocks h q = Some k \<Longrightarrow> \<not> overlaps sn (16 + sz) q k"
    using success(3) by (auto simp: fits_def)
  have "region_list sh (sn # xs) h1"
    using success(4,7) r' f(1,2) by (auto simp: region_list_def)
  moreover have "rstart r \<noteq> sn" "sn \<notin> set xs" using f(2) r'(2) rr by auto
  moreover have "\<not> overlaps q k sn (16 + sz)" if "rblocks h q = Some k" for q k
    using f(4) [OF that] apart_blocks_sym by blast
  ultimately show ?thesis
    using assms(1) success(4-6,8) f r' rr
    by (auto simp: region_inv_def eq node_size_def)
qed (use assms(2) in auto)

subsection \<open>tm_free\<close>

lemma relink_next:
  assumes "chain N 0 (ys @ x # zs) 0" "distinct (ys @ x # zs)" "ys \<noteq> []"
  defines "y \<equiv> last ys"
  shows "\<exists>n. N y = Some n \<and> chain (N(y \<mapsto> n\<lparr>node_next := hd (zs @ [0])\<rparr>)) 0 ys (hd (zs @ [0])) \<and>
    chain (N(y \<mapsto> n\<lparr>node_next := hd (zs @ [0])\<rparr>)) x zs 0"
proof -
  obtain ys' where ys: "ys = ys' @ [y]" unfolding y_def using assms(3) by (metis append_butlast_last_id)
  have c: "chain N 0 (ys' @ [y]) x" "chain N x zs 0" using assms(1) by (simp_all add: ys chain_append)
  have y: "y \<notin> set ys'" "y \<notin> set zs" using assms(2) by (auto simp: ys)
  have n: "N y = Some \<lparr>node_prev = last (0 # ys'), node_next = x\<rparr>" using c(1) by (simp add: chain_append)
  have "chain (N(y \<mapsto> (the (N y))\<lparr>node_next := hd (zs @ [0])\<rparr>)) 0 (ys' @ [y]) (hd (zs @ [0]))"
    by (rule chain_new_next [OF c(1) y(1)])
  with n c(2) y(2) show ?thesis unfolding ys by simp
qed

lemma relink_prev:
  assumes "chain N x (z # zs) 0" "distinct (ys @ z # zs)" "chain N 0 ys z" "p = last (0 # ys)"
  shows "\<exists>n. N z = Some n \<and> chain (N(z \<mapsto> n\<lparr>node_prev := p\<rparr>)) 0 (ys @ z # zs) 0"
  using assms by (auto simp: chain_append)

lemma ref_free_node:
  assumes "rnodes h x = Some \<lparr>node_prev = p, node_next = q\<rparr>"
  shows "ref_free sh (x + 16) h =
    and_then (if p \<noteq> 0 then set_next p q h
              else and_then (get_ref sh h) (\<lambda>r. Inr (put_ref sh (r\<lparr>allocs := q\<rparr>) h))) (\<lambda>h1.
    and_then (if q \<noteq> 0 then set_prev q p h1 else Inr h1) (\<lambda>h2.
    and_then (raw_free x h2) (\<lambda>h3. Inr (True, h3))))"
proof -
  have "x + 16 - of_nat node_size = x" by (simp add: node_size_def)
  then show ?thesis using assms by (simp add: ref_free_def get_node_def Let_def cong: if_cong)
qed

text \<open>Unlinking the header of a live segment; the two writes touch the neighbours only.\<close>

lemma ref_free_list:
  assumes "region_inv sh (ys @ x # zs) h" "sh \<noteq> 0"
  obtains h' where "ref_free sh (x + 16) h = Inr (True, h')" "region_list sh (ys @ zs) h'"
    "rblocks h' = (rblocks h)(x := None)" "dom (rnodes h') = set (ys @ zs)" "rmem h' = rmem h"
    "rcalls h' = rcalls h"
    "\<And>r. rregions h = [sh \<mapsto> r] \<Longrightarrow> \<exists>p. rregions h' = [sh \<mapsto> r\<lparr>allocs := p\<rparr>]"
proof -
  let ?xs = "ys @ x # zs" and ?N = "rnodes h" and ?nx = "hd (zs @ [0])"
  obtain r where r: "rregions h = [sh \<mapsto> r]" "allocs r = hd (?xs @ [0])"
    "dom (rblocks h) = insert (rstart r) (set ?xs)" "0 \<notin> set ?xs" "distinct ?xs" "chain ?N 0 ?xs 0"
    using region_invE [OF assms(1)] by metis
  have dn: "dom ?N = set ?xs" using assms(1) by (simp add: region_inv_def)
  have live: "rblocks h x \<noteq> None" using r(3) by (metis domIff in_set_conv_decomp insertCI)
  have node: "?N x = Some \<lparr>node_prev = last (0 # ys), node_next = ?nx\<rparr>" by (rule chain_node [OF r(6)])
  have nx: "?nx \<noteq> 0 \<longleftrightarrow> zs \<noteq> []" using r(4) by (cases zs) auto
  have pr: "last (0 # ys) \<noteq> 0 \<longleftrightarrow> ys \<noteq> []" using r(4) last_in_set [of ys] by (metis Un_iff last.simps set_append)
  obtain h1 where h1: "(if last (0 # ys) \<noteq> 0 then set_next (last (0 # ys)) ?nx h
       else and_then (get_ref sh h) (\<lambda>r. Inr (put_ref sh (r\<lparr>allocs := ?nx\<rparr>) h))) = Inr h1"
    "chain (rnodes h1) 0 ys ?nx" "chain (rnodes h1) x zs 0" "dom (rnodes h1) = set ?xs"
    "rregions h1 = [sh \<mapsto> r\<lparr>allocs := hd ((ys @ zs) @ [0])\<rparr>]"
    "rblocks h1 = rblocks h" "rmem h1 = rmem h" "rcalls h1 = rcalls h"
  proof (cases "ys = []")
    case True
    then show ?thesis
      using that [of "put_ref sh (r\<lparr>allocs := ?nx\<rparr>) h"] r(1,6) dn by (simp add: get_ref_def put_ref_def)
  next
    case False
    obtain n where n: "?N (last ys) = Some n"
      "chain (?N(last ys \<mapsto> n\<lparr>node_next := ?nx\<rparr>)) 0 ys ?nx"
      "chain (?N(last ys \<mapsto> n\<lparr>node_next := ?nx\<rparr>)) x zs 0"
      using relink_next [OF r(6,5) False] by blast
    have "r\<lparr>allocs := hd ((ys @ zs) @ [0])\<rparr> = r" using False r(2) by simp
    moreover have "last ys \<in> set ?xs" using False by simp
    ultimately show ?thesis
      using that [of "put_node (last ys) (n\<lparr>node_next := ?nx\<rparr>) h"] n pr False r(1) dn
      by (auto simp: set_next_def get_node_def put_node_def)
  qed
  obtain h2 where h2: "(if ?nx \<noteq> 0 then set_prev ?nx (last (0 # ys)) h1 else Inr h1) = Inr h2"
    "chain (rnodes h2) 0 (ys @ zs) 0" "dom (rnodes h2) = set ?xs" "rregions h2 = rregions h1"
    "rblocks h2 = rblocks h" "rmem h2 = rmem h" "rcalls h2 = rcalls h"
  proof (cases zs)
    case Nil
    then show ?thesis using that [of h1] h1 by simp
  next
    case (Cons z zs')
    have d: "distinct (ys @ z # zs')" using r(5) Cons by auto
    have z: "z \<noteq> 0" using r(4) Cons by auto
    obtain n where n: "rnodes h1 z = Some n"
      "chain ((rnodes h1)(z \<mapsto> n\<lparr>node_prev := last (0 # ys)\<rparr>)) 0 (ys @ z # zs') 0"
      using relink_prev [of "rnodes h1" x z zs' ys "last (0 # ys)"] h1(2,3) d Cons by auto
    have "insert z (set ?xs) = set ?xs" using Cons by auto
    then show ?thesis
      using that [of "put_node z (n\<lparr>node_prev := last (0 # ys)\<rparr>) h1"] n Cons h1 z
      by (simp add: set_prev_def get_node_def put_node_def del: chain.simps)
  qed
  let ?h = "h2\<lparr>rblocks := (rblocks h2)(x := None), rnodes := (rnodes h2)(x := None)\<rparr>"
  have x: "x \<notin> set (ys @ zs)" using r(5) by auto
  have run: "ref_free sh (x + 16) h = Inr (True, ?h)"
    unfolding ref_free_node [OF node] h1(1) and_then_simps h2(1)
    using h2(5) live by (auto simp: raw_free_def)
  have list: "region_list sh (ys @ zs) ?h"
    using h1(5) h2(2,4) r(4,5) x by (auto simp: region_list_def)
  have dom: "dom (rnodes ?h) = set (ys @ zs)" using h2(3) x by auto
  have reg: "\<exists>p. rregions ?h = [sh \<mapsto> r'\<lparr>allocs := p\<rparr>]" if r': "rregions h = [sh \<mapsto> r']" for r'
  proof -
    have "r' = r" using r' r(1) by (metis map_upd_eqD1)
    then show ?thesis using h1(5) h2(4) by auto
  qed
  show ?thesis by (rule that [OF run list _ dom]) (use h2(5-7) reg in simp_all)
qed

lemma free_inv:
  assumes "region_inv sh (ys @ x # zs) h" "sh \<noteq> 0"
  shows "\<exists>h'. ref_free sh (x + 16) h = Inr (True, h') \<and> region_inv sh (ys @ zs) h'"
proof -
  obtain r where r: "rregions h = [sh \<mapsto> r]" "rstart r \<notin> set (ys @ x # zs)"
    "dom (rblocks h) = insert (rstart r) (set (ys @ x # zs))" "distinct (ys @ x # zs)"
    using region_invE [OF assms(1)] by metis
  obtain h' where h': "ref_free sh (x + 16) h = Inr (True, h')" "region_list sh (ys @ zs) h'"
    "rblocks h' = (rblocks h)(x := None)" "dom (rnodes h') = set (ys @ zs)"
    "\<And>r. rregions h = [sh \<mapsto> r] \<Longrightarrow> \<exists>p. rregions h' = [sh \<mapsto> r\<lparr>allocs := p\<rparr>]"
    using ref_free_list [OF assms] by metis
  obtain p where "rregions h' = [sh \<mapsto> r\<lparr>allocs := p\<rparr>]" using h'(5) [OF r(1)] by blast
  moreover have "dom (rblocks h') = insert (rstart r) (set (ys @ zs))" using h'(3) r by auto
  moreover have b: "rblocks h q = Some n" if "rblocks h' q = Some n" for q n
    using that h'(3) by (simp split: if_splits)
  have "unat q + n < 2 ^ 64 \<and> (q \<in> set (ys @ zs) \<longrightarrow> node_size \<le> n)" if "rblocks h' q = Some n" for q n
    using b [OF that] assms(1) by (simp add: region_inv_def)
  moreover have "\<not> overlaps q n q' k" if "rblocks h' q = Some n" "rblocks h' q' = Some k" "q \<noteq> q'" for q n q' k
    using b [OF that(1)] b [OF that(2)] that(3) assms(1) unfolding region_inv_def by blast
  ultimately have "region_inv sh (ys @ zs) h'"
    using h'(2,4) r(2) unfolding region_inv_def by auto
  with h'(1) show ?thesis by blast
qed

subsection \<open>tm_destroy\<close>

text \<open>The loop does not repair the back links, so its invariant leaves the first one open.\<close>

lemma restrict_remove: "(f(x := None)) |` (- set xs) = f |` (- set (x # xs))"
  by (auto simp: restrict_map_def fun_eq_iff)

lemma free_segments_ok:
  assumes "rregions h = [sh \<mapsto> r]" "allocs r = hd (xs @ [0])" "0 \<notin> set xs" "distinct xs"
    "chain (rnodes h) pr xs 0" "set xs \<subseteq> dom (rblocks h)"
  shows "\<exists>h'. free_segments sh h = Some (Inr h') \<and> rregions h' = [sh \<mapsto> r\<lparr>allocs := 0\<rparr>] \<and>
    rblocks h' = rblocks h |` (- set xs) \<and> rnodes h' = rnodes h |` (- set xs)"
  using assms
proof (induction xs arbitrary: h r pr)
  case Nil
  have eq: "r\<lparr>allocs := 0\<rparr> = r" using Nil.prems(2) by simp
  have "free_segments sh h = Some (Inr h)"
    using Nil.prems(1,2) by (subst free_segments.simps) (simp add: get_ref_def)
  then show ?case unfolding eq using Nil.prems(1) by simp
next
  case (Cons x xs)
  let ?h1 = "h\<lparr>rblocks := (rblocks h)(x := None), rnodes := (rnodes h)(x := None)\<rparr>"
  let ?h = "put_ref sh (r\<lparr>allocs := hd (xs @ [0])\<rparr>) ?h1"
  have x: "x \<noteq> 0" "rnodes h x = Some \<lparr>node_prev = pr, node_next = hd (xs @ [0])\<rparr>" "\<exists>k. rblocks h x = Some k"
    using Cons.prems(3,5,6) by auto
  then obtain k where k: "rblocks h x = Some k" by blast
  have step: "free_segments sh h = free_segments sh ?h"
    using Cons.prems(1,2) x(1,2) k by (subst free_segments.simps) (simp add: get_ref_def get_node_def raw_free_def)
  have c: "chain (rnodes ?h) x xs 0" using Cons.prems(4,5) by (simp add: put_ref_def del: fun_upd_apply)
  have "\<exists>h'. free_segments sh ?h = Some (Inr h') \<and>
      rregions h' = [sh \<mapsto> (r\<lparr>allocs := hd (xs @ [0])\<rparr>)\<lparr>allocs := 0\<rparr>] \<and>
      rblocks h' = rblocks ?h |` (- set xs) \<and> rnodes h' = rnodes ?h |` (- set xs)"
    by (rule Cons.IH [OF _ _ _ _ c]) (use Cons.prems in \<open>auto simp: put_ref_def\<close>)
  then obtain h' where h': "free_segments sh ?h = Some (Inr h')" "rregions h' = [sh \<mapsto> r\<lparr>allocs := 0\<rparr>]"
    "rblocks h' = (rblocks h)(x := None) |` (- set xs)" "rnodes h' = (rnodes h)(x := None) |` (- set xs)"
    by (auto simp: put_ref_def simp del: fun_upd_restrict)
  show ?case
    unfolding step restrict_remove [symmetric] using h' by blast
qed

lemma destroy_ok:
  assumes "region_inv sh xs h" "\<And>r. rregions h sh = Some r \<Longrightarrow> rlock r = Unlocked"
  shows "\<exists>h'. ref_destroy sh h = Some (Inr h') \<and> rregions h' = Map.empty \<and> rblocks h' = Map.empty \<and>
    rnodes h' = Map.empty"
proof -
  obtain r where r: "rregions h = [sh \<mapsto> r]" "allocs r = hd (xs @ [0])" "rstart r \<notin> set xs"
    "dom (rblocks h) = insert (rstart r) (set xs)" "0 \<notin> set xs" "distinct xs" "chain (rnodes h) 0 xs 0"
    using region_invE [OF assms(1)] by metis
  have "set xs \<subseteq> dom (rblocks h)" using r(4) by blast
  from free_segments_ok [OF r(1,2,5,6,7) this]
  obtain h1 where h1: "free_segments sh h = Some (Inr h1)" "rregions h1 = [sh \<mapsto> r\<lparr>allocs := 0\<rparr>]"
    "rblocks h1 = rblocks h |` (- set xs)" "rnodes h1 = rnodes h |` (- set xs)" by blast
  have dn: "dom (rnodes h) = set xs" using assms(1) by (simp add: region_inv_def)
  have start: "rblocks h1 (rstart r) \<noteq> None" using h1(3) r(3,4) by auto
  let ?h = "h1\<lparr>rblocks := (rblocks h1)(rstart r := None), rnodes := (rnodes h1)(rstart r := None)\<rparr>"
  have "ref_destroy sh h = Some (Inr (drop_ref sh ?h))"
    using h1(1,2) start assms(2) r(1)
    by (simp add: ref_destroy_def get_ref_def raw_free_def shared_lock_cleanup_def)
  moreover have "rblocks ?h = Map.empty"
  proof
    fix p show "rblocks ?h p = None"
      using r(4) by (auto simp: h1(3) restrict_map_def)
  qed
  moreover have "rnodes ?h = Map.empty"
  proof
    fix p show "rnodes ?h p = None" using dn by (auto simp: h1(4) restrict_map_def)
  qed
  ultimately show ?thesis using h1(2) by (auto simp: drop_ref_def)
qed

subsection \<open>Sequences of calls\<close>

definition empty_ref :: "memory \<Rightarrow> ref_heap" where
  "empty_ref m = \<lparr>rmem = m, rblocks = Map.empty, rnodes = Map.empty, rregions = Map.empty, rcalls = 0\<rparr>"

lemma create_inv:
  obtains (failed) h where "ref_create pick p err sz al (empty_ref m) = Inr (0, h)"
      "rblocks h = Map.empty" "rregions h = Map.empty"
  | (created) h r where "ref_create pick p err sz al (empty_ref m) = Inr (p, h)" "p \<noteq> 0"
      "region_inv p [] h" "rregions h p = Some r" "rlock r = Unlocked" "rmem h = memset m (rstart r) 0 sz"
      "rblocks h (rstart r) = Some sz" "word_aligned al (rstart r)" "rsize r = sz" "ralign r = al"
proof -
  let ?st = "pick 0 sz"
  let ?init = "put_ref p \<lparr>rlock = Unlocked, rstart = 0, allocs = 0, rsize = 0, ralign = 0\<rparr> (empty_ref m)"
  note defs = ref_create_def posix_memalign_def put_ref_def drop_ref_def empty_ref_def shared_lock_init_def
    raw_free_def fits_def invalid_shared_def
  show ?thesis
  proof (cases "p \<noteq> 0 \<and> fits ?init al sz ?st \<and> err = 0")
    case True
    let ?r = "\<lparr>rlock = Unlocked, rstart = ?st, allocs = 0, rsize = sz, ralign = al\<rparr>"
    let ?h = "?init\<lparr>rcalls := 1, rblocks := [?st \<mapsto> sz], rmem := memset m ?st 0 sz, rregions := [p \<mapsto> ?r]\<rparr>"
    have "fits ?init al sz ?st" "p \<noteq> 0" "err = 0" using True by simp_all
    then have st: "unat ?st + sz < 2 ^ 64" "word_aligned al ?st" and run: "ref_create pick p err sz al (empty_ref m) = Inr (p, ?h)"
      by (simp_all add: defs Let_def)
    have "region_inv p [] ?h" using st by (auto simp: region_inv_def region_list_def defs split: if_splits)
    then show ?thesis by (rule created [where r = ?r, OF run \<open>p \<noteq> 0\<close>]) (use st in \<open>simp_all add: put_ref_def empty_ref_def\<close>)
  next
    case False
    then show ?thesis
      by (cases "p = 0"; cases "fits ?init al sz ?st") (auto simp: defs Let_def intro!: failed)
  qed
qed

end
