(* ===== verification/Reference_Theorems.thy ===== *)
theory Reference_Theorems
  imports Reference_Lists
begin

text \<open>
  What holds of the reference library over any sequence of calls: no call of a client that frees
  live segments only is undefined, nothing leaks, and where the segments lie.
\<close>

section \<open>Histories\<close>

text \<open>
  The calls on one region, created in an empty heap; \<open>live_segs\<close> are the segments allocated and not
  freed, the last one first. Locks, errors and pointers are whatever the environment chose.
\<close>

inductive ref_run :: "addr \<Rightarrow> nat \<Rightarrow> nat \<Rightarrow> addr list \<Rightarrow> ref_heap \<Rightarrow> bool" for sh sz al where
  run_create: "ref_create pick sh err sz al (empty_ref m) = Inr (sh, h) \<Longrightarrow> sh \<noteq> invalid_shared \<Longrightarrow>
    ref_run sh sz al [] h"
| run_alloc: "ref_run sh sz al live_segs h \<Longrightarrow> ref_alloc pick sh n h = Inr (success, seg, h') \<Longrightarrow>
    ref_run sh sz al (seg # live_segs) h'"
| run_nomem: "ref_run sh sz al live_segs h \<Longrightarrow> ref_alloc pick sh n h = Inr (nomem, seg, h') \<Longrightarrow>
    ref_run sh sz al live_segs h'"
| run_free: "ref_run sh sz al live_segs h \<Longrightarrow> seg \<in> set live_segs \<Longrightarrow> ref_free sh seg h = Inr (ok, h') \<Longrightarrow>
    ref_run sh sz al (remove1 seg live_segs) h'"
| run_begin: "ref_run sh sz al live_segs h \<Longrightarrow> ref_begin err sh ro h = Inr (Some (tx, h')) \<Longrightarrow>
    ref_run sh sz al live_segs h'"
| run_end: "ref_run sh sz al live_segs h \<Longrightarrow> ref_end sh tx h = Inr (ok, h') \<Longrightarrow> ref_run sh sz al live_segs h'"
| run_write: "ref_run sh sz al live_segs h \<Longrightarrow> ref_write bs n target h = (ok, h') \<Longrightarrow>
    ref_run sh sz al live_segs h'"

abbreviation headers :: "addr list \<Rightarrow> addr list" where
  "headers live_segs \<equiv> map (\<lambda>seg. seg - 16) live_segs"

definition created_as :: "addr \<Rightarrow> nat \<Rightarrow> nat \<Rightarrow> ref_heap \<Rightarrow> bool" where
  "created_as sh sz al h \<longleftrightarrow> (\<exists>r. rregions h sh = Some r \<and> rsize r = sz \<and> ralign r = al)"

lemma region_inv_lock:
  "region_inv sh xs h \<Longrightarrow> rregions h sh = Some r \<Longrightarrow> region_inv sh xs (put_ref sh (r\<lparr>rlock := l\<rparr>) h)"
  by (auto simp: region_inv_def region_list_def put_ref_def intro!: exI [of _ "r\<lparr>rlock := l\<rparr>"])

lemma region_inv_mem: "region_inv sh xs (h\<lparr>rmem := m\<rparr>) \<longleftrightarrow> region_inv sh xs h"
  by (simp add: region_inv_def region_list_def)

lemma remove1_header:
  assumes "seg \<in> set live_segs"
  obtains ys zs where "live_segs = ys @ seg # zs" "remove1 seg live_segs = ys @ zs"
proof -
  obtain ys zs where "live_segs = ys @ seg # zs" "seg \<notin> set ys" using split_list_first [OF assms] by blast
  with that [of ys zs] show ?thesis by (simp add: remove1_append)
qed

lemma ref_run_inv:
  assumes "ref_run sh sz al live_segs h"
  shows "region_inv sh (headers live_segs) h \<and> sh \<noteq> 0 \<and> created_as sh sz al h"
  using assms
proof (induction rule: ref_run.induct)
  case (run_create pick err m h)
  then show ?case
    by (cases rule: create_inv [of pick sh err sz al m]) (auto simp: invalid_shared_def created_as_def)
next
  case (run_alloc live_segs h pick n seg h')
  then have "region_inv sh ((seg - 16) # headers live_segs) h'" using alloc_inv by blast
  moreover have "created_as sh sz al h'"
    by (rule ref_alloc_cases [of sh "headers live_segs" h pick n])
      (use run_alloc in \<open>auto simp: created_as_def\<close>)
  ultimately show ?case using run_alloc.IH by simp
next
  case (run_nomem live_segs h pick n seg h')
  have "h' = h\<lparr>rcalls := rcalls h + 1\<rparr>"
    by (rule ref_alloc_cases [of sh "headers live_segs" h pick n]) (use run_nomem in auto)
  with run_nomem.IH show ?case by (simp add: region_inv_def region_list_def created_as_def)
next
  case (run_free live_segs h seg ok h')
  obtain ys zs where s: "live_segs = ys @ seg # zs" "remove1 seg live_segs = ys @ zs"
    using remove1_header [OF run_free.hyps(2)] by blast
  have inv: "region_inv sh (headers ys @ (seg - 16) # headers zs) h" "sh \<noteq> 0"
    using run_free.IH s(1) by simp_all
  obtain h1 where h1: "ref_free sh (seg - 16 + 16) h = Inr (True, h1)" "region_inv sh (headers ys @ headers zs) h1"
    using free_inv [OF inv] by blast
  then have "h' = h1" using run_free.hyps(3) by simp
  moreover have "created_as sh sz al h1"
  proof (rule ref_free_list [OF inv])
    fix h2 assume h2: "ref_free sh (seg - 16 + 16) h = Inr (True, h2)"
      "\<And>r. rregions h = [sh \<mapsto> r] \<Longrightarrow> \<exists>p. rregions h2 = [sh \<mapsto> r\<lparr>allocs := p\<rparr>]"
    obtain r where r: "rregions h = [sh \<mapsto> r]" using region_invE [OF inv(1)] by metis
    from h2(2) [OF r] show ?thesis using h2(1) h1(1) r run_free.IH by (auto simp: created_as_def)
  qed
  ultimately show ?case using h1(2) s(2) run_free.IH by simp
next
  case (run_begin live_segs h err ro tx h')
  then obtain r where r: "rregions h sh = Some r" by (auto simp: created_as_def)
  have "h' = h \<or> (\<exists>l. h' = put_ref sh (r\<lparr>rlock := l\<rparr>) h)"
    using run_begin.hyps(2) r
    by (auto simp: ref_begin_def get_ref_def split: if_splits option.splits prod.splits)
  with run_begin.IH r region_inv_lock [of sh _ h r] show ?case by (auto simp: created_as_def put_ref_def)
next
  case (run_end live_segs h tx ok h')
  then obtain r where r: "rregions h sh = Some r" by (auto simp: created_as_def)
  obtain l where "h' = put_ref sh (r\<lparr>rlock := l\<rparr>) h"
    using run_end.hyps(2) r by (auto simp: ref_end_def get_ref_def split: if_splits option.splits)
  with run_end.IH r region_inv_lock [of sh _ h r] show ?case by (auto simp: created_as_def put_ref_def)
next
  case (run_write live_segs h bs n target ok h')
  then show ?case by (auto simp: ref_write_def region_inv_mem created_as_def)
qed

section \<open>Properties\<close>

definition demo_pick :: "nat \<Rightarrow> nat \<Rightarrow> addr" where
  "demo_pick k n = 4096 * of_nat (k + 1)"

text \<open>A region with words of 32 bytes, and one segment allocated in it.\<close>

lemma demo_ref:
  "\<exists>h r h'. ref_run 16 64 (2 ^ 5) [] h \<and> ref_alloc demo_pick 16 64 h = Inr (success, 8208, h') \<and>
    rregions h' 16 = Some r \<and> rlock r = Unlocked"
proof -
  let ?r = "\<lparr>rlock = Unlocked, rstart = 4096, allocs = 0, rsize = 64, ralign = 32\<rparr>"
  let ?h = "\<lparr>rmem = memset (\<lambda>_. 7) 4096 0 64, rblocks = [4096 \<mapsto> 64], rnodes = Map.empty,
    rregions = [16 \<mapsto> ?r], rcalls = 1\<rparr>"
  have "ref_create demo_pick 16 0 64 32 (empty_ref (\<lambda>_. 7)) = Inr (16, ?h)"
    by (simp add: ref_create_def demo_pick_def empty_ref_def posix_memalign_def fits_def put_ref_def
        shared_lock_init_def word_aligned_def)
  then have "ref_run 16 64 32 [] ?h" by (rule run_create) (simp add: invalid_shared_def)
  moreover have "fits ?h 32 80 8192" by (auto simp: fits_def word_aligned_def overlaps_def split: if_splits)
  then have "ref_alloc demo_pick 16 64 ?h = Inr (success, 8208, ?h\<lparr>rcalls := 2,
      rblocks := [4096 \<mapsto> 64, 8192 \<mapsto> 80], rnodes := [8192 \<mapsto> \<lparr>node_prev = 0, node_next = 0\<rparr>],
      rregions := [16 \<mapsto> ?r\<lparr>allocs := 8192\<rparr>], rmem := memset (rmem ?h) 8208 0 64\<rparr>)"
    by (simp add: ref_alloc_def get_ref_def demo_pick_def posix_memalign_def put_ref_def put_node_def node_size_def node_align_def Let_def)
  ultimately show ?thesis by (intro exI [of _ ?h]) auto
qed

text \<open>No undefined behaviour and no leak. After any sequence of calls in which a client frees
  live segments only, allocation and the freeing of any live segment are defined, and once no
  transaction holds the lock, \<open>tm_destroy\<close> ends and leaves no block, no header and no region.\<close>

theorem reference_calls_sound:
  assumes "ref_run sh sz al live_segs h"
  shows "(\<forall>pick n. \<exists>q. ref_alloc pick sh n h = Inr q) \<and>
    (\<forall>seg \<in> set live_segs. \<exists>h'. ref_free sh seg h = Inr (True, h')) \<and>
    (\<forall>r. rregions h sh = Some r \<longrightarrow> rlock r = Unlocked \<longrightarrow>
      (\<exists>h'. ref_destroy sh h = Some (Inr h') \<and> rblocks h' = Map.empty \<and> rnodes h' = Map.empty \<and>
         rregions h' = Map.empty))"
proof (intro conjI allI ballI impI)
  note inv = ref_run_inv [OF assms]
  fix pick n show "\<exists>q. ref_alloc pick sh n h = Inr q"
    by (rule ref_alloc_cases [of sh "headers live_segs" h pick n]) (use inv in auto)
next
  note inv = ref_run_inv [OF assms]
  fix seg assume "seg \<in> set live_segs"
  then obtain ys zs where "live_segs = ys @ seg # zs" using split_list by fast
  with inv have "region_inv sh (headers ys @ (seg - 16) # headers zs) h" "sh \<noteq> 0" by simp_all
  from free_inv [OF this] show "\<exists>h'. ref_free sh seg h = Inr (True, h')" by auto
next
  fix r assume "rregions h sh = Some r" "rlock r = Unlocked"
  with destroy_ok [OF conjunct1 [OF ref_run_inv [OF assms]]]
  show "\<exists>h'. ref_destroy sh h = Some (Inr h') \<and> rblocks h' = Map.empty \<and> rnodes h' = Map.empty \<and>
         rregions h' = Map.empty" by fastforce
qed

theorem reference_calls_sound_witness:
  "\<exists>h h'. ref_run 16 64 32 [8208] h \<and> ref_destroy 16 h = Some (Inr h') \<and> rblocks h' = Map.empty"
proof -
  obtain h r h' where h: "ref_run 16 64 (2 ^ 5) [] h" "ref_alloc demo_pick 16 64 h = Inr (success, 8208, h')"
    "rregions h' 16 = Some r" "rlock r = Unlocked"
    using demo_ref by blast
  have run: "ref_run 16 64 32 [8208] h'" using run_alloc [OF h(1,2)] by simp
  from reference_calls_sound [OF run] h(3,4) run show ?thesis by blast
qed

text \<open>Where a segment of the reference lies. An allocated segment is zeroed, disjoint from all
  live blocks, and starts 16 bytes after a multiple of the alignment: it is aligned as the
  region promises exactly when the alignment, a power of two, is at most 16.\<close>

theorem reference_segment_alignment:
  assumes "ref_run sh sz (2 ^ k) live_segs h" "ref_alloc pick sh n h = Inr (success, seg, h')"
  shows "(word_aligned (2 ^ k) seg \<longleftrightarrow> k \<le> 4) \<and> load_bytes (rmem h') seg n = replicate n 0 \<and>
    (\<forall>q m. rblocks h q = Some m \<longrightarrow> \<not> overlaps seg n q m)"
proof -
  note inv = ref_run_inv [OF assms(1)]
  let ?w = "if (2 :: nat) ^ k < 8 then 8 else 2 ^ k"
  obtain sn r where sn: "seg = sn + 16" "rregions h = [sh \<mapsto> r]"
    "fits h (node_align (ralign r)) (16 + n) sn" "rmem h' = memset (rmem h) (sn + 16) 0 n"
    by (rule ref_alloc_cases [of sh "headers live_segs" h pick n]) (use inv assms(2) in auto)
  have "ralign r = 2 ^ k" using inv sn(2) by (simp add: created_as_def)
  with sn(3) have f: "?w dvd unat sn" "unat sn + 16 + n < 2 ^ 64"
    "\<And>q m. rblocks h q = Some m \<Longrightarrow> \<not> overlaps sn (16 + n) q m"
    by (simp_all add: fits_def word_aligned_def add.assoc node_align_def split: if_splits)
  have seg: "unat seg = unat sn + 16" using f(2) sn(1) by (simp add: unat_word_ariths)
  have "(2 :: nat) ^ k dvd ?w"
  proof (cases "k < 3")
    case True
    then have "(2 :: nat) ^ k dvd 2 ^ 3" by (intro le_imp_power_dvd) simp
    moreover have "(2 :: nat) ^ k < 2 ^ 3" using True by (intro power_strict_increasing) simp_all
    ultimately show ?thesis by simp
  qed (use power_increasing [of 3 k "2 :: nat"] in simp)
  then have "(2 :: nat) ^ k dvd unat sn" using f(1) by (rule dvd_trans)
  then have "word_aligned (2 ^ k) seg \<longleftrightarrow> (2 :: nat) ^ k dvd 2 ^ 4"
    unfolding word_aligned_def seg by (simp add: dvd_add_right_iff)
  then have "word_aligned (2 ^ k) seg \<longleftrightarrow> k \<le> 4"
    using power_dvd_imp_le [of 2 k 4] le_imp_power_dvd [of k 4 "2 :: nat"] by auto
  moreover have "load_bytes (rmem h') seg n = replicate n 0"
    using f(2) unfolding sn(1,4) memset_def by (intro load_store_same) simp_all
  moreover have "\<not> overlaps seg n q m" if "rblocks h q = Some m" for q m
    using f(3) [OF that] seg by (auto simp: overlaps_def)
  ultimately show ?thesis by blast
qed

theorem reference_segment_alignment_witness:
  "\<exists>h h'. ref_alloc demo_pick 16 64 h = Inr (success, 8208, h') \<and> ref_run 16 64 32 [] h \<and>
    \<not> word_aligned 32 8208 \<and> load_bytes (rmem h') 8208 64 = replicate 64 0"
proof -
  obtain h h' where h: "ref_run 16 64 (2 ^ 5) [] h" "ref_alloc demo_pick 16 64 h = Inr (success, 8208, h')"
    using demo_ref by blast
  from reference_segment_alignment [OF h] h show ?thesis by auto
qed

end
