(* ===== verification/Reference_Client.thy ===== *)
theory Reference_Client
  imports Reference_Theorems
begin

text \<open>
  Clients of the reference library. Any number of them run their transaction bodies on one region,
  interleaved access by access; the lock makes the result the serial one.
\<close>

section \<open>The library as a record of functions\<close>

record ref_env =
  rpick :: "nat \<Rightarrow> nat \<Rightarrow> addr"
  rpick_region :: "ref_heap \<Rightarrow> addr"
  rlock_err :: "ref_heap \<Rightarrow> int"

text \<open>
  A call whose behaviour is undefined is shown as one without effect, a caller that would wait
  for ever as one that gets no transaction; \<open>reference_calls_sound\<close> and the lemmas below are
  about callers that meet neither.
\<close>

definition ref_library :: "ref_env \<Rightarrow> ref_heap TransactionalLibrary" where
  "ref_library env =
     \<lparr>fn_create = (\<lambda>sz al h.
        case ref_create (rpick env) (rpick_region env h) (rlock_err env h) sz al h of
          Inl e \<Rightarrow> None | Inr q \<Rightarrow> Some q),
      fn_destroy = (\<lambda>sh h. case ref_destroy sh h of Some (Inr h') \<Rightarrow> h' | _ \<Rightarrow> h),
      fn_start = (\<lambda>sh h. case ref_start sh h of Inl e \<Rightarrow> 0 | Inr p \<Rightarrow> p),
      fn_size = (\<lambda>sh h. case ref_size sh h of Inl e \<Rightarrow> 0 | Inr n \<Rightarrow> n),
      fn_align = (\<lambda>sh h. case ref_align sh h of Inl e \<Rightarrow> 0 | Inr n \<Rightarrow> n),
      fn_begin = (\<lambda>sh ro h.
        case ref_begin (rlock_err env h) sh ro h of Inr (Some q) \<Rightarrow> q | _ \<Rightarrow> (invalid_tx, h)),
      fn_end = (\<lambda>sh tx h. case ref_end sh tx h of Inl e \<Rightarrow> (True, h) | Inr q \<Rightarrow> q),
      fn_read = (\<lambda>sh tx source sz h. ref_read source sz h),
      fn_write = (\<lambda>sh tx source sz dst h. ref_write source sz dst h),
      fn_alloc = (\<lambda>sh tx sz h. case ref_alloc (rpick env) sh sz h of Inl e \<Rightarrow> (nomem, 0, h) | Inr q \<Rightarrow> q),
      fn_free = (\<lambda>sh tx segment h. case ref_free sh segment h of Inl e \<Rightarrow> (True, h) | Inr q \<Rightarrow> q)\<rparr>"

definition ref_memory :: "ref_env \<Rightarrow> addr \<Rightarrow> addr \<Rightarrow> nat \<Rightarrow> ref_heap TransactionalMemory" where
  "ref_memory env sh st n =
     \<lparr>tl = ref_library env, shared = sh, start_addr = st, start_size = n, alignment = 8\<rparr>"

definition ref_tx :: "bool \<Rightarrow> tx_obj" where
  "ref_tx ro = \<lparr>handle = (if ro then read_only_tx else read_write_tx), aborted = False, tx_ro = ro\<rparr>"

text \<open>One access of a body, and the rest of it.\<close>

fun body_step :: "'s TransactionalMemory \<Rightarrow> tx_obj \<Rightarrow> 'a prog \<Rightarrow> 's \<Rightarrow> 'a prog \<times> 's" where
  "body_step tm tx (ReadWord a k) s =
     (case tx_read tm tx a 8 s of
        (Inl e, tx', s') \<Rightarrow> (Throw e, s') | (Inr bs, tx', s') \<Rightarrow> (k (decode bs), s'))"
| "body_step tm tx (WriteWord a v k) s =
     (case tx_write tm tx (encode v) 8 a s of
        (Inl e, tx', s') \<Rightarrow> (Throw e, s') | (Inr _, tx', s') \<Rightarrow> (k, s'))"
| "body_step tm tx (AllocSeg sz k) s =
     (case tx_alloc tm tx sz s of
        (Inl e, tx', s') \<Rightarrow> (Throw e, s') | (Inr p, tx', s') \<Rightarrow> (k p, s'))"
| "body_step tm tx (FreeSeg p k) s =
     (case tx_free tm tx p s of
        (Inl e, tx', s') \<Rightarrow> (Throw e, s') | (Inr _, tx', s') \<Rightarrow> (k, s'))"
| "body_step tm tx p s = (p, s)"

section \<open>Many clients\<close>

text \<open>A client is outside, or in a transaction with its whole body and what is left of it.\<close>

datatype 'a client = Outside_tx | In_tx bool "'a prog" "'a prog"

text \<open>The log lists the ended transactions: mode, body and result.\<close>

type_synonym 'a ref_log = "(bool \<times> 'a prog \<times> (exn + 'a)) list"

inductive ref_reach ::
  "ref_heap TransactionalMemory \<Rightarrow> nat \<Rightarrow> ref_heap \<Rightarrow> ref_heap \<Rightarrow> (nat \<Rightarrow> 'a client) \<Rightarrow> 'a ref_log \<Rightarrow> bool"
  for tm n h0 where
  reach_start: "ref_reach tm n h0 h0 (\<lambda>_. Outside_tx) []"
| reach_begin: "ref_reach tm n h0 h cl log \<Longrightarrow> i < n \<Longrightarrow> cl i = Outside_tx \<Longrightarrow>
    (ro \<longrightarrow> reads_only p) \<Longrightarrow> ref_begin err (shared tm) ro h = Inr (Some (tx, h')) \<Longrightarrow>
    ref_reach tm n h0 h' (if tx = invalid_tx then cl else cl(i := In_tx ro p p)) log"
| reach_access: "ref_reach tm n h0 h cl log \<Longrightarrow> i < n \<Longrightarrow> cl i = In_tx ro p q \<Longrightarrow>
    body_step tm (ref_tx ro) q h = (q', h') \<Longrightarrow>
    ref_reach tm n h0 h' (cl(i := In_tx ro p q')) log"
| reach_end: "ref_reach tm n h0 h cl log \<Longrightarrow> i < n \<Longrightarrow> cl i = In_tx ro p q \<Longrightarrow>
    body_result q = Some r \<Longrightarrow> ref_end (shared tm) (handle (ref_tx ro)) h = Inr (True, h') \<Longrightarrow>
    ref_reach tm n h0 h' (cl(i := Outside_tx)) (log @ [(ro, p, r)])"

text \<open>The bodies run one after the other, each in one go, by the same code.\<close>

definition alone ::
  "ref_heap TransactionalMemory \<Rightarrow> bool \<Rightarrow> 'a prog \<Rightarrow> ref_heap \<Rightarrow> (exn + 'a) \<times> ref_heap" where
  "alone tm ro p h = (let (r, tx, h') = run_body tm p (ref_tx ro) h in (r, h'))"

fun replay ::
  "ref_heap TransactionalMemory \<Rightarrow> 'a ref_log \<Rightarrow> ref_heap \<Rightarrow> (exn + 'a) list \<times> ref_heap" where
  "replay tm [] h = ([], h)"
| "replay tm ((ro, p, r) # log) h =
     (let (q, h1) = alone tm ro p h; (qs, h2) = replay tm log h1 in (q # qs, h2))"

text \<open>The heap without the state of the lock.\<close>

definition unlock_ref :: "addr \<Rightarrow> ref_heap \<Rightarrow> ref_heap" where
  "unlock_ref sh h = h\<lparr>rregions := (rregions h)(sh := map_option (\<lambda>r. r\<lparr>rlock := Unlocked\<rparr>) (rregions h sh))\<rparr>"

subsection \<open>Steps\<close>

lemma ref_memory_ops [simp]:
  "fn_read (tl (ref_memory env sh st n)) sh' tx source sz h = ref_read source sz h"
  "fn_write (tl (ref_memory env sh st n)) sh' tx bs sz dst h = ref_write bs sz dst h"
  "shared (ref_memory env sh st n) = sh"
  by (simp_all add: ref_memory_def ref_library_def)

lemma ref_alloc_no_abort: "ref_alloc pick sh sz h = Inr (r, p, h') \<Longrightarrow> r \<noteq> abort_alloc"
proof (cases "get_ref sh h")
  case (Inr x)
  obtain m h1 where "posix_memalign pick (node_align (ralign x)) (node_size + sz) h = (m, h1)"
    by (metis surj_pair)
  then show "ref_alloc pick sh sz h = Inr (r, p, h') \<Longrightarrow> r \<noteq> abort_alloc"
    using Inr by (cases m) (auto simp: ref_alloc_def and_then_Inr Let_def)
qed (simp add: ref_alloc_def)

lemma ref_free_true: "ref_free sh p h = Inr (ok, h') \<Longrightarrow> ok"
  by (auto simp: ref_free_def and_then_Inr Let_def)

lemma run_ref_step:
  "run_body (ref_memory env sh st n) p (ref_tx ro) h =
     (let (q, h') = body_step (ref_memory env sh st n) (ref_tx ro) p h
      in run_body (ref_memory env sh st n) q (ref_tx ro) h')"
proof (cases p)
  case (AllocSeg sz k)
  obtain r a h' where al: "fn_alloc (tl (ref_memory env sh st n)) sh (handle (ref_tx ro)) sz h = (r, a, h')"
    by (metis prod_cases3)
  then have "r \<noteq> abort_alloc"
    using ref_alloc_no_abort by (auto simp: ref_memory_def ref_library_def split: sum.splits)
  with al AllocSeg show ?thesis by (cases r) (simp_all add: tx_alloc_def assert_mode_def)
next
  case (FreeSeg a k)
  obtain ok h' where fr: "fn_free (tl (ref_memory env sh st n)) sh (handle (ref_tx ro)) a h = (ok, h')"
    by (metis surj_pair)
  then have "ok" using ref_free_true by (auto simp: ref_memory_def ref_library_def split: sum.splits)
  with fr FreeSeg show ?thesis by (simp add: tx_free_def assert_mode_def)
qed (simp_all add: tx_read_def tx_write_def ref_read_def ref_write_def assert_mode_def)

lemma alone_step: "body_step (ref_memory env sh st n) (ref_tx ro) p h = (q, h') \<Longrightarrow>
    alone (ref_memory env sh st n) ro p h = alone (ref_memory env sh st n) ro q h'"
  unfolding alone_def by (subst run_ref_step) simp

lemma alone_result: "body_result q = Some r \<Longrightarrow> alone tm ro q h = (r, h)"
  by (cases q) (auto simp: alone_def)

text \<open>A body does not look at the lock.\<close>

lemma unlock_fields [simp]:
  "rmem (unlock_ref sh h) = rmem h" "rblocks (unlock_ref sh h) = rblocks h"
  "rnodes (unlock_ref sh h) = rnodes h" "rcalls (unlock_ref sh h) = rcalls h"
  by (simp_all add: unlock_ref_def)

lemma unlock_put_node [simp]: "unlock_ref sh (put_node p n h) = put_node p n (unlock_ref sh h)"
  by (simp add: unlock_ref_def put_node_def)

lemma unlock_get_node [simp]: "get_node p (unlock_ref sh h) = get_node p h"
  by (simp add: get_node_def)

lemma unlock_set_node:
  "set_prev p q (unlock_ref sh h) = map_sum id (unlock_ref sh) (set_prev p q h)"
  "set_next p q (unlock_ref sh h) = map_sum id (unlock_ref sh) (set_next p q h)"
  by (cases "get_node p h"; simp add: set_prev_def set_next_def)+

lemma unlock_raw_free: "raw_free p (unlock_ref sh h) = map_sum id (unlock_ref sh) (raw_free p h)"
  by (simp add: raw_free_def unlock_ref_def)

lemma unlock_memalign:
  "posix_memalign pick al n (unlock_ref sh h) = map_prod id (unlock_ref sh) (posix_memalign pick al n h)"
  by (simp add: posix_memalign_def Let_def fits_def unlock_ref_def)

lemma unlock_get_ref:
  "get_ref sh (unlock_ref sh h) = map_sum id (\<lambda>r. r\<lparr>rlock := Unlocked\<rparr>) (get_ref sh h)"
  by (simp add: get_ref_def unlock_ref_def split: option.split)

lemma unlock_put_ref:
  "unlock_ref sh (put_ref sh (r\<lparr>allocs := p\<rparr>) h) = put_ref sh (r\<lparr>rlock := Unlocked, allocs := p\<rparr>) (unlock_ref sh h)"
  by (cases r) (simp add: put_ref_def unlock_ref_def)

lemma unlock_ref_idem [simp]: "unlock_ref sh (unlock_ref sh h) = unlock_ref sh h"
  by (simp add: unlock_ref_def option.map_comp comp_def)

lemma unlock_put_lock: "rregions h sh = Some r \<Longrightarrow> unlock_ref sh (put_ref sh (r\<lparr>rlock := l\<rparr>) h) = unlock_ref sh h"
  by (simp add: unlock_ref_def put_ref_def)

lemma unlock_alloc:
  "ref_alloc pick sh sz (unlock_ref sh h) =
     map_sum id (\<lambda>(r, p, h'). (r, p, unlock_ref sh h')) (ref_alloc pick sh sz h)"
proof (cases "get_ref sh h")
  case (Inr x)
  let ?al = "node_align (ralign x)"
  obtain m h1 where m: "posix_memalign pick ?al (node_size + sz) h = (m, h1)" by (metis surj_pair)
  then have m': "posix_memalign pick ?al (node_size + sz) (unlock_ref sh h) = (m, unlock_ref sh h1)"
    by (simp add: unlock_memalign)
  show ?thesis
  proof (cases m)
    case None
    then show ?thesis using Inr m m' by (simp add: ref_alloc_def unlock_get_ref)
  next
    case (Some sn)
    let ?h2 = "put_node sn \<lparr>node_prev = 0, node_next = allocs x\<rparr> h1"
    have mem: "unlock_ref sh (h\<lparr>rmem := mm\<rparr>) = (unlock_ref sh h)\<lparr>rmem := mm\<rparr>" for h mm
      by (simp add: unlock_ref_def)
    have put: "rmem (put_ref sh rr h) = rmem h" for h rr by (simp add: put_ref_def)
    show ?thesis using Inr m m' Some
      by (cases "set_prev (allocs x) sn ?h2")
        (auto simp: ref_alloc_def unlock_get_ref unlock_set_node Let_def unlock_put_ref mem put
          simp flip: unlock_put_node)
  qed
qed (simp add: ref_alloc_def unlock_get_ref)

lemma unlock_free:
  "ref_free sh p (unlock_ref sh h) = map_sum id (map_prod id (unlock_ref sh)) (ref_free sh p h)"
proof (cases "get_node (p - of_nat node_size) h")
  case (Inr n)
  let ?first = "\<lambda>h. if node_prev n \<noteq> 0 then set_next (node_prev n) (node_next n) h
      else and_then (get_ref sh h) (\<lambda>r. Inr (put_ref sh (r\<lparr>allocs := node_next n\<rparr>) h))"
  let ?second = "\<lambda>h. if node_next n \<noteq> 0 then set_prev (node_next n) (node_prev n) h else Inr h"
  have first: "?first (unlock_ref sh h) = map_sum id (unlock_ref sh) (?first h)"
    by (cases "get_ref sh h") (simp_all add: unlock_set_node unlock_get_ref unlock_put_ref)
  have second: "?second (unlock_ref sh g) = map_sum id (unlock_ref sh) (?second g)" for g
    by (simp add: unlock_set_node)
  have free: "ref_free sh p g = and_then (?first g) (\<lambda>h1. and_then (?second h1) (\<lambda>h2.
      and_then (raw_free (p - of_nat node_size) h2) (\<lambda>h3. Inr (True, h3))))"
    if "get_node (p - of_nat node_size) g = Inr n" for g
    using that by (simp add: ref_free_def Let_def)
  show ?thesis
  proof (cases "?first h")
    case (Inr h1)
    show ?thesis
    proof (cases "?second h1")
      case (Inr h2)
      then show ?thesis
        using \<open>?first h = Inr h1\<close> \<open>get_node (p - of_nat node_size) h = Inr n\<close> first second [of h1]
        by (cases "raw_free (p - of_nat node_size) h2")
          (simp_all only: free unlock_get_node and_then_simps map_sum.simps unlock_raw_free id_apply map_prod_simp)
    qed (use \<open>?first h = Inr h1\<close> \<open>get_node (p - of_nat node_size) h = Inr n\<close> first second [of h1] in
      \<open>simp only: free unlock_get_node and_then_simps map_sum.simps id_apply\<close>)
  qed (use \<open>get_node (p - of_nat node_size) h = Inr n\<close> first in
      \<open>simp only: free unlock_get_node and_then_simps map_sum.simps id_apply\<close>)
qed (simp add: ref_free_def)

lemma body_step_unlock:
  assumes "body_step (ref_memory env sh st n) (ref_tx ro) p h = (q, h')"
  shows "body_step (ref_memory env sh st n) (ref_tx ro) p (unlock_ref sh h) = (q, unlock_ref sh h')"
proof (cases p)
  case (WriteWord a v k)
  have "unlock_ref sh (h\<lparr>rmem := m\<rparr>) = (unlock_ref sh h)\<lparr>rmem := m\<rparr>" for m
    by (simp add: unlock_ref_def)
  with assms WriteWord show ?thesis by (auto simp: tx_write_def ref_write_def assert_mode_def)
next
  case (AllocSeg sz k)
  have no: "ref_alloc (rpick env) sh sz h \<noteq> Inr (abort_alloc, a, h'')" for a h''
    using ref_alloc_no_abort by blast
  show ?thesis
    using assms AllocSeg no
    by (auto simp: tx_alloc_def assert_mode_def ref_memory_def ref_library_def unlock_alloc
        split: sum.splits Alloc.splits prod.splits)
next
  case (FreeSeg a k)
  with assms show ?thesis
    by (auto simp: tx_free_def assert_mode_def ref_memory_def ref_library_def unlock_free
        split: sum.splits prod.splits if_splits)
qed (use assms in \<open>auto simp: tx_read_def ref_read_def\<close>)

abbreviation lock_of :: "addr \<Rightarrow> ref_heap \<Rightarrow> rwlock option" where
  "lock_of sh h \<equiv> map_option rlock (rregions h sh)"

lemma lock_of_frame [simp]:
  "lock_of sh (put_node p x h) = lock_of sh h"
  by (simp add: put_node_def)

lemma set_node_lock: "set_prev p q h = Inr h' \<Longrightarrow> lock_of sh h' = lock_of sh h"
  "set_next p q h = Inr h' \<Longrightarrow> lock_of sh h' = lock_of sh h"
  by (auto simp: set_prev_def set_next_def and_then_Inr)

lemma ref_alloc_lock:
  assumes "ref_alloc pick sh sz h = Inr (r, p, h')"
  shows "lock_of sh h' = lock_of sh h"
proof (cases "get_ref sh h")
  case (Inr x)
  obtain m h1 where m: "posix_memalign pick (node_align (ralign x)) (node_size + sz) h = (m, h1)"
    by (metis surj_pair)
  moreover have "rregions h1 = rregions h" "rregions h sh = Some x"
    using m Inr by (auto simp: posix_memalign_def Let_def get_ref_def split: if_splits option.splits)
  ultimately show ?thesis
    using Inr assms
    by (cases m) (auto simp: ref_alloc_def and_then_Inr Let_def put_ref_def)
qed (use assms in \<open>simp add: ref_alloc_def\<close>)

lemma ref_free_lock:
  assumes "ref_free sh p h = Inr (ok, h')"
  shows "lock_of sh h' = lock_of sh h"
  using assms
  by (auto simp: ref_free_def and_then_Inr Let_def raw_free_def get_ref_def put_ref_def
      split: if_splits option.splits dest!: set_node_lock [of _ _ _ _ sh])

lemma body_step_lock:
  assumes "body_step (ref_memory env sh st n) (ref_tx ro) p h = (q, h')"
  shows "lock_of sh h' = lock_of sh h"
proof (cases p)
  case (AllocSeg sz k)
  with assms ref_alloc_lock [of "rpick env" sh sz h] show ?thesis
    by (auto simp: tx_alloc_def assert_mode_def ref_memory_def ref_library_def
        split: sum.splits Alloc.splits prod.splits)
next
  case (FreeSeg a k)
  with assms ref_free_lock [of sh a h] show ?thesis
    by (auto simp: tx_free_def assert_mode_def ref_memory_def ref_library_def
        split: sum.splits prod.splits if_splits)
qed (use assms in \<open>auto simp: tx_read_def ref_read_def tx_write_def ref_write_def assert_mode_def\<close>)

lemma body_step_reads_only:
  "reads_only p \<Longrightarrow> body_step (ref_memory env sh st n) tx p h = (q, h') \<Longrightarrow> h' = h \<and> reads_only q"
  by (cases p) (auto simp: tx_read_def ref_read_def)

subsection \<open>The invariant\<close>

definition readers :: "nat \<Rightarrow> (nat \<Rightarrow> 'a client) \<Rightarrow> nat set" where
  "readers n cl = {i. i < n \<and> (\<exists>p q. cl i = In_tx True p q)}"

fun lock_agrees :: "nat \<Rightarrow> (nat \<Rightarrow> 'a client) \<Rightarrow> rwlock \<Rightarrow> bool" where
  "lock_agrees n cl Unlocked \<longleftrightarrow> (\<forall>i < n. cl i = Outside_tx)"
| "lock_agrees n cl (SharedBy k) \<longleftrightarrow> k = card (readers n cl) \<and> 0 < k \<and>
     (\<forall>i < n. i \<in> readers n cl \<or> cl i = Outside_tx)"
| "lock_agrees n cl Exclusive \<longleftrightarrow>
     (\<exists>i < n. (\<exists>p q. cl i = In_tx False p q) \<and> (\<forall>j < n. j \<noteq> i \<longrightarrow> cl j = Outside_tx))"

definition results :: "'a ref_log \<Rightarrow> (exn + 'a) list" where
  "results log = map (\<lambda>(ro, p, r). r) log"

definition serial_state ::
  "ref_heap TransactionalMemory \<Rightarrow> nat \<Rightarrow> ref_heap \<Rightarrow> ref_heap \<Rightarrow> (nat \<Rightarrow> 'a client) \<Rightarrow> 'a ref_log \<Rightarrow>
   rwlock \<Rightarrow> ref_heap \<Rightarrow> bool" where
  "serial_state tm n h0 h cl log l hs \<longleftrightarrow>
     lock_of (shared tm) h = Some l \<and> lock_agrees n cl l \<and>
     replay tm log (unlock_ref (shared tm) h0) = (results log, hs) \<and>
     (l \<noteq> Exclusive \<longrightarrow> unlock_ref (shared tm) h = hs) \<and>
     (\<forall>i < n. \<forall>ro p q. cl i = In_tx ro p q \<longrightarrow> (ro \<longrightarrow> reads_only q) \<and>
        alone tm ro p hs = alone tm ro q (unlock_ref (shared tm) h))"

lemma finite_readers [simp]: "finite (readers n cl)"
  by (rule finite_subset [of _ "{..<n}"]) (auto simp: readers_def)

lemma readers_upd:
  "i < n \<Longrightarrow> readers n (cl(i := c)) =
     (case c of In_tx True p q \<Rightarrow> insert i (readers n cl) | _ \<Rightarrow> readers n cl - {i})"
  by (auto simp: readers_def split: client.splits bool.splits)

lemma replay_bodies_append:
  "replay tm (log @ [(ro, p, r)]) h =
     (let (qs, h1) = replay tm log h; (q, h2) = alone tm ro p h1 in (qs @ [q], h2))"
proof (induction log arbitrary: h)
  case (Cons e log)
  then show ?case by (cases e) (simp split: prod.splits)
qed (simp split: prod.splits)

text \<open>How the lock follows the clients.\<close>

lemma lock_begin:
  assumes "lock_agrees n cl l" "i < n" "cl i = Outside_tx"
    "(if ro then shared_lock_acquire_shared err l else shared_lock_acquire err l) = Some (True, l')"
  shows "lock_agrees n (cl(i := In_tx ro p q)) l' \<and> l \<noteq> Exclusive"
proof -
  have "i \<notin> readers n cl" using assms(3) by (simp add: readers_def)
  moreover have "readers n cl = {}" if "l = Unlocked" using that assms(1) by (auto simp: readers_def)
  ultimately show ?thesis
    using assms
    by (cases l)
      (auto simp: shared_lock_acquire_def shared_lock_acquire_shared_def readers_upd split: if_splits)
qed

lemma exclusive_one:
  assumes "lock_agrees n cl Exclusive" "i < n" "cl i = In_tx ro p q"
  shows "\<not> ro \<and> (\<forall>j < n. j \<noteq> i \<longrightarrow> cl j = Outside_tx)"
proof -
  obtain k p' q' where k: "k < n" "cl k = In_tx False p' q'" "\<forall>j < n. j \<noteq> k \<longrightarrow> cl j = Outside_tx"
    using assms(1) by auto
  then have "k = i" using assms(2,3) by fastforce
  with k assms(3) show ?thesis by auto
qed

lemma shared_one:
  assumes "lock_agrees n cl (SharedBy k)" "i < n" "cl i = In_tx ro p q"
  shows "ro \<and> i \<in> readers n cl"
proof -
  have "i \<in> readers n cl" using assms by auto
  then show ?thesis using assms(3) by (simp add: readers_def)
qed

lemma lock_access:
  "lock_agrees n cl l \<Longrightarrow> i < n \<Longrightarrow> cl i = In_tx ro p q \<Longrightarrow> lock_agrees n (cl(i := In_tx ro p q')) l"
proof (cases l)
  case (SharedBy k)
  assume "lock_agrees n cl l" "i < n" "cl i = In_tx ro p q"
  moreover from this SharedBy have "ro" by (auto simp: readers_def)
  moreover from calculation have "insert i (readers n cl) = readers n cl" by (auto simp: readers_def)
  ultimately show ?thesis using SharedBy by (auto simp: readers_upd)
next
  case Exclusive
  assume a: "lock_agrees n cl l" "i < n" "cl i = In_tx ro p q"
  have "\<not> ro" "\<forall>j < n. j \<noteq> i \<longrightarrow> cl j = Outside_tx"
    using exclusive_one [OF a(1) [unfolded Exclusive] a(2,3)] by blast+
  then show ?thesis unfolding Exclusive lock_agrees.simps
    by (intro exI [of _ i] conjI) (simp_all add: a(2))
qed auto

lemma lock_end:
  assumes "lock_agrees n cl l" "i < n" "cl i = In_tx ro p q"
  obtains l' where "rwlock_unlock l = Some l'" "lock_agrees n (cl(i := Outside_tx)) l'"
    "l \<noteq> Exclusive \<Longrightarrow> l' \<noteq> Exclusive" "l' \<noteq> Exclusive"
proof (cases l)
  case (SharedBy k)
  then have i: "i \<in> readers n cl" using assms by (auto simp: readers_def)
  then have c: "card (readers n cl - {i}) = k - 1" using SharedBy assms(1) by (simp add: card_Diff_singleton)
  have out: "cl j = Outside_tx" if "j < n" "j \<notin> readers n cl" for j using that SharedBy assms(1) by auto
  show ?thesis
  proof (cases "k \<le> 1")
    case True
    then have "readers n cl = {i}" using SharedBy assms(1) i by (auto simp: card_Suc_eq le_Suc_eq)
    then have "lock_agrees n (cl(i := Outside_tx)) Unlocked" using out by auto
    then show ?thesis using that [of Unlocked] SharedBy True by (simp add: rwlock_unlock_def del: lock_agrees.simps)
  next
    case False
    then have "lock_agrees n (cl(i := Outside_tx)) (SharedBy (k - 1))"
      using c out assms(2) by (auto simp: readers_upd)
    then show ?thesis
      using that [of "SharedBy (k - 1)"] SharedBy False by (simp add: rwlock_unlock_def del: lock_agrees.simps)
  qed
next
  case Exclusive
  then have "\<forall>j < n. j \<noteq> i \<longrightarrow> cl j = Outside_tx" using exclusive_one [of n cl i ro p q] assms by blast
  then have "lock_agrees n (cl(i := Outside_tx)) Unlocked" by simp
  then show ?thesis using that Exclusive by (simp add: rwlock_unlock_def)
qed (use assms in auto)

text \<open>A writer is alone.\<close>

lemma writer_alone:
  assumes "lock_agrees n cl l" "i < n" "cl i = In_tx False p q"
  shows "l = Exclusive \<and> (\<forall>j < n. j \<noteq> i \<longrightarrow> cl j = Outside_tx)"
proof (cases l)
  case Unlocked
  then show ?thesis using assms by simp
next
  case (SharedBy k)
  then show ?thesis using shared_one [of n cl k i False p q] assms by blast
next
  case Exclusive
  then show ?thesis using exclusive_one [of n cl i False p q] assms by blast
qed

lemma reader_shared: "lock_agrees n cl l \<Longrightarrow> i < n \<Longrightarrow> cl i = In_tx True p q \<Longrightarrow> l \<noteq> Exclusive"
  using exclusive_one [of n cl i True p q] by blast

lemma ref_begin_cases:
  assumes "ref_begin err sh ro h = Inr (Some (tx, h'))" "lock_of sh h = Some l"
  obtains "tx = invalid_tx" "h' = h"
  | l' where "tx \<noteq> invalid_tx" "lock_of sh h' = Some l'" "unlock_ref sh h' = unlock_ref sh h"
      "(if ro then shared_lock_acquire_shared err l else shared_lock_acquire err l) = Some (True, l')"
proof -
  obtain r where r: "rregions h sh = Some r" "rlock r = l" using assms(2) by auto
  have ids: "read_only_tx \<noteq> invalid_tx" "read_write_tx \<noteq> invalid_tx"
    by (simp_all add: read_only_tx_def read_write_tx_def invalid_tx_def)
  obtain ok l' where a: "(if ro then shared_lock_acquire_shared err l else shared_lock_acquire err l) = Some (ok, l')"
    using assms(1) r by (auto simp: ref_begin_def get_ref_def split: if_splits option.splits prod.splits)
  show ?thesis
  proof (cases ok)
    case False
    then have "tx = invalid_tx \<and> h' = h"
      using assms(1) r a by (cases ro) (auto simp: ref_begin_def get_ref_def)
    then show ?thesis using that(1) by blast
  next
    case True
    then have "h' = put_ref sh (r\<lparr>rlock := l'\<rparr>) h \<and> tx \<noteq> invalid_tx"
      using assms(1) r a ids by (cases ro) (auto simp: ref_begin_def get_ref_def)
    then show ?thesis
      using that(2) [of l'] True a r(1) by (simp add: put_ref_def unlock_put_lock [unfolded put_ref_def])
  qed
qed

lemma ref_end_lock:
  assumes "ref_end sh tx h = Inr (ok, h')" "lock_of sh h = Some l" "rwlock_unlock l = Some l'"
  shows "lock_of sh h' = Some l' \<and> unlock_ref sh h' = unlock_ref sh h"
  using assms
  by (auto simp: ref_end_def get_ref_def shared_lock_release_def shared_lock_release_shared_def put_ref_def
      unlock_put_lock [unfolded put_ref_def] split: if_splits option.splits)

lemma reach_serial:
  assumes "ref_reach (ref_memory env sh st len) n h0 h cl log" "lock_of sh h0 = Some Unlocked"
  shows "\<exists>l hs. serial_state (ref_memory env sh st len) n h0 h cl log l hs"
  using assms(1)
proof (induction rule: ref_reach.induct)
  case reach_start
  then show ?case using assms(2) by (auto simp: serial_state_def results_def)
next
  case (reach_begin h cl log i ro p err tx h')
  then obtain l hs where s: "serial_state (ref_memory env sh st len) n h0 h cl log l hs" by blast
  have bg: "ref_begin err sh ro h = Inr (Some (tx, h'))" "lock_of sh h = Some l" "lock_agrees n cl l"
    using reach_begin.hyps(5) s by (simp_all add: serial_state_def)
  show ?case
  proof (rule ref_begin_cases [OF bg(1,2)])
    assume "tx = invalid_tx" "h' = h"
    then show ?thesis using s by auto
  next
    fix l' assume a: "tx \<noteq> invalid_tx" "lock_of sh h' = Some l'" "unlock_ref sh h' = unlock_ref sh h"
      "(if ro then shared_lock_acquire_shared err l else shared_lock_acquire err l) = Some (True, l')"
    note lb = lock_begin [OF bg(3) reach_begin.hyps(2,3) a(4), of p p]
    then have "unlock_ref sh h = hs" using s by (simp add: serial_state_def)
    then have "serial_state (ref_memory env sh st len) n h0 h' (cl(i := In_tx ro p p)) log l' hs"
      using s lb a(2,3) reach_begin.hyps(4) by (auto simp: serial_state_def)
    then show ?thesis unfolding if_not_P [OF a(1)] by blast
  qed
next
  case (reach_access h cl log i ro p q q' h')
  let ?tm = "ref_memory env sh st len"
  obtain l hs where s: "serial_state ?tm n h0 h cl log l hs" using reach_access.IH by blast
  then have la: "lock_agrees n cl l" and lk: "lock_of sh h = Some l"
    and cli: "ro \<longrightarrow> reads_only q" "alone ?tm ro p hs = alone ?tm ro q (unlock_ref sh h)"
    using reach_access.hyps(2,3) by (auto simp: serial_state_def)
  have step: "alone ?tm ro p hs = alone ?tm ro q' (unlock_ref sh h')"
    using cli(2) alone_step [OF body_step_unlock [OF reach_access.hyps(4)]] by simp
  have lk': "lock_of sh h' = Some l" using body_step_lock [OF reach_access.hyps(4)] lk by simp
  note la' = lock_access [OF la reach_access.hyps(2,3), of q']
  have "serial_state ?tm n h0 h' (cl(i := In_tx ro p q')) log l hs"
  proof (cases ro)
    case True
    with cli(1) body_step_reads_only [OF _ reach_access.hyps(4)] have "h' = h" "reads_only q'" by simp_all
    with s la' step show ?thesis by (auto simp: serial_state_def)
  next
    case False
    then have "cl i = In_tx False p q" using reach_access.hyps(3) by simp
    from writer_alone [OF la reach_access.hyps(2) this]
    have "l = Exclusive" "\<And>j. j < n \<Longrightarrow> j \<noteq> i \<Longrightarrow> cl j = Outside_tx" by simp_all
    with s la' lk' step False show ?thesis by (auto simp: serial_state_def)
  qed
  then show ?case by blast
next
  case (reach_end h cl log i ro p q r h')
  let ?tm = "ref_memory env sh st len"
  obtain l hs where s: "serial_state ?tm n h0 h cl log l hs" using reach_end.IH by blast
  then have la: "lock_agrees n cl l" and lk: "lock_of sh h = Some l"
    and run: "alone ?tm ro p hs = alone ?tm ro q (unlock_ref sh h)"
    using reach_end.hyps(2,3) by (auto simp: serial_state_def)
  have res: "alone ?tm ro p hs = (r, unlock_ref sh h)" using run alone_result [OF reach_end.hyps(4)] by simp
  obtain l' where l': "rwlock_unlock l = Some l'" "lock_agrees n (cl(i := Outside_tx)) l'" "l' \<noteq> Exclusive"
    using lock_end [OF la reach_end.hyps(2,3)] by metis
  have en: "lock_of sh h' = Some l'" "unlock_ref sh h' = unlock_ref sh h"
    using ref_end_lock [OF _ lk l'(1)] reach_end.hyps(5) by auto
  have rep: "replay ?tm (log @ [(ro, p, r)]) (unlock_ref sh h0) = (results (log @ [(ro, p, r)]), unlock_ref sh h)"
    using s res by (simp add: replay_bodies_append serial_state_def results_def)
  have others: "alone ?tm ro' p' (unlock_ref sh h) = alone ?tm ro' q' (unlock_ref sh h)"
    if j: "j < n" "j \<noteq> i" "cl j = In_tx ro' p' q'" for j ro' p' q'
  proof -
    have "l \<noteq> Exclusive"
    proof
      assume "l = Exclusive"
      with la have "lock_agrees n cl Exclusive" by simp
      from exclusive_one [OF this reach_end.hyps(2,3)] j(1,2) have "cl j = Outside_tx" by blast
      with j(3) show False by simp
    qed
    then have "unlock_ref sh h = hs" using s by (simp add: serial_state_def)
    then show ?thesis using s j by (auto simp: serial_state_def)
  qed
  have "serial_state ?tm n h0 h' (cl(i := Outside_tx)) (log @ [(ro, p, r)]) l' (unlock_ref sh h)"
    using s en l'(2) rep others by (auto simp: serial_state_def)
  then show ?case by blast
qed

section \<open>The property\<close>

text \<open>C31: the reference is serial. However its clients interleave, the transactions that have ended,
  run one after the other by the same code in the order of their ends, give the same results;
  whenever no read-write transaction is under way the heap is the one they leave; and a
  read-write transaction under way is the only transaction.\<close>

theorem reference_serializable:
  assumes "ref_reach (ref_memory env sh st len) n h0 h cl log" "lock_of sh h0 = Some Unlocked"
  shows "\<exists>hs. replay (ref_memory env sh st len) log (unlock_ref sh h0) = (results log, hs) \<and>
    ((\<forall>i < n. \<forall>p q. cl i \<noteq> In_tx False p q) \<longrightarrow> unlock_ref sh h = hs) \<and>
    (\<forall>i < n. \<forall>p q. cl i = In_tx False p q \<longrightarrow> (\<forall>j < n. j \<noteq> i \<longrightarrow> cl j = Outside_tx))"
proof -
  obtain l hs where s: "serial_state (ref_memory env sh st len) n h0 h cl log l hs"
    using reach_serial [OF assms] by blast
  then have la: "lock_agrees n cl l" by (simp add: serial_state_def)
  have "l \<noteq> Exclusive" if "\<forall>i < n. \<forall>p q. cl i \<noteq> In_tx False p q" using la that by (cases l) auto
  moreover have "\<forall>j < n. j \<noteq> i \<longrightarrow> cl j = Outside_tx" if "i < n" "cl i = In_tx False p q" for i p q
    using writer_alone [OF la that] by blast
  ultimately show ?thesis using s by (intro exI [of _ hs]) (auto simp: serial_state_def)
qed

text \<open>A client writes a word and ends, another reads it.\<close>

definition demo_ref_env :: ref_env where
  "demo_ref_env = \<lparr>rpick = demo_pick, rpick_region = (\<lambda>_. 16), rlock_err = (\<lambda>_. 0)\<rparr>"

lemma demo_ref_reach:
  "\<exists>h0 h. ref_reach (ref_memory demo_ref_env 16 4096 64) 2 h0 h (\<lambda>_. Outside_tx)
      [(False, WriteWord 4096 5 (Done (7 :: nat)), Inr 7)] \<and> lock_of 16 h0 = Some Unlocked"
proof -
  let ?tm = "ref_memory demo_ref_env 16 4096 64" and ?p = "WriteWord 4096 5 (Done (7 :: nat))"
  let ?r = "\<lparr>rlock = Unlocked, rstart = 4096, allocs = 0, rsize = 64, ralign = 8\<rparr>"
  let ?h0 = "\<lparr>rmem = (\<lambda>_. 0), rblocks = [4096 \<mapsto> 64], rnodes = Map.empty, rregions = [16 \<mapsto> ?r], rcalls = 1\<rparr>"
  let ?h1 = "put_ref 16 (?r\<lparr>rlock := Exclusive\<rparr>) ?h0"
  let ?h2 = "?h1\<lparr>rmem := store_bytes (rmem ?h1) 4096 (encode 5)\<rparr>"
  have ids: "read_write_tx \<noteq> invalid_tx" "read_write_tx \<noteq> read_only_tx"
    by (simp_all add: read_only_tx_def read_write_tx_def invalid_tx_def)
  have 0: "ref_reach ?tm 2 ?h0 ?h0 (\<lambda>_. Outside_tx) []" by (rule reach_start)
  have b: "ref_begin 0 16 False ?h0 = Inr (Some (read_write_tx, ?h1))"
    by (simp add: ref_begin_def get_ref_def shared_lock_acquire_def)
  have 1: "ref_reach ?tm 2 ?h0 ?h1 ((\<lambda>_. Outside_tx)(0 := In_tx False ?p ?p)) []"
    using reach_begin [OF 0, of 0 False ?p 0 read_write_tx ?h1] b ids by simp
  have 2: "ref_reach ?tm 2 ?h0 ?h2 ((\<lambda>_. Outside_tx)(0 := In_tx False ?p (Done 7))) []"
    using reach_access [OF 1, of 0 False ?p ?p "Done 7" ?h2]
    by (simp add: tx_write_def ref_write_def assert_mode_def)
  have e: "ref_end 16 read_write_tx ?h2 = Inr (True, put_ref 16 ?r ?h2)"
    using ids by (simp add: ref_end_def get_ref_def put_ref_def shared_lock_release_def rwlock_unlock_def)
  have 3: "ref_reach ?tm 2 ?h0 (put_ref 16 ?r ?h2)
      (((\<lambda>_. Outside_tx)(0 := In_tx False ?p (Done 7)))(0 := Outside_tx)) ([] @ [(False, ?p, Inr 7)])"
    by (rule reach_end [OF 2, of 0 False ?p "Done 7"]) (use e in \<open>simp_all add: ref_tx_def\<close>)
  have "((\<lambda>_. Outside_tx)(0 := In_tx False ?p (Done 7)))(0 := Outside_tx) = (\<lambda>_ :: nat. Outside_tx)" by auto
  note 3 = 3 [unfolded this append_Nil]
  have lk: "lock_of 16 ?h0 = Some Unlocked" by simp
  show ?thesis by (intro exI conjI) (rule 3, rule lk)
qed

theorem reference_serializable_witness:
  "\<exists>h0 h hs. ref_reach (ref_memory demo_ref_env 16 4096 64) 2 h0 h (\<lambda>_. Outside_tx)
      [(False, WriteWord 4096 5 (Done (7 :: nat)), Inr 7)] \<and>
    replay (ref_memory demo_ref_env 16 4096 64) [(False, WriteWord 4096 5 (Done 7), Inr (7 :: nat))] (unlock_ref 16 h0)
      = ([Inr 7], hs) \<and> unlock_ref 16 h = hs"
proof -
  obtain h0 h where h: "ref_reach (ref_memory demo_ref_env 16 4096 64) 2 h0 h (\<lambda>_. Outside_tx)
      [(False, WriteWord 4096 5 (Done (7 :: nat)), Inr 7)]" "lock_of 16 h0 = Some Unlocked"
    using demo_ref_reach by blast
  from reference_serializable [OF h] h(1) show ?thesis by (auto simp: results_def simp del: replay.simps)
qed

end
