(* ===== verification/Reference_Agree.thy ===== *)
theory Reference_Agree
  imports Reference_Client Bank_Theorems
begin

text \<open>
  Two libraries, one client: \<open>reference/tm.c\<close> and \<open>394984/tm.cpp\<close> give the client layer of the
  grader the same results and the same memory, for transactions that read and write words.
\<close>

section \<open>Bodies and runs\<close>

text \<open>A body that neither allocates nor frees.\<close>

primrec no_alloc :: "'a prog \<Rightarrow> bool" where
  "no_alloc (Done v) \<longleftrightarrow> True"
| "no_alloc (Throw e) \<longleftrightarrow> True"
| "no_alloc (ReadWord a k) \<longleftrightarrow> (\<forall>v. no_alloc (k v))"
| "no_alloc (WriteWord a v k) \<longleftrightarrow> no_alloc k"
| "no_alloc (AllocSeg sz k) \<longleftrightarrow> False"
| "no_alloc (FreeSeg p k) \<longleftrightarrow> False"

lemma no_alloc_deterministic:
  "atomically p \<sigma> r \<sigma>' \<Longrightarrow> no_alloc p \<Longrightarrow> atomically p \<sigma> r2 \<sigma>2 \<Longrightarrow> r2 = r \<and> \<sigma>2 = \<sigma>'"
  by (induction arbitrary: r2 \<sigma>2 rule: atomically.induct) auto

lemma no_alloc_words: "atomically p \<sigma> r \<sigma>' \<Longrightarrow> no_alloc p \<Longrightarrow> fst \<sigma>' = fst \<sigma>"
  by (induction rule: atomically.induct) (auto simp: set_word_def)

text \<open>Transactions one after the other, with their outcomes.\<close>

inductive client_runs ::
  "'s TransactionalMemory \<Rightarrow> (bool \<times> 'a prog) list \<Rightarrow> 's \<Rightarrow> 'a outcome list \<Rightarrow> 's \<Rightarrow> bool" for tm where
  runs_none: "client_runs tm [] s [] s"
| runs_next: "transactional tm ro p s = Some (r, s1) \<Longrightarrow> client_runs tm ps s1 rs s2 \<Longrightarrow>
    client_runs tm ((ro, p) # ps) s (r # rs) s2"

inductive_cases client_runsE: "client_runs tm ((ro, p) # ps) s rs s2"

text \<open>Bodies a client may run in this order from a store: they touch valid words only.\<close>

fun safe_runs :: "(bool \<times> 'a prog) list \<Rightarrow> store \<Rightarrow> bool" where
  "safe_runs [] \<sigma> \<longleftrightarrow> True"
| "safe_runs ((ro, p) # ps) \<sigma> \<longleftrightarrow> no_alloc p \<and> (ro \<longrightarrow> reads_only p) \<and> safe p \<sigma> \<and>
     (\<forall>r \<sigma>'. atomically p \<sigma> r \<sigma>' \<longrightarrow> safe_runs ps \<sigma>')"

text \<open>What the reference holds in the words of its first segment.\<close>

definition ref_store :: "addr set \<Rightarrow> ref_heap \<Rightarrow> store" where
  "ref_store A h = contents A (\<lambda>a. load_bytes (rmem h) a 8)"

lemma width_8: "width_ok 8"
  by (simp add: width_ok_def)

lemma ref_store_write:
  assumes "a \<in> A" "\<forall>a \<in> A. word_aligned 8 a"
  shows "ref_store A (h\<lparr>rmem := store_bytes (rmem h) a (encode v)\<rparr>) = set_word a v (ref_store A h)"
proof -
  have "load_bytes (store_bytes (rmem h) a (encode v)) b 8 = (if a = b then encode v else load_bytes (rmem h) b 8)"
    if "b \<in> A" for b
    using byte_words.ld_st [of 8 a b "encode v" "rmem h"] that assms width_8 by simp
  then show ?thesis using assms(1) by (auto simp: ref_store_def contents_def set_word_def fun_eq_iff)
qed

lemma ref_body_atomic:
  assumes "no_alloc p" "safe p (ref_store A h)" "\<forall>a \<in> A. word_aligned 8 a"
  shows "\<exists>r h'. run_body (ref_memory env sh st n) p (ref_tx ro) h = (r, ref_tx ro, h') \<and>
    atomically p (ref_store A h) r (ref_store A h') \<and> rregions h' = rregions h"
  using assms
proof (induction p arbitrary: h)
  case (ReadWord a k)
  have "snd (ref_store A h) a = decode (load_bytes (rmem h) a 8)"
    using ReadWord.prems by (simp add: ref_store_def contents_def)
  then show ?case
    using ReadWord.IH [OF rangeI, of "decode (load_bytes (rmem h) a 8)" h] ReadWord.prems
    by (simp add: tx_read_def ref_read_def)
next
  case (WriteWord a v k)
  let ?h = "h\<lparr>rmem := store_bytes (rmem h) a (encode v)\<rparr>"
  have "a \<in> A" using WriteWord.prems(2) by (simp add: ref_store_def contents_def)
  then have "ref_store A ?h = set_word a v (ref_store A h)" using WriteWord.prems(3) by (rule ref_store_write)
  then show ?case
    using WriteWord.IH [of ?h] WriteWord.prems
    by (auto simp: tx_write_def ref_write_def assert_mode_def)
qed auto

text \<open>On an unlocked region nothing is ever retried.\<close>

definition ref_idle :: "ref_env \<Rightarrow> addr \<Rightarrow> ref_heap \<Rightarrow> bool" where
  "ref_idle env sh h \<longleftrightarrow> lock_of sh h = Some Unlocked \<and> (\<forall>h. rlock_err env h = 0)"

lemma ref_transactional:
  assumes "ref_idle env sh h" "no_alloc p" "safe p (ref_store A h)" "\<forall>a \<in> A. word_aligned 8 a"
  shows "\<exists>q h'. transactional (ref_memory env sh st n) ro p h =
      Some (case q of Inr v \<Rightarrow> Returned v | Inl e \<Rightarrow> Thrown e, h') \<and>
    atomically p (ref_store A h) q (ref_store A h') \<and> ref_idle env sh h'"
proof -
  let ?tm = "ref_memory env sh st n"
  obtain r where r: "rregions h sh = Some r" "rlock r = Unlocked" using assms(1) by (auto simp: ref_idle_def)
  let ?l = "if ro then SharedBy 1 else Exclusive"
  let ?h = "put_ref sh (r\<lparr>rlock := ?l\<rparr>) h"
  have ids: "read_only_tx \<noteq> invalid_tx" "read_write_tx \<noteq> invalid_tx" "read_write_tx \<noteq> read_only_tx"
    by (simp_all add: read_only_tx_def read_write_tx_def invalid_tx_def)
  have begin1: "tx_construct ?tm ro h = (Inr (ref_tx ro), ?h)"
    using assms(1) r ids
    by (simp add: tx_construct_def ref_memory_def ref_library_def ref_begin_def get_ref_def ref_idle_def
        shared_lock_acquire_def shared_lock_acquire_shared_def ref_tx_def)
  have store: "ref_store A (put_ref sh x g) = ref_store A g" for x g by (simp add: ref_store_def put_ref_def)
  obtain q h1 where body: "run_body ?tm p (ref_tx ro) ?h = (q, ref_tx ro, h1)"
    "atomically p (ref_store A h) q (ref_store A h1)" "rregions h1 = rregions ?h"
    using ref_body_atomic [OF assms(2) _ assms(4), of ?h env sh st n ro] assms(3) by (auto simp: store)
  let ?h2 = "put_ref sh (r\<lparr>rlock := Unlocked\<rparr>) h1"
  have end1: "tx_destroy ?tm (ref_tx ro) h1 = (True, ?h2)"
    using body(3) ids
    by (simp add: tx_destroy_def ref_tx_def ref_memory_def ref_library_def ref_end_def get_ref_def put_ref_def
        shared_lock_release_def shared_lock_release_shared_def rwlock_unlock_def)
  let ?r = "case q of Inr v \<Rightarrow> Returned v | Inl e \<Rightarrow> Thrown e"
  have "attempt ?tm ro p h = (?r, ?h2)"
    using begin1 body(1) end1 by (simp add: attempt_def split: sum.split)
  moreover have "q \<noteq> Inl TransactionRetry" using body(2) assms(3) by (rule calm_seq.atomically_no_retry)
  then have "\<not> is_retry ?r" by (auto simp: is_retry_def split: sum.splits exn.splits)
  ultimately have "transactional ?tm ro p h = Some (?r, ?h2)" by (subst transactional.simps) simp
  moreover have "ref_idle env sh ?h2" using assms(1) by (simp add: ref_idle_def put_ref_def)
  ultimately show ?thesis using body(2) store by metis
qed

lemma libraries_agree_once:
  assumes "region_ready env sh h" "seq_committed sh h = ref_store A rh" "ref_idle renv rsh rh"
    and "\<forall>a \<in> A. word_aligned 8 a" "no_alloc p" "ro \<longrightarrow> reads_only p" "safe p (ref_store A rh)"
    and "transactional (seq_memory env sh st len) ro p h = Some (r, h')"
    and "r \<noteq> Thrown TransactionBegin" "r \<noteq> Terminated"
  shows "\<exists>rh' q. transactional (ref_memory renv rsh st len) ro p rh = Some (r, rh') \<and>
    seq_committed sh h' = ref_store A rh' \<and> ref_idle renv rsh rh' \<and> region_ready env sh h' \<and>
    atomically p (ref_store A rh) q (ref_store A rh')"
proof -
  have safe: "safe p (seq_committed sh h)" using assms(2,7) by simp
  have "region_ready env sh h' \<and> (\<exists>q. atomically p (seq_committed sh h) q (seq_committed sh h') \<and>
      r = (case q of Inr v \<Rightarrow> Returned v | Inl e \<Rightarrow> Thrown e))"
    using seq.transactional_atomic [OF assms(8,1,6) safe] assms(9,10)
    by (cases r) (auto simp: seq.attempted_def is_retry_def split: exn.splits)
  then obtain q where q: "atomically p (ref_store A rh) q (seq_committed sh h')" "region_ready env sh h'"
    "r = (case q of Inr v \<Rightarrow> Returned v | Inl e \<Rightarrow> Thrown e)"
    unfolding assms(2) by blast
  obtain q2 rh' where r2: "transactional (ref_memory renv rsh st len) ro p rh =
      Some (case q2 of Inr v \<Rightarrow> Returned v | Inl e \<Rightarrow> Thrown e, rh')"
    "atomically p (ref_store A rh) q2 (ref_store A rh')" "ref_idle renv rsh rh'"
    using ref_transactional [OF assms(3,5,7,4)] by blast
  have "q2 = q \<and> ref_store A rh' = seq_committed sh h'"
    by (rule no_alloc_deterministic [OF q(1) assms(5) r2(2)])
  then show ?thesis using q r2 by auto
qed

lemma runs_agree:
  assumes "client_runs (seq_memory env sh st len) ps h rs h'" "region_ready env sh h"
    and "seq_committed sh h = ref_store A rh" "ref_idle renv rsh rh" "\<forall>a \<in> A. word_aligned 8 a"
    and "safe_runs ps (ref_store A rh)" "\<forall>r \<in> set rs. r \<noteq> Thrown TransactionBegin \<and> r \<noteq> Terminated"
  shows "\<exists>rh'. client_runs (ref_memory renv rsh st len) ps rh rs rh' \<and> seq_committed sh h' = ref_store A rh'"
  using assms
proof (induction arbitrary: rh rule: client_runs.induct)
  case (runs_none s)
  then show ?case by (auto intro: client_runs.runs_none)
next
  case (runs_next ro p s r s1 ps rs s2)
  have "no_alloc p" "ro \<longrightarrow> reads_only p" "safe p (ref_store A rh)"
    "r \<noteq> Thrown TransactionBegin" "r \<noteq> Terminated"
    using runs_next.prems(5,6) by simp_all
  then obtain rh1 q where rh1: "transactional (ref_memory renv rsh st len) ro p rh = Some (r, rh1)"
    "seq_committed sh s1 = ref_store A rh1" "ref_idle renv rsh rh1" "region_ready env sh s1"
    "atomically p (ref_store A rh) q (ref_store A rh1)"
    using libraries_agree_once [OF runs_next.prems(1-4) _ _ _ runs_next.hyps(1)] by blast
  have "safe_runs ps (ref_store A rh1)"
    using runs_next.prems(5) rh1(5) unfolding safe_runs.simps by blast
  then obtain rh' where "client_runs (ref_memory renv rsh st len) ps rh1 rs rh'"
    "seq_committed sh s2 = ref_store A rh'"
    using runs_next.IH [OF rh1(4,2,3) runs_next.prems(4)] runs_next.prems(6) by auto
  then show ?case using client_runs.runs_next [OF rh1(1)] by blast
qed

section \<open>The property\<close>

text \<open>C32: the two libraries agree. From equal memories, a client that runs transactions one after
  the other through the retry loop gets from the reference exactly the outcomes it gets from
  the library under test, and the memories are equal again, whatever allocators, iteration
  orders and spurious failures do on the tested side. The bodies neither allocate nor free and
  touch valid words only; the run has no failed begin and no termination.\<close>

theorem libraries_agree:
  assumes "client_runs (seq_memory env sh st len) ps h rs h'" "region_ready env sh h"
    and "seq_committed sh h = ref_store A rh" "ref_idle renv rsh rh" "\<forall>a \<in> A. word_aligned 8 a"
    and "safe_runs ps (ref_store A rh)" "\<forall>r \<in> set rs. r \<noteq> Thrown TransactionBegin \<and> r \<noteq> Terminated"
  shows "\<exists>rh'. client_runs (ref_memory renv rsh st len) ps rh rs rh' \<and> seq_committed sh h' = ref_store A rh'"
  by (rule runs_agree [OF assms])

lemma decode_zeros: "decode (replicate n 0) = 0"
  by (induction n) simp_all

text \<open>The same body on a fresh region of either library.\<close>

lemma demo_words_aligned: "\<forall>a \<in> seg_words 4096 64. word_aligned 8 a"
proof
  fix a assume "a \<in> seg_words 4096 64"
  then obtain k where k: "k < 8" "a = 4096 + of_nat (8 * k)" by (auto simp: seg_words_def)
  then have "unat a = 4096 + 8 * k" by (simp add: unat_word_ariths unat_of_nat take_bit_nat_eq_self)
  moreover have "8 dvd 4096 + 8 * k" by (intro dvd_add) simp_all
  ultimately show "word_aligned 8 a" by (simp add: word_aligned_def)
qed

theorem libraries_agree_witness:
  "\<exists>rh h' rh'. client_runs (ref_memory demo_ref_env 16 4096 64) [(False, demo_body)] rh [Returned ()] rh' \<and>
    client_runs (seq_memory demo_env 16 4096 64) [(False, demo_body)] demo_heap [Returned ()] h' \<and>
    seq_committed 16 h' = ref_store (seg_words 4096 64) rh'"
proof -
  let ?A = "seg_words 4096 64"
  let ?r = "\<lparr>rlock = Unlocked, rstart = 4096, allocs = 0, rsize = 64, ralign = 8\<rparr>"
  let ?h = "\<lparr>rmem = (\<lambda>_. 0), rblocks = [4096 \<mapsto> 64], rnodes = Map.empty, rregions = [16 \<mapsto> ?r], rcalls = 1\<rparr>"
  have words: "seq_committed 16 demo_heap = (?A, \<lambda>_. 0)"
    using demo_bank_store by (simp add: zeroed_def words_at_def demo_bank_def segment_size_def)
  have "ref_store ?A ?h = (?A, \<lambda>_. 0)"
    by (simp add: ref_store_def contents_def load_bytes_def fun_eq_iff map_replicate_const decode_zeros)
  with words have eq: "seq_committed 16 demo_heap = ref_store ?A ?h" by simp
  have idle: "ref_idle demo_ref_env 16 ?h" by (simp add: ref_idle_def demo_ref_env_def)
  have in_A: "(4096 :: addr) \<in> ?A" "(4104 :: addr) \<in> ?A"
    unfolding seg_words_def by (rule image_eqI [of _ _ 0]; simp) (rule image_eqI [of _ _ 1]; simp)
  have wp: "wp demo_body (\<lambda>r \<sigma>'. r = Inr () \<and> True) (seq_committed 16 demo_heap)"
    using in_A words by (simp add: demo_body_def set_word_def)
  obtain h' where run: "transactional (seq_memory demo_env 16 4096 64) False demo_body demo_heap = Some (Returned (), h')"
    using demo_run [where R = "\<lambda>_. True", OF demo_calm [unfolded One_nat_def] wp] by blast
  have runs: "client_runs (seq_memory demo_env 16 4096 64) [(False, demo_body)] demo_heap [Returned ()] h'"
    by (rule client_runs.runs_next [OF run client_runs.runs_none])
  have safe: "safe_runs [(False, demo_body)] (ref_store ?A ?h)"
    using demo_safe eq by (simp add: demo_body_def)
  from libraries_agree [OF runs demo_ready eq idle demo_words_aligned safe] runs show ?thesis by auto
qed

end
