(* ===== verification/Counters.thy ===== *)
theory Counters
  imports Interleaving
begin

text \<open>
  \<open>sync-examples/counter1.c\<close> to \<open>counter4.c\<close>: four threads increase one counter \<open>RUNS\<close> times each.
  The counter stays below \<open>2 ^ 31\<close>, so \<open>int\<close> is its type.
\<close>

section \<open>The programs\<close>

definition RUNS :: nat where
  "RUNS = 4096 * 256"

definition THREADS :: nat where
  "THREADS = 4"

text \<open>Where a thread is: at the head of round \<open>r\<close>, about to store what it read, in the critical section, done.\<close>

datatype count_pc = Head nat | Store nat int | Critical nat | Unlock nat | Returned

text \<open>\<open>counter1.c\<close>: \<open>counter++\<close> is a read and a write, as its comment spells out.\<close>

fun counter1_step :: "nat \<Rightarrow> count_pc \<Rightarrow> int \<Rightarrow> count_pc \<times> int" where
  "counter1_step i (Head r) counter = (if r < RUNS then (Store r counter, counter) else (Returned, counter))"
| "counter1_step i (Store r local) counter = (Head (r + 1), local + 1)"
| "counter1_step i pc counter = (pc, counter)"

text \<open>\<open>counter2.c\<close>: the increment is under the lock.\<close>

fun counter2_step :: "nat \<Rightarrow> count_pc \<Rightarrow> lock_t \<times> int \<Rightarrow> count_pc \<times> lock_t \<times> int" where
  "counter2_step i (Head r) (lock, counter) =
     (if r < RUNS
      then (case lock_acquire i lock of
              None \<Rightarrow> (Head r, lock, counter) | Some lock' \<Rightarrow> (Critical r, lock', counter))
      else (Returned, lock, counter))"
| "counter2_step i (Critical r) (lock, counter) = (Store r counter, lock, counter)"
| "counter2_step i (Store r local) (lock, counter) = (Unlock r, lock, local + 1)"
| "counter2_step i (Unlock r) (lock, counter) = (Head (r + 1), lock_release lock, counter)"
| "counter2_step i Returned s = (Returned, s)"

text \<open>\<open>counter3.c\<close>: an atomic load and an atomic store.\<close>

fun counter3_step :: "nat \<Rightarrow> count_pc \<Rightarrow> int \<Rightarrow> count_pc \<times> int" where
  "counter3_step i (Head r) counter =
     (if r < RUNS then let read_copy = counter in (Store r read_copy, counter) else (Returned, counter))"
| "counter3_step i (Store r read_copy) counter = (Head (r + 1), read_copy + 1)"
| "counter3_step i pc counter = (pc, counter)"

text \<open>\<open>counter4.c\<close>: one atomic operation.\<close>

fun counter4_step :: "nat \<Rightarrow> count_pc \<Rightarrow> int \<Rightarrow> count_pc \<times> int" where
  "counter4_step i (Head r) counter = (if r < RUNS then (Head (r + 1), counter + 1) else (Returned, counter))"
| "counter4_step i pc counter = (pc, counter)"

text \<open>What \<open>main\<close> finds when all threads are joined.\<close>

definition counted_well :: "int \<Rightarrow> bool" where
  "counted_well counter \<longleftrightarrow> \<not> counter \<noteq> int RUNS * int THREADS"

definition count_start :: "'s \<Rightarrow> (count_pc, 's) threads_state" where
  "count_start s = (\<lambda>_. Head 0, s)"

section \<open>The correct ones\<close>

text \<open>The increments a thread has made.\<close>

fun made :: "count_pc \<Rightarrow> int" where
  "made (Head r) = int r"
| "made (Store r local) = int r"
| "made (Critical r) = int r"
| "made (Unlock r) = int r + 1"
| "made Returned = int RUNS"

fun in_bounds :: "count_pc \<Rightarrow> bool" where
  "in_bounds (Head r) \<longleftrightarrow> r \<le> RUNS"
| "in_bounds (Store r local) \<longleftrightarrow> r < RUNS"
| "in_bounds (Critical r) \<longleftrightarrow> r < RUNS"
| "in_bounds (Unlock r) \<longleftrightarrow> r < RUNS"
| "in_bounds Returned \<longleftrightarrow> True"

fun holds_lock :: "count_pc \<Rightarrow> bool" where
  "holds_lock (Head r) \<longleftrightarrow> False"
| "holds_lock Returned \<longleftrightarrow> False"
| "holds_lock pc \<longleftrightarrow> True"

definition total_made :: "(nat \<Rightarrow> count_pc) \<Rightarrow> int" where
  "total_made ls = (\<Sum>j < THREADS. made (ls j))"

definition counter4_inv :: "(nat \<Rightarrow> count_pc) \<Rightarrow> int \<Rightarrow> bool" where
  "counter4_inv ls counter \<longleftrightarrow> counter = total_made ls \<and>
     (\<forall>i < THREADS. in_bounds (ls i) \<and> (\<forall>r v. ls i \<noteq> Store r v \<and> ls i \<noteq> Critical r \<and> ls i \<noteq> Unlock r))"

definition counter2_inv :: "(nat \<Rightarrow> count_pc) \<Rightarrow> lock_t \<times> int \<Rightarrow> bool" where
  "counter2_inv ls s \<longleftrightarrow> (case s of (lock, counter) \<Rightarrow>
     counter = total_made ls \<and> excludes holds_lock THREADS ls lock \<and>
     (\<forall>i < THREADS. in_bounds (ls i) \<and> (\<forall>r v. ls i = Store r v \<longrightarrow> v = counter)))"

lemma total_made_upd: "i < THREADS \<Longrightarrow> total_made (ls(i := l)) = total_made ls - made (ls i) + made l"
  unfolding total_made_def by (rule sum_thread_upd)

lemma total_made_start: "total_made (\<lambda>_. Head 0) = 0"
  by (simp add: total_made_def)

interpretation counter4: thread_invariant counter4_step THREADS "count_start 0" counter4_inv
proof unfold_locales
  show "counter4_inv (fst (count_start 0)) (snd (count_start 0))"
    by (simp add: counter4_inv_def count_start_def total_made_start)
  fix ls counter i l' s'
  assume inv: "counter4_inv ls counter" and i: "i < THREADS" and st: "counter4_step i (ls i) counter = (l', s')"
  then show "counter4_inv (ls(i := l')) s'"
    by (cases "ls i") (auto simp: counter4_inv_def total_made_upd split: if_splits)
qed

lemma counter2_keep:
  assumes "counter2_inv ls (lock, counter)" "i < THREADS" "counter2_step i (ls i) (lock, counter) = (l', lock', counter')"
  shows "counter2_inv (ls(i := l')) (lock', counter')"
proof -
  have inv: "counter = total_made ls" "excludes holds_lock THREADS ls lock" "in_bounds (ls i)"
    "\<And>j. j < THREADS \<Longrightarrow> in_bounds (ls j)" "\<And>j r v. j < THREADS \<Longrightarrow> ls j = Store r v \<Longrightarrow> v = counter"
    using assms(1,2) by (auto simp: counter2_inv_def)
  have other: "ls j \<noteq> Store r v" if "holds_lock (ls i)" "j < THREADS" "j \<noteq> i" for j r v
    using excludes_other [OF inv(2) assms(2) that(2,1)] that(3) by (cases "ls j") auto
  show ?thesis
  proof (cases "ls i")
    case (Head r)
    show ?thesis
    proof (cases "r < RUNS \<and> lock_acquire i lock = None")
      case True
      then have "ls(i := l') = ls" "lock' = lock" "counter' = counter" using assms(3) Head by auto
      then show ?thesis using assms(1) by simp
    next
      case False
      then show ?thesis
        using Head assms(2,3) inv excludes_acquire [OF inv(2) assms(2)] excludes_stay [OF inv(2) assms(2)]
        by (auto simp: counter2_inv_def total_made_upd split: if_splits option.splits)
    qed
  next
    case (Store r v)
    then show ?thesis using assms(2,3) inv other excludes_stay [OF inv(2) assms(2)]
      by (auto simp: counter2_inv_def total_made_upd)
  next
    case (Critical r)
    then show ?thesis using assms(2,3) inv other excludes_stay [OF inv(2) assms(2)]
      by (auto simp: counter2_inv_def total_made_upd)
  next
    case (Unlock r)
    then show ?thesis using assms(2,3) inv other excludes_release [OF inv(2) assms(2)]
      by (auto simp: counter2_inv_def total_made_upd)
  next
    case Returned
    then have "ls(i := l') = ls" "lock' = lock" "counter' = counter" using assms(3) by auto
    then show ?thesis using assms(1) by simp
  qed
qed

interpretation counter2: thread_invariant counter2_step THREADS "count_start (lock_init, 0)" counter2_inv
proof unfold_locales
  show "counter2_inv (fst (count_start (lock_init, 0))) (snd (count_start (lock_init, 0)))"
    by (simp add: counter2_inv_def count_start_def total_made_start excludes_def lock_init_def)
  fix ls s i l' s'
  assume "counter2_inv ls s" "i < THREADS" "counter2_step i (ls i) s = (l', s')"
  then show "counter2_inv (ls(i := l')) s'" using counter2_keep by (cases s; cases s') blast
qed

lemma all_returned: "\<forall>i < THREADS. ls i = Returned \<Longrightarrow> counted_well (total_made ls)"
  by (simp add: counted_well_def total_made_def)

section \<open>The wrong ones\<close>

lemma counter1_is_counter3: "counter1_step = counter3_step"
proof (intro ext)
  fix i pc counter show "counter1_step i pc counter = counter3_step i pc counter"
    by (cases pc) simp_all
qed

text \<open>A thread that runs alone makes all its increments.\<close>

lemma counter3_alone:
  assumes "i < THREADS" "ls i = Head r" "r \<le> RUNS"
  shows "run_threads counter3_step THREADS (ls, counter) (ls(i := Returned), counter + int (RUNS - r))"
  using assms(2,3)
proof (induction "RUNS - r" arbitrary: r ls counter)
  case 0
  then show ?case by (intro run_one [OF assms(1)]) simp
next
  case (Suc k)
  then have r: "r < RUNS" by simp
  have 1: "run_threads counter3_step THREADS (ls, counter) (ls(i := Store r counter), counter)"
    by (rule run_one [OF assms(1)]) (use Suc.prems r in simp)
  have 2: "run_threads counter3_step THREADS (ls, counter) (ls(i := Store r counter, i := Head (r + 1)), counter + 1)"
    by (rule threads_step [OF 1 assms(1)]) simp
  have "run_threads counter3_step THREADS (ls(i := Head (r + 1)), counter + 1)
      (ls(i := Head (r + 1), i := Returned), counter + 1 + int (RUNS - (r + 1)))"
    by (rule Suc.hyps(1)) (use Suc.hyps(2) r in simp_all)
  moreover have "counter + 1 + int (RUNS - (r + 1)) = counter + int (RUNS - r)" using r by simp
  ultimately show ?case using run_threads_trans [OF _ 2] by simp
qed

section \<open>Properties\<close>

text \<open>The counters with a lock and with an atomic operation count. At every moment of every
  interleaving the counter is the number of increments made, at most one thread is inside the
  critical section of the lock, and when all threads have returned \<open>main\<close> finds
  \<open>RUNS * THREADS\<close>.\<close>

theorem synchronized_counters_count:
  assumes "run_threads counter2_step THREADS (count_start (lock_init, 0)) (ls, (lock, counter))"
    and "run_threads counter4_step THREADS (count_start 0) (ls', counter')"
  shows "counter = total_made ls \<and> excludes holds_lock THREADS ls lock \<and>
    ((\<forall>i < THREADS. ls i = Returned) \<longrightarrow> counted_well counter) \<and>
    counter' = total_made ls' \<and> ((\<forall>i < THREADS. ls' i = Returned) \<longrightarrow> counted_well counter')"
  using counter2.holds [OF assms(1)] counter4.holds [OF assms(2)] all_returned
  by (auto simp: counter2_inv_def counter4_inv_def)

theorem synchronized_counters_count_witness:
  "\<exists>ls counter. run_threads counter4_step THREADS (count_start 0) (ls, counter) \<and> counter = 1 \<and> total_made ls = 1"
proof -
  have "run_threads counter2_step THREADS (count_start (lock_init, 0)) (count_start (lock_init, 0))"
    by (rule threads_start)
  note 2 = this
  have 4: "run_threads counter4_step THREADS (count_start 0) ((\<lambda>_. Head 0)(0 := Head 1), 1)"
    unfolding count_start_def by (rule run_one) (simp_all add: THREADS_def RUNS_def)
  from 2 have "run_threads counter2_step THREADS (count_start (lock_init, 0)) (fst (count_start (lock_init, 0)), lock_init, 0)"
    by (simp add: count_start_def)
  from synchronized_counters_count [OF this 4] have "total_made ((\<lambda>_. Head 0)(0 := Head 1)) = 1"
    by (elim conjE) (rule sym)
  with 4 show ?thesis by (intro exI conjI) (assumption, rule refl, assumption)
qed

text \<open>The counter of atomic registers, and the plain one, lose updates: some interleaving in
  which all threads return leaves \<open>RUNS\<close> instead of \<open>RUNS * THREADS\<close>, and \<open>main\<close> says so.\<close>

theorem register_counters_lose_updates:
  "\<exists>ls. run_threads counter3_step THREADS (count_start 0) (ls, int RUNS) \<and>
    run_threads counter1_step THREADS (count_start 0) (ls, int RUNS) \<and>
    (\<forall>i < THREADS. ls i = Returned) \<and> \<not> counted_well (int RUNS)"
proof -
  let ?s = "counter3_step" and ?n = "THREADS"
  let ?l0 = "\<lambda>_ :: nat. Head 0" and ?N = "int RUNS"
  let ?l1 = "?l0(0 := Store 0 0)"
  let ?l2 = "?l1(1 := Returned)" let ?l3 = "?l2(2 := Returned)" let ?l4 = "?l3(3 := Returned)"
  have n: "0 < ?n" "1 < ?n" "2 < ?n" "3 < ?n" by (simp_all add: THREADS_def)
  have pos: "0 < RUNS" by (simp add: RUNS_def)
  have "run_threads ?s ?n (count_start 0) (?l1, 0)"
    unfolding count_start_def by (rule run_one [OF n(1)]) (simp add: pos)
  moreover have "run_threads ?s ?n (?l1, 0) (?l2, ?N)"
    using counter3_alone [OF n(2), of ?l1 0 0] by simp
  moreover have "run_threads ?s ?n (?l2, ?N) (?l3, ?N + ?N)"
    using counter3_alone [OF n(3), of ?l2 0 ?N] by simp
  moreover have "run_threads ?s ?n (?l3, ?N + ?N) (?l4, ?N + ?N + ?N)"
    using counter3_alone [OF n(4), of ?l3 0 "?N + ?N"] by simp
  moreover have "run_threads ?s ?n (?l4, ?N + ?N + ?N) (?l4(0 := Head 1), 1)"
    by (rule run_one [OF n(1)]) simp
  moreover have "run_threads ?s ?n (?l4(0 := Head 1), 1) (?l4(0 := Head 1, 0 := Returned), ?N)"
    using counter3_alone [OF n(1), of "?l4(0 := Head 1)" 1 1] pos by simp
  ultimately have "run_threads ?s ?n (count_start 0) (?l4(0 := Head 1, 0 := Returned), ?N)"
    by (meson run_threads_trans)
  moreover have "\<forall>i < ?n. (?l4(0 := Head 1, 0 := Returned)) i = Returned"
    by (auto simp: THREADS_def less_Suc_eq numeral_eq_Suc)
  moreover have "\<not> counted_well ?N" using pos by (simp add: counted_well_def THREADS_def)
  ultimately show ?thesis unfolding counter1_is_counter3 by blast
qed

end
