(* ===== verification/Elections.thy ===== *)
theory Elections
  imports Counters
begin

text \<open>
  \<open>sync-examples/election1.c\<close> to \<open>election4.c\<close>: in each of \<open>RUNS\<close> rounds four threads try to become
  the leader, and \<open>nb_leaders\<close> counts those that think they did. Thread \<open>i\<close> has the identifier
  \<open>i + 1\<close>.
\<close>

section \<open>The programs\<close>

record election =
  leader :: "nat \<Rightarrow> int"
  nb_leaders :: "nat \<Rightarrow> int"

definition no_leader :: election where
  "no_leader = \<lparr>leader = (\<lambda>_. 0), nb_leaders = (\<lambda>_. 0)\<rparr>"

datatype elect_pc = Round nat | Check nat | Claim nat | Count nat | Release nat | Elected

definition claim :: "nat \<Rightarrow> nat \<Rightarrow> election \<Rightarrow> election" where
  "claim i r e = e\<lparr>leader := (leader e)(r := int (i + 1))\<rparr>"

definition count_leader :: "nat \<Rightarrow> election \<Rightarrow> election" where
  "count_leader r e = e\<lparr>nb_leaders := (nb_leaders e)(r := nb_leaders e r + 1)\<rparr>"

text \<open>\<open>election1.c\<close>: plain variables.\<close>

fun election1_step :: "nat \<Rightarrow> elect_pc \<Rightarrow> election \<Rightarrow> elect_pc \<times> election" where
  "election1_step i (Round r) e =
     (if r < RUNS then if leader e r = 0 then (Claim r, e) else (Round (r + 1), e) else (Elected, e))"
| "election1_step i (Claim r) e = (Count r, claim i r e)"
| "election1_step i (Count r) e = (Round (r + 1), count_leader r e)"
| "election1_step i pc e = (pc, e)"

text \<open>\<open>election2.c\<close>: under a lock.\<close>

fun election2_step :: "nat \<Rightarrow> elect_pc \<Rightarrow> lock_t \<times> election \<Rightarrow> elect_pc \<times> lock_t \<times> election" where
  "election2_step i (Round r) (lock, e) =
     (if r < RUNS
      then (case lock_acquire i lock of None \<Rightarrow> (Round r, lock, e) | Some lock' \<Rightarrow> (Check r, lock', e))
      else (Elected, lock, e))"
| "election2_step i (Check r) (lock, e) =
     (if leader e r = 0 then (Claim r, lock, e) else (Release r, lock, e))"
| "election2_step i (Claim r) (lock, e) = (Count r, lock, claim i r e)"
| "election2_step i (Count r) (lock, e) = (Release r, lock, count_leader r e)"
| "election2_step i (Release r) (lock, e) = (Round (r + 1), lock_release lock, e)"
| "election2_step i Elected s = (Elected, s)"

text \<open>\<open>election3.c\<close>: atomic registers, each access a step of its own.\<close>

fun election3_step :: "nat \<Rightarrow> elect_pc \<Rightarrow> election \<Rightarrow> elect_pc \<times> election" where
  "election3_step i (Round r) e =
     (if r < RUNS then if leader e r = 0 then (Claim r, e) else (Round (r + 1), e) else (Elected, e))"
| "election3_step i (Claim r) e = (Count r, claim i r e)"
| "election3_step i (Count r) e = (Round (r + 1), count_leader r e)"
| "election3_step i pc e = (pc, e)"

text \<open>\<open>election4.c\<close>: one strong compare-and-swap.\<close>

fun election4_step :: "nat \<Rightarrow> elect_pc \<Rightarrow> election \<Rightarrow> elect_pc \<times> election" where
  "election4_step i (Round r) e =
     (if r < RUNS
      then let expected = 0
           in if leader e r = expected then (Count r, claim i r e) else (Round (r + 1), e)
      else (Elected, e))"
| "election4_step i (Count r) e = (Round (r + 1), count_leader r e)"
| "election4_step i pc e = (pc, e)"

text \<open>The loop of \<open>main\<close>: the first round that failed, if any.\<close>

function election_check :: "nat \<Rightarrow> election \<Rightarrow> nat option" where
  "election_check r e =
     (if r < RUNS then if nb_leaders e r \<noteq> 1 then Some r else election_check (r + 1) e else None)"
  by pat_completeness auto
termination
  by (relation "measure (\<lambda>(r, e). RUNS - r)") auto

declare election_check.simps [simp del]

lemma election_check_None: "election_check r e = None \<longleftrightarrow> (\<forall>k. r \<le> k \<longrightarrow> k < RUNS \<longrightarrow> nb_leaders e k = 1)"
proof (induction r e rule: election_check.induct)
  case (1 r e)
  then show ?case
    by (subst election_check.simps) (auto simp: Suc_le_eq dest: le_neq_implies_less)
qed

section \<open>The correct ones\<close>

fun passed :: "elect_pc \<Rightarrow> nat \<Rightarrow> bool" where
  "passed (Round k) r \<longleftrightarrow> r < k"
| "passed (Check k) r \<longleftrightarrow> r < k"
| "passed (Claim k) r \<longleftrightarrow> r < k"
| "passed (Count k) r \<longleftrightarrow> r \<le> k"
| "passed (Release k) r \<longleftrightarrow> r \<le> k"
| "passed Elected r \<longleftrightarrow> r < RUNS"

fun in_section :: "elect_pc \<Rightarrow> bool" where
  "in_section (Round k) \<longleftrightarrow> False"
| "in_section Elected \<longleftrightarrow> False"
| "in_section pc \<longleftrightarrow> True"

text \<open>Threads that have claimed round \<open>r\<close> and not counted themselves yet.\<close>

definition uncounted :: "(nat \<Rightarrow> elect_pc) \<Rightarrow> nat \<Rightarrow> int" where
  "uncounted ls r = (\<Sum>j < THREADS. of_bool (ls j = Count r))"

definition one_leader :: "(nat \<Rightarrow> elect_pc) \<Rightarrow> election \<Rightarrow> bool" where
  "one_leader ls e \<longleftrightarrow>
     (\<forall>r. nb_leaders e r + uncounted ls r = (if leader e r = 0 then 0 else 1) \<and>
        leader e r \<in> {0..int THREADS}) \<and>
     (\<forall>i < THREADS. \<forall>r. passed (ls i) r \<longrightarrow> leader e r \<noteq> 0)"

lemma uncounted_upd:
  "i < THREADS \<Longrightarrow> uncounted (ls(i := l)) r =
     uncounted ls r - of_bool (ls i = Count r) + of_bool (l = Count r)"
  unfolding uncounted_def by (rule sum_thread_upd)

lemma one_leader_move:
  assumes "one_leader ls e" "i < THREADS" "\<And>r. ls i \<noteq> Count r" "\<And>r. l \<noteq> Count r"
    and "\<And>r. passed l r \<Longrightarrow> leader e r \<noteq> 0"
  shows "one_leader (ls(i := l)) e"
  using assms by (auto simp: one_leader_def uncounted_upd)

lemma one_leader_claim:
  assumes "one_leader ls e" "i < THREADS" "\<And>k. ls i \<noteq> Count k" "leader e r = 0"
    and "\<And>k. k < r \<Longrightarrow> passed (ls i) k"
  shows "one_leader (ls(i := Count r)) (claim i r e)"
  using assms by (auto simp: one_leader_def uncounted_upd claim_def order.strict_iff_order)

lemma one_leader_count:
  assumes "one_leader ls e" "i < THREADS" "ls i = Count r" "\<And>k. l \<noteq> Count k"
    and "\<And>k. passed l k \<Longrightarrow> passed (ls i) k"
  shows "one_leader (ls(i := l)) (count_leader r e)"
  using assms by (auto simp: one_leader_def uncounted_upd count_leader_def)

lemma one_leader_passed: "one_leader ls e \<Longrightarrow> i < THREADS \<Longrightarrow> passed (ls i) r \<Longrightarrow> leader e r \<noteq> 0"
  by (auto simp: one_leader_def)

lemma one_leader_start: "one_leader (\<lambda>_. Round 0) no_leader"
  by (simp add: one_leader_def uncounted_def no_leader_def)

definition election4_inv :: "(nat \<Rightarrow> elect_pc) \<Rightarrow> election \<Rightarrow> bool" where
  "election4_inv ls e \<longleftrightarrow> one_leader ls e"

definition election2_inv :: "(nat \<Rightarrow> elect_pc) \<Rightarrow> lock_t \<times> election \<Rightarrow> bool" where
  "election2_inv ls s \<longleftrightarrow> (case s of (lock, e) \<Rightarrow> one_leader ls e \<and> excludes in_section THREADS ls lock \<and>
     (\<forall>i < THREADS. \<forall>r. ls i = Claim r \<longrightarrow> leader e r = 0))"

lemma election4_keep:
  assumes "one_leader ls e" "i < THREADS" "election4_step i (ls i) e = (l', e')"
  shows "one_leader (ls(i := l')) e'"
proof (cases "ls i")
  case (Round r)
  note p = one_leader_passed [OF assms(1,2)]
  consider (over) "\<not> r < RUNS" | (win) "r < RUNS" "leader e r = 0" | (lose) "r < RUNS" "leader e r \<noteq> 0"
    by blast
  then show ?thesis
  proof cases
    case over
    then have "leader e k \<noteq> 0" if "k < RUNS" for k using that p [of k] Round by simp
    then show ?thesis
      using over Round assms(3) one_leader_move [OF assms(1,2), of Elected] by simp
  next
    case win
    then show ?thesis
      using Round assms(3) one_leader_claim [OF assms(1,2), of r] by (simp add: Let_def)
  next
    case lose
    have "leader e k \<noteq> 0" if "k < r + 1" for k using that lose p [of k] Round by (cases "k = r") auto
    then show ?thesis
      using lose Round assms(3) one_leader_move [OF assms(1,2), of "Round (r + 1)"] by (auto simp: Let_def)
  qed
next
  case (Count r)
  then show ?thesis
    using assms(3) one_leader_count [OF assms(1,2) Count, of "Round (r + 1)"] by auto
qed (use assms in \<open>auto simp: fun_upd_idem\<close>)

lemma election2_keep:
  assumes "election2_inv ls (lock, e)" "i < THREADS" "election2_step i (ls i) (lock, e) = (l', lock', e')"
  shows "election2_inv (ls(i := l')) (lock', e')"
proof -
  have inv: "one_leader ls e" "excludes in_section THREADS ls lock"
    "\<And>j r. j < THREADS \<Longrightarrow> ls j = Claim r \<Longrightarrow> leader e r = 0"
    using assms(1) by (auto simp: election2_inv_def)
  note p = one_leader_passed [OF inv(1) assms(2)] and move = one_leader_move [OF inv(1) assms(2)]
  have other: "ls j \<noteq> Claim r" if "in_section (ls i)" "j < THREADS" "j \<noteq> i" for j r
    using excludes_other [OF inv(2) assms(2) that(2,1)] that(3) by (cases "ls j") auto
  show ?thesis
  proof (cases "ls i")
    case (Round r)
    consider (over) "\<not> r < RUNS" | (blocked) "r < RUNS" "lock_acquire i lock = None"
      | (enter) l where "r < RUNS" "lock_acquire i lock = Some l" by blast
    then show ?thesis
    proof cases
      case over
      then have "leader e k \<noteq> 0" if "k < RUNS" for k using that p [of k] Round by simp
      then show ?thesis
        using over Round assms(2,3) inv move [of Elected] excludes_stay [OF inv(2) assms(2), of Elected]
        by (auto simp: election2_inv_def)
    next
      case blocked
      then have "ls(i := l') = ls" "lock' = lock" "e' = e" using assms(3) Round by auto
      then show ?thesis using assms(1) by simp
    next
      case enter
      then show ?thesis
        using Round assms(2,3) inv move [of "Check r"] p excludes_acquire [OF inv(2) assms(2) enter(2), of "Check r"]
        by (auto simp: election2_inv_def)
    qed
  next
    case (Check r)
    have "leader e k \<noteq> 0" if "leader e r \<noteq> 0" "k \<le> r" for k using that p [of k] Check by (cases "k = r") auto
    then show ?thesis
      using Check assms(2,3) inv p move [of "Claim r"] move [of "Release r"] excludes_stay [OF inv(2) assms(2)]
      by (cases "leader e r = 0") (auto simp: election2_inv_def)
  next
    case (Claim r)
    then show ?thesis
      using assms(2,3) inv other one_leader_claim [OF inv(1) assms(2), of r] excludes_stay [OF inv(2) assms(2)]
      by (auto simp: election2_inv_def)
  next
    case (Count r)
    then show ?thesis
      using assms(2,3) inv other one_leader_count [OF inv(1) assms(2) Count, of "Release r"]
        excludes_stay [OF inv(2) assms(2)]
      by (auto simp: election2_inv_def)
  next
    case (Release r)
    then show ?thesis
      using assms(2,3) inv other p move [of "Round (r + 1)"] excludes_release [OF inv(2) assms(2)]
      by (auto simp: election2_inv_def less_Suc_eq_le)
  next
    case Elected
    then have "ls(i := l') = ls" "lock' = lock" "e' = e" using assms(3) by auto
    then show ?thesis using assms(1) by simp
  qed
qed

definition elect_start :: "'s \<Rightarrow> (elect_pc, 's) threads_state" where
  "elect_start s = (\<lambda>_. Round 0, s)"

interpretation election4: thread_invariant election4_step THREADS "elect_start no_leader" election4_inv
proof unfold_locales
  show "election4_inv (fst (elect_start no_leader)) (snd (elect_start no_leader))"
    by (simp add: election4_inv_def elect_start_def one_leader_start)
qed (simp add: election4_inv_def election4_keep del: fun_upd_apply)

interpretation election2: thread_invariant election2_step THREADS "elect_start (lock_init, no_leader)" election2_inv
proof unfold_locales
  show "election2_inv (fst (elect_start (lock_init, no_leader))) (snd (elect_start (lock_init, no_leader)))"
    by (simp add: election2_inv_def elect_start_def one_leader_start excludes_def lock_init_def)
  fix ls s i l' s'
  assume "election2_inv ls s" "i < THREADS" "election2_step i (ls i) s = (l', s')"
  then show "election2_inv (ls(i := l')) s'" using election2_keep by (cases s; cases s') blast
qed

lemma one_leader_end:
  assumes "one_leader ls e" "\<forall>i < THREADS. ls i = Elected"
  shows "election_check 0 e = None \<and> (\<forall>r < RUNS. leader e r \<in> {1..int THREADS})"
proof -
  have 0: "leader e r \<noteq> 0" if "r < RUNS" for r
    using one_leader_passed [OF assms(1), of 0 r] assms(2) that by (simp add: THREADS_def)
  have "uncounted ls r = 0" for r using assms(2) by (simp add: uncounted_def)
  then have "nb_leaders e r = 1" if "r < RUNS" for r
    using 0 [OF that] assms(1) by (simp add: one_leader_def)
  moreover have "leader e r \<in> {1..int THREADS}" if "r < RUNS" for r
  proof -
    have "leader e r \<in> {0..int THREADS}" using assms(1) by (simp add: one_leader_def)
    with 0 [OF that] show ?thesis by auto
  qed
  ultimately show ?thesis by (simp add: election_check_None)
qed

lemma election1_is_election3: "election1_step = election3_step"
proof (intro ext)
  fix i pc e show "election1_step i pc e = election3_step i pc e" by (cases pc) simp_all
qed

section \<open>Properties\<close>

text \<open>The elections under a lock and by compare-and-swap elect. In every interleaving no round
  ever counts more than one leader, and when all threads have returned \<open>main\<close> finds no failed
  round, each having one of the four threads as its leader.\<close>

theorem synchronized_elections_elect:
  assumes "run_threads election2_step THREADS (elect_start (lock_init, no_leader)) (ls, lock, e) \<or>
    run_threads election4_step THREADS (elect_start no_leader) (ls, e)"
  shows "(\<forall>r. nb_leaders e r \<le> 1) \<and>
    ((\<forall>i < THREADS. ls i = Elected) \<longrightarrow>
      election_check 0 e = None \<and> (\<forall>r < RUNS. leader e r \<in> {1..int THREADS}))"
proof -
  have inv: "one_leader ls e"
    using assms election2.holds election4.holds by (fastforce simp: election2_inv_def election4_inv_def)
  have "0 \<le> uncounted ls r" for r unfolding uncounted_def by (rule sum_nonneg) simp
  then have "nb_leaders e r \<le> 1" for r
    using inv by (auto simp: one_leader_def) (smt (verit, best))
  then show ?thesis using one_leader_end [OF inv] by blast
qed

theorem synchronized_elections_elect_witness:
  "\<exists>ls e. run_threads election4_step THREADS (elect_start no_leader) (ls, e) \<and> leader e 0 = 1 \<and>
    nb_leaders e 0 \<le> 1"
proof -
  have 4: "run_threads election4_step THREADS (elect_start no_leader) ((\<lambda>_. Round 0)(0 := Count 0), claim 0 0 no_leader)"
    unfolding elect_start_def by (rule run_one) (simp_all add: THREADS_def RUNS_def no_leader_def)
  then have "nb_leaders (claim 0 0 no_leader) 0 \<le> 1"
    using synchronized_elections_elect [OF disjI2 [OF 4]] by blast
  moreover have "leader (claim 0 0 no_leader) 0 = 1" by (simp add: claim_def)
  ultimately show ?thesis using 4 by blast
qed

text \<open>The elections without synchronisation, and with atomic registers only, can elect two
  leaders: a loop in which the test and the claim are two accesses lets a second thread in.\<close>

theorem register_elections_elect_two:
  "\<exists>ls e. run_threads election3_step THREADS (elect_start no_leader) (ls, e) \<and>
    run_threads election1_step THREADS (elect_start no_leader) (ls, e) \<and>
    ls 0 = Round 1 \<and> ls 1 = Round 1 \<and> nb_leaders e 0 = 2 \<and> election_check 0 e = Some 0"
proof -
  let ?s = "election3_step" and ?n = "THREADS" and ?e = "no_leader"
  let ?l1 = "(\<lambda>_ :: nat. Round 0)(0 := Claim 0)"
  let ?l2 = "?l1(1 := Claim 0)" let ?l3 = "?l2(0 := Count 0)" let ?l4 = "?l3(1 := Count 0)"
  let ?l5 = "?l4(0 := Round 1)" let ?l6 = "?l5(1 := Round 1)"
  let ?e1 = "claim 0 0 ?e" let ?e2 = "claim 1 0 ?e1"
  let ?e3 = "count_leader 0 ?e2" let ?e4 = "count_leader 0 ?e3"
  have n: "0 < ?n" "1 < ?n" and pos: "0 < RUNS" by (simp_all add: THREADS_def RUNS_def)
  have "run_threads ?s ?n (elect_start ?e) (?l1, ?e)"
    unfolding elect_start_def by (rule run_one [OF n(1)]) (simp add: pos no_leader_def)
  then have "run_threads ?s ?n (elect_start ?e) (?l2, ?e)"
    by (rule threads_step [OF _ n(2)]) (simp add: pos no_leader_def)
  then have "run_threads ?s ?n (elect_start ?e) (?l3, ?e1)" by (rule threads_step [OF _ n(1)]) simp
  then have "run_threads ?s ?n (elect_start ?e) (?l4, ?e2)" by (rule threads_step [OF _ n(2)]) simp
  then have "run_threads ?s ?n (elect_start ?e) (?l5, ?e3)" by (rule threads_step [OF _ n(1)]) simp
  then have "run_threads ?s ?n (elect_start ?e) (?l6, ?e4)" by (rule threads_step [OF _ n(2)]) simp
  moreover have "nb_leaders ?e4 0 = 2" by (simp add: claim_def count_leader_def no_leader_def)
  moreover from this have "election_check 0 ?e4 = Some 0" by (subst election_check.simps) (simp add: pos)
  moreover have "?l6 0 = Round 1" "?l6 1 = Round 1" by simp_all
  ultimately show ?thesis unfolding election1_is_election3 by blast
qed

end
