(* ===== verification/Producers.thy ===== *)
theory Producers
  imports Interleaving
begin

text \<open>
  \<open>sync-examples/procon1.c\<close> to \<open>procon4.c\<close>: a producer (thread 0) fills the slots of a ring buffer and
  a consumer (thread 1) empties them. A slot is an array of bytes, copied byte by byte, so that a
  missing synchronisation can tear it; \<open>rnd r i\<close> is what \<open>rand()\<close> gives for byte \<open>i\<close> of round \<open>r\<close>. The
  counters stay below \<open>2 ^ 31\<close>.
\<close>

section \<open>Data\<close>

definition PC_RUNS :: nat where
  "PC_RUNS = 4096"

definition DATA_TEXT_SIZE :: nat where
  "DATA_TEXT_SIZE = 1024"

type_synonym texts = "nat \<Rightarrow> nat \<Rightarrow> byte"

record pc_data =
  buffer :: texts
  produced :: texts
  consumed :: texts
  produced_until :: nat
  consumed_until :: nat

definition pc_init :: pc_data where
  "pc_init = \<lparr>buffer = (\<lambda>_ _. 0), produced = (\<lambda>_ _. 0), consumed = (\<lambda>_ _. 0),
     produced_until = 0, consumed_until = 0\<rparr>"

definition put_text :: "nat \<Rightarrow> nat \<Rightarrow> byte \<Rightarrow> texts \<Rightarrow> texts" where
  "put_text k i b t = t(k := (t k)(i := b))"

lemma put_text [simp]: "put_text k i b t k' i' = (if k' = k \<and> i' = i then b else t k' i')"
  by (simp add: put_text_def)

function same_from :: "nat \<Rightarrow> (nat \<Rightarrow> byte) \<Rightarrow> (nat \<Rightarrow> byte) \<Rightarrow> bool" where
  "same_from i a b =
     (if i < DATA_TEXT_SIZE then if a i \<noteq> b i then False else same_from (i + 1) a b else True)"
  by pat_completeness auto
termination
  by (relation "measure (\<lambda>(i, a, b). DATA_TEXT_SIZE - i)") auto

definition are_same :: "(nat \<Rightarrow> byte) \<Rightarrow> (nat \<Rightarrow> byte) \<Rightarrow> bool" where
  "are_same a b = same_from 0 a b"

text \<open>The loop of \<open>main\<close>: the first round whose data came out wrong.\<close>

function pc_check :: "nat \<Rightarrow> pc_data \<Rightarrow> nat option" where
  "pc_check r d =
     (if r < PC_RUNS
      then if \<not> are_same (produced d r) (consumed d r) then Some r else pc_check (r + 1) d
      else None)"
  by pat_completeness auto
termination
  by (relation "measure (\<lambda>(r, d). PC_RUNS - r)") auto

declare same_from.simps [simp del] pc_check.simps [simp del]

lemma same_from_iff: "same_from i a b \<longleftrightarrow> (\<forall>j. i \<le> j \<longrightarrow> j < DATA_TEXT_SIZE \<longrightarrow> a j = b j)"
proof (induction i a b rule: same_from.induct)
  case (1 i a b)
  then show ?case by (subst same_from.simps) (auto simp: Suc_le_eq dest: le_neq_implies_less)
qed

lemma pc_check_None: "(\<And>k. r \<le> k \<Longrightarrow> k < PC_RUNS \<Longrightarrow> are_same (produced d k) (consumed d k)) \<Longrightarrow> pc_check r d = None"
proof (induction r d rule: pc_check.induct)
  case (1 r d)
  then show ?case by (subst pc_check.simps) auto
qed

section \<open>The programs\<close>

text \<open>
  The head of round \<open>r\<close>; before the test of the counter of the other side, inside the lock or not;
  giving the lock back after a failed test; filling, copying or taking byte \<open>i\<close>; at the increment;
  at the release; at the broadcast; asleep; returned.
\<close>

datatype pc =
    Turn nat | Enter nat | Test nat | Again nat
  | Fill nat nat | Copy nat nat | Take nat nat
  | Publish nat | Leave nat | Wake nat | Sleep nat | Ended

fun produce_slot :: "texts \<Rightarrow> nat \<Rightarrow> pc \<Rightarrow> pc_data \<Rightarrow> pc \<times> pc_data" where
  "produce_slot rnd bsz (Fill r i) d =
     (if i < DATA_TEXT_SIZE then (Fill r (i + 1), d\<lparr>produced := put_text r i (rnd r i) (produced d)\<rparr>)
      else (Copy r 0, d))"
| "produce_slot rnd bsz (Copy r i) d =
     (if i < DATA_TEXT_SIZE
      then (Copy r (i + 1), d\<lparr>buffer := put_text (r mod bsz) i (produced d r i) (buffer d)\<rparr>)
      else (Publish r, d))"
| "produce_slot rnd bsz p d = (p, d)"

fun consume_slot :: "nat \<Rightarrow> pc \<Rightarrow> pc_data \<Rightarrow> pc \<times> pc_data" where
  "consume_slot bsz (Take r i) d =
     (if i < DATA_TEXT_SIZE
      then (Take r (i + 1), d\<lparr>consumed := put_text r i (buffer d (r mod bsz) i) (consumed d)\<rparr>)
      else (Publish r, d))"
| "consume_slot bsz p d = (p, d)"

definition room :: "nat \<Rightarrow> nat \<Rightarrow> pc_data \<Rightarrow> bool" where
  "room bsz r d \<longleftrightarrow> consumed_until d + bsz > r"

definition ready :: "nat \<Rightarrow> pc_data \<Rightarrow> bool" where
  "ready r d \<longleftrightarrow> produced_until d > r"

definition publish :: "pc_data \<Rightarrow> pc_data" where
  "publish d = d\<lparr>produced_until := produced_until d + 1\<rparr>"

definition retire :: "pc_data \<Rightarrow> pc_data" where
  "retire d = d\<lparr>consumed_until := consumed_until d + 1\<rparr>"

text \<open>\<open>procon1.c\<close>: no synchronisation at all.\<close>

fun produce1 :: "texts \<Rightarrow> pc \<Rightarrow> pc_data \<Rightarrow> pc \<times> pc_data" where
  "produce1 rnd (Turn r) d = (if r < PC_RUNS then (Fill r 0, d) else (Ended, d))"
| "produce1 rnd (Publish r) d = (Turn (r + 1), d)"
| "produce1 rnd p d = produce_slot rnd 1024 p d"

fun consume1 :: "pc \<Rightarrow> pc_data \<Rightarrow> pc \<times> pc_data" where
  "consume1 (Turn r) d = (if r < PC_RUNS then (Take r 0, d) else (Ended, d))"
| "consume1 (Publish r) d = (Turn (r + 1), d)"
| "consume1 p d = consume_slot 1024 p d"

definition procon1_step :: "texts \<Rightarrow> nat \<Rightarrow> pc \<Rightarrow> pc_data \<Rightarrow> pc \<times> pc_data" where
  "procon1_step rnd i p d = (if i = 0 then produce1 rnd p d else consume1 p d)"

text \<open>\<open>procon2.c\<close>: the test and the work are in one critical section.\<close>

definition enter_lock :: "nat \<Rightarrow> pc \<Rightarrow> pc \<Rightarrow> lock_t \<times> pc_data \<Rightarrow> pc \<times> lock_t \<times> pc_data" where
  "enter_lock i stay inside s =
     (case lock_acquire i (fst s) of None \<Rightarrow> (stay, s) | Some lock \<Rightarrow> (inside, lock, snd s))"

definition on_data :: "(pc_data \<Rightarrow> pc \<times> pc_data) \<Rightarrow> lock_t \<times> pc_data \<Rightarrow> pc \<times> lock_t \<times> pc_data" where
  "on_data f s = (let (p, d) = f (snd s) in (p, fst s, d))"

fun produce2 :: "texts \<Rightarrow> pc \<Rightarrow> lock_t \<times> pc_data \<Rightarrow> pc \<times> lock_t \<times> pc_data" where
  "produce2 rnd (Turn r) s = (if r < PC_RUNS then (Enter r, s) else (Ended, s))"
| "produce2 rnd (Enter r) s = enter_lock 0 (Enter r) (Test r) s"
| "produce2 rnd (Test r) s = (if room 1024 r (snd s) then (Fill r 0, s) else (Again r, s))"
| "produce2 rnd (Again r) (lock, d) = (Enter r, lock_release lock, d)"
| "produce2 rnd (Publish r) (lock, d) = (Leave r, lock, publish d)"
| "produce2 rnd (Leave r) (lock, d) = (Turn (r + 1), lock_release lock, d)"
| "produce2 rnd p s = on_data (produce_slot rnd 1024 p) s"

fun consume2 :: "pc \<Rightarrow> lock_t \<times> pc_data \<Rightarrow> pc \<times> lock_t \<times> pc_data" where
  "consume2 (Turn r) s = (if r < PC_RUNS then (Enter r, s) else (Ended, s))"
| "consume2 (Enter r) s = enter_lock 1 (Enter r) (Test r) s"
| "consume2 (Test r) s = (if ready r (snd s) then (Take r 0, s) else (Again r, s))"
| "consume2 (Again r) (lock, d) = (Enter r, lock_release lock, d)"
| "consume2 (Publish r) (lock, d) = (Leave r, lock, retire d)"
| "consume2 (Leave r) (lock, d) = (Turn (r + 1), lock_release lock, d)"
| "consume2 p s = on_data (consume_slot 1024 p) s"

definition procon2_step :: "texts \<Rightarrow> nat \<Rightarrow> pc \<Rightarrow> lock_t \<times> pc_data \<Rightarrow> pc \<times> lock_t \<times> pc_data" where
  "procon2_step rnd i p s = (if i = 0 then produce2 rnd p s else consume2 p s)"

text \<open>\<open>procon3.c\<close>: spinning on atomic counters.\<close>

fun produce3 :: "texts \<Rightarrow> pc \<Rightarrow> pc_data \<Rightarrow> pc \<times> pc_data" where
  "produce3 rnd (Turn r) d = (if r < PC_RUNS then (Test r, d) else (Ended, d))"
| "produce3 rnd (Test r) d = (if room 1024 r d then (Fill r 0, d) else (Test r, d))"
| "produce3 rnd (Publish r) d = (Turn (r + 1), publish d)"
| "produce3 rnd p d = produce_slot rnd 1024 p d"

fun consume3 :: "pc \<Rightarrow> pc_data \<Rightarrow> pc \<times> pc_data" where
  "consume3 (Turn r) d = (if r < PC_RUNS then (Test r, d) else (Ended, d))"
| "consume3 (Test r) d = (if ready r d then (Take r 0, d) else (Test r, d))"
| "consume3 (Publish r) d = (Turn (r + 1), retire d)"
| "consume3 p d = consume_slot 1024 p d"

definition procon3_step :: "texts \<Rightarrow> nat \<Rightarrow> pc \<Rightarrow> pc_data \<Rightarrow> pc \<times> pc_data" where
  "procon3_step rnd i p d = (if i = 0 then produce3 rnd p d else consume3 p d)"

text \<open>
  \<open>procon4.c\<close>: waiting on the condition variable, with eight slots. The third thread is the system,
  which may wake sleepers spuriously.
\<close>

definition wait_lock :: "nat \<Rightarrow> pc \<Rightarrow> lock_t \<times> pc_data \<Rightarrow> pc \<times> lock_t \<times> pc_data" where
  "wait_lock i p s = (p, lock_wait i (fst s), snd s)"

definition rise :: "nat \<Rightarrow> pc \<Rightarrow> pc \<Rightarrow> lock_t \<times> pc_data \<Rightarrow> pc \<times> lock_t \<times> pc_data" where
  "rise i stay inside s = (if i \<in> asleep (fst s) then (stay, s) else enter_lock i stay inside s)"

fun produce4 :: "texts \<Rightarrow> pc \<Rightarrow> lock_t \<times> pc_data \<Rightarrow> pc \<times> lock_t \<times> pc_data" where
  "produce4 rnd (Turn r) s = (if r < PC_RUNS then (Enter r, s) else (Ended, s))"
| "produce4 rnd (Enter r) s = enter_lock 0 (Enter r) (Test r) s"
| "produce4 rnd (Test r) s = (if room 8 r (snd s) then (Fill r 0, s) else wait_lock 0 (Sleep r) s)"
| "produce4 rnd (Sleep r) s = rise 0 (Sleep r) (Test r) s"
| "produce4 rnd (Publish r) (lock, d) = (Leave r, lock, publish d)"
| "produce4 rnd (Leave r) (lock, d) = (Wake r, lock_release lock, d)"
| "produce4 rnd (Wake r) (lock, d) = (Turn (r + 1), lock_wake_up lock, d)"
| "produce4 rnd p s = on_data (produce_slot rnd 8 p) s"

fun consume4 :: "pc \<Rightarrow> lock_t \<times> pc_data \<Rightarrow> pc \<times> lock_t \<times> pc_data" where
  "consume4 (Turn r) s = (if r < PC_RUNS then (Enter r, s) else (Ended, s))"
| "consume4 (Enter r) s = enter_lock 1 (Enter r) (Test r) s"
| "consume4 (Test r) s = (if ready r (snd s) then (Take r 0, s) else wait_lock 1 (Sleep r) s)"
| "consume4 (Sleep r) s = rise 1 (Sleep r) (Test r) s"
| "consume4 (Publish r) (lock, d) = (Leave r, lock, retire d)"
| "consume4 (Leave r) (lock, d) = (Wake r, lock_release lock, d)"
| "consume4 (Wake r) (lock, d) = (Turn (r + 1), lock_wake_up lock, d)"
| "consume4 p s = on_data (consume_slot 8 p) s"

definition procon4_step :: "texts \<Rightarrow> nat \<Rightarrow> pc \<Rightarrow> lock_t \<times> pc_data \<Rightarrow> pc \<times> lock_t \<times> pc_data" where
  "procon4_step rnd i p s =
     (if i = 0 then produce4 rnd p s else if i = 1 then consume4 p s else (p, lock_wake_up (fst s), snd s))"

definition pc_start :: "'s \<Rightarrow> (pc, 's) threads_state" where
  "pc_start s = (\<lambda>_. Turn 0, s)"

section \<open>The data of a producer and a consumer\<close>

text \<open>The rounds a thread has announced, and the bytes of its current slot that are done.\<close>

fun announced :: "pc \<Rightarrow> nat" where
  "announced (Turn r) = r"
| "announced (Enter r) = r"
| "announced (Test r) = r"
| "announced (Again r) = r"
| "announced (Fill r i) = r"
| "announced (Copy r i) = r"
| "announced (Take r i) = r"
| "announced (Publish r) = r"
| "announced (Leave r) = r + 1"
| "announced (Wake r) = r + 1"
| "announced (Sleep r) = r"
| "announced Ended = PC_RUNS"

fun progress :: "pc \<Rightarrow> nat option" where
  "progress (Fill r i) = Some 0"
| "progress (Copy r i) = Some i"
| "progress (Take r i) = Some i"
| "progress (Publish r) = Some DATA_TEXT_SIZE"
| "progress p = None"

fun in_range :: "pc \<Rightarrow> bool" where
  "in_range (Turn r) \<longleftrightarrow> r \<le> PC_RUNS"
| "in_range Ended \<longleftrightarrow> True"
| "in_range (Copy r i) \<longleftrightarrow> r < PC_RUNS \<and> i \<le> DATA_TEXT_SIZE"
| "in_range (Take r i) \<longleftrightarrow> r < PC_RUNS \<and> i \<le> DATA_TEXT_SIZE"
| "in_range p \<longleftrightarrow> (case p of Leave r \<Rightarrow> r < PC_RUNS | Wake r \<Rightarrow> r < PC_RUNS | _ \<Rightarrow> announced p < PC_RUNS)"

definition data_ok :: "nat \<Rightarrow> pc \<Rightarrow> pc \<Rightarrow> pc_data \<Rightarrow> bool" where
  "data_ok bsz p c d \<longleftrightarrow>
     produced_until d = announced p \<and> consumed_until d = announced c \<and> in_range p \<and> in_range c \<and>
     consumed_until d \<le> produced_until d \<and> produced_until d \<le> consumed_until d + bsz \<and>
     (\<forall>i. progress p = Some i \<longrightarrow> announced p < consumed_until d + bsz \<and>
        (\<forall>j < i. buffer d (announced p mod bsz) j = produced d (announced p) j)) \<and>
     (\<forall>i. progress c = Some i \<longrightarrow> announced c < produced_until d \<and>
        (\<forall>j < i. consumed d (announced c) j = produced d (announced c) j)) \<and>
     (\<forall>k. consumed_until d \<le> k \<longrightarrow> k < produced_until d \<longrightarrow>
        (\<forall>j < DATA_TEXT_SIZE. buffer d (k mod bsz) j = produced d k j)) \<and>
     (\<forall>k < consumed_until d. \<forall>j < DATA_TEXT_SIZE. consumed d k j = produced d k j)"

lemma slots_differ:
  assumes "c \<le> (k :: nat)" "k < r" "r < c + bsz"
  shows "k mod bsz \<noteq> r mod bsz"
proof
  assume "k mod bsz = r mod bsz"
  then have "r mod bsz = k mod bsz" by simp
  then have "bsz dvd r - k" by (rule mod_eq_dvd_iff_nat [THEN iffD1, rotated]) (use assms(2) in simp)
  then have "bsz \<le> r - k" using assms(2) by (intro dvd_imp_le) simp_all
  then show False using assms by simp
qed

text \<open>Steps that move no data.\<close>

lemma data_move_p:
  "data_ok bsz p c d \<Longrightarrow> announced p' = announced p \<Longrightarrow> in_range p' \<Longrightarrow> progress p' = None \<Longrightarrow>
    data_ok bsz p' c d"
  by (auto simp: data_ok_def)

lemma data_move_c:
  "data_ok bsz p c d \<Longrightarrow> announced c' = announced c \<Longrightarrow> in_range c' \<Longrightarrow> progress c' = None \<Longrightarrow>
    data_ok bsz p c' d"
  by (auto simp: data_ok_def)

lemma data_start_p:
  "data_ok bsz p c d \<Longrightarrow> announced p = r \<Longrightarrow> in_range (Fill r 0) \<Longrightarrow> room bsz r d \<Longrightarrow> data_ok bsz (Fill r 0) c d"
  by (auto simp: data_ok_def room_def)

lemma data_start_c:
  "data_ok bsz p c d \<Longrightarrow> announced c = r \<Longrightarrow> in_range (Take r 0) \<Longrightarrow> ready r d \<Longrightarrow> data_ok bsz p (Take r 0) d"
  by (auto simp: data_ok_def ready_def)

text \<open>The work on a slot.\<close>

lemma data_produce:
  assumes "data_ok bsz p c d" "produce_slot rnd bsz p d = (p', d')"
  shows "data_ok bsz p' c d'"
proof (cases p)
  case (Fill r i)
  have "announced c \<le> r" "consumed_until d = announced c" "produced_until d = r"
    "\<And>i. progress c = Some i \<Longrightarrow> announced c < r"
    using assms(1) Fill by (auto simp: data_ok_def)
  then show ?thesis using assms Fill by (auto simp: data_ok_def split: if_splits)
next
  case (Copy r i)
  have pre: "consumed_until d \<le> r" "r < consumed_until d + bsz" "produced_until d = r"
    "\<And>j. j < i \<Longrightarrow> buffer d (r mod bsz) j = produced d r j"
    using assms(1) Copy by (auto simp: data_ok_def)
  have "k mod bsz \<noteq> r mod bsz" if "consumed_until d \<le> k" "k < r" for k
    by (rule slots_differ [OF that pre(2)])
  with assms Copy pre show ?thesis by (auto simp: data_ok_def less_Suc_eq split: if_splits)
qed (use assms in auto)

lemma data_consume:
  assumes "data_ok bsz p c d" "consume_slot bsz c d = (c', d')"
  shows "data_ok bsz p c' d'"
proof (cases c)
  case (Take r i)
  have "consumed_until d = r" "r < produced_until d" "\<And>j. j < DATA_TEXT_SIZE \<Longrightarrow> buffer d (r mod bsz) j = produced d r j"
    using assms(1) Take by (auto simp: data_ok_def)
  with assms Take show ?thesis by (auto simp: data_ok_def less_Suc_eq split: if_splits)
qed (use assms in auto)

lemma data_publish:
  "data_ok bsz (Publish r) c d \<Longrightarrow> announced p' = r + 1 \<Longrightarrow> in_range p' \<Longrightarrow> progress p' = None \<Longrightarrow>
    data_ok bsz p' c (publish d)"
  by (auto simp: data_ok_def publish_def less_Suc_eq)

lemma data_retire:
  "data_ok bsz p (Publish r) d \<Longrightarrow> announced c' = r + 1 \<Longrightarrow> in_range c' \<Longrightarrow> progress c' = None \<Longrightarrow>
    data_ok bsz p c' (retire d)"
  by (auto simp: data_ok_def retire_def less_Suc_eq)

lemma data_start: "data_ok bsz (Turn 0) (Turn 0) pc_init"
  by (simp add: data_ok_def pc_init_def)

lemma data_end:
  assumes "data_ok bsz Ended Ended d"
  shows "pc_check 0 d = None"
  using assms by (intro pc_check_None) (auto simp: are_same_def same_from_iff data_ok_def)

end
