(* ===== verification/Producers_Correct.thy ===== *)
theory Producers_Correct
  imports Producers
begin

text \<open>
  The synchronised producers and consumers deliver every slot untorn and in order, under any
  interleaving; the one on a condition variable never sleeps for ever; the first one is wrong.
\<close>

section \<open>Invariants\<close>

fun in_crit :: "pc \<Rightarrow> bool" where
  "in_crit (Turn r) \<longleftrightarrow> False"
| "in_crit (Enter r) \<longleftrightarrow> False"
| "in_crit (Wake r) \<longleftrightarrow> False"
| "in_crit (Sleep r) \<longleftrightarrow> False"
| "in_crit Ended \<longleftrightarrow> False"
| "in_crit p \<longleftrightarrow> True"

definition inv3 :: "(nat \<Rightarrow> pc) \<Rightarrow> pc_data \<Rightarrow> bool" where
  "inv3 ls d \<longleftrightarrow> data_ok 1024 (ls 0) (ls 1) d"

definition inv2 :: "(nat \<Rightarrow> pc) \<Rightarrow> lock_t \<times> pc_data \<Rightarrow> bool" where
  "inv2 ls s \<longleftrightarrow> data_ok 1024 (ls 0) (ls 1) (snd s) \<and> excludes in_crit 2 ls (fst s)"

text \<open>A sleeper whose condition holds is about to be woken by the other thread.\<close>

fun waking :: "pc \<Rightarrow> bool" where
  "waking (Leave r) \<longleftrightarrow> True"
| "waking (Wake r) \<longleftrightarrow> True"
| "waking p \<longleftrightarrow> False"

fun sleeping :: "pc \<Rightarrow> bool" where
  "sleeping (Sleep r) \<longleftrightarrow> True"
| "sleeping p \<longleftrightarrow> False"

definition no_lost_wake_up :: "pc \<Rightarrow> pc \<Rightarrow> lock_t \<Rightarrow> pc_data \<Rightarrow> bool" where
  "no_lost_wake_up p c lock d \<longleftrightarrow>
     (0 \<in> asleep lock \<longrightarrow> sleeping p \<and> (room 8 (announced p) d \<longrightarrow> waking c)) \<and>
     (1 \<in> asleep lock \<longrightarrow> sleeping c \<and> (ready (announced c) d \<longrightarrow> waking p))"

text \<open>The control points of the program on a condition variable, per thread.\<close>

fun at_producer :: "pc \<Rightarrow> bool" where
  "at_producer (Again r) \<longleftrightarrow> False"
| "at_producer (Take r i) \<longleftrightarrow> False"
| "at_producer p \<longleftrightarrow> True"

fun at_consumer :: "pc \<Rightarrow> bool" where
  "at_consumer (Again r) \<longleftrightarrow> False"
| "at_consumer (Fill r i) \<longleftrightarrow> False"
| "at_consumer (Copy r i) \<longleftrightarrow> False"
| "at_consumer p \<longleftrightarrow> True"

definition inv4 :: "(nat \<Rightarrow> pc) \<Rightarrow> lock_t \<times> pc_data \<Rightarrow> bool" where
  "inv4 ls s \<longleftrightarrow> data_ok 8 (ls 0) (ls 1) (snd s) \<and> excludes in_crit 3 ls (fst s) \<and>
     no_lost_wake_up (ls 0) (ls 1) (fst s) (snd s) \<and> at_producer (ls 0) \<and> at_consumer (ls 1) \<and>
     holder (fst s) \<in> {None, Some 0, Some 1}"

text \<open>Bounds of the rounds, as the moves of the programs need them.\<close>

lemma in_range_round:
  "in_range p \<Longrightarrow> (case p of Turn r \<Rightarrow> r \<le> PC_RUNS | Ended \<Rightarrow> True | Leave r \<Rightarrow> r < PC_RUNS
     | Wake r \<Rightarrow> r < PC_RUNS | _ \<Rightarrow> announced p < PC_RUNS)"
  by (cases p) simp_all

lemma data_rangeD: "data_ok bsz p c d \<Longrightarrow> in_range p \<and> in_range c"
  by (simp add: data_ok_def)

subsection \<open>procon3\<close>

lemma produce3_ok:
  assumes "data_ok 1024 p c d" "produce3 rnd p d = (p', d')"
  shows "data_ok 1024 p' c d'"
proof (cases p)
  case (Turn r)
  with assms data_rangeD [OF assms(1)] show ?thesis by (auto intro: data_move_p split: if_splits)
next
  case (Test r)
  with assms data_rangeD [OF assms(1)] show ?thesis by (auto intro: data_start_p split: if_splits)
next
  case (Publish r)
  with assms data_rangeD [OF assms(1)] show ?thesis by (auto intro: data_publish)
qed (use assms data_produce [OF assms(1)] in \<open>auto simp del: produce_slot.simps\<close>)

lemma consume3_ok:
  assumes "data_ok 1024 p c d" "consume3 c d = (c', d')"
  shows "data_ok 1024 p c' d'"
proof (cases c)
  case (Turn r)
  with assms data_rangeD [OF assms(1)] show ?thesis by (auto intro: data_move_c split: if_splits)
next
  case (Test r)
  with assms data_rangeD [OF assms(1)] show ?thesis by (auto intro: data_start_c split: if_splits)
next
  case (Publish r)
  with assms data_rangeD [OF assms(1)] show ?thesis by (auto intro: data_retire)
qed (use assms data_consume [OF assms(1)] in \<open>auto simp del: consume_slot.simps\<close>)

interpretation procon3: thread_invariant "procon3_step rnd" 2 "pc_start pc_init" inv3 for rnd
proof unfold_locales
  show "inv3 (fst (pc_start pc_init)) (snd (pc_start pc_init))"
    by (simp add: inv3_def pc_start_def data_start)
  fix ls d i l' d'
  assume a: "inv3 ls d" "i < 2" "procon3_step rnd i (ls i) d = (l', d')"
  then have "i = 0 \<or> i = 1" by auto
  with a show "inv3 (ls(i := l')) d'"
    using produce3_ok [of "ls 0" "ls 1" d rnd l' d'] consume3_ok [of "ls 0" "ls 1" d l' d']
    by (elim disjE) (auto simp: inv3_def procon3_step_def)
qed

subsection \<open>procon2\<close>

lemma enter_lock_cases:
  assumes "enter_lock i stay inside (lock, d) = (p', lock', d')"
  obtains "p' = stay" "lock' = lock" "d' = d" | "lock_acquire i lock = Some lock'" "p' = inside" "d' = d"
  using assms by (auto simp: enter_lock_def split: option.splits)

text \<open>Either a step takes or leaves the critical section with the lock, or it keeps to its side.\<close>

definition lock_follows :: "nat \<Rightarrow> pc \<Rightarrow> pc \<Rightarrow> lock_t \<Rightarrow> lock_t \<Rightarrow> bool" where
  "lock_follows i p p' lock lock' \<longleftrightarrow>
     (in_crit p' = in_crit p \<and> holder lock' = holder lock) \<or>
     (\<not> in_crit p \<and> in_crit p' \<and> holder lock = None \<and> holder lock' = Some i) \<or>
     (in_crit p \<and> \<not> in_crit p' \<and> holder lock' = None)"

lemma lock_follows_excludes:
  "excludes in_crit n ls lock \<Longrightarrow> i < n \<Longrightarrow> lock_follows i (ls i) p' lock lock' \<Longrightarrow>
    excludes in_crit n (ls(i := p')) lock'"
  by (auto simp: lock_follows_def excludes_def)

lemma enter_follows:
  "enter_lock i stay inside (lock, d) = (p', lock', d') \<Longrightarrow> \<not> in_crit stay \<Longrightarrow> in_crit inside \<Longrightarrow>
    lock_follows i stay p' lock lock'"
  by (elim enter_lock_cases) (auto simp: lock_follows_def lock_acquire_def split: if_splits)

lemma slot_crit:
  "produce_slot rnd bsz p d = (p', d') \<Longrightarrow> in_crit p' = in_crit p"
  "consume_slot bsz p d = (p', d') \<Longrightarrow> in_crit p' = in_crit p"
  by (cases p; auto split: if_splits)+

lemma produce2_ok:
  assumes "data_ok 1024 p c d" "produce2 rnd p (lock, d) = (p', lock', d')"
  shows "data_ok 1024 p' c d' \<and> lock_follows 0 p p' lock lock'"
proof (cases p)
  case (Enter r)
  then have e: "enter_lock 0 (Enter r) (Test r) (lock, d) = (p', lock', d')" using assms(2) by simp
  with Enter assms(1) data_rangeD [OF assms(1)] enter_follows [OF e] show ?thesis
    by (elim enter_lock_cases) (auto intro: data_move_p)
next
  case (Test r)
  with assms data_rangeD [OF assms(1)] show ?thesis
    by (auto intro: data_start_p data_move_p simp: lock_follows_def split: if_splits)
next
  case (Publish r)
  with assms data_rangeD [OF assms(1)] show ?thesis by (auto intro: data_publish simp: lock_follows_def)
next
  case (Fill r i)
  with assms data_produce [OF assms(1)] slot_crit(1) show ?thesis
    by (auto simp: on_data_def lock_follows_def simp del: produce_slot.simps split: prod.splits)
next
  case (Copy r i)
  with assms data_produce [OF assms(1)] slot_crit(1) show ?thesis
    by (auto simp: on_data_def lock_follows_def simp del: produce_slot.simps split: prod.splits)
qed (use assms data_rangeD [OF assms(1)] in
    \<open>auto intro: data_move_p simp: on_data_def lock_follows_def lock_release_def split: if_splits\<close>)

lemma consume2_ok:
  assumes "data_ok 1024 p c d" "consume2 c (lock, d) = (c', lock', d')"
  shows "data_ok 1024 p c' d' \<and> lock_follows 1 c c' lock lock'"
proof (cases c)
  case (Enter r)
  then have e: "enter_lock 1 (Enter r) (Test r) (lock, d) = (c', lock', d')" using assms(2) by simp
  with Enter assms(1) data_rangeD [OF assms(1)] enter_follows [OF e] show ?thesis
    by (elim enter_lock_cases) (auto intro: data_move_c)
next
  case (Test r)
  with assms data_rangeD [OF assms(1)] show ?thesis
    by (auto intro: data_start_c data_move_c simp: lock_follows_def split: if_splits)
next
  case (Publish r)
  with assms data_rangeD [OF assms(1)] show ?thesis by (auto intro: data_retire simp: lock_follows_def)
next
  case (Take r i)
  with assms data_consume [OF assms(1)] slot_crit(2) show ?thesis
    by (auto simp: on_data_def lock_follows_def simp del: consume_slot.simps split: prod.splits)
qed (use assms data_rangeD [OF assms(1)] in
    \<open>auto intro: data_move_c simp: on_data_def lock_follows_def lock_release_def split: if_splits\<close>)

interpretation procon2: thread_invariant "procon2_step rnd" 2 "pc_start (lock_init, pc_init)" inv2 for rnd
proof unfold_locales
  show "inv2 (fst (pc_start (lock_init, pc_init))) (snd (pc_start (lock_init, pc_init)))"
    by (simp add: inv2_def pc_start_def data_start excludes_def lock_init_def)
  fix ls s i l' s'
  assume a: "inv2 ls s" "i < 2" "procon2_step rnd i (ls i) s = (l', s')"
  obtain lock d lock' d' where s: "s = (lock, d)" "s' = (lock', d')" by (cases s; cases s') simp
  then have inv: "data_ok 1024 (ls 0) (ls 1) d" "excludes in_crit 2 ls lock" using a(1) by (simp_all add: inv2_def)
  show "inv2 (ls(i := l')) s'"
  proof (cases "i = 0")
    case True
    then have "produce2 rnd (ls 0) (lock, d) = (l', lock', d')" using a(3) s by (simp add: procon2_step_def)
    from produce2_ok [OF inv(1) this] lock_follows_excludes [OF inv(2) a(2)] True s show ?thesis
      by (auto simp: inv2_def)
  next
    case False
    then have i: "i = 1" using a(2) by simp
    then have "consume2 (ls 1) (lock, d) = (l', lock', d')" using a(3) s by (simp add: procon2_step_def)
    from consume2_ok [OF inv(1) this] lock_follows_excludes [OF inv(2) a(2)] i s show ?thesis
      by (auto simp: inv2_def)
  qed
qed

subsection \<open>procon4\<close>

lemma rise_cases:
  assumes "rise i stay inside (lock, d) = (p', lock', d')"
  obtains "p' = stay" "lock' = lock" "d' = d"
  | "i \<notin> asleep lock" "lock_acquire i lock = Some lock'" "p' = inside" "d' = d"
  using assms by (auto simp: rise_def enter_lock_def split: if_splits option.splits)

lemma rise_follows:
  "rise i stay inside (lock, d) = (p', lock', d') \<Longrightarrow> \<not> in_crit stay \<Longrightarrow> in_crit inside \<Longrightarrow>
    lock_follows i stay p' lock lock'"
  by (elim rise_cases) (auto simp: lock_follows_def lock_acquire_def split: if_splits)

lemma produce4_ok:
  assumes "data_ok 8 p c d" "produce4 rnd p (lock, d) = (p', lock', d')"
  shows "data_ok 8 p' c d' \<and> lock_follows 0 p p' lock lock'"
proof (cases p)
  case (Enter r)
  then have e: "enter_lock 0 (Enter r) (Test r) (lock, d) = (p', lock', d')" using assms(2) by simp
  with Enter assms(1) data_rangeD [OF assms(1)] enter_follows [OF e] show ?thesis
    by (elim enter_lock_cases) (auto intro: data_move_p)
next
  case (Sleep r)
  then have e: "rise 0 (Sleep r) (Test r) (lock, d) = (p', lock', d')" using assms(2) by simp
  with Sleep assms(1) data_rangeD [OF assms(1)] rise_follows [OF e] show ?thesis
    by (elim rise_cases) (auto intro: data_move_p)
next
  case (Test r)
  with assms data_rangeD [OF assms(1)] show ?thesis
    by (auto intro: data_start_p data_move_p simp: lock_follows_def wait_lock_def lock_wait_def split: if_splits)
next
  case (Publish r)
  with assms data_rangeD [OF assms(1)] show ?thesis by (auto intro: data_publish simp: lock_follows_def)
next
  case (Fill r i)
  with assms data_produce [OF assms(1)] slot_crit(1) show ?thesis
    by (auto simp: on_data_def lock_follows_def simp del: produce_slot.simps split: prod.splits)
next
  case (Copy r i)
  with assms data_produce [OF assms(1)] slot_crit(1) show ?thesis
    by (auto simp: on_data_def lock_follows_def simp del: produce_slot.simps split: prod.splits)
qed (use assms data_rangeD [OF assms(1)] in
    \<open>auto intro: data_move_p simp: on_data_def lock_follows_def lock_release_def lock_wake_up_def split: if_splits\<close>)

lemma consume4_ok:
  assumes "data_ok 8 p c d" "consume4 c (lock, d) = (c', lock', d')"
  shows "data_ok 8 p c' d' \<and> lock_follows 1 c c' lock lock'"
proof (cases c)
  case (Enter r)
  then have e: "enter_lock 1 (Enter r) (Test r) (lock, d) = (c', lock', d')" using assms(2) by simp
  with Enter assms(1) data_rangeD [OF assms(1)] enter_follows [OF e] show ?thesis
    by (elim enter_lock_cases) (auto intro: data_move_c)
next
  case (Sleep r)
  then have e: "rise 1 (Sleep r) (Test r) (lock, d) = (c', lock', d')" using assms(2) by simp
  with Sleep assms(1) data_rangeD [OF assms(1)] rise_follows [OF e] show ?thesis
    by (elim rise_cases) (auto intro: data_move_c)
next
  case (Test r)
  with assms data_rangeD [OF assms(1)] show ?thesis
    by (auto intro: data_start_c data_move_c simp: lock_follows_def wait_lock_def lock_wait_def split: if_splits)
next
  case (Publish r)
  with assms data_rangeD [OF assms(1)] show ?thesis by (auto intro: data_retire simp: lock_follows_def)
next
  case (Take r i)
  with assms data_consume [OF assms(1)] slot_crit(2) show ?thesis
    by (auto simp: on_data_def lock_follows_def simp del: consume_slot.simps split: prod.splits)
qed (use assms data_rangeD [OF assms(1)] in
    \<open>auto intro: data_move_c simp: on_data_def lock_follows_def lock_release_def lock_wake_up_def split: if_splits\<close>)

text \<open>The wake-ups. A step that neither sleeps nor wakes keeps the sleepers and the counters.\<close>

lemma slot_counters:
  "produce_slot rnd bsz p d = (p', d') \<Longrightarrow>
    produced_until d' = produced_until d \<and> consumed_until d' = consumed_until d \<and> waking p' = waking p \<and> sleeping p' = sleeping p"
  "consume_slot bsz p d = (p', d') \<Longrightarrow>
    produced_until d' = produced_until d \<and> consumed_until d' = consumed_until d \<and> waking p' = waking p \<and> sleeping p' = sleeping p"
  by (cases p; auto split: if_splits)+

lemma asleep_acquire: "lock_acquire i lock = Some lock' \<Longrightarrow> asleep lock' = asleep lock"
  by (auto simp: lock_acquire_def split: if_splits)

lemma produce4_wakes:
  assumes "no_lost_wake_up p c lock d" "produce4 rnd p (lock, d) = (p', lock', d')"
  shows "no_lost_wake_up p' c lock' d'"
proof (cases p)
  case (Enter r)
  then have "enter_lock 0 (Enter r) (Test r) (lock, d) = (p', lock', d')" using assms(2) by simp
  then show ?thesis
    using Enter assms(1) by (elim enter_lock_cases) (auto simp: no_lost_wake_up_def dest: asleep_acquire)
next
  case (Sleep r)
  then have "rise 0 (Sleep r) (Test r) (lock, d) = (p', lock', d')" using assms(2) by simp
  then show ?thesis
    using Sleep assms(1) by (elim rise_cases) (auto simp: no_lost_wake_up_def dest: asleep_acquire)
next
  case (Fill r i)
  with assms slot_counters(1) show ?thesis
    by (fastforce simp: on_data_def no_lost_wake_up_def room_def ready_def simp del: produce_slot.simps split: prod.splits)
next
  case (Copy r i)
  with assms slot_counters(1) show ?thesis
    by (fastforce simp: on_data_def no_lost_wake_up_def room_def ready_def simp del: produce_slot.simps split: prod.splits)
qed (use assms in \<open>auto simp: on_data_def no_lost_wake_up_def wait_lock_def lock_wait_def lock_release_def
      lock_wake_up_def publish_def room_def ready_def split: if_splits\<close>)

lemma consume4_wakes:
  assumes "no_lost_wake_up p c lock d" "consume4 c (lock, d) = (c', lock', d')"
  shows "no_lost_wake_up p c' lock' d'"
proof (cases c)
  case (Enter r)
  then have "enter_lock 1 (Enter r) (Test r) (lock, d) = (c', lock', d')" using assms(2) by simp
  then show ?thesis
    using Enter assms(1) by (elim enter_lock_cases) (auto simp: no_lost_wake_up_def dest: asleep_acquire)
next
  case (Sleep r)
  then have "rise 1 (Sleep r) (Test r) (lock, d) = (c', lock', d')" using assms(2) by simp
  then show ?thesis
    using Sleep assms(1) by (elim rise_cases) (auto simp: no_lost_wake_up_def dest: asleep_acquire)
next
  case (Take r i)
  with assms slot_counters(2) show ?thesis
    by (fastforce simp: on_data_def no_lost_wake_up_def room_def ready_def simp del: consume_slot.simps split: prod.splits)
qed (use assms in \<open>auto simp: on_data_def no_lost_wake_up_def wait_lock_def lock_wait_def lock_release_def
      lock_wake_up_def retire_def room_def ready_def split: if_splits\<close>)

lemma produce4_at: "produce4 rnd p (lock, d) = (p', s') \<Longrightarrow> at_producer p \<Longrightarrow> at_producer p'"
  by (cases p) (auto simp: enter_lock_def rise_def wait_lock_def on_data_def split: if_splits option.splits)

lemma consume4_at: "consume4 c (lock, d) = (c', s') \<Longrightarrow> at_consumer c \<Longrightarrow> at_consumer c'"
  by (cases c) (auto simp: enter_lock_def rise_def wait_lock_def on_data_def split: if_splits option.splits)

interpretation procon4: thread_invariant "procon4_step rnd" 3 "pc_start (lock_init, pc_init)" inv4 for rnd
proof unfold_locales
  show "inv4 (fst (pc_start (lock_init, pc_init))) (snd (pc_start (lock_init, pc_init)))"
    by (simp add: inv4_def pc_start_def data_start excludes_def lock_init_def no_lost_wake_up_def)
  fix ls s i l' s'
  assume a: "inv4 ls s" "i < 3" "procon4_step rnd i (ls i) s = (l', s')"
  obtain lock d lock' d' where s: "s = (lock, d)" "s' = (lock', d')" by (cases s; cases s') simp
  then have inv: "data_ok 8 (ls 0) (ls 1) d" "excludes in_crit 3 ls lock" "no_lost_wake_up (ls 0) (ls 1) lock d"
    "at_producer (ls 0)" "at_consumer (ls 1)" "holder lock \<in> {None, Some 0, Some 1}"
    using a(1) by (simp_all add: inv4_def)
  consider "i = 0" | "i = 1" | "i = 2" using a(2) by linarith
  then show "inv4 (ls(i := l')) s'"
  proof cases
    case 1
    then have p: "produce4 rnd (ls 0) (lock, d) = (l', lock', d')" using a(3) s by (simp add: procon4_step_def)
    from produce4_ok [OF inv(1) p] produce4_wakes [OF inv(3) p] produce4_at [OF p inv(4)] inv(5,6) lock_follows_excludes [OF inv(2) a(2)] 1 s
    show ?thesis by (auto simp: inv4_def lock_follows_def)
  next
    case 2
    then have c: "consume4 (ls 1) (lock, d) = (l', lock', d')" using a(3) s by (simp add: procon4_step_def)
    from consume4_ok [OF inv(1) c] consume4_wakes [OF inv(3) c] consume4_at [OF c inv(5)] inv(4,6) lock_follows_excludes [OF inv(2) a(2)] 2 s
    show ?thesis by (auto simp: inv4_def lock_follows_def)
  next
    case 3
    then have "ls(i := l') = ls" "lock' = lock_wake_up lock" "d' = d" using a(3) s by (auto simp: procon4_step_def)
    with inv s show ?thesis by (auto simp: inv4_def no_lost_wake_up_def lock_wake_up_def excludes_def)
  qed
qed

section \<open>Properties\<close>

text \<open>C33: the data arrives. In every interleaving of \<open>procon2\<close>, \<open>procon3\<close> and \<open>procon4\<close> (spurious
  wake-ups included) every slot the consumer has announced holds exactly what the producer
  made, never more slots are in flight than the buffer has, and when both have returned \<open>main\<close>
  finds all rounds equal.\<close>

theorem synchronized_data_arrives:
  assumes "run_threads (procon2_step rnd) 2 (pc_start (lock_init, pc_init)) (ls, lock, d) \<and> slots = 1024 \<or>
    run_threads (procon3_step rnd) 2 (pc_start pc_init) (ls, d) \<and> slots = 1024 \<or>
    run_threads (procon4_step rnd) 3 (pc_start (lock_init, pc_init)) (ls, lock, d) \<and> slots = 8"
  shows "consumed_until d \<le> produced_until d \<and> produced_until d \<le> consumed_until d + slots \<and>
    (\<forall>r < consumed_until d. are_same (consumed d r) (produced d r)) \<and>
    (ls 0 = Ended \<and> ls 1 = Ended \<longrightarrow> pc_check 0 d = None)"
proof -
  have ok: "data_ok slots (ls 0) (ls 1) d"
    using assms
  proof (elim disjE conjE)
    assume "run_threads (procon2_step rnd) 2 (pc_start (lock_init, pc_init)) (ls, lock, d)" "slots = 1024"
    then show ?thesis using procon2.holds by (fastforce simp: inv2_def)
  next
    assume "run_threads (procon3_step rnd) 2 (pc_start pc_init) (ls, d)" "slots = 1024"
    then show ?thesis using procon3.holds by (fastforce simp: inv3_def)
  next
    assume "run_threads (procon4_step rnd) 3 (pc_start (lock_init, pc_init)) (ls, lock, d)" "slots = 8"
    then show ?thesis using procon4.holds by (fastforce simp: inv4_def)
  qed
  then show ?thesis using data_end by (auto simp: data_ok_def are_same_def same_from_iff)
qed

theorem synchronized_data_arrives_witness:
  "\<exists>ls d. run_threads (procon3_step (\<lambda>_ _. 7)) 2 (pc_start pc_init) (ls, d) \<and> ls 0 = Test 0 \<and>
    produced_until d \<le> consumed_until d + 1024"
proof -
  have r: "run_threads (procon3_step (\<lambda>_ _. 7)) 2 (pc_start pc_init) ((\<lambda>_. Turn 0)(0 := Test 0), pc_init)"
    unfolding pc_start_def by (rule run_one) (simp_all add: procon3_step_def PC_RUNS_def)
  from synchronized_data_arrives [OF disjI2 [OF disjI1 [OF conjI [OF r refl]]]]
  have "produced_until pc_init \<le> consumed_until pc_init + 1024" by blast
  moreover have "((\<lambda>_. Turn 0)(0 := Test 0)) (0 :: nat) = Test 0" by simp
  ultimately show ?thesis using r by blast
qed

text \<open>The condition variable loses no wake-up. In every reachable state of \<open>procon4\<close> in which a
  thread has not returned, one of the two can move on; a sleeper whose condition holds will be
  woken, the other thread being between its increment and its broadcast.\<close>

theorem condition_variable_no_deadlock:
  assumes "run_threads (procon4_step rnd) 3 (pc_start (lock_init, pc_init)) (ls, lock, d)"
  shows "(ls 0 \<noteq> Ended \<or> ls 1 \<noteq> Ended \<longrightarrow> (\<exists>i < 2. fst (procon4_step rnd i (ls i) (lock, d)) \<noteq> ls i)) \<and>
    (0 \<in> asleep lock \<and> room 8 (announced (ls 0)) d \<longrightarrow> waking (ls 1)) \<and>
    (1 \<in> asleep lock \<and> ready (announced (ls 1)) d \<longrightarrow> waking (ls 0))"
proof -
  have "inv4 ls (lock, d)" using procon4.holds [OF assms] by simp
  then have ok: "data_ok 8 (ls 0) (ls 1) d" and ex: "excludes in_crit 3 ls lock"
    and wk: "no_lost_wake_up (ls 0) (ls 1) lock d" and at_pc: "at_producer (ls 0)" "at_consumer (ls 1)"
    and hold: "holder lock \<in> {None, Some 0, Some 1}"
    by (simp_all add: inv4_def)
  have c: "produced_until d = announced (ls 0)" "consumed_until d = announced (ls 1)" "in_range (ls 0)" "in_range (ls 1)"
    using ok by (simp_all add: data_ok_def)
  have move0: "fst (produce4 rnd (ls 0) (lock, d)) \<noteq> ls 0"
    if "ls 0 \<noteq> Ended" "\<not> sleeping (ls 0) \<or> 0 \<notin> asleep lock" "in_crit (ls 0) \<or> holder lock = None"
    using that ok at_pc
    by (cases "ls 0") (auto simp: enter_lock_def rise_def wait_lock_def on_data_def lock_acquire_def data_ok_def)
  have move1: "fst (consume4 (ls 1) (lock, d)) \<noteq> ls 1"
    if "ls 1 \<noteq> Ended" "\<not> sleeping (ls 1) \<or> 1 \<notin> asleep lock" "in_crit (ls 1) \<or> holder lock = None"
    using that ok at_pc
    by (cases "ls 1") (auto simp: enter_lock_def rise_def wait_lock_def on_data_def lock_acquire_def data_ok_def)
  have step: "\<exists>i < 2. fst (procon4_step rnd i (ls i) (lock, d)) \<noteq> ls i"
    if "fst (produce4 rnd (ls 0) (lock, d)) \<noteq> ls 0 \<or> fst (consume4 (ls 1) (lock, d)) \<noteq> ls 1"
    using that
    by (elim disjE) (auto simp: procon4_step_def intro: exI [of _ 0] exI [of _ "1 :: nat"])
  have "\<exists>i < 2. fst (procon4_step rnd i (ls i) (lock, d)) \<noteq> ls i" if go: "ls 0 \<noteq> Ended \<or> ls 1 \<noteq> Ended"
  proof (cases "in_crit (ls 0) \<or> in_crit (ls 1)")
    case True
    moreover have "\<not> sleeping p \<and> p \<noteq> Ended" if "in_crit p" for p using that by (cases p) simp_all
    ultimately show ?thesis using move0 move1 by (intro step) blast
  next
    case False
    then have free: "holder lock = None" using ex hold by (auto simp: excludes_def)
    have "\<not> (ls 0 = Ended \<or> sleeping (ls 0) \<and> 0 \<in> asleep lock) \<or> \<not> (ls 1 = Ended \<or> sleeping (ls 1) \<and> 1 \<in> asleep lock)"
    proof (rule ccontr)
      assume "\<not> ?thesis"
      then have stuck: "ls 0 = Ended \<or> sleeping (ls 0) \<and> 0 \<in> asleep lock"
        "ls 1 = Ended \<or> sleeping (ls 1) \<and> 1 \<in> asleep lock" by blast+
      have sl: "\<not> waking p \<and> (in_range p \<longrightarrow> announced p < PC_RUNS)" if "sleeping p" for p using that by (cases p) simp_all
      have "\<not> waking (ls 0)" "\<not> waking (ls 1)" using stuck sl by auto
      then have "0 \<in> asleep lock \<Longrightarrow> announced (ls 1) + 8 \<le> announced (ls 0)"
        "1 \<in> asleep lock \<Longrightarrow> announced (ls 0) \<le> announced (ls 1)"
        using wk c by (auto simp: no_lost_wake_up_def room_def ready_def)
      then show False using stuck go sl [of "ls 0"] sl [of "ls 1"] c(3,4) by auto
    qed
    then show ?thesis using free move0 move1 by (intro step) blast
  qed
  then show ?thesis using wk by (auto simp: no_lost_wake_up_def)
qed

theorem condition_variable_no_deadlock_witness:
  "\<exists>i < 2. fst (procon4_step (\<lambda>_ _. 7) i (Turn 0) (lock_init, pc_init)) \<noteq> Turn 0"
proof -
  have "run_threads (procon4_step (\<lambda>_ _. 7)) 3 (pc_start (lock_init, pc_init)) (\<lambda>_. Turn 0, lock_init, pc_init)"
    unfolding pc_start_def by (rule threads_start)
  from condition_variable_no_deadlock [OF this] show ?thesis by simp
qed

text \<open>The unsynchronised consumer has taken a byte too early: it stays wrong.\<close>

definition taken_early :: "texts \<Rightarrow> (nat \<Rightarrow> pc) \<Rightarrow> pc_data \<Rightarrow> bool" where
  "taken_early rnd ls d \<longleftrightarrow> consumed d 0 0 = 0 \<and> produced d 0 0 = rnd 0 0 \<and>
     ls 0 \<notin> {Turn 0, Fill 0 0} \<and> ls 1 \<notin> {Turn 0, Take 0 0} \<and>
     (\<forall>r i. ls 0 \<noteq> Take r i) \<and> (\<forall>r i. ls 1 \<noteq> Fill r i)"

definition early_state :: "texts \<Rightarrow> (pc, pc_data) threads_state" where
  "early_state rnd = ((\<lambda>_. Turn 0)(1 := Take 0 1, 0 := Fill 0 1), pc_init\<lparr>produced := put_text 0 0 (rnd 0 0) (\<lambda>_ _. 0)\<rparr>)"

interpretation procon1: thread_invariant "procon1_step rnd" 2 "early_state rnd" "taken_early rnd" for rnd
proof unfold_locales
  show "taken_early rnd (fst (early_state rnd)) (snd (early_state rnd))"
    by (simp add: taken_early_def early_state_def pc_init_def)
  fix ls d i l' d'
  assume a: "taken_early rnd ls d" "i < 2" "procon1_step rnd i (ls i) d = (l', d')"
  then consider "i = 0" | "i = 1" by linarith
  then show "taken_early rnd (ls(i := l')) d'"
  proof cases
    case 1
    with a show ?thesis by (cases "ls 0") (auto simp: taken_early_def procon1_step_def split: if_splits)
  next
    case 2
    with a show ?thesis by (cases "ls 1") (auto simp: taken_early_def procon1_step_def split: if_splits)
  qed
qed

text \<open>Without synchronisation data is lost. If the first random byte is not zero, there is an
  interleaving of \<open>procon1\<close> after which, whatever follows, \<open>main\<close> finds round 0 wrong.\<close>

theorem unsynchronized_data_lost:
  assumes "rnd 0 0 \<noteq> 0"
  shows "\<exists>ls d. run_threads (procon1_step rnd) 2 (pc_start pc_init) (ls, d) \<and>
    (\<forall>ls' d'. run_threads (procon1_step rnd) 2 (ls, d) (ls', d') \<longrightarrow> pc_check 0 d' = Some 0)"
proof -
  let ?l1 = "(\<lambda>_ :: nat. Turn 0)(1 := Take 0 0)" let ?l2 = "?l1(1 := Take 0 1)"
  let ?l3 = "?l2(0 := Fill 0 0)" let ?l4 = "?l3(0 := Fill 0 1)"
  note defs = procon1_step_def PC_RUNS_def DATA_TEXT_SIZE_def pc_init_def
  have "run_threads (procon1_step rnd) 2 (pc_start pc_init) (?l1, pc_init)"
    unfolding pc_start_def by (rule run_one) (simp_all add: defs)
  then have "run_threads (procon1_step rnd) 2 (pc_start pc_init) (?l2, pc_init)"
    by (rule threads_step) (simp_all add: defs put_text_def fun_upd_idem)
  then have "run_threads (procon1_step rnd) 2 (pc_start pc_init) (?l3, pc_init)"
    by (rule threads_step) (simp_all add: defs)
  then have "run_threads (procon1_step rnd) 2 (pc_start pc_init) (?l4, snd (early_state rnd))"
    by (rule threads_step) (simp_all add: defs early_state_def)
  moreover have "?l4 = fst (early_state rnd)" by (simp add: early_state_def)
  ultimately have early: "run_threads (procon1_step rnd) 2 (pc_start pc_init) (fst (early_state rnd), snd (early_state rnd))"
    by simp
  have "pc_check 0 d' = Some 0" if "run_threads (procon1_step rnd) 2 (early_state rnd) (ls', d')" for ls' d'
  proof -
    have "taken_early rnd ls' d'" using procon1.holds [OF that] by simp
    then have "\<not> are_same (produced d' 0) (consumed d' 0)"
      using assms by (auto simp: taken_early_def are_same_def same_from_iff DATA_TEXT_SIZE_def intro!: exI [of _ 0])
    then show ?thesis by (subst pc_check.simps) (simp add: PC_RUNS_def)
  qed
  then have "\<forall>ls' d'. run_threads (procon1_step rnd) 2 (fst (early_state rnd), snd (early_state rnd)) (ls', d') \<longrightarrow>
      pc_check 0 d' = Some 0" by simp
  with early show ?thesis by blast
qed

theorem unsynchronized_data_lost_witness:
  "\<exists>ls d. run_threads (procon1_step (\<lambda>_ _. 7)) 2 (pc_start pc_init) (ls, d) \<and> pc_check 0 d = Some 0"
  using unsynchronized_data_lost [of "\<lambda>_ _. 7"] threads_start by fastforce

end
