(* ===== verification/Playground.thy ===== *)
theory Playground
  imports Interleaving
begin

text \<open>
  The playground of \<open>playground/entrypoint.cpp\<close> and \<open>playground/runner.cpp\<close>: every worker takes the
  lock, increases a plain and an atomic counter and gives the lock back, 10000 times; the lock is
  the empty one the student has to complete. The plain increment is a read and a write.
\<close>

record playground =
  counter :: int
  check_counter :: int

definition new_playground :: playground where
  "new_playground = \<lparr>counter = 0, check_counter = 0\<rparr>"

text \<open>The member functions of \<open>Lock\<close>, all empty.\<close>

definition Lock_lock :: "playground \<Rightarrow> playground" where
  "Lock_lock s = s"

definition Lock_unlock :: "playground \<Rightarrow> playground" where
  "Lock_unlock s = s"

text \<open>
  One worker: at the head of iteration \<open>i\<close>, about to read and to write the counter, to call
  \<open>fetch_add\<close>, to leave the scope of the guard; returned.
\<close>

datatype entry_pc = Iterate nat | Guarded nat | Write_back nat int | Tally nat | Leave_scope nat | Left

fun entry_point :: "nat \<Rightarrow> entry_pc \<Rightarrow> playground \<Rightarrow> entry_pc \<times> playground" where
  "entry_point i (Iterate k) s = (if k < 10000 then (Guarded k, Lock_lock s) else (Left, s))"
| "entry_point i (Guarded k) s = (Write_back k (counter s), s)"
| "entry_point i (Write_back k v) s = (Tally k, s\<lparr>counter := v + 1\<rparr>)"
| "entry_point i (Tally k) s = (Leave_scope k, s\<lparr>check_counter := check_counter s + 1\<rparr>)"
| "entry_point i (Leave_scope k) s = (Iterate (k + 1), Lock_unlock s)"
| "entry_point i Left s = (Left, s)"

definition shared_check :: "playground \<Rightarrow> bool" where
  "shared_check s = (let calls = check_counter s in counter s = calls)"

text \<open>\<open>hardware_concurrency\<close> may be unknown.\<close>

definition playground_workers :: "nat \<Rightarrow> nat" where
  "playground_workers concurrency = (let res = concurrency in if res = 0 then 4 else res)"

definition entry_start :: "(entry_pc, playground) threads_state" where
  "entry_start = (\<lambda>_. Iterate 0, new_playground)"

section \<open>What is tallied\<close>

text \<open>Calls of \<open>shared_access\<close> a worker has tallied, and the increments still to be stored.\<close>

fun tallied :: "entry_pc \<Rightarrow> int" where
  "tallied (Iterate k) = int k"
| "tallied (Guarded k) = int k"
| "tallied (Write_back k v) = int k"
| "tallied (Tally k) = int k"
| "tallied (Leave_scope k) = int k + 1"
| "tallied Left = 10000"

fun entry_range :: "entry_pc \<Rightarrow> bool" where
  "entry_range (Iterate k) \<longleftrightarrow> k \<le> 10000"
| "entry_range (Guarded k) \<longleftrightarrow> k < 10000"
| "entry_range (Write_back k v) \<longleftrightarrow> k < 10000"
| "entry_range (Tally k) \<longleftrightarrow> k < 10000"
| "entry_range (Leave_scope k) \<longleftrightarrow> k < 10000"
| "entry_range Left \<longleftrightarrow> True"

definition tally_inv :: "nat \<Rightarrow> (nat \<Rightarrow> entry_pc) \<Rightarrow> playground \<Rightarrow> bool" where
  "tally_inv n ls s \<longleftrightarrow> check_counter s = (\<Sum>j < n. tallied (ls j)) \<and> (\<forall>j < n. entry_range (ls j))"

interpretation playground: thread_invariant entry_point n entry_start "tally_inv n" for n
proof unfold_locales
  show "tally_inv n (fst entry_start) (snd entry_start)"
    by (simp add: tally_inv_def entry_start_def new_playground_def)
  fix ls s i l' s'
  assume a: "tally_inv n ls s" "i < n" "entry_point i (ls i) s = (l', s')"
  note upd = sum_thread_upd [OF a(2), of tallied ls l']
  have "entry_range (ls i)" using a(1,2) by (simp add: tally_inv_def)
  then have "entry_range l'" "check_counter s' = check_counter s - tallied (ls i) + tallied l'"
    using a(3) by (cases "ls i"; auto simp: Lock_lock_def Lock_unlock_def split: if_splits)+
  then show "tally_inv n (ls(i := l')) s'" using a(1,2) upd by (auto simp: tally_inv_def)
qed

text \<open>The tally is right: when all workers have returned it is \<open>10000 * nbworkers\<close>.\<close>

lemma playground_tally:
  assumes "run_threads entry_point n entry_start (ls, s)" "\<forall>j < n. ls j = Left"
  shows "check_counter s = 10000 * int n"
  using playground.holds [OF assms(1)] assms(2) by (simp add: tally_inv_def)

section \<open>The empty lock\<close>

text \<open>A worker that runs alone from an iteration on.\<close>

lemma entry_alone:
  assumes "i < n" "ls i = Iterate k" "k \<le> 10000"
  shows "run_threads entry_point n (ls, s) (ls(i := Left),
    s\<lparr>counter := counter s + int (10000 - k), check_counter := check_counter s + int (10000 - k)\<rparr>)"
  using assms(2,3)
proof (induction "10000 - k" arbitrary: k ls s)
  case 0
  then have "s\<lparr>counter := counter s + int (10000 - k), check_counter := check_counter s + int (10000 - k)\<rparr> = s" by simp
  with 0 show ?case by (intro run_one [OF assms(1)]) simp
next
  case (Suc m)
  let ?s = "s\<lparr>counter := counter s + 1\<rparr>" let ?s' = "?s\<lparr>check_counter := check_counter s + 1\<rparr>"
  have k: "k < 10000" using Suc.hyps(2) by simp
  have 1: "run_threads entry_point n (ls, s) (ls(i := Guarded k), s)"
    by (rule run_one [OF assms(1)]) (use Suc.prems k in \<open>simp add: Lock_lock_def\<close>)
  have 2: "run_threads entry_point n (ls, s) (ls(i := Guarded k, i := Write_back k (counter s)), s)"
    by (rule threads_step [OF 1 assms(1)]) simp
  have 3: "run_threads entry_point n (ls, s) (ls(i := Guarded k, i := Write_back k (counter s), i := Tally k), ?s)"
    by (rule threads_step [OF 2 assms(1)]) simp
  have 4: "run_threads entry_point n (ls, s)
      (ls(i := Guarded k, i := Write_back k (counter s), i := Tally k, i := Leave_scope k), ?s')"
    by (rule threads_step [OF 3 assms(1)]) simp
  have 5: "run_threads entry_point n (ls, s)
      (ls(i := Guarded k, i := Write_back k (counter s), i := Tally k, i := Leave_scope k, i := Iterate (k + 1)), ?s')"
    by (rule threads_step [OF 4 assms(1)]) (simp add: Lock_unlock_def)
  have 6: "run_threads entry_point n (ls(i := Iterate (k + 1)), ?s')
      (ls(i := Iterate (k + 1), i := Left), ?s'\<lparr>counter := counter ?s' + int (10000 - (k + 1)),
        check_counter := check_counter ?s' + int (10000 - (k + 1))\<rparr>)"
    by (rule Suc.hyps(1)) (use Suc.hyps(2) k in simp_all)
  have eq: "?s'\<lparr>counter := counter ?s' + int (10000 - (k + 1)), check_counter := check_counter ?s' + int (10000 - (k + 1))\<rparr>
      = s\<lparr>counter := counter s + int (10000 - k), check_counter := check_counter s + int (10000 - k)\<rparr>"
    using k by simp
  show ?case using run_threads_trans [OF 6 5 [simplified fun_upd_upd]] unfolding eq fun_upd_upd .
qed

text \<open>Two workers: one reads the counter, the other runs to its end, and its increments are lost.\<close>

lemma empty_lock_loses_updates:
  "\<exists>ls s. run_threads entry_point 2 entry_start (ls, s) \<and> ls 0 = Left \<and> ls 1 = Left \<and>
    counter s = 10000 \<and> \<not> shared_check s"
proof -
  let ?l0 = "\<lambda>_ :: nat. Iterate 0" let ?l1 = "?l0(0 := Guarded 0)" let ?l2 = "?l1(0 := Write_back 0 0)"
  let ?l3 = "?l2(1 := Left)" let ?l4 = "?l3(0 := Tally 0)" let ?l5 = "?l4(0 := Leave_scope 0)"
  let ?l6 = "?l5(0 := Iterate 1)" let ?l7 = "?l6(0 := Left)"
  let ?s = "\<lambda>c t. \<lparr>counter = c, check_counter = t\<rparr>"
  have "run_threads entry_point 2 entry_start (?l1, ?s 0 0)"
    unfolding entry_start_def new_playground_def by (rule run_one) (simp_all add: Lock_lock_def)
  then have "run_threads entry_point 2 entry_start (?l2, ?s 0 0)" by (rule threads_step) simp_all
  moreover have "run_threads entry_point 2 (?l2, ?s 0 0) (?l3, ?s 10000 10000)"
    using entry_alone [of 1 2 ?l2 0 "?s 0 0"] by simp
  ultimately have "run_threads entry_point 2 entry_start (?l3, ?s 10000 10000)" by (rule run_threads_trans [rotated])
  then have "run_threads entry_point 2 entry_start (?l4, ?s 1 10000)" by (rule threads_step) simp_all
  then have "run_threads entry_point 2 entry_start (?l5, ?s 1 10001)" by (rule threads_step) simp_all
  then have "run_threads entry_point 2 entry_start (?l6, ?s 1 10001)"
    by (rule threads_step) (simp_all add: Lock_unlock_def)
  moreover have "run_threads entry_point 2 (?l6, ?s 1 10001) (?l7, ?s 10000 20000)"
    using entry_alone [of 0 2 ?l6 1 "?s 1 10001"] by simp
  ultimately have "run_threads entry_point 2 entry_start (?l7, ?s 10000 20000)" by (rule run_threads_trans [rotated])
  moreover have "?l7 0 = Left" "?l7 1 = Left" by simp_all
  ultimately show ?thesis
    by (intro exI [of _ ?l7] exI [of _ "?s 10000 20000"]) (simp add: shared_check_def)
qed

end
