(* ===== verification/Spec2Isabelle.thy ===== *)
theory Spec2Isabelle
  imports TL2_Theorems TL2_Progress TL2_Races TL2_Grading TL2_Alone TL2_Solo_Calls TL2_False_Alarm Wide_Calls Shared_Objects Barrier Bank_Theorems
    Bank_Retry Bank_Returns Counter_Check Measure_Throws Measure_Times Check_Throws Grading Reference_Agree Elections Producers_Correct Playground
begin

text \<open>
  A verification library for a software transactional memory in C++ (\<open>src/394984\<close>, the TL2
  algorithm), the grader that drives it (\<open>src/grading\<close>), the reference library it is measured
  against (\<open>src/reference\<close>), and the small programs that come with them (\<open>src/sync-examples\<close>,
  \<open>src/playground\<close>).

  \<^bold>\<open>The program.\<close> The library keeps a region of shared memory, a global version clock and an array
  of versioned locks; a transaction collects its reads and writes and installs them in \<open>tm_end\<close>. The
  grader loads a library, wraps it (\<open>TransactionalLibrary\<close>, \<open>TransactionalMemory\<close>, \<open>Transaction\<close>,
  \<open>Shared\<close>, \<open>transactional\<close>), runs the bank workload on it from several workers that \<open>Sync\<close>
  moves from round to round, and compares the times. The reference runs transactions under one
  reader-writer lock.

  \<^bold>\<open>The library, one access at a time.\<close>
  \<^item> \<open>TM_Prelude\<close>: words, byte memory, \<open>memcpy\<close> and \<open>memset\<close>, the interface of a word store.
  \<^item> \<open>Versioned_Lock\<close>: \<open>VersionedWriteLock\<close> of \<open>data-structures.cpp\<close> on its 64-bit word, and the
    stripe of an address.
  \<^item> \<open>TM_Structures\<close>: constructors and destructors of transactions and regions on a C++ heap.
  \<^item> \<open>TM_Library\<close>: every function of \<open>tm.cpp\<close> as a function of the heap; undefined behaviour is a
    value of \<open>fault\<close>, the results of allocators, spurious failures of the compare-and-swap and the
    iteration orders of the hash tables are arguments.
  \<^item> \<open>TL2_Model\<close>: \<open>tm_begin\<close>, \<open>tm_read\<close>, \<open>tm_write\<close> and \<open>tm_end\<close> of any number of threads as a step
    relation, one atomic access per step, sequentially consistent.

  \<^bold>\<open>What is shown of it.\<close> \<open>TL2_Steps\<close>, \<open>TL2_Invariant\<close>, \<open>TL2_Effects\<close>, \<open>TL2_Preserve\<close> build one
  invariant of the step relation; \<open>TL2_Runs\<close>, \<open>TL2_Serializability\<close> and \<open>TL2_Theorems\<close> draw from it
  that the commits of read-write transactions replay in the order of their stamps on an atomic
  memory, within the supported range: the clock below \<open>2 ^ 31\<close>, where \<open>unlock\<close> keeps versions, and no
  transaction with two written words on one stripe. \<open>TL2_Races\<close> has the schedules that show what
  goes wrong outside, and the torn snapshot of a read-only transaction inside.
  \<open>TL2_Progress\<close> bounds the accesses of a call. \<open>TM_Semantics\<close> gives the effect of each whole
  call on every branch, \<open>TM_Ownership\<close> which calls on live handles have undefined behaviour (\<open>tm_create\<close> when
  its third allocation fails, \<open>tm_write\<close> when a buffer cannot be allocated) and that nothing leaks, \<open>TL2_Alone\<close> that
  a whole call is a run of the step model in which one thread moves alone, and \<open>Wide_Calls\<close> that a call for
  many words is the sequence of the calls for its parts.

  \<^bold>\<open>The library and its clients together.\<close>
  \<^item> \<open>TL2_Clients\<close>: threads that call \<open>transactional()\<close> over \<open>TL2_Model\<close>, with \<open>tm_alloc\<close>, the destructors
    and the splice of the segment lists; beside it the atomic system, the same code over a memory that
    runs each body in one go. A read-only body of more than one read is given any result there,
    which is all the library promises of it.
  \<^item> \<open>TL2_Clients_Inv\<close>, \<open>TL2_Clients_Steps\<close>, \<open>TL2_Clients_Commit\<close>: the invariant of the composed system;
    \<open>TL2_Futures\<close>, \<open>TL2_Later\<close>: what a later state tells about an earlier one, since a stamp is drawn before
    it is known whether its transaction commits; \<open>TL2_Linearize\<close>, \<open>TL2_Composition\<close>: the simulation, and
    the theorem that every state is one of the atomic system.
  \<^item> \<open>TL2_Solo\<close>, \<open>TL2_Solo_Calls\<close>: a thread of the composed system that moves alone while no stripe is held
    completes its call at the first attempt, from the runs of \<open>TL2_Alone\<close>.
  \<^item> \<open>TL2_Workers\<close>, \<open>TL2_Rounds\<close>, \<open>TL2_Grading\<close>: the workers of \<open>measure\<close> with \<open>init\<close>, \<open>run\<close> and \<open>check\<close> of the
    bank as such threads, their phases, and what holds of them over the concurrent library.
  \<^item> \<open>TL2_Torn\<close>, \<open>TL2_False_Alarm\<close>: a run of two such workers in which the sum of one is torn by the transfer
    of the other and reported as a violation, while the bank is sound.

  \<^bold>\<open>The clients, one at a time.\<close>
  \<^item> \<open>TM_Client\<close>: the wrapper and the retry loop of \<open>transactional.hpp\<close> over any library, transaction
    bodies as programs, and the locale \<open>atomic_memory\<close> with the laws a client relies on;
    \<open>Seq_Client\<close> interprets it on \<open>TM_Library\<close>, \<open>Client_Theorems\<close> states what clients get.
    \<open>transactional_with\<close> is the retry loop for a closure that changes variables it captured, which
    survive an aborted attempt. \<open>Shared_Objects\<close> has the \<open>Shared\<close> templates for objects of any size,
    with and without the checks of assert mode.
  \<^item> \<open>Bank\<close>, \<open>Bank_Run\<close>: the bank of \<open>workload.hpp\<close>; its loops along the list of segments carry a fuel,
    \<open>2 ^ 64\<close> in the theorems, which exceeds the number of addresses and so of segments. The loop that draws
    accounts until a transfer finds them may go on for ever; \<open>Bank_Returns\<close> shows that \<open>init\<close> and \<open>run\<close> of a
    worker on its own come to their ends when the dice name existing accounts sooner or later. \<open>Bank_Lists\<close>
    abstracts the list, \<open>Bank_Theorems\<close> shows that money is conserved and that no audit fails, \<open>Bank_Retry\<close>
    what the retry of an aborted transfer does: the indices \<open>short_tx\<close> captured by reference are counted
    down by then. The workers, sequential and concurrent, retry with what is left of them.
  \<^item> \<open>Counter_Check\<close>: the concurrent check of the bank, over atomic transactions and the barrier;
    \<open>Check_Throws\<close>: workers that leave it with an exception, for which the others wait at the next barrier
    and \<open>measure\<close> for these.
  \<^item> \<open>Barrier\<close>, \<open>Timing\<close>: the spin barrier, \<open>Chrono\<close> and \<open>Latch\<close> of \<open>common.hpp\<close>.
  \<^item> \<open>Sync\<close>: the class \<open>Sync\<close> and \<open>measure\<close> of \<open>grading.cpp\<close>, one access per step; \<open>Sync_Invariant\<close>,
    \<open>Sync_Preserve\<close> and \<open>Sync_Theorems\<close> have the phases of a round and their invariant, \<open>Measure\<close> the
    verdict and lockstep. A part of the workload is one step, which reports, throws or never ends; nothing
    but such a part keeps \<open>measure\<close> waiting. \<open>Measure_Times\<close> has the meaning of the times, which add up
    over the rounds. The number of workers is
    any number from 1 to \<open>2 ^ 32 - 1\<close>, the range of the counter. \<open>Measure_Throws\<close> has the start of
    the threads and what \<open>measure\<close> leaves behind when it throws. \<open>Grading\<close> is \<open>main\<close>.

  \<^bold>\<open>The reference.\<close> \<open>Reference\<close> models \<open>tm.c\<close> and its lock; \<open>Reference_Lists\<close> and \<open>Reference_Theorems\<close>
  the doubly linked list of segments; \<open>Reference_Client\<close> that it is serial by construction;
  \<open>Reference_Agree\<close> that both libraries give a client the same results.

  \<^bold>\<open>The examples.\<close> \<open>Interleaving\<close> has runs of threads and the contract of an invariant as a locale;
  \<open>Counters\<close>, \<open>Elections\<close>, \<open>Producers\<close>, \<open>Producers_Correct\<close> and \<open>Playground\<close> interpret it for each
  program, and give the interleavings in which the unsynchronised ones go wrong.

  \<^bold>\<open>Not modelled.\<close> Weak memory: all concurrent models are sequentially consistent. In the concurrent
  models, a failing allocation of a transaction object inside \<open>tm_begin\<close> is a refused call, that of
  a write buffer does not occur, and the splice under \<open>list_lock\<close> is one step. The sequential clients
  (\<open>Seq_Client\<close>) likewise take write buffers to be allocated; \<open>TM_Ownership\<close> has what happens otherwise.
  Objects of the \<open>Shared\<close> templates have a size that is a multiple of 8 bytes. Console output, the
  random engines (the values drawn are arguments), \<open>dlopen\<close> and the system calls behind clocks and
  timeouts (arguments).
  The branch-prediction macros have no meaning. The drivers under \<open>src/testing\<close> only print, and
  \<open>submit.py\<close> uploads. \<open>reference/lock.c\<close>, used by nothing, is the same file as \<open>sync-examples/lock.c\<close>.
\<close>

end
